(* ===== verification/Prelude.thy ===== *)
theory Prelude imports Main "HOL-Library.Word" "HOL-Library.Sublist" begin

text \<open>
  What the components share: the characters of C strings with the predicates of
  \<^verbatim>\<open><ctype.h>\<close> (in the "C" locale), reads past the end of a C string, the result codes of
  the library, and the generic lemmas on lists and list updates that the component proofs use.
  The collections \<open>str_simps\<close> (character predicates) and \<open>inv_simps\<close> (invariants) are
  filled by the component theories.
\<close>

named_theorems str_simps \<open>definitions of character predicates and string helpers\<close>
named_theorems inv_simps \<open>definitions of the components' invariants\<close>

subsection \<open>Characters\<close>

text \<open>
  A \<^verbatim>\<open>char\<close> is a byte; \<open>ord\<close> is its value as an \<^verbatim>\<open>unsigned char\<close>. The predicates are
  those of the "C" locale, where no byte above 127 is alphanumeric or a space.
\<close>

abbreviation ord :: "char \<Rightarrow> nat" where
  "ord c \<equiv> of_char c"

abbreviation NUL :: char where
  "NUL \<equiv> CHR 0x00"

abbreviation CR :: char where
  "CR \<equiv> CHR 0x0D"

abbreviation LF :: char where
  "LF \<equiv> CHR 0x0A"

abbreviation TAB :: char where
  "TAB \<equiv> CHR 0x09"

definition isupper :: "char \<Rightarrow> bool" where
  [str_simps]: "isupper c \<longleftrightarrow> 65 \<le> ord c \<and> ord c \<le> 90"

definition islower :: "char \<Rightarrow> bool" where
  [str_simps]: "islower c \<longleftrightarrow> 97 \<le> ord c \<and> ord c \<le> 122"

definition isalpha :: "char \<Rightarrow> bool" where
  [str_simps]: "isalpha c \<longleftrightarrow> isupper c \<or> islower c"

definition isdigit :: "char \<Rightarrow> bool" where
  [str_simps]: "isdigit c \<longleftrightarrow> 48 \<le> ord c \<and> ord c \<le> 57"

definition isalnum :: "char \<Rightarrow> bool" where
  [str_simps]: "isalnum c \<longleftrightarrow> isalpha c \<or> isdigit c"

definition isxdigit :: "char \<Rightarrow> bool" where
  [str_simps]: "isxdigit c \<longleftrightarrow> isdigit c \<or> (65 \<le> ord c \<and> ord c \<le> 70) \<or> (97 \<le> ord c \<and> ord c \<le> 102)"

definition isspace :: "char \<Rightarrow> bool" where
  [str_simps]: "isspace c \<longleftrightarrow> ord c = 32 \<or> (9 \<le> ord c \<and> ord c \<le> 13)"

definition tolower :: "char \<Rightarrow> char" where
  [str_simps]: "tolower c = (if isupper c then char_of (ord c + 32) else c)"

lemma ord_less_256 [simp]: "ord c < 256"
  using of_char_mod_256 [of c, where 'a = nat] by (metis mod_less_divisor zero_less_numeral)

lemma ord_eq_iff: "ord c = ord d \<longleftrightarrow> c = d"
  by (simp add: of_char_eq_iff)

lemma ord_char_of [simp]: "n < 256 \<Longrightarrow> ord (char_of n) = n"
  by simp

subsection \<open>C strings\<close>

text \<open>
  A C string is the list of its characters without the terminator; reading at its length gives
  the terminator. Code that walks a string stops at the terminator, so no further read occurs.
\<close>

definition cstr_at :: "string \<Rightarrow> nat \<Rightarrow> char" where
  "cstr_at s i = (if i < length s then s ! i else NUL)"

lemma cstr_at_less [simp]: "i < length s \<Longrightarrow> cstr_at s i = s ! i"
  and cstr_at_ge [simp]: "length s \<le> i \<Longrightarrow> cstr_at s i = NUL"
  by (simp_all add: cstr_at_def)

lemma cstr_at_append:
  "cstr_at (s @ t) i = (if i < length s then s ! i else cstr_at t (i - length s))"
  by (auto simp: cstr_at_def nth_append)

text \<open>The substring \<^verbatim>\<open>[st, ed)\<close>, as copied by \<^verbatim>\<open>memcpy(dst, str + st, ed - st)\<close>.\<close>

definition substr :: "'a list \<Rightarrow> nat \<Rightarrow> nat \<Rightarrow> 'a list" where
  "substr s st ed = take (ed - st) (drop st s)"

lemma length_substr [simp]: "ed \<le> length s \<Longrightarrow> length (substr s st ed) = ed - st"
  by (simp add: substr_def)

lemma substr_append_mid: "length a = st \<Longrightarrow> st + length b = ed \<Longrightarrow> substr (a @ b @ c) st ed = b"
  by (auto simp: substr_def)

lemma set_substr_iff:
  assumes "ed \<le> length s"
  shows "(\<forall>c \<in> set (substr s st ed). P c) \<longleftrightarrow> (\<forall>j. st \<le> j \<and> j < ed \<longrightarrow> P (s ! j))"
proof
  assume L: "\<forall>c \<in> set (substr s st ed). P c"
  show "\<forall>j. st \<le> j \<and> j < ed \<longrightarrow> P (s ! j)"
  proof (intro allI impI)
    fix j assume j: "st \<le> j \<and> j < ed"
    then have "substr s st ed ! (j - st) = drop st s ! (j - st)"
      unfolding substr_def by (subst nth_take) auto
    also have "\<dots> = s ! j" using assms j by simp
    finally have "substr s st ed ! (j - st) = s ! j" .
    moreover have "j - st < length (substr s st ed)" using assms j by (simp add: diff_less_mono)
    ultimately show "P (s ! j)" using L by (metis nth_mem)
  qed
next
  assume R: "\<forall>j. st \<le> j \<and> j < ed \<longrightarrow> P (s ! j)"
  show "\<forall>c \<in> set (substr s st ed). P c"
    using assms R by (auto simp: substr_def in_set_conv_nth)
qed

text \<open>Case-insensitive comparison (\<^verbatim>\<open>strcasecmp(a, b) == 0\<close>).\<close>

definition strcaseeq :: "string \<Rightarrow> string \<Rightarrow> bool" where
  [str_simps]: "strcaseeq a b \<longleftrightarrow> map tolower a = map tolower b"

lemma strcaseeq_refl [simp]: "strcaseeq a a"
  and strcaseeq_sym: "strcaseeq a b \<longleftrightarrow> strcaseeq b a"
  and strcaseeq_trans: "strcaseeq a b \<Longrightarrow> strcaseeq b c \<Longrightarrow> strcaseeq a c"
  by (auto simp: strcaseeq_def)

lemma strcaseeq_length: "strcaseeq a b \<Longrightarrow> length a = length b"
  by (metis length_map strcaseeq_def)

subsection \<open>Lists\<close>

lemma takeWhile_append_stop:
  "(\<forall>x \<in> set xs. P x) \<Longrightarrow> \<not> P y \<Longrightarrow> takeWhile P (xs @ y # ys) = xs"
  by (induction xs) auto

lemma dropWhile_append_stop:
  "(\<forall>x \<in> set xs. P x) \<Longrightarrow> \<not> P y \<Longrightarrow> dropWhile P (xs @ y # ys) = y # ys"
  by (induction xs) auto

lemma takeWhile_neq_all [simp]: "c \<notin> set s \<Longrightarrow> takeWhile (\<lambda>x. x \<noteq> c) s = s"
  by (induction s) auto

lemma takeWhile_neq_append [simp]: "c \<notin> set s \<Longrightarrow> takeWhile (\<lambda>x. x \<noteq> c) (s @ c # t) = s"
  by (induction s) auto

lemma length_takeWhile_neq [simp]: "length (takeWhile (\<lambda>x. x \<noteq> c) s) < length s \<longleftrightarrow> c \<in> set s"
  by (induction s) auto

lemma length_remove1_mem: "x \<in> set xs \<Longrightarrow> length xs = Suc (length (remove1 x xs))"
  using length_pos_if_in_set [of x xs] by (simp add: length_remove1)

end
