(* ===== verification/StringUtil.thy ===== *)
theory StringUtil imports Prelude begin

text \<open>
  The string helpers of \<^verbatim>\<open>util/StringUtil.cc\<close>: percent-decoding in place, the two
  percent-encoders, splitting, stripping and the prefix test. The in-place decoder is modelled
  on the buffer it overwrites and refined to a function on the input; a locale states what makes
  an encoder invertible by the decoder, and both encoders are instances of it.
\<close>

subsection \<open>Hexadecimal digits\<close>

definition htoi :: "char \<Rightarrow> char \<Rightarrow> int" where
  "htoi s0 s1 =
     (let c = (if isupper s0 then tolower s0 else s0);
          value = (if 48 \<le> ord c \<and> ord c \<le> 57 then int (ord c) - 48
                   else int (ord c) - 97 + 10) * 16;
          c = (if isupper s1 then tolower s1 else s1)
      in value + (if 48 \<le> ord c \<and> ord c \<le> 57 then int (ord c) - 48
                  else int (ord c) - 97 + 10))"

definition itoh :: "nat \<Rightarrow> char" where
  "itoh n = (if n > 9 then char_of (n - 10 + 65) else char_of (n + 48))"

subsection \<open>Decoding in place\<close>

text \<open>
  \<open>url_decode_loop buf dest data len\<close> is the loop of \<^verbatim>\<open>url_decode(char *, size_t)\<close>: \<open>buf\<close> is
  the whole buffer (the terminator's byte included), \<open>dest\<close> and \<open>data\<close> are the offsets of the
  two cursors. The result is the buffer and the decoded length.
\<close>

function url_decode_loop :: "string \<Rightarrow> nat \<Rightarrow> nat \<Rightarrow> nat \<Rightarrow> string \<times> nat" where
  "url_decode_loop buf dest data len =
     (if len = 0 then (buf[dest := NUL], dest)
      else
        let len = len - 1 in
        if buf ! data = CHR ''%'' \<and> len \<ge> 2 \<and> isxdigit (buf ! (data + 1)) \<and> isxdigit (buf ! (data + 2))
        then url_decode_loop
               (buf[dest := char_of (nat (htoi (buf ! (data + 1)) (buf ! (data + 2))))])
               (dest + 1) (data + 3) (len - 2)
        else if buf ! data = CHR ''+''
        then url_decode_loop (buf[dest := CHR '' '']) (dest + 1) (data + 1) len
        else url_decode_loop (buf[dest := buf ! data]) (dest + 1) (data + 1) len)"
  by pat_completeness auto
termination
  by (relation "measure (\<lambda>(buf, dest, data, len). len)") auto

declare url_decode_loop.simps [simp del]

definition url_decode_buf :: "string \<Rightarrow> nat \<Rightarrow> string \<times> nat" where
  "url_decode_buf buf len = url_decode_loop buf 0 0 len"

text \<open>The overload on \<^verbatim>\<open>std::string\<close>: decode the buffer with its terminator, then resize.\<close>

definition url_decode_str :: "string \<Rightarrow> string" where
  "url_decode_str str =
     (if str = [] then []
      else case url_decode_buf (str @ [NUL]) (length str) of (buf, sz) \<Rightarrow> take sz buf)"

text \<open>What the decoder computes, as a function of its input.\<close>

fun url_decoded :: "string \<Rightarrow> string" where
  "url_decoded (p # a # b # s) =
     (if p = CHR ''%'' \<and> isxdigit a \<and> isxdigit b then char_of (nat (htoi a b)) # url_decoded s
      else (if p = CHR ''+'' then CHR '' '' else p) # url_decoded (a # b # s))"
| "url_decoded (p # s) = (if p = CHR ''+'' then CHR '' '' else p) # url_decoded s"
| "url_decoded [] = []"

subsection \<open>Encoding\<close>

definition url_char :: "char \<Rightarrow> bool" where
  "url_char c \<longleftrightarrow> isalnum c \<or> c = CHR ''-'' \<or> c = CHR ''_'' \<or> c = CHR ''.''
     \<or> c = CHR ''!'' \<or> c = CHR ''~'' \<or> c = CHR ''*'' \<or> c = CHR 0x27
     \<or> c = CHR ''('' \<or> c = CHR '')'' \<or> c = CHR '':'' \<or> c = CHR ''/''
     \<or> c = CHR ''@'' \<or> c = CHR ''?'' \<or> c = CHR ''#'' \<or> c = CHR ''&''"

definition component_char :: "char \<Rightarrow> bool" where
  "component_char c \<longleftrightarrow> isalnum c \<or> c = CHR ''-'' \<or> c = CHR ''_'' \<or> c = CHR ''.''
     \<or> c = CHR ''!'' \<or> c = CHR ''~'' \<or> c = CHR ''*'' \<or> c = CHR 0x27
     \<or> c = CHR ''('' \<or> c = CHR '')''"

fun url_encode_loop :: "string \<Rightarrow> string \<Rightarrow> string" where
  "url_encode_loop res [] = res"
| "url_encode_loop res (c # cs) =
     (if c = CHR '' '' then url_encode_loop (res @ ''+'') cs
      else if url_char c then url_encode_loop (res @ [c]) cs
      else url_encode_loop (res @ ''%'' @ [itoh (ord c div 16)] @ [itoh (ord c mod 16)]) cs)"

definition url_encode :: "string \<Rightarrow> string" where
  "url_encode str = url_encode_loop [] str"

fun url_encode_component_loop :: "string \<Rightarrow> string \<Rightarrow> string" where
  "url_encode_component_loop res [] = res"
| "url_encode_component_loop res (c # cs) =
     (if c = CHR '' '' then url_encode_component_loop (res @ ''+'') cs
      else if component_char c then url_encode_component_loop (res @ [c]) cs
      else url_encode_component_loop (res @ ''%'' @ [itoh (ord c div 16)] @ [itoh (ord c mod 16)]) cs)"

definition url_encode_component :: "string \<Rightarrow> string" where
  "url_encode_component str = url_encode_component_loop [] str"

subsection \<open>Splitting and stripping\<close>

text \<open>
  \<open>std::find\<close> from \<open>start\<close> gives the part before the next separator; the loop runs while a
  separator is found.
\<close>

function split_loop :: "string list \<Rightarrow> string \<Rightarrow> char \<Rightarrow> string list" where
  "split_loop res rest sep =
     (let piece = takeWhile (\<lambda>c. c \<noteq> sep) rest in
      if length piece < length rest
      then split_loop (res @ [piece]) (drop (length piece + 1) rest) sep
      else res @ [piece])"
  by pat_completeness auto
termination
  by (relation "measure (\<lambda>(res, rest, sep). length rest)") (auto intro: diff_less length_pos_if_in_set)

declare split_loop.simps [simp del]

definition split :: "string \<Rightarrow> char \<Rightarrow> string list" where
  "split str sep = split_loop [] str sep"

function split_filter_empty_loop :: "string list \<Rightarrow> string \<Rightarrow> char \<Rightarrow> string list" where
  "split_filter_empty_loop res rest sep =
     (let piece = takeWhile (\<lambda>c. c \<noteq> sep) rest in
      if length piece < length rest
      then split_filter_empty_loop (if 0 < length piece then res @ [piece] else res)
             (drop (length piece + 1) rest) sep
      else (if 0 < length piece then res @ [piece] else res))"
  by pat_completeness auto
termination
  by (relation "measure (\<lambda>(res, rest, sep). length rest)") (auto intro: diff_less length_pos_if_in_set)

declare split_filter_empty_loop.simps [simp del]

definition split_filter_empty :: "string \<Rightarrow> char \<Rightarrow> string list" where
  "split_filter_empty str sep = split_filter_empty_loop [] str sep"

text \<open>
  \<open>strip\<close> moves \<open>st\<close> forward and \<open>ed\<close> backward over the string's indices; the indices are
  integers since \<open>ed\<close> stops before \<open>st\<close> on a blank string.
\<close>

function strip_front :: "string \<Rightarrow> int \<Rightarrow> int \<Rightarrow> int" where
  "strip_front str st ed =
     (if st \<le> ed \<and> isspace (str ! nat st) then strip_front str (st + 1) ed else st)"
  by pat_completeness auto
termination
  by (relation "measure (\<lambda>(str, st, ed). nat (ed + 1 - st))") auto

function strip_back :: "string \<Rightarrow> int \<Rightarrow> int \<Rightarrow> int" where
  "strip_back str st ed =
     (if ed \<ge> st \<and> isspace (str ! nat ed) then strip_back str st (ed - 1) else ed)"
  by pat_completeness auto
termination
  by (relation "measure (\<lambda>(str, st, ed). nat (ed + 1 - st))") auto

declare strip_front.simps [simp del] strip_back.simps [simp del]

definition strip :: "string \<Rightarrow> string" where
  "strip str =
     (if str = [] then []
      else
        let ed = int (length str) - 1;
            st = strip_front str 0 ed;
            ed = strip_back str st ed
        in if ed \<ge> st then take (nat (ed - st + 1)) (drop (nat st) str) else [])"

fun start_with_loop :: "string \<Rightarrow> string \<Rightarrow> nat \<Rightarrow> nat \<Rightarrow> bool" where
  "start_with_loop str pre i 0 = True"
| "start_with_loop str pre i (Suc n) =
     (if str ! i \<noteq> pre ! i then False else start_with_loop str pre (i + 1) n)"

definition start_with :: "string \<Rightarrow> string \<Rightarrow> bool" where
  "start_with str pre =
     (if length str < length pre then False else start_with_loop str pre 0 (length pre))"

subsection \<open>Hexadecimal digits are inverse\<close>

definition hexval :: "char \<Rightarrow> int" where
  "hexval s = (let c = (if isupper s then tolower s else s)
     in if 48 \<le> ord c \<and> ord c \<le> 57 then int (ord c) - 48 else int (ord c) - 97 + 10)"

lemma htoi_hexval: "htoi a b = hexval a * 16 + hexval b"
  by (simp add: htoi_def hexval_def Let_def)

lemma hexval_itoh: "n < 16 \<Longrightarrow> hexval (itoh n) = int n"
  by (auto simp: hexval_def itoh_def str_simps Let_def)

lemma isxdigit_itoh: "n < 16 \<Longrightarrow> isxdigit (itoh n)"
  by (auto simp: itoh_def str_simps)

lemma hexval_bounds: "isxdigit c \<Longrightarrow> 0 \<le> hexval c \<and> hexval c < 16"
  by (auto simp: hexval_def str_simps Let_def)

lemma htoi_itoh: "n < 256 \<Longrightarrow> htoi (itoh (n div 16)) (itoh (n mod 16)) = int n"
proof -
  assume "n < 256"
  then have "n div 16 < 16" by simp
  then have "htoi (itoh (n div 16)) (itoh (n mod 16)) = int (n div 16) * 16 + int (n mod 16)"
    by (simp add: htoi_hexval hexval_itoh del: of_nat_div of_nat_mod)
  then show ?thesis by (metis div_mult_mod_eq of_nat_add of_nat_mult of_nat_numeral)
qed

subsection \<open>The in-place decoder computes the decoded string\<close>

lemma url_decoded_Cons:
  "url_decoded (c # s) =
     (if c = CHR ''%'' \<and> 2 \<le> length s \<and> isxdigit (s ! 0) \<and> isxdigit (s ! 1)
      then char_of (nat (htoi (s ! 0) (s ! 1))) # url_decoded (drop 2 s)
      else (if c = CHR ''+'' then CHR '' '' else c) # url_decoded s)"
  by (cases s; cases "tl s") auto

lemma length_url_decoded: "length (url_decoded s) \<le> length s"
  by (induction s rule: url_decoded.induct) auto

lemma take_drop_Suc:
  "data + Suc n \<le> length buf \<Longrightarrow>
     take (Suc n) (drop data buf) = buf ! data # take n (drop (Suc data) buf)"
  by (metis Cons_nth_drop_Suc add_Suc_right less_eq_Suc_le take_Suc_Cons trans_less_add1
      le_add1 order_less_le_trans le_imp_less_Suc)

lemma url_decode_loop_correct:
  assumes "dest \<le> data" and "data + len < length buf"
    and "url_decode_loop buf dest data len = (buf', n)"
  shows "take n buf' = take dest buf @ url_decoded (take len (drop data buf))
    \<and> n = dest + length (url_decoded (take len (drop data buf)))
    \<and> length buf' = length buf \<and> buf' ! n = NUL"
  using assms
proof (induction buf dest data len rule: url_decode_loop.induct)
  case (1 buf dest data len)
  show ?case
  proof (cases len)
    case 0
    with "1.prems" show ?thesis by (auto simp: url_decode_loop.simps [of buf dest data 0])
  next
    case (Suc l)
    let ?s = "take l (drop (Suc data) buf)"
    have dec: "take len (drop data buf) = buf ! data # ?s"
      using "1.prems" Suc by (simp add: take_drop_Suc)
    have ls: "length ?s = l" using "1.prems" Suc by simp
    have nths: "2 \<le> l \<Longrightarrow> ?s ! 0 = buf ! (data + 1) \<and> ?s ! 1 = buf ! (data + 2)"
      using "1.prems" Suc by simp
    have upd: "take (Suc dest) (buf[dest := x]) = take dest buf @ [x]" for x
      using "1.prems" by (simp add: take_Suc_conv_app_nth)
    have rest1: "drop (Suc data) (buf[dest := x]) = drop (Suc data) buf" for x
      using "1.prems" by simp
    have rest: "0 < k \<Longrightarrow> drop (data + k) (buf[dest := x]) = drop (data + k) buf" for x k
      using "1.prems" by simp
    consider (hex) "buf ! data = CHR ''%'' \<and> 2 \<le> l \<and> isxdigit (buf ! (data + 1)) \<and> isxdigit (buf ! (data + 2))"
      | (plain) "\<not> (buf ! data = CHR ''%'' \<and> 2 \<le> l \<and> isxdigit (buf ! (data + 1)) \<and> isxdigit (buf ! (data + 2)))"
      by blast
    then show ?thesis
    proof cases
      case hex
      let ?x = "char_of (nat (htoi (buf ! (data + 1)) (buf ! (data + 2)))) :: char"
      have call: "url_decode_loop (buf[dest := ?x]) (dest + 1) (data + 3) (l - 2) = (buf', n)"
        using "1.prems"(3) Suc hex by (simp add: url_decode_loop.simps [of buf dest data "Suc l"])
      have "take n buf' = take (dest + 1) (buf[dest := ?x])
              @ url_decoded (take (l - 2) (drop (data + 3) (buf[dest := ?x])))
          \<and> n = dest + 1 + length (url_decoded (take (l - 2) (drop (data + 3) (buf[dest := ?x]))))
          \<and> length buf' = length (buf[dest := ?x]) \<and> buf' ! n = NUL"
        by (rule "1.IH"(1) [of l, OF _ _ _ _ _ call]) (use "1.prems" Suc hex in auto)
      moreover have "url_decoded (buf ! data # ?s) = ?x # url_decoded (take (l - 2) (drop (data + 3) buf))"
        using hex nths ls by (simp add: url_decoded_Cons drop_take numeral_3_eq_3)
      ultimately show ?thesis by (auto simp: dec upd rest rest1)
    next
      case plain
      let ?x = "if buf ! data = CHR ''+'' then CHR '' '' else buf ! data"
      have call: "url_decode_loop (buf[dest := ?x]) (dest + 1) (data + 1) l = (buf', n)"
        using "1.prems"(3) Suc plain by (auto simp: url_decode_loop.simps [of buf dest data "Suc l"] split: if_splits)
      have IH: "take n buf' = take (dest + 1) (buf[dest := ?x])
              @ url_decoded (take l (drop (data + 1) (buf[dest := ?x])))
          \<and> n = dest + 1 + length (url_decoded (take l (drop (data + 1) (buf[dest := ?x]))))
          \<and> length buf' = length (buf[dest := ?x]) \<and> buf' ! n = NUL"
      proof (cases "buf ! data = CHR ''+''")
        case True
        show ?thesis unfolding if_P [OF True]
          by (rule "1.IH"(2) [of l, OF _ _ _ True])
             (use "1.prems" Suc plain call [unfolded if_P [OF True]] in simp_all)
      next
        case False
        show ?thesis unfolding if_not_P [OF False]
          by (rule "1.IH"(3) [of l, OF _ _ _ False])
             (use "1.prems" Suc plain call [unfolded if_not_P [OF False]] in simp_all)
      qed
      moreover have "url_decoded (buf ! data # ?s) = ?x # url_decoded ?s"
        using plain nths ls by (subst url_decoded_Cons) auto
      ultimately show ?thesis by (auto simp: dec upd rest rest1)
    qed
  qed
qed

lemma url_decode_buf_correct:
  assumes "len < length buf" and "url_decode_buf buf len = (buf', n)"
  shows "take n buf' = url_decoded (take len buf) \<and> n \<le> len \<and> buf' ! n = NUL \<and> length buf' = length buf"
  using url_decode_loop_correct [of 0 0 len buf buf' n] assms length_url_decoded [of "take len buf"]
  by (auto simp: url_decode_buf_def)

lemma url_decode_str_eq: "url_decode_str s = url_decoded s"
proof -
  obtain buf n where bn: "url_decode_buf (s @ [NUL]) (length s) = (buf, n)" by fastforce
  then have "take n buf = url_decoded (take (length s) (s @ [NUL]))"
    using url_decode_buf_correct [OF _ bn] by simp
  then show ?thesis by (simp add: url_decode_str_def bn)
qed

subsection \<open>Encoders the decoder inverts\<close>

text \<open>
  An encoder works character by character: a space becomes a plus sign, a character of the
  class \<open>plain\<close> stays, any other becomes a percent sign and two hexadecimal digits. The
  decoder inverts it when the class holds neither the percent sign nor the plus sign.
\<close>

locale percent_encoder =
  fixes plain :: "char \<Rightarrow> bool"
    and enc :: "string \<Rightarrow> string"
  assumes enc_Nil: "enc [] = []"
    and enc_Cons: "enc (c # s) =
      (if c = CHR '' '' then ''+'' else if plain c then [c]
       else [CHR ''%'', itoh (ord c div 16), itoh (ord c mod 16)]) @ enc s"
    and plain_safe: "plain c \<Longrightarrow> c \<noteq> CHR ''%'' \<and> c \<noteq> CHR ''+''"
begin

lemma decoded_enc: "url_decoded (enc s) = s"
proof (induction s)
  case Nil
  show ?case by (simp add: enc_Nil)
next
  case (Cons c s)
  have hex: "ord c div 16 < 16" by (rule less_mult_imp_div_less) simp
  show ?case
    using Cons plain_safe [of c]
    by (auto simp: enc_Cons url_decoded_Cons [of _ "enc s"] isxdigit_itoh [OF hex] isxdigit_itoh htoi_itoh)
qed

lemma enc_inj: "enc s = enc t \<longleftrightarrow> s = t"
  by (metis decoded_enc)

lemma enc_chars: "x \<in> set (enc s) \<Longrightarrow> plain x \<or> x = CHR ''+'' \<or> x = CHR ''%'' \<or> isxdigit x"
proof (induction s)
  case Nil
  then show ?case by (simp add: enc_Nil)
next
  case (Cons c s)
  have hex: "ord c div 16 < 16" by (rule less_mult_imp_div_less) simp
  show ?case
    using Cons by (auto simp: enc_Cons isxdigit_itoh [OF hex] isxdigit_itoh split: if_splits)
qed

lemma length_enc: "length s \<le> length (enc s) \<and> length (enc s) \<le> 3 * length s"
  by (induction s) (auto simp: enc_Nil enc_Cons)

end

lemma url_encode_loop_acc: "url_encode_loop res s = res @ url_encode_loop [] s"
proof (induction s arbitrary: res)
  case (Cons c s)
  show ?case by (subst (1 2) url_encode_loop.simps) (simp add: Cons [of "_ @ _"] Cons [of "_ # _"])
qed simp

lemma url_encode_component_loop_acc:
  "url_encode_component_loop res s = res @ url_encode_component_loop [] s"
proof (induction s arbitrary: res)
  case (Cons c s)
  show ?case
    by (subst (1 2) url_encode_component_loop.simps) (simp add: Cons [of "_ @ _"] Cons [of "_ # _"])
qed simp

interpretation uri_enc: percent_encoder url_char url_encode
proof
  show "url_encode [] = []" by (simp add: url_encode_def)
  show "url_encode (c # s) =
      (if c = CHR '' '' then ''+'' else if url_char c then [c]
       else [CHR ''%'', itoh (ord c div 16), itoh (ord c mod 16)]) @ url_encode s" for c s
    by (simp add: url_encode_def url_encode_loop_acc [of "_ # _"])
  show "url_char c \<Longrightarrow> c \<noteq> CHR ''%'' \<and> c \<noteq> CHR ''+''" for c
    by (auto simp: url_char_def str_simps)
qed

interpretation component_enc: percent_encoder component_char url_encode_component
proof
  show "url_encode_component [] = []" by (simp add: url_encode_component_def)
  show "url_encode_component (c # s) =
      (if c = CHR '' '' then ''+'' else if component_char c then [c]
       else [CHR ''%'', itoh (ord c div 16), itoh (ord c mod 16)]) @ url_encode_component s" for c s
    by (simp add: url_encode_component_def url_encode_component_loop_acc [of "_ # _"])
  show "component_char c \<Longrightarrow> c \<noteq> CHR ''%'' \<and> c \<noteq> CHR ''+''" for c
    by (auto simp: component_char_def str_simps)
qed

subsection \<open>Splitting\<close>

text \<open>The pieces put together again with the separator between them.\<close>

fun join :: "char \<Rightarrow> string list \<Rightarrow> string" where
  "join sep [] = []"
| "join sep [p] = p"
| "join sep (p # q # ps) = p @ sep # join sep (q # ps)"

lemma join_Cons: "ps \<noteq> [] \<Longrightarrow> join sep (p # ps) = p @ sep # join sep ps"
  by (cases ps) auto

lemma split_loop_acc: "split_loop res rest sep = res @ split_loop [] rest sep"
proof (induction rest arbitrary: res rule: length_induct)
  case (1 rest)
  let ?p = "takeWhile (\<lambda>c. c \<noteq> sep) rest"
  show ?case
  proof (cases "sep \<in> set rest")
    case True
    then have shorter: "length (drop (length ?p + 1) rest) < length rest"
      by (auto intro: diff_less length_pos_if_in_set)
    have "split_loop (r @ [?p]) (drop (length ?p + 1) rest) sep
        = (r @ [?p]) @ split_loop [] (drop (length ?p + 1) rest) sep" for r
      using "1.IH" shorter by blast
    from this [of res] this [of "[]"] True show ?thesis
      by (simp add: split_loop.simps [of res rest sep] split_loop.simps [of "[]" rest sep] Let_def)
  qed (simp add: split_loop.simps [of _ rest sep] Let_def)
qed

lemma split_unfold:
  "split s sep =
     (let piece = takeWhile (\<lambda>c. c \<noteq> sep) s in
      if length piece < length s then piece # split (drop (length piece + 1) s) sep else [s])"
  by (simp add: split_def Let_def split_loop.simps [of "[]" s sep] split_loop_acc [of "[_]"])

lemma split_no_sep: "sep \<notin> set s \<Longrightarrow> split s sep = [s]"
  by (subst split_unfold) simp

lemma split_append: "sep \<notin> set p \<Longrightarrow> split (p @ sep # s) sep = p # split s sep"
  by (subst split_unfold) simp

lemma split_cases:
  obtains (one) "sep \<notin> set s" "split s sep = [s]"
    | (more) p t where "s = p @ sep # t" "sep \<notin> set p" "split s sep = p # split t sep"
  by (metis split_list_first split_append split_no_sep)

lemma split_nonempty: "split s sep \<noteq> []"
  by (rule split_cases [of sep s]) auto

lemma join_split: "join sep (split s sep) = s"
proof (induction s rule: length_induct)
  case (1 s)
  show ?case
    by (rule split_cases [of sep s]) (use 1 in \<open>auto simp: join_Cons split_nonempty\<close>)
qed

lemma split_pieces: "p \<in> set (split s sep) \<Longrightarrow> sep \<notin> set p"
proof (induction s rule: length_induct)
  case (1 s)
  show ?case
    by (rule split_cases [of sep s]) (use 1 in auto)
qed

lemma split_join: "ps \<noteq> [] \<Longrightarrow> \<forall>p \<in> set ps. sep \<notin> set p \<Longrightarrow> split (join sep ps) sep = ps"
  by (induction sep ps rule: join.induct) (auto simp: split_no_sep split_append)

lemma split_filter_empty_loop_acc:
  "split_filter_empty_loop res rest sep = res @ filter (\<lambda>p. p \<noteq> []) (split rest sep)"
proof (induction res rest sep rule: split_filter_empty_loop.induct)
  case (1 res rest sep)
  show ?case
    using "1.IH" [OF refl]
    by (subst split_unfold)
       (auto simp: Let_def split_filter_empty_loop.simps [of res rest sep])
qed

lemma split_filter_empty_eq: "split_filter_empty s sep = filter (\<lambda>p. p \<noteq> []) (split s sep)"
  by (simp add: split_filter_empty_def split_filter_empty_loop_acc)

subsection \<open>Stripping and prefixes\<close>

lemma strip_front_eq:
  assumes "0 \<le> st" and "st \<le> int (length str)"
  shows "strip_front str st (int (length str) - 1)
    = st + int (length (takeWhile isspace (drop (nat st) str)))"
  using assms
proof (induction "nat (int (length str) - st)" arbitrary: st)
  case 0
  then have "st = int (length str)" by simp
  then show ?case by (simp add: strip_front.simps)
next
  case (Suc n)
  then have st: "nat st < length str" by linarith
  then have d: "drop (nat st) str = str ! nat st # drop (nat (st + 1)) str"
    using Suc.prems by (simp add: Cons_nth_drop_Suc nat_add_distrib)
  show ?case
  proof (cases "isspace (str ! nat st)")
    case True
    have "strip_front str (st + 1) (int (length str) - 1)
        = st + 1 + int (length (takeWhile isspace (drop (nat (st + 1)) str)))"
      by (rule Suc.hyps) (use Suc.hyps(2) Suc.prems st in auto)
    with True st d show ?thesis by (subst strip_front.simps) simp
  next
    case False
    with d show ?thesis by (subst strip_front.simps) simp
  qed
qed

lemma strip_back_eq:
  assumes "st + length t \<le> length str" and "t = take (length t) (drop st str)"
  shows "strip_back str (int st) (int st + int (length t) - 1)
    = int st + int (length t) - 1 - int (length (takeWhile isspace (rev t)))"
  using assms
proof (induction t rule: rev_induct)
  case Nil
  then show ?case by (simp add: strip_back.simps)
next
  case (snoc x t)
  have t: "t = take (length t) (drop st str)"
    using snoc.prems by (metis append_eq_append_conv append_take_drop_id length_append_singleton
        take_Suc_conv_app_nth length_take min.absorb2 nat_le_linear take_all butlast_snoc butlast_take
        diff_Suc_1 le_add1 add_le_imp_le_diff)
  have x: "str ! (st + length t) = x"
    using snoc.prems by (metis add_leD1 length_append_singleton less_Suc_eq nth_append_length
        nth_drop nth_take)
  have IH: "strip_back str (int st) (int st + int (length t) - 1)
      = int st + int (length t) - 1 - int (length (takeWhile isspace (rev t)))"
    by (rule snoc.IH) (use snoc.prems t in auto)
  have "nat (int st + int (length t)) = st + length t" by simp
  with IH x show ?case
    by (subst strip_back.simps) (auto simp: algebra_simps)
qed

lemma strip_eq: "strip str = rev (dropWhile isspace (rev (dropWhile isspace str)))"
proof (cases "str = []")
  case False
  let ?k = "length (takeWhile isspace str)"
  let ?t = "dropWhile isspace str"
  let ?m = "length (takeWhile isspace (rev ?t))"
  have t: "?t = drop ?k str" by (simp add: dropWhile_eq_drop)
  have lt: "length ?t = length str - ?k" and k: "?k \<le> length str"
    by (simp_all add: t length_takeWhile_le)
  have st: "strip_front str 0 (int (length str) - 1) = int ?k"
    using strip_front_eq [of 0 str] by simp
  have "strip_back str (int ?k) (int ?k + int (length ?t) - 1) = int ?k + int (length ?t) - 1 - int ?m"
    by (rule strip_back_eq) (simp_all add: t k)
  then have ed: "strip_back str (int ?k) (int (length str) - 1) = int (length str) - 1 - int ?m"
    using lt k by (simp add: of_nat_diff)
  have m: "?m \<le> length ?t" by (metis length_rev length_takeWhile_le)
  have "rev (dropWhile isspace (rev u)) = take (length u - length (takeWhile isspace (rev u))) u" for u
    by (metis dropWhile_eq_drop rev_drop rev_rev_ident length_rev)
  from this [of ?t] have "rev (dropWhile isspace (rev ?t)) = take (length ?t - ?m) ?t" .
  moreover have "strip str = take (length ?t - ?m) ?t"
  proof -
    have "nat (int (length str) - 1 - int ?m - int ?k + 1) = length ?t - ?m"
      using lt k m by simp
    moreover have "\<not> int ?k \<le> int (length str) - 1 - int ?m \<Longrightarrow> length ?t - ?m = 0"
      using lt k m by linarith
    ultimately show ?thesis
      using False by (auto simp: strip_def Let_def st ed t)
  qed
  ultimately show ?thesis by simp
qed (simp add: strip_def)

lemma start_with_loop_eq:
  "start_with_loop str pre i n \<longleftrightarrow> (\<forall>j. i \<le> j \<and> j < i + n \<longrightarrow> str ! j = pre ! j)"
proof (induction n arbitrary: i)
  case (Suc n)
  have "str ! j = pre ! j"
    if "str ! i = pre ! i" "\<forall>j. i + 1 \<le> j \<and> j < i + 1 + n \<longrightarrow> str ! j = pre ! j" "i \<le> j" "j < i + Suc n" for j
    using that by (cases "j = i") auto
  then have "(\<forall>j. i \<le> j \<and> j < i + Suc n \<longrightarrow> str ! j = pre ! j)
      \<longleftrightarrow> str ! i = pre ! i \<and> (\<forall>j. i + 1 \<le> j \<and> j < i + 1 + n \<longrightarrow> str ! j = pre ! j)"
    by auto
  with Suc.IH [of "i + 1"] show ?case by simp
qed auto

lemma start_with_prefix: "start_with str pre \<longleftrightarrow> prefix pre str"
proof -
  have "(\<forall>j < length pre. str ! j = pre ! j) \<longleftrightarrow> take (length pre) str = pre" if "length pre \<le> length str"
    using that by (auto simp: list_eq_iff_nth_eq)
  moreover have "prefix pre str \<longleftrightarrow> length pre \<le> length str \<and> take (length pre) str = pre"
    by (metis append_eq_conv_conj prefix_def prefix_length_le)
  ultimately show ?thesis by (auto simp: start_with_def start_with_loop_eq)
qed

subsection \<open>Properties\<close>

text \<open>\<^verbatim>\<open>StringUtil::url_decode\<close> overwrites its input while it still reads it. With the
  terminator's byte inside the buffer, it leaves the decoded text of its input at the start of
  the buffer, never longer than the input, ends it with a terminator, and keeps the buffer's size.\<close>

theorem url_decode_in_place:
  assumes "len < length buf" and "url_decode_buf buf len = (buf', n)"
  shows "take n buf' = url_decoded (take len buf) \<and> n \<le> len \<and> buf' ! n = NUL \<and> length buf' = length buf"
  using url_decode_buf_correct [OF assms] .

theorem url_decode_in_place_witness:
  "url_decode_buf (''%41'' @ [NUL]) 3 = ([CHR ''A'', NUL, CHR ''1'', NUL], 1)
   \<and> take 1 [CHR ''A'', NUL, CHR ''1'', NUL] = url_decoded (take 3 (''%41'' @ [NUL]))"
proof -
  have b: "url_decode_buf (''%41'' @ [NUL]) 3 = ([CHR ''A'', NUL, CHR ''1'', NUL], 1)" by code_simp
  from url_decode_in_place [OF _ b] b show ?thesis by simp
qed

text \<open>C35: Decoding inverts both encoders on every string of bytes: a text that is encoded for a
  URI or for one component of it comes back unchanged.\<close>

theorem url_encode_roundtrip:
  "url_decode_str (url_encode s) = s \<and> url_decode_str (url_encode_component s) = s"
  by (simp add: url_decode_str_eq uri_enc.decoded_enc component_enc.decoded_enc)

text \<open>An encoded component can be put between the delimiters of a URI: it holds none of
  them, and no space.\<close>

theorem encoded_component_no_delimiter:
  "set (url_encode_component s) \<inter> set '':/?#[]@&=; '' = {}"
proof -
  have "c \<notin> set '':/?#[]@&=; ''" if "c \<in> set (url_encode_component s)" for c
    using component_enc.enc_chars [OF that] by (auto simp: component_char_def str_simps)
  then show ?thesis by blast
qed

text \<open>\<^verbatim>\<open>StringUtil::split\<close> cuts at every separator and loses nothing: the pieces hold no
  separator and, joined with it, give the string back; and any non-empty list of pieces without
  the separator is what splitting its join gives. \<^verbatim>\<open>split_filter_empty\<close> gives the non-empty
  pieces in order.\<close>

theorem split_roundtrip:
  "join sep (split s sep) = s \<and> (\<forall>p. p \<in> set (split s sep) \<longrightarrow> sep \<notin> set p)
   \<and> (\<forall>ps. ps \<noteq> [] \<longrightarrow> (\<forall>p. p \<in> set ps \<longrightarrow> sep \<notin> set p) \<longrightarrow> split (join sep ps) sep = ps)
   \<and> split_filter_empty s sep = filter (\<lambda>p. p \<noteq> []) (split s sep)"
  using join_split split_pieces split_join split_filter_empty_eq by blast

theorem split_roundtrip_witness:
  "split (join (CHR ''&'') [''a=1'', ''b'']) (CHR ''&'') = [''a=1'', ''b'']"
proof -
  have "\<forall>p. p \<in> set [''a=1'', ''b''] \<longrightarrow> CHR ''&'' \<notin> set p" by simp
  with split_roundtrip [of "CHR ''&''" "[]"] show ?thesis by blast
qed

text \<open>\<^verbatim>\<open>StringUtil::strip\<close> removes exactly the leading and trailing white space, also on a
  blank string, where its two cursors cross.\<close>

theorem strip_correct:
  "strip s = rev (dropWhile isspace (rev (dropWhile isspace s)))"
  by (rule strip_eq)

end
