(* ===== verification/URIParser.thy ===== *)
theory URIParser imports StringUtil begin

text \<open>
  \<^verbatim>\<open>util/URIParser.h\<close> and \<^verbatim>\<open>util/URIParser.cc\<close>: the parsed URI with its copy and move, the
  parser over the C string with its two index arrays, and the query and path splitters.
  A failing \<^verbatim>\<open>realloc\<close> or \<^verbatim>\<open>strdup\<close> is an argument (\<open>alloc i\<close> says whether the
  allocation for component \<open>i\<close> succeeds), so that the error paths are part of the model.
\<close>

subsection \<open>The parsed URI\<close>

datatype uri_state = URI_STATE_INIT | URI_STATE_SUCCESS | URI_STATE_INVALID | URI_STATE_ERROR

record ParsedURI =
  scheme :: "string option"
  userinfo :: "string option"
  host :: "string option"
  port :: "string option"
  path :: "string option"
  query :: "string option"
  fragment :: "string option"
  state :: uri_state
  error :: int

definition ENOMEM :: int where
  "ENOMEM = 12"

definition uri_init :: ParsedURI where
  "uri_init = \<lparr>scheme = None, userinfo = None, host = None, port = None, path = None,
     query = None, fragment = None, state = URI_STATE_INIT, error = 0\<rparr>"

text \<open>\<^verbatim>\<open>deinit\<close> frees every component; the state and the error code keep their values.\<close>

definition uri_deinit :: "ParsedURI \<Rightarrow> ParsedURI" where
  "uri_deinit u = u\<lparr>scheme := None, host := None, path := None, userinfo := None, port := None,
     query := None, fragment := None\<rparr>"

text \<open>
  \<^verbatim>\<open>__copy\<close> duplicates the components in the order scheme, userinfo, host, port, path, query,
  fragment and stops at the first failing \<^verbatim>\<open>strdup\<close>.
\<close>

definition dup_fails :: "(nat \<Rightarrow> bool) \<Rightarrow> ParsedURI \<Rightarrow> bool" where
  "dup_fails alloc c \<longleftrightarrow>
     (scheme c \<noteq> None \<and> \<not> alloc 0) \<or> (userinfo c \<noteq> None \<and> \<not> alloc 1) \<or> (host c \<noteq> None \<and> \<not> alloc 2)
     \<or> (port c \<noteq> None \<and> \<not> alloc 3) \<or> (path c \<noteq> None \<and> \<not> alloc 4) \<or> (query c \<noteq> None \<and> \<not> alloc 5)
     \<or> (fragment c \<noteq> None \<and> \<not> alloc 6)"

definition uri_copy :: "(nat \<Rightarrow> bool) \<Rightarrow> ParsedURI \<Rightarrow> ParsedURI" where
  "uri_copy alloc c =
     (let u = uri_init\<lparr>state := state c, error := error c\<rparr> in
      if state c = URI_STATE_SUCCESS
      then if dup_fails alloc c
           then uri_init\<lparr>state := URI_STATE_ERROR, error := ENOMEM\<rparr>
           else u\<lparr>scheme := scheme c, userinfo := userinfo c, host := host c, port := port c,
                  path := path c, query := query c, fragment := fragment c\<rparr>
      else u)"

text \<open>\<^verbatim>\<open>__move\<close> gives the new value of the target and of the source.\<close>

definition uri_move :: "ParsedURI \<Rightarrow> ParsedURI \<times> ParsedURI" where
  "uri_move m = (m, uri_init)"

definition uri_assign_copy :: "(nat \<Rightarrow> bool) \<Rightarrow> bool \<Rightarrow> ParsedURI \<Rightarrow> ParsedURI \<Rightarrow> ParsedURI" where
  "uri_assign_copy alloc same this c = (if \<not> same then uri_copy alloc c else this)"

definition uri_assign_move :: "bool \<Rightarrow> ParsedURI \<Rightarrow> ParsedURI \<Rightarrow> ParsedURI \<times> ParsedURI" where
  "uri_assign_move same this m = (if \<not> same then uri_move m else (this, this))"

subsection \<open>The character classes\<close>

text \<open>
  The rows of \<^verbatim>\<open>valid_char[7][256]\<close> as ranges of byte values: scheme, userinfo, host, port,
  path, query, fragment.
\<close>

definition valid_char :: "nat \<Rightarrow> char \<Rightarrow> bool" where
  "valid_char i c =
     (let n = ord c;
          letter = (65 \<le> n \<and> n \<le> 90) \<or> (97 \<le> n \<and> n \<le> 122);
          authority = n = 33 \<or> (36 \<le> n \<and> n \<le> 46) \<or> (48 \<le> n \<and> n \<le> 59) \<or> n = 61 \<or> letter \<or> n = 95 \<or> n = 126
      in if i = 0 then n = 43 \<or> n = 45 \<or> n = 46 \<or> (48 \<le> n \<and> n \<le> 57) \<or> letter
         else if i = 1 \<or> i = 2 then authority
         else if i = 3 then 48 \<le> n \<and> n \<le> 57
         else if i = 4 then authority \<or> n = 47 \<or> n = 64
         else authority \<or> n = 47 \<or> n = 63 \<or> n = 64)"

definition sep :: string where
  "sep = '':/?#''"

subsection \<open>The parser's loops\<close>

lemma valid_char_NUL [simp]: "\<not> valid_char i NUL"
  by (simp add: valid_char_def Let_def)

function scheme_end :: "string \<Rightarrow> nat \<Rightarrow> nat" where
  "scheme_end str cur = (if valid_char 0 (cstr_at str cur) then scheme_end str (cur + 1) else cur)"
  by pat_completeness auto
termination
  by (relation "measure (\<lambda>(str, cur). length str - cur)") (auto simp: cstr_at_def split: if_splits)

function find_userinfo :: "string \<Rightarrow> nat \<Rightarrow> nat option" where
  "find_userinfo str i =
     (if cstr_at str i = NUL then None
      else if cstr_at str i = CHR ''@'' then Some i
      else find_userinfo str (i + 1))"
  by pat_completeness auto
termination
  by (relation "measure (\<lambda>(str, i). length str - i)") (auto simp: cstr_at_def split: if_splits)

function ipv6_end :: "string \<Rightarrow> nat \<Rightarrow> nat" where
  "ipv6_end str cur =
     (if cstr_at str cur \<noteq> NUL \<and> cstr_at str cur \<noteq> CHR '']'' then ipv6_end str (cur + 1) else cur)"
  by pat_completeness auto
termination
  by (relation "measure (\<lambda>(str, cur). length str - cur)") (auto simp: cstr_at_def split: if_splits)

declare scheme_end.simps [simp del] find_userinfo.simps [simp del] ipv6_end.simps [simp del]

text \<open>
  The variables of the separator loop. \<open>us_st\<close> and \<open>us_ed\<close> are the arrays \<^verbatim>\<open>st[7]\<close> and
  \<^verbatim>\<open>ed[7]\<close>.
\<close>

record uri_scan =
  us_cur :: nat
  us_idx :: nat
  us_last :: nat
  us_ipv6 :: bool
  us_st :: "nat list"
  us_ed :: "nat list"

definition scan_step :: "string \<Rightarrow> uri_scan \<Rightarrow> uri_scan" where
  "scan_step str s =
     (if us_idx s < 4
      then case find (\<lambda>i. cstr_at str (us_cur s) = sep ! i) [us_idx s..<4] of
             None \<Rightarrow> s
           | Some i \<Rightarrow>
               let s = (if us_ipv6 s then s\<lparr>us_ipv6 := False\<rparr>
                        else s\<lparr>us_st := (us_st s)[us_idx s + 2 := us_last s],
                               us_ed := (us_ed s)[us_idx s + 2 := us_cur s]\<rparr>)
               in s\<lparr>us_idx := i + 1,
                    us_last := (if sep ! i = CHR ''/'' then us_cur s else us_cur s + 1)\<rparr>
      else s)"

lemma us_cur_scan_step [simp]: "us_cur (scan_step str s) = us_cur s"
  by (simp add: scan_step_def Let_def split: option.splits)

function scan_loop :: "string \<Rightarrow> uri_scan \<Rightarrow> uri_scan" where
  "scan_loop str s =
     (if cstr_at str (us_cur s) \<noteq> NUL
      then let s = scan_step str s in scan_loop str (s\<lparr>us_cur := us_cur s + 1\<rparr>)
      else s)"
  by pat_completeness auto
termination
  by (relation "measure (\<lambda>(str, s). length str - us_cur s)") (auto simp: cstr_at_def split: if_splits)

declare scan_loop.simps [simp del]

definition scan_finish :: "uri_scan \<Rightarrow> uri_scan" where
  "scan_finish s =
     (if us_cur s > us_last s \<and> \<not> us_ipv6 s
      then s\<lparr>us_st := (us_st s)[us_idx s + 2 := us_last s],
             us_ed := (us_ed s)[us_idx s + 2 := us_cur s]\<rparr>
      else s)"

text \<open>The bracketed host: the new cursor and the bounds of the host, or \<^verbatim>\<open>return -1\<close>.\<close>

definition ipv6_host :: "string \<Rightarrow> nat \<Rightarrow> (nat \<times> nat \<times> nat) option" where
  "ipv6_host str cur =
     (let st2 = cur + 1; ed2 = ipv6_end str st2 in
      if cstr_at str ed2 \<noteq> CHR '']'' then None
      else if cstr_at str (ed2 + 1) \<noteq> NUL \<and> \<not> List.member sep (cstr_at str (ed2 + 1)) then None
      else Some (st2, ed2, ed2 + 1))"

text \<open>Everything up to the validity check: the two arrays, or \<^verbatim>\<open>return -1\<close>.\<close>

definition uri_bounds :: "string \<Rightarrow> (nat list \<times> nat list) option" where
  "uri_bounds str =
     (if cstr_at str 0 = NUL then None
      else if \<not> isalpha (cstr_at str 0) then None
      else
        let cur = scheme_end str 1;
            st = replicate 7 0;
            ed = (replicate 7 0)[0 := cur] in
        if \<not> (cstr_at str cur = CHR '':'' \<and> cstr_at str (cur + 1) = CHR ''/'' \<and> cstr_at str (cur + 2) = CHR ''/'')
        then None
        else
          let cur = cur + 3;
              last = cur;
              (st, ed, cur) = (case find_userinfo str cur of
                                 None \<Rightarrow> (st, ed, cur)
                               | Some i \<Rightarrow> (st[1 := cur], ed[1 := i], i + 1)) in
          if cstr_at str cur = CHR ''[''
          then case ipv6_host str cur of
                 None \<Rightarrow> None
               | Some (st2, ed2, cur) \<Rightarrow>
                   let s = scan_finish (scan_loop str
                     \<lparr>us_cur = cur, us_idx = 0, us_last = last, us_ipv6 = True,
                      us_st = st[2 := st2], us_ed = ed[2 := ed2]\<rparr>)
                   in Some (us_st s, us_ed s)
          else let s = scan_finish (scan_loop str
                     \<lparr>us_cur = cur, us_idx = 0, us_last = cur, us_ipv6 = False, us_st = st, us_ed = ed\<rparr>)
               in Some (us_st s, us_ed s))"

definition bounds_valid :: "string \<Rightarrow> nat list \<Rightarrow> nat list \<Rightarrow> bool" where
  "bounds_valid str st ed \<longleftrightarrow>
     list_all (\<lambda>i. list_all (\<lambda>j. valid_char i (cstr_at str j)) [st ! i..<ed ! i]) [1..<7]"

definition set_component :: "nat \<Rightarrow> string option \<Rightarrow> ParsedURI \<Rightarrow> ParsedURI" where
  "set_component i v u =
     (if i = 0 then u\<lparr>scheme := v\<rparr> else if i = 1 then u\<lparr>userinfo := v\<rparr>
      else if i = 2 then u\<lparr>host := v\<rparr> else if i = 3 then u\<lparr>port := v\<rparr>
      else if i = 4 then u\<lparr>path := v\<rparr> else if i = 5 then u\<lparr>query := v\<rparr>
      else u\<lparr>fragment := v\<rparr>)"

text \<open>A host that starts with an encoded slash is a path of a unix socket and is decoded.\<close>

definition host_text :: "string \<Rightarrow> string" where
  "host_text t =
     (if 3 \<le> length t \<and> t ! 0 = CHR ''%'' \<and> t ! 1 = CHR ''2'' \<and> (t ! 2 = CHR ''F'' \<or> t ! 2 = CHR ''f'')
      then case url_decode_buf (t @ [NUL]) (length t) of
             (buf, len) \<Rightarrow> takeWhile (\<lambda>c. c \<noteq> NUL) (take len buf)
      else t)"

fun store_loop :: "(nat \<Rightarrow> bool) \<Rightarrow> string \<Rightarrow> nat list \<Rightarrow> nat list \<Rightarrow> nat list \<Rightarrow> ParsedURI \<Rightarrow> int \<times> ParsedURI" where
  "store_loop alloc str st ed [] u = (0, u\<lparr>state := URI_STATE_SUCCESS\<rparr>)"
| "store_loop alloc str st ed (i # is) u =
     (if st ! i < ed ! i
      then if alloc i
           then let t = substr str (st ! i) (ed ! i) in
                store_loop alloc str st ed is (set_component i (Some (if i = 2 then host_text t else t)) u)
           else (-1, (set_component i None u)\<lparr>state := URI_STATE_ERROR, error := ENOMEM\<rparr>)
      else store_loop alloc str st ed is (set_component i None u))"

definition parse :: "(nat \<Rightarrow> bool) \<Rightarrow> string \<Rightarrow> ParsedURI \<Rightarrow> int \<times> ParsedURI" where
  "parse alloc str uri =
     (let uri = uri\<lparr>state := URI_STATE_INVALID\<rparr> in
      case uri_bounds str of
        None \<Rightarrow> (-1, uri)
      | Some (st, ed) \<Rightarrow>
          if bounds_valid str st ed then store_loop alloc str st ed [0..<7] uri else (-1, uri))"

definition parse_string :: "(nat \<Rightarrow> bool) \<Rightarrow> string \<Rightarrow> ParsedURI \<Rightarrow> int \<times> ParsedURI" where
  "parse_string alloc str uri = parse alloc (takeWhile (\<lambda>c. c \<noteq> NUL) str) uri"

subsection \<open>Queries and paths\<close>

definition append_value :: "(string \<rightharpoonup> string list) \<Rightarrow> string \<Rightarrow> string \<Rightarrow> (string \<rightharpoonup> string list)" where
  "append_value res k v = res(k \<mapsto> (case res k of None \<Rightarrow> [] | Some vs \<Rightarrow> vs) @ [v])"

fun split_query_strict_loop :: "(string \<rightharpoonup> string list) \<Rightarrow> string list \<Rightarrow> (string \<rightharpoonup> string list)" where
  "split_query_strict_loop res [] = res"
| "split_query_strict_loop res (ele # arr) =
     (if ele = [] then split_query_strict_loop res arr
      else
        let kv = split ele (CHR ''=''); key = kv ! 0 in
        if key = [] then split_query_strict_loop res arr
        else if length kv = 1 then split_query_strict_loop (append_value res key []) arr
        else split_query_strict_loop (append_value res key (kv ! 1)) arr)"

definition split_query_strict :: "string \<Rightarrow> (string \<rightharpoonup> string list)" where
  "split_query_strict q =
     (if q = [] then Map.empty else split_query_strict_loop Map.empty (split q (CHR ''&'')))"

fun split_query_loop :: "(string \<rightharpoonup> string) \<Rightarrow> string list \<Rightarrow> (string \<rightharpoonup> string)" where
  "split_query_loop res [] = res"
| "split_query_loop res (ele # arr) =
     (if ele = [] then split_query_loop res arr
      else
        let kv = split ele (CHR ''=''); key = kv ! 0 in
        if key = [] \<or> res key \<noteq> None then split_query_loop res arr
        else if length kv = 1 then split_query_loop (res(key \<mapsto> [])) arr
        else split_query_loop (res(key \<mapsto> kv ! 1)) arr)"

definition split_query :: "string \<Rightarrow> (string \<rightharpoonup> string)" where
  "split_query q = (if q = [] then Map.empty else split_query_loop Map.empty (split q (CHR ''&'')))"

definition split_path :: "string \<Rightarrow> string list" where
  "split_path p = split_filter_empty p (CHR ''/'')"

subsection \<open>The separator loop on a string cut at its separators\<close>

definition no_sep_from :: "nat \<Rightarrow> string \<Rightarrow> bool" where
  "no_sep_from idx w \<longleftrightarrow> (\<forall>c \<in> set w. c \<noteq> NUL \<and> (\<forall>i \<in> {idx..<4}. c \<noteq> sep ! i))"

lemma no_sep_from_Cons:
  "no_sep_from idx (c # w) \<longleftrightarrow> c \<noteq> NUL \<and> (\<forall>i \<in> {idx..<4}. c \<noteq> sep ! i) \<and> no_sep_from idx w"
  by (auto simp: no_sep_from_def)

lemma find_eq_None: "(\<forall>x \<in> set xs. \<not> P x) \<Longrightarrow> find P xs = None"
  by (induction xs) auto

lemma scan_step_plain:
  assumes "\<forall>i \<in> {us_idx s..<4}. cstr_at str (us_cur s) \<noteq> sep ! i"
  shows "scan_step str s = s"
proof -
  have "find (\<lambda>i. cstr_at str (us_cur s) = sep ! i) [us_idx s..<4] = None"
    using assms by (intro find_eq_None) auto
  then show ?thesis by (simp add: scan_step_def)
qed

lemma scan_loop_segment:
  assumes "str = pre @ w @ rest" and "us_cur s = length pre" and "no_sep_from (us_idx s) w"
  shows "scan_loop str s = scan_loop str (s\<lparr>us_cur := length pre + length w\<rparr>)"
  using assms
proof (induction w arbitrary: pre s)
  case Nil
  then have "s = s\<lparr>us_cur := length pre + length []\<rparr>" by simp
  then show ?case by simp
next
  case (Cons c w)
  have c: "cstr_at str (us_cur s) = c" using Cons.prems by (simp add: cstr_at_append)
  have step: "scan_step str s = s"
    using Cons.prems by (intro scan_step_plain) (auto simp: c no_sep_from_Cons)
  have "scan_loop str s = scan_loop str (s\<lparr>us_cur := us_cur s + 1\<rparr>)"
    using Cons.prems(3) by (subst scan_loop.simps) (auto simp: c step no_sep_from_Cons)
  also have "\<dots> = scan_loop str (s\<lparr>us_cur := us_cur s + 1, us_cur := length (pre @ [c]) + length w\<rparr>)"
    by (rule Cons.IH) (use Cons.prems in \<open>auto simp: no_sep_from_Cons\<close>)
  finally show ?case by simp
qed

lemma sep_distinct: "i < 4 \<Longrightarrow> j < 4 \<Longrightarrow> sep ! i = sep ! j \<longleftrightarrow> i = j"
proof -
  have "distinct sep" and "length sep = 4" by (simp_all add: sep_def)
  then show "i < 4 \<Longrightarrow> j < 4 \<Longrightarrow> sep ! i = sep ! j \<longleftrightarrow> i = j"
    by (simp add: nth_eq_iff_index_eq)
qed

lemma find_sep:
  assumes "idx \<le> i" and "i < 4"
  shows "find (\<lambda>j. sep ! i = sep ! j) [idx..<4] = Some i"
  using assms unfolding find_Some_iff by (intro exI [of _ "i - idx"]) (auto simp: sep_distinct)

lemma sep_not_NUL: "i < 4 \<Longrightarrow> sep ! i \<noteq> NUL"
  by (auto simp: sep_def numeral_eq_Suc less_Suc_eq)

lemma scan_loop_sep:
  assumes "cstr_at str (us_cur s) = sep ! i" and "us_idx s \<le> i" and "i < 4" and "\<not> us_ipv6 s"
  shows "scan_loop str s = scan_loop str
    (s\<lparr>us_st := (us_st s)[us_idx s + 2 := us_last s], us_ed := (us_ed s)[us_idx s + 2 := us_cur s],
       us_idx := i + 1, us_last := (if sep ! i = CHR ''/'' then us_cur s else us_cur s + 1),
       us_cur := us_cur s + 1\<rparr>)"
  using assms
  by (subst scan_loop.simps)
     (simp add: sep_not_NUL scan_step_def find_sep Let_def)

text \<open>
  A string cut at its separators: the rest of the current component \<open>w\<close>, then segments
  \<open>(i, v)\<close>, each the separator \<open>sep ! i\<close> followed by text without a later separator. The
  separators come in increasing order.
\<close>

fun segs_ok :: "nat \<Rightarrow> string \<Rightarrow> (nat \<times> string) list \<Rightarrow> bool" where
  "segs_ok idx w [] = no_sep_from idx w"
| "segs_ok idx w ((i, v) # segs) = (no_sep_from idx w \<and> idx \<le> i \<and> i < 4 \<and> segs_ok (i + 1) v segs)"

definition segs_text :: "(nat \<times> string) list \<Rightarrow> string" where
  "segs_text segs = concat (map (\<lambda>(i, v). sep ! i # v) segs)"

text \<open>The text of the component a segment opens: a path keeps its slash.\<close>

definition seg_value :: "nat \<times> string \<Rightarrow> nat \<times> string" where
  "seg_value = (\<lambda>(i, v). (i + 3, if sep ! i = CHR ''/'' then CHR ''/'' # v else v))"

definition bound_text :: "string \<Rightarrow> nat list \<Rightarrow> nat list \<Rightarrow> nat \<Rightarrow> string" where
  "bound_text str st ed k = substr str (st ! k) (ed ! k)"

lemma bound_text_update:
  assumes "k < 7" and "length st = 7" and "length ed = 7"
  shows "bound_text str (st[j := a]) (ed[j := b]) k = (if k = j then substr str a b else bound_text str st ed k)"
  using assms by (simp add: bound_text_def nth_list_update)

lemma segs_ok_keys: "segs_ok idx w segs \<Longrightarrow> k < idx + 3 \<Longrightarrow> map_of (map seg_value segs) k = None"
  by (induction idx w segs rule: segs_ok.induct) (auto simp: seg_value_def)

lemma scan_run:
  assumes "str = pre @ w @ segs_text segs" and "segs_ok (us_idx s) w segs"
    and "us_cur s = length pre" and "us_last s \<le> us_cur s" and "\<not> us_ipv6 s"
    and "length (us_st s) = 7" and "length (us_ed s) = 7" and "us_idx s \<le> 4"
    and "\<forall>k. us_idx s + 2 \<le> k \<and> k < 7 \<longrightarrow> us_st s ! k = 0 \<and> us_ed s ! k = 0"
    and "s' = scan_finish (scan_loop str s)" and "k < 7"
  shows "bound_text str (us_st s') (us_ed s') k =
    (if k = us_idx s + 2 then substr str (us_last s) (length pre + length w)
     else case map_of (map seg_value segs) k of
            Some v \<Rightarrow> v
          | None \<Rightarrow> bound_text str (us_st s) (us_ed s) k)"
  using assms
proof (induction "us_idx s" w segs arbitrary: pre s rule: segs_ok.induct)
  case (1 w)
  have str: "str = pre @ w @ []" using "1.prems"(1) by (simp add: segs_text_def)
  have "scan_loop str s = scan_loop str (s\<lparr>us_cur := length pre + length w\<rparr>)"
    by (rule scan_loop_segment [OF str]) (use "1.prems" in auto)
  also have "\<dots> = s\<lparr>us_cur := length pre + length w\<rparr>"
    using str by (subst scan_loop.simps) simp
  finally have s': "s' = scan_finish (s\<lparr>us_cur := length pre + length w\<rparr>)"
    using "1.prems" by simp
  have "substr str (us_last s) (length pre + length w) = []" if "length pre + length w \<le> us_last s"
    using that by (simp add: substr_def)
  moreover have "bound_text str (us_st s) (us_ed s) (us_idx s + 2) = []" if "us_idx s + 2 < 7"
    using "1.prems"(9) that by (simp add: bound_text_def substr_def)
  ultimately show ?case
    using "1.prems"(4-8,11) by (auto simp: s' scan_finish_def bound_text_update)
next
  case (2 w i v segs)
  let ?p = "length pre + length w"
  let ?s1 = "s\<lparr>us_cur := ?p\<rparr>"
  let ?s2 = "s\<lparr>us_st := (us_st s)[us_idx s + 2 := us_last s], us_ed := (us_ed s)[us_idx s + 2 := ?p],
       us_idx := i + 1, us_last := (if sep ! i = CHR ''/'' then ?p else ?p + 1), us_cur := ?p + 1\<rparr>"
  have ok: "no_sep_from (us_idx s) w" "us_idx s \<le> i" "i < 4" "segs_ok (i + 1) v segs"
    using "2.prems"(2) by auto
  have str: "str = pre @ w @ sep ! i # v @ segs_text segs"
    using "2.prems"(1) by (simp add: segs_text_def)
  have "scan_loop str s = scan_loop str ?s1"
    by (rule scan_loop_segment [OF _ "2.prems"(3)]) (use str ok in auto)
  also have "\<dots> = scan_loop str ?s2"
    using scan_loop_sep [of str ?s1 i] ok "2.prems" by (simp add: str cstr_at_append)
  finally have s': "s' = scan_finish (scan_loop str ?s2)" using "2.prems" by simp
  have IH: "bound_text str (us_st s') (us_ed s') k =
    (if k = us_idx ?s2 + 2 then substr str (us_last ?s2) (length (pre @ w @ [sep ! i]) + length v)
     else case map_of (map seg_value segs) k of
            Some v \<Rightarrow> v
          | None \<Rightarrow> bound_text str (us_st ?s2) (us_ed ?s2) k)"
    by (rule "2.hyps") (use "2.prems" ok str s' in \<open>auto simp: nth_list_update\<close>)
  have val: "substr str (us_last ?s2) (length (pre @ w @ [sep ! i]) + length v) = snd (seg_value (i, v))"
    using substr_append_mid [of "pre @ w" ?p "sep ! i # v" "?p + 1 + length v" "segs_text segs"]
      substr_append_mid [of "pre @ w @ [sep ! i]" "?p + 1" v "?p + 1 + length v" "segs_text segs"]
    by (cases "sep ! i = CHR ''/''") (simp_all add: str seg_value_def)
  have none: "map_of (map seg_value segs) (us_idx s + 2) = None"
    using segs_ok_keys [OF ok(4)] ok(2) by simp
  show ?case
    using IH "2.prems"(6-8,11) ok none unfolding val
    by (auto simp: bound_text_update seg_value_def split: option.splits)
qed

subsection \<open>The bounds stay inside the string\<close>

definition scan_inv :: "string \<Rightarrow> uri_scan \<Rightarrow> bool" where
  [inv_simps]: "scan_inv str s \<longleftrightarrow> us_cur s \<le> length str \<and> length (us_st s) = 7 \<and> length (us_ed s) = 7
     \<and> (\<forall>x \<in> set (us_ed s). x \<le> length str)"

lemma set_updateD: "x \<in> set (xs[i := v]) \<Longrightarrow> x = v \<or> x \<in> set xs"
  using set_update_subset_insert [of xs i v] by auto

lemma scan_step_inv: "scan_inv str s \<Longrightarrow> scan_inv str (scan_step str s)"
  by (auto simp: scan_inv_def scan_step_def Let_def dest!: set_updateD split: option.splits)

lemma scan_loop_inv: "scan_inv str s \<Longrightarrow> scan_inv str (scan_loop str s)"
proof (induction str s rule: scan_loop.induct)
  case (1 str s)
  show ?case
  proof (cases "cstr_at str (us_cur s) = NUL")
    case False
    then have "us_cur s < length str" by (metis cstr_at_ge not_less)
    then have "scan_inv str ((scan_step str s)\<lparr>us_cur := us_cur s + 1\<rparr>)"
      using scan_step_inv [OF "1.prems"] by (simp add: scan_inv_def)
    with "1.IH" [OF False refl] False show ?thesis
      by (subst scan_loop.simps) (simp add: Let_def)
  qed (use "1.prems" in \<open>simp add: scan_loop.simps\<close>)
qed

lemma scan_finish_inv: "scan_inv str s \<Longrightarrow> scan_inv str (scan_finish s)"
  by (auto simp: scan_inv_def scan_finish_def dest!: set_updateD)

lemma cstr_at_not_NUL: "cstr_at str i \<noteq> NUL \<Longrightarrow> i < length str"
  by (metis cstr_at_ge not_less)

lemma cstr_at_eqD: "cstr_at str i = c \<Longrightarrow> c \<noteq> NUL \<Longrightarrow> i < length str"
  by (auto intro: cstr_at_not_NUL)

lemma scheme_end_le: "cur \<le> length str \<Longrightarrow> scheme_end str cur \<le> length str"
proof (induction str cur rule: scheme_end.induct)
  case (1 str cur)
  then show ?case
    by (subst scheme_end.simps) (auto simp: Suc_leI cstr_at_def split: if_splits)
qed

lemma find_userinfo_less: "find_userinfo str i = Some j \<Longrightarrow> j < length str"
proof (induction str i rule: find_userinfo.induct)
  case (1 str i)
  then show ?case
    by (subst (asm) (2) find_userinfo.simps) (auto dest: cstr_at_eqD split: if_splits)
qed

lemma uri_bounds_inside:
  assumes "uri_bounds str = Some (st, ed)"
  shows "length st = 7 \<and> length ed = 7 \<and> (\<forall>x \<in> set ed. x \<le> length str)"
proof -
  let ?c = "scheme_end str 1"
  have ne: "cstr_at str 0 \<noteq> NUL" "cstr_at str (?c + 2) = CHR ''/''"
    using assms by (auto simp: uri_bounds_def Let_def split: if_splits)
  then have "?c + 2 < length str" by (intro cstr_at_eqD [OF ne(2)]) simp
  then have c: "?c + 3 \<le> length str" by simp
  define A where "A = (case find_userinfo str (?c + 3) of
       None \<Rightarrow> (replicate 7 0, (replicate 7 0)[0 := ?c], ?c + 3)
     | Some i \<Rightarrow> ((replicate 7 0)[1 := ?c + 3], (replicate 7 0)[0 := ?c, 1 := i], i + 1))"
  obtain st1 ed1 cur where A: "A = (st1, ed1, cur)" by (cases A)
  have inv1: "length st1 = 7" "length ed1 = 7" "cur \<le> length str" "\<forall>x \<in> set ed1. x \<le> length str"
    using A c by (auto simp: A_def numeral_eq_Suc dest!: find_userinfo_less split: option.splits)
  have run: "scan_inv str s0 \<Longrightarrow> (st, ed) = (us_st (scan_finish (scan_loop str s0)), us_ed (scan_finish (scan_loop str s0)))
    \<Longrightarrow> length st = 7 \<and> length ed = 7 \<and> (\<forall>x \<in> set ed. x \<le> length str)" for s0
    using scan_finish_inv [OF scan_loop_inv [of str s0]] by (simp add: scan_inv_def)
  show ?thesis
  proof (cases "cstr_at str cur = CHR ''[''")
    case True
    then obtain st2 ed2 cur2 where h: "ipv6_host str cur = Some (st2, ed2, cur2)"
      and eq: "(st, ed) = (let s = scan_finish (scan_loop str \<lparr>us_cur = cur2, us_idx = 0, us_last = ?c + 3,
          us_ipv6 = True, us_st = st1[2 := st2], us_ed = ed1[2 := ed2]\<rparr>) in (us_st s, us_ed s))"
      using assms A ne by (auto simp: uri_bounds_def Let_def A_def split: if_splits option.splits)
    from h have "cstr_at str ed2 = CHR '']''" "cur2 = ed2 + 1"
      by (auto simp: ipv6_host_def Let_def split: if_splits)
    then have "ed2 < length str" by (auto intro: cstr_at_not_NUL)
    with inv1 \<open>cur2 = ed2 + 1\<close> have "scan_inv str \<lparr>us_cur = cur2, us_idx = 0, us_last = ?c + 3,
          us_ipv6 = True, us_st = st1[2 := st2], us_ed = ed1[2 := ed2]\<rparr>"
      by (auto simp: scan_inv_def dest!: set_updateD)
    from run [OF this] eq show ?thesis by (simp add: Let_def)
  next
    case False
    have "(st, ed) = (let s = scan_finish (scan_loop str \<lparr>us_cur = cur, us_idx = 0, us_last = cur,
          us_ipv6 = False, us_st = st1, us_ed = ed1\<rparr>) in (us_st s, us_ed s))"
      using assms A ne False by (auto simp: uri_bounds_def Let_def A_def split: if_splits option.splits)
    then show ?thesis
      using run [of "\<lparr>us_cur = cur, us_idx = 0, us_last = cur, us_ipv6 = False, us_st = st1, us_ed = ed1\<rparr>"] inv1
      by (simp add: Let_def scan_inv_def)
  qed
qed

subsection \<open>Well-formed URIs are parsed into their parts\<close>

definition component_text :: "string \<Rightarrow> nat list \<Rightarrow> nat list \<Rightarrow> nat \<Rightarrow> string option" where
  "component_text str st ed i =
     (let t = bound_text str st ed i in
      if t = [] then None else Some (if i = 2 then host_text t else t))"

lemma store_loop_ok:
  assumes "\<forall>i. alloc i" and "length ed = 7" and "\<forall>x \<in> set ed. x \<le> length str" and "\<forall>i \<in> set is. i < 7"
  shows "store_loop alloc str st ed is u
    = (0, (fold (\<lambda>i. set_component i (component_text str st ed i)) is u)\<lparr>state := URI_STATE_SUCCESS\<rparr>)"
  using assms(4)
proof (induction "is" arbitrary: u)
  case (Cons i "is")
  have "ed ! i \<le> length str" using assms Cons.prems by simp
  then have "st ! i < ed ! i \<longleftrightarrow> bound_text str st ed i \<noteq> []"
    by (auto simp: bound_text_def substr_def)
  with Cons assms(1) show ?case by (simp add: component_text_def bound_text_def Let_def)
qed simp

lemma fold_components:
  "fold (\<lambda>i. set_component i (f i)) [0..<7] u =
     u\<lparr>scheme := f 0, userinfo := f 1, host := f 2, port := f 3, path := f 4, query := f 5, fragment := f 6\<rparr>"
  by (simp add: set_component_def upt_rec eval_nat_numeral)

lemma scheme_end_eq:
  assumes "\<forall>c \<in> set w. valid_char 0 c" and "\<not> valid_char 0 c"
  shows "scheme_end (pre @ w @ c # rest) (length pre) = length pre + length w"
  using assms(1)
proof (induction w arbitrary: pre)
  case Nil
  then show ?case using assms(2) by (subst scheme_end.simps) (simp add: cstr_at_append cstr_at_def)
next
  case (Cons d w)
  have "scheme_end (pre @ (d # w) @ c # rest) (length pre)
      = scheme_end ((pre @ [d]) @ w @ c # rest) (length (pre @ [d]))"
    using Cons.prems by (subst scheme_end.simps) (simp add: cstr_at_append cstr_at_def)
  also have "\<dots> = length (pre @ [d]) + length w"
    by (rule Cons.IH) (use Cons.prems in auto)
  finally show ?case by simp
qed

lemma find_userinfo_None:
  assumes "\<forall>c \<in> set w. c \<noteq> CHR ''@''"
  shows "find_userinfo (pre @ w) (length pre) = None"
  using assms
proof (induction w arbitrary: pre)
  case Nil
  then show ?case by (subst find_userinfo.simps) simp
next
  case (Cons d w)
  have "find_userinfo ((pre @ [d]) @ w) (length (pre @ [d])) = None"
    by (rule Cons.IH) (use Cons.prems in auto)
  with Cons.prems show ?case by (subst find_userinfo.simps) (simp add: cstr_at_append cstr_at_def)
qed

lemma find_userinfo_Some:
  assumes "\<forall>c \<in> set w. c \<noteq> CHR ''@'' \<and> c \<noteq> NUL"
  shows "find_userinfo (pre @ w @ CHR ''@'' # rest) (length pre) = Some (length pre + length w)"
  using assms
proof (induction w arbitrary: pre)
  case Nil
  then show ?case by (subst find_userinfo.simps) (simp add: cstr_at_append cstr_at_def)
next
  case (Cons d w)
  have "find_userinfo ((pre @ [d]) @ w @ CHR ''@'' # rest) (length (pre @ [d])) = Some (length (pre @ [d]) + length w)"
    by (rule Cons.IH) (use Cons.prems in auto)
  with Cons.prems show ?case by (subst find_userinfo.simps) (simp add: cstr_at_append cstr_at_def)
qed

text \<open>
  The parts of a URI and its text. A port, a path, a query and a fragment are optional; a path
  starts with a slash.
\<close>

definition uri_segs :: "string option \<Rightarrow> string option \<Rightarrow> string option \<Rightarrow> string option \<Rightarrow> (nat \<times> string) list" where
  "uri_segs po pa qu fr =
     (case po of None \<Rightarrow> [] | Some t \<Rightarrow> [(0, t)]) @ (case pa of None \<Rightarrow> [] | Some t \<Rightarrow> [(1, tl t)])
     @ (case qu of None \<Rightarrow> [] | Some t \<Rightarrow> [(2, t)]) @ (case fr of None \<Rightarrow> [] | Some t \<Rightarrow> [(3, t)])"

definition uri_text :: "string \<Rightarrow> string option \<Rightarrow> string \<Rightarrow> string option \<Rightarrow> string option \<Rightarrow> string option
    \<Rightarrow> string option \<Rightarrow> string" where
  "uri_text sc ui ho po pa qu fr =
     sc @ ''://'' @ (case ui of None \<Rightarrow> [] | Some u \<Rightarrow> u @ ''@'') @ ho
     @ (case po of None \<Rightarrow> [] | Some t \<Rightarrow> '':'' @ t) @ (case pa of None \<Rightarrow> [] | Some t \<Rightarrow> t)
     @ (case qu of None \<Rightarrow> [] | Some t \<Rightarrow> ''?'' @ t) @ (case fr of None \<Rightarrow> [] | Some t \<Rightarrow> ''#'' @ t)"

definition part_ok :: "nat \<Rightarrow> string option \<Rightarrow> bool" where
  "part_ok i t = (case t of None \<Rightarrow> True | Some t \<Rightarrow> t \<noteq> [] \<and> list_all (valid_char i) t)"

definition no_at :: "string option \<Rightarrow> bool" where
  "no_at t = (case t of None \<Rightarrow> True | Some t \<Rightarrow> \<not> List.member t (CHR ''@''))"

definition uri_parts_ok :: "string \<Rightarrow> string option \<Rightarrow> string \<Rightarrow> string option \<Rightarrow> string option \<Rightarrow> string option
    \<Rightarrow> string option \<Rightarrow> bool" where
  "uri_parts_ok sc ui ho po pa qu fr \<longleftrightarrow>
     part_ok 0 (Some sc) \<and> isalpha (hd sc)
     \<and> part_ok 1 ui
     \<and> part_ok 2 (Some ho) \<and> \<not> List.member ho (CHR '':'') \<and> host_text ho = ho
     \<and> part_ok 3 po
     \<and> part_ok 4 pa \<and> (case pa of None \<Rightarrow> True | Some t \<Rightarrow> hd t = CHR ''/'')
     \<and> part_ok 5 qu \<and> part_ok 6 fr
     \<and> (ui = None \<longrightarrow> no_at pa \<and> no_at qu \<and> no_at fr)"

lemma uri_text_segs:
  assumes "uri_parts_ok sc ui ho po pa qu fr"
  shows "uri_text sc ui ho po pa qu fr
    = sc @ ''://'' @ (case ui of None \<Rightarrow> [] | Some u \<Rightarrow> u @ ''@'') @ ho @ segs_text (uri_segs po pa qu fr)"
proof -
  have "pa = Some t \<Longrightarrow> CHR ''/'' # tl t = t" for t
    using assms by (cases t) (auto simp: uri_parts_ok_def part_ok_def)
  then show ?thesis
    by (auto simp: uri_text_def uri_segs_def segs_text_def sep_def split: option.split)
qed

lemma sep_invalid:
  assumes "j < 4" and "i = 2 \<and> 1 \<le> j \<or> i = 3 \<and> 1 \<le> j \<or> i = 4 \<and> 2 \<le> j \<or> i = 5 \<and> 3 \<le> j"
  shows "\<not> valid_char i (sep ! j)"
proof -
  consider "j = 0" | "j = 1" | "j = 2" | "j = 3" using assms(1) by linarith
  then show ?thesis
    using assms(2) by cases (auto simp: sep_def valid_char_def)
qed

lemma valid_no_sep:
  assumes "part_ok i (Some t)"
    and "i = 2 \<and> idx = 0 \<and> CHR '':'' \<notin> set t \<or> i = 3 \<and> idx = 1 \<or> i = 4 \<and> idx = 2
      \<or> i = 5 \<and> idx = 3 \<or> i = 6 \<and> idx = 4"
  shows "no_sep_from idx t"
proof -
  have "c \<noteq> NUL \<and> (\<forall>j \<in> {idx..<4}. c \<noteq> sep ! j)" if c: "c \<in> set t" for c
  proof -
    have v: "valid_char i c" using assms(1) c by (auto simp: part_ok_def list_all_iff)
    have "c \<noteq> sep ! j" if j: "j \<in> {idx..<4}" for j
    proof (cases "i = 2 \<and> j = 0")
      case True
      then show ?thesis using assms(2) c by (auto simp: sep_def)
    next
      case False
      then have "\<not> valid_char i (sep ! j)"
        using assms(2) j by (intro sep_invalid) auto
      with v show ?thesis by metis
    qed
    moreover have "c \<noteq> NUL" using v by (metis valid_char_NUL)
    ultimately show ?thesis by blast
  qed
  then show ?thesis by (simp add: no_sep_from_def)
qed

lemma no_sep_from_tl: "no_sep_from idx t \<Longrightarrow> no_sep_from idx (tl t)"
  by (cases t) (auto simp: no_sep_from_Cons)

lemma no_sep_from_mono: "no_sep_from idx t \<Longrightarrow> idx \<le> idx' \<Longrightarrow> no_sep_from idx' t"
  by (auto simp: no_sep_from_def)

lemma uri_segs_ok:
  assumes "uri_parts_ok sc ui ho po pa qu fr"
  shows "segs_ok 0 ho (uri_segs po pa qu fr)"
proof -
  have ho: "no_sep_from 0 ho"
    using assms by (intro valid_no_sep [of 2]) (auto simp: uri_parts_ok_def)
  have po: "po = Some t \<Longrightarrow> no_sep_from 1 t" for t
    using assms by (intro valid_no_sep [of 3]) (auto simp: uri_parts_ok_def)
  have pa: "pa = Some t \<Longrightarrow> no_sep_from 2 (tl t)" for t
    using assms by (intro no_sep_from_tl valid_no_sep [of 4]) (auto simp: uri_parts_ok_def)
  have qu: "qu = Some t \<Longrightarrow> no_sep_from 3 t" for t
    using assms by (intro valid_no_sep [of 5]) (auto simp: uri_parts_ok_def)
  have fr: "fr = Some t \<Longrightarrow> no_sep_from 4 t" for t
    using assms by (intro valid_no_sep [of 6]) (auto simp: uri_parts_ok_def)
  show ?thesis
    using ho po pa qu fr
    by (auto simp: uri_segs_def numeral_eq_Suc split: option.split)
qed

lemma uri_segs_values:
  assumes "uri_parts_ok sc ui ho po pa qu fr"
  shows "map_of (map seg_value (uri_segs po pa qu fr)) 3 = po"
    and "map_of (map seg_value (uri_segs po pa qu fr)) 4 = pa"
    and "map_of (map seg_value (uri_segs po pa qu fr)) 5 = qu"
    and "map_of (map seg_value (uri_segs po pa qu fr)) 6 = fr"
proof -
  have pa: "pa = Some t \<Longrightarrow> CHR ''/'' # tl t = t" for t
    using assms by (cases t) (auto simp: uri_parts_ok_def part_ok_def)
  show "map_of (map seg_value (uri_segs po pa qu fr)) 3 = po"
    and "map_of (map seg_value (uri_segs po pa qu fr)) 4 = pa"
    and "map_of (map seg_value (uri_segs po pa qu fr)) 5 = qu"
    and "map_of (map seg_value (uri_segs po pa qu fr)) 6 = fr"
    using pa by (auto simp: uri_segs_def seg_value_def sep_def split: option.split)
qed

lemma no_at_tail:
  assumes ok: "uri_parts_ok sc ui ho po pa qu fr" and "ui = None"
  shows "\<forall>c \<in> set (ho @ segs_text (uri_segs po pa qu fr)). c \<noteq> CHR ''@''"
proof -
  have "CHR ''@'' \<notin> set ho"
    using ok by (auto simp: uri_parts_ok_def part_ok_def list_all_iff valid_char_def Let_def)
  moreover have "CHR ''@'' \<notin> set t" if "po = Some t" for t
    using ok that by (auto simp: uri_parts_ok_def part_ok_def list_all_iff valid_char_def Let_def)
  moreover have "CHR ''@'' \<notin> set (tl t)" if "pa = Some t" for t
    using ok that assms(2) by (cases t) (auto simp: uri_parts_ok_def no_at_def)
  moreover have "CHR ''@'' \<notin> set t" if "qu = Some t \<or> fr = Some t" for t
    using ok that assms(2) by (auto simp: uri_parts_ok_def no_at_def)
  ultimately show ?thesis
    by (auto simp: segs_text_def uri_segs_def sep_def split: option.splits)
qed

text \<open>The state in which the separator loop starts on a well-formed URI.\<close>

definition scan_start :: "string \<Rightarrow> string option \<Rightarrow> uri_scan" where
  "scan_start sc ui =
     (let c = length sc + 3; n = (case ui of None \<Rightarrow> c | Some u \<Rightarrow> c + length u + 1) in
      \<lparr>us_cur = n, us_idx = 0, us_last = n, us_ipv6 = False,
       us_st = (case ui of None \<Rightarrow> replicate 7 0 | Some u \<Rightarrow> (replicate 7 0)[1 := c]),
       us_ed = (case ui of None \<Rightarrow> (replicate 7 0)[0 := length sc]
                | Some u \<Rightarrow> (replicate 7 0)[0 := length sc, 1 := c + length u])\<rparr>)"

lemma uri_bounds_eq:
  assumes ok: "uri_parts_ok sc ui ho po pa qu fr"
    and str: "str = uri_text sc ui ho po pa qu fr"
    and s': "s' = scan_finish (scan_loop str (scan_start sc ui))"
  shows "uri_bounds str = Some (us_st s', us_ed s')"
proof -
  let ?tail = "ho @ segs_text (uri_segs po pa qu fr)"
  have str': "str = sc @ ''://'' @ (case ui of None \<Rightarrow> [] | Some u \<Rightarrow> u @ ''@'') @ ?tail"
    using ok str by (simp add: uri_text_segs)
  obtain a sc' where sc: "sc = a # sc'" "isalpha a" "\<forall>c \<in> set sc'. valid_char 0 c"
    using ok by (cases sc) (auto simp: uri_parts_ok_def part_ok_def list_all_iff)
  obtain h ho' where ho: "ho = h # ho'" "valid_char 2 h"
    using ok by (cases ho) (auto simp: uri_parts_ok_def part_ok_def)
  have h: "h \<noteq> CHR ''[''" using ho by (auto simp: valid_char_def Let_def)
  have se: "scheme_end str 1 = length sc"
    using scheme_end_eq [of sc' "CHR '':''" "[a]" "''//'' @ (case ui of None \<Rightarrow> [] | Some u \<Rightarrow> u @ ''@'') @ ?tail"] sc
    by (simp add: str' valid_char_def)
  have a: "a \<noteq> NUL" using sc by (auto simp: str_simps)
  have at: "cstr_at str 0 = a" "cstr_at str (length sc) = CHR '':''"
      "cstr_at str (length sc + 1) = CHR ''/''" "cstr_at str (length sc + 2) = CHR ''/''"
    by (simp_all add: str' cstr_at_append cstr_at_def sc(1) nth_append)
  have ui: "find_userinfo str (length sc + 3) = (case ui of None \<Rightarrow> None | Some u \<Rightarrow> Some (length sc + 3 + length u))"
  proof (cases ui)
    case None
    have "\<forall>c \<in> set ?tail. c \<noteq> CHR ''@''"
      by (rule no_at_tail [OF ok None])
    then show ?thesis
      using find_userinfo_None [of ?tail "sc @ ''://''"] None by (simp add: str' numeral_3_eq_3)
  next
    case (Some u)
    have "\<forall>c \<in> set u. c \<noteq> CHR ''@'' \<and> c \<noteq> NUL"
      using ok Some by (auto simp: uri_parts_ok_def part_ok_def list_all_iff valid_char_def Let_def)
    then show ?thesis
      using find_userinfo_Some [of u "sc @ ''://''" ?tail] Some by (simp add: str' numeral_3_eq_3)
  qed
  have bra: "cstr_at str (us_cur (scan_start sc ui)) \<noteq> CHR ''[''"
    using h by (cases ui) (simp_all add: scan_start_def Let_def str' cstr_at_append ho cstr_at_def nth_append)
  show ?thesis
    using bra a sc(2) unfolding s'
    by (cases ui) (simp_all add: uri_bounds_def se [simplified] at [simplified] ui scan_start_def Let_def)
qed

lemma uri_component_texts:
  assumes ok: "uri_parts_ok sc ui ho po pa qu fr"
    and str: "str = uri_text sc ui ho po pa qu fr"
    and s': "s' = scan_finish (scan_loop str (scan_start sc ui))" and "k < 7"
  shows "bound_text str (us_st s') (us_ed s') k =
    (if k = 0 then sc else if k = 1 then (case ui of None \<Rightarrow> [] | Some u \<Rightarrow> u) else if k = 2 then ho
     else case (if k = 3 then po else if k = 4 then pa else if k = 5 then qu else fr) of None \<Rightarrow> [] | Some t \<Rightarrow> t)"
proof -
  let ?s = "scan_start sc ui" and ?segs = "uri_segs po pa qu fr"
  define pre where "pre = sc @ ''://'' @ (case ui of None \<Rightarrow> [] | Some u \<Rightarrow> u @ ''@'')"
  have str': "str = pre @ ho @ segs_text ?segs"
    using ok str by (simp add: uri_text_segs pre_def)
  have cur: "us_cur ?s = length pre" and idx: "us_idx ?s = 0" and last: "us_last ?s = length pre"
    by (simp_all add: scan_start_def pre_def Let_def split: option.split)
  have run: "bound_text str (us_st s') (us_ed s') k =
    (if k = us_idx ?s + 2 then substr str (us_last ?s) (length pre + length ho)
     else case map_of (map seg_value ?segs) k of
            Some v \<Rightarrow> v
          | None \<Rightarrow> bound_text str (us_st ?s) (us_ed ?s) k)"
  proof (rule scan_run [OF str' _ cur _ _ _ _ _ _ s' assms(4)])
    show "segs_ok (us_idx ?s) ho ?segs" using uri_segs_ok [OF ok] idx by simp
    show "\<forall>k. us_idx ?s + 2 \<le> k \<and> k < 7 \<longrightarrow> us_st ?s ! k = 0 \<and> us_ed ?s ! k = 0"
      by (auto simp: scan_start_def Let_def split: option.split)
  qed (simp_all add: scan_start_def Let_def split: option.split)
  have none: "k < 3 \<Longrightarrow> map_of (map seg_value ?segs) k = None"
    using segs_ok_keys [OF uri_segs_ok [OF ok]] by simp
  have sc: "substr str 0 (length sc) = sc" by (simp add: str' pre_def substr_def)
  have ui: "ui = Some u \<Longrightarrow> substr str (length sc + 3) (length sc + 3 + length u) = u" for u
    using substr_append_mid [of "sc @ ''://''" "length sc + 3" u "length sc + 3 + length u"]
    by (simp add: str' pre_def)
  have ho: "substr str (length pre) (length pre + length ho) = ho"
    unfolding str' by (rule substr_append_mid) simp_all
  have zero: "substr str 0 0 = []" by (simp add: substr_def)
  show ?thesis
  proof (cases "k = 2")
    case True
    with run show ?thesis by (simp add: idx last ho)
  next
    case False
    with assms(4) consider "k = 0" | "k = 1" | "k = 3" | "k = 4" | "k = 5" | "k = 6" by linarith
    then show ?thesis
      using run none ui
      by cases (auto simp: sc zero uri_segs_values [OF ok] bound_text_def scan_start_def Let_def
          split: option.split)
  qed
qed

lemma bounds_valid_iff:
  assumes "length ed = 7" and "\<forall>x \<in> set ed. x \<le> length str"
  shows "bounds_valid str st ed \<longleftrightarrow> (\<forall>i \<in> {1..<7}. \<forall>c \<in> set (bound_text str st ed i). valid_char i c)"
proof -
  have "list_all (\<lambda>j. valid_char i (cstr_at str j)) [st ! i..<ed ! i]
      \<longleftrightarrow> (\<forall>c \<in> set (bound_text str st ed i). valid_char i c)" if "i < 7" for i
  proof -
    have "ed ! i \<le> length str" using assms that by simp
    then show ?thesis
      unfolding bound_text_def by (subst set_substr_iff) (auto simp: list_all_iff)
  qed
  then show ?thesis by (auto simp: bounds_valid_def list_all_iff)
qed

lemma parse_well_formed:
  assumes ok: "uri_parts_ok sc ui ho po pa qu fr" and alloc: "\<forall>i. alloc i"
  shows "parse alloc (uri_text sc ui ho po pa qu fr) u =
    (0, u\<lparr>scheme := Some sc, userinfo := ui, host := Some ho, port := po, path := pa, query := qu,
         fragment := fr, state := URI_STATE_SUCCESS\<rparr>)"
proof -
  define str where "str = uri_text sc ui ho po pa qu fr"
  define s' where "s' = scan_finish (scan_loop str (scan_start sc ui))"
  let ?st = "us_st s'" and ?ed = "us_ed s'"
  have b: "uri_bounds str = Some (?st, ?ed)"
    by (rule uri_bounds_eq [OF ok str_def s'_def])
  note inside = uri_bounds_inside [OF b]
  note texts = uri_component_texts [OF ok str_def s'_def]
  have parts: "part_ok 0 (Some sc)" "part_ok 1 ui" "part_ok 2 (Some ho)" "part_ok 3 po" "part_ok 4 pa"
      "part_ok 5 qu" "part_ok 6 fr" "host_text ho = ho"
    using ok by (simp_all add: uri_parts_ok_def)
  have "bounds_valid str ?st ?ed"
    unfolding bounds_valid_iff [OF inside [THEN conjunct2, THEN conjunct1] inside [THEN conjunct2, THEN conjunct2]]
  proof
    fix i :: nat assume i: "i \<in> {1..<7}"
    then consider "i = 1" | "i = 2" | "i = 3" | "i = 4" | "i = 5" | "i = 6" by fastforce
    then show "\<forall>c \<in> set (bound_text str ?st ?ed i). valid_char i c"
      using parts by cases (auto simp: texts part_ok_def list_all_iff split: option.splits)
  qed
  moreover have "component_text str ?st ?ed 0 = Some sc" "component_text str ?st ?ed 1 = ui"
      "component_text str ?st ?ed 2 = Some ho" "component_text str ?st ?ed 3 = po"
      "component_text str ?st ?ed 4 = pa" "component_text str ?st ?ed 5 = qu" "component_text str ?st ?ed 6 = fr"
    using parts by (auto simp: component_text_def texts part_ok_def split: option.splits)
  moreover have "store_loop alloc str ?st ?ed [0..<7] v
      = (0, (fold (\<lambda>i. set_component i (component_text str ?st ?ed i)) [0..<7] v)\<lparr>state := URI_STATE_SUCCESS\<rparr>)" for v
    by (rule store_loop_ok [OF alloc]) (use inside in auto)
  ultimately show ?thesis
    by (simp add: parse_def Let_def b fold_components str_def [symmetric])
qed

subsection \<open>Results of the parser on any input\<close>

lemma store_loop_cases:
  assumes "store_loop alloc str st ed is u = (r, u')"
  shows "(r = 0 \<and> state u' = URI_STATE_SUCCESS)
    \<or> (r = -1 \<and> state u' = URI_STATE_ERROR \<and> error u' = ENOMEM \<and> (\<exists>i \<in> set is. \<not> alloc i))"
  using assms
  by (induction alloc str st ed "is" u rule: store_loop.induct) (auto simp: Let_def split: if_splits)

lemma parse_cases:
  assumes "parse alloc str u = (r, u')"
  obtains (success) "r = 0" "state u' = URI_STATE_SUCCESS"
    | (invalid) "r = -1" "u' = u\<lparr>state := URI_STATE_INVALID\<rparr>"
    | (nomem) i where "r = -1" "state u' = URI_STATE_ERROR" "error u' = ENOMEM" "i < 7" "\<not> alloc i"
  using assms
  by (auto simp: parse_def Let_def split: option.splits prod.splits if_splits dest!: store_loop_cases)

lemma scan_step_keeps_low:
  "k < 2 \<Longrightarrow> us_st (scan_step str s) ! k = us_st s ! k \<and> us_ed (scan_step str s) ! k = us_ed s ! k"
  by (auto simp: scan_step_def Let_def split: option.splits)

lemma scan_keeps_low:
  assumes "length (us_st s) = 7" "length (us_ed s) = 7" and "k < 2"
  shows "us_st (scan_finish (scan_loop str s)) ! k = us_st s ! k
    \<and> us_ed (scan_finish (scan_loop str s)) ! k = us_ed s ! k"
proof -
  have "us_st (scan_loop str s) ! k = us_st s ! k \<and> us_ed (scan_loop str s) ! k = us_ed s ! k"
  proof (induction str s rule: scan_loop.induct)
    case (1 str s)
    show ?case
    proof (cases "cstr_at str (us_cur s) = NUL")
      case False
      from "1.IH" [OF False refl] scan_step_keeps_low [OF assms(3), of str s] False show ?thesis
        by (subst (1 2) scan_loop.simps) (simp add: Let_def)
    qed (simp add: scan_loop.simps)
  qed
  then show ?thesis using assms(3) by (simp add: scan_finish_def)
qed

lemma uri_bounds_userinfo:
  assumes "uri_bounds str = Some (st, ed)" and "find_userinfo str (scheme_end str 1 + 3) = Some i"
  shows "st ! 1 = scheme_end str 1 + 3 \<and> ed ! 1 = i"
  using assms
  by (auto simp: uri_bounds_def Let_def scan_keeps_low split: if_splits option.splits)

lemma parse_rejects_userinfo:
  assumes sc: "part_ok 0 (Some sc)" and w: "CHR ''@'' \<notin> set w" "NUL \<notin> set w"
    and c: "c \<in> set w" "\<not> valid_char 1 c"
  shows "parse alloc (sc @ ''://'' @ w @ ''@'' @ rest) u = (-1, u\<lparr>state := URI_STATE_INVALID\<rparr>)"
proof (cases "uri_bounds (sc @ ''://'' @ w @ ''@'' @ rest)")
  case None
  then show ?thesis by (simp add: parse_def)
next
  case (Some b)
  let ?str = "sc @ ''://'' @ w @ ''@'' @ rest"
  obtain st ed where b: "uri_bounds ?str = Some (st, ed)" using Some by (cases b) auto
  obtain a sc' where sc': "sc = a # sc'" "\<forall>c \<in> set sc'. valid_char 0 c"
    using sc by (cases sc) (auto simp: part_ok_def list_all_iff)
  have se: "scheme_end ?str 1 = length sc"
    using scheme_end_eq [of sc' "CHR '':''" "[a]" "''//'' @ w @ ''@'' @ rest"] sc'
    by (simp add: valid_char_def)
  have "find_userinfo ?str (length sc + 3) = Some (length sc + 3 + length w)"
    using find_userinfo_Some [of w "sc @ ''://''" rest] w by (auto simp: numeral_3_eq_3)
  then have "st ! 1 = length sc + 3 \<and> ed ! 1 = length sc + 3 + length w"
    using uri_bounds_userinfo [OF b, unfolded se] by blast
  then have "bound_text ?str st ed 1 = w"
    using substr_append_mid [of "sc @ ''://''" "length sc + 3" w "length sc + 3 + length w" "''@'' @ rest"]
    by (simp add: bound_text_def)
  then have "\<not> bounds_valid ?str st ed"
    using uri_bounds_inside [OF b] c by (auto simp: bounds_valid_iff intro!: bexI [of _ "Suc 0"])
  with b show ?thesis by (simp add: parse_def)
qed

subsection \<open>The two query splitters agree\<close>

definition query_agree :: "(string \<rightharpoonup> string list) \<Rightarrow> (string \<rightharpoonup> string) \<Rightarrow> bool" where
  "query_agree strict single \<longleftrightarrow> (\<forall>k. single k = map_option hd (strict k) \<and> strict k \<noteq> Some [])"

lemma query_agree_add:
  "query_agree strict single \<Longrightarrow>
     query_agree (append_value strict k v) (if single k \<noteq> None then single else single(k \<mapsto> v))"
proof -
  assume a: "query_agree strict single"
  then have "single k = map_option hd (strict k)" and "strict k \<noteq> Some []"
    by (simp_all add: query_agree_def)
  with a show ?thesis
    by (cases "strict k") (auto simp: query_agree_def append_value_def hd_append)
qed

lemma split_query_loops:
  "query_agree strict single \<Longrightarrow> query_agree (split_query_strict_loop strict arr) (split_query_loop single arr)"
proof (induction arr arbitrary: strict single)
  case (Cons ele arr)
  let ?kv = "split ele (CHR ''='')"
  let ?v = "if length ?kv = 1 then [] else ?kv ! 1"
  let ?strict = "append_value strict (?kv ! 0) ?v"
  let ?single = "if single (?kv ! 0) \<noteq> None then single else single(?kv ! 0 \<mapsto> ?v)"
  show ?case
  proof (cases "ele = [] \<or> ?kv ! 0 = []")
    case False
    have "split_query_strict_loop strict (ele # arr) = split_query_strict_loop ?strict arr"
      and "split_query_loop single (ele # arr) = split_query_loop ?single arr"
      using False by (auto simp: Let_def)
    moreover have "query_agree (split_query_strict_loop ?strict arr) (split_query_loop ?single arr)"
      by (rule Cons.IH [OF query_agree_add [OF Cons.prems]])
    ultimately show ?thesis by simp
  qed (use Cons in \<open>auto simp: Let_def\<close>)
qed simp

lemma split_query_hd:
  "split_query q k = map_option hd (split_query_strict q k) \<and> split_query_strict q k \<noteq> Some []"
proof -
  have "query_agree Map.empty Map.empty" by (simp add: query_agree_def)
  from split_query_loops [OF this, of "split q (CHR ''&'')"] show ?thesis
    by (auto simp: query_agree_def split_query_def split_query_strict_def)
qed

subsection \<open>Properties\<close>

text \<open>C7: Printing and parsing: the text put together from a scheme, an optional userinfo, a host
  and optional port, path, query and fragment, each over the characters its row of the table
  allows, is parsed successfully into exactly these parts, whatever the target held before.
  Without a userinfo, no at sign may occur in the later parts.\<close>

theorem parse_uri_roundtrip:
  assumes "uri_parts_ok sc ui ho po pa qu fr" and "\<forall>i. alloc i"
  shows "parse alloc (uri_text sc ui ho po pa qu fr) u =
    (0, u\<lparr>scheme := Some sc, userinfo := ui, host := Some ho, port := po, path := pa, query := qu,
         fragment := fr, state := URI_STATE_SUCCESS\<rparr>)"
  using assms by (rule parse_well_formed)

theorem parse_uri_roundtrip_witness:
  "uri_parts_ok ''http'' None ''a.b'' (Some ''80'') (Some ''/p'') (Some ''q=1'') None \<and>
   parse (\<lambda>_. True) ''http://a.b:80/p?q=1'' uri_init =
     (0, uri_init\<lparr>scheme := Some ''http'', userinfo := None, host := Some ''a.b'', port := Some ''80'',
        path := Some ''/p'', query := Some ''q=1'', fragment := None, state := URI_STATE_SUCCESS\<rparr>)"
proof -
  have ok: "uri_parts_ok ''http'' None ''a.b'' (Some ''80'') (Some ''/p'') (Some ''q=1'') None"
    by code_simp
  have "uri_text ''http'' None ''a.b'' (Some ''80'') (Some ''/p'') (Some ''q=1'') None = ''http://a.b:80/p?q=1''"
    by (simp add: uri_text_def)
  with ok parse_uri_roundtrip [OF ok, of "\<lambda>_. True" uri_init] show ?thesis by simp
qed

text \<open>The parser's three outcomes: success with return value 0; a rejected string with -1, where
  nothing but the state changes; or a failed allocation with -1 and the error code in the
  URI.\<close>

theorem parse_outcomes:
  assumes "parse alloc str u = (r, u')"
  shows "(r = 0 \<and> state u' = URI_STATE_SUCCESS)
    \<or> (r = -1 \<and> u' = u\<lparr>state := URI_STATE_INVALID\<rparr>)
    \<or> (r = -1 \<and> state u' = URI_STATE_ERROR \<and> error u' = ENOMEM \<and> (\<exists>i < 7. alloc i = False))"
  by (rule parse_cases [OF assms]) auto

theorem parse_outcomes_witness:
  "parse (\<lambda>_. True) ''1http://a'' uri_init = (-1, uri_init\<lparr>state := URI_STATE_INVALID\<rparr>)"
proof -
  obtain r u where p: "parse (\<lambda>_. True) ''1http://a'' uri_init = (r, u)" by fastforce
  have "r \<noteq> 0" using p by (auto simp: parse_def uri_bounds_def cstr_at_def str_simps)
  with parse_outcomes [OF p] p show ?thesis by auto
qed

text \<open>The search for the userinfo runs over the whole rest of the URI. So a URI whose first at
  sign comes after a slash, in the path or the query (where the table allows it), is rejected
  as a malformed userinfo.\<close>

theorem parse_rejects_late_at:
  assumes "part_ok 0 (Some sc)" and "CHR ''/'' \<in> set w" and "CHR ''@'' \<notin> set w" and "NUL \<notin> set w"
  shows "parse alloc (sc @ ''://'' @ w @ ''@'' @ rest) u = (-1, u\<lparr>state := URI_STATE_INVALID\<rparr>)"
  by (rule parse_rejects_userinfo [OF assms(1,3,4,2)]) (simp add: valid_char_def)

theorem parse_rejects_late_at_witness:
  "parse (\<lambda>_. True) ''http://h/u@v'' uri_init = (-1, uri_init\<lparr>state := URI_STATE_INVALID\<rparr>)"
proof -
  have "part_ok 0 (Some ''http'')" by code_simp
  from parse_rejects_late_at [OF this, of "''h/u''" "\<lambda>_. True" "''v''" uri_init]
  show ?thesis by simp
qed

text \<open>The two query splitters agree: \<^verbatim>\<open>split_query\<close> gives for every key the first value that
  \<^verbatim>\<open>split_query_strict\<close> lists for it, and a listed key has at least one value.\<close>

theorem split_query_first_value:
  "split_query q k = map_option hd (split_query_strict q k) \<and> split_query_strict q k \<noteq> Some []"
  by (rule split_query_hd)

end
