(* ===== verification/LinkedList.thy ===== *)
theory LinkedList imports Prelude begin

text \<open>
  The intrusive doubly linked lists of \<^verbatim>\<open>kernel/list.h\<close>, on an explicit store of next and
  previous pointers, with the predicate \<open>dlist\<close> that says which nodes a list head links in
  which order. The locale \<open>intrusive_list\<close> is what the components that embed such lists rely
  on: appending and deleting act on the node sequence, and lists that share no node do not
  disturb each other.
\<close>

subsection \<open>The store and the operations\<close>

type_synonym addr = nat

record links =
  next_of :: "addr \<Rightarrow> addr"
  prev_of :: "addr \<Rightarrow> addr"

definition set_next :: "addr \<Rightarrow> addr \<Rightarrow> links \<Rightarrow> links" where
  "set_next p v h = h\<lparr>next_of := (next_of h)(p := v)\<rparr>"

definition set_prev :: "addr \<Rightarrow> addr \<Rightarrow> links \<Rightarrow> links" where
  "set_prev p v h = h\<lparr>prev_of := (prev_of h)(p := v)\<rparr>"

definition INIT_LIST_HEAD :: "addr \<Rightarrow> links \<Rightarrow> links" where
  "INIT_LIST_HEAD l h = set_prev l l (set_next l l h)"

definition list_add_between :: "addr \<Rightarrow> addr \<Rightarrow> addr \<Rightarrow> links \<Rightarrow> links" where
  "list_add_between node prev nxt h =
     set_next prev node (set_prev node prev (set_next node nxt (set_prev nxt node h)))"

definition list_add :: "addr \<Rightarrow> addr \<Rightarrow> links \<Rightarrow> links" where
  "list_add node head h = list_add_between node head (next_of h head) h"

definition list_add_tail :: "addr \<Rightarrow> addr \<Rightarrow> links \<Rightarrow> links" where
  "list_add_tail node head h = list_add_between node (prev_of h head) head h"

definition list_del_between :: "addr \<Rightarrow> addr \<Rightarrow> links \<Rightarrow> links" where
  "list_del_between prev nxt h = set_next prev nxt (set_prev nxt prev h)"

definition list_del :: "addr \<Rightarrow> links \<Rightarrow> links" where
  "list_del entry h = list_del_between (prev_of h entry) (next_of h entry) h"

definition list_move :: "addr \<Rightarrow> addr \<Rightarrow> links \<Rightarrow> links" where
  "list_move node head h = list_add node head (list_del_between (prev_of h node) (next_of h node) h)"

definition list_move_tail :: "addr \<Rightarrow> addr \<Rightarrow> links \<Rightarrow> links" where
  "list_move_tail node head h =
     list_add_tail node head (list_del_between (prev_of h node) (next_of h node) h)"

definition list_empty :: "addr \<Rightarrow> links \<Rightarrow> bool" where
  "list_empty head h \<longleftrightarrow> next_of h head = head"

definition list_splice_at :: "addr \<Rightarrow> addr \<Rightarrow> links \<Rightarrow> links" where
  "list_splice_at lst head h =
     (let first = next_of h lst; last = prev_of h lst; at = next_of h head
      in set_prev at last (set_next last at (set_next head first (set_prev first head h))))"

definition list_splice :: "addr \<Rightarrow> addr \<Rightarrow> links \<Rightarrow> links" where
  "list_splice lst head h = (if \<not> list_empty lst h then list_splice_at lst head h else h)"

definition list_splice_init :: "addr \<Rightarrow> addr \<Rightarrow> links \<Rightarrow> links" where
  "list_splice_init lst head h =
     (if \<not> list_empty lst h then INIT_LIST_HEAD lst (list_splice_at lst head h) else h)"

text \<open>
  The nodes a \<^verbatim>\<open>list_for_each\<close> loop visits. The loop need not end on an arbitrary store, so
  it runs on fuel; \<open>None\<close> is "out of fuel".
\<close>

fun for_each :: "nat \<Rightarrow> addr \<Rightarrow> addr \<Rightarrow> links \<Rightarrow> addr list option" where
  "for_each 0 pos head h = None"
| "for_each (Suc fuel) pos head h =
     (if pos = head then Some []
      else map_option ((#) pos) (for_each fuel (next_of h pos) head h))"

definition list_for_each :: "nat \<Rightarrow> addr \<Rightarrow> links \<Rightarrow> addr list option" where
  "list_for_each fuel head h = for_each fuel (next_of h head) head h"

named_theorems link_simps \<open>reads of the store after writes\<close>

lemma next_of_set [link_simps]:
  "next_of (set_next p v h) = (next_of h)(p := v)" "next_of (set_prev p v h) = next_of h"
  "prev_of (set_next p v h) = prev_of h" "prev_of (set_prev p v h) = (prev_of h)(p := v)"
  by (simp_all add: set_next_def set_prev_def)

lemmas list_op_defs = INIT_LIST_HEAD_def list_add_between_def list_add_def list_add_tail_def
  list_del_between_def list_del_def list_move_def list_move_tail_def list_empty_def
  list_splice_at_def list_splice_def list_splice_init_def

subsection \<open>The sequence of nodes a head links\<close>

fun dseg :: "links \<Rightarrow> addr \<Rightarrow> addr list \<Rightarrow> addr \<Rightarrow> bool" where
  "dseg h a [] b = (next_of h a = b \<and> prev_of h b = a)"
| "dseg h a (x # xs) b = (next_of h a = x \<and> prev_of h x = a \<and> dseg h x xs b)"

definition dlist :: "links \<Rightarrow> addr \<Rightarrow> addr list \<Rightarrow> bool" where
  [inv_simps]: "dlist h l xs \<longleftrightarrow> distinct (l # xs) \<and> dseg h l xs l"

lemma dseg_append: "dseg h a (xs @ x # ys) b \<longleftrightarrow> dseg h a xs x \<and> dseg h x ys b"
  by (induction xs arbitrary: a) auto

lemma dseg_cong:
  assumes "\<And>u. u \<in> set (a # xs) \<Longrightarrow> next_of h' u = next_of h u"
    and "\<And>u. u \<in> set (xs @ [b]) \<Longrightarrow> prev_of h' u = prev_of h u"
  shows "dseg h' a xs b = dseg h a xs b"
  using assms by (induction xs arbitrary: a) auto

lemma dseg_ends: "dseg h a xs b \<Longrightarrow> next_of h a = hd (xs @ [b]) \<and> prev_of h b = last (a # xs)"
  by (induction xs arbitrary: a) auto

lemma dlist_ends: "dlist h l xs \<Longrightarrow> next_of h l = hd (xs @ [l]) \<and> prev_of h l = last (l # xs)"
  unfolding dlist_def by (blast dest: dseg_ends)

lemma dlist_empty_iff:
  assumes "dlist h l xs"
  shows "list_empty l h \<longleftrightarrow> xs = []"
proof -
  have "next_of h l = hd (xs @ [l])" and "l \<notin> set xs"
    using dlist_ends [OF assms] assms by (simp_all add: dlist_def)
  then show ?thesis unfolding list_empty_def by (cases xs) auto
qed

lemma dlist_frame:
  assumes "dlist h m zs" and "\<And>u. u \<in> set (m # zs) \<Longrightarrow> next_of h' u = next_of h u \<and> prev_of h' u = prev_of h u"
  shows "dlist h' m zs"
proof -
  have "dseg h' m zs m = dseg h m zs m" by (rule dseg_cong) (use assms(2) in auto)
  with assms(1) show ?thesis by (simp add: dlist_def)
qed

lemma dlist_init: "dlist (INIT_LIST_HEAD l h) l []"
  by (simp add: dlist_def INIT_LIST_HEAD_def link_simps)

text \<open>Linking a node between two neighbours, and unlinking one.\<close>

lemma dlist_insert:
  assumes "dlist h l (xs @ ys)" and "n \<notin> set (l # xs @ ys)"
    and "p = last (l # xs)" and "q = hd (ys @ [l])"
  shows "dlist (list_add_between n p q h) l (xs @ n # ys)"
proof -
  have d: "distinct (l # xs @ n # ys)" using assms(1,2) by (auto simp: dlist_def)
  have p: "p \<in> set (l # xs)" unfolding assms(3) by (rule last_in_set) simp
  have q: "q \<in> set (ys @ [l])" unfolding assms(4) by (rule hd_in_set) simp
  let ?h = "list_add_between n p q h"
  have seg: "dseg h l xs q \<and> (ys = [] \<or> dseg h q (tl ys) l)"
    using assms(1,4) by (cases ys) (auto simp: dlist_def dseg_append)
  have "dseg ?h l xs n"
  proof (cases xs rule: rev_cases)
    case Nil
    then show ?thesis using assms(3) by (simp add: list_add_between_def link_simps)
  next
    case (snoc us p')
    then have "p = p'" using assms(3) by simp
    have "dseg h l us p'" using seg snoc by (simp add: dseg_append)
    moreover have "dseg ?h l us p' = dseg h l us p'"
      by (rule dseg_cong)
         (use d q snoc \<open>p = p'\<close> in \<open>auto simp: list_add_between_def link_simps\<close>)+
    ultimately show ?thesis
      using snoc \<open>p = p'\<close> by (simp add: dseg_append list_add_between_def link_simps)
  qed
  moreover have "dseg ?h n ys l"
  proof (cases ys)
    case Nil
    then show ?thesis using assms(2,3,4) by (auto simp: list_add_between_def link_simps)
  next
    case (Cons q' vs)
    then have "q = q'" using assms(4) by simp
    have "dseg ?h q' vs l = dseg h q' vs l"
      by (rule dseg_cong)
         (use d p Cons \<open>q = q'\<close> in \<open>auto simp: list_add_between_def link_simps\<close>)+
    moreover have "q' \<noteq> p" "q' \<noteq> n" "n \<noteq> p" "q = q'"
      using d p Cons \<open>q = q'\<close> by auto
    ultimately show ?thesis
      using Cons seg by (simp add: list_add_between_def link_simps)
  qed
  ultimately show ?thesis using d by (simp add: dlist_def dseg_append)
qed

lemma dlist_remove:
  assumes "dlist h l (xs @ n # ys)"
  shows "dlist (list_del n h) l (xs @ ys)"
proof -
  have d: "distinct (l # xs @ n # ys)" using assms by (simp add: dlist_def)
  have seg: "dseg h l xs n" "dseg h n ys l" using assms by (simp_all add: dlist_def dseg_append)
  define p q where "p = last (l # xs)" and "q = hd (ys @ [l])"
  have pq: "prev_of h n = p" "next_of h n = q"
    using dseg_ends [OF seg(1)] dseg_ends [OF seg(2)] unfolding p_def q_def by blast+
  have p: "p \<in> set (l # xs)" unfolding p_def by (rule last_in_set) simp
  have q: "q \<in> set (ys @ [l])" unfolding q_def by (rule hd_in_set) simp
  let ?h = "list_del n h"
  have nx: "next_of ?h = (next_of h)(p := q)" and pv: "prev_of ?h = (prev_of h)(q := p)"
    by (simp_all add: list_del_def list_del_between_def link_simps pq)
  have "dseg ?h l xs q"
  proof (cases xs rule: rev_cases)
    case Nil
    then show ?thesis by (simp add: nx pv p_def)
  next
    case (snoc us p')
    then have "p = p'" by (simp add: p_def)
    have "dseg h l us p'" using seg(1) snoc by (simp add: dseg_append)
    moreover have "dseg ?h l us p' = dseg h l us p'"
      by (rule dseg_cong) (use d q snoc \<open>p = p'\<close> in \<open>auto simp: nx pv\<close>)+
    ultimately show ?thesis using snoc \<open>p = p'\<close> by (simp add: dseg_append nx pv)
  qed
  moreover have "ys = [] \<or> dseg ?h q (tl ys) l"
  proof (cases ys)
    case (Cons q' vs)
    then have "q = q'" by (simp add: q_def)
    have "dseg ?h q' vs l = dseg h q' vs l"
      by (rule dseg_cong) (use d p Cons \<open>q = q'\<close> in \<open>auto simp: nx pv\<close>)+
    then show ?thesis using seg(2) Cons \<open>q = q'\<close> by simp
  qed simp
  ultimately have "dseg ?h l (xs @ ys) l"
    by (cases ys) (auto simp: q_def dseg_append)
  with d show ?thesis by (simp add: dlist_def)
qed

lemma dlist_add_tail:
  assumes "dlist h l xs" and "n \<notin> set (l # xs)"
  shows "dlist (list_add_tail n l h) l (xs @ [n])"
  using dlist_insert [of h l xs "[]" n] dlist_ends [OF assms(1)] assms by (simp add: list_add_tail_def)

lemma dlist_add:
  assumes "dlist h l xs" and "n \<notin> set (l # xs)"
  shows "dlist (list_add n l h) l (n # xs)"
  using dlist_insert [of h l "[]" xs n] dlist_ends [OF assms(1)] assms by (simp add: list_add_def)

lemma dlist_del:
  assumes "dlist h l xs" and "n \<in> set xs"
  shows "dlist (list_del n h) l (remove1 n xs)"
proof -
  obtain us vs where xs: "xs = us @ n # vs" "n \<notin> set us" using assms(2) by (metis split_list_first)
  then show ?thesis using dlist_remove [of h l us n vs] assms(1) by (simp add: remove1_append)
qed

lemma dlist_neighbours:
  assumes "dlist h l xs" and "n \<in> set (l # xs)"
  shows "next_of h n \<in> set (l # xs)" and "prev_of h n \<in> set (l # xs)"
proof -
  have next_in: "dseg h a ys b \<Longrightarrow> n \<in> set (a # ys) \<Longrightarrow> next_of h n \<in> set (ys @ [b])" for a ys b
    by (induction ys arbitrary: a) auto
  have prev_in: "dseg h a ys b \<Longrightarrow> n \<in> set (ys @ [b]) \<Longrightarrow> prev_of h n \<in> set (a # ys)" for a ys b
    by (induction ys arbitrary: a) auto
  show "next_of h n \<in> set (l # xs)" "prev_of h n \<in> set (l # xs)"
    using next_in [of l xs l] prev_in [of l xs l] assms by (auto simp: dlist_def)
qed

text \<open>Lists that share no node do not disturb each other.\<close>

lemma list_add_tail_frame:
  assumes "dlist h l xs" and "dlist h m zs" and "set (m # zs) \<inter> set (l # n # xs) = {}"
  shows "dlist (list_add_tail n l h) m zs"
proof (rule dlist_frame [OF assms(2)])
  fix u assume "u \<in> set (m # zs)"
  then have "u \<noteq> n" "u \<noteq> l" "u \<noteq> prev_of h l"
    using assms(3) dlist_neighbours(2) [OF assms(1), of l] by auto
  then show "next_of (list_add_tail n l h) u = next_of h u \<and> prev_of (list_add_tail n l h) u = prev_of h u"
    by (simp add: list_add_tail_def list_add_between_def link_simps)
qed

lemma list_del_frame:
  assumes "dlist h l xs" and "n \<in> set xs" and "dlist h m zs" and "set (m # zs) \<inter> set (l # xs) = {}"
  shows "dlist (list_del n h) m zs"
proof (rule dlist_frame [OF assms(3)])
  fix u assume u: "u \<in> set (m # zs)"
  have "n \<in> set (l # xs)" using assms(2) by simp
  from dlist_neighbours [OF assms(1) this] u assms(4)
  have "u \<noteq> prev_of h n" "u \<noteq> next_of h n" by auto
  then show "next_of (list_del n h) u = next_of h u \<and> prev_of (list_del n h) u = prev_of h u"
    by (simp add: list_del_def list_del_between_def link_simps)
qed

subsection \<open>Traversal\<close>

lemma for_each_dseg:
  "dseg h a ys l \<Longrightarrow> l \<notin> set ys \<Longrightarrow> length ys < fuel \<Longrightarrow> for_each fuel (next_of h a) l h = Some ys"
proof (induction ys arbitrary: a fuel)
  case Nil
  then show ?case by (cases fuel) auto
next
  case (Cons y ys)
  then obtain f where f: "fuel = Suc f" by (cases fuel) auto
  from Cons have "for_each f (next_of h y) l h = Some ys" by (simp add: f)
  with Cons.prems show ?case by (simp add: f)
qed

subsection \<open>Splicing\<close>

text \<open>Consecutive nodes that point to each other.\<close>

fun chain :: "links \<Rightarrow> addr list \<Rightarrow> bool" where
  "chain h (a # b # ys) = (next_of h a = b \<and> prev_of h b = a \<and> chain h (b # ys))"
| "chain h _ = True"

lemma dseg_chain:
  "dseg h a xs b \<longleftrightarrow> chain h (a # xs) \<and> next_of h (last (a # xs)) = b \<and> prev_of h b = last (a # xs)"
  by (induction xs arbitrary: a) auto

lemma chain_append:
  "chain h (xs @ ys) \<longleftrightarrow> chain h xs \<and> chain h ys
     \<and> (xs \<noteq> [] \<and> ys \<noteq> [] \<longrightarrow> next_of h (last xs) = hd ys \<and> prev_of h (hd ys) = last xs)"
proof (induction xs)
  case (Cons a xs)
  then show ?case by (cases xs; cases ys) auto
qed simp

lemma chain_cong:
  assumes "\<And>u. u \<in> set (butlast xs) \<Longrightarrow> next_of h' u = next_of h u"
    and "\<And>u. u \<in> set (tl xs) \<Longrightarrow> prev_of h' u = prev_of h u"
  shows "chain h' xs = chain h xs"
  using assms by (induction h xs rule: chain.induct) auto

lemma list_splice_at_dlist:
  assumes l: "dlist h l xs" and m: "dlist h m zs" and disj: "set (l # xs) \<inter> set (m # zs) = {}" and "xs \<noteq> []"
  shows "dlist (list_splice_at l m h) m (xs @ zs)"
proof -
  define f la at where "f = hd xs" and "la = last xs" and "at = hd (zs @ [m])"
  have ends: "next_of h l = f" "prev_of h l = la" "next_of h m = at"
    using dlist_ends [OF l] dlist_ends [OF m] \<open>xs \<noteq> []\<close> by (simp_all add: f_def la_def at_def)
  let ?h = "list_splice_at l m h"
  have f: "f \<in> set xs" and la: "la \<in> set xs" using \<open>xs \<noteq> []\<close> by (simp_all add: f_def la_def)
  have at: "at \<in> set (zs @ [m])" unfolding at_def by (rule hd_in_set) simp
  have d: "distinct (m # xs @ zs)" using l m disj by (auto simp: dlist_def)
  have nx: "next_of ?h = (next_of h)(m := f, la := at)" and pv: "prev_of ?h = (prev_of h)(f := m, at := la)"
    by (simp_all add: list_splice_at_def link_simps ends)
  have ne: "m \<noteq> la" "f \<noteq> at" using d f la at by auto
  have chl: "chain h (l # xs)" and chm: "chain h (m # zs)"
    using l m by (simp_all add: dlist_def dseg_chain)
  have bl1: "la \<notin> set (butlast xs)"
    using d \<open>xs \<noteq> []\<close> unfolding la_def by (cases xs rule: rev_cases) auto
  have bl2: "f \<notin> set (tl xs)" using d \<open>xs \<noteq> []\<close> unfolding f_def by (cases xs) auto
  have bl3: "at \<notin> set (tl zs)" using d unfolding at_def by (cases zs) auto
  have "chain ?h xs = chain h xs"
  proof (rule chain_cong)
    fix u assume "u \<in> set (butlast xs)"
    then have "u \<noteq> la" "u \<noteq> m" using bl1 d by (auto dest: in_set_butlastD)
    then show "next_of ?h u = next_of h u" by (simp add: nx)
  next
    fix u assume u: "u \<in> set (tl xs)"
    then have "u \<noteq> f" "u \<noteq> at" using bl2 d at by (auto dest: list.set_sel(2) [OF \<open>xs \<noteq> []\<close>])
    then show "prev_of ?h u = prev_of h u" by (simp add: pv)
  qed
  moreover have "chain ?h zs = chain h zs"
  proof (rule chain_cong)
    fix u assume "u \<in> set (butlast zs)"
    then have "u \<noteq> la" "u \<noteq> m" using la d by (auto dest: in_set_butlastD)
    then show "next_of ?h u = next_of h u" by (simp add: nx)
  next
    fix u assume "u \<in> set (tl zs)"
    then have "u \<noteq> f" "u \<noteq> at" using bl3 f d by (cases zs; auto)+
    then show "prev_of ?h u = prev_of h u" by (simp add: pv)
  qed
  moreover have "chain h xs" using chl by (cases xs) simp_all
  moreover have "chain h zs" using chm by (cases zs) simp_all
  moreover have "next_of ?h m = hd (xs @ zs)" "prev_of ?h (hd (xs @ zs)) = m"
    "next_of ?h la = at" "prev_of ?h at = la"
    using ne \<open>xs \<noteq> []\<close> by (simp_all add: nx pv f_def [symmetric])
  moreover have "(zs = [] \<and> at = m) \<or> (zs \<noteq> [] \<and> at = hd zs \<and> next_of ?h (last zs) = m \<and> prev_of ?h m = last zs)"
  proof (cases "zs = []")
    case False
    then have "at = hd zs" "last zs \<noteq> la" "last zs \<noteq> m" "m \<noteq> f" "m \<noteq> at"
      using d la f by (auto simp: at_def)
    moreover have "next_of h (last zs) = m" "prev_of h m = last zs"
      using m False by (simp_all add: dlist_def dseg_chain)
    ultimately show ?thesis using False by (simp add: nx pv)
  qed (simp add: at_def)
  ultimately have "chain ?h (m # xs @ zs)" "next_of ?h (last (m # xs @ zs)) = m"
      "prev_of ?h m = last (m # xs @ zs)"
    using \<open>xs \<noteq> []\<close> chain_append [of ?h "[m]" "xs @ zs"] chain_append [of ?h xs zs]
    by (elim disjE; simp add: la_def [symmetric])+
  then show ?thesis using d by (simp add: dlist_def dseg_chain)
qed

lemma list_splice_at_init:
  assumes "dlist h l xs" and "dlist h m zs" and "set (l # xs) \<inter> set (m # zs) = {}" and "xs \<noteq> []"
  shows "dlist (INIT_LIST_HEAD l (list_splice_at l m h)) m (xs @ zs)"
proof (rule dlist_frame [OF list_splice_at_dlist [OF assms]])
  fix u assume "u \<in> set (m # xs @ zs)"
  then have "u \<noteq> l" using assms(1,3) by (auto simp: dlist_def)
  then show "next_of (INIT_LIST_HEAD l (list_splice_at l m h)) u = next_of (list_splice_at l m h) u
      \<and> prev_of (INIT_LIST_HEAD l (list_splice_at l m h)) u = prev_of (list_splice_at l m h) u"
    by (simp add: INIT_LIST_HEAD_def link_simps)
qed

subsection \<open>The interface to clients\<close>

text \<open>
  What a client of an intrusive list relies on: \<open>holds s l xs\<close> says that the head \<open>l\<close> links the
  nodes \<open>xs\<close>; \<open>app n l\<close> links a node at the tail; \<open>del n\<close> unlinks it.
\<close>

locale intrusive_list =
  fixes holds :: "'s \<Rightarrow> addr \<Rightarrow> addr list \<Rightarrow> bool"
    and app :: "addr \<Rightarrow> addr \<Rightarrow> 's \<Rightarrow> 's"
    and del :: "addr \<Rightarrow> 's \<Rightarrow> 's"
  assumes holds_distinct: "holds s l xs \<Longrightarrow> distinct (l # xs)"
    and app_holds: "holds s l xs \<Longrightarrow> n \<notin> set (l # xs) \<Longrightarrow> holds (app n l s) l (xs @ [n])"
    and app_frame: "holds s l xs \<Longrightarrow> holds s m zs \<Longrightarrow> set (m # zs) \<inter> set (l # n # xs) = {}
      \<Longrightarrow> holds (app n l s) m zs"
    and del_holds: "holds s l xs \<Longrightarrow> n \<in> set xs \<Longrightarrow> holds (del n s) l (remove1 n xs)"
    and del_frame: "holds s l xs \<Longrightarrow> n \<in> set xs \<Longrightarrow> holds s m zs \<Longrightarrow> set (m # zs) \<inter> set (l # xs) = {}
      \<Longrightarrow> holds (del n s) m zs"
begin

text \<open>Two lists with no node in common, and what moving, adding and removing do to the pair.\<close>

definition pair :: "'s \<Rightarrow> addr \<Rightarrow> addr list \<Rightarrow> addr \<Rightarrow> addr list \<Rightarrow> bool" where
  "pair s l xs m zs \<longleftrightarrow> holds s l xs \<and> holds s m zs \<and> set (l # xs) \<inter> set (m # zs) = {}"

lemma pair_sym: "pair s l xs m zs \<Longrightarrow> pair s m zs l xs"
  by (auto simp: pair_def)

lemma pair_distinct: "pair s l xs m zs \<Longrightarrow> distinct (l # m # xs @ zs)"
  unfolding pair_def using holds_distinct [of s l xs] holds_distinct [of s m zs] by auto

lemma app_pair:
  assumes "pair s l xs m zs" and "n \<notin> set (l # m # xs @ zs)"
  shows "pair (app n l s) l (xs @ [n]) m zs"
  using assms app_holds [of s l xs n] app_frame [of s l xs m zs n] by (auto simp: pair_def)

lemma del_pair:
  assumes "pair s l xs m zs" and "n \<in> set xs"
  shows "pair (del n s) l (remove1 n xs) m zs"
  using assms del_holds [of s l xs n] del_frame [of s l xs n m zs] set_remove1_subset [of n xs]
  unfolding pair_def by auto

lemma move_pair:
  assumes "pair s l xs m zs" and "n \<in> set xs"
  shows "pair (app n m (del n s)) l (remove1 n xs) m (zs @ [n])"
proof -
  have "distinct (l # m # xs @ zs)" by (rule pair_distinct [OF assms(1)])
  then have "n \<notin> set (m # l # zs @ remove1 n xs)" using assms(2) by auto
  from app_pair [OF pair_sym [OF del_pair [OF assms]] this] show ?thesis by (rule pair_sym)
qed

end

interpretation kernel_list: intrusive_list dlist list_add_tail list_del
proof
  fix s l xs n m zs
  show "dlist s l xs \<Longrightarrow> distinct (l # xs)" by (simp add: dlist_def)
  show "dlist s l xs \<Longrightarrow> n \<notin> set (l # xs) \<Longrightarrow> dlist (list_add_tail n l s) l (xs @ [n])"
    by (rule dlist_add_tail)
  show "dlist s l xs \<Longrightarrow> dlist s m zs \<Longrightarrow> set (m # zs) \<inter> set (l # n # xs) = {}
      \<Longrightarrow> dlist (list_add_tail n l s) m zs"
    by (rule list_add_tail_frame)
  show "dlist s l xs \<Longrightarrow> n \<in> set xs \<Longrightarrow> dlist (list_del n s) l (remove1 n xs)" by (rule dlist_del)
  show "dlist s l xs \<Longrightarrow> n \<in> set xs \<Longrightarrow> dlist s m zs \<Longrightarrow> set (m # zs) \<inter> set (l # xs) = {}
      \<Longrightarrow> dlist (list_del n s) m zs"
    by (rule list_del_frame)
qed

subsection \<open>Properties\<close>

text \<open>Moving a node from one list to the tail of another with \<^verbatim>\<open>list_move_tail\<close> takes it out
  of the first node sequence, appends it to the second and keeps both lists well linked, and a
  \<^verbatim>\<open>list_for_each\<close> over either list then ends and visits exactly its nodes in order.\<close>

theorem list_move_tail_traverse:
  assumes "dlist h l xs" and "dlist h m zs" and "set (l # xs) \<inter> set (m # zs) = {}" and "n \<in> set xs"
  defines "h' \<equiv> list_move_tail n m h"
  shows "dlist h' l (remove1 n xs) \<and> dlist h' m (zs @ [n])
    \<and> (\<forall>fuel. length xs + length zs + 1 < fuel \<longrightarrow>
         list_for_each fuel l h' = Some (remove1 n xs) \<and> list_for_each fuel m h' = Some (zs @ [n]))"
proof -
  have eq: "h' = list_add_tail n m (list_del n h)"
    by (simp add: h'_def list_move_tail_def list_del_def)
  have p: "kernel_list.pair h' l (remove1 n xs) m (zs @ [n])"
    unfolding eq by (rule kernel_list.move_pair) (use assms in \<open>auto simp: kernel_list.pair_def\<close>)
  then have d: "dlist h' l (remove1 n xs)" "dlist h' m (zs @ [n])" by (simp_all add: kernel_list.pair_def)
  have "length (remove1 n xs) \<le> length xs" by (simp add: length_remove1)
  then show ?thesis using d by (auto simp: list_for_each_def dlist_def intro!: for_each_dseg)
qed

theorem list_move_tail_traverse_witness:
  "let h = list_add_tail 12 1 (list_add_tail 11 0 (list_add_tail 10 0
        (INIT_LIST_HEAD 1 (INIT_LIST_HEAD 0 \<lparr>next_of = id, prev_of = id\<rparr>)))) in
   dlist h 0 [10, 11] \<and> dlist h 1 [12]
     \<and> list_for_each 9 0 (list_move_tail 10 1 h) = Some [11]
     \<and> list_for_each 9 1 (list_move_tail 10 1 h) = Some [12, 10]"
proof -
  let ?h = "list_add_tail 12 1 (list_add_tail 11 0 (list_add_tail 10 0
        (INIT_LIST_HEAD 1 (INIT_LIST_HEAD 0 \<lparr>next_of = id, prev_of = id\<rparr>))))"
  have d: "dlist ?h 0 [10, 11]" "dlist ?h 1 [12]"
    by (simp_all add: dlist_def list_op_defs link_simps)
  show ?thesis
    using d list_move_tail_traverse [OF d, of 10] by (simp add: Let_def)
qed

text \<open>\<^verbatim>\<open>list_splice_init\<close> puts the nodes of a list in front of those of another, keeps their
  order and leaves the first list empty, also when there is nothing to splice.\<close>

theorem list_splice_init_correct:
  assumes "dlist h l xs" and "dlist h m zs" and "set (l # xs) \<inter> set (m # zs) = {}"
  shows "dlist (list_splice_init l m h) m (xs @ zs) \<and> dlist (list_splice_init l m h) l []
    \<and> list_empty l (list_splice_init l m h)"
proof -
  have e: "list_empty l h \<longleftrightarrow> xs = []" by (rule dlist_empty_iff [OF assms(1)])
  have "dlist (list_splice_init l m h) m (xs @ zs) \<and> dlist (list_splice_init l m h) l []"
  proof (cases "xs = []")
    case True
    then show ?thesis using assms e by (simp add: list_splice_init_def)
  next
    case False
    then show ?thesis using list_splice_at_init [OF assms] e by (simp add: list_splice_init_def dlist_init)
  qed
  then show ?thesis using dlist_empty_iff by blast
qed

theorem list_splice_init_correct_witness:
  "let h = list_add_tail 12 1 (list_add_tail 11 0 (list_add_tail 10 0
        (INIT_LIST_HEAD 1 (INIT_LIST_HEAD 0 \<lparr>next_of = id, prev_of = id\<rparr>)))) in
   dlist h 0 [10, 11] \<and> dlist h 1 [12] \<and> dlist (list_splice_init 0 1 h) 1 [10, 11, 12]"
proof -
  let ?h = "list_add_tail 12 1 (list_add_tail 11 0 (list_add_tail 10 0
        (INIT_LIST_HEAD 1 (INIT_LIST_HEAD 0 \<lparr>next_of = id, prev_of = id\<rparr>))))"
  have d: "dlist ?h 0 [10, 11]" "dlist ?h 1 [12]"
    by (simp_all add: dlist_def list_op_defs link_simps)
  show ?thesis
    using d list_splice_init_correct [OF d] by (simp add: Let_def)
qed

end
