(* ===== verification/LRUCache.thy ===== *)
theory LRUCache imports LinkedList "HOL-Library.Monad_Syntax" "HOL-Library.Multiset" begin

text \<open>
  The reference counted cache of \<^verbatim>\<open>util/LRUCache.h\<close>. Handles live at addresses; their
  \<^verbatim>\<open>next\<close> and \<^verbatim>\<open>prev\<close> fields are the link store of \<^verbatim>\<open>LinkedList\<close>, the two list heads
  \<^verbatim>\<open>not_use_\<close> and \<^verbatim>\<open>in_use_\<close> are fixed addresses. An operation returns \<open>None\<close> when an
  \<^verbatim>\<open>assert\<close> fails, a freed handle is used, or a loop does not end. The invariant counts, for
  each handle, the references that clients hold (\<open>held\<close>), and says which handles the two lists
  link; every operation keeps it and so never fails.
\<close>

subsection \<open>State\<close>

record ('k, 'v) LRUHandle =
  h_key :: 'k
  h_value :: 'v
  h_ref :: int
  h_in_cache :: bool

text \<open>
  \<open>handles\<close> maps the address of a live handle to its fields, \<open>deleted\<close> lists the values passed
  to the value deleter so far, \<open>size\<close> is a 64-bit unsigned integer.
\<close>

record ('k, 'v) LRUCache =
  links_of :: links
  handles :: "addr \<rightharpoonup> ('k, 'v) LRUHandle"
  cache_map :: "'k \<rightharpoonup> addr"
  max_size :: nat
  cur_size :: nat
  deleted :: "'v list"

abbreviation NOT_USE :: addr where "NOT_USE \<equiv> 0"
abbreviation IN_USE :: addr where "IN_USE \<equiv> 1"
abbreviation NULL_PTR :: addr where "NULL_PTR \<equiv> 2"

definition size_inc :: "nat \<Rightarrow> nat" where
  "size_inc n = (n + 1) mod 2 ^ 64"

definition size_dec :: "nat \<Rightarrow> nat" where
  "size_dec n = (n + (2 ^ 64 - 1)) mod 2 ^ 64"

definition assert_that :: "bool \<Rightarrow> unit option" where
  "assert_that b = (if b then Some () else None)"

lemma assert_that_simps [simp]: "assert_that True = Some ()" "assert_that False = None"
  by (simp_all add: assert_that_def)

subsection \<open>Operations\<close>

definition list_remove :: "addr \<Rightarrow> links \<Rightarrow> links" where
  "list_remove node h =
     (let h = set_prev (next_of h node) (prev_of h node) h
      in set_next (prev_of h node) (next_of h node) h)"

definition list_append :: "addr \<Rightarrow> addr \<Rightarrow> links \<Rightarrow> links" where
  "list_append lst node h =
     (let h = set_next node lst h;
          h = set_prev node (prev_of h lst) h;
          h = set_next (prev_of h node) node h
      in set_prev (next_of h node) node h)"

definition lru_init :: "links \<Rightarrow> ('k, 'v) LRUCache" where
  "lru_init h = \<lparr>links_of = set_prev IN_USE IN_USE (set_next IN_USE IN_USE
      (set_prev NOT_USE NOT_USE (set_next NOT_USE NOT_USE h))),
     handles = Map.empty, cache_map = Map.empty, max_size = 0, cur_size = 0, deleted = []\<rparr>"

definition set_max_size :: "nat \<Rightarrow> ('k, 'v) LRUCache \<Rightarrow> ('k, 'v) LRUCache" where
  "set_max_size n c = c\<lparr>max_size := n\<rparr>"

definition lru_ref :: "addr \<Rightarrow> ('k, 'v) LRUCache \<Rightarrow> ('k, 'v) LRUCache option" where
  "lru_ref e c = do {
     x \<leftarrow> handles c e;
     let c = (if h_in_cache x \<and> h_ref x = 1
              then c\<lparr>links_of := list_append IN_USE e (list_remove e (links_of c))\<rparr> else c);
     Some (c\<lparr>handles := (handles c)(e \<mapsto> x\<lparr>h_ref := h_ref x + 1\<rparr>)\<rparr>)}"

definition lru_unref :: "addr \<Rightarrow> ('k, 'v) LRUCache \<Rightarrow> ('k, 'v) LRUCache option" where
  "lru_unref e c = do {
     x \<leftarrow> handles c e;
     assert_that (h_ref x > 0);
     let x = x\<lparr>h_ref := h_ref x - 1\<rparr>;
     let c = c\<lparr>handles := (handles c)(e \<mapsto> x)\<rparr>;
     if h_ref x = 0 then do {
       assert_that (\<not> h_in_cache x);
       Some (c\<lparr>deleted := deleted c @ [h_value x], handles := (handles c)(e := None)\<rparr>)}
     else if h_in_cache x \<and> h_ref x = 1
     then Some (c\<lparr>links_of := list_append NOT_USE e (list_remove e (links_of c))\<rparr>)
     else Some c}"

definition erase_node :: "addr \<Rightarrow> ('k, 'v) LRUCache \<Rightarrow> ('k, 'v) LRUCache option" where
  "erase_node e c = do {
     x \<leftarrow> handles c e;
     assert_that (h_in_cache x);
     lru_unref e (c\<lparr>links_of := list_remove e (links_of c),
       handles := (handles c)(e \<mapsto> x\<lparr>h_in_cache := False\<rparr>), cur_size := size_dec (cur_size c)\<rparr>)}"

definition lru_release :: "addr \<Rightarrow> ('k, 'v) LRUCache \<Rightarrow> ('k, 'v) LRUCache option" where
  "lru_release handle c = (if handle \<noteq> NULL_PTR then lru_unref handle c else Some c)"

definition lru_get :: "'k \<Rightarrow> ('k, 'v) LRUCache \<Rightarrow> (addr \<times> ('k, 'v) LRUCache) option" where
  "lru_get key c = (case cache_map c key of
      Some e \<Rightarrow> do { c \<leftarrow> lru_ref e c; Some (e, c) }
    | None \<Rightarrow> Some (NULL_PTR, c))"

text \<open>The body of the loops of \<^verbatim>\<open>prune\<close> and \<^verbatim>\<open>put\<close>: drop the oldest unused entry.\<close>

definition evict_front :: "('k, 'v) LRUCache \<Rightarrow> ('k, 'v) LRUCache option" where
  "evict_front c = do {
     let e = next_of (links_of c) NOT_USE;
     x \<leftarrow> handles c e;
     assert_that (h_ref x = 1);
     erase_node e (c\<lparr>cache_map := (cache_map c)(h_key x := None)\<rparr>)}"

partial_function (option) prune :: "('k, 'v) LRUCache \<Rightarrow> ('k, 'v) LRUCache option" where
  "prune c = (if next_of (links_of c) NOT_USE \<noteq> NOT_USE
     then do { c \<leftarrow> evict_front c; prune c } else Some c)"

partial_function (option) put_evict :: "('k, 'v) LRUCache \<Rightarrow> ('k, 'v) LRUCache option" where
  "put_evict c = (if cur_size c > max_size c \<and> next_of (links_of c) NOT_USE \<noteq> NOT_USE
     then do { c \<leftarrow> evict_front c; put_evict c } else Some c)"

text \<open>The address \<open>e\<close> is what \<^verbatim>\<open>new Handle\<close> returns.\<close>

definition put_store :: "addr \<Rightarrow> 'k \<Rightarrow> 'v \<Rightarrow> ('k, 'v) LRUCache \<Rightarrow> ('k, 'v) LRUCache option" where
  "put_store e key value c =
     (let x = \<lparr>h_key = key, h_value = value, h_ref = 1, h_in_cache = False\<rparr>;
          c = c\<lparr>links_of := set_next e NULL_PTR (set_prev e NULL_PTR (links_of c))\<rparr> in
      if max_size c = 0 \<or> cur_size c < max_size c then
        let c = c\<lparr>cur_size := size_inc (cur_size c),
                  handles := (handles c)(e \<mapsto> x\<lparr>h_in_cache := True, h_ref := h_ref x + 1\<rparr>),
                  links_of := list_append IN_USE e (links_of c)\<rparr> in
        (case cache_map c key of
           Some old \<Rightarrow> do { c \<leftarrow> erase_node old c; Some (c\<lparr>cache_map := (cache_map c)(key \<mapsto> e)\<rparr>) }
         | None \<Rightarrow> Some (c\<lparr>cache_map := (cache_map c)(key \<mapsto> e)\<rparr>))
      else Some (c\<lparr>handles := (handles c)(e \<mapsto> x), links_of := set_next e NULL_PTR (links_of c)\<rparr>))"

definition lru_put :: "addr \<Rightarrow> 'k \<Rightarrow> 'v \<Rightarrow> ('k, 'v) LRUCache \<Rightarrow> (addr \<times> ('k, 'v) LRUCache) option" where
  "lru_put e key value c = do {
     c \<leftarrow> put_store e key value c;
     c \<leftarrow> (if max_size c > 0 then put_evict c else Some c);
     Some (e, c)}"

definition lru_del :: "'k \<Rightarrow> ('k, 'v) LRUCache \<Rightarrow> ('k, 'v) LRUCache option" where
  "lru_del key c = (case cache_map c key of
      Some node \<Rightarrow> erase_node node (c\<lparr>cache_map := (cache_map c)(key := None)\<rparr>)
    | None \<Rightarrow> Some c)"

partial_function (option) destroy_loop :: "addr \<Rightarrow> ('k, 'v) LRUCache \<Rightarrow> ('k, 'v) LRUCache option" where
  "destroy_loop e c = (if e \<noteq> NOT_USE then do {
       let nxt = next_of (links_of c) e;
       x \<leftarrow> handles c e;
       assert_that (h_in_cache x);
       let c = c\<lparr>handles := (handles c)(e \<mapsto> x\<lparr>h_in_cache := False\<rparr>)\<rparr>;
       assert_that (h_ref x = 1);
       c \<leftarrow> lru_unref e c;
       destroy_loop nxt c }
     else Some c)"

definition lru_destroy :: "('k, 'v) LRUCache \<Rightarrow> ('k, 'v) LRUCache option" where
  "lru_destroy c = do {
     assert_that (next_of (links_of c) IN_USE = IN_USE);
     destroy_loop (next_of (links_of c) NOT_USE) c}"

subsection \<open>The lists of the cache are intrusive lists\<close>

lemma list_remove_eq: "list_remove e h = list_del e h"
  if "next_of h e \<noteq> e"
  using that by (simp add: list_remove_def list_del_def list_del_between_def link_simps Let_def)

lemma list_append_eq: "list_append l e h = list_add_tail e l h"
  if "e \<noteq> l" and "prev_of h l \<noteq> e"
  using that
  by (simp add: list_append_def list_add_tail_def list_add_between_def set_next_def set_prev_def Let_def
      fun_upd_twist)

lemma dlist_next_neq: "dlist h l xs \<Longrightarrow> n \<in> set xs \<Longrightarrow> next_of h n \<noteq> n"
proof -
  assume d: "dlist h l xs" and "n \<in> set xs"
  then obtain us vs where xs: "xs = us @ n # vs" by (auto simp: in_set_conv_decomp)
  with d have "dseg h n vs l" "n \<notin> set vs" "n \<noteq> l" by (auto simp: dlist_def dseg_append)
  then show "next_of h n \<noteq> n" by (cases vs) auto
qed

lemma dlist_prev_neq: "dlist h l xs \<Longrightarrow> n \<notin> set (l # xs) \<Longrightarrow> prev_of h l \<noteq> n"
  using dlist_neighbours(2) [of h l xs l] by auto

interpretation cache_list: intrusive_list dlist "\<lambda>n l. list_append l n" list_remove
proof
  fix s l xs n m zs
  show "dlist s l xs \<Longrightarrow> distinct (l # xs)" by (simp add: dlist_def)
  show "dlist s l xs \<Longrightarrow> n \<notin> set (l # xs) \<Longrightarrow> dlist (list_append l n s) l (xs @ [n])"
    using dlist_add_tail [of s l xs n] dlist_prev_neq [of s l xs n] by (simp add: list_append_eq)
  show "dlist s l xs \<Longrightarrow> n \<in> set xs \<Longrightarrow> dlist (list_remove n s) l (remove1 n xs)"
    using dlist_del [of s l xs n] dlist_next_neq [of s l xs n] by (simp add: list_remove_eq)
  show "dlist s l xs \<Longrightarrow> n \<in> set xs \<Longrightarrow> dlist s m zs \<Longrightarrow> set (m # zs) \<inter> set (l # xs) = {}
      \<Longrightarrow> dlist (list_remove n s) m zs"
    using list_del_frame [of s l xs n m zs] dlist_next_neq [of s l xs n] by (simp add: list_remove_eq)
  show "dlist (list_append l n s) m zs"
    if "dlist s l xs" "dlist s m zs" "set (m # zs) \<inter> set (l # n # xs) = {}"
  proof (rule dlist_frame [OF that(2)])
    fix u assume "u \<in> set (m # zs)"
    moreover have "prev_of s l \<in> set (l # xs)" by (rule dlist_neighbours(2) [OF that(1)]) simp
    ultimately have "u \<noteq> n" "u \<noteq> l" "u \<noteq> prev_of s l" using that(3) by auto
    then show "next_of (list_append l n s) u = next_of s u \<and> prev_of (list_append l n s) u = prev_of s u"
      by (simp add: list_append_def link_simps Let_def)
  qed
qed

subsection \<open>The invariant\<close>

text \<open>
  \<open>held a\<close> is the number of references to handle \<open>a\<close> that clients got from \<^verbatim>\<open>get\<close> and
  \<^verbatim>\<open>put\<close> and did not release yet; \<open>nu\<close> and \<open>iu\<close> are the handles of the two lists, oldest
  first. Handles have 64-bit addresses other than the two heads and the null pointer.
\<close>

definition handle_ok :: "(addr \<Rightarrow> nat) \<Rightarrow> addr \<Rightarrow> ('k, 'v) LRUHandle \<Rightarrow> bool" where
  "handle_ok held a x \<longleftrightarrow> 3 \<le> a \<and> a < 2 ^ 64 \<and> h_ref x = int (held a) + of_bool (h_in_cache x) \<and> h_ref x > 0"

definition listed :: "('k, 'v) LRUCache \<Rightarrow> addr \<Rightarrow> bool" where
  "listed c a \<longleftrightarrow> (case handles c a of None \<Rightarrow> False | Some x \<Rightarrow> h_in_cache x)"

definition core_inv :: "('k, 'v) LRUCache \<Rightarrow> (addr \<Rightarrow> nat) \<Rightarrow> addr list \<Rightarrow> addr list \<Rightarrow> bool" where
  "core_inv c held nu iu \<longleftrightarrow>
     cache_list.pair (links_of c) NOT_USE nu IN_USE iu
     \<and> (\<forall>a x. handles c a = Some x \<longrightarrow> handle_ok held a x)
     \<and> (\<forall>a. handles c a = None \<longrightarrow> held a = 0)
     \<and> (\<forall>a. a \<in> set nu \<longleftrightarrow> listed c a \<and> held a = 0)
     \<and> (\<forall>a. a \<in> set iu \<longleftrightarrow> listed c a \<and> held a > 0)
     \<and> cur_size c = length nu + length iu"

definition map_inv :: "('k, 'v) LRUCache \<Rightarrow> bool" where
  "map_inv c \<longleftrightarrow> (\<forall>k a. cache_map c k = Some a \<longleftrightarrow>
     (\<exists>x. handles c a = Some x \<and> h_in_cache x \<and> h_key x = k))"

definition lru_inv :: "('k, 'v) LRUCache \<Rightarrow> (addr \<Rightarrow> nat) \<Rightarrow> addr list \<Rightarrow> addr list \<Rightarrow> bool" where
  "lru_inv c held nu iu \<longleftrightarrow> core_inv c held nu iu \<and> map_inv c"

lemma core_handle: "core_inv c held nu iu \<Longrightarrow> handles c a = Some x \<Longrightarrow> handle_ok held a x"
  by (simp add: core_inv_def)

lemma core_nu: "core_inv c held nu iu \<Longrightarrow> a \<in> set nu \<longleftrightarrow> listed c a \<and> held a = 0"
  by (simp add: core_inv_def)

lemma core_iu: "core_inv c held nu iu \<Longrightarrow> a \<in> set iu \<longleftrightarrow> listed c a \<and> held a > 0"
  by (simp add: core_inv_def)

lemma core_pair: "core_inv c held nu iu \<Longrightarrow> cache_list.pair (links_of c) NOT_USE nu IN_USE iu"
  by (simp add: core_inv_def)

lemma core_distinct: "core_inv c held nu iu \<Longrightarrow> distinct (NOT_USE # IN_USE # nu @ iu)"
  by (blast intro: cache_list.pair_distinct core_pair)

lemma core_addr: "core_inv c held nu iu \<Longrightarrow> a \<in> set (nu @ iu) \<Longrightarrow> 3 \<le> a \<and> a < 2 ^ 64"
  using core_nu [of c held nu iu a] core_iu [of c held nu iu a] core_handle [of c held nu iu a]
  by (auto simp: listed_def handle_ok_def split: option.splits)

lemma core_held_live: "core_inv c held nu iu \<Longrightarrow> held a > 0 \<Longrightarrow> \<exists>x. handles c a = Some x"
  by (cases "handles c a") (auto simp: core_inv_def)

text \<open>All listed handles have different 64-bit addresses, so the size cannot wrap.\<close>

lemma core_room:
  assumes "core_inv c held nu iu" and "3 \<le> e" and "e < 2 ^ 64" and "e \<notin> set (nu @ iu)"
  shows "cur_size c + 1 < 2 ^ 64"
proof -
  have "distinct (e # nu @ iu)" using core_distinct [OF assms(1)] assms(4) by auto
  then have "card (set (e # nu @ iu)) = length (e # nu @ iu)" by (rule distinct_card)
  moreover have "set (e # nu @ iu) \<subseteq> {3 ..< 2 ^ 64}" using core_addr [OF assms(1)] assms(2,3) by auto
  then have "card (set (e # nu @ iu)) \<le> card {3 ..< (2 ^ 64 :: nat)}" by (intro card_mono) auto
  ultimately show ?thesis using assms(1) by (simp add: core_inv_def)
qed

lemma size_dec_pos: "0 < n \<Longrightarrow> n < 2 ^ 64 \<Longrightarrow> size_dec n = n - 1"
proof -
  assume n: "0 < n" "n < 2 ^ 64"
  then have "n + (2 ^ 64 - 1) = (n - 1) + 2 ^ 64" by simp
  then show ?thesis using n unfolding size_dec_def by (simp only: mod_add_self2) simp
qed

lemma size_inc_room: "n + 1 < 2 ^ 64 \<Longrightarrow> size_inc n = n + 1"
  by (simp add: size_inc_def)

lemma core_size_bound: "core_inv c held nu iu \<Longrightarrow> cur_size c < 2 ^ 64"
proof -
  assume c: "core_inv c held nu iu"
  have "distinct (nu @ iu)" using core_distinct [OF c] by auto
  then have "card (set (nu @ iu)) = length (nu @ iu)" by (rule distinct_card)
  moreover have "set (nu @ iu) \<subseteq> {3 ..< 2 ^ 64}" using core_addr [OF c] by auto
  then have "card (set (nu @ iu)) \<le> card {3 ..< (2 ^ 64 :: nat)}" by (intro card_mono) auto
  ultimately show ?thesis using c by (simp add: core_inv_def)
qed

lemma core_cong:
  assumes "core_inv c held nu iu" and "links_of d = links_of c" "handles d = handles c" "cur_size d = cur_size c"
  shows "core_inv d held nu iu"
  using assms by (simp add: core_inv_def listed_def)

subsection \<open>Taking and dropping references\<close>

lemma lru_ref_inv:
  assumes c: "core_inv c held nu iu" and x: "handles c e = Some x"
  defines "nu' \<equiv> if e \<in> set nu then remove1 e nu else nu"
    and "iu' \<equiv> if e \<in> set nu then iu @ [e] else iu"
  obtains c' where "lru_ref e c = Some c'" "core_inv c' (held(e := held e + 1)) nu' iu'"
    "handles c' = (handles c)(e \<mapsto> x\<lparr>h_ref := h_ref x + 1\<rparr>)" "cache_map c' = cache_map c"
    "max_size c' = max_size c" "cur_size c' = cur_size c" "deleted c' = deleted c"
proof -
  have hx: "handle_ok held e x" by (rule core_handle [OF c x])
  have enu: "e \<in> set nu \<longleftrightarrow> h_in_cache x \<and> h_ref x = 1"
    using core_nu [OF c, of e] hx x by (auto simp: listed_def handle_ok_def)
  have d: "distinct nu" "distinct iu" using core_distinct [OF c] by auto
  define l' where "l' = (if e \<in> set nu then list_append IN_USE e (list_remove e (links_of c)) else links_of c)"
  define c' where "c' = c\<lparr>links_of := l', handles := (handles c)(e \<mapsto> x\<lparr>h_ref := h_ref x + 1\<rparr>)\<rparr>"
  have run: "lru_ref e c = Some c'"
    by (simp add: lru_ref_def x enu c'_def l'_def Let_def)
  have "cache_list.pair l' NOT_USE nu' IN_USE iu'"
    using core_pair [OF c] cache_list.move_pair [OF core_pair [OF c], of e]
    by (simp add: l'_def nu'_def iu'_def)
  moreover have "length nu' + length iu' = length nu + length iu"
    using length_remove1_mem [of e nu] by (simp add: nu'_def iu'_def)
  moreover have "listed c' a = listed c a" for a by (simp add: listed_def c'_def x)
  moreover have "a \<in> set nu' \<longleftrightarrow> a \<in> set nu \<and> a \<noteq> e" "a \<in> set iu' \<longleftrightarrow> a \<in> set iu \<or> (a = e \<and> e \<in> set nu)" for a
    using d by (auto simp: nu'_def iu'_def)
  moreover have "listed c e \<longleftrightarrow> h_in_cache x" by (simp add: listed_def x)
  moreover have "handles c' a = Some y \<Longrightarrow> handle_ok (held(e := held e + 1)) a y" for a y
    using core_handle [OF c, of a y] hx by (auto simp: c'_def handle_ok_def split: if_splits)
  ultimately have "core_inv c' (held(e := held e + 1)) nu' iu'"
    using c unfolding core_inv_def by (auto simp: c'_def)
  then show ?thesis using that run by (simp add: c'_def)
qed

lemma lru_unref_inv:
  assumes c: "core_inv c held nu iu" and x: "handles c e = Some x" and h: "held e > 0"
  defines "idle \<equiv> h_in_cache x \<and> held e = 1" and "dead \<equiv> \<not> h_in_cache x \<and> held e = 1"
  obtains c' where "lru_unref e c = Some c'"
    "core_inv c' (held(e := held e - 1)) (if idle then nu @ [e] else nu) (if idle then remove1 e iu else iu)"
    "handles c' = (handles c)(e := (if dead then None else Some (x\<lparr>h_ref := h_ref x - 1\<rparr>)))"
    "cache_map c' = cache_map c" "max_size c' = max_size c" "cur_size c' = cur_size c"
    "deleted c' = (if dead then deleted c @ [h_value x] else deleted c)"
proof -
  have hx: "handle_ok held e x" by (rule core_handle [OF c x])
  have ref: "h_ref x = int (held e) + of_bool (h_in_cache x)" using hx by (simp add: handle_ok_def)
  have eiu: "e \<in> set iu \<longleftrightarrow> h_in_cache x" "e \<notin> set nu"
    using core_iu [OF c, of e] core_nu [OF c, of e] h x by (auto simp: listed_def)
  have d: "distinct nu" "distinct iu" using core_distinct [OF c] by auto
  define l' where "l' = (if idle then list_append NOT_USE e (list_remove e (links_of c)) else links_of c)"
  define c' where "c' = c\<lparr>links_of := l',
     handles := (handles c)(e := (if dead then None else Some (x\<lparr>h_ref := h_ref x - 1\<rparr>))),
     deleted := (if dead then deleted c @ [h_value x] else deleted c)\<rparr>"
  let ?nu = "if idle then nu @ [e] else nu" and ?iu = "if idle then remove1 e iu else iu"
  have run: "lru_unref e c = Some c'"
    using h by (auto simp: lru_unref_def x ref c'_def l'_def Let_def idle_def dead_def)
  have "cache_list.pair l' NOT_USE ?nu IN_USE ?iu"
    using core_pair [OF c] cache_list.move_pair [OF cache_list.pair_sym [OF core_pair [OF c]], of e]
    by (auto simp: l'_def idle_def eiu intro: cache_list.pair_sym)
  moreover have "length ?nu + length ?iu = length nu + length iu"
    using length_remove1_mem [of e iu] by (simp add: idle_def eiu)
  moreover have "listed c' a = listed c a" for a by (simp add: listed_def c'_def x dead_def)
  moreover have "a \<in> set ?nu \<longleftrightarrow> a \<in> set nu \<or> (a = e \<and> idle)" "a \<in> set ?iu \<longleftrightarrow> a \<in> set iu \<and> \<not> (a = e \<and> idle)" for a
    using d by auto
  moreover have "listed c e \<longleftrightarrow> h_in_cache x" by (simp add: listed_def x)
  moreover have "handles c' a = Some y \<Longrightarrow> handle_ok (held(e := held e - 1)) a y" for a y
    using core_handle [OF c, of a y] hx h
    by (auto simp: c'_def handle_ok_def dead_def split: if_splits)
  moreover have "handles c' a = None \<Longrightarrow> (held(e := held e - 1)) a = 0" for a
    using c by (auto simp: c'_def dead_def core_inv_def split: if_splits)
  ultimately have "core_inv c' (held(e := held e - 1)) ?nu ?iu"
    using c eiu h unfolding core_inv_def by (auto simp: c'_def idle_def)
  then show ?thesis using that run by (simp add: c'_def)
qed

lemma erase_node_inv:
  assumes c: "core_inv c held nu iu" and x: "handles c e = Some x" and inc: "h_in_cache x"
  obtains c' where "erase_node e c = Some c'"
    "core_inv c' held (if held e = 0 then remove1 e nu else nu) (if held e = 0 then iu else remove1 e iu)"
    "handles c' = (handles c)(e := (if held e = 0 then None else Some (x\<lparr>h_in_cache := False, h_ref := h_ref x - 1\<rparr>)))"
    "cache_map c' = cache_map c" "max_size c' = max_size c" "cur_size c' = cur_size c - 1" "cur_size c > 0"
    "deleted c' = (if held e = 0 then deleted c @ [h_value x] else deleted c)"
proof -
  have hx: "handle_ok held e x" by (rule core_handle [OF c x])
  have ref: "h_ref x = int (held e) + 1" using hx inc by (simp add: handle_ok_def)
  have mem: "e \<in> set nu \<longleftrightarrow> held e = 0" "e \<in> set iu \<longleftrightarrow> held e > 0"
    using core_iu [OF c, of e] core_nu [OF c, of e] x inc by (auto simp: listed_def)
  have d: "distinct nu" "distinct iu" using core_distinct [OF c] by auto
  have pos: "0 < cur_size c"
    using c mem length_pos_if_in_set [of e nu] length_pos_if_in_set [of e iu] by (auto simp: core_inv_def)
  have sz: "size_dec (cur_size c) = cur_size c - 1"
    using pos core_size_bound [OF c] by (rule size_dec_pos)
  define c' where "c' = c\<lparr>links_of := list_remove e (links_of c), cur_size := cur_size c - 1,
     handles := (handles c)(e := (if held e = 0 then None else Some (x\<lparr>h_in_cache := False, h_ref := h_ref x - 1\<rparr>))),
     deleted := (if held e = 0 then deleted c @ [h_value x] else deleted c)\<rparr>"
  let ?nu = "if held e = 0 then remove1 e nu else nu" and ?iu = "if held e = 0 then iu else remove1 e iu"
  have run: "erase_node e c = Some c'"
    using inc by (auto simp: erase_node_def lru_unref_def x ref c'_def Let_def sz)
  have "cache_list.pair (links_of c') NOT_USE ?nu IN_USE ?iu"
    using cache_list.del_pair [OF core_pair [OF c], of e] mem
      cache_list.pair_sym [OF cache_list.del_pair [OF cache_list.pair_sym [OF core_pair [OF c]], of e]]
    by (auto simp: c'_def)
  moreover have "cur_size c' = length ?nu + length ?iu"
    using c mem length_remove1_mem [of e nu] length_remove1_mem [of e iu]
    by (auto simp: core_inv_def c'_def)
  moreover have "listed c' a \<longleftrightarrow> listed c a \<and> a \<noteq> e" for a by (simp add: listed_def c'_def x)
  moreover have "a \<in> set ?nu \<longleftrightarrow> a \<in> set nu \<and> a \<noteq> e" "a \<in> set ?iu \<longleftrightarrow> a \<in> set iu \<and> a \<noteq> e" for a
    using d mem by auto
  moreover have "handles c' a = Some y \<Longrightarrow> handle_ok held a y" for a y
    using core_handle [OF c, of a y] hx inc
    by (auto simp: c'_def handle_ok_def split: if_splits)
  moreover have "handles c' a = None \<Longrightarrow> held a = 0" for a
    using c by (auto simp: c'_def core_inv_def split: if_splits)
  ultimately have "core_inv c' held ?nu ?iu"
    using c unfolding core_inv_def by blast
  then show ?thesis using that run pos by (simp add: c'_def)
qed

subsection \<open>The public operations\<close>

lemma map_inv_erase:
  assumes "map_inv c" and "handles c e = Some x" and "h_in_cache x"
    and "handles d = (handles c)(e := y)" and "\<And>z. y = Some z \<Longrightarrow> \<not> h_in_cache z"
    and "cache_map d = (cache_map c)(h_key x := None)"
  shows "map_inv d"
proof -
  have m: "cache_map c k = Some a \<longleftrightarrow> (\<exists>x. handles c a = Some x \<and> h_in_cache x \<and> h_key x = k)" for k a
    using assms(1) by (simp add: map_inv_def)
  have k: "cache_map c (h_key x) = Some e" using assms(2,3) m by blast
  have inj: "cache_map c k = Some e \<Longrightarrow> k = h_key x" for k using m [of k e] assms(2) by auto
  have "cache_map d k = Some a \<longleftrightarrow> (\<exists>x. handles d a = Some x \<and> h_in_cache x \<and> h_key x = k)" for k a
  proof (cases "a = e")
    case True
    then show ?thesis using assms(4-6) inj [of k] by auto
  next
    case False
    then show ?thesis using assms(4,6) m [of k a] k by auto
  qed
  then show ?thesis by (simp add: map_inv_def)
qed

lemma map_inv_cong:
  assumes "map_inv c" and "cache_map d = cache_map c"
    and "handles c e = Some x" and "handles d = (handles c)(e := y)"
    and "\<not> h_in_cache x \<and> y = None \<or> (\<exists>z. y = Some z \<and> h_in_cache z = h_in_cache x \<and> h_key z = h_key x)"
  shows "map_inv d"
proof -
  have "(\<exists>z. handles d a = Some z \<and> h_in_cache z \<and> h_key z = k)
      \<longleftrightarrow> (\<exists>z. handles c a = Some z \<and> h_in_cache z \<and> h_key z = k)" for a k
    using assms(3-5) by auto
  then show ?thesis using assms(1,2) by (simp add: map_inv_def)
qed

lemma lru_get_inv:
  assumes c: "lru_inv c held nu iu" and k: "cache_map c key = Some e"
  obtains c' x where "lru_get key c = Some (e, c')" "handles c e = Some x" "h_key x = key"
    "lru_inv c' (held(e := held e + 1)) (if e \<in> set nu then remove1 e nu else nu) (if e \<in> set nu then iu @ [e] else iu)"
    "handles c' = (handles c)(e \<mapsto> x\<lparr>h_ref := h_ref x + 1\<rparr>)" "cache_map c' = cache_map c"
    "max_size c' = max_size c" "cur_size c' = cur_size c" "deleted c' = deleted c"
proof -
  have core: "core_inv c held nu iu" and m: "map_inv c" using c by (simp_all add: lru_inv_def)
  obtain x where x: "handles c e = Some x" "h_key x = key" using m k by (auto simp: map_inv_def)
  obtain c' where c': "lru_ref e c = Some c'"
    "core_inv c' (held(e := held e + 1)) (if e \<in> set nu then remove1 e nu else nu) (if e \<in> set nu then iu @ [e] else iu)"
    "handles c' = (handles c)(e \<mapsto> x\<lparr>h_ref := h_ref x + 1\<rparr>)" "cache_map c' = cache_map c"
    "max_size c' = max_size c" "cur_size c' = cur_size c" "deleted c' = deleted c"
    using lru_ref_inv [OF core x(1)] .
  have "map_inv c'" by (rule map_inv_cong [OF m c'(4) x(1) c'(3)]) simp
  then show ?thesis using that [of c' x] c' x k by (simp add: lru_get_def lru_inv_def)
qed

lemma lru_release_inv:
  assumes c: "lru_inv c held nu iu" and h: "held e > 0"
  obtains c' x where "lru_release e c = Some c'" "handles c e = Some x"
    "lru_inv c' (held(e := held e - 1)) (if h_in_cache x \<and> held e = 1 then nu @ [e] else nu)
       (if h_in_cache x \<and> held e = 1 then remove1 e iu else iu)"
    "handles c' = (handles c)(e := (if \<not> h_in_cache x \<and> held e = 1 then None else Some (x\<lparr>h_ref := h_ref x - 1\<rparr>)))"
    "cache_map c' = cache_map c" "max_size c' = max_size c" "cur_size c' = cur_size c"
    "deleted c' = (if \<not> h_in_cache x \<and> held e = 1 then deleted c @ [h_value x] else deleted c)"
proof -
  have core: "core_inv c held nu iu" and m: "map_inv c" using c by (simp_all add: lru_inv_def)
  obtain x where x: "handles c e = Some x" using core_held_live [OF core h] by auto
  obtain c' where c': "lru_unref e c = Some c'"
    "core_inv c' (held(e := held e - 1)) (if h_in_cache x \<and> held e = 1 then nu @ [e] else nu)
       (if h_in_cache x \<and> held e = 1 then remove1 e iu else iu)"
    "handles c' = (handles c)(e := (if \<not> h_in_cache x \<and> held e = 1 then None else Some (x\<lparr>h_ref := h_ref x - 1\<rparr>)))"
    "cache_map c' = cache_map c" "max_size c' = max_size c" "cur_size c' = cur_size c"
    "deleted c' = (if \<not> h_in_cache x \<and> held e = 1 then deleted c @ [h_value x] else deleted c)"
    using lru_unref_inv [OF core x h] .
  have "map_inv c'" by (rule map_inv_cong [OF m c'(4) x c'(3)]) auto
  moreover have "e \<noteq> NULL_PTR" using core_handle [OF core x] by (simp add: handle_ok_def)
  ultimately show ?thesis using that [of c' x] c' x by (simp add: lru_release_def lru_inv_def)
qed

lemma lru_del_inv:
  assumes c: "lru_inv c held nu iu" and k: "cache_map c key = Some e"
  obtains c' x where "lru_del key c = Some c'" "handles c e = Some x" "h_in_cache x"
    "lru_inv c' held (if held e = 0 then remove1 e nu else nu) (if held e = 0 then iu else remove1 e iu)"
    "handles c' = (handles c)(e := (if held e = 0 then None else Some (x\<lparr>h_in_cache := False, h_ref := h_ref x - 1\<rparr>)))"
    "cache_map c' = (cache_map c)(key := None)" "max_size c' = max_size c"
    "cur_size c' = cur_size c - 1" "cur_size c > 0"
    "deleted c' = (if held e = 0 then deleted c @ [h_value x] else deleted c)"
proof -
  have core: "core_inv c held nu iu" and m: "map_inv c" using c by (simp_all add: lru_inv_def)
  obtain x where x: "handles c e = Some x" "h_in_cache x" "h_key x = key" using m k by (auto simp: map_inv_def)
  let ?d = "c\<lparr>cache_map := (cache_map c)(key := None)\<rparr>"
  have d: "core_inv ?d held nu iu" by (rule core_cong [OF core]) simp_all
  have xd: "handles ?d e = Some x" using x by simp
  from erase_node_inv [OF d xd x(2)]
  obtain c' where "erase_node e ?d = Some c'"
    "core_inv c' held (if held e = 0 then remove1 e nu else nu) (if held e = 0 then iu else remove1 e iu)"
    "handles c' = (handles ?d)(e := (if held e = 0 then None else Some (x\<lparr>h_in_cache := False, h_ref := h_ref x - 1\<rparr>)))"
    "cache_map c' = cache_map ?d" "max_size c' = max_size ?d" "cur_size c' = cur_size ?d - 1" "cur_size ?d > 0"
    "deleted c' = (if held e = 0 then deleted ?d @ [h_value x] else deleted ?d)" .
  then have c': "erase_node e ?d = Some c'"
    "core_inv c' held (if held e = 0 then remove1 e nu else nu) (if held e = 0 then iu else remove1 e iu)"
    "handles c' = (handles c)(e := (if held e = 0 then None else Some (x\<lparr>h_in_cache := False, h_ref := h_ref x - 1\<rparr>)))"
    "cache_map c' = (cache_map c)(key := None)" "max_size c' = max_size c" "cur_size c' = cur_size c - 1" "cur_size c > 0"
    "deleted c' = (if held e = 0 then deleted c @ [h_value x] else deleted c)"
    by simp_all
  have "map_inv c'" by (rule map_inv_erase [OF m x(1,2) c'(3)]) (auto simp: c' x split: if_splits)
  then show ?thesis using that [of c' x] c' x k by (simp add: lru_del_def lru_inv_def)
qed

subsection \<open>Eviction\<close>

text \<open>\<open>evicted c es c'\<close>: the idle handles \<open>es\<close> left the cache and were freed in this order.\<close>

definition evicted :: "('k, 'v) LRUCache \<Rightarrow> addr list \<Rightarrow> ('k, 'v) LRUCache \<Rightarrow> bool" where
  "evicted c es c' \<longleftrightarrow>
     handles c' = handles c |` (- set es)
     \<and> (\<forall>k. cache_map c' k = (case cache_map c k of Some a \<Rightarrow> (if a \<in> set es then None else Some a) | None \<Rightarrow> None))
     \<and> max_size c' = max_size c \<and> cur_size c = cur_size c' + length es
     \<and> deleted c' = deleted c @ map (\<lambda>a. h_value (the (handles c a))) es"

lemma evicted_nil: "evicted c [] c"
  by (auto simp: evicted_def split: option.splits)

lemma evict_front_inv:
  assumes c: "lru_inv c held (e # nu) iu"
  obtains c' where "evict_front c = Some c'" "lru_inv c' held nu iu" "evicted c [e] c'"
proof -
  have core: "core_inv c held (e # nu) iu" and m: "map_inv c" using c by (simp_all add: lru_inv_def)
  have nx: "next_of (links_of c) NOT_USE = e"
    using core_pair [OF core] by (simp add: cache_list.pair_def dlist_def)
  obtain x where x: "handles c e = Some x" "h_in_cache x" and h0: "held e = 0"
    using core_nu [OF core, of e] by (auto simp: listed_def split: option.splits)
  have r1: "h_ref x = 1" using core_handle [OF core x(1)] x(2) h0 by (simp add: handle_ok_def)
  have k: "cache_map c (h_key x) = Some e"
    using m [unfolded map_inv_def, rule_format, of "h_key x" e] x by simp
  from lru_del_inv [OF c k] obtain c' y where "lru_del (h_key x) c = Some c'" "handles c e = Some y"
    "h_in_cache y" "lru_inv c' held (if held e = 0 then remove1 e (e # nu) else e # nu) (if held e = 0 then iu else remove1 e iu)"
    "handles c' = (handles c)(e := (if held e = 0 then None else Some (y\<lparr>h_in_cache := False, h_ref := h_ref y - 1\<rparr>)))"
    "cache_map c' = (cache_map c)(h_key x := None)" "max_size c' = max_size c"
    "cur_size c' = cur_size c - 1" "cur_size c > 0"
    "deleted c' = (if held e = 0 then deleted c @ [h_value y] else deleted c)" .
  then have c': "lru_del (h_key x) c = Some c'" "lru_inv c' held nu iu"
    "handles c' = (handles c)(e := None)" "cache_map c' = (cache_map c)(h_key x := None)"
    "max_size c' = max_size c" "cur_size c' = cur_size c - 1" "cur_size c > 0" "deleted c' = deleted c @ [h_value x]"
    using h0 x by simp_all
  have run: "evict_front c = Some c'"
    using c'(1) k by (simp add: evict_front_def nx x(1) r1 lru_del_def Let_def)
  have inj: "cache_map c q = Some e \<Longrightarrow> q = h_key x" for q
    using m [unfolded map_inv_def, rule_format, of q e] x(1) by simp
  have "cache_map c' q = (case cache_map c q of Some a \<Rightarrow> (if a \<in> set [e] then None else Some a) | None \<Rightarrow> None)" for q
  proof (cases "q = h_key x")
    case True
    then show ?thesis using c'(4) k by simp
  next
    case False
    then have "cache_map c q \<noteq> Some e" using inj by blast
    then show ?thesis using c'(4) False by (cases "cache_map c q") simp_all
  qed
  then have "evicted c [e] c'"
    using c'(3,5-8) x(1) by (simp add: evicted_def restrict_complement_singleton_eq)
  then show ?thesis using that run c' by blast
qed

lemma evicted_cons:
  assumes "evicted c [e] d" and "evicted d es c'" and "e \<notin> set es"
  shows "evicted c (e # es) c'"
proof -
  have "handles c' = handles c |` (- set (e # es))"
    using assms by (auto simp: evicted_def restrict_map_def fun_eq_iff)
  moreover have "map (\<lambda>a. h_value (the (handles d a))) es = map (\<lambda>a. h_value (the (handles c a))) es"
    using assms by (auto simp: evicted_def restrict_map_def)
  moreover have "cache_map c' k = (case cache_map c k of Some a \<Rightarrow> (if a \<in> set (e # es) then None else Some a) | None \<Rightarrow> None)" for k
    using assms by (auto simp: evicted_def split: option.splits)
  ultimately show ?thesis using assms(1,2) by (auto simp: evicted_def)
qed

lemma not_use_empty:
  assumes "lru_inv c held nu iu"
  shows "next_of (links_of c) NOT_USE = NOT_USE \<longleftrightarrow> nu = []" "next_of (links_of c) IN_USE = IN_USE \<longleftrightarrow> iu = []"
proof -
  have "dlist (links_of c) NOT_USE nu" "dlist (links_of c) IN_USE iu"
    using assms by (simp_all add: lru_inv_def core_inv_def cache_list.pair_def)
  from this [THEN dlist_empty_iff]
  show "next_of (links_of c) NOT_USE = NOT_USE \<longleftrightarrow> nu = []" "next_of (links_of c) IN_USE = IN_USE \<longleftrightarrow> iu = []"
    by (simp_all add: list_empty_def)
qed

lemma lru_inv_distinct: "lru_inv c held nu iu \<Longrightarrow> distinct nu"
  using core_distinct by (auto simp: lru_inv_def)

lemma prune_inv:
  "lru_inv c held nu iu \<Longrightarrow> \<exists>c'. prune c = Some c' \<and> lru_inv c' held [] iu \<and> evicted c nu c'"
proof (induction nu arbitrary: c)
  case Nil
  then have "prune c = Some c" by (subst prune.simps) (simp add: not_use_empty)
  then show ?case using Nil evicted_nil by auto
next
  case (Cons e nu)
  obtain d where d: "evict_front c = Some d" "lru_inv d held nu iu" "evicted c [e] d"
    using evict_front_inv [OF Cons.prems] .
  from Cons.IH [OF d(2)] obtain c' where c': "prune d = Some c'" "lru_inv c' held [] iu" "evicted d nu c'" by auto
  have "prune c = Some c'"
    by (subst prune.simps) (simp add: not_use_empty [OF Cons.prems] d(1) c'(1))
  moreover have "evicted c (e # nu) c'"
    using evicted_cons d(3) c'(3) lru_inv_distinct [OF Cons.prems] by auto
  ultimately show ?case using c' by blast
qed

lemma put_evict_inv:
  "lru_inv c held nu iu \<Longrightarrow>
   \<exists>c'. put_evict c = Some c' \<and> lru_inv c' held (drop (cur_size c - max_size c) nu) iu
      \<and> evicted c (take (cur_size c - max_size c) nu) c'"
proof (induction nu arbitrary: c)
  case Nil
  then have "put_evict c = Some c" by (subst put_evict.simps) (simp add: not_use_empty)
  then show ?case using Nil evicted_nil by auto
next
  case (Cons e nu)
  show ?case
  proof (cases "cur_size c > max_size c")
    case False
    then have "put_evict c = Some c" by (subst put_evict.simps) simp
    then show ?thesis using False Cons.prems evicted_nil by auto
  next
    case True
    obtain d where d: "evict_front c = Some d" "lru_inv d held nu iu" "evicted c [e] d"
      using evict_front_inv [OF Cons.prems] .
    have n: "cur_size c - max_size c = Suc (cur_size d - max_size d)"
      using d(3) True by (auto simp: evicted_def)
    from Cons.IH [OF d(2)] obtain c' where c': "put_evict d = Some c'"
      "lru_inv c' held (drop (cur_size d - max_size d) nu) iu" "evicted d (take (cur_size d - max_size d) nu) c'" by auto
    have "put_evict c = Some c'"
      by (subst put_evict.simps) (simp add: not_use_empty [OF Cons.prems] True d(1) c'(1))
    moreover have "e \<notin> set (take (cur_size d - max_size d) nu)"
      using lru_inv_distinct [OF Cons.prems] by (auto dest: in_set_takeD)
    ultimately show ?thesis
      using c' evicted_cons [OF d(3) c'(3)] by (simp add: n)
  qed
qed

subsection \<open>Insertion\<close>

definition fresh_addr :: "('k, 'v) LRUCache \<Rightarrow> addr \<Rightarrow> bool" where
  "fresh_addr c e \<longleftrightarrow> handles c e = None \<and> 3 \<le> e \<and> e < 2 ^ 64"

lemma fresh_unlisted: "core_inv c held nu iu \<Longrightarrow> fresh_addr c e \<Longrightarrow> e \<notin> set (NOT_USE # IN_USE # nu @ iu) \<and> held e = 0"
  by (auto simp: core_inv_def fresh_addr_def listed_def)

lemma pair_unlinked:
  assumes "cache_list.pair h l xs m zs" and "e \<notin> set (l # m # xs @ zs)"
  shows "cache_list.pair (set_next e p (set_prev e q h)) l xs m zs"
proof -
  have "dlist (set_next e p (set_prev e q h)) l xs"
    by (rule dlist_frame [of h]) (use assms in \<open>auto simp: cache_list.pair_def link_simps\<close>)
  moreover have "dlist (set_next e p (set_prev e q h)) m zs"
    by (rule dlist_frame [of h]) (use assms in \<open>auto simp: cache_list.pair_def link_simps\<close>)
  ultimately show ?thesis using assms(1) by (simp add: cache_list.pair_def)
qed

lemma map_inv_insert:
  assumes "map_inv c" and "handles c e = None" and "cache_map c (h_key x) = None" and "h_in_cache x"
    and "handles d = (handles c)(e \<mapsto> x)" and "cache_map d = (cache_map c)(h_key x \<mapsto> e)"
  shows "map_inv d"
proof -
  have m: "cache_map c k = Some a \<longleftrightarrow> (\<exists>x. handles c a = Some x \<and> h_in_cache x \<and> h_key x = k)" for k a
    using assms(1) by (simp add: map_inv_def)
  have "cache_map d k = Some a \<longleftrightarrow> (\<exists>x. handles d a = Some x \<and> h_in_cache x \<and> h_key x = k)" for k a
  proof (cases "a = e")
    case True
    then show ?thesis using assms(2,4-6) m [of k e] by auto
  next
    case False
    then show ?thesis using assms(3,5,6) m [of k a] by (cases "k = h_key x") simp_all
  qed
  then show ?thesis by (simp add: map_inv_def)
qed

lemma core_insert:
  assumes c: "core_inv c held nu iu" and f: "fresh_addr c e"
    and d: "handles d = (handles c)(e \<mapsto> x)" "handle_ok (held(e := 1)) e x"
      "links_of d = (if h_in_cache x then list_append IN_USE e (set_next e p (set_prev e q (links_of c)))
         else set_next e p (set_prev e q (links_of c)))"
      "cur_size d = (if h_in_cache x then size_inc (cur_size c) else cur_size c)"
  shows "core_inv d (held(e := 1)) nu (if h_in_cache x then iu @ [e] else iu)"
proof -
  have e: "e \<notin> set (NOT_USE # IN_USE # nu @ iu)" "held e = 0"
    using fresh_unlisted [OF c f] by auto
  let ?h = "set_next e p (set_prev e q (links_of c))"
  have p: "cache_list.pair ?h NOT_USE nu IN_USE iu" by (rule pair_unlinked [OF core_pair [OF c] e(1)])
  have "cache_list.pair (list_append IN_USE e ?h) IN_USE (iu @ [e]) NOT_USE nu"
    by (rule cache_list.app_pair [OF cache_list.pair_sym [OF p]]) (use e(1) in auto)
  then have "cache_list.pair (links_of d) NOT_USE nu IN_USE (if h_in_cache x then iu @ [e] else iu)"
    using p by (simp add: d(3) cache_list.pair_sym)
  moreover have "cur_size d = length nu + length (if h_in_cache x then iu @ [e] else iu)"
    using c core_room [OF c, of e] f e(1) by (simp add: d(4) core_inv_def fresh_addr_def size_inc_room)
  moreover have "listed d a \<longleftrightarrow> listed c a \<or> (a = e \<and> h_in_cache x)" for a
    using f by (auto simp: listed_def d(1) fresh_addr_def)
  moreover have "a \<noteq> e" if "listed c a" for a
    using that f by (auto simp: listed_def fresh_addr_def split: option.splits)
  moreover have "handles d a = Some y \<Longrightarrow> handle_ok (held(e := 1)) a y" for a y
    using core_handle [OF c, of a y] d(2) by (auto simp: d(1) handle_ok_def split: if_splits)
  moreover have "handles d a = None \<Longrightarrow> (held(e := 1)) a = 0" for a
    using c by (auto simp: d(1) core_inv_def split: if_splits)
  ultimately show ?thesis
    using c e(2) unfolding core_inv_def by auto
qed

lemma put_store_full:
  assumes c: "lru_inv c held nu iu" and f: "fresh_addr c e" and full: "max_size c \<noteq> 0" "max_size c \<le> cur_size c"
  obtains c' where "put_store e key value c = Some c'" "lru_inv c' (held(e := 1)) nu iu"
    "handles c' = (handles c)(e \<mapsto> \<lparr>h_key = key, h_value = value, h_ref = 1, h_in_cache = False\<rparr>)"
    "cache_map c' = cache_map c" "max_size c' = max_size c" "cur_size c' = cur_size c" "deleted c' = deleted c"
proof -
  have core: "core_inv c held nu iu" and m: "map_inv c" using c by (simp_all add: lru_inv_def)
  let ?x = "\<lparr>h_key = key, h_value = value, h_ref = 1, h_in_cache = False\<rparr>"
  define c' where "c' = c\<lparr>handles := (handles c)(e \<mapsto> ?x),
    links_of := set_next e NULL_PTR (set_prev e NULL_PTR (links_of c))\<rparr>"
  have run: "put_store e key value c = Some c'"
    using full by (simp add: put_store_def c'_def set_next_def Let_def)
  have "core_inv c' (held(e := 1)) nu (if h_in_cache ?x then iu @ [e] else iu)"
    by (rule core_insert [OF core f]) (use f in \<open>simp_all add: c'_def handle_ok_def fresh_addr_def\<close>)
  moreover have "map_inv c'"
    using m f by (auto simp: map_inv_def c'_def fresh_addr_def)
  ultimately show ?thesis using that run by (simp add: c'_def lru_inv_def)
qed

lemma put_store_room:
  assumes c: "lru_inv c held nu iu" and f: "fresh_addr c e" and room: "max_size c = 0 \<or> cur_size c < max_size c"
  shows "\<exists>c' nu' iu'. put_store e key value c = Some c' \<and> lru_inv c' (held(e := 1)) nu' iu'
    \<and> cache_map c' = (cache_map c)(key \<mapsto> e) \<and> max_size c' = max_size c
    \<and> cur_size c' = (if cache_map c key = None then cur_size c + 1 else cur_size c)
    \<and> (let x = \<lparr>h_key = key, h_value = value, h_ref = 2, h_in_cache = True\<rparr> in
       case cache_map c key of
         None \<Rightarrow> handles c' = (handles c)(e \<mapsto> x) \<and> deleted c' = deleted c
       | Some old \<Rightarrow> \<exists>y. handles c old = Some y \<and> old \<noteq> e \<and>
           handles c' = (handles c)(e \<mapsto> x, old := (if held old = 0 then None else Some (y\<lparr>h_in_cache := False, h_ref := h_ref y - 1\<rparr>)))
           \<and> deleted c' = (if held old = 0 then deleted c @ [h_value y] else deleted c))"
proof -
  have core: "core_inv c held nu iu" and m: "map_inv c" using c by (simp_all add: lru_inv_def)
  let ?x = "\<lparr>h_key = key, h_value = value, h_ref = 2, h_in_cache = True\<rparr>"
  define d where "d = c\<lparr>cur_size := size_inc (cur_size c), handles := (handles c)(e \<mapsto> ?x),
    links_of := list_append IN_USE e (set_next e NULL_PTR (set_prev e NULL_PTR (links_of c)))\<rparr>"
  have "core_inv d (held(e := 1)) nu (if h_in_cache ?x then iu @ [e] else iu)"
    by (rule core_insert [OF core f]) (use f in \<open>simp_all add: d_def handle_ok_def fresh_addr_def\<close>)
  then have cd: "core_inv d (held(e := 1)) nu (iu @ [e])" by simp
  have sz: "cur_size d = cur_size c + 1" using cd core by (simp add: core_inv_def)
  show ?thesis
  proof (cases "cache_map c key")
    case None
    let ?c = "d\<lparr>cache_map := (cache_map c)(key \<mapsto> e)\<rparr>"
    have run: "put_store e key value c = Some ?c"
      using room None by (auto simp: put_store_def d_def Let_def)
    have "core_inv ?c (held(e := 1)) nu (iu @ [e])" by (rule core_cong [OF cd]) simp_all
    moreover have "map_inv ?c"
      by (rule map_inv_insert [OF m, of e ?x]) (use f None in \<open>simp_all add: d_def fresh_addr_def\<close>)
    ultimately have "lru_inv ?c (held(e := 1)) nu (iu @ [e])" by (simp add: lru_inv_def)
    then show ?thesis
      by (intro exI [of _ ?c] exI [of _ nu] exI [of _ "iu @ [e]"])
         (use run None sz in \<open>simp_all add: d_def Let_def\<close>)
  next
    case (Some old)
    obtain y where y: "handles c old = Some y" "h_in_cache y" "h_key y = key"
      using m [unfolded map_inv_def, rule_format, of key old] Some by auto
    have oe: "old \<noteq> e" using y f by (auto simp: fresh_addr_def)
    have yd: "handles d old = Some y" using y oe by (simp add: d_def)
    let ?held = "held(e := 1)"
    from erase_node_inv [OF cd yd y(2)] obtain c' where c': "erase_node old d = Some c'"
      "core_inv c' ?held (if ?held old = 0 then remove1 old nu else nu) (if ?held old = 0 then iu @ [e] else remove1 old (iu @ [e]))"
      "handles c' = (handles d)(old := (if ?held old = 0 then None else Some (y\<lparr>h_in_cache := False, h_ref := h_ref y - 1\<rparr>)))"
      "cache_map c' = cache_map d" "max_size c' = max_size d" "cur_size c' = cur_size d - 1" "cur_size d > 0"
      "deleted c' = (if ?held old = 0 then deleted d @ [h_value y] else deleted d)" .
    let ?c = "c'\<lparr>cache_map := (cache_map c)(key \<mapsto> e)\<rparr>"
    have run: "put_store e key value c = Some ?c"
    proof -
      have "put_store e key value c = do { c' \<leftarrow> erase_node old d; Some (c'\<lparr>cache_map := (cache_map c')(key \<mapsto> e)\<rparr>) }"
        using room Some by (auto simp: put_store_def d_def Let_def)
      then show ?thesis using c'(1,4) by (simp add: d_def)
    qed
    have "core_inv ?c ?held (if ?held old = 0 then remove1 old nu else nu) (if ?held old = 0 then iu @ [e] else remove1 old (iu @ [e]))"
      by (rule core_cong [OF c'(2)]) simp_all
    moreover have "map_inv ?c"
    proof -
      let ?b = "c\<lparr>handles := (handles c)(old := (if held old = 0 then None else Some (y\<lparr>h_in_cache := False, h_ref := h_ref y - 1\<rparr>))),
          cache_map := (cache_map c)(key := None)\<rparr>"
      have b: "map_inv ?b"
        by (rule map_inv_erase [OF m y(1,2)]) (auto simp: y(3) split: if_splits)
      show ?thesis
        by (rule map_inv_insert [OF b, of e ?x])
           (use f oe in \<open>simp_all add: c'(3) d_def fresh_addr_def fun_upd_twist\<close>)
    qed
    ultimately have inv: "lru_inv ?c ?held (if ?held old = 0 then remove1 old nu else nu) (if ?held old = 0 then iu @ [e] else remove1 old (iu @ [e]))"
      by (simp add: lru_inv_def)
    show ?thesis
      by (rule exI [of _ ?c], rule exI, rule exI, rule conjI [OF run], rule conjI [OF inv])
         (use c'(3-8) Some sz y oe in \<open>simp_all add: d_def Let_def\<close>)
  qed
qed

subsection \<open>Clients\<close>

text \<open>
  What clients may do with a cache: the calls, with the address that \<^verbatim>\<open>new\<close> gives to a
  \<^verbatim>\<open>put\<close>. A client releases only handles it holds. \<open>lru_reach\<close> are the states of a cache
  and the outstanding references after any sequence of such calls.
\<close>

datatype ('k, 'v) lru_op =
  Get 'k | Put addr 'k 'v | Release addr | Del 'k | Prune | SetMaxSize nat

fun client_ok :: "('k, 'v) lru_op \<Rightarrow> ('k, 'v) LRUCache \<Rightarrow> (addr \<Rightarrow> nat) \<Rightarrow> bool" where
  "client_ok (Put e _ _) c held \<longleftrightarrow> fresh_addr c e"
| "client_ok (Release a) c held \<longleftrightarrow> a = NULL_PTR \<or> held a > 0"
| "client_ok _ c held \<longleftrightarrow> True"

fun lru_exec :: "('k, 'v) lru_op \<Rightarrow> ('k, 'v) LRUCache \<Rightarrow> (addr \<Rightarrow> nat) \<Rightarrow> (('k, 'v) LRUCache \<times> (addr \<Rightarrow> nat)) option" where
  "lru_exec (Get k) c held = do {
     (e, c) \<leftarrow> lru_get k c; Some (c, if e = NULL_PTR then held else held(e := held e + 1)) }"
| "lru_exec (Put e k v) c held = do { (e, c) \<leftarrow> lru_put e k v c; Some (c, held(e := held e + 1)) }"
| "lru_exec (Release a) c held = do {
     c \<leftarrow> lru_release a c; Some (c, if a = NULL_PTR then held else held(a := held a - 1)) }"
| "lru_exec (Del k) c held = do { c \<leftarrow> lru_del k c; Some (c, held) }"
| "lru_exec Prune c held = do { c \<leftarrow> prune c; Some (c, held) }"
| "lru_exec (SetMaxSize n) c held = Some (set_max_size n c, held)"

inductive lru_reach :: "('k, 'v) LRUCache \<Rightarrow> (addr \<Rightarrow> nat) \<Rightarrow> bool" where
  start: "lru_reach (lru_init h) (\<lambda>_. 0)"
| call: "lru_reach c held \<Longrightarrow> client_ok opn c held \<Longrightarrow> lru_exec opn c held = Some (c', held')
    \<Longrightarrow> lru_reach c' held'"

lemma lru_init_inv: "lru_inv (lru_init h) (\<lambda>_. 0) [] []"
  by (simp add: lru_inv_def core_inv_def map_inv_def lru_init_def listed_def cache_list.pair_def
      dlist_def link_simps)

lemma set_max_size_inv: "lru_inv c held nu iu \<Longrightarrow> lru_inv (set_max_size n c) held nu iu"
  by (simp add: lru_inv_def core_inv_def map_inv_def set_max_size_def listed_def)

text \<open>
  What one step may do to the handles: they keep key and value while they live, and a value is
  either in a live handle or was passed to the deleter, once.
\<close>

definition live_values :: "('k, 'v) LRUCache \<Rightarrow> 'v multiset" where
  "live_values c = image_mset (\<lambda>a. h_value (the (handles c a))) (mset_set (dom (handles c)))"

definition all_values :: "('k, 'v) LRUCache \<Rightarrow> 'v multiset" where
  "all_values c = live_values c + mset (deleted c)"

definition same_entries :: "('k, 'v) LRUCache \<Rightarrow> ('k, 'v) LRUCache \<Rightarrow> bool" where
  "same_entries c c' \<longleftrightarrow> (\<forall>a x y. handles c a = Some x \<longrightarrow> handles c' a = Some y \<longrightarrow>
     h_key y = h_key x \<and> h_value y = h_value x)"

definition evolves :: "('k, 'v) LRUCache \<Rightarrow> 'v multiset \<Rightarrow> ('k, 'v) LRUCache \<Rightarrow> bool" where
  "evolves c vs c' \<longleftrightarrow> same_entries c c' \<and> all_values c' = all_values c + vs"

lemma core_finite: "core_inv c held nu iu \<Longrightarrow> finite (dom (handles c))"
proof -
  assume "core_inv c held nu iu"
  then have "dom (handles c) \<subseteq> {3 ..< 2 ^ 64}" using core_handle [of c held nu iu] by (auto simp: handle_ok_def)
  then show ?thesis by (rule finite_subset) simp
qed

lemma live_values_remove:
  assumes "finite (dom (handles c))" and "handles c e = Some x" and "handles d = (handles c)(e := None)"
  shows "live_values c = add_mset (h_value x) (live_values d)"
proof -
  have "dom (handles c) = insert e (dom (handles d))" using assms(2,3) by auto
  moreover have "e \<notin> dom (handles d)" "finite (dom (handles d))" using assms by auto
  ultimately have "mset_set (dom (handles c)) = add_mset e (mset_set (dom (handles d)))" by simp
  moreover have "image_mset (\<lambda>a. h_value (the (handles c a))) (mset_set (dom (handles d))) = live_values d"
    unfolding live_values_def by (rule image_mset_cong) (use assms \<open>finite (dom (handles d))\<close> in auto)
  ultimately show ?thesis by (simp add: live_values_def assms(2))
qed

lemma live_values_insert:
  assumes "finite (dom (handles c))" and "handles c e = None" and "handles d = (handles c)(e \<mapsto> x)"
  shows "live_values d = add_mset (h_value x) (live_values c)"
proof -
  have "handles c = (handles d)(e := None)" using assms(2,3) by auto
  moreover have "finite (dom (handles d))" "handles d e = Some x" using assms by simp_all
  ultimately show ?thesis using live_values_remove [of d e x c] by simp
qed

lemma evolves_free:
  assumes "finite (dom (handles c))" and "handles c e = Some x" and "handles d = (handles c)(e := None)"
    and "deleted d = deleted c @ [h_value x]"
  shows "evolves c {#} d"
  using live_values_remove [OF assms(1-3)] assms(3,4)
  by (auto simp: evolves_def same_entries_def all_values_def)

lemma evolves_new:
  assumes "finite (dom (handles c))" and "handles c e = None" and "handles d = (handles c)(e \<mapsto> x)"
    and "deleted d = deleted c"
  shows "evolves c {#h_value x#} d"
  using live_values_insert [OF assms(1-3)] assms(2-4)
  by (auto simp: evolves_def same_entries_def all_values_def)

lemma evolves_update:
  assumes "finite (dom (handles c))" and "handles c e = Some x" and "handles d = (handles c)(e \<mapsto> y)"
    and "h_key y = h_key x" "h_value y = h_value x" and "deleted d = deleted c"
  shows "evolves c {#} d"
proof -
  have "dom (handles d) = dom (handles c)" using assms(2,3) by auto
  then have "live_values d = live_values c"
    unfolding live_values_def by (auto simp: assms(1-3,5) intro!: image_mset_cong)
  then show ?thesis using assms(2-6) by (auto simp: evolves_def same_entries_def all_values_def)
qed

lemma evolves_refl: "handles d = handles c \<Longrightarrow> deleted d = deleted c \<Longrightarrow> evolves c {#} d"
  by (auto simp: evolves_def same_entries_def all_values_def live_values_def)

lemma evolves_trans:
  assumes "evolves b vs c" and "evolves c ws d" and "\<And>a. handles b a \<noteq> None \<Longrightarrow> handles d a \<noteq> None \<Longrightarrow> handles c a \<noteq> None"
  shows "evolves b (vs + ws) d"
proof -
  have "h_key y = h_key x \<and> h_value y = h_value x" if "handles b a = Some x" "handles d a = Some y" for a x y
  proof -
    have "handles c a \<noteq> None" by (rule assms(3)) (simp_all add: that)
    then obtain z where "handles c a = Some z" by auto
    moreover have "same_entries b c" "same_entries c d" using assms(1,2) by (simp_all add: evolves_def)
    ultimately show ?thesis using that unfolding same_entries_def by metis
  qed
  then have "same_entries b d" unfolding same_entries_def by blast
  then show ?thesis using assms(1,2) by (simp add: evolves_def)
qed

lemma evolves_evicted:
  assumes "finite (dom (handles c))" and h: "handles d = handles c |` (- set es)"
    and del: "deleted d = deleted c @ map (\<lambda>a. h_value (the (handles c a))) es"
    and "distinct es" and "set es \<subseteq> dom (handles c)"
  shows "evolves c {#} d"
proof -
  have "mset_set (dom (handles c)) = mset_set (dom (handles d)) + mset_set (set es)"
  proof -
    have "dom (handles c) = dom (handles d) \<union> set es" "dom (handles d) \<inter> set es = {}"
      using assms(5) by (auto simp: h)
    then show ?thesis using mset_set_Union [of "dom (handles d)" "set es"] assms(1) by (simp add: h)
  qed
  moreover have "mset_set (set es) = mset es" using assms(4) by (simp add: mset_set_set)
  moreover have "image_mset (\<lambda>a. h_value (the (handles c a))) (mset_set (dom (handles d))) = live_values d"
    unfolding live_values_def by (rule image_mset_cong) (use assms(1) in \<open>auto simp: h\<close>)
  ultimately have "live_values c = live_values d + mset (map (\<lambda>a. h_value (the (handles c a))) es)"
    by (simp add: live_values_def)
  then show ?thesis by (auto simp: evolves_def same_entries_def all_values_def h del restrict_map_def)
qed

text \<open>The values a call hands to the cache.\<close>

fun new_values :: "('k, 'v) lru_op \<Rightarrow> 'v multiset" where
  "new_values (Put _ _ v) = {#v#}"
| "new_values _ = {#}"

definition step_ok :: "('k, 'v) lru_op \<Rightarrow> ('k, 'v) LRUCache \<Rightarrow> (addr \<Rightarrow> nat) \<Rightarrow> bool" where
  "step_ok opn c held \<longleftrightarrow> (\<exists>c' held' nu iu. lru_exec opn c held = Some (c', held')
     \<and> lru_inv c' held' nu iu \<and> evolves c (new_values opn) c')"

lemma step_okI:
  "lru_exec opn c held = Some (c', held') \<Longrightarrow> lru_inv c' held' nu iu \<Longrightarrow> evolves c (new_values opn) c'
   \<Longrightarrow> step_ok opn c held"
  by (auto simp: step_ok_def)

lemma lru_inv_finite: "lru_inv c held nu iu \<Longrightarrow> finite (dom (handles c))"
  by (auto simp: lru_inv_def intro: core_finite)

lemma lru_inv_nu_live: "lru_inv c held nu iu \<Longrightarrow> set nu \<subseteq> dom (handles c)"
  using core_nu [of c held nu iu] by (auto simp: lru_inv_def listed_def split: option.splits)

lemma get_step: "lru_inv c held nu iu \<Longrightarrow> step_ok (Get k) c held"
proof (cases "cache_map c k")
  case None
  assume "lru_inv c held nu iu"
  then show ?thesis
    by (intro step_okI [where c' = c and held' = held]) (simp_all add: lru_get_def None evolves_refl)
next
  case (Some e)
  assume c: "lru_inv c held nu iu"
  from lru_get_inv [OF c Some] obtain c' x where c': "lru_get k c = Some (e, c')" "handles c e = Some x" "h_key x = k"
    "lru_inv c' (held(e := held e + 1)) (if e \<in> set nu then remove1 e nu else nu) (if e \<in> set nu then iu @ [e] else iu)"
    "handles c' = (handles c)(e \<mapsto> x\<lparr>h_ref := h_ref x + 1\<rparr>)" "cache_map c' = cache_map c"
    "max_size c' = max_size c" "cur_size c' = cur_size c" "deleted c' = deleted c" .
  have "e \<noteq> NULL_PTR" using c c'(2) core_handle [of c held nu iu e x] by (simp add: lru_inv_def handle_ok_def)
  moreover have "evolves c {#} c'" by (rule evolves_update [OF lru_inv_finite [OF c] c'(2,5)]) (simp_all add: c')
  ultimately show ?thesis by (intro step_okI [OF _ c'(4)]) (simp_all add: c'(1))
qed

lemma release_step:
  assumes c: "lru_inv c held nu iu" and "a = NULL_PTR \<or> held a > 0"
  shows "step_ok (Release a) c held"
proof (cases "a = NULL_PTR")
  case True
  then show ?thesis
    by (intro step_okI [where c' = c and held' = held, OF _ c]) (simp_all add: lru_release_def evolves_refl)
next
  case False
  with assms have h: "held a > 0" by simp
  from lru_release_inv [OF c h] obtain c' x where c': "lru_release a c = Some c'" "handles c a = Some x"
    "lru_inv c' (held(a := held a - 1)) (if h_in_cache x \<and> held a = 1 then nu @ [a] else nu)
       (if h_in_cache x \<and> held a = 1 then remove1 a iu else iu)"
    "handles c' = (handles c)(a := (if \<not> h_in_cache x \<and> held a = 1 then None else Some (x\<lparr>h_ref := h_ref x - 1\<rparr>)))"
    "cache_map c' = cache_map c" "max_size c' = max_size c" "cur_size c' = cur_size c"
    "deleted c' = (if \<not> h_in_cache x \<and> held a = 1 then deleted c @ [h_value x] else deleted c)" .
  have "evolves c {#} c'"
  proof (cases "\<not> h_in_cache x \<and> held a = 1")
    case True
    then show ?thesis using evolves_free [OF lru_inv_finite [OF c] c'(2), of c'] c'(4,8) by simp
  next
    case False
    then show ?thesis
      using evolves_update [OF lru_inv_finite [OF c] c'(2), of c' "x\<lparr>h_ref := h_ref x - 1\<rparr>"] c'(4,8) by auto
  qed
  then show ?thesis by (intro step_okI [OF _ c'(3)]) (simp_all add: c'(1) False)
qed

lemma del_step: "lru_inv c held nu iu \<Longrightarrow> step_ok (Del k) c held"
proof (cases "cache_map c k")
  case None
  assume "lru_inv c held nu iu"
  then show ?thesis
    by (intro step_okI [where c' = c and held' = held]) (simp_all add: lru_del_def None evolves_refl)
next
  case (Some e)
  assume c: "lru_inv c held nu iu"
  from lru_del_inv [OF c Some] obtain c' x where c': "lru_del k c = Some c'" "handles c e = Some x" "h_in_cache x"
    "lru_inv c' held (if held e = 0 then remove1 e nu else nu) (if held e = 0 then iu else remove1 e iu)"
    "handles c' = (handles c)(e := (if held e = 0 then None else Some (x\<lparr>h_in_cache := False, h_ref := h_ref x - 1\<rparr>)))"
    "cache_map c' = (cache_map c)(k := None)" "max_size c' = max_size c"
    "cur_size c' = cur_size c - 1" "cur_size c > 0"
    "deleted c' = (if held e = 0 then deleted c @ [h_value x] else deleted c)" .
  have "evolves c {#} c'"
  proof (cases "held e = 0")
    case True
    then show ?thesis using evolves_free [OF lru_inv_finite [OF c] c'(2), of c'] c'(5,10) by simp
  next
    case False
    then show ?thesis
      using evolves_update [OF lru_inv_finite [OF c] c'(2), of c' "x\<lparr>h_in_cache := False, h_ref := h_ref x - 1\<rparr>"] c'(5,10) by simp
  qed
  then show ?thesis by (intro step_okI [OF _ c'(4)]) (simp_all add: c'(1))
qed

lemma prune_step: "lru_inv c held nu iu \<Longrightarrow> step_ok Prune c held"
proof -
  assume c: "lru_inv c held nu iu"
  from prune_inv [OF c] obtain c' where c': "prune c = Some c'" "lru_inv c' held [] iu" "evicted c nu c'" by auto
  have "evolves c {#} c'"
    by (rule evolves_evicted [OF lru_inv_finite [OF c] _ _ lru_inv_distinct [OF c] lru_inv_nu_live [OF c]])
       (use c'(3) in \<open>simp_all add: evicted_def\<close>)
  then show ?thesis by (intro step_okI [OF _ c'(2)]) (simp_all add: c'(1))
qed

lemma put_store_step:
  assumes c: "lru_inv c held nu iu" and f: "fresh_addr c e"
  shows "\<exists>c' nu' iu'. put_store e k v c = Some c' \<and> lru_inv c' (held(e := 1)) nu' iu' \<and> evolves c {#v#} c'"
proof (cases "max_size c = 0 \<or> cur_size c < max_size c")
  case False
  then have full: "max_size c \<noteq> 0" "max_size c \<le> cur_size c" by auto
  from put_store_full [OF c f full, of k v] obtain c' where c': "put_store e k v c = Some c'"
    "lru_inv c' (held(e := 1)) nu iu"
    "handles c' = (handles c)(e \<mapsto> \<lparr>h_key = k, h_value = v, h_ref = 1, h_in_cache = False\<rparr>)"
    "cache_map c' = cache_map c" "max_size c' = max_size c" "cur_size c' = cur_size c" "deleted c' = deleted c" .
  have "evolves c {#v#} c'"
    using evolves_new [OF lru_inv_finite [OF c] _ c'(3)] c'(7) f by (simp add: fresh_addr_def)
  then show ?thesis using c'(1,2) by blast
next
  case True
  let ?x = "\<lparr>h_key = k, h_value = v, h_ref = 2, h_in_cache = True\<rparr>"
  from put_store_room [OF c f True, of k v] obtain c' nu' iu' where c': "put_store e k v c = Some c'"
    "lru_inv c' (held(e := 1)) nu' iu'"
    and h: "case cache_map c k of
         None \<Rightarrow> handles c' = (handles c)(e \<mapsto> ?x) \<and> deleted c' = deleted c
       | Some old \<Rightarrow> \<exists>y. handles c old = Some y \<and> old \<noteq> e \<and>
           handles c' = (handles c)(e \<mapsto> ?x, old := (if held old = 0 then None else Some (y\<lparr>h_in_cache := False, h_ref := h_ref y - 1\<rparr>)))
           \<and> deleted c' = (if held old = 0 then deleted c @ [h_value y] else deleted c)"
    unfolding Let_def by blast
  have fin: "finite (dom (handles c))" by (rule lru_inv_finite [OF c])
  have en: "handles c e = None" using f by (simp add: fresh_addr_def)
  have "evolves c {#v#} c'"
  proof (cases "cache_map c k")
    case None
    then show ?thesis using evolves_new [OF fin en, of c' ?x] h by simp
  next
    case (Some old)
    with h obtain y where y: "handles c old = Some y" "old \<noteq> e"
      "handles c' = (handles c)(e \<mapsto> ?x, old := (if held old = 0 then None else Some (y\<lparr>h_in_cache := False, h_ref := h_ref y - 1\<rparr>)))"
      "deleted c' = (if held old = 0 then deleted c @ [h_value y] else deleted c)" by auto
    let ?d = "c\<lparr>handles := (handles c)(e \<mapsto> ?x)\<rparr>"
    have "evolves c {#v#} ?d" using evolves_new [OF fin en, of ?d ?x] by simp
    moreover have "evolves ?d {#} c'"
    proof (cases "held old = 0")
      case True
      then show ?thesis using y by (intro evolves_free [of ?d old y]) (simp_all add: fin)
    next
      case False
      then show ?thesis
        using y by (intro evolves_update [of ?d old y _ "y\<lparr>h_in_cache := False, h_ref := h_ref y - 1\<rparr>"])
          (simp_all add: fin)
    qed
    ultimately show ?thesis using evolves_trans [of c "{#v#}" ?d "{#}" c'] by auto
  qed
  then show ?thesis using c' by blast
qed

lemma put_step:
  assumes c: "lru_inv c held nu iu" and f: "fresh_addr c e"
  shows "step_ok (Put e k v) c held"
proof -
  from put_store_step [OF c f] obtain d nu' iu' where d: "put_store e k v c = Some d"
    "lru_inv d (held(e := 1)) nu' iu'" "evolves c {#v#} d" by blast
  let ?es = "take (cur_size d - max_size d) nu'"
  from put_evict_inv [OF d(2)] obtain c' where c': "put_evict d = Some c'"
    "lru_inv c' (held(e := 1)) (drop (cur_size d - max_size d) nu') iu'" "evicted d ?es c'" by blast
  have h1: "held(e := held e + 1) = held(e := 1)"
    using c f fresh_unlisted [of c held nu iu e] by (simp add: lru_inv_def)
  show ?thesis
  proof (cases "max_size d > 0")
    case False
    then have "lru_exec (Put e k v) c held = Some (d, held(e := 1))"
      using h1 by (simp add: lru_put_def d(1))
    then show ?thesis by (rule step_okI [OF _ d(2)]) (simp add: d(3))
  next
    case True
    then have "lru_exec (Put e k v) c held = Some (c', held(e := 1))"
      using h1 by (simp add: lru_put_def d(1) c'(1))
    moreover have "evolves d {#} c'"
      by (rule evolves_evicted [OF lru_inv_finite [OF d(2)], where es = ?es])
         (use c'(3) lru_inv_distinct [OF d(2)] lru_inv_nu_live [OF d(2)] in \<open>auto simp: evicted_def dest: in_set_takeD\<close>)
    then have "evolves c ({#v#} + {#}) c'"
      by (rule evolves_trans [OF d(3)]) (use c'(3) in \<open>auto simp: evicted_def restrict_map_def split: if_splits\<close>)
    ultimately show ?thesis by (intro step_okI [OF _ c'(2)]) simp_all
  qed
qed

lemma lru_step:
  assumes "lru_inv c held nu iu" and "client_ok opn c held"
  shows "step_ok opn c held"
proof (cases opn)
  case (SetMaxSize n)
  then show ?thesis
    using set_max_size_inv [OF assms(1), of n] evolves_refl [of "set_max_size n c" c]
    by (intro step_okI [of _ _ _ "set_max_size n c" held]) (auto simp: set_max_size_def)
next
  case (Release a)
  then show ?thesis using release_step [OF assms(1), of a] assms(2) by simp
qed (use assms get_step put_step del_step prune_step in auto)

lemma lru_reach_inv: "lru_reach c held \<Longrightarrow> \<exists>nu iu. lru_inv c held nu iu"
proof (induction rule: lru_reach.induct)
  case (start h)
  then show ?case using lru_init_inv by blast
next
  case (call c held opn c' held')
  then obtain nu iu where "lru_inv c held nu iu" by blast
  from lru_step [OF this call.hyps(2)] call.hyps(3) show ?case by (auto simp: step_ok_def)
qed

lemma destroy_loop_run:
  "dseg (links_of c) p ys NOT_USE \<Longrightarrow> NOT_USE \<notin> set ys \<Longrightarrow> distinct ys
   \<Longrightarrow> \<forall>a\<in>set ys. \<exists>x. handles c a = Some x \<and> h_in_cache x \<and> h_ref x = 1
   \<Longrightarrow> \<exists>c'. destroy_loop (next_of (links_of c) p) c = Some c' \<and> handles c' = handles c |` (- set ys)
        \<and> deleted c' = deleted c @ map (\<lambda>a. h_value (the (handles c a))) ys"
proof (induction ys arbitrary: c p)
  case Nil
  then have "destroy_loop (next_of (links_of c) p) c = Some c" by (subst destroy_loop.simps) simp
  then show ?case by simp
next
  case (Cons e ys)
  obtain x where x: "handles c e = Some x" "h_in_cache x" "h_ref x = 1" using Cons.prems(4) by auto
  let ?d = "c\<lparr>deleted := deleted c @ [h_value x], handles := (handles c)(e := None)\<rparr>"
  have "\<forall>a\<in>set ys. \<exists>x. handles ?d a = Some x \<and> h_in_cache x \<and> h_ref x = 1"
    using Cons.prems(3,4) by auto
  moreover have "dseg (links_of ?d) e ys NOT_USE" "NOT_USE \<notin> set ys" "distinct ys" using Cons.prems by simp_all
  ultimately obtain c' where "destroy_loop (next_of (links_of ?d) e) ?d = Some c'" and c': "handles c' = handles ?d |` (- set ys)"
    "deleted c' = deleted ?d @ map (\<lambda>a. h_value (the (handles ?d a))) ys"
    using Cons.IH [of ?d e] by blast
  then have run: "destroy_loop (next_of (links_of c) e) ?d = Some c'" by simp
  have "destroy_loop (next_of (links_of c) p) c = Some c'"
    using Cons.prems(1,2) x run
    by (subst destroy_loop.simps) (simp add: lru_unref_def Let_def)
  moreover have "handles c' = handles c |` (- set (e # ys))"
    using c'(1) Cons.prems(3) by (auto simp: restrict_map_def fun_eq_iff)
  moreover have "map (\<lambda>a. h_value (the (handles ?d a))) ys = map (\<lambda>a. h_value (the (handles c a))) ys"
    using Cons.prems(3) by auto
  ultimately show ?case using c'(2) x by simp
qed

subsection \<open>Properties\<close>

text \<open>C3: Whatever sequence of calls brought a cache to its state, the next call of a client that
  releases only handles it holds returns: no assertion fails, no freed handle is used and the
  eviction loops end. Every handle somebody holds afterwards is alive, with the key and value it
  had before, and every value given to the cache so far is either in a live handle or was passed
  to the value deleter, exactly once.\<close>

theorem lru_calls_succeed:
  assumes "lru_reach c held" and "client_ok opn c held"
  shows "\<exists>c' held'. lru_exec opn c held = Some (c', held') \<and> lru_reach c' held'
    \<and> (\<forall>a. held' a > 0 \<longrightarrow> (\<exists>y. handles c' a = Some y
         \<and> (\<forall>x. handles c a = Some x \<longrightarrow> h_key y = h_key x \<and> h_value y = h_value x)))
    \<and> all_values c' = all_values c + new_values opn"
proof -
  obtain nu iu where "lru_inv c held nu iu" using lru_reach_inv [OF assms(1)] by blast
  from lru_step [OF this assms(2)] obtain c' held' nu' iu' where s: "lru_exec opn c held = Some (c', held')"
    "lru_inv c' held' nu' iu'" "evolves c (new_values opn) c'" by (auto simp: step_ok_def)
  have "\<exists>y. handles c' a = Some y \<and> (\<forall>x. handles c a = Some x \<longrightarrow> h_key y = h_key x \<and> h_value y = h_value x)"
    if "held' a > 0" for a
  proof -
    have "core_inv c' held' nu' iu'" using s(2) by (simp add: lru_inv_def)
    from core_held_live [OF this that] obtain y where y: "handles c' a = Some y" ..
    moreover have "same_entries c c'" using s(3) by (simp add: evolves_def)
    ultimately show ?thesis unfolding same_entries_def by blast
  qed
  moreover have "lru_reach c' held'" using lru_reach.call [OF assms s(1)] .
  ultimately show ?thesis using s by (intro exI [of _ c'] exI [of _ held']) (simp add: evolves_def)
qed

definition lru_demo :: "(nat, char) LRUCache" where
  "lru_demo = lru_init \<lparr>next_of = id, prev_of = id\<rparr>"

theorem lru_calls_succeed_witness:
  "lru_reach lru_demo (\<lambda>_. 0) \<and> client_ok (Put 3 7 (CHR ''a'')) lru_demo (\<lambda>_. 0)
   \<and> (\<exists>c' held'. lru_exec (Put 3 7 (CHR ''a'')) lru_demo (\<lambda>_. 0) = Some (c', held') \<and> all_values c' = {#CHR ''a''#})"
proof -
  have r: "lru_reach lru_demo (\<lambda>_. 0)" unfolding lru_demo_def by (rule lru_reach.start)
  have k: "client_ok (Put 3 7 (CHR ''a'')) lru_demo (\<lambda>_. 0)"
    by (simp add: lru_demo_def lru_init_def fresh_addr_def)
  have "all_values lru_demo = {#}" by (simp add: all_values_def live_values_def lru_demo_def lru_init_def)
  then show ?thesis using r k lru_calls_succeed [OF r k] by auto
qed

text \<open>When no handle is held any more, the destructor returns, frees every handle and has
  then passed every value the cache ever got to the value deleter exactly once; when an entry of
  the cache is still held, its first assertion fails.\<close>

theorem lru_destroy_releases:
  assumes "lru_reach c held"
  shows "((\<forall>a. held a = 0) \<longrightarrow> (\<exists>c'. lru_destroy c = Some c' \<and> handles c' = Map.empty \<and> mset (deleted c') = all_values c))
    \<and> ((\<exists>a x. handles c a = Some x \<and> h_in_cache x \<and> held a > 0) \<longrightarrow> lru_destroy c = None)"
proof -
  obtain nu iu where inv: "lru_inv c held nu iu" using lru_reach_inv [OF assms] by blast
  then have core: "core_inv c held nu iu" by (simp add: lru_inv_def)
  have "\<exists>c'. lru_destroy c = Some c' \<and> handles c' = Map.empty \<and> mset (deleted c') = all_values c"
    if z: "\<forall>a. held a = 0"
  proof -
    have iu: "iu = []" using core_iu [OF core] z by (cases iu) auto
    have nu: "set nu = dom (handles c)"
    proof (rule antisym [OF lru_inv_nu_live [OF inv]], rule subsetI)
      fix a assume "a \<in> dom (handles c)"
      then obtain x where x: "handles c a = Some x" by auto
      then have "h_in_cache x" using core_handle [OF core x] z by (cases "h_in_cache x") (auto simp: handle_ok_def)
      then show "a \<in> set nu" using core_nu [OF core, of a] x z by (simp add: listed_def)
    qed
    have "dseg (links_of c) NOT_USE nu NOT_USE" "NOT_USE \<notin> set nu" "distinct nu"
      using core_pair [OF core] by (simp_all add: cache_list.pair_def dlist_def)
    moreover have "\<forall>a\<in>set nu. \<exists>x. handles c a = Some x \<and> h_in_cache x \<and> h_ref x = 1"
      using core_nu [OF core] core_handle [OF core] z by (fastforce simp: listed_def handle_ok_def split: option.splits)
    ultimately obtain c' where c': "destroy_loop (next_of (links_of c) NOT_USE) c = Some c'" "handles c' = handles c |` (- set nu)"
      "deleted c' = deleted c @ map (\<lambda>a. h_value (the (handles c a))) nu"
      using destroy_loop_run by blast
    have e: "handles c' = Map.empty" by (auto simp: c'(2) nu restrict_map_def fun_eq_iff)
    have "evolves c {#} c'"
      by (rule evolves_evicted [OF lru_inv_finite [OF inv] c'(2,3) \<open>distinct nu\<close>]) (simp add: nu)
    then have "mset (deleted c') = all_values c" by (simp add: evolves_def all_values_def live_values_def e)
    moreover have "lru_destroy c = Some c'" using not_use_empty(2) [OF inv] iu c'(1) by (simp add: lru_destroy_def)
    ultimately show ?thesis using e by blast
  qed
  moreover have "lru_destroy c = None" if "handles c a = Some x" "h_in_cache x" "held a > 0" for a x
  proof -
    have "a \<in> set iu" using core_iu [OF core, of a] that by (simp add: listed_def)
    then have "iu \<noteq> []" by auto
    then show ?thesis using not_use_empty(2) [OF inv] by (simp add: lru_destroy_def)
  qed
  ultimately show ?thesis by blast
qed

theorem lru_destroy_releases_witness:
  "lru_reach lru_demo (\<lambda>_. 0) \<and> (\<exists>c'. lru_destroy lru_demo = Some c' \<and> mset (deleted c') = {#})
   \<and> (\<exists>(c :: (nat, char) LRUCache) held x. lru_reach c held \<and> handles c 3 = Some x \<and> h_in_cache x \<and> held 3 > 0
        \<and> lru_destroy c = None)"
proof -
  have r: "lru_reach lru_demo (\<lambda>_. 0)" unfolding lru_demo_def by (rule lru_reach.start)
  have v: "all_values lru_demo = {#}" by (simp add: all_values_def live_values_def lru_demo_def lru_init_def)
  have k: "client_ok (Put 3 7 (CHR ''a'')) lru_demo (\<lambda>_. 0)"
    by (simp add: lru_demo_def lru_init_def fresh_addr_def)
  have "\<exists>c' x. lru_exec (Put 3 7 (CHR ''a'')) lru_demo (\<lambda>_. 0) = Some (c', (\<lambda>_. 0)(3 := 1))
      \<and> handles c' 3 = Some x \<and> h_in_cache x"
    by (simp add: lru_demo_def lru_init_def lru_put_def put_store_def Let_def)
  then obtain c' x where c': "lru_exec (Put 3 7 (CHR ''a'')) lru_demo (\<lambda>_. 0) = Some (c', (\<lambda>_. 0)(3 := 1))"
    "handles c' 3 = Some x" "h_in_cache x" by blast
  have r': "lru_reach c' ((\<lambda>_. 0)(3 := 1))" by (rule lru_reach.call [OF r k c'(1)])
  have "lru_destroy c' = None"
    using lru_destroy_releases [OF r'] c'(2,3) by (metis fun_upd_same zero_less_one)
  moreover have "\<exists>c'. lru_destroy lru_demo = Some c' \<and> mset (deleted c') = {#}"
    using lru_destroy_releases [OF r] v by auto
  moreover have "((\<lambda>_ :: addr. 0)(3 := 1)) 3 > (0 :: nat)" by simp
  ultimately show ?thesis using r r' c'(2,3) by blast
qed

lemma put_room_get:
  assumes c: "lru_inv c held nu iu" and f: "fresh_addr c e" and room: "max_size c = 0 \<or> cur_size c < max_size c"
  shows "\<exists>c'. lru_put e k v c = Some (e, c') \<and> cache_map c' = (cache_map c)(k \<mapsto> e)
    \<and> (\<exists>x c''. lru_get k c' = Some (e, c'') \<and> handles c'' e = Some x \<and> h_key x = k \<and> h_value x = v)
    \<and> (max_size c = 0 \<or> cur_size c' \<le> max_size c)"
proof -
  let ?x = "\<lparr>h_key = k, h_value = v, h_ref = 2, h_in_cache = True\<rparr>"
  from put_store_room [OF c f room, of k v] obtain c' nu' iu' where c': "put_store e k v c = Some c'"
    "lru_inv c' (held(e := 1)) nu' iu'" "cache_map c' = (cache_map c)(k \<mapsto> e)" "max_size c' = max_size c"
    "cur_size c' = (if cache_map c k = None then cur_size c + 1 else cur_size c)"
    and h: "case cache_map c k of
         None \<Rightarrow> handles c' = (handles c)(e \<mapsto> ?x) \<and> deleted c' = deleted c
       | Some old \<Rightarrow> \<exists>y. handles c old = Some y \<and> old \<noteq> e \<and>
           handles c' = (handles c)(e \<mapsto> ?x, old := (if held old = 0 then None else Some (y\<lparr>h_in_cache := False, h_ref := h_ref y - 1\<rparr>)))
           \<and> deleted c' = (if held old = 0 then deleted c @ [h_value y] else deleted c)"
    unfolding Let_def by blast
  have sz: "max_size c = 0 \<or> cur_size c' \<le> max_size c" using room c'(5) by auto
  then have ev: "max_size c' > 0 \<Longrightarrow> put_evict c' = Some c'"
    by (subst put_evict.simps) (simp add: c'(4))
  have run: "lru_put e k v c = Some (e, c')" using ev by (simp add: lru_put_def c'(1))
  have x: "handles c' e = Some ?x" using h by (auto split: option.splits)
  have "lru_get k c' = Some (e, c'\<lparr>handles := (handles c')(e \<mapsto> ?x\<lparr>h_ref := 3\<rparr>)\<rparr>)"
    by (simp add: lru_get_def c'(3) lru_ref_def x Let_def)
  then show ?thesis using run c'(3) sz by (intro exI [of _ c'] conjI) simp_all
qed

text \<open>C20: A \<^verbatim>\<open>put\<close> into a cache with room makes the key map to the new handle and leaves every
  other key alone; a \<^verbatim>\<open>get\<close> of the key then returns that handle with the value that was put; and
  the number of entries stays within the limit.\<close>

theorem lru_put_get:
  assumes "lru_reach c held" and "fresh_addr c e" and "max_size c = 0 \<or> cur_size c < max_size c"
  shows "\<exists>c'. lru_put e k v c = Some (e, c') \<and> cache_map c' = (cache_map c)(k \<mapsto> e)
    \<and> (\<exists>x c''. lru_get k c' = Some (e, c'') \<and> handles c'' e = Some x \<and> h_key x = k \<and> h_value x = v)
    \<and> (max_size c = 0 \<or> cur_size c' \<le> max_size c)"
proof -
  obtain nu iu where "lru_inv c held nu iu" using lru_reach_inv [OF assms(1)] by blast
  then show ?thesis by (rule put_room_get [OF _ assms(2,3)])
qed

theorem lru_put_get_witness:
  "lru_reach lru_demo (\<lambda>_. 0) \<and> fresh_addr lru_demo 3 \<and> max_size lru_demo = 0
   \<and> (\<exists>c'. lru_put 3 7 (CHR ''a'') lru_demo = Some (3, c') \<and> cache_map c' 7 = Some 3)"
proof -
  have r: "lru_reach lru_demo (\<lambda>_. 0)" unfolding lru_demo_def by (rule lru_reach.start)
  have f: "fresh_addr lru_demo 3" "max_size lru_demo = 0"
    by (simp_all add: lru_demo_def lru_init_def fresh_addr_def)
  then show ?thesis using r lru_put_get [OF r f(1), of 7 "CHR ''a''"] by auto
qed

text \<open>A \<^verbatim>\<open>put\<close> into a cache that has reached its limit stores nothing: the handle it returns
  is not in the cache, and no key changes its handle, not even the key that was put, whose old
  value stays visible. Only when the limit was lowered below the number of entries does it evict,
  and then the entries unused for longest, as many as are too many and unused.\<close>

theorem lru_put_full:
  assumes "lru_reach c held" and "fresh_addr c e" and "max_size c \<noteq> 0" and "max_size c \<le> cur_size c"
  shows "\<exists>c' nu. lru_put e k v c = Some (e, c')
    \<and> handles c' e = Some \<lparr>h_key = k, h_value = v, h_ref = 1, h_in_cache = False\<rparr>
    \<and> dlist (links_of c) NOT_USE nu
    \<and> (\<forall>q. cache_map c' q = (case cache_map c q of
          Some a \<Rightarrow> (if a \<in> set (take (cur_size c - max_size c) nu) then None else Some a) | None \<Rightarrow> None))
    \<and> (cur_size c = max_size c \<longrightarrow> cache_map c' = cache_map c)"
proof -
  obtain nu iu where inv: "lru_inv c held nu iu" using lru_reach_inv [OF assms(1)] by blast
  then have core: "core_inv c held nu iu" by (simp add: lru_inv_def)
  from put_store_full [OF inv assms(2-4), of k v] obtain d where d: "put_store e k v c = Some d"
    "lru_inv d (held(e := 1)) nu iu"
    "handles d = (handles c)(e \<mapsto> \<lparr>h_key = k, h_value = v, h_ref = 1, h_in_cache = False\<rparr>)"
    "cache_map d = cache_map c" "max_size d = max_size c" "cur_size d = cur_size c" "deleted d = deleted c" .
  from put_evict_inv [OF d(2)] obtain c' where c': "put_evict d = Some c'"
    "evicted d (take (cur_size c - max_size c) nu) c'" unfolding d(5,6) by blast
  have run: "lru_put e k v c = Some (e, c')" using assms(3) by (simp add: lru_put_def d(1,5) c'(1))
  have "e \<notin> set (take (cur_size c - max_size c) nu)"
    using fresh_unlisted [OF core assms(2)] by (auto dest: in_set_takeD)
  then have "handles c' e = Some \<lparr>h_key = k, h_value = v, h_ref = 1, h_in_cache = False\<rparr>"
    using c'(2) by (simp add: evicted_def d(3))
  moreover have "dlist (links_of c) NOT_USE nu" using core_pair [OF core] by (simp add: cache_list.pair_def)
  moreover have "cache_map c' q = (case cache_map c q of
          Some a \<Rightarrow> (if a \<in> set (take (cur_size c - max_size c) nu) then None else Some a) | None \<Rightarrow> None)" for q
    using c'(2) by (simp add: evicted_def d(4))
  moreover from this have "cur_size c = max_size c \<Longrightarrow> cache_map c' = cache_map c"
    by (auto simp: fun_eq_iff split: option.splits)
  ultimately show ?thesis using run by blast
qed

theorem lru_put_full_witness:
  "\<exists>c held. lru_reach c held \<and> fresh_addr c 4 \<and> max_size c = 1 \<and> cur_size c = 1 \<and> cache_map c (7 :: nat) = Some 3
     \<and> (\<exists>c'. lru_put 4 7 (CHR ''b'') c = Some (4, c') \<and> cache_map c' 7 = Some 3)"
proof -
  have r: "lru_reach lru_demo (\<lambda>_. 0)" unfolding lru_demo_def by (rule lru_reach.start)
  have r1: "lru_reach (set_max_size 1 lru_demo) (\<lambda>_. 0)"
    by (rule lru_reach.call [OF r, of "SetMaxSize 1"]) simp_all
  have ev: "put_evict c = Some c" if "\<not> cur_size c > max_size c" for c :: "(nat, char) LRUCache"
    by (subst put_evict.simps) (use that in simp)
  have "\<exists>c. lru_exec (Put 3 7 (CHR ''a'')) (set_max_size 1 lru_demo) (\<lambda>_. 0) = Some (c, (\<lambda>_. 0)(3 := 1))
     \<and> fresh_addr c 4 \<and> max_size c = 1 \<and> cur_size c = 1 \<and> cache_map c 7 = Some 3"
    by (simp add: set_max_size_def lru_demo_def lru_init_def lru_put_def put_store_def Let_def ev
        size_inc_def fresh_addr_def)
  then obtain c where c: "lru_exec (Put 3 7 (CHR ''a'')) (set_max_size 1 lru_demo) (\<lambda>_. 0) = Some (c, (\<lambda>_. 0)(3 := 1))"
     "fresh_addr c 4" "max_size c = 1" "cur_size c = 1" "cache_map c 7 = Some 3" by blast
  have r2: "lru_reach c ((\<lambda>_. 0)(3 := 1))"
    by (rule lru_reach.call [OF r1 _ c(1)]) (simp add: set_max_size_def lru_demo_def lru_init_def fresh_addr_def)
  from lru_put_full [OF r2 c(2), of 7 "CHR ''b''"] c(3-5)
  have "\<exists>c'. lru_put 4 7 (CHR ''b'') c = Some (4, c') \<and> cache_map c' 7 = Some 3" by auto
  then show ?thesis using r2 c(2-5) by blast
qed

end
