(* ===== verification/DNSCache.thy ===== *)
theory DNSCache imports LRUCache begin

text \<open>
  The DNS cache of \<^verbatim>\<open>manager/DNSCache.cc\<close>: an LRU cache of address lists with two deadlines
  per entry. The locale \<open>pinned_cache\<close> states what the DNS cache relies on: a lookup pins the entry,
  a pinned entry can be written in place, a release unpins it.
\<close>

subsection \<open>State and operations\<close>

record 'a DNSCacheValue =
  addrinfo :: 'a
  confident_time :: int
  expire_time :: int

type_synonym HostPort = "string \<times> nat"
type_synonym 'a DNSCache = "(HostPort, 'a DNSCacheValue) LRUCache"

abbreviation CONFIDENT_INC :: int where "CONFIDENT_INC \<equiv> 10"
abbreviation TTL_INC :: int where "TTL_INC \<equiv> 10"
abbreviation INT64_MAX :: int where "INT64_MAX \<equiv> 2 ^ 63 - 1"
abbreviation UINT_MAX :: nat where "UINT_MAX \<equiv> 2 ^ 32 - 1"

datatype get_type = GET_TYPE_TTL | GET_TYPE_CONFIDENT

text \<open>A write through the handle, as the \<^verbatim>\<open>const_cast\<close> assignments do.\<close>

definition set_value :: "addr \<Rightarrow> 'v \<Rightarrow> ('k, 'v) LRUCache \<Rightarrow> ('k, 'v) LRUCache" where
  "set_value a v c = c\<lparr>handles := (handles c)(a := map_option (\<lambda>x. x\<lparr>h_value := v\<rparr>) (handles c a))\<rparr>"

text \<open>
  \<open>now\<close> is the current second of the steady clock; \<open>env\<close> is what other threads do to the cache
  between the first check and the moment the mutex is acquired.
\<close>

definition get_inner :: "('a DNSCache \<Rightarrow> 'a DNSCache) \<Rightarrow> int \<Rightarrow> HostPort \<Rightarrow> get_type \<Rightarrow> 'a DNSCache
    \<Rightarrow> (addr \<times> 'a DNSCache) option" where
  "get_inner env now host_port type c = do {
     (handle, c) \<leftarrow> lru_get host_port c;
     if handle \<noteq> NULL_PTR then (case type of
       GET_TYPE_TTL \<Rightarrow> do {
         x \<leftarrow> handles c handle;
         if now > expire_time (h_value x) then do {
           let c = env c;
           x \<leftarrow> handles c handle;
           if now > expire_time (h_value x) then do {
             let c = set_value handle ((h_value x)\<lparr>expire_time := expire_time (h_value x) + TTL_INC\<rparr>) c;
             c \<leftarrow> lru_release handle c;
             Some (NULL_PTR, c) }
           else Some (handle, c) }
         else Some (handle, c) }
     | GET_TYPE_CONFIDENT \<Rightarrow> do {
         x \<leftarrow> handles c handle;
         if now > confident_time (h_value x) then do {
           let c = env c;
           x \<leftarrow> handles c handle;
           if now > confident_time (h_value x) then do {
             let c = set_value handle ((h_value x)\<lparr>confident_time := confident_time (h_value x) + CONFIDENT_INC\<rparr>) c;
             c \<leftarrow> lru_release handle c;
             Some (NULL_PTR, c) }
           else Some (handle, c) }
         else Some (handle, c) })
     else Some (handle, c) }"

definition dns_get :: "HostPort \<Rightarrow> 'a DNSCache \<Rightarrow> (addr \<times> 'a DNSCache) option" where
  "dns_get host_port c = lru_get host_port c"

definition get_ttl :: "('a DNSCache \<Rightarrow> 'a DNSCache) \<Rightarrow> int \<Rightarrow> HostPort \<Rightarrow> 'a DNSCache \<Rightarrow> (addr \<times> 'a DNSCache) option" where
  "get_ttl env now host_port = get_inner env now host_port GET_TYPE_TTL"

definition get_confident :: "('a DNSCache \<Rightarrow> 'a DNSCache) \<Rightarrow> int \<Rightarrow> HostPort \<Rightarrow> 'a DNSCache \<Rightarrow> (addr \<times> 'a DNSCache) option" where
  "get_confident env now host_port = get_inner env now host_port GET_TYPE_CONFIDENT"

text \<open>\<open>e\<close> is the address of the new handle; the TTL arguments are 32-bit unsigned.\<close>

definition dns_put :: "addr \<Rightarrow> int \<Rightarrow> HostPort \<Rightarrow> 'a \<Rightarrow> nat \<Rightarrow> nat \<Rightarrow> 'a DNSCache \<Rightarrow> (addr \<times> 'a DNSCache) option" where
  "dns_put e now host_port ai dns_ttl_default dns_ttl_min c =
     (let dns_ttl_min = (if dns_ttl_min > dns_ttl_default then dns_ttl_default else dns_ttl_min);
          confident = (if dns_ttl_min = UINT_MAX then INT64_MAX else now + int dns_ttl_min);
          expire = (if dns_ttl_default = UINT_MAX then INT64_MAX else now + int dns_ttl_default)
      in lru_put e host_port \<lparr>addrinfo = ai, confident_time = confident, expire_time = expire\<rparr> c)"

definition dns_release :: "addr \<Rightarrow> 'a DNSCache \<Rightarrow> 'a DNSCache option" where
  "dns_release handle c = lru_release handle c"

definition dns_del :: "HostPort \<Rightarrow> 'a DNSCache \<Rightarrow> 'a DNSCache option" where
  "dns_del key c = lru_del key c"

subsection \<open>What the DNS cache relies on\<close>

locale pinned_cache =
  fixes good :: "'s \<Rightarrow> (addr \<Rightarrow> nat) \<Rightarrow> bool"
    and look :: "'s \<Rightarrow> 'k \<Rightarrow> addr option"
    and val :: "'s \<Rightarrow> addr \<Rightarrow> 'v option"
    and get :: "'k \<Rightarrow> 's \<Rightarrow> (addr \<times> 's) option"
    and wr :: "addr \<Rightarrow> 'v \<Rightarrow> 's \<Rightarrow> 's"
    and rel :: "addr \<Rightarrow> 's \<Rightarrow> 's option"
  assumes look_val: "good s held \<Longrightarrow> look s k = Some e \<Longrightarrow> e \<noteq> NULL_PTR \<and> val s e \<noteq> None"
    and look_inj: "good s held \<Longrightarrow> look s k = Some e \<Longrightarrow> look s k' = Some e \<Longrightarrow> k' = k"
    and get_miss: "look s k = None \<Longrightarrow> get k s = Some (NULL_PTR, s)"
    and get_hit: "good s held \<Longrightarrow> look s k = Some e \<Longrightarrow>
      \<exists>s'. get k s = Some (e, s') \<and> good s' (held(e := held e + 1)) \<and> look s' = look s \<and> val s' = val s"
    and wr_ok: "good s held \<Longrightarrow> val s e \<noteq> None \<Longrightarrow>
      good (wr e v s) held \<and> look (wr e v s) = look s \<and> val (wr e v s) = (val s)(e := Some v)"
    and rel_ok: "good s held \<Longrightarrow> held e > 0 \<Longrightarrow>
      \<exists>s'. rel e s = Some s' \<and> good s' (held(e := held e - 1)) \<and> look s' = look s
        \<and> (\<forall>k a. look s k = Some a \<longrightarrow> val s' a = val s a)"
begin

text \<open>The value a key maps to.\<close>

definition at_key :: "'s \<Rightarrow> 'k \<Rightarrow> 'v option" where
  "at_key s k = (case look s k of Some e \<Rightarrow> val s e | None \<Rightarrow> None)"

lemma at_key_look: "at_key s k = Some v \<Longrightarrow> \<exists>e. look s k = Some e \<and> val s e = Some v"
  by (auto simp: at_key_def split: option.splits)

lemma at_key_none: "good s held \<Longrightarrow> at_key s k = None \<Longrightarrow> look s k = None"
  using look_val by (fastforce simp: at_key_def split: option.splits)

lemma at_key_cong: "look s' = look s \<Longrightarrow> (\<And>k a. look s k = Some a \<Longrightarrow> val s' a = val s a) \<Longrightarrow> at_key s' = at_key s"
  by (auto simp: at_key_def fun_eq_iff split: option.splits)

text \<open>Writing a pinned entry and unpinning it changes the value of the key that maps to it only; the entry may have left the map meanwhile.\<close>

lemma write_release_any:
  assumes g: "good s held" and h: "held e > 0" and e: "val s e \<noteq> None"
  shows "\<exists>s'. rel e (wr e v s) = Some s' \<and> good s' (held(e := held e - 1))
    \<and> look s' = look s \<and> at_key s' = (\<lambda>k. if look s k = Some e then Some v else at_key s k)"
proof -
  have w: "good (wr e v s) held" "look (wr e v s) = look s" "val (wr e v s) = (val s)(e := Some v)"
    using wr_ok [OF g e, of v] by auto
  obtain s' where s': "rel e (wr e v s) = Some s'" "good s' (held(e := held e - 1))" "look s' = look s"
    "\<And>q a. look s q = Some a \<Longrightarrow> val s' a = val (wr e v s) a"
    using rel_ok [OF w(1) h] w(2) by auto
  have "at_key s' q = (if look s q = Some e then Some v else at_key s q)" for q
    using s'(3,4) w(3) by (auto simp: at_key_def split: option.splits)
  then show ?thesis using s'(1-3) by blast
qed

lemma write_release:
  assumes g: "good s held" and h: "held e > 0" and e: "look s k = Some e"
  shows "\<exists>s'. rel e (wr e v s) = Some s' \<and> good s' (held(e := held e - 1))
    \<and> look s' = look s \<and> at_key s' = (at_key s)(k := Some v)"
proof -
  have "look s q = Some e \<longleftrightarrow> q = k" for q using look_inj [OF g e] e by blast
  then have eq: "(\<lambda>q. if look s q = Some e then Some v else at_key s q) = (at_key s)(k := Some v)" by (simp add: fun_upd_def)
  have "val s e \<noteq> None" using look_val [OF g e] by blast
  from write_release_any [OF g h this, of v] show ?thesis unfolding eq .
qed

end

definition cache_good :: "('k, 'v) LRUCache \<Rightarrow> (addr \<Rightarrow> nat) \<Rightarrow> bool" where
  "cache_good c held \<longleftrightarrow> (\<exists>nu iu. lru_inv c held nu iu)"

definition handle_value :: "('k, 'v) LRUCache \<Rightarrow> addr \<Rightarrow> 'v option" where
  "handle_value c a = map_option h_value (handles c a)"

lemma set_value_inv: "lru_inv c held nu iu \<Longrightarrow> lru_inv (set_value a v c) held nu iu"
proof -
  assume c: "lru_inv c held nu iu"
  then have core: "core_inv c held nu iu" and m: "map_inv c" by (simp_all add: lru_inv_def)
  show ?thesis
  proof (cases "handles c a")
    case None
    then have "(handles c)(a := None) = handles c" by auto
    then show ?thesis using c None by (simp add: set_value_def)
  next
    case (Some x)
    then have h: "handles (set_value a v c) = (handles c)(a \<mapsto> x\<lparr>h_value := v\<rparr>)" by (simp add: set_value_def)
    then have "listed (set_value a v c) = listed c" using Some by (auto simp: listed_def fun_eq_iff)
    moreover have "handles (set_value a v c) b = Some y \<Longrightarrow> handle_ok held b y" for b y
      using core_handle [OF core, of b] core_handle [OF core Some] by (auto simp: h handle_ok_def split: if_splits)
    moreover have "handles (set_value a v c) b = None \<longleftrightarrow> handles c b = None" for b using Some by (simp add: h)
    ultimately have "core_inv (set_value a v c) held nu iu"
      using core unfolding core_inv_def by (simp add: set_value_def)
    moreover have "map_inv (set_value a v c)"
      by (rule map_inv_cong [OF m _ Some h]) (simp_all add: set_value_def)
    ultimately show ?thesis by (simp add: lru_inv_def)
  qed
qed

interpretation lru: pinned_cache cache_good cache_map handle_value lru_get set_value lru_release
proof
  fix s :: "('k, 'v) LRUCache" and held :: "addr \<Rightarrow> nat" and k k' :: 'k and e :: addr and v :: 'v
  show "e \<noteq> NULL_PTR \<and> handle_value s e \<noteq> None" if g: "cache_good s held" and k: "cache_map s k = Some e"
  proof -
    obtain nu iu where "lru_inv s held nu iu" using g unfolding cache_good_def by blast
    then have inv: "core_inv s held nu iu" "map_inv s" by (simp_all add: lru_inv_def)
    then obtain x where x: "handles s e = Some x" using k by (auto simp: map_inv_def)
    then show ?thesis using core_handle [OF inv(1) x] by (simp add: handle_value_def handle_ok_def)
  qed
  show "k' = k" if "cache_good s held" "cache_map s k = Some e" "cache_map s k' = Some e"
    using that unfolding cache_good_def lru_inv_def map_inv_def by fastforce
  show "cache_map s k = None \<Longrightarrow> lru_get k s = Some (NULL_PTR, s)" by (simp add: lru_get_def)
  show "\<exists>s'. lru_get k s = Some (e, s') \<and> cache_good s' (held(e := held e + 1)) \<and> cache_map s' = cache_map s
      \<and> handle_value s' = handle_value s" if g: "cache_good s held" and k: "cache_map s k = Some e"
  proof -
    obtain nu iu where inv: "lru_inv s held nu iu" using g by (auto simp: cache_good_def)
    from lru_get_inv [OF inv k] obtain c' x where c': "lru_get k s = Some (e, c')" "handles s e = Some x" "h_key x = k"
      "lru_inv c' (held(e := held e + 1)) (if e \<in> set nu then remove1 e nu else nu) (if e \<in> set nu then iu @ [e] else iu)"
      "handles c' = (handles s)(e \<mapsto> x\<lparr>h_ref := h_ref x + 1\<rparr>)" "cache_map c' = cache_map s"
      "max_size c' = max_size s" "cur_size c' = cur_size s" "deleted c' = deleted s" .
    have "handle_value c' = handle_value s" using c'(2,5) by (auto simp: handle_value_def fun_eq_iff)
    then show ?thesis using c'(1,4,6) by (auto simp: cache_good_def)
  qed
  show "cache_good (set_value e v s) held \<and> cache_map (set_value e v s) = cache_map s
      \<and> handle_value (set_value e v s) = (handle_value s)(e := Some v)"
    if "cache_good s held" "handle_value s e \<noteq> None"
  proof -
    have "handle_value (set_value e v s) = (handle_value s)(e := Some v)"
      using that(2) by (auto simp: handle_value_def set_value_def fun_eq_iff)
    then show ?thesis using that(1) set_value_inv [of s held _ _ e v] by (auto simp: cache_good_def set_value_def)
  qed
  show "\<exists>s'. lru_release e s = Some s' \<and> cache_good s' (held(e := held e - 1)) \<and> cache_map s' = cache_map s
      \<and> (\<forall>k a. cache_map s k = Some a \<longrightarrow> handle_value s' a = handle_value s a)"
    if g: "cache_good s held" and h: "held e > 0"
  proof -
    obtain nu iu where inv: "lru_inv s held nu iu" using g by (auto simp: cache_good_def)
    from lru_release_inv [OF inv h] obtain c' x where c': "lru_release e s = Some c'" "handles s e = Some x"
      "lru_inv c' (held(e := held e - 1)) (if h_in_cache x \<and> held e = 1 then nu @ [e] else nu)
         (if h_in_cache x \<and> held e = 1 then remove1 e iu else iu)"
      "handles c' = (handles s)(e := (if \<not> h_in_cache x \<and> held e = 1 then None else Some (x\<lparr>h_ref := h_ref x - 1\<rparr>)))"
      "cache_map c' = cache_map s" "max_size c' = max_size s" "cur_size c' = cur_size s"
      "deleted c' = (if \<not> h_in_cache x \<and> held e = 1 then deleted s @ [h_value x] else deleted s)" .
    have "handle_value c' a = handle_value s a" if "cache_map s k = Some a" for k a
    proof -
      have "a = e \<Longrightarrow> h_in_cache x" using inv that c'(2) by (auto simp: lru_inv_def map_inv_def)
      then show ?thesis using c'(2,4) by (auto simp: handle_value_def)
    qed
    then show ?thesis using c'(1,3,5) by (auto simp: cache_good_def)
  qed
qed

subsection \<open>The deadlines\<close>

fun deadline :: "get_type \<Rightarrow> 'a DNSCacheValue \<Rightarrow> int" where
  "deadline GET_TYPE_TTL v = expire_time v"
| "deadline GET_TYPE_CONFIDENT v = confident_time v"

fun postpone :: "get_type \<Rightarrow> 'a DNSCacheValue \<Rightarrow> 'a DNSCacheValue" where
  "postpone GET_TYPE_TTL v = v\<lparr>expire_time := expire_time v + TTL_INC\<rparr>"
| "postpone GET_TYPE_CONFIDENT v = v\<lparr>confident_time := confident_time v + CONFIDENT_INC\<rparr>"

text \<open>\<^verbatim>\<open>get_inner\<close> with its two switch branches folded into one.\<close>

lemma get_inner_unfold:
  "get_inner env now host_port type c = do {
     (handle, c) \<leftarrow> lru_get host_port c;
     if handle \<noteq> NULL_PTR then do {
       v \<leftarrow> handle_value c handle;
       if now > deadline type v then do {
         let c = env c;
         v \<leftarrow> handle_value c handle;
         if now > deadline type v then do {
           c \<leftarrow> lru_release handle (set_value handle (postpone type v) c);
           Some (NULL_PTR, c) }
         else Some (handle, c) }
       else Some (handle, c) }
     else Some (handle, c) }"
proof -
  have step: "map_option h_value (handles d h) \<bind> f = handles d h \<bind> (\<lambda>x. f (h_value x))" for d h and f :: "_ \<Rightarrow> 'r option"
    by (cases "handles d h") simp_all
  show ?thesis
    by (cases type; simp only:; unfold get_inner_def handle_value_def Let_def step deadline.simps postpone.simps
        get_type.case; rule refl)
qed

lemma get_inner_miss:
  assumes "cache_good c held" and "lru.at_key c hp = None"
  shows "get_inner env now hp type c = Some (NULL_PTR, c)"
  using lru.get_miss [OF lru.at_key_none [OF assms]] by (simp add: get_inner_unfold)

lemma get_inner_fresh:
  assumes g: "cache_good c held" and v: "lru.at_key c hp = Some v" and "now \<le> deadline type v"
  shows "\<exists>e c'. get_inner env now hp type c = Some (e, c') \<and> e \<noteq> NULL_PTR \<and> cache_map c hp = Some e
    \<and> cache_good c' (held(e := held e + 1)) \<and> handle_value c' e = Some v \<and> lru.at_key c' = lru.at_key c"
proof -
  obtain e where e: "cache_map c hp = Some e" "handle_value c e = Some v" using lru.at_key_look [OF v] by blast
  obtain c1 where c1: "lru_get hp c = Some (e, c1)" "cache_good c1 (held(e := held e + 1))"
    "cache_map c1 = cache_map c" "handle_value c1 = handle_value c" using lru.get_hit [OF g e(1)] by blast
  have ne: "e \<noteq> NULL_PTR" using lru.look_val [OF g e(1)] by blast
  have "get_inner env now hp type c = Some (e, c1)"
    using ne assms(3) by (simp add: get_inner_unfold c1(1,4) e(2))
  moreover have "lru.at_key c1 = lru.at_key c" by (rule lru.at_key_cong) (simp_all add: c1)
  ultimately show ?thesis using c1 e ne by auto
qed

lemma get_inner_expired:
  assumes g: "cache_good c held" and v: "lru.at_key c hp = Some v" and "now > deadline type v"
  shows "\<exists>c'. get_inner id now hp type c = Some (NULL_PTR, c') \<and> cache_good c' held \<and> cache_map c' = cache_map c
    \<and> lru.at_key c' = (lru.at_key c)(hp := Some (postpone type v))"
proof -
  obtain e where e: "cache_map c hp = Some e" "handle_value c e = Some v" using lru.at_key_look [OF v] by blast
  obtain c1 where c1: "lru_get hp c = Some (e, c1)" "cache_good c1 (held(e := held e + 1))"
    "cache_map c1 = cache_map c" "handle_value c1 = handle_value c" using lru.get_hit [OF g e(1)] by blast
  have ne: "e \<noteq> NULL_PTR" using lru.look_val [OF g e(1)] by blast
  have k1: "lru.at_key c1 = lru.at_key c" by (rule lru.at_key_cong) (simp_all add: c1)
  have e1: "cache_map c1 hp = Some e" "(held(e := held e + 1)) e > 0" using e c1(3) by simp_all
  from lru.write_release [OF c1(2) e1(2,1), of "postpone type v"]
  obtain c' where c': "lru_release e (set_value e (postpone type v) c1) = Some c'" "cache_good c' held" "cache_map c' = cache_map c"
    "lru.at_key c' = (lru.at_key c)(hp := Some (postpone type v))"
    unfolding k1 fun_upd_upd c1(3) by auto
  have "get_inner id now hp type c = Some (NULL_PTR, c')"
    using ne assms(3) c'(1) by (simp add: get_inner_unfold c1(1,4) e(2) Let_def)
  then show ?thesis using c' by blast
qed

lemma pinned_value:
  assumes "cache_good c held" "held e > 0"
  shows "handle_value c e \<noteq> None"
proof -
  obtain nu iu where inv: "lru_inv c held nu iu" using assms(1) by (auto simp: cache_good_def)
  show ?thesis by (rule lru_release_inv [OF inv assms(2)]) (simp add: handle_value_def)
qed

text \<open>The second check, under the mutex, after the other threads had their turn.\<close>

lemma get_inner_late:
  assumes get: "lru_get hp c = Some (e, c1)" "e \<noteq> NULL_PTR" "handle_value c1 e = Some v" and d: "deadline type v < now"
    and g: "cache_good (env c1) held'" "held' e > 0"
  shows "\<exists>v'. handle_value (env c1) e = Some v' \<and>
    (if now \<le> deadline type v' then get_inner env now hp type c = Some (e, env c1)
     else \<exists>c'. get_inner env now hp type c = Some (NULL_PTR, c') \<and> cache_good c' (held'(e := held' e - 1)) \<and>
       lru.at_key c' = (\<lambda>k. if cache_map (env c1) k = Some e then Some (postpone type v') else lru.at_key (env c1) k))"
proof -
  obtain v' where v': "handle_value (env c1) e = Some v'" using pinned_value [OF g] by blast
  obtain c' where c': "lru_release e (set_value e (postpone type v') (env c1)) = Some c'" "cache_good c' (held'(e := held' e - 1))"
    "lru.at_key c' = (\<lambda>k. if cache_map (env c1) k = Some e then Some (postpone type v') else lru.at_key (env c1) k)"
    using lru.write_release_any [OF g, of "postpone type v'"] v' by auto
  show ?thesis
  proof (intro exI [of _ v'] conjI v')
    show "if now \<le> deadline type v' then get_inner env now hp type c = Some (e, env c1)
      else \<exists>c'. get_inner env now hp type c = Some (NULL_PTR, c') \<and> cache_good c' (held'(e := held' e - 1)) \<and>
        lru.at_key c' = (\<lambda>k. if cache_map (env c1) k = Some e then Some (postpone type v') else lru.at_key (env c1) k)"
      using get d v' c' by (simp add: get_inner_unfold Let_def)
  qed
qed

lemma get_inner_race:
  assumes g: "cache_good c held" and v: "lru.at_key c hp = Some v"
    and "now > deadline type v" and "now \<le> deadline type (postpone type v)"
  defines "other \<equiv> (\<lambda>d. case get_inner id now hp type d of Some (_, d') \<Rightarrow> d' | None \<Rightarrow> d)"
  shows "\<exists>e c'. get_inner other now hp type c = Some (e, c') \<and> e \<noteq> NULL_PTR
    \<and> cache_good c' (held(e := held e + 1)) \<and> lru.at_key c' = (lru.at_key c)(hp := Some (postpone type v))"
proof -
  obtain e where e: "cache_map c hp = Some e" "handle_value c e = Some v" using lru.at_key_look [OF v] by blast
  obtain c1 where c1: "lru_get hp c = Some (e, c1)" "cache_good c1 (held(e := held e + 1))"
    "cache_map c1 = cache_map c" "handle_value c1 = handle_value c" using lru.get_hit [OF g e(1)] by blast
  have ne: "e \<noteq> NULL_PTR" using lru.look_val [OF g e(1)] by blast
  have k1: "lru.at_key c1 = lru.at_key c" by (rule lru.at_key_cong) (simp_all add: c1)
  have v1: "lru.at_key c1 hp = Some v" by (simp add: k1 v)
  from get_inner_expired [OF c1(2) v1 assms(3)]
  obtain c2 where c2: "get_inner id now hp type c1 = Some (NULL_PTR, c2)" "cache_good c2 (held(e := held e + 1))"
    "cache_map c2 = cache_map c1" "lru.at_key c2 = (lru.at_key c1)(hp := Some (postpone type v))" by blast
  have hv: "handle_value c2 e = Some (postpone type v)"
    using lru.at_key_look [of c2 hp "postpone type v"] c2(3,4) c1(3) e(1) by auto
  have "get_inner other now hp type c = Some (e, c2)"
    using ne assms(3,4) hv
    by (subst get_inner_unfold) (simp add: c1(1,4) e(2) Let_def other_def c2(1))
  then show ?thesis using ne c2 k1 by auto
qed

lemma put_room_at_key:
  assumes c: "lru_inv c held nu iu" and f: "fresh_addr c e" and room: "max_size c = 0 \<or> cur_size c < max_size c"
  shows "\<exists>c'. lru_put e k v c = Some (e, c') \<and> cache_good c' (held(e := 1)) \<and> cache_map c' k = Some e
    \<and> lru.at_key c' = (lru.at_key c)(k := Some v)"
proof -
  let ?x = "\<lparr>h_key = k, h_value = v, h_ref = 2, h_in_cache = True\<rparr>"
  from put_store_room [OF c f room, of k v] obtain c' nu' iu' where c': "put_store e k v c = Some c'"
    "lru_inv c' (held(e := 1)) nu' iu'" "cache_map c' = (cache_map c)(k \<mapsto> e)" "max_size c' = max_size c"
    "cur_size c' = (if cache_map c k = None then cur_size c + 1 else cur_size c)"
    and h: "case cache_map c k of
         None \<Rightarrow> handles c' = (handles c)(e \<mapsto> ?x) \<and> deleted c' = deleted c
       | Some old \<Rightarrow> \<exists>y. handles c old = Some y \<and> old \<noteq> e \<and>
           handles c' = (handles c)(e \<mapsto> ?x, old := (if held old = 0 then None else Some (y\<lparr>h_in_cache := False, h_ref := h_ref y - 1\<rparr>)))
           \<and> deleted c' = (if held old = 0 then deleted c @ [h_value y] else deleted c)"
    unfolding Let_def by blast
  have "max_size c' > 0 \<Longrightarrow> put_evict c' = Some c'"
    by (subst put_evict.simps) (use room c'(4,5) in auto)
  then have run: "lru_put e k v c = Some (e, c')" by (simp add: lru_put_def c'(1))
  have g: "cache_good c held" "cache_good c' (held(e := 1))" using c c'(2) by (auto simp: cache_good_def)
  have "handles c' e = Some ?x" using h by (auto split: option.splits)
  moreover have "handle_value c' a = handle_value c a" if q: "cache_map c q = Some a" "q \<noteq> k" for q a
  proof -
    have "a \<noteq> e" using lru.look_val [OF g(1) q(1)] f by (auto simp: handle_value_def fresh_addr_def)
    moreover have "cache_map c k \<noteq> Some a" using lru.look_inj [OF g(1) q(1)] q(2) by auto
    ultimately show ?thesis using h by (auto simp: handle_value_def split: option.splits)
  qed
  ultimately have "lru.at_key c' = (lru.at_key c)(k := Some v)"
    using c'(3) by (auto simp: lru.at_key_def fun_eq_iff handle_value_def split: option.splits)
  then show ?thesis using run g(2) c'(3) by auto
qed

subsection \<open>Properties\<close>

text \<open>C15: A lookup with a deadline, whatever other threads do between its first check and the mutex. A missing entry gives the
  null handle and changes nothing. An entry whose deadline has not passed is returned pinned, with its value. For an entry past its deadline the
  value is read again under the mutex, where the pin has kept it: when its deadline has been postponed meanwhile, the pinned entry is returned;
  otherwise the lookup gives the null handle, gives the pin back, moves that deadline ten seconds on, also when the entry is no longer the one of its
  key, and changes no other entry. The rely condition is that the other threads leave a consistent cache and do not release this pin.\<close>

theorem dns_get_deadline:
  assumes "cache_good c held"
  shows "case lru.at_key c hp of
      None \<Rightarrow> get_inner env now hp type c = Some (NULL_PTR, c)
    | Some v \<Rightarrow> \<exists>e c1. e \<noteq> NULL_PTR \<and> cache_map c hp = Some e \<and> cache_good c1 (held(e := held e + 1)) \<and> handle_value c1 e = Some v
        \<and> cache_map c1 = cache_map c \<and> lru.at_key c1 = lru.at_key c
        \<and> (now \<le> deadline type v \<longrightarrow> get_inner env now hp type c = Some (e, c1))
        \<and> (deadline type v < now \<longrightarrow> (\<forall>held'. cache_good (env c1) held' \<and> held' e > 0 \<longrightarrow>
             (\<exists>v'. handle_value (env c1) e = Some v' \<and>
               (if now \<le> deadline type v' then get_inner env now hp type c = Some (e, env c1)
                else \<exists>c'. get_inner env now hp type c = Some (NULL_PTR, c') \<and> cache_good c' (held'(e := held' e - 1)) \<and>
                  lru.at_key c' = (\<lambda>k. if cache_map (env c1) k = Some e then Some (postpone type v') else lru.at_key (env c1) k)))))"
proof (cases "lru.at_key c hp")
  case None
  then show ?thesis using get_inner_miss [OF assms] by simp
next
  case (Some v)
  obtain e where e: "cache_map c hp = Some e" "handle_value c e = Some v" using lru.at_key_look [OF Some] by blast
  obtain c1 where c1: "lru_get hp c = Some (e, c1)" "cache_good c1 (held(e := held e + 1))"
    "cache_map c1 = cache_map c" "handle_value c1 = handle_value c" using lru.get_hit [OF assms e(1)] by blast
  have ne: "e \<noteq> NULL_PTR" using lru.look_val [OF assms e(1)] by blast
  have k1: "lru.at_key c1 = lru.at_key c" by (rule lru.at_key_cong) (simp_all add: c1)
  have v1: "handle_value c1 e = Some v" by (simp add: c1(4) e(2))
  have fresh: "get_inner env now hp type c = Some (e, c1)" if "now \<le> deadline type v"
    using that ne by (simp add: get_inner_unfold c1(1) v1)
  have late: "\<exists>v'. handle_value (env c1) e = Some v' \<and>
       (if now \<le> deadline type v' then get_inner env now hp type c = Some (e, env c1)
        else \<exists>c'. get_inner env now hp type c = Some (NULL_PTR, c') \<and> cache_good c' (held'(e := held' e - 1)) \<and>
          lru.at_key c' = (\<lambda>k. if cache_map (env c1) k = Some e then Some (postpone type v') else lru.at_key (env c1) k))"
    if d: "deadline type v < now" and g: "cache_good (env c1) held'" "held' e > 0" for held'
    by (rule get_inner_late [where env = env, OF c1(1) ne v1 d g])
  show ?thesis
    unfolding Some option.case
    by (rule exI [of _ e], rule exI [of _ c1]) (use ne e(1) c1(2,3) v1 k1 fresh late in blast)
qed

theorem dns_get_deadline_witness:
  "\<exists>(c :: unit DNSCache) c' v. lru.at_key c (''h'', 80) = Some v \<and> expire_time v = 130
     \<and> get_inner id 135 (''h'', 80) GET_TYPE_TTL c = Some (NULL_PTR, c')
     \<and> lru.at_key c' (''h'', 80) = Some (v\<lparr>expire_time := 140\<rparr>)"
proof -
  let ?c = "lru_init \<lparr>next_of = id, prev_of = id\<rparr> :: unit DNSCache"
  let ?v = "\<lparr>addrinfo = (), confident_time = 130, expire_time = 130\<rparr>"
  have f: "fresh_addr ?c 3" "max_size ?c = 0 \<or> cur_size ?c < max_size ?c" by (simp_all add: fresh_addr_def lru_init_def)
  obtain c :: "unit DNSCache" where c: "cache_good c ((\<lambda>_. 0)(3 := 1))" "lru.at_key c (''h'', 80) = Some ?v"
    using put_room_at_key [OF lru_init_inv f, of "(''h'', 80)" ?v] by auto
  from dns_get_deadline [OF c(1), where hp = "(''h'', 80)" and env = id and now = 135 and type = GET_TYPE_TTL]
  obtain e c1 where e: "cache_map c (''h'', 80) = Some e" "cache_good c1 (((\<lambda>_. 0)(3 := 1))(e := ((\<lambda>_. 0)(3 := 1)) e + 1))" "handle_value c1 e = Some ?v"
    "cache_map c1 = cache_map c"
    "\<forall>held'. cache_good (id c1) held' \<and> held' e > 0 \<longrightarrow>
       (\<exists>v'. handle_value (id c1) e = Some v' \<and>
         (if 135 \<le> deadline GET_TYPE_TTL v' then get_inner id 135 (''h'', 80) GET_TYPE_TTL c = Some (e, id c1)
          else \<exists>c'. get_inner id 135 (''h'', 80) GET_TYPE_TTL c = Some (NULL_PTR, c') \<and> cache_good c' (held'(e := held' e - 1)) \<and>
            lru.at_key c' = (\<lambda>k. if cache_map (id c1) k = Some e then Some (postpone GET_TYPE_TTL v') else lru.at_key (id c1) k)))"
    unfolding c(2) option.case by auto
  obtain c' where c': "get_inner id 135 (''h'', 80) GET_TYPE_TTL c = Some (NULL_PTR, c')"
    "lru.at_key c' = (\<lambda>k. if cache_map c1 k = Some e then Some (postpone GET_TYPE_TTL ?v) else lru.at_key c1 k)"
    using e(2,3,5) by fastforce
  have "lru.at_key c' (''h'', 80) = Some (?v\<lparr>expire_time := 140\<rparr>)"
    using c'(2) e(1,4) by simp
  then show ?thesis
    by (intro exI [of _ c] exI [of _ c'] exI [of _ ?v]) (use c(2) c'(1) in simp)
qed

text \<open>When an entry is up to ten seconds past its deadline, exactly one lookup is told to
  refresh it: a second lookup at the same time gets the pinned old entry, whether it runs after the
  first one or has made its first check before the first one took the mutex.\<close>

theorem dns_refresh_once:
  assumes "cache_good c held" and "lru.at_key c hp = Some v"
    and "deadline type v < now" and "now \<le> deadline type v + 10"
  defines "other \<equiv> (\<lambda>d. case get_inner id now hp type d of Some (_, d') \<Rightarrow> d' | None \<Rightarrow> d)"
  shows "(\<exists>c1. get_inner id now hp type c = Some (NULL_PTR, c1)
       \<and> (\<exists>e c2. get_inner id now hp type c1 = Some (e, c2) \<and> e \<noteq> NULL_PTR \<and> cache_good c2 (held(e := held e + 1))))
    \<and> (\<exists>e c2. get_inner other now hp type c = Some (e, c2) \<and> e \<noteq> NULL_PTR \<and> cache_good c2 (held(e := held e + 1)))"
proof -
  have late: "now \<le> deadline type (postpone type v)" using assms(4) by (cases type) simp_all
  obtain c1 where c1: "get_inner id now hp type c = Some (NULL_PTR, c1)" "cache_good c1 held"
    "lru.at_key c1 hp = Some (postpone type v)"
    using get_inner_expired [OF assms(1,2,3)] by auto
  moreover have "\<exists>e c2. get_inner id now hp type c1 = Some (e, c2) \<and> e \<noteq> NULL_PTR \<and> cache_good c2 (held(e := held e + 1))"
    using get_inner_fresh [OF c1(2,3) late, of id] by blast
  moreover have "\<exists>e c2. get_inner other now hp type c = Some (e, c2) \<and> e \<noteq> NULL_PTR \<and> cache_good c2 (held(e := held e + 1))"
    using get_inner_race [OF assms(1-3) late] unfolding other_def by blast
  ultimately show ?thesis by blast
qed

theorem dns_refresh_once_witness:
  "\<exists>(c :: unit DNSCache) held v. cache_good c held \<and> lru.at_key c (''h'', 80) = Some v
     \<and> (\<exists>c1. get_inner id 135 (''h'', 80) GET_TYPE_TTL c = Some (NULL_PTR, c1))"
proof -
  let ?c = "lru_init \<lparr>next_of = id, prev_of = id\<rparr> :: unit DNSCache"
  let ?v = "\<lparr>addrinfo = (), confident_time = 130, expire_time = 130\<rparr>"
  have f: "fresh_addr ?c 3" "max_size ?c = 0 \<or> cur_size ?c < max_size ?c" by (simp_all add: fresh_addr_def lru_init_def)
  obtain c' :: "unit DNSCache" where c': "cache_good c' ((\<lambda>_. 0)(3 := 1))" "lru.at_key c' (''h'', 80) = Some ?v"
    using put_room_at_key [OF lru_init_inv f, of "(''h'', 80)" ?v] by auto
  show ?thesis using c' dns_refresh_once [OF c', of GET_TYPE_TTL 135] by auto
qed



end
