(* ===== verification/Workflow.thy ===== *)
theory Workflow imports Prelude "HOL-Library.Monad_Syntax" begin

text \<open>
  \<^verbatim>\<open>SeriesWork\<close> of \<^verbatim>\<open>factory/Workflow.cc\<close>, a queue of tasks in a growing ring buffer, and the
  completion protocol of \<^verbatim>\<open>kernel/SubTask.cc\<close>. Task pointers are numbers, 0 is the null
  pointer. An operation returns \<open>None\<close> when it reads or writes outside the array, uses the series
  after it deleted itself, overflows the 32-bit size, fails an assertion or does not end.
\<close>

subsection \<open>The series\<close>

type_synonym task = nat

abbreviation NULL_TASK :: task where "NULL_TASK \<equiv> 0"

text \<open>
  \<open>pointer\<close> is the pointer field of the tasks (\<^verbatim>\<open>set_pointer\<close>); \<open>deleted_tasks\<close>, \<open>callbacks\<close> and
  \<open>dispatched\<close> record the deletions, the calls of the callback and the dispatched tasks;
  \<open>freed\<close> says that the series deleted itself.
\<close>

record SeriesWork =
  self :: nat
  first_task :: task
  last_task :: task
  queue :: "task list"
  queue_size :: int
  qfront :: int
  qback :: int
  in_parallel :: bool
  canceled :: bool
  has_callback :: bool
  pointer :: "task \<Rightarrow> nat"
  deleted_tasks :: "task list"
  callbacks :: nat
  dispatched :: "task list"
  freed :: bool

definition arr_get :: "'a list \<Rightarrow> int \<Rightarrow> 'a option" where
  "arr_get q i = (if 0 \<le> i \<and> i < int (length q) then Some (q ! nat i) else None)"

definition arr_set :: "'a list \<Rightarrow> int \<Rightarrow> 'a \<Rightarrow> 'a list option" where
  "arr_set q i v = (if 0 \<le> i \<and> i < int (length q) then Some (q[nat i := v]) else None)"

definition check :: "bool \<Rightarrow> unit option" where
  "check b = (if b then Some () else None)"

lemma check_simps [simp]: "check True = Some ()" "check False = None"
  by (simp_all add: check_def)

text \<open>\<open>mem\<close> is the uninitialised content of a new array.\<close>

definition series_init :: "nat \<Rightarrow> task list \<Rightarrow> (task \<Rightarrow> nat) \<Rightarrow> task \<Rightarrow> bool \<Rightarrow> SeriesWork" where
  "series_init this mem ptr first cb = \<lparr>self = this, first_task = first, last_task = NULL_TASK,
     queue = mem, queue_size = 4, qfront = 0, qback = 0, in_parallel = False, canceled = False,
     has_callback = cb, pointer = ptr(first := this), deleted_tasks = [], callbacks = 0,
     dispatched = [], freed = False\<rparr>"

definition set_last_task :: "task \<Rightarrow> SeriesWork \<Rightarrow> SeriesWork" where
  "set_last_task t s = s\<lparr>pointer := (pointer s)(t := self s), last_task := t\<rparr>"

definition cancel :: "SeriesWork \<Rightarrow> SeriesWork" where
  "cancel s = s\<lparr>canceled := True\<rparr>"

definition series_start :: "SeriesWork \<Rightarrow> SeriesWork option" where
  "series_start s = do { check (\<not> in_parallel s); Some (s\<lparr>dispatched := dispatched s @ [first_task s]\<rparr>) }"

partial_function (option) expand_loop ::
    "task list \<Rightarrow> int \<Rightarrow> int \<Rightarrow> int \<Rightarrow> int \<Rightarrow> task list \<Rightarrow> (int \<times> task list) option" where
  "expand_loop old sz bk i j q = do {
     v \<leftarrow> arr_get old j;
     q \<leftarrow> arr_set q i v;
     let i = i + 1; let j = j + 1;
     let j = (if j = sz then 0 else j);
     if j \<noteq> bk then expand_loop old sz bk i j q else Some (i, q) }"

definition expand_queue :: "task list \<Rightarrow> SeriesWork \<Rightarrow> SeriesWork option" where
  "expand_queue mem s = do {
     let size = 2 * queue_size s;
     check (size < 2 ^ 31);
     let q = take (nat size) (mem @ replicate (nat size) NULL_TASK);
     (i, q) \<leftarrow> expand_loop (queue s) (queue_size s) (qback s) 0 (qfront s) q;
     Some (s\<lparr>queue := q, queue_size := size, qfront := 0, qback := i\<rparr>) }"

definition push_front :: "task list \<Rightarrow> task \<Rightarrow> SeriesWork \<Rightarrow> SeriesWork option" where
  "push_front mem task s = do {
     check (\<not> freed s);
     let s = s\<lparr>qfront := qfront s - 1\<rparr>;
     let s = (if qfront s = -1 then s\<lparr>qfront := queue_size s - 1\<rparr> else s);
     let s = s\<lparr>pointer := (pointer s)(task := self s)\<rparr>;
     q \<leftarrow> arr_set (queue s) (qfront s) task;
     let s = s\<lparr>queue := q\<rparr>;
     if qfront s = qback s then expand_queue mem s else Some s }"

definition push_back :: "task list \<Rightarrow> task \<Rightarrow> SeriesWork \<Rightarrow> SeriesWork option" where
  "push_back mem task s = do {
     check (\<not> freed s);
     let s = s\<lparr>pointer := (pointer s)(task := self s)\<rparr>;
     q \<leftarrow> arr_set (queue s) (qback s) task;
     let s = s\<lparr>queue := q, qback := qback s + 1\<rparr>;
     let s = (if qback s = queue_size s then s\<lparr>qback := 0\<rparr> else s);
     if qfront s = qback s then expand_queue mem s else Some s }"

text \<open>What \<^verbatim>\<open>pop_task\<close> does once there is no task left.\<close>

definition series_finish :: "SeriesWork \<Rightarrow> SeriesWork" where
  "series_finish s =
     (let s = (if has_callback s then s\<lparr>callbacks := callbacks s + 1\<rparr> else s)
      in if \<not> in_parallel s then s\<lparr>freed := True\<rparr> else s)"

definition pop_task :: "SeriesWork \<Rightarrow> (task \<times> SeriesWork) option" where
  "pop_task s = do {
     check (\<not> freed s);
     (task, s) \<leftarrow> (if qfront s \<noteq> qback s then do {
         task \<leftarrow> arr_get (queue s) (qfront s);
         let s = s\<lparr>qfront := qfront s + 1\<rparr>;
         Some (task, if qfront s = queue_size s then s\<lparr>qfront := 0\<rparr> else s) }
       else Some (last_task s, s\<lparr>last_task := NULL_TASK\<rparr>));
     Some (task, if task = NULL_TASK then series_finish s else s) }"

definition delete_task :: "task \<Rightarrow> SeriesWork \<Rightarrow> SeriesWork" where
  "delete_task t s = s\<lparr>deleted_tasks := deleted_tasks s @ [t]\<rparr>"

partial_function (option) drop_tasks :: "task \<Rightarrow> SeriesWork \<Rightarrow> SeriesWork option" where
  "drop_tasks task s = (if task \<noteq> NULL_TASK then do {
       let s = delete_task task s;
       (task, s) \<leftarrow> pop_task s;
       drop_tasks task s }
     else Some s)"

definition pop :: "SeriesWork \<Rightarrow> (task \<times> SeriesWork) option" where
  "pop s = do {
     let canc = canceled s;
     (task, s) \<leftarrow> pop_task s;
     if \<not> canc then Some (task, s)
     else do { s \<leftarrow> drop_tasks task s; Some (NULL_TASK, s) } }"

partial_function (option) dismiss_loop :: "task \<Rightarrow> SeriesWork \<Rightarrow> SeriesWork option" where
  "dismiss_loop task s = do {
     let s = delete_task task s;
     (task, s) \<leftarrow> pop_task s;
     if task \<noteq> NULL_TASK then dismiss_loop task s else Some s }"

definition dismiss_recursive :: "SeriesWork \<Rightarrow> SeriesWork option" where
  "dismiss_recursive s = dismiss_loop (first_task s) (s\<lparr>in_parallel := False, has_callback := False\<rparr>)"

definition dismiss :: "SeriesWork \<Rightarrow> SeriesWork option" where
  "dismiss s = do { check (\<not> in_parallel s); dismiss_recursive s }"

subsection \<open>The ring buffer as a list\<close>

definition span :: "nat \<Rightarrow> nat \<Rightarrow> nat \<Rightarrow> nat" where
  "span n f b = (if f \<le> b then b - f else b + n - f)"

definition ring :: "'a list \<Rightarrow> nat \<Rightarrow> nat \<Rightarrow> 'a list" where
  "ring q f k = map (\<lambda>i. q ! ((f + i) mod length q)) [0 ..< k]"

lemma length_ring [simp]: "length (ring q f k) = k"
  by (simp add: ring_def)

lemma ring_Suc: "ring q f (Suc k) = ring q f k @ [q ! ((f + k) mod length q)]"
  by (simp add: ring_def)

lemma ring_Cons: "f < length q \<Longrightarrow> ring q f (Suc k) = q ! f # ring q (Suc f mod length q) k"
  by (simp add: ring_def upt_conv_Cons map_Suc_upt [symmetric] comp_def mod_simps del: upt_Suc)

lemma ring_update:
  assumes "p < length q" and "\<And>i. i < k \<Longrightarrow> (f + i) mod length q \<noteq> p"
  shows "ring (q[p := x]) f k = ring q f k"
proof -
  have "q[p := x] ! ((f + i) mod length q) = q ! ((f + i) mod length q)" if "i < k" for i
    using assms(2) [OF that] by simp
  then show ?thesis by (simp add: ring_def)
qed

lemma mod_shift: "f < n \<Longrightarrow> i < n \<Longrightarrow> (f + i) mod n = (if f + i < n then f + i else f + i - n)" for f i n :: nat
  by (auto simp: le_mod_geq)

definition items :: "SeriesWork \<Rightarrow> task list" where
  "items s = ring (queue s) (nat (qfront s)) (span (length (queue s)) (nat (qfront s)) (nat (qback s)))"

definition series_inv :: "SeriesWork \<Rightarrow> bool" where
  "series_inv s \<longleftrightarrow> \<not> freed s \<and> queue_size s = int (length (queue s)) \<and> 2 \<le> length (queue s)
     \<and> 0 \<le> qfront s \<and> qfront s < queue_size s \<and> 0 \<le> qback s \<and> qback s < queue_size s"

lemma series_inv_nat:
  assumes "series_inv s"
  obtains f b n where "qfront s = int f" "qback s = int b" "length (queue s) = n" "queue_size s = int n"
    "f < n" "b < n" "2 \<le> n" "\<not> freed s"
proof -
  obtain f b where "qfront s = int f" "qback s = int b"
    using assms unfolding series_inv_def by (metis nonneg_int_cases)
  then show ?thesis using that assms by (auto simp: series_inv_def)
qed

lemma expand_loop_run:
  assumes "f < length q" and "length q + length junk = length dst" and "i \<le> length q"
  shows "i < length q \<Longrightarrow> k = length q - i \<Longrightarrow> take i dst = ring q f i \<Longrightarrow>
    \<exists>q'. expand_loop q (int (length q)) (int f) (int i) (int ((f + i) mod length q)) dst = Some (int (length q), q')
      \<and> length q' = length dst \<and> take (length q) q' = ring q f (length q)"
  using assms(2,3)
proof (induction k arbitrary: i dst)
  case (Suc k)
  let ?n = "length q" and ?j = "(f + i) mod length q"
  have jn: "?j < ?n" by (rule mod_less_divisor) (use assms(1) in linarith)
  let ?d = "dst[i := q ! ?j]"
  have t: "take (Suc i) ?d = ring q f (Suc i)"
    using Suc.prems by (simp add: take_Suc_conv_app_nth ring_Suc)
  have j': "(if int ?j + 1 = int ?n then 0 else int ?j + 1) = int ((f + Suc i) mod ?n)"
    using jn by (auto simp: mod_Suc)
  have step: "expand_loop q (int ?n) (int f) (int i) (int ?j) dst =
      (if (f + Suc i) mod ?n \<noteq> f then expand_loop q (int ?n) (int f) (int (Suc i)) (int ((f + Suc i) mod ?n)) ?d
       else Some (int (Suc i), ?d))"
  proof -
    have g: "arr_get q (int ?j) = Some (q ! ?j)" "arr_set dst (int i) (q ! ?j) = Some ?d"
      using Suc.prems(1,4) jn by (simp_all add: arr_get_def arr_set_def)
    have i': "int i + 1 = int (Suc i)" by simp
    show ?thesis
      by (subst expand_loop.simps) (simp only: g Option.bind.simps(2) Let_def j' i' of_nat_eq_iff)
  qed
  show ?case
  proof (cases "Suc i = ?n")
    case True
    then have "(f + Suc i) mod ?n = f" using assms(1) by simp
    then show ?thesis using step True t by auto
  next
    case False
    then have lt: "Suc i < ?n" using Suc.prems(1) by simp
    then have "(f + Suc i) mod ?n \<noteq> f" using mod_shift [OF assms(1) lt] assms(1) by (auto split: if_splits)
    then show ?thesis using step Suc.IH [OF lt _ t] Suc.prems lt by auto
  qed
qed simp

lemma expand_queue_inv:
  assumes "\<not> freed s" and "qfront s = int f" and "qback s = int f" and "length (queue s) = n"
    and "queue_size s = int n" and "f < n" and "2 \<le> n" and "n < 2 ^ 30"
  shows "\<exists>s'. expand_queue mem s = Some s' \<and> series_inv s' \<and> items s' = ring (queue s) f n
    \<and> length (queue s') = 2 * n
    \<and> s' = s\<lparr>queue := queue s', queue_size := queue_size s', qfront := qfront s', qback := qback s'\<rparr>"
proof -
  let ?q = "take (nat (2 * int n)) (mem @ replicate (nat (2 * int n)) NULL_TASK)"
  have len: "length ?q = 2 * n" by (simp add: nat_mult_distrib)
  have "\<exists>q'. expand_loop (queue s) (int (length (queue s))) (int f) (int 0) (int ((f + 0) mod length (queue s))) ?q
      = Some (int (length (queue s)), q') \<and> length q' = length ?q \<and> take (length (queue s)) q' = ring (queue s) f (length (queue s))"
    by (rule expand_loop_run [where junk = "replicate n NULL_TASK"]) (use assms len in \<open>simp_all add: ring_def\<close>)
  then obtain q' where q': "expand_loop (queue s) (int n) (int f) 0 (int f) ?q = Some (int n, q')"
    "length q' = 2 * n" "take n q' = ring (queue s) f n"
    using assms(4,6) len by auto
  let ?s = "s\<lparr>queue := q', queue_size := 2 * int n, qfront := 0, qback := int n\<rparr>"
  have run: "expand_queue mem s = Some ?s"
    using assms q'(1) by (simp add: expand_queue_def Let_def)
  have "ring q' 0 n = take n q'"
    using q'(2) assms(7) by (intro nth_equalityI) (simp_all add: ring_def)
  then have "items ?s = ring (queue s) f n" by (simp add: items_def span_def q'(3))
  moreover have "series_inv ?s" using assms q'(2) by (simp add: series_inv_def)
  ultimately show ?thesis using run q'(2) by (intro exI [of _ ?s]) simp
qed

text \<open>What a push or a pop leaves alone.\<close>

definition same_series :: "SeriesWork \<Rightarrow> SeriesWork \<Rightarrow> bool" where
  "same_series s s' \<longleftrightarrow> self s' = self s \<and> first_task s' = first_task s \<and> last_task s' = last_task s
     \<and> in_parallel s' = in_parallel s \<and> canceled s' = canceled s \<and> has_callback s' = has_callback s
     \<and> deleted_tasks s' = deleted_tasks s \<and> callbacks s' = callbacks s \<and> dispatched s' = dispatched s"

lemma push_back_inv:
  assumes inv: "series_inv s" and small: "length (queue s) < 2 ^ 30"
  shows "\<exists>s'. push_back mem t s = Some s' \<and> series_inv s' \<and> items s' = items s @ [t] \<and> same_series s s'
    \<and> pointer s' = (pointer s)(t := self s) \<and> length (queue s') \<le> max (length (queue s)) (2 * length (items s'))"
proof -
  obtain f b n where v: "qfront s = int f" "qback s = int b" "length (queue s) = n" "queue_size s = int n"
    "f < n" "b < n" "2 \<le> n" "\<not> freed s" using series_inv_nat [OF inv] .
  define b' where "b' = Suc b mod n"
  have b'n: "b' < n" using v(5) by (simp add: b'_def)
  define s1 where "s1 = s\<lparr>pointer := (pointer s)(t := self s), queue := (queue s)[b := t], qback := int b'\<rparr>"
  let ?k = "span n f b"
  have k: "?k < n" "(f + ?k) mod n = b" using v(5,6) by (auto simp: span_def)
  have run: "push_back mem t s = (if f = b' then expand_queue mem s1 else Some s1)"
  proof -
    have e: "(if int b + 1 = int n then 0 else int b + 1) = int b'" using v(6) by (auto simp: b'_def mod_Suc)
    show ?thesis
      using v(6) e by (auto simp: push_back_def v(1-4,8) arr_set_def Let_def s1_def nat_add_distrib split: if_splits)
  qed
  have "ring (queue s1) f ?k = ring (queue s) f ?k"
    unfolding s1_def using v(3,5,6) by (simp, intro ring_update) (auto simp: span_def mod_shift split: if_splits)
  then have r: "ring (queue s1) f (Suc ?k) = items s @ [t]"
    using k v by (simp add: ring_Suc items_def s1_def)
  show ?thesis
  proof (cases "f = b'")
    case False
    then have "span n f b' = Suc ?k" using v(5,6) by (auto simp: span_def b'_def mod_Suc split: if_splits)
    then have "items s1 = items s @ [t]" using r v by (simp add: items_def s1_def)
    moreover have "series_inv s1" using inv v b'n by (simp add: series_inv_def s1_def)
    ultimately show ?thesis using False run by (auto simp: s1_def same_series_def)
  next
    case True
    then have kn: "Suc ?k = n" using v(5,6) by (auto simp: span_def b'_def mod_Suc split: if_splits)
    from expand_queue_inv [of s1 f n mem] v True small
    obtain s' where s': "expand_queue mem s1 = Some s'" "series_inv s'" "items s' = ring (queue s1) f n"
      and len: "length (queue s') = 2 * n" and s'4: "s' = s1\<lparr>queue := queue s', queue_size := queue_size s', qfront := qfront s', qback := qback s'\<rparr>"
      by (auto simp: s1_def)
    have "same_series s s'" "pointer s' = (pointer s)(t := self s)"
      by (subst s'4, simp add: s1_def same_series_def)+
    moreover have "length (queue s') \<le> max (length (queue s)) (2 * length (items s'))" using s'(3) len by simp
    moreover have "items s' = items s @ [t]" using s'(3) r kn by simp
    ultimately show ?thesis using True run s'(1,2) by auto
  qed
qed

lemma push_front_inv:
  assumes inv: "series_inv s" and small: "length (queue s) < 2 ^ 30"
  shows "\<exists>s'. push_front mem t s = Some s' \<and> series_inv s' \<and> items s' = t # items s \<and> same_series s s'
    \<and> pointer s' = (pointer s)(t := self s) \<and> length (queue s') \<le> max (length (queue s)) (2 * length (items s'))"
proof -
  obtain f b n where v: "qfront s = int f" "qback s = int b" "length (queue s) = n" "queue_size s = int n"
    "f < n" "b < n" "2 \<le> n" "\<not> freed s" using series_inv_nat [OF inv] .
  define f' where "f' = (if f = 0 then n - 1 else f - 1)"
  have f'n: "f' < n" "Suc f' mod n = f" using v(5) by (auto simp: f'_def)
  define s1 where "s1 = s\<lparr>qfront := int f', pointer := (pointer s)(t := self s), queue := (queue s)[f' := t]\<rparr>"
  let ?k = "span n f b"
  have run: "push_front mem t s = (if f' = b then expand_queue mem s1 else Some s1)"
  proof -
    have e: "(if int f - 1 = - 1 then int n - 1 else int f - 1) = int f'" using v(5) by (auto simp: f'_def)
    show ?thesis
      using f'n(1) e by (auto simp: push_front_def v(1-4,8) arr_set_def Let_def s1_def split: if_splits)
  qed
  have "ring (queue s1) f ?k = ring (queue s) f ?k"
    unfolding s1_def using v(3,5,6,7) f'n by (simp, intro ring_update) (auto simp: span_def mod_shift f'_def split: if_splits)
  then have r: "ring (queue s1) f' (Suc ?k) = t # items s"
    using f'n v by (simp add: ring_Cons items_def s1_def)
  show ?thesis
  proof (cases "f' = b")
    case False
    then have "span n f' b = Suc ?k" using v(5,6) by (auto simp: span_def f'_def split: if_splits)
    then have "items s1 = t # items s" using r v by (simp add: items_def s1_def)
    moreover have "series_inv s1" using inv v f'n by (simp add: series_inv_def s1_def)
    ultimately show ?thesis using False run by (auto simp: s1_def same_series_def)
  next
    case True
    then have kn: "Suc ?k = n" using v(5,6) by (auto simp: span_def f'_def split: if_splits)
    from expand_queue_inv [of s1 f' n mem] v True small f'n
    obtain s' where s': "expand_queue mem s1 = Some s'" "series_inv s'" "items s' = ring (queue s1) f' n"
      and len: "length (queue s') = 2 * n" and s'4: "s' = s1\<lparr>queue := queue s', queue_size := queue_size s', qfront := qfront s', qback := qback s'\<rparr>"
      by (auto simp: s1_def)
    have "same_series s s'" "pointer s' = (pointer s)(t := self s)"
      by (subst s'4, simp add: s1_def same_series_def)+
    moreover have "length (queue s') \<le> max (length (queue s)) (2 * length (items s'))" using s'(3) len by simp
    moreover have "items s' = t # items s" using s'(3) r kn by simp
    ultimately show ?thesis using True run s'(1,2) by auto
  qed
qed

lemma pop_task_items:
  assumes inv: "series_inv s" and ne: "items s \<noteq> []"
  shows "\<exists>s'. pop_task s = Some (hd (items s), if hd (items s) = NULL_TASK then series_finish s' else s')
    \<and> series_inv s' \<and> items s' = tl (items s) \<and> same_series s s' \<and> pointer s' = pointer s \<and> length (queue s') = length (queue s)"
proof -
  obtain f b n where v: "qfront s = int f" "qback s = int b" "length (queue s) = n" "queue_size s = int n"
    "f < n" "b < n" "2 \<le> n" "\<not> freed s" using series_inv_nat [OF inv] .
  define f' where "f' = Suc f mod n"
  have f'n: "f' < n" using v(5) by (simp add: f'_def)
  have fb: "f \<noteq> b" using ne by (auto simp: items_def v span_def ring_def)
  then have k: "span n f b = Suc (span n f' b)"
    using v(5,6) by (auto simp: span_def f'_def mod_Suc split: if_splits)
  then have it: "items s = queue s ! f # ring (queue s) f' (span n f' b)"
    using v by (simp add: items_def ring_Cons f'_def)
  let ?s = "s\<lparr>qfront := int f'\<rparr>"
  have "(if int f + 1 = int n then 0 else int f + 1) = int f'" using v(5) by (auto simp: f'_def mod_Suc)
  then have run: "pop_task s = Some (queue s ! f, if queue s ! f = NULL_TASK then series_finish ?s else ?s)"
    using v(5) fb by (auto simp: pop_task_def v(1-4,8) arr_get_def Let_def split: if_splits)
  moreover have "series_inv ?s" using inv f'n v by (simp add: series_inv_def)
  moreover have "items ?s = tl (items s)" using v by (simp add: it) (simp add: items_def)
  ultimately show ?thesis by (intro exI [of _ ?s]) (simp add: it same_series_def)
qed

lemma pop_task_empty:
  assumes "series_inv s" and "items s = []"
  shows "pop_task s = Some (last_task s,
     if last_task s = NULL_TASK then series_finish (s\<lparr>last_task := NULL_TASK\<rparr>) else s\<lparr>last_task := NULL_TASK\<rparr>)"
proof -
  obtain f b n where v: "qfront s = int f" "qback s = int b" "length (queue s) = n" "queue_size s = int n"
    "f < n" "b < n" "2 \<le> n" "\<not> freed s" using series_inv_nat [OF assms(1)] .
  have "span n f b = 0" using assms(2) v by (simp add: items_def ring_def)
  then have "f = b" using v(5,6) by (auto simp: span_def split: if_splits)
  then show ?thesis by (simp add: pop_task_def v)
qed

text \<open>All tasks a series still has to run: the queued ones and the last one.\<close>

definition pending :: "SeriesWork \<Rightarrow> task list" where
  "pending s = items s @ (if last_task s = NULL_TASK then [] else [last_task s])"

definition tasks_ok :: "SeriesWork \<Rightarrow> bool" where
  "tasks_ok s \<longleftrightarrow> series_inv s \<and> NULL_TASK \<notin> set (items s)"

lemma pop_task_pending:
  assumes "tasks_ok s" and "pending s = t # ts"
  shows "\<exists>s'. pop_task s = Some (t, s') \<and> tasks_ok s' \<and> pending s' = ts \<and> t \<noteq> NULL_TASK
    \<and> in_parallel s' = in_parallel s \<and> has_callback s' = has_callback s \<and> deleted_tasks s' = deleted_tasks s
    \<and> callbacks s' = callbacks s \<and> canceled s' = canceled s"
proof (cases "items s = []")
  case True
  then have t: "last_task s = t" "t \<noteq> NULL_TASK" "ts = []"
    using assms(2) by (auto simp: pending_def split: if_splits)
  have "pop_task s = Some (t, s\<lparr>last_task := NULL_TASK\<rparr>)"
    using pop_task_empty [of s] assms(1) True t by (simp add: tasks_ok_def)
  moreover have "items (s\<lparr>last_task := NULL_TASK\<rparr>) = []" using True by (simp add: items_def)
  ultimately show ?thesis using assms(1) t by (auto simp: tasks_ok_def series_inv_def pending_def)
next
  case False
  then obtain us where us: "items s = t # us" using assms(2) by (cases "items s") (auto simp: pending_def)
  then have t: "hd (items s) = t" "t \<noteq> NULL_TASK" using assms(1) by (auto simp: tasks_ok_def)
  obtain s' where s': "pop_task s = Some (t, s')" "series_inv s'" "items s' = tl (items s)" "same_series s s'"
    using pop_task_items [of s] False assms(1) t by (auto simp: tasks_ok_def)
  have "tasks_ok s'" using s' assms(1) False by (auto simp: tasks_ok_def dest: list.set_sel(2))
  moreover have "pending s' = ts" using s'(3,4) assms(2) False by (cases "items s") (auto simp: pending_def same_series_def)
  ultimately show ?thesis using s' t(2) by (auto simp: same_series_def)
qed

lemma pop_task_done:
  assumes "tasks_ok s" and "pending s = []"
  shows "pop_task s = Some (NULL_TASK, series_finish (s\<lparr>last_task := NULL_TASK\<rparr>))"
  using pop_task_empty [of s] assms by (auto simp: tasks_ok_def pending_def split: if_splits)

lemma series_finish_fields:
  "callbacks (series_finish s) = (if has_callback s then callbacks s + 1 else callbacks s)"
  "freed (series_finish s) = (freed s \<or> \<not> in_parallel s)"
  "deleted_tasks (series_finish s) = deleted_tasks s"
  by (auto simp: series_finish_def Let_def)

lemma delete_task_fields [simp]:
  "items (delete_task t s) = items s" "series_inv (delete_task t s) = series_inv s"
  "pending (delete_task t s) = pending s" "tasks_ok (delete_task t s) = tasks_ok s"
  by (simp_all add: items_def series_inv_def pending_def tasks_ok_def delete_task_def)

text \<open>Deleting the popped task and everything still pending.\<close>

lemma drop_tasks_run:
  "tasks_ok s \<Longrightarrow> pending s = ts \<Longrightarrow> t \<noteq> NULL_TASK \<Longrightarrow>
   \<exists>s'. drop_tasks t s = Some s' \<and> dismiss_loop t s = Some s' \<and> deleted_tasks s' = deleted_tasks s @ t # ts
     \<and> callbacks s' = callbacks s + of_bool (has_callback s) \<and> freed s' = (\<not> in_parallel s)"
proof (induction ts arbitrary: s t)
  case Nil
  let ?s = "delete_task t s"
  have ok: "tasks_ok ?s" "pending ?s = []"
    using Nil.prems by simp_all
  let ?e = "series_finish (?s\<lparr>last_task := NULL_TASK\<rparr>)"
  have "drop_tasks NULL_TASK ?e = Some ?e" by (subst drop_tasks.simps) simp
  then have "drop_tasks t s = Some ?e"
    using Nil.prems(3) by (subst drop_tasks.simps) (simp add: pop_task_done [OF ok])
  moreover have "dismiss_loop t s = Some ?e" by (subst dismiss_loop.simps) (simp add: pop_task_done [OF ok])
  moreover have "\<not> freed s" using Nil.prems(1) by (simp add: tasks_ok_def series_inv_def)
  ultimately show ?case by (auto simp: series_finish_fields delete_task_def)
next
  case (Cons u us)
  let ?s = "delete_task t s"
  have ok: "tasks_ok ?s" "pending ?s = u # us"
    using Cons.prems by simp_all
  obtain s1 where s1: "pop_task ?s = Some (u, s1)" "tasks_ok s1" "pending s1 = us" "u \<noteq> NULL_TASK"
    "in_parallel s1 = in_parallel s" "has_callback s1 = has_callback s"
    "deleted_tasks s1 = deleted_tasks s @ [t]" "callbacks s1 = callbacks s"
    using pop_task_pending [OF ok] by (auto simp: delete_task_def)
  obtain s' where s': "drop_tasks u s1 = Some s'" "dismiss_loop u s1 = Some s'" "deleted_tasks s' = deleted_tasks s1 @ u # us"
    "callbacks s' = callbacks s1 + of_bool (has_callback s1)" "freed s' = (\<not> in_parallel s1)"
    using Cons.IH [OF s1(2,3,4)] by blast
  have "drop_tasks t s = Some s'" "dismiss_loop t s = Some s'"
    using Cons.prems(3) s'(1,2) s1(1,4) by (subst drop_tasks.simps dismiss_loop.simps, simp add: Let_def)+
  then show ?case using s'(3-5) s1 by auto
qed

subsection \<open>The interface of the queue\<close>

datatype 'a deque_op = PushFront 'a | PushBack 'a | PopFront

text \<open>The reference: what the operations do to a plain list, and the tasks they return.\<close>

fun list_run :: "'a deque_op list \<Rightarrow> 'a list \<Rightarrow> ('a list \<times> 'a list) option" where
  "list_run [] l = Some ([], l)"
| "list_run (PushFront x # ops) l = list_run ops (x # l)"
| "list_run (PushBack x # ops) l = list_run ops (l @ [x])"
| "list_run (PopFront # ops) [] = None"
| "list_run (PopFront # ops) (x # l) = map_option (apfst ((#) x)) (list_run ops l)"

locale bounded_deque =
  fixes inv :: "'s \<Rightarrow> bool"
    and elems :: "'s \<Rightarrow> 'a list"
    and cap :: "'s \<Rightarrow> nat"
    and limit :: nat
    and ok :: "'a \<Rightarrow> bool"
    and pushf :: "'a \<Rightarrow> 's \<Rightarrow> 's option"
    and pushb :: "'a \<Rightarrow> 's \<Rightarrow> 's option"
    and popf :: "'s \<Rightarrow> ('a \<times> 's) option"
  assumes pushf: "inv s \<Longrightarrow> cap s < limit \<Longrightarrow> ok x \<Longrightarrow> \<exists>s'. pushf x s = Some s' \<and> inv s'
      \<and> elems s' = x # elems s \<and> cap s' \<le> max (cap s) (2 * length (elems s'))"
    and pushb: "inv s \<Longrightarrow> cap s < limit \<Longrightarrow> ok x \<Longrightarrow> \<exists>s'. pushb x s = Some s' \<and> inv s'
      \<and> elems s' = elems s @ [x] \<and> cap s' \<le> max (cap s) (2 * length (elems s'))"
    and popf: "inv s \<Longrightarrow> elems s = x # xs \<Longrightarrow> \<exists>s'. popf s = Some (x, s') \<and> inv s' \<and> elems s' = xs \<and> cap s' \<le> cap s"
begin

fun exec :: "'a deque_op list \<Rightarrow> 's \<Rightarrow> ('a list \<times> 's) option" where
  "exec [] s = Some ([], s)"
| "exec (PushFront x # ops) s = do { s \<leftarrow> pushf x s; exec ops s }"
| "exec (PushBack x # ops) s = do { s \<leftarrow> pushb x s; exec ops s }"
| "exec (PopFront # ops) s = do { (x, s) \<leftarrow> popf s; (xs, s) \<leftarrow> exec ops s; Some (x # xs, s) }"

text \<open>Any sequence of calls behaves like the plain list.\<close>

lemma exec_refines:
  "inv s \<Longrightarrow> list_run ops (elems s) = Some (outs, l) \<Longrightarrow> \<forall>x. PushFront x \<in> set ops \<or> PushBack x \<in> set ops \<longrightarrow> ok x
   \<Longrightarrow> max (cap s) (2 * (length (elems s) + length ops)) < limit
   \<Longrightarrow> \<exists>s'. exec ops s = Some (outs, s') \<and> inv s' \<and> elems s' = l"
proof (induction ops arbitrary: s outs)
  case (Cons opn ops)
  show ?case
  proof (cases opn)
    case (PushFront x)
    then obtain s1 where s1: "pushf x s = Some s1" "inv s1" "elems s1 = x # elems s"
      "cap s1 \<le> max (cap s) (2 * length (elems s1))" using pushf [of s x] Cons.prems by auto
    have "max (cap s1) (2 * (length (elems s1) + length ops)) < limit" using Cons.prems(4) s1(3,4) by auto
    then show ?thesis using Cons.IH [OF s1(2), of outs] Cons.prems(2,3) PushFront s1(1,3) by simp
  next
    case (PushBack x)
    then obtain s1 where s1: "pushb x s = Some s1" "inv s1" "elems s1 = elems s @ [x]"
      "cap s1 \<le> max (cap s) (2 * length (elems s1))" using pushb [of s x] Cons.prems by auto
    have "max (cap s1) (2 * (length (elems s1) + length ops)) < limit" using Cons.prems(4) s1(3,4) by auto
    then show ?thesis using Cons.IH [OF s1(2), of outs] Cons.prems(2,3) PushBack s1(1,3) by simp
  next
    case PopFront
    with Cons.prems(2) obtain x xs outs' where x: "elems s = x # xs" "list_run ops xs = Some (outs', l)" "outs = x # outs'"
      by (cases "elems s") auto
    obtain s1 where s1: "popf s = Some (x, s1)" "inv s1" "elems s1 = xs" "cap s1 \<le> cap s"
      using popf [OF Cons.prems(1) x(1)] by blast
    have "max (cap s1) (2 * (length (elems s1) + length ops)) < limit" using Cons.prems(4) s1(3,4) x(1) by auto
    then show ?thesis using Cons.IH [OF s1(2), of outs'] Cons.prems(3) PopFront s1(1,3) x(2,3) by auto
  qed
qed simp

end

interpretation series_queue: bounded_deque tasks_ok items "\<lambda>s. length (queue s)" "2 ^ 30" "\<lambda>t. t \<noteq> NULL_TASK"
    "push_front []" "push_back []" pop_task
proof
  fix s x xs
  show "tasks_ok s \<Longrightarrow> length (queue s) < 2 ^ 30 \<Longrightarrow> x \<noteq> NULL_TASK \<Longrightarrow> \<exists>s'. push_front [] x s = Some s' \<and> tasks_ok s'
      \<and> items s' = x # items s \<and> length (queue s') \<le> max (length (queue s)) (2 * length (items s'))"
    using push_front_inv [of s "[]" x] by (auto simp: tasks_ok_def)
  show "tasks_ok s \<Longrightarrow> length (queue s) < 2 ^ 30 \<Longrightarrow> x \<noteq> NULL_TASK \<Longrightarrow> \<exists>s'. push_back [] x s = Some s' \<and> tasks_ok s'
      \<and> items s' = items s @ [x] \<and> length (queue s') \<le> max (length (queue s)) (2 * length (items s'))"
    using push_back_inv [of s "[]" x] by (auto simp: tasks_ok_def)
  show "\<exists>s'. pop_task s = Some (x, s') \<and> tasks_ok s' \<and> items s' = xs \<and> length (queue s') \<le> length (queue s)"
    if "tasks_ok s" "items s = x # xs"
    using pop_task_items [of s] that by (auto simp: tasks_ok_def)
qed

lemma series_init_ok: "length mem = 4 \<Longrightarrow> tasks_ok (series_init this mem ptr first cb) \<and> items (series_init this mem ptr first cb) = []"
  by (simp add: tasks_ok_def series_inv_def series_init_def items_def span_def ring_def)

subsection \<open>Completion of tasks\<close>

text \<open>
  The fields of the task objects that \<^verbatim>\<open>kernel/SubTask.cc\<close> uses. An entry pointer is a pair of a
  parallel task and an index into its \<^verbatim>\<open>subtasks\<close> array, \<open>slots\<close>; \<open>nleft\<close> is a 64-bit unsigned
  counter. The virtual functions \<^verbatim>\<open>done\<close> and \<^verbatim>\<open>dispatch\<close> of the task classes are arguments;
  \<open>done_log\<close> records the calls of \<^verbatim>\<open>done\<close>.
\<close>

record task_heap =
  parent :: "task \<Rightarrow> task"
  entry :: "task \<Rightarrow> task \<times> nat"
  slots :: "task \<Rightarrow> nat \<Rightarrow> task"
  subtasks_nr :: "task \<Rightarrow> nat"
  nleft :: "task \<Rightarrow> nat"
  done_log :: "task list"

type_synonym done_fun = "task \<Rightarrow> task_heap \<Rightarrow> task \<times> task_heap"
type_synonym dispatch_fun = "task \<Rightarrow> task_heap \<Rightarrow> task_heap option"

text \<open>\<^verbatim>\<open>__sync_sub_and_fetch(&parent->nleft, 1)\<close>\<close>

definition sub_and_fetch :: "task \<Rightarrow> task_heap \<Rightarrow> nat \<times> task_heap" where
  "sub_and_fetch p h = (let n = (nleft h p + (2 ^ 64 - 1)) mod 2 ^ 64 in (n, h\<lparr>nleft := (nleft h)(p := n)\<rparr>))"

text \<open>What a successor \<open>nxt\<close> inherits from the subtask it follows.\<close>

definition hand_over :: "task \<Rightarrow> task \<times> nat \<Rightarrow> task \<Rightarrow> task_heap \<Rightarrow> task_heap" where
  "hand_over p e nxt h =
     (let h = h\<lparr>parent := (parent h)(nxt := p), entry := (entry h)(nxt := e)\<rparr>
      in if p \<noteq> NULL_TASK then h\<lparr>slots := (slots h)(fst e := (slots h (fst e))(snd e := p))\<rparr> else h)"

partial_function (option) subtask_done :: "done_fun \<Rightarrow> dispatch_fun \<Rightarrow> task \<Rightarrow> task_heap \<Rightarrow> task_heap option" where
  "subtask_done dn disp cur h =
     (let p = parent h cur; e = entry h cur;
          (nxt, h) = dn cur (h\<lparr>done_log := done_log h @ [cur]\<rparr>) in
      if nxt \<noteq> NULL_TASK then disp nxt (hand_over p e nxt h)
      else if p \<noteq> NULL_TASK then
        (let (n, h) = sub_and_fetch p h in if n = 0 then subtask_done dn disp p h else Some h)
      else Some h)"

fun dispatch_loop :: "dispatch_fun \<Rightarrow> task \<Rightarrow> nat \<Rightarrow> nat \<Rightarrow> task_heap \<Rightarrow> task_heap option" where
  "dispatch_loop disp this p 0 h = Some h"
| "dispatch_loop disp this p (Suc k) h =
     (let t = slots h this p;
          h = h\<lparr>parent := (parent h)(t := this), entry := (entry h)(t := (this, p))\<rparr>
      in do { h \<leftarrow> disp t h; dispatch_loop disp this (Suc p) k h })"

definition parallel_dispatch :: "done_fun \<Rightarrow> dispatch_fun \<Rightarrow> task \<Rightarrow> task_heap \<Rightarrow> task_heap option" where
  "parallel_dispatch dn disp this h =
     (let h = h\<lparr>nleft := (nleft h)(this := subtasks_nr h this)\<rparr> in
      if nleft h this \<noteq> 0 then dispatch_loop disp this 0 (subtasks_nr h this) h
      else subtask_done dn disp this h)"

lemma sub_and_fetch_eq: "0 < nleft h p \<Longrightarrow> nleft h p < 2 ^ 64 \<Longrightarrow> sub_and_fetch p h = (nleft h p - 1, h\<lparr>nleft := (nleft h)(p := nleft h p - 1)\<rparr>)"
proof -
  assume a: "0 < nleft h p" "nleft h p < 2 ^ 64"
  then have "nleft h p + (2 ^ 64 - 1) = (nleft h p - 1) + 2 ^ 64" by simp
  then have "(nleft h p + (2 ^ 64 - 1)) mod 2 ^ 64 = nleft h p - 1" using a(2) by (simp only: mod_add_self2) simp
  then show ?thesis by (simp add: sub_and_fetch_def Let_def)
qed

subsection \<open>The join of a parallel task\<close>

text \<open>What a step that is no completion of a strand may do to the join of \<open>p\<close>: anything that leaves the counter of \<open>p\<close> and the parents of
  the tasks in \<open>A\<close> as they are and does not call the \<^verbatim>\<open>done\<close> of \<open>p\<close>.\<close>

definition keeps :: "task \<Rightarrow> task set \<Rightarrow> task_heap \<Rightarrow> task_heap \<Rightarrow> bool" where
  "keeps p A h h' \<longleftrightarrow> nleft h' p = nleft h p \<and> (\<forall>t \<in> A. parent h' t = parent h t) \<and> count_list (done_log h') p = count_list (done_log h) p"

lemma keeps_refl [simp]: "keeps p A h h"
  by (simp add: keeps_def)

abbreviation log_done :: "task \<Rightarrow> task_heap \<Rightarrow> task_heap" where
  "log_done t h \<equiv> h\<lparr>done_log := done_log h @ [t]\<rparr>"

text \<open>
  The runs of a parallel task \<open>p\<close> from its dispatch on: \<open>k\<close> of its subtasks are still to be dispatched, \<open>as\<close> are the tasks that run as its
  strands; \<open>n\<close> is how often its \<^verbatim>\<open>done\<close> had been called before. The loop of \<^verbatim>\<open>dispatch\<close> links one subtask after the other; a strand
  that completes hands over to the successor its \<^verbatim>\<open>done\<close> returned, or ends while others are left; in between, everything else may happen:
  other tasks and other parallel works run, and the \<^verbatim>\<open>done\<close> of a strand may do the same.
\<close>

inductive join_run :: "done_fun \<Rightarrow> task \<Rightarrow> nat \<Rightarrow> nat \<Rightarrow> task list \<Rightarrow> task_heap \<Rightarrow> bool" for dn p n where
  start: "p \<noteq> NULL_TASK \<Longrightarrow> 0 < subtasks_nr h p \<Longrightarrow> subtasks_nr h p < 2 ^ 64 \<Longrightarrow> count_list (done_log h) p = n \<Longrightarrow>
    join_run dn p n (subtasks_nr h p) [] (h\<lparr>nleft := (nleft h)(p := subtasks_nr h p)\<rparr>)"
| link: "join_run dn p n (Suc k) as h \<Longrightarrow> t \<noteq> p \<Longrightarrow> t \<notin> set as \<Longrightarrow>
    join_run dn p n k (t # as) (h\<lparr>parent := (parent h)(t := p), entry := (entry h)(t := e)\<rparr>)"
| other: "join_run dn p n k as h \<Longrightarrow> keeps p (set as) h h' \<Longrightarrow> join_run dn p n k as h'"
| succ: "join_run dn p n k as h \<Longrightarrow> t \<in> set as \<Longrightarrow> dn t (log_done t h) = (s, h1) \<Longrightarrow> keeps p (set as - {t}) (log_done t h) h1 \<Longrightarrow>
    s \<noteq> NULL_TASK \<Longrightarrow> s \<noteq> p \<Longrightarrow> s \<notin> set as - {t} \<Longrightarrow> join_run dn p n k (s # remove1 t as) (hand_over p (entry h t) s h1)"
| end_strand: "join_run dn p n k as h \<Longrightarrow> t \<in> set as \<Longrightarrow> dn t (log_done t h) = (NULL_TASK, h1) \<Longrightarrow> keeps p (set as - {t}) (log_done t h) h1 \<Longrightarrow>
    nleft h1 p \<noteq> 1 \<Longrightarrow> join_run dn p n k (remove1 t as) (snd (sub_and_fetch p h1))"

lemma join_run_inv:
  "join_run dn p n k as h \<Longrightarrow> p \<noteq> NULL_TASK \<and> p \<notin> set as \<and> distinct as \<and> (\<forall>t \<in> set as. parent h t = p) \<and>
     nleft h p = length as + k \<and> 0 < nleft h p \<and> nleft h p < 2 ^ 64 \<and> count_list (done_log h) p = n"
proof (induction rule: join_run.induct)
  case (other k as h h')
  then show ?case by (auto simp: keeps_def)
next
  case (succ k as h t s h1)
  have "t \<noteq> p" using succ by auto
  then have k: "nleft h1 p = nleft h p" "count_list (done_log h1) p = count_list (done_log h) p" "\<forall>x \<in> set as - {t}. parent h1 x = p"
    using succ by (simp_all add: keeps_def count_list_append)
  have "length as = Suc (length (remove1 t as))" using succ(2) by (simp add: length_remove1) (metis Suc_pred length_pos_if_in_set)
  then show ?case using succ k by (auto simp: hand_over_def Let_def set_remove1_eq)
next
  case (end_strand k as h t h1)
  have "t \<noteq> p" using end_strand by auto
  then have k: "nleft h1 p = nleft h p" "count_list (done_log h1) p = count_list (done_log h) p" "\<forall>x \<in> set as - {t}. parent h1 x = p"
    using end_strand by (simp_all add: keeps_def count_list_append)
  have "length as = Suc (length (remove1 t as))" using end_strand(2) by (simp add: length_remove1) (metis Suc_pred length_pos_if_in_set)
  then show ?case using end_strand k by (auto simp: sub_and_fetch_eq set_remove1_eq)
qed simp_all

lemma join_completion:
  assumes run: "join_run dn p n k as h" and t: "t \<in> set as" "dn t (log_done t h) = (s, h1)" and k: "keeps p (set as - {t}) (log_done t h) h1"
  shows "count_list (done_log h1) p = n"
    "subtask_done dn disp t h =
      (if s \<noteq> NULL_TASK then disp s (hand_over p (entry h t) s h1)
       else if length as + k = 1 then subtask_done dn disp p (snd (sub_and_fetch p h1))
       else Some (snd (sub_and_fetch p h1)))"
    "nleft (snd (sub_and_fetch p h1)) p = length as + k - 1"
proof -
  note I = join_run_inv [OF run]
  have "t \<noteq> p" using I t(1) by auto
  then have n: "nleft h1 p = length as + k" and c: "count_list (done_log h1) p = n" using I k by (simp_all add: keeps_def count_list_append)
  show "count_list (done_log h1) p = n" by (rule c)
  have f: "sub_and_fetch p h1 = (length as + k - 1, h1\<lparr>nleft := (nleft h1)(p := length as + k - 1)\<rparr>)"
    using I sub_and_fetch_eq [of h1 p] unfolding n by fastforce
  then show "nleft (snd (sub_and_fetch p h1)) p = length as + k - 1" by simp
  have e: "parent h t = p" "p \<noteq> NULL_TASK" using I t(1) by auto
  obtain m where m: "length as + k = Suc m" using I by (metis gr0_conv_Suc)
  show "subtask_done dn disp t h =
      (if s \<noteq> NULL_TASK then disp s (hand_over p (entry h t) s h1)
       else if length as + k = 1 then subtask_done dn disp p (snd (sub_and_fetch p h1))
       else Some (snd (sub_and_fetch p h1)))"
    unfolding m by (subst subtask_done.simps) (use e t(2) f [unfolded m] in \<open>simp add: Let_def\<close>)
qed

text \<open>A dispatch that starts its task and lets it complete later: the parents and the subtasks of \<open>p\<close> stay as they are.\<close>

definition starts_only :: "task \<Rightarrow> dispatch_fun \<Rightarrow> bool" where
  "starts_only p disp \<longleftrightarrow> (\<forall>t h. \<exists>h'. disp t h = Some h' \<and> keeps p UNIV h h' \<and> slots h' p = slots h p)"

lemma dispatch_loop_join:
  "starts_only p disp \<Longrightarrow> join_run dn p n k as h \<Longrightarrow> distinct (map (slots h p) [i ..< i + k]) \<Longrightarrow>
   \<forall>j. i \<le> j \<and> j < i + k \<longrightarrow> slots h p j \<noteq> p \<and> slots h p j \<notin> set as \<Longrightarrow>
   \<exists>h'. dispatch_loop disp p i k h = Some h' \<and> join_run dn p n 0 (rev (map (slots h p) [i ..< i + k]) @ as) h'"
proof (induction k arbitrary: i as h)
  case (Suc k)
  let ?t = "slots h p i"
  let ?h = "h\<lparr>parent := (parent h)(?t := p), entry := (entry h)(?t := (p, i))\<rparr>"
  obtain h1 where h1: "disp ?t ?h = Some h1" "keeps p UNIV ?h h1" "slots h1 p = slots h p"
    using Suc.prems(1) [unfolded starts_only_def, rule_format, of ?t ?h] by auto
  have u: "[i ..< i + Suc k] = i # [Suc i ..< Suc i + k]" by (subst upt_conv_Cons) simp_all
  have d: "distinct (map (slots h p) [Suc i ..< Suc i + k])" "?t \<notin> set (map (slots h p) [Suc i ..< Suc i + k])"
    using Suc.prems(3) unfolding u list.map distinct.simps by blast+
  have "join_run dn p n k (?t # as) ?h" by (rule join_run.link [OF Suc.prems(2)]) (use Suc.prems(4) [rule_format, of i] in auto)
  then have r: "join_run dn p n k (?t # as) h1" by (rule join_run.other) (use h1(2) in \<open>simp add: keeps_def\<close>)
  have "\<exists>h'. dispatch_loop disp p (Suc i) k h1 = Some h' \<and> join_run dn p n 0 (rev (map (slots h1 p) [Suc i ..< Suc i + k]) @ ?t # as) h'"
  proof (rule Suc.IH [OF Suc.prems(1) r])
    show "distinct (map (slots h1 p) [Suc i ..< Suc i + k])" using d(1) by (simp add: h1(3))
    show "\<forall>j. Suc i \<le> j \<and> j < Suc i + k \<longrightarrow> slots h1 p j \<noteq> p \<and> slots h1 p j \<notin> set (?t # as)"
      using d(2) Suc.prems(4) unfolding h1(3) by (auto simp: image_iff)
  qed
  then show ?case unfolding u by (simp add: h1(1,3) Let_def del: upt_Suc)
qed simp

subsection \<open>Properties\<close>

text \<open>C8: Any sequence of fewer than \<open>2 ^ 29\<close> calls of \<^verbatim>\<open>push_front\<close>, \<^verbatim>\<open>push_back\<close> and
  \<^verbatim>\<open>pop_task\<close> on a new series behaves as on a plain list: the ring buffer is never accessed out of
  bounds, grows before it is full, and the tasks come back in the order of the list.\<close>

theorem series_refines_list:
  assumes "length mem = 4" and "list_run ops [] = Some (outs, l)"
    and "\<forall>t. PushFront t \<in> set ops \<or> PushBack t \<in> set ops \<longrightarrow> t \<noteq> NULL_TASK" and "length ops < 2 ^ 29"
  shows "\<exists>s'. series_queue.exec ops (series_init this mem ptr first cb) = Some (outs, s') \<and> items s' = l \<and> series_inv s'"
proof -
  let ?s = "series_init this mem ptr first cb"
  have "max (length (queue ?s)) (2 * (length (items ?s) + length ops)) < 2 ^ 30"
    using assms(1,4) series_init_ok [OF assms(1)] by (simp add: series_init_def)
  then show ?thesis
    using series_queue.exec_refines [of ?s ops outs l] series_init_ok [OF assms(1), of this ptr first cb] assms(2,3)
    by (auto simp: tasks_ok_def)
qed

theorem series_refines_list_witness:
  "\<exists>s'. series_queue.exec [PushBack 5, PushFront 6, PopFront, PushBack 7, PushBack 8, PushBack 9, PopFront]
       (series_init 1 [0, 0, 0, 0] (\<lambda>_. 0) 2 True) = Some ([6, 5], s') \<and> items s' = [7, 8, 9]"
  using series_refines_list [of "[0, 0, 0, 0]"
    "[PushBack 5, PushFront 6, PopFront, PushBack 7, PushBack 8, PushBack 9, PopFront]" "[6, 5]" "[7, 8, 9]" 1 "\<lambda>_. 0" 2 True]
  by auto

text \<open>\<^verbatim>\<open>pop\<close> on a series that is not canceled returns the next pending task and keeps the
  others; when none is left it returns null, calls the callback once if there is one, and the series
  deletes itself unless it is part of a parallel work. On a canceled series \<^verbatim>\<open>pop\<close> returns null,
  having deleted all pending tasks in order, and finishes the series in the same way.\<close>

theorem series_pop:
  assumes "tasks_ok s"
  shows "(\<not> canceled s \<longrightarrow> (case pending s of
        t # ts \<Rightarrow> \<exists>s'. pop s = Some (t, s') \<and> tasks_ok s' \<and> pending s' = ts \<and> deleted_tasks s' = deleted_tasks s \<and> callbacks s' = callbacks s
      | [] \<Rightarrow> \<exists>s'. pop s = Some (NULL_TASK, s') \<and> callbacks s' = callbacks s + of_bool (has_callback s) \<and> freed s' = (\<not> in_parallel s)))
    \<and> (canceled s \<longrightarrow> (\<exists>s'. pop s = Some (NULL_TASK, s') \<and> deleted_tasks s' = deleted_tasks s @ pending s
         \<and> callbacks s' = callbacks s + of_bool (has_callback s) \<and> freed s' = (\<not> in_parallel s)))"
proof (cases "pending s")
  case Nil
  let ?e = "series_finish (s\<lparr>last_task := NULL_TASK\<rparr>)"
  have "drop_tasks NULL_TASK ?e = Some ?e" by (subst drop_tasks.simps) simp
  then have "pop s = Some (NULL_TASK, ?e)" by (simp add: pop_def pop_task_done [OF assms Nil] Let_def)
  moreover have "\<not> freed s" using assms by (simp add: tasks_ok_def series_inv_def)
  ultimately show ?thesis using Nil by (simp add: series_finish_fields)
next
  case (Cons t ts)
  obtain s1 where s1: "pop_task s = Some (t, s1)" "tasks_ok s1" "pending s1 = ts" "t \<noteq> NULL_TASK"
    "in_parallel s1 = in_parallel s" "has_callback s1 = has_callback s"
    "deleted_tasks s1 = deleted_tasks s" "callbacks s1 = callbacks s"
    using pop_task_pending [OF assms Cons] by blast
  then show ?thesis using drop_tasks_run [OF s1(2-4)] Cons by (auto simp: pop_def Let_def)
qed

theorem series_pop_witness:
  "\<exists>s s'. tasks_ok s \<and> canceled s \<and> pending s = [5, 6, 9] \<and> pop s = Some (NULL_TASK, s')
     \<and> deleted_tasks s' = [5, 6, 9] \<and> callbacks s' = 1 \<and> freed s'"
proof -
  let ?s = "cancel (set_last_task 9 ((series_init 1 [5, 6, 0, 0] (\<lambda>_. 0) 2 True)\<lparr>qback := 2\<rparr>))"
  have ok: "tasks_ok ?s" "pending ?s = [5, 6, 9]"
    by (simp_all add: tasks_ok_def series_inv_def pending_def items_def cancel_def set_last_task_def
        series_init_def span_def ring_def upt_rec)
  have f: "canceled ?s" "deleted_tasks ?s = []" "callbacks ?s = 0" "has_callback ?s" "\<not> in_parallel ?s"
    by (simp_all add: cancel_def set_last_task_def series_init_def)
  from series_pop [OF ok(1)] f ok(2)
  have "\<exists>s'. pop ?s = Some (NULL_TASK, s') \<and> deleted_tasks s' = [5, 6, 9] \<and> callbacks s' = 1 \<and> freed s'" by simp
  then show ?thesis using ok f(1) by blast
qed

text \<open>\<^verbatim>\<open>dismiss\<close> on a series that was not started deletes the first task and every pending
  task exactly once, calls no callback and deletes the series; inside a parallel work it asserts.\<close>

theorem series_dismiss:
  assumes "tasks_ok s" and "first_task s \<noteq> NULL_TASK"
  shows "if in_parallel s then dismiss s = None
    else \<exists>s'. dismiss s = Some s' \<and> deleted_tasks s' = deleted_tasks s @ first_task s # pending s
       \<and> callbacks s' = callbacks s \<and> freed s'"
proof -
  let ?s = "s\<lparr>in_parallel := False, has_callback := False\<rparr>"
  have "tasks_ok ?s" "pending ?s = pending s"
    using assms(1) by (simp_all add: tasks_ok_def series_inv_def items_def pending_def)
  from drop_tasks_run [OF this assms(2)] show ?thesis
    by (auto simp: dismiss_def dismiss_recursive_def)
qed

theorem series_dismiss_witness:
  "\<exists>s'. dismiss (set_last_task 9 (series_init 1 [0, 0, 0, 0] (\<lambda>_. 0) 2 True)) = Some s'
     \<and> deleted_tasks s' = [2, 9] \<and> callbacks s' = 0 \<and> freed s'"
proof -
  let ?s = "set_last_task 9 (series_init 1 [0, 0, 0, 0] (\<lambda>_. 0) 2 True)"
  have "tasks_ok ?s" "first_task ?s \<noteq> NULL_TASK" "pending ?s = [9]"
    by (simp_all add: tasks_ok_def series_inv_def pending_def items_def set_last_task_def
        series_init_def span_def ring_def)
  from series_dismiss [OF this(1,2)] this(3) show ?thesis
    by (simp add: set_last_task_def series_init_def)
qed


text \<open>Task 9 has the subtasks 3 and 4 and is itself a subtask of 20; task 3 is followed by 7. Completing 3, 4 and 7 in this order, only the last
  completes 9, and with it 20.\<close>

definition demo_heap :: task_heap where
  "demo_heap = \<lparr>parent = \<lambda>t. if t = 9 then 20 else if t = 20 then 0 else 9, entry = \<lambda>t. if t = 9 then (20, 0) else (9, t - 3),
     slots = \<lambda>q i. if q = 20 then 9 else 3 + i, subtasks_nr = \<lambda>q. if q = 20 then 1 else 2, nleft = \<lambda>q. if q = 20 then 1 else 0, done_log = []\<rparr>"

definition demo_done :: done_fun where
  "demo_done t h = (if t = 3 then 7 else NULL_TASK, h)"


text \<open>When a finished subtask hands over to a successor, the successor inherits the parent and
  the entry pointer, and is dispatched without completing the parent; but the slot of the subtask
  array then holds the parent itself and not the successor.\<close>

theorem subtask_done_successor:
  assumes "dn cur (h\<lparr>done_log := done_log h @ [cur]\<rparr>) = (nxt, h1)" and "nxt \<noteq> NULL_TASK"
    and "parent h cur = p" and "p \<noteq> NULL_TASK" and "entry h cur = (q, i)" and "p \<noteq> nxt"
  shows "\<exists>h2. subtask_done dn disp cur h = disp nxt h2 \<and> parent h2 nxt = p \<and> entry h2 nxt = (q, i)
    \<and> nleft h2 = nleft h1 \<and> slots h2 q i = p \<and> slots h2 q i \<noteq> nxt"
proof -
  let ?h2 = "h1\<lparr>parent := (parent h1)(nxt := p), entry := (entry h1)(nxt := (q, i)),
    slots := (slots h1)(q := (slots h1 q)(i := p))\<rparr>"
  have "subtask_done dn disp cur h = disp nxt ?h2"
    using assms by (subst subtask_done.simps) (simp add: Let_def hand_over_def)
  then show ?thesis using assms(6) by (intro exI [of _ ?h2]) simp
qed

theorem subtask_done_successor_witness:
  "\<exists>h2. subtask_done (\<lambda>t h. (7, h)) (\<lambda>_. Some) 3 demo_heap = Some h2 \<and> parent h2 7 = 9 \<and> slots h2 9 0 = 9"
  using subtask_done_successor [of "\<lambda>t h. (7, h)" 3 demo_heap 7 _ 9 9 0 "\<lambda>_. Some"] by (auto simp: demo_heap_def)

end
