(* ===== verification/HeapOrder.thy ===== *)
theory HeapOrder imports Prelude "HOL-Library.Multiset" begin

text \<open>
  Array heaps over a comparison that is a weak order on a set of elements. The locale
  \<open>least_heap\<close> is what a priority queue client relies on: moving one element up or down by swaps
  restores the heap order at the one position where it may be violated. Positions at and above
  the heap size \<open>n\<close> are not touched.
\<close>

definition par :: "nat \<Rightarrow> nat" where
  "par i = (i - 1) div 2"

lemma par_less: "0 < i \<Longrightarrow> par i < i"
  by (simp add: par_def)

lemma par_child: "0 < j \<Longrightarrow> par j = i \<longleftrightarrow> j = 2 * i + 1 \<or> j = 2 * i + 2"
  unfolding par_def by presburger

definition swap :: "'a list \<Rightarrow> nat \<Rightarrow> nat \<Rightarrow> 'a list" where
  "swap xs i j = xs[i := xs ! j, j := xs ! i]"

lemma length_swap [simp]: "length (swap xs i j) = length xs"
  by (simp add: swap_def)

lemma nth_swap: "i < length xs \<Longrightarrow> j < length xs \<Longrightarrow> k < length xs \<Longrightarrow>
    swap xs i j ! k = (if k = j then xs ! i else if k = i then xs ! j else xs ! k)"
  by (auto simp: swap_def nth_list_update)

lemma mset_take_swap:
  assumes "i < n" and "j < n" and "n \<le> length xs"
  shows "mset (take n (swap xs i j)) = mset (take n xs)"
proof -
  have "take n (swap xs i j) = (take n xs)[i := take n xs ! j, j := take n xs ! i]"
    using assms by (simp add: swap_def take_update_swap)
  also have "mset \<dots> = mset (take n xs)"
    using mset_swap [of j "take n xs" i] assms by (simp add: min_def)
  finally show ?thesis .
qed

lemma nth_take_mem: "i < n \<Longrightarrow> n \<le> length xs \<Longrightarrow> xs ! i \<in> set (take n xs)"
  by (metis in_set_conv_nth length_take min.absorb2 nth_take)

locale least_heap =
  fixes lt :: "'a \<Rightarrow> 'a \<Rightarrow> bool" and A :: "'a set"
  assumes lt_asym: "a \<in> A \<Longrightarrow> b \<in> A \<Longrightarrow> lt a b \<Longrightarrow> \<not> lt b a"
    and le_trans: "a \<in> A \<Longrightarrow> b \<in> A \<Longrightarrow> c \<in> A \<Longrightarrow> \<not> lt b a \<Longrightarrow> \<not> lt c b \<Longrightarrow> \<not> lt c a"
begin

definition is_heap :: "nat \<Rightarrow> 'a list \<Rightarrow> bool" where
  "is_heap n xs \<longleftrightarrow> (\<forall>i. 0 < i \<and> i < n \<longrightarrow> \<not> lt (xs ! i) (xs ! par i))"

text \<open>The order may fail between position \<open>i\<close> and its parent only.\<close>

definition up_viol :: "nat \<Rightarrow> nat \<Rightarrow> 'a list \<Rightarrow> bool" where
  "up_viol n i xs \<longleftrightarrow> i < n \<and> n \<le> length xs \<and> set (take n xs) \<subseteq> A
     \<and> (\<forall>j. 0 < j \<and> j < n \<and> j \<noteq> i \<longrightarrow> \<not> lt (xs ! j) (xs ! par j))
     \<and> (\<forall>j. 0 < j \<and> j < n \<and> par j = i \<and> 0 < i \<longrightarrow> \<not> lt (xs ! j) (xs ! par i))"

text \<open>The order may fail between position \<open>i\<close> and its children only.\<close>

definition down_viol :: "nat \<Rightarrow> nat \<Rightarrow> 'a list \<Rightarrow> bool" where
  "down_viol n i xs \<longleftrightarrow> i < n \<and> n \<le> length xs \<and> set (take n xs) \<subseteq> A
     \<and> (\<forall>j. 0 < j \<and> j < n \<and> par j \<noteq> i \<longrightarrow> \<not> lt (xs ! j) (xs ! par j))
     \<and> (\<forall>j. 0 < j \<and> j < n \<and> par j = i \<and> 0 < i \<longrightarrow> \<not> lt (xs ! j) (xs ! par i))"

lemma up_mem: "up_viol n i xs \<Longrightarrow> j < n \<Longrightarrow> xs ! j \<in> A"
  using nth_take_mem [of j n xs] by (auto simp: up_viol_def)

lemma down_mem: "down_viol n i xs \<Longrightarrow> j < n \<Longrightarrow> xs ! j \<in> A"
  using nth_take_mem [of j n xs] by (auto simp: down_viol_def)

lemma root_least:
  assumes "is_heap n xs" and "set (take n xs) \<subseteq> A" and "n \<le> length xs"
  shows "i < n \<Longrightarrow> \<not> lt (xs ! i) (xs ! 0)"
proof (induction i rule: less_induct)
  case (less i)
  have A: "xs ! j \<in> A" if "j < n" for j using nth_take_mem [of j n xs] that assms(2,3) by auto
  show ?case
  proof (cases "i = 0")
    case True
    then show ?thesis using lt_asym A less.prems by blast
  next
    case False
    then have p: "par i < i" by (simp add: par_less)
    have "\<not> lt (xs ! par i) (xs ! 0)" using less.IH [OF p] p less.prems by simp
    moreover have "\<not> lt (xs ! i) (xs ! par i)" using assms(1) False less.prems by (simp add: is_heap_def)
    ultimately show ?thesis using le_trans [of "xs ! 0" "xs ! par i" "xs ! i"] A p less.prems by auto
  qed
qed

lemma up_done: "up_viol n i xs \<Longrightarrow> i = 0 \<or> \<not> lt (xs ! i) (xs ! par i) \<Longrightarrow> is_heap n xs"
  by (auto simp: up_viol_def is_heap_def)

lemma up_step:
  assumes v: "up_viol n i xs" and i: "0 < i" and lt: "lt (xs ! i) (xs ! par i)"
  shows "up_viol n (par i) (swap xs i (par i))"
proof -
  let ?p = "par i" and ?ys = "swap xs i (par i)"
  have b: "i < n" "n \<le> length xs" "?p < i" using v i by (auto simp: up_viol_def par_less)
  have at: "?ys ! k = (if k = ?p then xs ! i else if k = i then xs ! ?p else xs ! k)" if "k < n" for k
    using nth_swap [of i xs ?p k] that b by simp
  have A: "xs ! j \<in> A" if "j < n" for j by (rule up_mem [OF v that])
  have ok: "0 < j \<Longrightarrow> j < n \<Longrightarrow> j \<noteq> i \<Longrightarrow> \<not> lt (xs ! j) (xs ! par j)" for j
    using v by (auto simp: up_viol_def)
  have ch: "0 < j \<Longrightarrow> j < n \<Longrightarrow> par j = i \<Longrightarrow> \<not> lt (xs ! j) (xs ! ?p)" for j
    using v i by (auto simp: up_viol_def)
  have pi: "\<not> lt (xs ! ?p) (xs ! i)" using lt_asym [OF _ _ lt] A b by auto
  have "\<not> lt (?ys ! j) (?ys ! par j)" if j: "0 < j" "j < n" "j \<noteq> ?p" for j
  proof (cases "j = i")
    case True
    then show ?thesis using at [of i] at [of ?p] b pi by simp
  next
    case False
    have pj: "par j < n" using par_less [OF j(1)] j(2) by simp
    consider "par j = ?p" | "par j = i" | "par j \<noteq> ?p" "par j \<noteq> i" by blast
    then show ?thesis
    proof cases
      case 1
      then have "\<not> lt (xs ! j) (xs ! ?p)" using ok [OF j(1,2) False] by simp
      then have "\<not> lt (xs ! j) (xs ! i)" using le_trans [of "xs ! i" "xs ! ?p" "xs ! j"] pi A b j by auto
      then show ?thesis using at [OF j(2)] at [OF pj] 1 False j by simp
    next
      case 2
      then show ?thesis using at [OF j(2)] at [OF pj] ch [OF j(1,2) 2] False j b by simp
    next
      case 3
      then show ?thesis using at [OF j(2)] at [OF pj] ok [OF j(1,2) False] False j by simp
    qed
  qed
  moreover have "\<not> lt (?ys ! j) (?ys ! par ?p)" if j: "0 < j" "j < n" "par j = ?p" "0 < ?p" for j
  proof -
    have pp: "par ?p < ?p" "par ?p < n" using par_less [OF j(4)] b by auto
    have up: "\<not> lt (xs ! ?p) (xs ! par ?p)" using ok [of ?p] j(4) b by auto
    have jp: "j \<noteq> ?p" using par_less [OF j(1)] j(3) by simp
    show ?thesis
    proof (cases "j = i")
      case True
      then show ?thesis using at [OF j(2)] at [OF pp(2)] up pp b by simp
    next
      case False
      have "\<not> lt (xs ! j) (xs ! ?p)" using ok [OF j(1,2) False] j(3) by simp
      then have "\<not> lt (xs ! j) (xs ! par ?p)"
        using le_trans [of "xs ! par ?p" "xs ! ?p" "xs ! j"] up A b pp j by auto
      then show ?thesis using at [OF j(2)] at [OF pp(2)] False jp pp b by simp
    qed
  qed
  moreover have "set (take n ?ys) \<subseteq> A"
    using mset_take_swap [of i n ?p xs] b v by (metis mset_eq_setD up_viol_def less_trans)
  ultimately show ?thesis using b by (auto simp: up_viol_def)
qed

lemma down_done:
  assumes "down_viol n i xs" and "\<And>j. j < n \<Longrightarrow> j = 2 * i + 1 \<or> j = 2 * i + 2 \<Longrightarrow> \<not> lt (xs ! j) (xs ! i)"
  shows "is_heap n xs"
  unfolding is_heap_def
proof (intro allI impI)
  fix j assume j: "0 < j \<and> j < n"
  show "\<not> lt (xs ! j) (xs ! par j)"
    using assms(1) assms(2) [of j] j par_child [of j i] by (cases "par j = i") (auto simp: down_viol_def)
qed

lemma down_step:
  assumes v: "down_viol n i xs" and c: "c < n" "c = 2 * i + 1 \<or> c = 2 * i + 2"
    and lt: "lt (xs ! c) (xs ! i)"
    and least: "\<And>d. d < n \<Longrightarrow> d = 2 * i + 1 \<or> d = 2 * i + 2 \<Longrightarrow> \<not> lt (xs ! d) (xs ! c)"
  shows "down_viol n c (swap xs i c)"
proof -
  let ?ys = "swap xs i c"
  have pc: "par c = i" "0 < c" using c(2) by (auto simp: par_def)
  have b: "i < n" "n \<le> length xs" "i < c" using v c by (auto simp: down_viol_def)
  have at: "?ys ! k = (if k = c then xs ! i else if k = i then xs ! c else xs ! k)" if "k < n" for k
    using nth_swap [of i xs c k] that b c by simp
  have A: "xs ! j \<in> A" if "j < n" for j by (rule down_mem [OF v that])
  have ok: "0 < j \<Longrightarrow> j < n \<Longrightarrow> par j \<noteq> i \<Longrightarrow> \<not> lt (xs ! j) (xs ! par j)" for j
    using v by (auto simp: down_viol_def)
  have gp: "0 < j \<Longrightarrow> j < n \<Longrightarrow> par j = i \<Longrightarrow> 0 < i \<Longrightarrow> \<not> lt (xs ! j) (xs ! par i)" for j
    using v by (auto simp: down_viol_def)
  have ic: "\<not> lt (xs ! i) (xs ! c)" using lt_asym [OF _ _ lt] A b c by auto
  have "\<not> lt (?ys ! j) (?ys ! par j)" if j: "0 < j" "j < n" "par j \<noteq> c" for j
  proof -
    have pj: "par j < j" "par j < n" using par_less [OF j(1)] j(2) by auto
    consider "j = c" | "j = i" | "par j = i" "j \<noteq> c" | "j \<noteq> c" "j \<noteq> i" "par j \<noteq> i" by blast
    then show ?thesis
    proof cases
      case 1
      then show ?thesis using at [OF j(2)] at [OF pj(2)] pc ic b by simp
    next
      case 2
      then show ?thesis using at [OF j(2)] at [OF pj(2)] gp [OF pc(2) c(1) pc(1)] j pj b by simp
    next
      case 3
      then have "\<not> lt (xs ! j) (xs ! c)" using least [OF j(2)] par_child [OF j(1), of i] by blast
      then show ?thesis using at [OF j(2)] at [OF pj(2)] 3 pj j by simp
    next
      case 4
      then show ?thesis using at [OF j(2)] at [OF pj(2)] ok [OF j(1,2)] j by simp
    qed
  qed
  moreover have "\<not> lt (?ys ! j) (?ys ! par c)" if j: "0 < j" "j < n" "par j = c" for j
  proof -
    have "c < j" using par_less [OF j(1)] j(3) by simp
    moreover have "\<not> lt (xs ! j) (xs ! c)" using ok [OF j(1,2)] j(3) b by simp
    ultimately show ?thesis using at [OF j(2)] at [OF b(1)] pc b by simp
  qed
  moreover have "set (take n ?ys) \<subseteq> A"
    using mset_take_swap [of i n c xs] b c(1) v by (metis mset_eq_setD down_viol_def)
  ultimately show ?thesis using b c(1) by (auto simp: down_viol_def)
qed

text \<open>Where violations come from: a heap has none, and an element put at a position of a heap
  violates the order upwards or downwards.\<close>

lemma heap_grandparent:
  assumes h: "is_heap n xs" and A: "set (take n xs) \<subseteq> A" "n \<le> length xs" and j: "0 < j" "j < n" "0 < par j"
  shows "\<not> lt (xs ! j) (xs ! par (par j))"
proof -
  have p: "par j < n" "par (par j) < n" using par_less [OF j(1)] par_less [OF j(3)] j(2) by auto
  have m: "xs ! k \<in> A" if "k < n" for k using nth_take_mem [of k n xs] that A by auto
  show ?thesis
    using le_trans [OF m [OF p(2)] m [OF p(1)] m [OF j(2)]] h j p by (simp add: is_heap_def)
qed

lemma heap_down_viol: "is_heap n xs \<Longrightarrow> set (take n xs) \<subseteq> A \<Longrightarrow> n \<le> length xs \<Longrightarrow> i < n \<Longrightarrow> down_viol n i xs"
  using heap_grandparent [of n xs] by (auto simp: down_viol_def is_heap_def)

lemma heap_append_up:
  assumes "is_heap n xs" and "set (take (Suc n) xs) \<subseteq> A" and "Suc n \<le> length xs"
  shows "up_viol (Suc n) n xs"
proof -
  have "par j \<noteq> n" if "0 < j" "j < Suc n" for j using par_less [OF that(1)] that by simp
  moreover have "\<not> lt (xs ! j) (xs ! par j)" if "0 < j" "j < Suc n" "j \<noteq> n" for j
    using assms(1) that by (simp add: is_heap_def)
  ultimately show ?thesis using assms(2,3) by (auto simp: up_viol_def)
qed

lemma replace_viol:
  assumes h: "is_heap n xs" and A: "set (take n xs) \<subseteq> A" "n \<le> length xs" "x \<in> A" and i: "i < n"
  defines "ys \<equiv> xs[i := x]"
  shows "if 0 < i \<and> lt x (xs ! par i) then up_viol n i ys else down_viol n i ys"
proof -
  have m: "xs ! k \<in> A" if "k < n" for k using nth_take_mem [of k n xs] that A by auto
  have sub: "set (take n ys) \<subseteq> A" using A(1,3) i by (auto simp: ys_def take_update_swap dest!: set_update_subset_insert [THEN subsetD])
  have at: "ys ! k = (if k = i then x else xs ! k)" if "k < n" for k
    using that A(2) by (simp add: ys_def nth_list_update)
  have h': "0 < j \<Longrightarrow> j < n \<Longrightarrow> \<not> lt (xs ! j) (xs ! par j)" for j using h by (simp add: is_heap_def)
  have ch: "\<not> lt (ys ! j) (ys ! par i)" if j: "0 < j" "j < n" "par j = i" "0 < i" for j
  proof -
    have "par i < n" "j \<noteq> i" "par i \<noteq> i" using par_less [OF j(4)] par_less [OF j(1)] j i by auto
    then show ?thesis using heap_grandparent [OF h A(1,2) j(1,2)] j at [of j] at [of "par i"] by simp
  qed
  have rest: "\<not> lt (ys ! j) (ys ! par j)" if j: "0 < j" "j < n" "j \<noteq> i" "par j \<noteq> i" for j
    using h' [OF j(1,2)] at [OF j(2)] at [of "par j"] j par_less [OF j(1)] by auto
  show ?thesis
  proof (cases "0 < i \<and> lt x (xs ! par i)")
    case True
    have "\<not> lt (ys ! j) (ys ! i)" if j: "0 < j" "j < n" "par j = i" for j
    proof -
      have p: "par i < n" "par i \<noteq> i" "j \<noteq> i" using par_less [of i] True par_less [OF j(1)] i j by auto
      have "\<not> lt (xs ! par i) x" using lt_asym [of x "xs ! par i"] True A(3) m [OF p(1)] by auto
      moreover have "\<not> lt (xs ! j) (xs ! par i)" using heap_grandparent [OF h A(1,2) j(1,2)] j True by simp
      ultimately show ?thesis
        using le_trans [OF A(3) m [OF p(1)] m [OF j(2)]] at [OF j(2)] at [OF i] p by simp
    qed
    then have "\<not> lt (ys ! j) (ys ! par j)" if "0 < j" "j < n" "j \<noteq> i" for j
      using rest that by (cases "par j = i") auto
    then show ?thesis using True ch sub A(2) i by (auto simp: up_viol_def ys_def)
  next
    case False
    have "\<not> lt (ys ! i) (ys ! par i)" if "0 < i"
      using False that at [OF i] at [of "par i"] par_less [OF that] i by auto
    then have "\<not> lt (ys ! j) (ys ! par j)" if "0 < j" "j < n" "par j \<noteq> i" for j
      using rest that by (cases "j = i") auto
    then show ?thesis using False ch sub A(2) i by (auto simp: down_viol_def ys_def)
  qed
qed

end

end
