(* ===== verification/CommSched.thy ===== *)
theory CommSched imports HeapOrder "HOL-Library.Monad_Syntax" begin

text \<open>
  The load balancer of \<^verbatim>\<open>kernel/CommScheduler.cc\<close>: targets with a maximal and a current load,
  and a group that keeps its targets in an array heap by relative load. Pointers are numbers, 0 is
  null; sizes and loads are 64-bit unsigned. Every function runs under the mutex of the group, so a
  call is one step; what other threads do while a call waits on a condition variable is an argument.
\<close>

subsection \<open>State\<close>

record CommSchedTarget =
  max_load :: nat
  cur_load :: nat
  group :: nat
  index :: nat
  wait_cnt :: nat

record CommSchedGroup =
  gself :: nat
  g_max_load :: nat
  g_cur_load :: nat
  tg_heap :: "nat list"
  heap_size :: nat
  heap_buf_size :: nat
  g_wait_cnt :: nat

record sched =
  tgt :: "nat \<Rightarrow> CommSchedTarget"
  grp :: CommSchedGroup
  signals :: "nat list"

text \<open>\<open>signals\<close> records the condition variables that were signalled, by the address of their owner.\<close>

datatype errno = EINVAL | EAGAIN | EEXIST | EBUSY | ENOENT | ETIMEDOUT | ENOMEM

abbreviation heap_of :: "sched \<Rightarrow> nat list" where "heap_of s \<equiv> tg_heap (grp s)"
abbreviation hsize :: "sched \<Rightarrow> nat" where "hsize s \<equiv> heap_size (grp s)"

definition upd_tgt :: "nat \<Rightarrow> (CommSchedTarget \<Rightarrow> CommSchedTarget) \<Rightarrow> sched \<Rightarrow> sched" where
  "upd_tgt t f s = s\<lparr>tgt := (tgt s)(t := f (tgt s t))\<rparr>"

definition upd_grp :: "(CommSchedGroup \<Rightarrow> CommSchedGroup) \<Rightarrow> sched \<Rightarrow> sched" where
  "upd_grp f s = s\<lparr>grp := f (grp s)\<rparr>"

definition signal :: "nat \<Rightarrow> sched \<Rightarrow> sched" where
  "signal owner s = s\<lparr>signals := signals s @ [owner]\<rparr>"

definition add64 :: "nat \<Rightarrow> nat \<Rightarrow> nat" where
  "add64 a b = (a + b) mod 2 ^ 64"

definition sub64 :: "nat \<Rightarrow> nat \<Rightarrow> nat" where
  "sub64 a b = (a + (2 ^ 64 - b mod 2 ^ 64)) mod 2 ^ 64"

subsection \<open>Deadlines\<close>

text \<open>A time is a pair of seconds and nanoseconds; \<open>now\<close> is what \<^verbatim>\<open>clock_gettime\<close> returns.\<close>

definition get_abstime :: "int \<Rightarrow> int \<times> int \<Rightarrow> (int \<times> int) option" where
  "get_abstime timeout now = (if timeout < 0 then None else
     (let sec = fst now + timeout div 1000; nsec = snd now + timeout mod 1000 * 1000000 in
      Some (if nsec \<ge> 1000000000 then (sec + 1, nsec - 1000000000) else (sec, nsec))))"

subsection \<open>The heap of a group\<close>

definition target_cmp :: "(nat \<Rightarrow> CommSchedTarget) \<Rightarrow> nat \<Rightarrow> nat \<Rightarrow> int" where
  "target_cmp T t1 t2 =
     (let load1 = cur_load (T t1) * max_load (T t2) mod 2 ^ 64;
          load2 = cur_load (T t2) * max_load (T t1) mod 2 ^ 64
      in if load1 < load2 then -1 else if load1 > load2 then 1 else 0)"

definition set_slot :: "nat \<Rightarrow> nat \<Rightarrow> sched \<Rightarrow> sched" where
  "set_slot i t s = upd_tgt t (\<lambda>x. x\<lparr>index := i\<rparr>) (upd_grp (\<lambda>g. g\<lparr>tg_heap := (tg_heap g)[i := t]\<rparr>) s)"

function adjust_loop :: "nat \<Rightarrow> nat \<Rightarrow> sched \<Rightarrow> sched" where
  "adjust_loop ix target s =
     (if ix > 0 then
        (let parent = heap_of s ! ((ix - 1) div 2) in
         if target_cmp (tgt s) target parent < 0
         then adjust_loop ((ix - 1) div 2) target (set_slot ix parent s)
         else set_slot ix target s)
      else set_slot ix target s)"
  by pat_completeness auto
termination by (relation "measure (\<lambda>(ix, _, _). ix)") auto

definition heap_adjust :: "nat \<Rightarrow> sched \<Rightarrow> sched" where
  "heap_adjust ix s = adjust_loop ix (heap_of s ! ix) s"

text \<open>\<open>last\<close> is the index of the last heap element (-1 for an empty heap).\<close>

function heapify_loop :: "nat \<Rightarrow> nat \<Rightarrow> int \<Rightarrow> sched \<Rightarrow> sched" where
  "heapify_loop tp target lst s =
     (let i = 2 * tp + 1; c0 = heap_of s ! i; c1 = heap_of s ! (i + 1) in
      if int i < lst then
        (if target_cmp (tgt s) c0 target < 0 then
           (if target_cmp (tgt s) c1 c0 < 0
            then heapify_loop (i + 1) target lst (set_slot tp c1 s)
            else heapify_loop i target lst (set_slot tp c0 s))
         else
           (if target_cmp (tgt s) c1 target < 0
            then heapify_loop (i + 1) target lst (set_slot tp c1 s)
            else set_slot tp target s))
      else if int i = lst \<and> target_cmp (tgt s) c0 target < 0
      then set_slot i target (set_slot tp c0 s)
      else set_slot tp target s)"
  by pat_completeness auto
termination by (relation "measure (\<lambda>(tp, _, lst, _). nat (lst + 1) - tp)") auto

declare adjust_loop.simps [simp del] heapify_loop.simps [simp del]

definition heapify :: "nat \<Rightarrow> sched \<Rightarrow> sched" where
  "heapify tp s = heapify_loop tp (heap_of s ! tp) (int (hsize s) - 1) s"

text \<open>\<open>mem\<close> says whether \<^verbatim>\<open>realloc\<close> succeeds; the new half of the array is uninitialised.\<close>

definition heap_insert :: "bool \<Rightarrow> nat \<Rightarrow> sched \<Rightarrow> int \<times> sched" where
  "heap_insert mem target s =
     (if hsize s = heap_buf_size (grp s) \<and> \<not> mem then (-1, s)
      else
        (let s = (if hsize s = heap_buf_size (grp s)
                  then upd_grp (\<lambda>g. g\<lparr>tg_heap := tg_heap g @ replicate (heap_buf_size g) 0, heap_buf_size := 2 * heap_buf_size g\<rparr>) s
                  else s);
             s = set_slot (hsize s) target s;
             s = heap_adjust (hsize s) s
         in (0, upd_grp (\<lambda>g. g\<lparr>heap_size := heap_size g + 1\<rparr>) s)))"

definition heap_remove :: "nat \<Rightarrow> sched \<Rightarrow> sched" where
  "heap_remove ix s =
     (let s = upd_grp (\<lambda>g. g\<lparr>heap_size := heap_size g - 1\<rparr>) s in
      if ix \<noteq> hsize s then
        (let target = heap_of s ! hsize s;
             s = heap_adjust ix (set_slot ix target s)
         in heapify (index (tgt s target)) s)
      else s)"

subsection \<open>Targets and groups\<close>

text \<open>\<open>base\<close> is the error of the initialisers of the base class, the mutex and the condition
  variable, if one fails.\<close>

definition target_init :: "errno option \<Rightarrow> nat \<Rightarrow> nat \<Rightarrow> sched \<Rightarrow> (errno + unit) \<times> sched" where
  "target_init base t max_connections s =
     (if max_connections = 0 then (Inl EINVAL, s)
      else (case base of
         None \<Rightarrow> (Inr (), upd_tgt t (\<lambda>x. x\<lparr>max_load := max_connections, cur_load := 0, wait_cnt := 0, group := 0\<rparr>) s)
       | Some e \<Rightarrow> (Inl e, s)))"

definition group_init :: "errno option \<Rightarrow> nat \<Rightarrow> sched \<Rightarrow> (errno + unit) \<times> sched" where
  "group_init base g s = (case base of
      None \<Rightarrow> (Inr (), s\<lparr>grp := \<lparr>gself = g, g_max_load = 0, g_cur_load = 0, tg_heap = replicate 4 0,
        heap_size = 0, heap_buf_size = 4, g_wait_cnt = 0\<rparr>\<rparr>)
    | Some e \<Rightarrow> (Inl e, s))"

definition group_add :: "bool \<Rightarrow> nat \<Rightarrow> sched \<Rightarrow> (errno + unit) \<times> sched" where
  "group_add mem t s =
     (if group (tgt s t) = 0 \<and> wait_cnt (tgt s t) = 0 then
        (let (r, s) = heap_insert mem t s in
         if r \<ge> 0 then
           (let s = upd_tgt t (\<lambda>x. x\<lparr>group := gself (grp s)\<rparr>) s;
                s = upd_grp (\<lambda>g. g\<lparr>g_max_load := add64 (g_max_load g) (max_load (tgt s t)),
                                   g_cur_load := add64 (g_cur_load g) (cur_load (tgt s t))\<rparr>) s;
                s = (if g_wait_cnt (grp s) > 0 \<and> g_cur_load (grp s) < g_max_load (grp s)
                     then signal (gself (grp s)) s else s)
            in (Inr (), s))
         else (Inl ENOMEM, s))
      else if group (tgt s t) = gself (grp s) then (Inl EEXIST, s)
      else if group (tgt s t) \<noteq> 0 then (Inl EINVAL, s)
      else (Inl EBUSY, s))"

definition group_remove :: "nat \<Rightarrow> sched \<Rightarrow> (errno + unit) \<times> sched" where
  "group_remove t s =
     (if group (tgt s t) = gself (grp s) \<and> wait_cnt (tgt s t) = 0 then
        (let s = heap_remove (index (tgt s t)) s;
             s = upd_grp (\<lambda>g. g\<lparr>g_max_load := sub64 (g_max_load g) (max_load (tgt s t)),
                                g_cur_load := sub64 (g_cur_load g) (cur_load (tgt s t))\<rparr>) s
         in (Inr (), upd_tgt t (\<lambda>x. x\<lparr>group := 0\<rparr>) s))
      else if group (tgt s t) \<noteq> gself (grp s) then (Inl ENOENT, s)
      else (Inl EBUSY, s))"

text \<open>
  The wait loops. Each element of \<open>wakes\<close> is one return of \<^verbatim>\<open>pthread_cond_timedwait\<close>: its
  result and what the other threads did in the meantime. \<open>None\<close> is "still waiting".
\<close>

type_synonym wake = "errno option \<times> (sched \<Rightarrow> sched)"

fun group_wait :: "wake list \<Rightarrow> sched \<Rightarrow> (errno option \<times> sched) option" where
  "group_wait [] s = None"
| "group_wait ((ret, other) # ws) s =
     (let s = upd_grp (\<lambda>g. g\<lparr>g_wait_cnt := g_wait_cnt g + 1\<rparr>) s;
          s = upd_grp (\<lambda>g. g\<lparr>g_wait_cnt := g_wait_cnt g - 1\<rparr>) (other s)
      in if g_cur_load (grp s) \<ge> g_max_load (grp s) \<and> ret = None then group_wait ws s else Some (ret, s))"

definition group_acquire :: "wake list \<Rightarrow> int \<Rightarrow> sched \<Rightarrow> ((errno + nat) \<times> sched) option" where
  "group_acquire wakes wait_timeout s = do {
     (ret, s) \<leftarrow> (if g_cur_load (grp s) \<ge> g_max_load (grp s)
        then (if wait_timeout \<noteq> 0 then group_wait wakes s else Some (Some EAGAIN, s))
        else Some (None, s));
     if g_cur_load (grp s) < g_max_load (grp s) then
       (let target = heap_of s ! 0;
            s = upd_tgt target (\<lambda>x. x\<lparr>cur_load := add64 (cur_load x) 1\<rparr>) s;
            s = upd_grp (\<lambda>g. g\<lparr>g_cur_load := add64 (g_cur_load g) 1\<rparr>) s
        in Some (Inr target, heapify 0 s))
     else (case ret of Some e \<Rightarrow> Some (Inl e, s) | None \<Rightarrow> None) }"

fun target_wait :: "wake list \<Rightarrow> nat \<Rightarrow> sched \<Rightarrow> (errno option \<times> sched) option" where
  "target_wait [] t s = None"
| "target_wait ((ret, other) # ws) t s =
     (let s = upd_tgt t (\<lambda>x. x\<lparr>wait_cnt := wait_cnt x + 1\<rparr>) s;
          s = upd_tgt t (\<lambda>x. x\<lparr>wait_cnt := wait_cnt x - 1\<rparr>) (other s)
      in if cur_load (tgt s t) \<ge> max_load (tgt s t) \<and> ret = None then target_wait ws t s else Some (ret, s))"

definition target_acquire :: "wake list \<Rightarrow> int \<Rightarrow> nat \<Rightarrow> sched \<Rightarrow> ((errno + nat) \<times> sched) option" where
  "target_acquire wakes wait_timeout t s = do {
     (ret, s) \<leftarrow> (if cur_load (tgt s t) \<ge> max_load (tgt s t)
        then (if wait_timeout \<noteq> 0 then target_wait wakes t s else Some (Some EAGAIN, s))
        else Some (None, s));
     if cur_load (tgt s t) < max_load (tgt s t) then
       (let s = upd_tgt t (\<lambda>x. x\<lparr>cur_load := add64 (cur_load x) 1\<rparr>) s;
            s = (if group (tgt s t) \<noteq> 0
                 then heapify (index (tgt s t)) (upd_grp (\<lambda>g. g\<lparr>g_cur_load := add64 (g_cur_load g) 1\<rparr>) s)
                 else s)
        in Some (Inr t, s))
     else (case ret of Some e \<Rightarrow> Some (Inl e, s) | None \<Rightarrow> None) }"

definition target_release :: "nat \<Rightarrow> sched \<Rightarrow> sched" where
  "target_release t s =
     (let s = upd_tgt t (\<lambda>x. x\<lparr>cur_load := sub64 (cur_load x) 1\<rparr>) s;
          s = (if wait_cnt (tgt s t) > 0 then signal t s else s)
      in if group (tgt s t) \<noteq> 0 then
           (let s = upd_grp (\<lambda>g. g\<lparr>g_cur_load := sub64 (g_cur_load g) 1\<rparr>) s;
                s = (if wait_cnt (tgt s t) = 0 \<and> g_wait_cnt (grp s) > 0 then signal (gself (grp s)) s else s)
            in heap_adjust (index (tgt s t)) s)
         else s)"

text \<open>A scheduling object is the group or a single target, and \<^verbatim>\<open>acquire\<close> is virtual. \<open>req\<close> is the result of
  \<^verbatim>\<open>Communicator::request\<close> on the acquired target.\<close>

datatype CommSchedObject = SchedGroup | SchedTarget nat

definition object_acquire :: "CommSchedObject \<Rightarrow> wake list \<Rightarrow> int \<Rightarrow> sched \<Rightarrow> ((errno + nat) \<times> sched) option" where
  "object_acquire ob wakes wait_timeout s =
     (case ob of SchedGroup \<Rightarrow> group_acquire wakes wait_timeout s | SchedTarget t \<Rightarrow> target_acquire wakes wait_timeout t s)"

definition sched_request :: "(nat \<Rightarrow> bool) \<Rightarrow> CommSchedObject \<Rightarrow> wake list \<Rightarrow> int \<Rightarrow> sched \<Rightarrow> ((errno + nat) \<times> int \<times> sched) option" where
  "sched_request req ob wakes wait_timeout s = do {
     (r, s) \<leftarrow> object_acquire ob wakes wait_timeout s;
     Some (case r of
        Inl e \<Rightarrow> (r, -1, s)
      | Inr t \<Rightarrow> (if req t then (r, 0, s) else (r, -1, target_release t s))) }"

subsection \<open>The order of the loads\<close>

definition loads_ok :: "CommSchedTarget \<Rightarrow> bool" where
  "loads_ok x \<longleftrightarrow> 0 < max_load x \<and> max_load x < 2 ^ 32 \<and> cur_load x \<le> max_load x"

lemma prod_bound: "a \<le> m \<Longrightarrow> m < 2 ^ 32 \<Longrightarrow> b < 2 ^ 32 \<Longrightarrow> a * b < (2 :: nat) ^ 64"
proof -
  assume "a \<le> m" "m < 2 ^ 32" "b < 2 ^ 32"
  then have "a * b \<le> (2 ^ 32 - 1) * (2 ^ 32 - 1)" by (intro mult_le_mono) auto
  then show ?thesis by simp
qed

text \<open>With loads below \<open>2 ^ 32\<close> the products do not wrap, and the comparison orders the targets
  by their relative load.\<close>

lemma target_cmp_less:
  assumes "loads_ok (T a)" and "loads_ok (T b)"
  shows "target_cmp T a b < 0 \<longleftrightarrow> cur_load (T a) * max_load (T b) < cur_load (T b) * max_load (T a)"
  using prod_bound [of "cur_load (T a)" "max_load (T a)" "max_load (T b)"]
    prod_bound [of "cur_load (T b)" "max_load (T b)" "max_load (T a)"] assms
  by (simp add: target_cmp_def loads_ok_def Let_def)

interpretation load: least_heap "\<lambda>a b. target_cmp T a b < 0" "{a. loads_ok (T a)}" for T
proof
  fix a b c
  assume ab: "a \<in> {a. loads_ok (T a)}" "b \<in> {a. loads_ok (T a)}"
  show "target_cmp T a b < 0 \<Longrightarrow> \<not> target_cmp T b a < 0"
    using ab by (simp add: target_cmp_less)
  assume c: "c \<in> {a. loads_ok (T a)}"
    and n: "\<not> target_cmp T b a < 0" "\<not> target_cmp T c b < 0"
  let ?m = "\<lambda>x. max_load (T x)" and ?c = "\<lambda>x. cur_load (T x)"
  have le: "?c a * ?m b \<le> ?c b * ?m a" "?c b * ?m c \<le> ?c c * ?m b"
    using n ab c by (simp_all add: target_cmp_less)
  have "?c a * ?m c * ?m b = (?c a * ?m b) * ?m c" by simp
  also have "\<dots> \<le> (?c b * ?m a) * ?m c" using le(1) by (rule mult_right_mono) simp
  also have "\<dots> = (?c b * ?m c) * ?m a" by simp
  also have "\<dots> \<le> (?c c * ?m b) * ?m a" using le(2) by (rule mult_right_mono) simp
  finally have "?c a * ?m c * ?m b \<le> ?c c * ?m a * ?m b" by (simp add: ac_simps)
  moreover have "0 < ?m b" using ab by (simp add: loads_ok_def)
  ultimately have "?c a * ?m c \<le> ?c c * ?m a" by simp
  then show "\<not> target_cmp T c a < 0" using ab c by (simp add: target_cmp_less)
qed

subsection \<open>What the heap operations change\<close>

definition frame :: "sched \<Rightarrow> sched \<Rightarrow> bool" where
  "frame s s' \<longleftrightarrow> (\<forall>a. tgt s' a = (tgt s a)\<lparr>index := index (tgt s' a)\<rparr>)
     \<and> grp s' = (grp s)\<lparr>tg_heap := heap_of s'\<rparr> \<and> length (heap_of s') = length (heap_of s) \<and> signals s' = signals s"

lemma frame_refl [simp]: "frame s s"
  by (simp add: frame_def)

lemma frame_trans:
  assumes a: "frame s t" and b: "frame t u"
  shows "frame s u"
proof -
  have "tgt u x = (tgt s x)\<lparr>index := index (tgt u x)\<rparr>" for x
  proof -
    have "tgt u x = (tgt t x)\<lparr>index := index (tgt u x)\<rparr>" "tgt t x = (tgt s x)\<lparr>index := index (tgt t x)\<rparr>"
      using a b unfolding frame_def by blast+
    then show ?thesis by (metis CommSchedTarget.fold_congs(4) CommSchedTarget.update_convs(4) CommSchedTarget.surjective)
  qed
  moreover have "grp u = (grp s)\<lparr>tg_heap := heap_of u\<rparr>"
  proof -
    have "grp u = (grp t)\<lparr>tg_heap := heap_of u\<rparr>" "grp t = (grp s)\<lparr>tg_heap := heap_of t\<rparr>"
      using a b unfolding frame_def by blast+
    then show ?thesis by (metis CommSchedGroup.update_convs(4) CommSchedGroup.surjective)
  qed
  ultimately show ?thesis using a b by (auto simp: frame_def)
qed

lemma set_slot_fields [simp]:
  "heap_of (set_slot i t s) = (heap_of s)[i := t]" "hsize (set_slot i t s) = hsize s"
  "index (tgt (set_slot i t s) a) = (if a = t then i else index (tgt s a))"
  by (simp_all add: set_slot_def upd_tgt_def upd_grp_def)

lemma frame_set_slot: "frame s (set_slot i t s)"
  by (simp add: frame_def set_slot_def upd_tgt_def upd_grp_def)

lemma frame_fields:
  assumes "frame s s'"
  shows "cur_load (tgt s' a) = cur_load (tgt s a)" "max_load (tgt s' a) = max_load (tgt s a)"
    "group (tgt s' a) = group (tgt s a)" "wait_cnt (tgt s' a) = wait_cnt (tgt s a)"
    "hsize s' = hsize s" "gself (grp s') = gself (grp s)" "heap_buf_size (grp s') = heap_buf_size (grp s)"
    "g_max_load (grp s') = g_max_load (grp s)" "g_cur_load (grp s') = g_cur_load (grp s)"
    "g_wait_cnt (grp s') = g_wait_cnt (grp s)" "length (heap_of s') = length (heap_of s)"
proof -
  have t: "tgt s' a = (tgt s a)\<lparr>index := index (tgt s' a)\<rparr>" and g: "grp s' = (grp s)\<lparr>tg_heap := heap_of s'\<rparr>"
    using assms by (simp_all add: frame_def)
  show "cur_load (tgt s' a) = cur_load (tgt s a)" "max_load (tgt s' a) = max_load (tgt s a)"
    "group (tgt s' a) = group (tgt s a)" "wait_cnt (tgt s' a) = wait_cnt (tgt s a)"
    by (subst t, simp)+
  show "hsize s' = hsize s" "gself (grp s') = gself (grp s)" "heap_buf_size (grp s') = heap_buf_size (grp s)"
    "g_max_load (grp s') = g_max_load (grp s)" "g_cur_load (grp s') = g_cur_load (grp s)"
    "g_wait_cnt (grp s') = g_wait_cnt (grp s)"
    by (subst g, simp)+
  show "length (heap_of s') = length (heap_of s)" using assms by (simp add: frame_def)
qed

lemma frame_cmp: "frame s s' \<Longrightarrow> target_cmp (tgt s') = target_cmp (tgt s)"
  by (simp add: target_cmp_def fun_eq_iff frame_fields)

lemma frame_loads_ok: "frame s s' \<Longrightarrow> loads_ok (tgt s' a) = loads_ok (tgt s a)"
  by (simp add: loads_ok_def frame_fields)

subsection \<open>Sifting\<close>

text \<open>
  The loops carry the target and a hole. \<open>holed n i t s ys\<close>: \<open>ys\<close> is the heap with the target in
  the hole, its elements are distinct and know their positions, except for the target.
\<close>

definition holed :: "nat \<Rightarrow> nat \<Rightarrow> nat \<Rightarrow> sched \<Rightarrow> nat list \<Rightarrow> bool" where
  "holed n i t s ys \<longleftrightarrow> ys = (heap_of s)[i := t] \<and> i < n \<and> n \<le> length (heap_of s) \<and> distinct (take n ys)
     \<and> (\<forall>j < n. j \<noteq> i \<longrightarrow> index (tgt s (ys ! j)) = j)"

definition placed :: "nat \<Rightarrow> sched \<Rightarrow> bool" where
  "placed n s \<longleftrightarrow> n \<le> length (heap_of s) \<and> distinct (take n (heap_of s))
     \<and> (\<forall>j < n. index (tgt s (heap_of s ! j)) = j)"

lemma placed_holed: "placed n s \<Longrightarrow> i < n \<Longrightarrow> holed n i (heap_of s ! i) s (heap_of s)"
  by (simp add: placed_def holed_def)

lemma distinct_take_nth: "distinct (take n xs) \<Longrightarrow> n \<le> length xs \<Longrightarrow> i < n \<Longrightarrow> j < n \<Longrightarrow> xs ! i = xs ! j \<Longrightarrow> i = j"
  using nth_eq_iff_index_eq [of "take n xs" i j] by simp

lemma holed_move:
  assumes h: "holed n i t s ys" and j: "j < n" "j \<noteq> i"
  shows "holed n j t (set_slot i (heap_of s ! j) s) (swap ys i j)"
proof -
  have ys: "ys = (heap_of s)[i := t]" and b: "i < n" "n \<le> length (heap_of s)" and d: "distinct (take n ys)"
    and ix: "\<And>k. k < n \<Longrightarrow> k \<noteq> i \<Longrightarrow> index (tgt s (ys ! k)) = k"
    using h by (auto simp: holed_def)
  have len: "length ys = length (heap_of s)" by (simp add: ys)
  have yj: "ys ! j = heap_of s ! j" and yi: "ys ! i = t" using j b by (simp_all add: ys)
  have sw: "swap ys i j = ((heap_of s)[i := heap_of s ! j])[j := t]" by (simp add: swap_def yj yi) (simp add: ys)
  have "mset (take n (swap ys i j)) = mset (take n ys)" by (rule mset_take_swap) (use j b len in auto)
  then have "distinct (take n (swap ys i j))" using d by (metis mset_eq_imp_distinct_iff)
  moreover have "index (tgt (set_slot i (heap_of s ! j) s) (swap ys i j ! k)) = k" if k: "k < n" "k \<noteq> j" for k
  proof -
    have "swap ys i j ! k = (if k = i then ys ! j else ys ! k)"
      using nth_swap [of i ys j k] k j b len by simp
    moreover have "ys ! k \<noteq> ys ! j" if "k \<noteq> i" using distinct_take_nth [OF d] k j b len by auto
    ultimately show ?thesis using ix [OF k(1)] yj by auto
  qed
  ultimately show ?thesis using sw j b by (simp add: holed_def)
qed

lemma holed_fill: "holed n i t s ys \<Longrightarrow> placed n (set_slot i t s) \<and> heap_of (set_slot i t s) = ys"
proof -
  assume h: "holed n i t s ys"
  then have "ys ! k \<noteq> t" if "k < n" "k \<noteq> i" for k
    using distinct_take_nth [of n ys k i] that by (auto simp: holed_def)
  then have "index (tgt (set_slot i t s) (ys ! j)) = j" if "j < n" for j
    using h that by (cases "j = i") (auto simp: holed_def)
  moreover have e: "heap_of (set_slot i t s) = ys" using h by (simp add: holed_def)
  moreover have "n \<le> length ys" "distinct (take n ys)" using h unfolding holed_def by auto
  ultimately show ?thesis unfolding placed_def e by blast
qed

text \<open>What a sift achieves.\<close>

definition sifted :: "nat \<Rightarrow> nat list \<Rightarrow> sched \<Rightarrow> sched \<Rightarrow> bool" where
  "sifted n ys s s' \<longleftrightarrow> frame s s' \<and> placed n s' \<and> load.is_heap (tgt s) n (heap_of s')
     \<and> mset (take n (heap_of s')) = mset (take n ys)"

lemma sifted_move:
  assumes "sifted n (swap ys i j) (set_slot i c s) s'" and "i < n" "j < n" "n \<le> length ys"
  shows "sifted n ys s s'"
  using assms frame_trans [OF frame_set_slot [of s i c], of s'] mset_take_swap [of i n j ys]
    frame_cmp [OF frame_set_slot [of s i c]]
  by (auto simp: sifted_def)

lemma sifted_fill:
  "holed n i t s ys \<Longrightarrow> load.is_heap (tgt s) n ys \<Longrightarrow> sifted n ys s (set_slot i t s)"
  using holed_fill [of n i t s ys] frame_set_slot [of s i t] by (simp add: sifted_def)

lemma up_viol_frame: "frame s s' \<Longrightarrow> load.up_viol (tgt s') = load.up_viol (tgt s)"
  by (simp add: frame_cmp frame_loads_ok)

lemma down_viol_frame: "frame s s' \<Longrightarrow> load.down_viol (tgt s') = load.down_viol (tgt s)"
  by (simp add: frame_cmp frame_loads_ok)

lemma adjust_loop_sifted:
  "holed n ix t s ys \<Longrightarrow> load.up_viol (tgt s) n ix ys \<Longrightarrow> sifted n ys s (adjust_loop ix t s)"
proof (induction ix t s arbitrary: ys rule: adjust_loop.induct)
  case (1 ix t s)
  note h = 1(2) and v = 1(3)
  have b: "ix < n" "n \<le> length ys" and yi: "ys ! ix = t" using h by (auto simp: holed_def)
  show ?case
  proof (cases "ix > 0 \<and> target_cmp (tgt s) t (heap_of s ! ((ix - 1) div 2)) < 0")
    case False
    have "ix = 0 \<or> \<not> target_cmp (tgt s) (ys ! ix) (ys ! par ix) < 0"
      using False h b yi by (auto simp: par_def holed_def nth_list_update)
    then have "load.is_heap (tgt s) n ys" using load.up_done [OF v] by simp
    moreover have "adjust_loop ix t s = set_slot ix t s" using False by (subst adjust_loop.simps) (auto simp: Let_def)
    ultimately show ?thesis using sifted_fill [OF h] by simp
  next
    case True
    let ?p = "(ix - 1) div 2" and ?c = "heap_of s ! ((ix - 1) div 2)"
    have p: "?p = par ix" "?p < n" "?p \<noteq> ix" using True b par_less [of ix] by (auto simp: par_def)
    have yp: "ys ! ?p = ?c" using h p by (auto simp: holed_def)
    have "load.up_viol (tgt s) n ?p (swap ys ix ?p)"
      using load.up_step [OF v] True yi yp p(1) by simp
    then have v': "load.up_viol (tgt (set_slot ix ?c s)) n ?p (swap ys ix ?p)"
      by (simp add: up_viol_frame [OF frame_set_slot])
    have "sifted n (swap ys ix ?p) (set_slot ix ?c s) (adjust_loop ?p t (set_slot ix ?c s))"
      by (rule 1(1) [OF _ refl _ holed_move [OF h p(2,3)] v']) (use True in simp_all)
    then have "sifted n ys s (adjust_loop ?p t (set_slot ix ?c s))"
      by (rule sifted_move) (use b p in simp_all)
    moreover have "adjust_loop ix t s = adjust_loop ?p t (set_slot ix ?c s)"
      using True by (subst adjust_loop.simps) (simp add: Let_def)
    ultimately show ?thesis by simp
  qed
qed

lemma heap_adjust_sifted:
  assumes "placed n s" and "load.up_viol (tgt s) n ix (heap_of s)"
  shows "sifted n (heap_of s) s (heap_adjust ix s)"
proof -
  have "ix < n" using assms(2) by (simp add: load.up_viol_def)
  then show ?thesis
    unfolding heap_adjust_def by (intro adjust_loop_sifted placed_holed assms)
qed

lemma heapify_move:
  assumes IH: "\<And>ys. holed n c t (set_slot tp (heap_of s ! c) s) ys \<Longrightarrow> load.down_viol (tgt (set_slot tp (heap_of s ! c) s)) n c ys
      \<Longrightarrow> sifted n ys (set_slot tp (heap_of s ! c) s) s'"
    and h: "holed n tp t s ys" and v: "load.down_viol (tgt s) n tp ys"
    and c: "c = 2 * tp + 1 \<or> c = 2 * tp + 2" "c < n"
    and lt: "target_cmp (tgt s) (ys ! c) (ys ! tp) < 0"
    and least: "\<And>d. d < n \<Longrightarrow> d = 2 * tp + 1 \<or> d = 2 * tp + 2 \<Longrightarrow> \<not> target_cmp (tgt s) (ys ! d) (ys ! c) < 0"
  shows "sifted n ys s s'"
proof -
  have b: "tp < n" "n \<le> length ys" using h by (auto simp: holed_def)
  have ne: "c \<noteq> tp" using c(1) by auto
  have "load.down_viol (tgt s) n c (swap ys tp c)" by (rule load.down_step [OF v c(2,1) lt least])
  then have "load.down_viol (tgt (set_slot tp (heap_of s ! c) s)) n c (swap ys tp c)"
    by (simp add: down_viol_frame [OF frame_set_slot])
  from IH [OF holed_move [OF h c(2) ne] this] show ?thesis
    by (rule sifted_move) (use b c in simp_all)
qed

lemma heapify_loop_sifted:
  "holed n tp t s ys \<Longrightarrow> load.down_viol (tgt s) n tp ys \<Longrightarrow> sifted n ys s (heapify_loop tp t (int n - 1) s)"
proof (induction tp t "int n - 1" s arbitrary: ys rule: heapify_loop.induct)
  case (1 tp t s)
  note h = 1(4) and v = 1(5)
  let ?i = "2 * tp + 1"
  let ?c0 = "heap_of s ! ?i" and ?c1 = "heap_of s ! (?i + 1)"
  let ?lt = "\<lambda>a b. target_cmp (tgt s) a b < 0"
  have b: "tp < n" "n \<le> length ys" and yt: "ys ! tp = t" using h by (auto simp: holed_def)
  have yc: "ys ! k = heap_of s ! k" if "k \<noteq> tp" for k using h that by (auto simp: holed_def)
  have A: "loads_ok (tgt s (ys ! k))" if "k < n" for k using load.down_mem [OF v that] by simp
  have trans: "\<not> ?lt (ys ! a) (ys ! c)" if "a < n" "b < n" "c < n" "\<not> ?lt (ys ! b) (ys ! c)" "\<not> ?lt (ys ! a) (ys ! b)" for a b c
    using load.le_trans [where T = "tgt s", of "ys ! c" "ys ! b" "ys ! a"] A that by auto
  have asym: "\<not> ?lt (ys ! a) (ys ! c)" if "a < n" "c < n" "?lt (ys ! c) (ys ! a)" for a c
    using load.lt_asym [where T = "tgt s", of "ys ! c" "ys ! a"] A that by auto
  have two: "int ?i < int n - 1 \<longleftrightarrow> ?i + 1 < n" and one: "int ?i = int n - 1 \<longleftrightarrow> ?i + 1 = n" by auto
  consider (left) "?i + 1 < n" "?lt ?c0 t" "\<not> ?lt ?c1 ?c0"
    | (right) "?i + 1 < n" "?lt ?c1 t" "?lt ?c0 t \<longrightarrow> ?lt ?c1 ?c0"
    | (last) "?i + 1 = n" "?lt ?c0 t"
    | (stop) "?i < n \<longrightarrow> \<not> ?lt ?c0 t" "?i + 1 < n \<longrightarrow> \<not> ?lt ?c1 t"
  proof -
    have "?i + 1 < n \<Longrightarrow> ?lt ?c0 t \<Longrightarrow> ?lt ?c1 ?c0 \<Longrightarrow> ?lt ?c1 t"
      using trans [of ?i "?i + 1" tp] asym [of ?i "?i + 1"] b yt yc [of ?i] yc [of "?i + 1"] by auto
    then show ?thesis using that by (metis Suc_eq_plus1 Suc_lessI)
  qed
  then show ?case
  proof cases
    case left
    have run: "heapify_loop tp t (int n - 1) s = heapify_loop ?i t (int n - 1) (set_slot tp ?c0 s)"
      using left two by (subst heapify_loop.simps) (simp add: Let_def)
    show ?thesis unfolding run
    proof (rule heapify_move [OF _ h v, of ?i])
      show "\<And>ys. holed n ?i t (set_slot tp ?c0 s) ys \<Longrightarrow> load.down_viol (tgt (set_slot tp ?c0 s)) n ?i ys
        \<Longrightarrow> sifted n ys (set_slot tp ?c0 s) (heapify_loop ?i t (int n - 1) (set_slot tp ?c0 s))"
        using 1(2) left two by (simp add: Let_def)
      show "\<not> ?lt (ys ! d) (ys ! ?i)" if "d < n" "d = 2 * tp + 1 \<or> d = 2 * tp + 2" for d
        using that left asym [of d d] yc [of ?i] yc [of "?i + 1"] by auto
    qed (use left yt yc in auto)
  next
    case right
    have run: "heapify_loop tp t (int n - 1) s = heapify_loop (?i + 1) t (int n - 1) (set_slot tp ?c1 s)"
      using right two by (subst heapify_loop.simps) (simp add: Let_def)
    show ?thesis unfolding run
    proof (rule heapify_move [OF _ h v, of "?i + 1"])
      show "\<And>ys. holed n (?i + 1) t (set_slot tp ?c1 s) ys \<Longrightarrow> load.down_viol (tgt (set_slot tp ?c1 s)) n (?i + 1) ys
        \<Longrightarrow> sifted n ys (set_slot tp ?c1 s) (heapify_loop (?i + 1) t (int n - 1) (set_slot tp ?c1 s))"
        using 1(1,3) right two by (cases "?lt ?c0 t") (simp_all add: Let_def)
      show "\<not> ?lt (ys ! d) (ys ! (?i + 1))" if "d < n" "d = 2 * tp + 1 \<or> d = 2 * tp + 2" for d
        using that right asym [of d d] asym [of ?i "?i + 1"] yc [of ?i] yc [of "?i + 1"] yt
          trans [of ?i tp "?i + 1"] asym [of tp "?i + 1"] b by auto
    qed (use right yt yc in auto)
  next
    case last
    have run: "heapify_loop tp t (int n - 1) s = set_slot ?i t (set_slot tp ?c0 s)"
      using last one two by (subst heapify_loop.simps) (simp add: Let_def)
    show ?thesis unfolding run
    proof (rule heapify_move [OF _ h v, of ?i])
      fix zs assume z: "holed n ?i t (set_slot tp ?c0 s) zs" "load.down_viol (tgt (set_slot tp ?c0 s)) n ?i zs"
      have "load.is_heap (tgt (set_slot tp ?c0 s)) n zs" by (rule load.down_done [OF z(2)]) (use last in auto)
      then show "sifted n zs (set_slot tp ?c0 s) (set_slot ?i t (set_slot tp ?c0 s))" by (rule sifted_fill [OF z(1)])
    next
      show "\<not> ?lt (ys ! d) (ys ! ?i)" if "d < n" "d = 2 * tp + 1 \<or> d = 2 * tp + 2" for d
        using that last asym [of d d] yc [of ?i] by auto
    qed (use last yt yc in auto)
  next
    case stop
    have run: "heapify_loop tp t (int n - 1) s = set_slot tp t s"
      using stop one two by (subst heapify_loop.simps) (auto simp: Let_def)
    have "load.is_heap (tgt s) n ys"
      by (rule load.down_done [OF v]) (use stop yt yc in auto)
    then show ?thesis unfolding run by (rule sifted_fill [OF h])
  qed
qed

lemma heapify_sifted:
  assumes "placed (hsize s) s" and "load.down_viol (tgt s) (hsize s) tp (heap_of s)"
  shows "sifted (hsize s) (heap_of s) s (heapify tp s)"
proof -
  have "tp < hsize s" using assms(2) by (simp add: load.down_viol_def)
  then show ?thesis
    unfolding heapify_def by (intro heapify_loop_sifted placed_holed assms)
qed

subsection \<open>The invariant of a group\<close>

definition members :: "sched \<Rightarrow> nat list" where
  "members s = take (hsize s) (heap_of s)"

definition total :: "(CommSchedTarget \<Rightarrow> nat) \<Rightarrow> sched \<Rightarrow> nat" where
  "total f s = (\<Sum>a \<in> set (members s). f (tgt s a))"

text \<open>Everything but the heap order.\<close>

definition group_ok :: "sched \<Rightarrow> bool" where
  "group_ok s \<longleftrightarrow> gself (grp s) \<noteq> 0 \<and> heap_buf_size (grp s) = length (heap_of s) \<and> 0 < heap_buf_size (grp s)
     \<and> hsize s \<le> 2 ^ 30 \<and> placed (hsize s) s
     \<and> (\<forall>a. a \<in> set (members s) \<longrightarrow> loads_ok (tgt s a))
     \<and> (\<forall>a. group (tgt s a) = gself (grp s) \<longleftrightarrow> a \<in> set (members s))
     \<and> g_max_load (grp s) = total max_load s \<and> g_cur_load (grp s) = total cur_load s"

definition group_inv :: "sched \<Rightarrow> bool" where
  "group_inv s \<longleftrightarrow> group_ok s \<and> load.is_heap (tgt s) (hsize s) (heap_of s)"

lemma group_ok_heap_set: "group_ok s \<Longrightarrow> set (take (hsize s) (heap_of s)) \<subseteq> {a. loads_ok (tgt s a)}"
  by (auto simp: group_ok_def members_def)

lemma group_inv_least:
  assumes "group_inv s" and "a \<in> set (members s)"
  shows "cur_load (tgt s (heap_of s ! 0)) * max_load (tgt s a) \<le> cur_load (tgt s a) * max_load (tgt s (heap_of s ! 0))"
    and "heap_of s ! 0 \<in> set (members s)"
proof -
  have ok: "group_ok s" and h: "load.is_heap (tgt s) (hsize s) (heap_of s)" using assms(1) by (simp_all add: group_inv_def)
  have n: "hsize s \<le> length (heap_of s)" using ok by (simp add: group_ok_def placed_def)
  obtain i where i: "i < hsize s" "heap_of s ! i = a"
    using assms(2) n by (auto simp: members_def in_set_conv_nth)
  have "\<not> target_cmp (tgt s) a (heap_of s ! 0) < 0"
    using load.root_least [OF h group_ok_heap_set [OF ok] n i(1)] i(2) by simp
  moreover show m: "heap_of s ! 0 \<in> set (members s)" using nth_take_mem [of 0 "hsize s" "heap_of s"] i(1) n by (simp add: members_def)
  moreover have "loads_ok (tgt s a)" "loads_ok (tgt s (heap_of s ! 0))" using ok m assms(2) by (auto simp: group_ok_def)
  ultimately show "cur_load (tgt s (heap_of s ! 0)) * max_load (tgt s a) \<le> cur_load (tgt s a) * max_load (tgt s (heap_of s ! 0))"
    by (simp add: target_cmp_less)
qed

text \<open>If the group has spare capacity, so has the target at the root.\<close>

lemma root_has_room:
  assumes inv: "group_inv s" and room: "g_cur_load (grp s) < g_max_load (grp s)"
  shows "heap_of s ! 0 \<in> set (members s)" "cur_load (tgt s (heap_of s ! 0)) < max_load (tgt s (heap_of s ! 0))"
proof -
  have ok: "group_ok s" using inv by (simp add: group_inv_def)
  let ?r = "tgt s (heap_of s ! 0)"
  have ex: "\<exists>a \<in> set (members s). cur_load (tgt s a) < max_load (tgt s a)"
  proof (rule ccontr)
    assume "\<not> ?thesis"
    then have "total max_load s \<le> total cur_load s" unfolding total_def by (intro sum_mono) auto
    then show False using room ok by (simp add: group_ok_def)
  qed
  then obtain a where a: "a \<in> set (members s)" "cur_load (tgt s a) < max_load (tgt s a)" by blast
  note l = group_inv_least [OF inv a(1)]
  show "heap_of s ! 0 \<in> set (members s)" by (rule l(2))
  then have m: "0 < max_load ?r" using ok by (simp add: group_ok_def loads_ok_def)
  have "cur_load ?r * max_load (tgt s a) < max_load (tgt s a) * max_load ?r"
    using l(1) a(2) m by (meson le_less_trans mult_less_mono1)
  then show "cur_load ?r < max_load ?r" by (simp add: mult.commute)
qed

lemma set_take_mset: "mset (take n xs) = mset (take n ys) \<Longrightarrow> set (take n xs) = set (take n ys)"
  by (rule mset_eq_setD)

lemma sifted_group_inv:
  assumes ok: "group_ok s" and sf: "sifted (hsize s) (heap_of s) s s'"
  shows "group_inv s'" and "set (members s') = set (members s)" and "frame s s'"
proof -
  show f: "frame s s'" using sf by (simp add: sifted_def)
  show m: "set (members s') = set (members s)"
    using sf f by (auto simp: sifted_def members_def frame_fields dest: mset_eq_setD)
  have "total g s' = total g s" if "\<And>a. g (tgt s' a) = g (tgt s a)" for g
    using that m by (simp add: total_def)
  then have "total max_load s' = total max_load s" "total cur_load s' = total cur_load s"
    using f by (simp_all add: frame_fields)
  then have "group_ok s'"
    using ok sf m f unfolding group_ok_def by (auto simp: sifted_def frame_fields frame_loads_ok)
  moreover have "load.is_heap (tgt s') (hsize s') (heap_of s')"
    using sf f by (simp add: sifted_def frame_fields frame_cmp)
  ultimately show "group_inv s'" by (simp add: group_inv_def)
qed

text \<open>Changing the load of one member breaks the order in one direction only.\<close>

definition load_changed :: "nat \<Rightarrow> sched \<Rightarrow> sched \<Rightarrow> bool" where
  "load_changed t s s' \<longleftrightarrow> (\<forall>a. a \<noteq> t \<longrightarrow> tgt s' a = tgt s a) \<and> max_load (tgt s' t) = max_load (tgt s t)
     \<and> heap_of s' = heap_of s \<and> hsize s' = hsize s"

lemma load_changed_cmp:
  "load_changed t s s' \<Longrightarrow> a \<noteq> t \<Longrightarrow> b \<noteq> t \<Longrightarrow> target_cmp (tgt s') a b = target_cmp (tgt s) a b"
  by (simp add: load_changed_def target_cmp_def)

lemma load_changed_viol:
  assumes inv: "group_inv s" and ch: "load_changed t s s'" and ok': "loads_ok (tgt s' t)"
    and t: "heap_of s ! i = t" and i: "i < hsize s"
  shows "cur_load (tgt s t) \<le> cur_load (tgt s' t) \<Longrightarrow> load.down_viol (tgt s') (hsize s) i (heap_of s)"
    and "cur_load (tgt s' t) \<le> cur_load (tgt s t) \<Longrightarrow> load.up_viol (tgt s') (hsize s) i (heap_of s)"
proof -
  let ?n = "hsize s" and ?h = "heap_of s"
  have ok: "group_ok s" and heap: "load.is_heap (tgt s) ?n ?h" using inv by (simp_all add: group_inv_def)
  have n: "?n \<le> length ?h" and d: "distinct (take ?n ?h)" using ok by (simp_all add: group_ok_def placed_def)
  have A: "loads_ok (tgt s (?h ! k))" if "k < ?n" for k using nth_take_mem [OF that n] group_ok_heap_set [OF ok] by auto
  have A': "set (take ?n ?h) \<subseteq> {a. loads_ok (tgt s' a)}"
    using group_ok_heap_set [OF ok] ch ok' by (auto simp: load_changed_def) (metis mem_Collect_eq subsetD)
  have ne: "?h ! k \<noteq> t" if "k < ?n" "k \<noteq> i" for k using distinct_take_nth [OF d n that(1) i] that t by auto
  have le: "\<not> target_cmp (tgt s) (?h ! j) (?h ! par j) < 0" if "0 < j" "j < ?n" for j
    using heap that by (simp add: load.is_heap_def)
  have same: "\<not> target_cmp (tgt s') (?h ! j) (?h ! par j) < 0" if "0 < j" "j < ?n" "j \<noteq> i" "par j \<noteq> i" for j
    using le [OF that(1,2)] load_changed_cmp [OF ch ne ne] that par_less [OF that(1)] by simp
  have gp: "\<not> target_cmp (tgt s') (?h ! j) (?h ! par i) < 0" if j: "0 < j" "j < ?n" "par j = i" "0 < i" for j
  proof -
    have "j \<noteq> i" "par i \<noteq> i" "par i < ?n" using par_less [OF j(1)] par_less [OF j(4)] j i by auto
    then show ?thesis
      using load.heap_grandparent [OF heap group_ok_heap_set [OF ok] n j(1,2)] j
        load_changed_cmp [OF ch ne ne, of j "par i"] by simp
  qed
  have m: "max_load (tgt s' t) = max_load (tgt s t)" "\<And>a. a \<noteq> t \<Longrightarrow> tgt s' a = tgt s a" using ch by (auto simp: load_changed_def)
  show "load.down_viol (tgt s') ?n i ?h" if up: "cur_load (tgt s t) \<le> cur_load (tgt s' t)"
  proof -
    have "\<not> target_cmp (tgt s') (?h ! i) (?h ! par i) < 0" if "0 < i"
    proof -
      let ?p = "?h ! par i"
      have p: "par i < ?n" "par i \<noteq> i" using par_less [OF that] i by auto
      have "cur_load (tgt s ?p) * max_load (tgt s t) \<le> cur_load (tgt s t) * max_load (tgt s ?p)"
        using le [OF that i] A [OF i] A [OF p(1)] t by (simp add: target_cmp_less)
      also have "\<dots> \<le> cur_load (tgt s' t) * max_load (tgt s ?p)" using up by simp
      finally show ?thesis using ok' A [OF p(1)] m ne [OF p] t by (simp add: target_cmp_less)
    qed
    then have "\<not> target_cmp (tgt s') (?h ! j) (?h ! par j) < 0" if "0 < j" "j < ?n" "par j \<noteq> i" for j
      using same that by (cases "j = i") auto
    then show ?thesis using gp A' n i by (auto simp: load.down_viol_def)
  qed
  show "load.up_viol (tgt s') ?n i ?h" if down: "cur_load (tgt s' t) \<le> cur_load (tgt s t)"
  proof -
    have "\<not> target_cmp (tgt s') (?h ! j) (?h ! i) < 0" if j: "0 < j" "j < ?n" "par j = i" for j
    proof -
      let ?c = "?h ! j"
      have ji: "j \<noteq> i" using par_less [OF j(1)] j(3) by simp
      have "cur_load (tgt s' t) * max_load (tgt s ?c) \<le> cur_load (tgt s t) * max_load (tgt s ?c)" using down by simp
      also have "\<dots> \<le> cur_load (tgt s ?c) * max_load (tgt s t)"
        using le [OF j(1,2)] A [OF i] A [OF j(2)] t j(3) by (simp add: target_cmp_less)
      finally show ?thesis using ok' A [OF j(2)] m ne [OF j(2) ji] t by (simp add: target_cmp_less)
    qed
    then have "\<not> target_cmp (tgt s') (?h ! j) (?h ! par j) < 0" if "0 < j" "j < ?n" "j \<noteq> i" for j
      using same that by (cases "par j = i") auto
    then show ?thesis using gp A' n i by (auto simp: load.up_viol_def)
  qed
qed

lemma total_max_bound: "group_ok s \<Longrightarrow> total max_load s \<le> 2 ^ 62"
proof -
  assume ok: "group_ok s"
  have "total max_load s \<le> (\<Sum>a \<in> set (members s). 2 ^ 32)"
    unfolding total_def by (rule sum_mono) (use ok in \<open>auto simp: group_ok_def loads_ok_def intro: less_imp_le\<close>)
  also have "\<dots> = card (set (members s)) * 2 ^ 32" by simp
  also have "\<dots> \<le> length (members s) * 2 ^ 32" by (intro mult_le_mono1 card_length)
  also have "\<dots> \<le> 2 ^ 30 * 2 ^ 32" using ok by (intro mult_le_mono1) (simp add: group_ok_def members_def min_def)
  finally show ?thesis by simp
qed

lemma total_cur_le: "group_ok s \<Longrightarrow> total cur_load s \<le> total max_load s"
  unfolding total_def by (intro sum_mono) (auto simp: group_ok_def loads_ok_def)

lemma total_cur_member: "group_ok s \<Longrightarrow> t \<in> set (members s) \<Longrightarrow> cur_load (tgt s t) \<le> total cur_load s"
  unfolding total_def by (rule member_le_sum) auto

lemma total_max_member: "group_ok s \<Longrightarrow> t \<in> set (members s) \<Longrightarrow> max_load (tgt s t) \<le> total max_load s"
  unfolding total_def by (rule member_le_sum) auto

lemma add64_small: "a + b < 2 ^ 64 \<Longrightarrow> add64 a b = a + b"
  by (simp add: add64_def)

lemma sub64_small: "b \<le> a \<Longrightarrow> a < 2 ^ 64 \<Longrightarrow> sub64 a b = a - b"
proof -
  assume ab: "b \<le> a" "a < 2 ^ 64"
  then have "a + (2 ^ 64 - b mod 2 ^ 64) = (a - b) + 2 ^ 64" by simp
  then show ?thesis using ab unfolding sub64_def by (simp only: mod_add_self2) simp
qed

text \<open>One more or one less connection on a member, with the group load following, before the heap
  is put in order again.\<close>

lemma change_load_ok:
  assumes inv: "group_inv s" and t: "t \<in> set (members s)" and c: "c \<le> max_load (tgt s t)"
    and s': "s' = s\<lparr>tgt := (tgt s)(t := (tgt s t)\<lparr>cur_load := c\<rparr>),
       grp := (grp s)\<lparr>g_cur_load := g_cur_load (grp s) + c - cur_load (tgt s t)\<rparr>, signals := sg\<rparr>"
  shows "group_ok s'" and "load_changed t s s'" and "members s' = members s" and "loads_ok (tgt s' t)"
proof -
  have ok: "group_ok s" using inv by (simp add: group_inv_def)
  show m: "members s' = members s" by (simp add: s' members_def)
  show "load_changed t s s'" by (simp add: load_changed_def s')
  have lt: "loads_ok (tgt s t)" using ok t by (simp add: group_ok_def)
  then show l': "loads_ok (tgt s' t)" using c by (simp add: s' loads_ok_def)
  have fin: "finite (set (members s))" by simp
  have cur: "total cur_load s' = total cur_load s + c - cur_load (tgt s t)"
    unfolding total_def m by (simp add: sum.remove [OF fin t] s')
  have mx: "total max_load s' = total max_load s" unfolding total_def m by (auto simp: s' intro!: sum.cong)
  have ix: "index (tgt s' a) = index (tgt s a)" for a by (simp add: s')
  have gr: "group (tgt s' a) = group (tgt s a)" for a by (simp add: s')
  have "placed (hsize s') s'" using ok ix by (simp add: group_ok_def placed_def s')
  moreover have "loads_ok (tgt s' a)" if "a \<in> set (members s)" for a
    using that ok l' by (cases "a = t") (auto simp: group_ok_def s')
  moreover have "gself (grp s') = gself (grp s)" "heap_buf_size (grp s') = heap_buf_size (grp s)"
    "heap_of s' = heap_of s" "hsize s' = hsize s" "g_max_load (grp s') = g_max_load (grp s)"
    "g_cur_load (grp s') = g_cur_load (grp s) + c - cur_load (tgt s t)" by (simp_all add: s')
  ultimately show "group_ok s'"
    using ok cur mx gr unfolding group_ok_def m by auto
qed

lemma signals_grp: "s\<lparr>signals := x, grp := y\<rparr> = s\<lparr>grp := y, signals := x\<rparr>" for s :: sched
  by simp

text \<open>The effect of acquiring and of releasing a connection of target \<open>t\<close>.\<close>

definition load_step :: "nat \<Rightarrow> int \<Rightarrow> sched \<Rightarrow> sched \<Rightarrow> bool" where
  "load_step t k s s' \<longleftrightarrow> group_inv s' \<and> set (members s') = set (members s)
     \<and> (\<forall>a. int (cur_load (tgt s' a)) = int (cur_load (tgt s a)) + (if a = t then k else 0)
          \<and> max_load (tgt s' a) = max_load (tgt s a) \<and> group (tgt s' a) = group (tgt s a)
          \<and> wait_cnt (tgt s' a) = wait_cnt (tgt s a))
     \<and> int (g_cur_load (grp s')) = int (g_cur_load (grp s)) + k \<and> g_max_load (grp s') = g_max_load (grp s)
     \<and> gself (grp s') = gself (grp s) \<and> g_wait_cnt (grp s') = g_wait_cnt (grp s)"

lemma member_index:
  assumes "group_ok s" and "t \<in> set (members s)"
  shows "index (tgt s t) < hsize s" "heap_of s ! index (tgt s t) = t"
proof -
  obtain i where "i < hsize s" "heap_of s ! i = t"
    using assms by (auto simp: members_def in_set_conv_nth)
  moreover then have "index (tgt s t) = i" using assms(1) by (auto simp: group_ok_def placed_def)
  ultimately show "index (tgt s t) < hsize s" "heap_of s ! index (tgt s t) = t" by auto
qed

lemma acquire_step:
  assumes inv: "group_inv s" and t: "t \<in> set (members s)" and room: "cur_load (tgt s t) < max_load (tgt s t)"
  defines "s1 \<equiv> upd_grp (\<lambda>g. g\<lparr>g_cur_load := add64 (g_cur_load g) 1\<rparr>) (upd_tgt t (\<lambda>x. x\<lparr>cur_load := add64 (cur_load x) 1\<rparr>) s)"
  shows "load_step t 1 s (heapify (index (tgt s t)) s1)"
proof -
  have ok: "group_ok s" using inv by (simp add: group_inv_def)
  have lt: "loads_ok (tgt s t)" using ok t by (simp add: group_ok_def)
  have a1: "add64 (cur_load (tgt s t)) 1 = cur_load (tgt s t) + 1"
    using lt room by (intro add64_small) (simp add: loads_ok_def)
  have a2: "add64 (g_cur_load (grp s)) 1 = g_cur_load (grp s) + 1"
    using total_max_bound [OF ok] total_cur_le [OF ok] ok by (intro add64_small) (simp add: group_ok_def)
  have s1: "s1 = s\<lparr>tgt := (tgt s)(t := (tgt s t)\<lparr>cur_load := cur_load (tgt s t) + 1\<rparr>),
       grp := (grp s)\<lparr>g_cur_load := g_cur_load (grp s) + (cur_load (tgt s t) + 1) - cur_load (tgt s t)\<rparr>, signals := signals s\<rparr>"
    unfolding s1_def by (simp add: upd_grp_def upd_tgt_def a1 a2 del: One_nat_def)
  note c = change_load_ok [OF inv t _ s1]
  have c1: "group_ok s1" "load_changed t s s1" "members s1 = members s" "loads_ok (tgt s1 t)"
    using c room by auto
  note ix = member_index [OF ok t]
  have "load.down_viol (tgt s1) (hsize s) (index (tgt s t)) (heap_of s)"
    by (rule load_changed_viol(1) [OF inv c1(2,4) ix(2,1)]) (simp add: s1)
  then have "load.down_viol (tgt s1) (hsize s1) (index (tgt s t)) (heap_of s1)" by (simp add: s1)
  moreover have "placed (hsize s1) s1" using c1(1) by (simp add: group_ok_def)
  ultimately have sf: "sifted (hsize s1) (heap_of s1) s1 (heapify (index (tgt s t)) s1)" by (intro heapify_sifted)
  note r = sifted_group_inv [OF c1(1) sf]
  show ?thesis using r(1,2) c1(3) unfolding load_step_def by (simp add: frame_fields [OF r(3)]) (simp add: s1)
qed

lemma target_release_step:
  assumes inv: "group_inv s" and t: "t \<in> set (members s)" and pos: "0 < cur_load (tgt s t)"
  shows "load_step t (-1) s (target_release t s)"
proof -
  have ok: "group_ok s" using inv by (simp add: group_inv_def)
  have lt: "loads_ok (tgt s t)" using ok t by (simp add: group_ok_def)
  have g: "group (tgt s t) \<noteq> 0" using ok t by (metis group_ok_def)
  have a1: "sub64 (cur_load (tgt s t)) 1 = cur_load (tgt s t) - 1"
    using lt pos by (intro sub64_small) (auto simp: loads_ok_def)
  have gp: "cur_load (tgt s t) \<le> g_cur_load (grp s)" using total_cur_member [OF ok t] ok by (simp add: group_ok_def)
  have a2: "sub64 (g_cur_load (grp s)) 1 = g_cur_load (grp s) - 1"
    using total_max_bound [OF ok] total_cur_le [OF ok] ok pos gp by (intro sub64_small) (auto simp: group_ok_def)
  define sg where "sg = signals s @ (if wait_cnt (tgt s t) > 0 then [t] else if g_wait_cnt (grp s) > 0 then [gself (grp s)] else [])"
  define s1 where "s1 = s\<lparr>tgt := (tgt s)(t := (tgt s t)\<lparr>cur_load := cur_load (tgt s t) - 1\<rparr>),
       grp := (grp s)\<lparr>g_cur_load := g_cur_load (grp s) + (cur_load (tgt s t) - 1) - cur_load (tgt s t)\<rparr>, signals := sg\<rparr>"
  have gc: "g_cur_load (grp s) + (cur_load (tgt s t) - 1) - cur_load (tgt s t) = g_cur_load (grp s) - 1"
    using pos gp by simp
  have run: "target_release t s = heap_adjust (index (tgt s t)) s1"
    using g unfolding target_release_def s1_def gc
    by (simp add: Let_def upd_grp_def upd_tgt_def signal_def a1 a2 sg_def signals_grp del: One_nat_def)
  note c = change_load_ok [OF inv t _ s1_def]
  have c1: "group_ok s1" "load_changed t s s1" "members s1 = members s" "loads_ok (tgt s1 t)"
    using c lt by (auto simp: loads_ok_def)
  note ix = member_index [OF ok t]
  have "load.up_viol (tgt s1) (hsize s) (index (tgt s t)) (heap_of s)"
    by (rule load_changed_viol(2) [OF inv c1(2,4) ix(2,1)]) (simp add: s1_def)
  then have "load.up_viol (tgt s1) (hsize s1) (index (tgt s t)) (heap_of s1)" by (simp add: s1_def)
  moreover have "placed (hsize s1) s1" using c1(1) by (simp add: group_ok_def)
  ultimately have sf: "sifted (hsize s1) (heap_of s1) s1 (heap_adjust (index (tgt s t)) s1)" by (intro heap_adjust_sifted)
  note r = sifted_group_inv [OF c1(1) sf]
  show ?thesis unfolding run
    using r(1,2) c1(3) pos gp unfolding load_step_def by (simp add: frame_fields [OF r(3)]) (simp add: s1_def gc)
qed

subsection \<open>Adding and removing targets\<close>

lemma is_heap_cong:
  assumes "\<And>i. i < n \<Longrightarrow> xs ! i = ys ! i"
  shows "load.is_heap T n xs = load.is_heap T n ys"
proof -
  have "par i < n" if "0 < i" "i < n" for i using par_less [OF that(1)] that(2) by simp
  then show ?thesis using assms by (auto simp: load.is_heap_def)
qed

text \<open>The state after \<^verbatim>\<open>heap_insert\<close> made room and before it adjusts the heap.\<close>

definition grown :: "sched \<Rightarrow> sched" where
  "grown s = (if hsize s = heap_buf_size (grp s)
     then upd_grp (\<lambda>g. g\<lparr>tg_heap := tg_heap g @ replicate (heap_buf_size g) 0, heap_buf_size := 2 * heap_buf_size g\<rparr>) s
     else s)"

lemma grown_fields:
  assumes "group_ok s"
  shows "hsize (grown s) = hsize s" "hsize s < length (heap_of (grown s))" "tgt (grown s) = tgt s"
    "\<And>i. i < hsize s \<Longrightarrow> heap_of (grown s) ! i = heap_of s ! i" "heap_buf_size (grp (grown s)) = length (heap_of (grown s))"
    "gself (grp (grown s)) = gself (grp s)" "g_max_load (grp (grown s)) = g_max_load (grp s)"
    "g_cur_load (grp (grown s)) = g_cur_load (grp s)" "g_wait_cnt (grp (grown s)) = g_wait_cnt (grp s)"
  using assms by (auto simp: grown_def upd_grp_def group_ok_def placed_def nth_append)

lemma heap_insert_sifted:
  assumes inv: "group_inv s" and t: "t \<notin> set (members s)" and lt: "loads_ok (tgt s t)"
  defines "s2 \<equiv> set_slot (hsize s) t (grown s)"
  shows "sifted (Suc (hsize s)) (heap_of s2) s2 (heap_adjust (hsize s) s2)"
    and "set (take (Suc (hsize s)) (heap_of s2)) = insert t (set (members s))"
proof -
  let ?n = "hsize s"
  have ok: "group_ok s" using inv by (simp add: group_inv_def)
  note g = grown_fields [OF ok]
  have n: "?n \<le> length (heap_of s)" using ok by (simp add: group_ok_def placed_def)
  have at: "heap_of s2 ! i = (if i = ?n then t else heap_of s ! i)" if "i < Suc ?n" for i
    using that g(2,4) by (simp add: s2_def nth_list_update)
  have tk: "take ?n (heap_of s2) = members s"
    unfolding members_def by (rule nth_equalityI) (use g(2,4) n in \<open>auto simp: s2_def\<close>)
  have tk1: "take (Suc ?n) (heap_of s2) = members s @ [t]"
    using tk g(2) at [of ?n] by (simp add: take_Suc_conv_app_nth s2_def)
  show "set (take (Suc ?n) (heap_of s2)) = insert t (set (members s))" by (simp add: tk1)
  have f: "frame (grown s) s2" unfolding s2_def by (rule frame_set_slot)
  have ix: "index (tgt s2 a) = (if a = t then ?n else index (tgt s a))" for a by (simp add: s2_def g(3))
  have pl: "placed (Suc ?n) s2"
    unfolding placed_def
  proof (intro conjI allI impI)
    show "Suc ?n \<le> length (heap_of s2)" using g(2) by (simp add: s2_def)
    show "distinct (take (Suc ?n) (heap_of s2))" using ok t by (simp add: tk1 group_ok_def placed_def members_def)
    fix j assume j: "j < Suc ?n"
    show "index (tgt s2 (heap_of s2 ! j)) = j"
    proof (cases "j = ?n")
      case True
      then show ?thesis using at [OF j] ix by simp
    next
      case False
      then have jn: "j < ?n" using j by simp
      then have "heap_of s ! j \<noteq> t" using t nth_take_mem [OF jn n] by (auto simp: members_def)
      then show ?thesis using at [OF j] ix False ok jn by (simp add: group_ok_def placed_def)
    qed
  qed
  have "load.is_heap (tgt s) ?n (heap_of s2)"
    using inv is_heap_cong [of ?n "heap_of s2" "heap_of s" "tgt s"] at by (simp add: group_inv_def)
  then have hp: "load.is_heap (tgt s2) ?n (heap_of s2)" using frame_cmp [OF f] g(3) by simp
  have A: "set (take (Suc ?n) (heap_of s2)) \<subseteq> {a. loads_ok (tgt s2 a)}"
    using ok lt frame_loads_ok [OF f] g(3) by (auto simp: tk1 group_ok_def)
  have "load.up_viol (tgt s2) (Suc ?n) ?n (heap_of s2)"
    by (rule load.heap_append_up [OF hp A]) (use g(2) in \<open>simp add: s2_def\<close>)
  then show "sifted (Suc ?n) (heap_of s2) s2 (heap_adjust ?n s2)" by (rule heap_adjust_sifted [OF pl])
qed

lemma group_add_ok:
  assumes inv: "group_inv s" and t: "group (tgt s t) = 0" "wait_cnt (tgt s t) = 0" and lt: "loads_ok (tgt s t)"
    and small: "hsize s < 2 ^ 30" and mem: "mem \<or> hsize s \<noteq> heap_buf_size (grp s)"
  shows "\<exists>s'. group_add mem t s = (Inr (), s') \<and> group_inv s' \<and> set (members s') = insert t (set (members s))
    \<and> (\<forall>a. cur_load (tgt s' a) = cur_load (tgt s a) \<and> max_load (tgt s' a) = max_load (tgt s a))
    \<and> g_cur_load (grp s') = g_cur_load (grp s) + cur_load (tgt s t)
    \<and> g_max_load (grp s') = g_max_load (grp s) + max_load (tgt s t)"
proof -
  let ?n = "hsize s"
  have ok: "group_ok s" using inv by (simp add: group_inv_def)
  have gs: "gself (grp s) \<noteq> 0" using ok by (simp add: group_ok_def)
  have tm: "t \<notin> set (members s)" using ok t(1) by (metis group_ok_def)
  note g = grown_fields [OF ok]
  define s2 where "s2 = set_slot ?n t (grown s)"
  define s3 where "s3 = heap_adjust ?n s2"
  have sf: "sifted (Suc ?n) (heap_of s2) s2 s3" and mem2: "set (take (Suc ?n) (heap_of s2)) = insert t (set (members s))"
    using heap_insert_sifted [OF inv tm lt] by (simp_all add: s2_def s3_def)
  have f: "frame (grown s) s3"
    using sf frame_trans [OF frame_set_slot [of "grown s" ?n t]] by (simp add: sifted_def s2_def)
  define s4 where "s4 = upd_grp (\<lambda>g. g\<lparr>heap_size := heap_size g + 1\<rparr>) s3"
  have ins: "heap_insert mem t s = (0, s4)"
    using mem g(1) by (auto simp: heap_insert_def Let_def s4_def s3_def s2_def grown_def)
  have tg4: "tgt s4 = tgt s3" and hp4: "heap_of s4 = heap_of s3" and n4: "hsize s4 = Suc ?n"
    using f g(1) by (simp_all add: s4_def upd_grp_def frame_fields)
  have ld: "cur_load (tgt s4 a) = cur_load (tgt s a)" "max_load (tgt s4 a) = max_load (tgt s a)"
    "group (tgt s4 a) = group (tgt s a)" "wait_cnt (tgt s4 a) = wait_cnt (tgt s a)" for a
    using frame_fields [OF f] g(3) tg4 by simp_all
  have bnd: "total cur_load s + cur_load (tgt s t) < 2 ^ 64" "total max_load s + max_load (tgt s t) < 2 ^ 64"
    using total_max_bound [OF ok] total_cur_le [OF ok] lt by (simp_all add: loads_ok_def)
  have gl: "gself (grp s4) = gself (grp s)" "g_max_load (grp s4) = total max_load s" "g_cur_load (grp s4) = total cur_load s"
    "heap_buf_size (grp s4) = length (heap_of s4)" "g_wait_cnt (grp s4) = g_wait_cnt (grp s)"
    using frame_fields [OF f] g ok by (simp_all add: s4_def upd_grp_def group_ok_def)
  define s5 where "s5 = upd_grp (\<lambda>g. g\<lparr>g_max_load := total max_load s + max_load (tgt s t), g_cur_load := total cur_load s + cur_load (tgt s t)\<rparr>)
     (upd_tgt t (\<lambda>x. x\<lparr>group := gself (grp s)\<rparr>) s4)"
  define s6 where "s6 = (if g_wait_cnt (grp s5) > 0 \<and> g_cur_load (grp s5) < g_max_load (grp s5) then signal (gself (grp s5)) s5 else s5)"
  have run: "group_add mem t s = (Inr (), s6)"
    using t ins ld gl bnd by (simp add: group_add_def Let_def s6_def s5_def upd_tgt_def upd_grp_def add64_small)
  have t6: "tgt s6 a = (if a = t then (tgt s4 t)\<lparr>group := gself (grp s)\<rparr> else tgt s4 a)" for a
    by (simp add: s6_def s5_def upd_tgt_def upd_grp_def signal_def)
  have g6: "hsize s6 = Suc ?n" "heap_of s6 = heap_of s3" "gself (grp s6) = gself (grp s)"
    "heap_buf_size (grp s6) = length (heap_of s3)" "g_max_load (grp s6) = total max_load s + max_load (tgt s t)"
    "g_cur_load (grp s6) = total cur_load s + cur_load (tgt s t)"
    using gl n4 hp4 by (simp_all add: s6_def s5_def upd_tgt_def upd_grp_def signal_def)
  have ld6: "cur_load (tgt s6 a) = cur_load (tgt s a)" "max_load (tgt s6 a) = max_load (tgt s a)"
    "index (tgt s6 a) = index (tgt s3 a)" "group (tgt s6 a) = (if a = t then gself (grp s) else group (tgt s a))" for a
    using ld [of a] ld [of t] by (simp_all add: t6 tg4)
  have mm: "set (members s6) = insert t (set (members s))"
    using sf mem2 by (auto simp: members_def g6 sifted_def dest: mset_eq_setD)
  have cmp: "target_cmp (tgt s6) = target_cmp (tgt s2)"
    using ld6(1,2) frame_fields(1,2) [OF frame_set_slot [of "grown s" ?n t]] g(3)
    by (simp add: target_cmp_def fun_eq_iff s2_def)
  have tot: "total cur_load s6 = total cur_load s + cur_load (tgt s t)" "total max_load s6 = total max_load s + max_load (tgt s t)"
    using tm by (simp_all add: total_def mm ld6)
  have "placed (hsize s6) s6" using sf by (simp add: sifted_def placed_def g6 ld6)
  moreover have "\<forall>a. a \<in> set (members s6) \<longrightarrow> loads_ok (tgt s6 a)"
    using ok lt by (auto simp: mm loads_ok_def ld6 group_ok_def)
  moreover have "\<forall>a. group (tgt s6 a) = gself (grp s6) \<longleftrightarrow> a \<in> set (members s6)"
    using ok by (auto simp: mm ld6 g6 group_ok_def)
  moreover have "0 < length (heap_of s3)" using g(2) frame_fields(11) [OF f] by linarith
  ultimately have "group_ok s6" using gs small tot by (simp add: group_ok_def g6)
  moreover have "load.is_heap (tgt s6) (hsize s6) (heap_of s6)"
    using sf cmp by (simp add: sifted_def g6)
  ultimately have "group_inv s6" by (simp add: group_inv_def)
  then show ?thesis using run mm ld6 g6 ok by (auto simp: group_ok_def)
qed

lemma adjust_loop_stay:
  "\<not> (0 < ix \<and> target_cmp (tgt s) t (heap_of s ! par ix) < 0) \<Longrightarrow> adjust_loop ix t s = set_slot ix t s"
  by (subst adjust_loop.simps) (auto simp: par_def Let_def)

lemma adjust_replaced:
  assumes pl: "placed n s" and i: "i < n"
    and v: "if 0 < i \<and> target_cmp (tgt s) (heap_of s ! i) (heap_of s ! par i) < 0
      then load.up_viol (tgt s) n i (heap_of s) else load.down_viol (tgt s) n i (heap_of s)"
  defines "x \<equiv> heap_of s ! i" and "s' \<equiv> heap_adjust i s"
  shows "frame s s'" "placed n s'" "load.down_viol (tgt s) n (index (tgt s' x)) (heap_of s')"
    "mset (take n (heap_of s')) = mset (take n (heap_of s))"
proof -
  have "frame s s' \<and> placed n s' \<and> load.down_viol (tgt s) n (index (tgt s' x)) (heap_of s')
      \<and> mset (take n (heap_of s')) = mset (take n (heap_of s))"
  proof (cases "0 < i \<and> target_cmp (tgt s) x (heap_of s ! par i) < 0")
    case True
    then have up: "load.up_viol (tgt s) n i (heap_of s)" using v by (simp add: x_def)
    then have sf: "sifted n (heap_of s) s s'" using heap_adjust_sifted [OF pl] by (simp add: s'_def)
    then have m: "set (take n (heap_of s')) = set (take n (heap_of s))" by (auto simp: sifted_def dest: mset_eq_setD)
    have "x \<in> set (take n (heap_of s'))" unfolding m x_def by (rule nth_take_mem) (use i pl in \<open>auto simp: placed_def\<close>)
    then obtain k where k: "k < n" "heap_of s' ! k = x" by (auto simp: in_set_conv_nth)
    have "load.down_viol (tgt s) n k (heap_of s')"
      by (rule load.heap_down_viol) (use sf k m up in \<open>auto simp: sifted_def placed_def load.up_viol_def\<close>)
    moreover have "index (tgt s' x) = k" using sf k by (auto simp: sifted_def placed_def)
    ultimately show ?thesis using sf by (simp add: sifted_def)
  next
    case False
    then have s2: "s' = set_slot i x s" using adjust_loop_stay [of i s x] by (simp add: s'_def heap_adjust_def x_def)
    have "holed n i x s (heap_of s)" using placed_holed [OF pl i] by (simp add: x_def)
    then have "placed n s'" "heap_of s' = heap_of s" using holed_fill s2 by auto
    moreover have "index (tgt s' x) = i" by (simp add: s2)
    ultimately show ?thesis using v False frame_set_slot [of s i x] by (simp add: s2 x_def)
  qed
  then show "frame s s'" "placed n s'" "load.down_viol (tgt s) n (index (tgt s' x)) (heap_of s')"
    "mset (take n (heap_of s')) = mset (take n (heap_of s))" by blast+
qed

lemma heap_remove_moved:
  assumes inv: "group_inv s" and t: "t \<in> set (members s)" and ne: "index (tgt s t) \<noteq> hsize s - 1"
  defines "n \<equiv> hsize s - 1" and "s0 \<equiv> upd_grp (\<lambda>g. g\<lparr>heap_size := heap_size g - 1\<rparr>) s"
  shows "sifted n ((heap_of s)[index (tgt s t) := heap_of s ! n]) s0 (heap_remove (index (tgt s t)) s)"
proof -
  let ?i = "index (tgt s t)" and ?x = "heap_of s ! (hsize s - 1)"
  let ?ys = "(heap_of s)[?i := ?x]"
  have ok: "group_ok s" and hp: "load.is_heap (tgt s) (hsize s) (heap_of s)" using inv by (simp_all add: group_inv_def)
  note ix = member_index [OF ok t]
  have len: "hsize s \<le> length (heap_of s)" and d: "distinct (take (hsize s) (heap_of s))"
    and idx: "\<And>j. j < hsize s \<Longrightarrow> index (tgt s (heap_of s ! j)) = j" using ok by (auto simp: group_ok_def placed_def)
  have i: "?i < n" "n < hsize s" "n \<le> length (heap_of s)" using ix(1) ne len by (auto simp: n_def)
  have A: "set (take (hsize s) (heap_of s)) \<subseteq> {a. loads_ok (tgt s a)}" by (rule group_ok_heap_set [OF ok])
  have sub: "set (take n (heap_of s)) \<subseteq> {a. loads_ok (tgt s a)}"
    using A i(2) set_take_subset_set_take [of n "hsize s" "heap_of s"] by auto
  have xA: "?x \<in> {a. loads_ok (tgt s a)}" using nth_take_mem [OF i(2) len] A by (auto simp: n_def)
  have hp': "load.is_heap (tgt s) n (heap_of s)" using hp i(2) by (simp add: load.is_heap_def)
  define s1 where "s1 = set_slot ?i ?x s0"
  have f1: "frame s0 s1" unfolding s1_def by (rule frame_set_slot)
  have h0: "heap_of s0 = heap_of s" "tgt s0 = tgt s" "hsize s0 = n" by (simp_all add: s0_def upd_grp_def n_def)
  have h1: "heap_of s1 = ?ys" "hsize s1 = n" by (simp_all add: s1_def h0)
  have at: "?ys ! j = (if j = ?i then ?x else heap_of s ! j)" if "j < n" for j using that i by (simp add: nth_list_update)
  have xj: "heap_of s ! j \<noteq> ?x" if "j < n" for j using distinct_take_nth [OF d len _ i(2), of j] that i(2) by (auto simp: n_def)
  have pl: "placed n s1"
    unfolding placed_def h1
  proof (intro conjI allI impI)
    show "distinct (take n ?ys)"
    proof (subst distinct_conv_nth, intro allI impI)
      fix a b assume ab: "a < length (take n ?ys)" "b < length (take n ?ys)" "a \<noteq> b"
      then have "a < n" "b < n" by auto
      then show "take n ?ys ! a \<noteq> take n ?ys ! b"
        using at xj distinct_take_nth [OF d len, of a b] ab(3) i(2) by (auto simp: eq_commute)
    qed
    show "index (tgt s1 (?ys ! j)) = j" if "j < n" for j
      using at [OF that] xj [OF that] idx [of j] that i(2) by (auto simp: s1_def h0)
  qed (use i in simp)
  have v: "if 0 < ?i \<and> target_cmp (tgt s) ?x (heap_of s ! par ?i) < 0
      then load.up_viol (tgt s) n ?i ?ys else load.down_viol (tgt s) n ?i ?ys"
    by (rule load.replace_viol [OF hp' sub i(3) xA i(1)])
  have tr: "load.up_viol (tgt s1) = load.up_viol (tgt s)" "load.down_viol (tgt s1) = load.down_viol (tgt s)"
    "target_cmp (tgt s1) = target_cmp (tgt s)"
    using up_viol_frame [OF f1] down_viol_frame [OF f1] frame_cmp [OF f1] h0 by simp_all
  define s2 where "s2 = heap_adjust ?i s1"
  have x1: "heap_of s1 ! ?i = ?x" using at [OF i(1)] h1 by simp
  have "par ?i \<noteq> ?i \<or> ?i = 0" using par_less [of ?i] by (cases "?i = 0") auto
  then have "if 0 < ?i \<and> target_cmp (tgt s1) (heap_of s1 ! ?i) (heap_of s1 ! par ?i) < 0
      then load.up_viol (tgt s1) n ?i (heap_of s1) else load.down_viol (tgt s1) n ?i (heap_of s1)"
    using v x1 frame_loads_ok [OF f1] h0 tr(3) unfolding h1 by auto
  from adjust_replaced [OF pl i(1) this]
  have c: "frame s1 s2" "placed n s2" "load.down_viol (tgt s1) n (index (tgt s2 ?x)) (heap_of s2)"
    "mset (take n (heap_of s2)) = mset (take n ?ys)" unfolding s2_def h1 by (simp_all add: i(1) i(3) less_le_trans [OF i(1) i(3)])
  have h2: "hsize s2 = n" using frame_fields(5) [OF c(1)] h1 by simp
  have "sifted n (heap_of s2) s2 (heapify (index (tgt s2 ?x)) s2)"
    using heapify_sifted [of s2 "index (tgt s2 ?x)"] c(2,3) h2 down_viol_frame [OF c(1)] by simp
  moreover have "heap_remove ?i s = heapify (index (tgt s2 ?x)) s2"
    using i(1) h0 unfolding heap_remove_def Let_def s0_def [symmetric] h0 s2_def s1_def by (simp add: n_def)
  moreover have "frame s0 s2" by (rule frame_trans [OF f1 c(1)])
  ultimately show ?thesis
    using c(4) frame_trans [of s0 s2] frame_cmp [of s0 s2] by (auto simp: sifted_def n_def)
qed

lemma heap_remove_ok:
  assumes inv: "group_inv s" and t: "t \<in> set (members s)"
  defines "s' \<equiv> heap_remove (index (tgt s t)) s" and "s0 \<equiv> upd_grp (\<lambda>g. g\<lparr>heap_size := heap_size g - 1\<rparr>) s"
  shows "frame s0 s'" "placed (hsize s - 1) s'" "load.is_heap (tgt s) (hsize s - 1) (heap_of s')"
    "set (take (hsize s - 1) (heap_of s')) = set (members s) - {t}"
proof -
  let ?n = "hsize s - 1" and ?i = "index (tgt s t)"
  have ok: "group_ok s" and hp: "load.is_heap (tgt s) (hsize s) (heap_of s)" using inv by (simp_all add: group_inv_def)
  have len: "hsize s \<le> length (heap_of s)" and d: "distinct (take (hsize s) (heap_of s))"
    using ok by (simp_all add: group_ok_def placed_def)
  note ix = member_index [OF ok t]
  have ms: "members s = take ?n (heap_of s) @ [heap_of s ! ?n]"
    using ix(1) len by (cases "hsize s") (simp_all add: members_def take_Suc_conv_app_nth)
  then have dm: "distinct (take ?n (heap_of s) @ [heap_of s ! ?n])" using d by (simp add: members_def)
  have "frame s0 s' \<and> placed ?n s' \<and> load.is_heap (tgt s) ?n (heap_of s')
      \<and> set (take ?n (heap_of s')) = set (members s) - {t}"
  proof (cases "?i = ?n")
    case True
    then have r: "s' = s0" using ix(1) by (auto simp: s'_def s0_def heap_remove_def Let_def upd_grp_def)
    have "set (take ?n (heap_of s)) = set (members s) - {t}" using ms dm True ix(2) by auto
    moreover have "placed ?n s0" using ok len by (auto simp: group_ok_def placed_def s0_def upd_grp_def distinct_take
        dest: distinct_take_nth) (metis d diff_le_self distinct_take min.absorb1 take_take)
    moreover have "load.is_heap (tgt s) ?n (heap_of s0)" using hp by (auto simp: load.is_heap_def s0_def upd_grp_def)
    ultimately show ?thesis using r by (simp add: s0_def upd_grp_def)
  next
    case False
    then have i: "?i < ?n" using ix(1) by simp
    from heap_remove_moved [OF inv t False]
    have sf: "sifted ?n ((heap_of s)[?i := heap_of s ! ?n]) s0 s'" by (simp add: s'_def s0_def)
    have "?n \<le> length (heap_of s)" using len by simp
    from nth_take_mem [OF i this] have tm: "t \<in> set (take ?n (heap_of s))" by (simp add: ix(2))
    have "set (take ?n ((heap_of s)[?i := heap_of s ! ?n])) = insert (heap_of s ! ?n) (set (take ?n (heap_of s)) - {take ?n (heap_of s) ! ?i})"
      unfolding take_update_swap by (rule set_update_distinct) (use dm i len in auto)
    then have "set (take ?n ((heap_of s)[?i := heap_of s ! ?n])) = set (members s) - {t}"
      using ms dm i ix(2) tm by auto
    moreover have "set (take ?n (heap_of s')) = set (take ?n ((heap_of s)[?i := heap_of s ! ?n]))"
      using sf by (auto simp: sifted_def dest: mset_eq_setD)
    moreover have "tgt s0 = tgt s" by (simp add: s0_def upd_grp_def)
    ultimately show ?thesis using sf by (simp add: sifted_def)
  qed
  then show "frame s0 s'" "placed ?n s'" "load.is_heap (tgt s) ?n (heap_of s')"
    "set (take ?n (heap_of s')) = set (members s) - {t}" by blast+
qed

lemma group_remove_ok:
  assumes inv: "group_inv s" and t: "group (tgt s t) = gself (grp s)" "wait_cnt (tgt s t) = 0"
  shows "\<exists>s'. group_remove t s = (Inr (), s') \<and> group_inv s' \<and> set (members s') = set (members s) - {t}
    \<and> (\<forall>a. cur_load (tgt s' a) = cur_load (tgt s a) \<and> max_load (tgt s' a) = max_load (tgt s a))
    \<and> group (tgt s' t) = 0
    \<and> g_cur_load (grp s') + cur_load (tgt s t) = g_cur_load (grp s)
    \<and> g_max_load (grp s') + max_load (tgt s t) = g_max_load (grp s)"
proof -
  let ?n = "hsize s - 1"
  have ok: "group_ok s" using inv by (simp add: group_inv_def)
  have tm: "t \<in> set (members s)" using ok t(1) by (simp add: group_ok_def)
  define s1 where "s1 = heap_remove (index (tgt s t)) s"
  note r = heap_remove_ok [OF inv tm, folded s1_def]
  have ff: "cur_load (tgt s1 a) = cur_load (tgt s a)" "max_load (tgt s1 a) = max_load (tgt s a)"
    "group (tgt s1 a) = group (tgt s a)" "hsize s1 = ?n" "gself (grp s1) = gself (grp s)"
    "heap_buf_size (grp s1) = heap_buf_size (grp s)" "g_max_load (grp s1) = g_max_load (grp s)"
    "g_cur_load (grp s1) = g_cur_load (grp s)" "length (heap_of s1) = length (heap_of s)" for a
    using frame_fields [OF r(1)] by (simp_all add: upd_grp_def)
  have le: "cur_load (tgt s t) \<le> g_cur_load (grp s)" "max_load (tgt s t) \<le> g_max_load (grp s)" "g_max_load (grp s) < 2 ^ 64" "g_cur_load (grp s) < 2 ^ 64"
    using total_cur_member [OF ok tm] total_max_member [OF ok tm] total_max_bound [OF ok] total_cur_le [OF ok] ok
    by (simp_all add: group_ok_def)
  define s2 where "s2 = upd_tgt t (\<lambda>x. x\<lparr>group := 0\<rparr>) (upd_grp (\<lambda>g. g\<lparr>g_max_load := g_max_load (grp s) - max_load (tgt s t),
      g_cur_load := g_cur_load (grp s) - cur_load (tgt s t)\<rparr>) s1)"
  have run: "group_remove t s = (Inr (), s2)"
    using t le ff by (simp add: group_remove_def Let_def s2_def s1_def [symmetric] sub64_small upd_grp_def)
  have f2: "cur_load (tgt s2 a) = cur_load (tgt s a)" "max_load (tgt s2 a) = max_load (tgt s a)"
    "group (tgt s2 a) = (if a = t then 0 else group (tgt s a))" "index (tgt s2 a) = index (tgt s1 a)"
    "hsize s2 = ?n" "heap_of s2 = heap_of s1" "gself (grp s2) = gself (grp s)" "heap_buf_size (grp s2) = heap_buf_size (grp s)"
    "g_max_load (grp s2) = g_max_load (grp s) - max_load (tgt s t)" "g_cur_load (grp s2) = g_cur_load (grp s) - cur_load (tgt s t)" for a
    using ff by (simp_all add: s2_def upd_tgt_def upd_grp_def)
  have mm: "set (members s2) = set (members s) - {t}" using r(4) by (simp add: members_def f2)
  have "total f s2 + f (tgt s t) = total f s" if "\<And>a. f (tgt s2 a) = f (tgt s a)" for f
    using tm sum.remove [of "set (members s)" t "\<lambda>a. f (tgt s a)"] by (simp add: total_def mm that)
  then have tot: "total cur_load s2 + cur_load (tgt s t) = total cur_load s" "total max_load s2 + max_load (tgt s t) = total max_load s"
    by (simp_all add: f2)
  have "placed (hsize s2) s2" using r(2) by (simp add: placed_def f2)
  moreover have "\<forall>a. a \<in> set (members s2) \<longrightarrow> loads_ok (tgt s2 a)" using ok by (auto simp: mm loads_ok_def f2 group_ok_def)
  moreover have "\<forall>a. group (tgt s2 a) = gself (grp s2) \<longleftrightarrow> a \<in> set (members s2)" using ok by (auto simp: mm f2 group_ok_def)
  ultimately have "group_ok s2" using ok tot by (auto simp: group_ok_def f2 ff)
  moreover have "target_cmp (tgt s2) = target_cmp (tgt s)" by (simp add: target_cmp_def fun_eq_iff f2)
  then have "load.is_heap (tgt s2) (hsize s2) (heap_of s2)" using r(3) by (simp add: f2)
  ultimately show ?thesis using run mm f2 le by (auto simp: group_inv_def)
qed

subsection \<open>Waiting\<close>

text \<open>What other threads do while a call waits keeps the group consistent.\<close>

definition others_ok :: "wake list \<Rightarrow> bool" where
  "others_ok ws \<longleftrightarrow> (\<forall>(ret, other) \<in> set ws. \<forall>s. group_inv s \<longrightarrow> group_inv (other s))"

lemma wait_cnt_inv: "group_inv (upd_grp (\<lambda>g. g\<lparr>g_wait_cnt := k\<rparr>) s) = group_inv s"
  by (simp add: group_inv_def group_ok_def placed_def members_def total_def upd_grp_def)

lemma group_wait_inv:
  "group_inv s \<Longrightarrow> others_ok ws \<Longrightarrow> group_wait ws s = Some (ret, s') \<Longrightarrow>
   group_inv s' \<and> (g_cur_load (grp s') < g_max_load (grp s') \<or> ret \<noteq> None)"
proof (induction ws arbitrary: s)
  case (Cons w ws)
  obtain r f where w: "w = (r, f)" by (cases w)
  let ?a = "upd_grp (\<lambda>g. g\<lparr>g_wait_cnt := g_wait_cnt g + 1\<rparr>) s"
  let ?b = "upd_grp (\<lambda>g. g\<lparr>g_wait_cnt := g_wait_cnt g - 1\<rparr>) (f ?a)"
  have "group_inv ?a" using Cons.prems(1) wait_cnt_inv [of _ s] by (simp add: upd_grp_def)
  then have "group_inv (f ?a)" using Cons.prems(2) w by (simp add: others_ok_def)
  then have b: "group_inv ?b" using wait_cnt_inv [of _ "f ?a"] by (simp add: upd_grp_def)
  show ?case
  proof (cases "g_cur_load (grp ?b) \<ge> g_max_load (grp ?b) \<and> r = None")
    case True
    then have "group_wait ws ?b = Some (ret, s')" using Cons.prems(3) by (simp add: w Let_def)
    then show ?thesis using Cons.IH [OF b] Cons.prems(2) by (simp add: others_ok_def)
  next
    case False
    then have "ret = r" "s' = ?b" using Cons.prems(3) by (auto simp: w Let_def split: if_splits)
    then show ?thesis using b False by auto
  qed
qed simp

lemma group_acquire_room:
  assumes inv: "group_inv s" and room: "g_cur_load (grp s) < g_max_load (grp s)"
  defines "t \<equiv> heap_of s ! 0"
  shows "\<exists>s'. group_acquire ws tmo s = Some (Inr t, s') \<and> load_step t 1 s s'"
proof -
  have ok: "group_ok s" using inv by (simp add: group_inv_def)
  note r = root_has_room [OF inv room]
  have "0 < hsize s" using r(1) by (cases "hsize s") (auto simp: members_def)
  then have "index (tgt s t) = 0" using ok by (simp add: group_ok_def placed_def t_def)
  moreover have "load_step t 1 s (heapify (index (tgt s t))
      (upd_grp (\<lambda>g. g\<lparr>g_cur_load := add64 (g_cur_load g) 1\<rparr>) (upd_tgt t (\<lambda>x. x\<lparr>cur_load := add64 (cur_load x) 1\<rparr>) s)))"
    using acquire_step [OF inv r] by (simp add: t_def)
  ultimately show ?thesis using room by (simp add: group_acquire_def Let_def t_def)
qed

lemma group_init_inv:
  assumes "g \<noteq> 0" and "\<And>a. group (tgt s a) \<noteq> g"
  shows "\<exists>s'. group_init None g s = (Inr (), s') \<and> group_inv s' \<and> members s' = [] \<and> tgt s' = tgt s
    \<and> g_cur_load (grp s') = 0 \<and> g_max_load (grp s') = 0 \<and> gself (grp s') = g \<and> heap_buf_size (grp s') = 4 \<and> hsize s' = 0"
  using assms by (simp add: group_init_def group_inv_def group_ok_def placed_def members_def total_def load.is_heap_def)

lemma target_acquire_room:
  assumes inv: "group_inv s" and t: "t \<in> set (members s)" and room: "cur_load (tgt s t) < max_load (tgt s t)"
  shows "\<exists>s'. target_acquire ws tmo t s = Some (Inr t, s') \<and> load_step t 1 s s'"
proof -
  have g: "group (tgt s t) \<noteq> 0" using inv t by (metis group_inv_def group_ok_def)
  have "load_step t 1 s (heapify (index (tgt s t))
      (upd_grp (\<lambda>g. g\<lparr>g_cur_load := add64 (g_cur_load g) 1\<rparr>) (upd_tgt t (\<lambda>x. x\<lparr>cur_load := add64 (cur_load x) 1\<rparr>) s)))"
    by (rule acquire_step [OF inv t room])
  then show ?thesis using room g by (simp add: target_acquire_def Let_def upd_tgt_def)
qed

lemma load_step_inverse:
  assumes "load_step t 1 s s1" and "load_step t (-1) s1 s2"
  shows "group_inv s2 \<and> set (members s2) = set (members s) \<and> (\<forall>a. cur_load (tgt s2 a) = cur_load (tgt s a))
    \<and> g_cur_load (grp s2) = g_cur_load (grp s)"
proof -
  have "int (cur_load (tgt s2 a)) = int (cur_load (tgt s a))" for a
  proof -
    have "int (cur_load (tgt s2 a)) = int (cur_load (tgt s1 a)) + (if a = t then -1 else 0)"
      "int (cur_load (tgt s1 a)) = int (cur_load (tgt s a)) + (if a = t then 1 else 0)"
      using assms unfolding load_step_def by blast+
    then show ?thesis by simp
  qed
  moreover have "int (g_cur_load (grp s2)) = int (g_cur_load (grp s))" using assms unfolding load_step_def by linarith
  ultimately show ?thesis using assms by (simp add: load_step_def)
qed

subsection \<open>Properties\<close>

definition demo_target :: CommSchedTarget where
  "demo_target = \<lparr>max_load = 2, cur_load = 0, group = 0, index = 0, wait_cnt = 0\<rparr>"

definition demo_sched :: sched where
  "demo_sched = snd (group_init None 7 \<lparr>tgt = \<lambda>_. demo_target,
     grp = \<lparr>gself = 0, g_max_load = 0, g_cur_load = 0, tg_heap = [], heap_size = 0, heap_buf_size = 0, g_wait_cnt = 0\<rparr>,
     signals = []\<rparr>)"

lemma demo_sched_inv: "group_inv demo_sched" "group (tgt demo_sched t) = 0" "wait_cnt (tgt demo_sched t) = 0"
    "loads_ok (tgt demo_sched t)" "hsize demo_sched < 2 ^ 30" "hsize demo_sched \<noteq> heap_buf_size (grp demo_sched)"
    "members demo_sched = []" "g_cur_load (grp demo_sched) = 0" "g_max_load (grp demo_sched) = 0"
  using group_init_inv [of 7 "\<lparr>tgt = \<lambda>_. demo_target,
     grp = \<lparr>gself = 0, g_max_load = 0, g_cur_load = 0, tg_heap = [], heap_size = 0, heap_buf_size = 0, g_wait_cnt = 0\<rparr>,
     signals = []\<rparr>"]
  by (auto simp: demo_sched_def demo_target_def loads_ok_def)

lemma demo_member: "\<exists>s. group_inv s \<and> set (members s) = {5} \<and> cur_load (tgt s 5) = 0 \<and> max_load (tgt s 5) = 2
    \<and> g_cur_load (grp s) = 0 \<and> g_max_load (grp s) = 2"
proof -
  have "cur_load (tgt demo_sched 5) = 0" "max_load (tgt demo_sched 5) = 2"
    by (simp_all add: demo_sched_def group_init_def demo_target_def)
  then show ?thesis
    using group_add_ok [OF demo_sched_inv(1-5), of False 5] demo_sched_inv(6-9) by auto
qed

text \<open>C6: A group with spare capacity hands out, without waiting, a member whose relative load is
  least among its members and which has a free connection; its load and that of the group go up by
  one, every other load stays, and the heap, the positions the targets remember and the load sums of
  the group stay consistent. A full group with a zero timeout reports \<^verbatim>\<open>EAGAIN\<close> and changes
  nothing.\<close>

theorem group_acquire_least:
  assumes "group_inv s"
  shows "if g_cur_load (grp s) < g_max_load (grp s)
    then \<exists>t s'. group_acquire wakes timeout s = Some (Inr t, s') \<and> t \<in> set (members s)
      \<and> cur_load (tgt s t) < max_load (tgt s t)
      \<and> (\<forall>a \<in> set (members s). cur_load (tgt s t) * max_load (tgt s a) \<le> cur_load (tgt s a) * max_load (tgt s t))
      \<and> load_step t 1 s s'
    else group_acquire wakes 0 s = Some (Inl EAGAIN, s)"
proof (cases "g_cur_load (grp s) < g_max_load (grp s)")
  case True
  then show ?thesis
    using group_acquire_room [OF assms True, of wakes timeout] root_has_room [OF assms True] group_inv_least(1) [OF assms]
    by (metis (no_types, lifting))
qed (simp add: group_acquire_def)

theorem group_acquire_least_witness:
  "\<exists>s s'. group_inv s \<and> group_acquire [] 0 s = Some (Inr 5, s') \<and> load_step 5 1 s s'"
proof -
  obtain s where s: "group_inv s" "set (members s) = {5}" "g_cur_load (grp s) = 0" "g_max_load (grp s) = 2"
    using demo_member by auto
  then show ?thesis using group_acquire_least [OF s(1), of "[]" 0] by auto
qed

text \<open>C17: A call that waits on a full group, for any sequence of wake-ups between which other
  threads keep the group consistent, returns either a target, with the group still consistent, or an
  error, and then the group is still full and consistent: no error is reported while a connection is
  free.\<close>

theorem group_acquire_waits:
  assumes "group_inv s" and "others_ok wakes" and "group_acquire wakes timeout s = Some (r, s')"
  shows "group_inv s' \<and> (case r of Inr t \<Rightarrow> t \<in> set (members s')
    | Inl e \<Rightarrow> g_max_load (grp s') \<le> g_cur_load (grp s'))"
proof -
  have room: ?thesis if "group_inv s1" "g_cur_load (grp s1) < g_max_load (grp s1)"
    "group_acquire wakes timeout s1 = Some (r, s')" for s1
    using group_acquire_room [OF that(1,2), of wakes timeout] root_has_room [OF that(1,2)] that(3)
    by (auto simp: load_step_def)
  show ?thesis
  proof (cases "g_cur_load (grp s) < g_max_load (grp s)")
    case True
    then show ?thesis using room assms by blast
  next
    case full: False
    show ?thesis
    proof (cases "timeout = 0")
      case True
      then show ?thesis using full assms by (auto simp: group_acquire_def)
    next
      case False
      then obtain ret s1 where w: "group_wait wakes s = Some (ret, s1)"
        using full assms(3) by (auto simp: group_acquire_def split: Option.bind_splits)
      note i = group_wait_inv [OF assms(1,2) w]
      show ?thesis
      proof (cases "g_cur_load (grp s1) < g_max_load (grp s1)")
        case True
        then have "group_acquire wakes timeout s1 = Some (r, s')"
          using assms(3) full False w by (simp add: group_acquire_def)
        then show ?thesis using room i True by blast
      next
        case f1: False
        then show ?thesis using assms(3) full False w i by (auto simp: group_acquire_def)
      qed
    qed
  qed
qed

theorem group_acquire_waits_witness:
  "group_inv demo_sched \<and> others_ok [(Some ETIMEDOUT, id)]
   \<and> (\<exists>s'. group_acquire [(Some ETIMEDOUT, id)] 50 demo_sched = Some (Inl ETIMEDOUT, s') \<and> group_inv s')"
proof -
  have o: "others_ok [(Some ETIMEDOUT, id)]" by (simp add: others_ok_def)
  have "\<exists>s'. group_acquire [(Some ETIMEDOUT, id)] 50 demo_sched = Some (Inl ETIMEDOUT, s')"
    using demo_sched_inv(8,9) by (simp add: group_acquire_def upd_grp_def)
  then obtain s' where s': "group_acquire [(Some ETIMEDOUT, id)] 50 demo_sched = Some (Inl ETIMEDOUT, s')" ..
  then show ?thesis using group_acquire_waits [OF demo_sched_inv(1) o s'] o demo_sched_inv(1) by auto
qed

text \<open>C21: Releasing a connection undoes acquiring it: after \<^verbatim>\<open>acquire\<close> and \<^verbatim>\<open>release\<close> of a member all
  loads are as before and the group is consistent; in particular a request on the group or on the member that the
  communicator refuses leaves no load behind.\<close>

theorem acquire_release_balance:
  assumes "group_inv s" and "t \<in> set (members s)" and "cur_load (tgt s t) < max_load (tgt s t)"
  shows "(\<exists>s1. target_acquire wakes timeout t s = Some (Inr t, s1) \<and> load_step t 1 s s1
      \<and> group_inv (target_release t s1) \<and> (\<forall>a. cur_load (tgt (target_release t s1) a) = cur_load (tgt s a))
      \<and> g_cur_load (grp (target_release t s1)) = g_cur_load (grp s))
    \<and> (\<forall>ob \<in> {SchedGroup, SchedTarget t}. \<exists>u s2. sched_request (\<lambda>_. False) ob wakes timeout s = Some (Inr u, -1, s2) \<and> group_inv s2
      \<and> (\<forall>a. cur_load (tgt s2 a) = cur_load (tgt s a)) \<and> g_cur_load (grp s2) = g_cur_load (grp s))"
proof -
  have rel: "group_inv (target_release u s1) \<and> (\<forall>a. cur_load (tgt (target_release u s1) a) = cur_load (tgt s a))
      \<and> g_cur_load (grp (target_release u s1)) = g_cur_load (grp s)"
    if u: "load_step u 1 s s1" "u \<in> set (members s)" for u s1
  proof -
    have "group_inv s1" "u \<in> set (members s1)" "0 < cur_load (tgt s1 u)"
    proof -
      have "int (cur_load (tgt s1 u)) = int (cur_load (tgt s u)) + 1" using u(1) by (simp add: load_step_def)
      then show "0 < cur_load (tgt s1 u)" by linarith
    qed (use u in \<open>simp_all add: load_step_def\<close>)
    from load_step_inverse [OF u(1) target_release_step [OF this]] show ?thesis by simp
  qed
  have ok: "group_ok s" using assms(1) by (simp add: group_inv_def)
  have "total cur_load s < total max_load s"
    unfolding total_def by (rule sum_strict_mono_ex1) (use ok assms(2,3) in \<open>auto simp: group_ok_def loads_ok_def\<close>)
  then have room: "g_cur_load (grp s) < g_max_load (grp s)" using ok by (simp add: group_ok_def)
  obtain s1 where "group_acquire wakes timeout s = Some (Inr (heap_of s ! 0), s1)" "load_step (heap_of s ! 0) 1 s s1"
    using group_acquire_room [OF assms(1) room] by blast
  then have "\<exists>u s2. sched_request (\<lambda>_. False) SchedGroup wakes timeout s = Some (Inr u, -1, s2) \<and> group_inv s2
      \<and> (\<forall>a. cur_load (tgt s2 a) = cur_load (tgt s a)) \<and> g_cur_load (grp s2) = g_cur_load (grp s)"
    using rel [OF _ root_has_room(1) [OF assms(1) room]] by (simp add: sched_request_def object_acquire_def)
  moreover obtain s1 where s1: "target_acquire wakes timeout t s = Some (Inr t, s1)" "load_step t 1 s s1"
    using target_acquire_room [OF assms, of wakes timeout] by blast
  moreover have "\<exists>u s2. sched_request (\<lambda>_. False) (SchedTarget t) wakes timeout s = Some (Inr u, -1, s2) \<and> group_inv s2
      \<and> (\<forall>a. cur_load (tgt s2 a) = cur_load (tgt s a)) \<and> g_cur_load (grp s2) = g_cur_load (grp s)"
    using s1 rel [OF s1(2) assms(2)] by (simp add: sched_request_def object_acquire_def)
  ultimately show ?thesis using rel [OF s1(2) assms(2)] by simp
qed

theorem acquire_release_balance_witness:
  "\<exists>s s1. group_inv s \<and> 5 \<in> set (members s) \<and> target_acquire [] 0 5 s = Some (Inr 5, s1)
     \<and> cur_load (tgt (target_release 5 s1) 5) = 0"
proof -
  obtain s where s: "group_inv s" "5 \<in> set (members s)" "cur_load (tgt s 5) = 0" "max_load (tgt s 5) = 2"
    using demo_member by auto
  then show ?thesis using acquire_release_balance [OF s(1,2), of "[]" 0] by fastforce
qed

text \<open>Adding an idle target to a group, and removing a member without waiters: both succeed, keep
  the group consistent, change the members by exactly this target and the load sums by its loads; a target of
  this group is refused with \<^verbatim>\<open>EEXIST\<close>, one of another group with \<^verbatim>\<open>EINVAL\<close>, one with waiters with
  \<^verbatim>\<open>EBUSY\<close>, and removing a stranger with \<^verbatim>\<open>ENOENT\<close>, all without a change.\<close>

theorem group_add_remove:
  assumes "group_inv s" and "loads_ok (tgt s t)" and "hsize s < 2 ^ 30" and "mem \<or> hsize s \<noteq> heap_buf_size (grp s)"
  shows "if group (tgt s t) = 0 \<and> wait_cnt (tgt s t) = 0
    then \<exists>s'. group_add mem t s = (Inr (), s') \<and> group_inv s' \<and> set (members s') = insert t (set (members s))
        \<and> g_max_load (grp s') = g_max_load (grp s) + max_load (tgt s t) \<and> snd (group_remove t s) = s
    else fst (group_add mem t s) = Inl (if group (tgt s t) = gself (grp s) then EEXIST
           else if group (tgt s t) \<noteq> 0 then EINVAL else EBUSY)
      \<and> snd (group_add mem t s) = s
      \<and> (if group (tgt s t) = gself (grp s) \<and> wait_cnt (tgt s t) = 0
         then \<exists>s'. group_remove t s = (Inr (), s') \<and> group_inv s' \<and> set (members s') = set (members s) - {t}
            \<and> g_cur_load (grp s') + cur_load (tgt s t) = g_cur_load (grp s)
         else group_remove t s = (Inl (if group (tgt s t) \<noteq> gself (grp s) then ENOENT else EBUSY), s))"
proof -
  have g: "gself (grp s) \<noteq> 0" using assms(1) by (simp add: group_inv_def group_ok_def)
  show ?thesis
    using group_add_ok [OF assms(1) _ _ assms(2-4)] group_remove_ok [OF assms(1), of t] g
    by (auto simp: group_add_def group_remove_def)
qed

theorem group_add_remove_witness:
  "group_inv demo_sched \<and> (\<exists>s'. group_add True 5 demo_sched = (Inr (), s') \<and> set (members s') = {5})"
  using group_add_remove [OF demo_sched_inv(1,4,5), of True 5] demo_sched_inv by auto

text \<open>The absolute deadline is the current time plus the timeout in milliseconds, with
  nanoseconds in range; a negative timeout means no deadline.\<close>

theorem get_abstime_correct:
  assumes "0 \<le> snd now" and "snd now < 1000000000"
  shows "case get_abstime timeout now of
      None \<Rightarrow> timeout < 0
    | Some (sec, nsec) \<Rightarrow> 0 \<le> timeout \<and> 0 \<le> nsec \<and> nsec < 1000000000
        \<and> sec * 1000000000 + nsec = fst now * 1000000000 + snd now + timeout * 1000000"
proof -
  have t: "timeout = 1000 * (timeout div 1000) + timeout mod 1000" by simp
  have m: "0 \<le> timeout mod 1000" "timeout mod 1000 < 1000" by simp_all
  have "timeout * 1000000 = timeout div 1000 * 1000000000 + timeout mod 1000 * 1000000" using t by linarith
  then show ?thesis using assms m by (auto simp: get_abstime_def Let_def algebra_simps)
qed

theorem get_abstime_correct_witness:
  "get_abstime 2500 (10, 700000000) = Some (13, 200000000)
   \<and> (case get_abstime 2500 (10, 700000000) of None \<Rightarrow> False | Some (sec, nsec) \<Rightarrow> nsec < 1000000000)"
  using get_abstime_correct [of "(10, 700000000)" 2500] by (simp add: get_abstime_def)

end
