(* ===== verification/HttpParser.thy ===== *)
theory HttpParser imports LinkedList "HOL-Library.Code_Target_Nat" begin

text \<open>
  The incremental HTTP parser of \<^verbatim>\<open>protocol/http_parser.c\<close>. The message buffer is the list of the
  bytes received; the intrusive list of header lines is the sequence of its nodes (what
  \<^verbatim>\<open>LinkedList\<close> shows \<^verbatim>\<open>list_add_tail\<close> and the traversals to act on). \<open>mem n\<close> says whether an
  allocation of \<open>n\<close> bytes succeeds. The locale \<open>resumable\<close> states what makes incremental parsing
  work: a step that reached a verdict keeps it when more bytes arrive, and a step that had to wait
  can be run again.
\<close>

subsection \<open>Numbers\<close>

definition digit_val :: "char \<Rightarrow> nat" where
  "digit_val c = (if isdigit c then ord c - 48 else if islower c then ord c - 87
     else if isupper c then ord c - 55 else 99)"

fun digits_val :: "nat \<Rightarrow> string \<Rightarrow> int \<Rightarrow> int" where
  "digits_val base [] acc = acc"
| "digits_val base (c # cs) acc = (if digit_val c < base then digits_val base cs (acc * int base + int (digit_val c)) else acc)"

definition LONG_MAX :: int where "LONG_MAX = 2 ^ 63 - 1"

text \<open>\<^verbatim>\<open>strtol\<close> on a C string: the value, and whether any digit was read.\<close>

definition strtol :: "nat \<Rightarrow> string \<Rightarrow> int \<times> bool" where
  "strtol base s =
     (let s = dropWhile isspace s;
          neg = (s \<noteq> [] \<and> hd s = CHR ''-'');
          s = (if s \<noteq> [] \<and> (hd s = CHR ''-'' \<or> hd s = CHR ''+'') then tl s else s);
          s = (if base = 16 \<and> length s > 2 \<and> s ! 0 = CHR ''0'' \<and> tolower (s ! 1) = CHR ''x'' \<and> digit_val (s ! 2) < 16
               then drop 2 s else s);
          v = digits_val base s 0
      in (if neg then max (- LONG_MAX - 1) (- v) else min LONG_MAX v, s \<noteq> [] \<and> digit_val (hd s) < base))"

text \<open>\<^verbatim>\<open>(size_t)atoi(s)\<close>: the low 32 bits of the number, sign extended to 64 bits.\<close>

definition atoi_size :: "string \<Rightarrow> nat" where
  "atoi_size s = (let v = fst (strtol 10 s) mod 2 ^ 32 in nat ((if v \<ge> 2 ^ 31 then v - 2 ^ 32 else v) mod 2 ^ 64))"

subsection \<open>State\<close>

datatype header_state = HPS_START_LINE | HPS_HEADER_NAME | HPS_HEADER_VALUE | HPS_HEADER_COMPLETE

datatype chunk_state = CPS_CHUNK_DATA | CPS_TRAILER_PART | CPS_CHUNK_COMPLETE

record header_line =
  name_len :: nat
  value_len :: nat
  line_buf :: string

record http_parser =
  hstate :: header_state
  cstate :: chunk_state
  header_offset :: nat
  chunk_offset :: nat
  content_length :: nat
  transfer_length :: nat
  version :: "string option"
  method_of :: "string option"
  uri_of :: "string option"
  code_of :: "string option"
  phrase_of :: "string option"
  header_list :: "header_line list"
  namebuf :: string
  msgbuf :: string
  bufsize :: nat
  expect_continue :: bool
  keep_alive :: bool
  chunked :: bool
  complete :: bool
  is_resp :: bool

abbreviation HTTP_START_LINE_MAX :: nat where "HTTP_START_LINE_MAX \<equiv> 8192"
abbreviation HTTP_HEADER_NAME_MAX :: nat where "HTTP_HEADER_NAME_MAX \<equiv> 64"
abbreviation HTTP_HEADER_VALUE_MAX :: nat where "HTTP_HEADER_VALUE_MAX \<equiv> 8192"
abbreviation HTTP_CHUNK_LINE_MAX :: nat where "HTTP_CHUNK_LINE_MAX \<equiv> 1024"
abbreviation HTTP_TRAILER_LINE_MAX :: nat where "HTTP_TRAILER_LINE_MAX \<equiv> 8192"
abbreviation HTTP_MSGBUF_INIT_SIZE :: nat where "HTTP_MSGBUF_INIT_SIZE \<equiv> 2048"
abbreviation SIZE_NONE :: nat where "SIZE_NONE \<equiv> 2 ^ 64 - 1"

definition http_parser_init :: "bool \<Rightarrow> http_parser \<Rightarrow> http_parser" where
  "http_parser_init resp p = p\<lparr>hstate := HPS_START_LINE, header_offset := 0, transfer_length := SIZE_NONE,
     content_length := (if resp then SIZE_NONE else 0), version := None, method_of := None, uri_of := None,
     code_of := None, phrase_of := None, header_list := [], msgbuf := [], bufsize := 0,
     expect_continue := False, keep_alive := True, chunked := False, complete := False, is_resp := resp\<rparr>"

subsection \<open>Header lines\<close>

text \<open>\<^verbatim>\<open>memcpy(buf + at, src, n)\<close>\<close>

definition write_at :: "nat \<Rightarrow> 'a list \<Rightarrow> 'a list \<Rightarrow> 'a list" where
  "write_at at src buf = take at buf @ src @ drop (at + length src) buf"

abbreviation sizeof_header_line :: nat where "sizeof_header_line \<equiv> 32"

definition http_parser_add_header :: "(nat \<Rightarrow> bool) \<Rightarrow> string \<Rightarrow> string \<Rightarrow> http_parser \<Rightarrow> int \<times> http_parser" where
  "http_parser_add_header mem name val p =
     (if mem (sizeof_header_line + length name + length val + 4)
      then (0, p\<lparr>header_list := header_list p @
        [\<lparr>name_len = length name, value_len = length val, line_buf = name @ '': '' @ val @ [CR, LF]\<rparr>]\<rparr>)
      else (-1, p))"

text \<open>\<^verbatim>\<open>line->name_len == name_len && strncasecmp(line->buf, name, name_len) == 0\<close>\<close>

definition line_matches :: "string \<Rightarrow> header_line \<Rightarrow> bool" where
  "line_matches name l \<longleftrightarrow> name_len l = length name \<and> strcaseeq (take (length name) (line_buf l)) name"

definition line_set_value :: "(nat \<Rightarrow> bool) \<Rightarrow> string \<Rightarrow> string \<Rightarrow> header_line \<Rightarrow> header_line option" where
  "line_set_value mem name val l =
     (if length val > value_len l \<and> \<not> mem (length name + length val + 4) then None
      else
        (let buf = (if length val > value_len l then name @ '': '' @ replicate (length val + 2) NUL else line_buf l);
             buf = write_at (length name + 2) val buf;
             buf = write_at (length name + 2 + length val) [CR, LF] buf
         in Some (l\<lparr>line_buf := buf, value_len := length val\<rparr>)))"

fun set_header_loop :: "(nat \<Rightarrow> bool) \<Rightarrow> string \<Rightarrow> string \<Rightarrow> header_line list \<Rightarrow> (int \<times> header_line list) option" where
  "set_header_loop mem name val [] = None"
| "set_header_loop mem name val (l # ls) =
     (if line_matches name l then
        (case line_set_value mem name val l of None \<Rightarrow> Some (-1, l # ls) | Some l' \<Rightarrow> Some (0, l' # ls))
      else map_option (apsnd ((#) l)) (set_header_loop mem name val ls))"

definition http_parser_set_header :: "(nat \<Rightarrow> bool) \<Rightarrow> string \<Rightarrow> string \<Rightarrow> http_parser \<Rightarrow> int \<times> http_parser" where
  "http_parser_set_header mem name val p =
     (case set_header_loop mem name val (header_list p) of
        Some (ret, ls) \<Rightarrow> (ret, p\<lparr>header_list := ls\<rparr>)
      | None \<Rightarrow> http_parser_add_header mem name val p)"

text \<open>A cursor is the number of lines already visited; \<open>next\<close> and \<open>find\<close> return name and value.\<close>

definition line_name :: "header_line \<Rightarrow> string" where
  "line_name l = take (name_len l) (line_buf l)"

definition line_value :: "header_line \<Rightarrow> string" where
  "line_value l = take (value_len l) (drop (name_len l + 2) (line_buf l))"

definition http_header_cursor_next :: "http_parser \<Rightarrow> nat \<Rightarrow> (string \<times> string) option \<times> nat" where
  "http_header_cursor_next p cur =
     (if cur < length (header_list p)
      then (let l = header_list p ! cur in (Some (line_name l, line_value l), cur + 1))
      else (None, cur))"

fun cursor_find_loop :: "string \<Rightarrow> header_line list \<Rightarrow> nat \<Rightarrow> string option \<times> nat" where
  "cursor_find_loop name [] cur = (None, cur)"
| "cursor_find_loop name (l # ls) cur =
     (if line_matches name l then (Some (line_value l), cur + 1) else cursor_find_loop name ls (cur + 1))"

definition http_header_cursor_find :: "string \<Rightarrow> http_parser \<Rightarrow> nat \<Rightarrow> string option \<times> nat" where
  "http_header_cursor_find name p cur = cursor_find_loop name (drop cur (header_list p)) cur"

subsection \<open>Setting the parts of the start line\<close>

definition strdup_ok :: "(nat \<Rightarrow> bool) \<Rightarrow> string \<Rightarrow> bool" where
  "strdup_ok mem s \<longleftrightarrow> mem (length s + 1)"

definition http_parser_set_method :: "(nat \<Rightarrow> bool) \<Rightarrow> string \<Rightarrow> http_parser \<Rightarrow> int \<times> http_parser" where
  "http_parser_set_method mem s p = (if strdup_ok mem s then (0, p\<lparr>method_of := Some s\<rparr>) else (-1, p))"

definition http_parser_set_uri :: "(nat \<Rightarrow> bool) \<Rightarrow> string \<Rightarrow> http_parser \<Rightarrow> int \<times> http_parser" where
  "http_parser_set_uri mem s p = (if strdup_ok mem s then (0, p\<lparr>uri_of := Some s\<rparr>) else (-1, p))"

definition http_parser_set_version :: "(nat \<Rightarrow> bool) \<Rightarrow> string \<Rightarrow> http_parser \<Rightarrow> int \<times> http_parser" where
  "http_parser_set_version mem s p = (if strdup_ok mem s then (0, p\<lparr>version := Some s\<rparr>) else (-1, p))"

definition http_parser_set_code :: "(nat \<Rightarrow> bool) \<Rightarrow> string \<Rightarrow> http_parser \<Rightarrow> int \<times> http_parser" where
  "http_parser_set_code mem s p = (if strdup_ok mem s then (0, p\<lparr>code_of := Some s\<rparr>) else (-1, p))"

definition http_parser_set_phrase :: "(nat \<Rightarrow> bool) \<Rightarrow> string \<Rightarrow> http_parser \<Rightarrow> int \<times> http_parser" where
  "http_parser_set_phrase mem s p = (if strdup_ok mem s then (0, p\<lparr>phrase_of := Some s\<rparr>) else (-1, p))"

text \<open>\<^verbatim>\<open>strcmp(version, "HTTP/1.0") == 0 || strncmp(version, "HTTP/0", 6) == 0\<close>\<close>

definition old_version :: "string \<Rightarrow> bool" where
  "old_version v \<longleftrightarrow> v = ''HTTP/1.0'' \<or> take 6 v = ''HTTP/0''"

definition match_request_line :: "(nat \<Rightarrow> bool) \<Rightarrow> string \<Rightarrow> string \<Rightarrow> string \<Rightarrow> http_parser \<Rightarrow> int \<times> http_parser" where
  "match_request_line mem met uri ver p =
     (let p = (if old_version ver then p\<lparr>keep_alive := False\<rparr> else p) in
      if strdup_ok mem met \<and> strdup_ok mem uri \<and> strdup_ok mem ver
      then (0, p\<lparr>method_of := Some met, uri_of := Some uri, version := Some ver\<rparr>)
      else (-1, p))"

definition match_status_line :: "(nat \<Rightarrow> bool) \<Rightarrow> string \<Rightarrow> string \<Rightarrow> string \<Rightarrow> http_parser \<Rightarrow> int \<times> http_parser" where
  "match_status_line mem ver code phrase p =
     (let p = (if old_version ver then p\<lparr>keep_alive := False\<rparr> else p);
          p = (if cstr_at code 0 = CHR ''1'' \<or> code = ''204'' \<or> code = ''304'' then p\<lparr>transfer_length := 0\<rparr> else p) in
      if strdup_ok mem ver \<and> strdup_ok mem code \<and> strdup_ok mem phrase
      then (0, p\<lparr>version := Some ver, code_of := Some code, phrase_of := Some phrase\<rparr>)
      else (-1, p))"

definition match_message_header :: "(nat \<Rightarrow> bool) \<Rightarrow> string \<Rightarrow> string \<Rightarrow> http_parser \<Rightarrow> int \<times> http_parser" where
  "match_message_header mem name val p =
     (let p = (if length name = 6 \<and> strcaseeq name ''Expect'' \<and> strcaseeq val ''100-continue''
               then p\<lparr>expect_continue := True\<rparr> else p);
          p = (if (length name = 6 \<or> length name = 10) \<and> strcaseeq name ''Connection'' then
                 (if strcaseeq val ''Keep-Alive'' then p\<lparr>keep_alive := True\<rparr>
                  else if strcaseeq val ''close'' then p\<lparr>keep_alive := False\<rparr> else p)
               else p);
          p = (if length name = 14 \<and> strcaseeq name ''Content-Length'' \<and> isdigit (cstr_at val 0)
               then p\<lparr>content_length := atoi_size val\<rparr> else p);
          p = (if length name = 17 \<and> strcaseeq name ''Transfer-Encoding'' \<and> (length val \<noteq> 8 \<or> \<not> strcaseeq val ''identity'')
               then p\<lparr>chunked := True\<rparr> else p)
      in http_parser_add_header mem name val p)"

subsection \<open>Lines\<close>

text \<open>
  The loops that look for the end of a line: \<open>rest\<close> is what is left of the input at position
  \<open>i\<close>. \<open>Line i\<close> is a line of \<open>i\<close> bytes followed by CR LF; \<open>Wait\<close> that more bytes are needed.
\<close>

datatype scan = Wait | Fail | Line nat

fun scan_line :: "bool \<Rightarrow> nat \<Rightarrow> nat \<Rightarrow> string \<Rightarrow> scan" where
  "scan_line nul mx i [] = (if i = mx then Fail else Wait)"
| "scan_line nul mx i (c # cs) =
     (if i = mx then Fail
      else if c = CR then (case cs of [] \<Rightarrow> Wait | d # _ \<Rightarrow> (if d \<noteq> LF then Fail else Line i))
      else if nul \<and> c = NUL then Fail
      else scan_line nul mx (i + 1) cs)"

fun name_scan :: "nat \<Rightarrow> string \<Rightarrow> string \<Rightarrow> scan \<times> string" where
  "name_scan i [] nb = (if i = HTTP_HEADER_NAME_MAX then Fail else Wait, nb)"
| "name_scan i (c # cs) nb =
     (if i = HTTP_HEADER_NAME_MAX then (Fail, nb)
      else if c = CHR '':'' then (Line i, nb[i := NUL])
      else if c = NUL then (Fail, nb)
      else name_scan (i + 1) cs (nb[i := c]))"

datatype vscan = VWait | VFail | VFound string string

text \<open>The copy loop of a header value: \<open>acc\<close> is what was copied, the input is not empty.\<close>

fun copy_value :: "string \<Rightarrow> string \<Rightarrow> vscan" where
  "copy_value [] acc = VWait"
| "copy_value (c # cs) acc =
     (if length acc = HTTP_HEADER_VALUE_MAX then VFail
      else if cs = [] then VWait
      else if c = CR then VFound acc cs
      else if c = NUL then VFail
      else copy_value cs (acc @ [c]))"

definition blank :: "char \<Rightarrow> bool" where
  "blank c \<longleftrightarrow> c = CHR '' '' \<or> c = TAB"

fun trim_right :: "string \<Rightarrow> string" where
  "trim_right s = (if s \<noteq> [] \<and> blank (last s) then trim_right (butlast s) else s)"

declare trim_right.simps [simp del]

text \<open>The outer loop; it is left when the next line does not start with a blank, by the condition
  that the source has for it.\<close>

lemma copy_value_length: "copy_value r acc = VFound a cs \<Longrightarrow> length cs < length r"
  by (induction r acc rule: copy_value.induct) (auto split: if_splits)

lemma value_loop_measure:
  "copy_value (dropWhile blank rest) acc = VFound a cs \<Longrightarrow> length (tl (tl cs)) < length rest"
  using copy_value_length [of "dropWhile blank rest" acc a cs] length_dropWhile_le [of blank rest] by simp

function value_loop :: "string \<Rightarrow> string \<Rightarrow> vscan" where
  "value_loop rest acc =
     (let r = dropWhile blank rest in
      if r = [] then VWait
      else (case copy_value r acc of
         VFound acc' cs \<Rightarrow>
           (if hd cs \<noteq> LF then VFail
            else if tl cs = [] then VWait
            else
              (let ds = tl cs; v = trim_right acc' in
               if hd ds \<noteq> CHR '' '' \<or> hd ds \<noteq> TAB then VFound v ds
               else value_loop (tl ds) (v @ '' '')))
       | other \<Rightarrow> other))"
  by pat_completeness auto
termination by (relation "measure (\<lambda>(rest, _). length rest)") (auto simp: value_loop_measure)

declare value_loop.simps [simp del]

subsection \<open>The steps\<close>

definition parse_start_line :: "(nat \<Rightarrow> bool) \<Rightarrow> string \<Rightarrow> http_parser \<Rightarrow> int \<times> http_parser" where
  "parse_start_line mem ptr p =
     (if length ptr \<ge> 2 \<and> ptr ! 0 = CR \<and> ptr ! 1 = LF
      then (1, p\<lparr>header_offset := header_offset p + 2\<rparr>)
      else (case scan_line True HTTP_START_LINE_MAX 0 ptr of
        Wait \<Rightarrow> (0, p)
      | Fail \<Rightarrow> (-2, p)
      | Line i \<Rightarrow>
          (let line = take i ptr;
               p1 = takeWhile (\<lambda>c. c \<noteq> CHR '' '') line; r2 = drop (length p1) line in
           if r2 = [] then (-2, p)
           else
             (let p2 = takeWhile (\<lambda>c. c \<noteq> CHR '' '') (tl r2); r3 = drop (length p2) (tl r2) in
              if r3 = [] then (-2, p)
              else
                (let (ret, p) = (if is_resp p then match_status_line mem p1 p2 (tl r3) p
                                 else match_request_line mem p1 p2 (tl r3) p) in
                 if ret < 0 then (-1, p)
                 else (1, p\<lparr>header_offset := header_offset p + i + 2, hstate := HPS_HEADER_NAME\<rparr>))))))"

definition parse_header_name :: "string \<Rightarrow> http_parser \<Rightarrow> int \<times> http_parser" where
  "parse_header_name ptr p =
     (if length ptr \<ge> 2 \<and> ptr ! 0 = CR \<and> ptr ! 1 = LF
      then (1, p\<lparr>header_offset := header_offset p + 2, hstate := HPS_HEADER_COMPLETE\<rparr>)
      else (case name_scan 0 ptr (namebuf p) of
        (Wait, nb) \<Rightarrow> (0, p\<lparr>namebuf := nb\<rparr>)
      | (Fail, nb) \<Rightarrow> (-2, p\<lparr>namebuf := nb\<rparr>)
      | (Line i, nb) \<Rightarrow> (1, p\<lparr>namebuf := nb, header_offset := header_offset p + i + 1, hstate := HPS_HEADER_VALUE\<rparr>)))"

definition parse_header_value :: "(nat \<Rightarrow> bool) \<Rightarrow> string \<Rightarrow> http_parser \<Rightarrow> int \<times> http_parser" where
  "parse_header_value mem ptr p =
     (case value_loop ptr [] of
        VWait \<Rightarrow> (0, p)
      | VFail \<Rightarrow> (-2, p)
      | VFound v rest \<Rightarrow>
          (let (ret, p) = match_message_header mem (takeWhile (\<lambda>c. c \<noteq> NUL) (namebuf p)) v p in
           if ret < 0 then (-1, p)
           else (1, p\<lparr>header_offset := header_offset p + (length ptr - length rest), hstate := HPS_HEADER_NAME\<rparr>)))"

text \<open>One iteration of the loop of \<^verbatim>\<open>__parse_message_header\<close>.\<close>

definition header_step :: "(nat \<Rightarrow> bool) \<Rightarrow> http_parser \<Rightarrow> string \<Rightarrow> int \<times> http_parser" where
  "header_step mem p ptr =
     (case hstate p of
        HPS_START_LINE \<Rightarrow> parse_start_line mem ptr p
      | HPS_HEADER_VALUE \<Rightarrow> parse_header_value mem ptr p
      | _ \<Rightarrow> parse_header_name ptr p)"

text \<open>A step that succeeds moves the offset forward, within the input.\<close>

lemma scan_line_bounds: "scan_line nul mx i rest = Line j \<Longrightarrow> i \<le> j \<and> j + 2 \<le> i + length rest"
  by (induction nul mx i rest rule: scan_line.induct) (auto split: if_splits list.splits)

lemma name_scan_bounds: "name_scan i rest nb = (Line j, nb') \<Longrightarrow> i \<le> j \<and> j < i + length rest"
  by (induction i rest nb rule: name_scan.induct) (auto split: if_splits)

lemma value_loop_bounds: "value_loop rest acc = VFound v ds \<Longrightarrow> length ds < length rest"
proof (induction rest acc rule: value_loop.induct)
  case (1 rest acc)
  have le: "length (dropWhile blank rest) \<le> length rest" by (rule length_dropWhile_le)
  from 1(2) obtain a cs where c: "copy_value (dropWhile blank rest) acc = VFound a cs"
    by (subst (asm) value_loop.simps) (auto simp: Let_def split: if_splits vscan.splits)
  have "length cs < length rest" using copy_value_length [OF c] le by simp
  moreover have "tl cs = ds \<or> value_loop (tl (tl cs)) (trim_right a @ '' '') = VFound v ds"
    using 1(2) c by (subst (asm) value_loop.simps) (auto simp: Let_def split: if_splits)
  ultimately show ?case using 1(2) c by (subst (asm) value_loop.simps) (auto simp: Let_def split: if_splits)
qed

lemma add_header_offset: "http_parser_add_header mem n v p = (r, q) \<Longrightarrow> header_offset q = header_offset p"
  by (auto simp: http_parser_add_header_def split: if_splits)

lemma match_offsets:
  "match_request_line mem a b c p = (r, q) \<Longrightarrow> header_offset q = header_offset p"
  "match_status_line mem a b c p = (r, q) \<Longrightarrow> header_offset q = header_offset p"
  "match_message_header mem n v p = (r, q) \<Longrightarrow> header_offset q = header_offset p"
  by (auto simp: match_request_line_def match_status_line_def match_message_header_def Let_def
      dest!: add_header_offset split: if_splits)

lemma header_step_progress:
  assumes "header_step mem p ptr = (r, q)" and "r > 0"
  shows "header_offset p < header_offset q \<and> header_offset q \<le> header_offset p + length ptr"
proof (cases "hstate p")
  case HPS_START_LINE
  then show ?thesis using assms
    by (auto simp: header_step_def parse_start_line_def Let_def
        split: if_splits scan.splits prod.splits dest!: scan_line_bounds match_offsets)
next
  case HPS_HEADER_VALUE
  then show ?thesis using assms
    by (auto simp: header_step_def parse_header_value_def Let_def
        split: if_splits vscan.splits prod.splits dest!: value_loop_bounds match_offsets)
qed (use assms in \<open>auto simp: header_step_def parse_header_name_def
      split: if_splits scan.splits prod.splits dest!: name_scan_bounds\<close>)

function parse_message_header :: "(nat \<Rightarrow> bool) \<Rightarrow> string \<Rightarrow> http_parser \<Rightarrow> int \<times> http_parser" where
  "parse_message_header mem msg p =
     (let (ret, q) = header_step mem p (drop (header_offset p) msg) in
      if hstate q = HPS_HEADER_COMPLETE then (1, q)
      else if ret > 0 then parse_message_header mem msg q
      else (ret, q))"
  by pat_completeness auto
termination
proof (relation "measure (\<lambda>(_, msg, p). length msg - header_offset p)", simp)
  fix mem msg p x r q
  assume x: "x = header_step mem p (drop (header_offset p) msg)" "(r, q) = x" "hstate q \<noteq> HPS_HEADER_COMPLETE" "0 < r"
  then have "header_offset p < header_offset q \<and> header_offset q \<le> header_offset p + length (drop (header_offset p) msg)"
    by (intro header_step_progress [of mem]) simp_all
  then show "((mem, msg, q), (mem, msg, p)) \<in> measure (\<lambda>(_, msg, p). length msg - header_offset p)" by auto
qed

declare parse_message_header.simps [simp del]

abbreviation CHUNK_SIZE_MAX :: int where "CHUNK_SIZE_MAX \<equiv> 2147482620"

definition parse_chunk_data :: "string \<Rightarrow> http_parser \<Rightarrow> int \<times> http_parser" where
  "parse_chunk_data ptr p =
     (case scan_line False HTTP_CHUNK_LINE_MAX 0 ptr of
        Wait \<Rightarrow> (0, p)
      | Fail \<Rightarrow> (-2, p)
      | Line i \<Rightarrow>
          (let (chunk_size, any) = strtol 16 (takeWhile (\<lambda>c. c \<noteq> NUL) (take i ptr)) in
           if \<not> any then (-2, p)
           else if chunk_size = 0 then (1, p\<lparr>cstate := CPS_TRAILER_PART, chunk_offset := chunk_offset p + (i + 2)\<rparr>)
           else if chunk_size mod 2 ^ 64 < CHUNK_SIZE_MAX then
             (let n = nat chunk_size + i + 4 in
              if length ptr < n then (0, p) else (1, p\<lparr>chunk_offset := chunk_offset p + n\<rparr>))
           else (-2, p)))"

definition parse_trailer_part :: "string \<Rightarrow> http_parser \<Rightarrow> int \<times> http_parser" where
  "parse_trailer_part ptr p =
     (case scan_line False HTTP_TRAILER_LINE_MAX 0 ptr of
        Wait \<Rightarrow> (0, p)
      | Fail \<Rightarrow> (-2, p)
      | Line i \<Rightarrow> (1, p\<lparr>chunk_offset := chunk_offset p + (i + 2),
           cstate := (if i = 0 then CPS_CHUNK_COMPLETE else cstate p)\<rparr>))"

definition chunk_step :: "http_parser \<Rightarrow> string \<Rightarrow> int \<times> http_parser" where
  "chunk_step p ptr = (if cstate p = CPS_CHUNK_DATA then parse_chunk_data ptr p else parse_trailer_part ptr p)"

lemma chunk_step_progress:
  assumes "chunk_step p ptr = (r, q)" and "r > 0"
  shows "chunk_offset p < chunk_offset q \<and> chunk_offset q \<le> chunk_offset p + length ptr"
  using assms
  by (auto simp: chunk_step_def parse_chunk_data_def parse_trailer_part_def Let_def
      split: if_splits scan.splits prod.splits dest!: scan_line_bounds)

function parse_chunk :: "string \<Rightarrow> http_parser \<Rightarrow> int \<times> http_parser" where
  "parse_chunk msg p =
     (let (ret, q) = chunk_step p (drop (chunk_offset p) msg) in
      if cstate q = CPS_CHUNK_COMPLETE then (1, q)
      else if ret > 0 then parse_chunk msg q
      else (ret, q))"
  by pat_completeness auto
termination
proof (relation "measure (\<lambda>(msg, p). length msg - chunk_offset p)", simp)
  fix msg p x r q
  assume x: "x = chunk_step p (drop (chunk_offset p) msg)" "(r, q) = x" "cstate q \<noteq> CPS_CHUNK_COMPLETE" "0 < r"
  then have "chunk_offset p < chunk_offset q \<and> chunk_offset q \<le> chunk_offset p + length (drop (chunk_offset p) msg)"
    by (intro chunk_step_progress) simp_all
  then show "((msg, q), (msg, p)) \<in> measure (\<lambda>(msg, p). length msg - chunk_offset p)" by auto
qed

declare parse_chunk.simps [simp del]

subsection \<open>Appending to a message\<close>

function grow_size :: "nat \<Rightarrow> nat \<Rightarrow> nat" where
  "grow_size sz need = (if 0 < sz \<and> sz < need then grow_size (2 * sz) need else sz)"
  by pat_completeness auto
termination by (relation "measure (\<lambda>(sz, need). need - sz)") auto

declare grow_size.simps [simp del]

text \<open>The result is the return value, the number of bytes used and the parser.\<close>

definition sub_size :: "nat \<Rightarrow> nat \<Rightarrow> nat \<Rightarrow> nat" where
  "sub_size n msgsize tot = nat ((int n - (int msgsize - int tot)) mod 2 ^ 64)"

definition append_body :: "nat \<Rightarrow> http_parser \<Rightarrow> int \<times> nat \<times> http_parser" where
  "append_body n p =
     (if transfer_length p \<noteq> SIZE_NONE then
        (let tot = (header_offset p + transfer_length p) mod 2 ^ 64 in
         if length (msgbuf p) \<ge> tot
         then (1, sub_size n (length (msgbuf p)) tot, p\<lparr>msgbuf := take tot (msgbuf p), complete := True\<rparr>)
         else (0, n, p))
      else if \<not> chunked p then (0, n, p)
      else
        (let (ret, p) = (if cstate p \<noteq> CPS_CHUNK_COMPLETE then parse_chunk (msgbuf p) p else (1, p)) in
         if ret \<le> 0 then (ret, n, p)
         else (1, sub_size n (length (msgbuf p)) (chunk_offset p),
               p\<lparr>msgbuf := take (chunk_offset p) (msgbuf p), complete := True\<rparr>)))"

definition header_done :: "http_parser \<Rightarrow> http_parser" where
  "header_done p = (if chunked p then p\<lparr>chunk_offset := header_offset p, cstate := CPS_CHUNK_DATA\<rparr>
     else if transfer_length p = SIZE_NONE then p\<lparr>transfer_length := content_length p\<rparr> else p)"

definition append_parse :: "(nat \<Rightarrow> bool) \<Rightarrow> nat \<Rightarrow> http_parser \<Rightarrow> int \<times> nat \<times> http_parser" where
  "append_parse mem n p =
     (if hstate p \<noteq> HPS_HEADER_COMPLETE then
        (let (ret, p) = parse_message_header mem (msgbuf p) p in
         if ret \<le> 0 then (ret, n, p) else append_body n (header_done p))
      else append_body n p)"

definition http_parser_append_message :: "(nat \<Rightarrow> bool) \<Rightarrow> string \<Rightarrow> http_parser \<Rightarrow> int \<times> nat \<times> http_parser" where
  "http_parser_append_message mem buf p =
     (if complete p then (1, 0, p)
      else
        (let need = length (msgbuf p) + length buf + 1;
             new_size = (if need > bufsize p then grow_size (max HTTP_MSGBUF_INIT_SIZE (2 * bufsize p)) need else bufsize p) in
         if need > bufsize p \<and> \<not> mem new_size then (-1, length buf, p)
         else append_parse mem (length buf) (p\<lparr>bufsize := new_size, msgbuf := msgbuf p @ buf\<rparr>)))"

text \<open>The offset of the body in the buffer, its size, and where the terminator is written.\<close>

definition http_parser_get_body :: "http_parser \<Rightarrow> (nat \<times> nat \<times> nat) option" where
  "http_parser_get_body p =
     (if complete p \<and> hstate p = HPS_HEADER_COMPLETE
      then Some (header_offset p, nat ((int (length (msgbuf p)) - int (header_offset p)) mod 2 ^ 64), length (msgbuf p))
      else None)"

definition http_parser_close_message :: "http_parser \<Rightarrow> http_parser" where
  "http_parser_close_message p = p\<lparr>complete := True\<rparr>"

subsection \<open>Resumable steps\<close>

text \<open>
  \<open>eqv\<close> relates states that a later step cannot tell apart. A state that is related to itself is
  well formed.
\<close>

locale resumable =
  fixes step :: "'p \<Rightarrow> string \<Rightarrow> int \<times> 'p"
    and off :: "'p \<Rightarrow> nat"
    and fin :: "'p \<Rightarrow> bool"
    and eqv :: "'p \<Rightarrow> 'p \<Rightarrow> bool"
    and run :: "string \<Rightarrow> 'p \<Rightarrow> int \<times> 'p"
  assumes run_eq: "run msg p = (let (r, q) = step p (drop (off p) msg) in
      if fin q then (1, q) else if r > 0 then run msg q else (r, q))"
    and sym: "eqv p q \<Longrightarrow> eqv q p"
    and trans: "eqv p q \<Longrightarrow> eqv q s \<Longrightarrow> eqv p s"
    and same: "eqv p q \<Longrightarrow> off p = off q \<and> fin p = fin q"
    and cong: "eqv p q \<Longrightarrow> step p ptr = (r, p') \<Longrightarrow> \<exists>q'. step q ptr = (r, q') \<and> eqv p' q'"
    and progress: "step p ptr = (r, q) \<Longrightarrow> r > 0 \<Longrightarrow> off p < off q \<and> off q \<le> off p + length ptr"
    and stable: "step p ptr = (r, q) \<Longrightarrow> r \<noteq> 0 \<Longrightarrow> step p (ptr @ ext) = (r, q)"
    and waiting: "eqv p p \<Longrightarrow> step p ptr = (0, q) \<Longrightarrow> eqv q p"
    and fin_pos: "\<not> fin p \<Longrightarrow> step p ptr = (r, q) \<Longrightarrow> fin q \<Longrightarrow> r > 0"
begin

lemma run_cong:
  "eqv p q \<Longrightarrow> off p \<le> length msg \<Longrightarrow> run msg p = (r, p') \<Longrightarrow> \<exists>q'. run msg q = (r, q') \<and> eqv p' q'"
proof (induction "length msg - off p" arbitrary: p q rule: less_induct)
  case less
  obtain r1 p1 where s: "step p (drop (off p) msg) = (r1, p1)" by fastforce
  with cong [OF less.prems(1)] obtain q1 where q1: "step q (drop (off p) msg) = (r1, q1)" "eqv p1 q1" by blast
  have qs: "step q (drop (off q) msg) = (r1, q1)" "fin q1 = fin p1" using q1 same less.prems(1) by auto
  show ?case
  proof (cases "\<not> fin p1 \<and> r1 > 0")
    case True
    then have "off p < off p1" "off p1 \<le> length msg" using progress [OF s] less.prems(2) by auto
    moreover have "run msg p1 = (r, p')" using less.prems(3) s True by (subst (asm) run_eq) simp
    moreover from calculation have "length msg - off p1 < length msg - off p" by linarith
    ultimately obtain q' where "run msg q1 = (r, q')" "eqv p' q'" using less.hyps [OF _ q1(2)] by blast
    then show ?thesis using qs True by (subst run_eq) simp
  next
    case False
    then show ?thesis using less.prems(3) s qs q1(2)
      by (subst (asm) run_eq, subst run_eq) (auto split: if_splits)
  qed
qed

lemma run_keeps:
  assumes "\<And>p ptr r q. step p ptr = (r, q) \<Longrightarrow> f q = f p"
  shows "run msg p = (r, q) \<Longrightarrow> f q = f p"
proof (induction "length msg - off p" arbitrary: p rule: less_induct)
  case less
  obtain r1 p1 where s: "step p (drop (off p) msg) = (r1, p1)" by fastforce
  show ?case
  proof (cases "\<not> fin p1 \<and> r1 > 0")
    case True
    then have "length msg - off p1 < length msg - off p" using progress [OF s] by auto
    moreover have "run msg p1 = (r, q)" using less.prems s True by (subst (asm) run_eq) simp
    ultimately show ?thesis using less.hyps assms [OF s] by simp
  next
    case False
    then show ?thesis using less.prems s assms [OF s] by (subst (asm) run_eq) (auto split: if_splits)
  qed
qed

lemma run_off: "eqv p p \<Longrightarrow> \<not> fin p \<Longrightarrow> run msg p = (r, q) \<Longrightarrow> r \<ge> 0 \<Longrightarrow> off p \<le> off q"
proof (induction "length msg - off p" arbitrary: p rule: less_induct)
  case less
  obtain r1 p1 where s: "step p (drop (off p) msg) = (r1, p1)" by fastforce
  have e1: "eqv p1 p1" using cong [OF less.prems(1) s] s by auto
  show ?case
  proof (cases "r1 > 0")
    case True
    then have pr: "off p < off p1" "length msg - off p1 < length msg - off p" using progress [OF s] by auto
    show ?thesis
    proof (cases "fin p1")
      case True
      then have "q = p1" using less.prems(3) s by (subst (asm) run_eq) simp
      then show ?thesis using pr(1) by simp
    next
      case False
      then have "run msg p1 = (r, q)" using less.prems(3) s \<open>r1 > 0\<close> by (subst (asm) run_eq) simp
      then show ?thesis using less.hyps [OF pr(2) e1 False _ less.prems(4)] pr(1) by simp
    qed
  next
    case False
    then have "\<not> fin p1" using fin_pos [OF less.prems(2) s] by auto
    then have "run msg p = (r1, p1)" using s False by (subst run_eq) simp
    then have q: "q = p1" "r1 = 0" using less.prems(3,4) False by auto
    then have "eqv p1 p" using waiting [OF less.prems(1)] s by simp
    then show ?thesis using same q by fastforce
  qed
qed

text \<open>A verdict stays, and after waiting the loop continues as if it had had all the input.\<close>

lemma run_more:
  "eqv p p \<Longrightarrow> \<not> fin p \<Longrightarrow> off p \<le> length msg \<Longrightarrow> run msg p = (r, q) \<Longrightarrow>
   eqv q q \<and> (r \<ge> 0 \<longrightarrow> off q \<le> length msg) \<and>
   (if r = 0 then \<not> fin q \<and> (\<exists>r' u v. run (msg @ ext) q = (r', u) \<and> run (msg @ ext) p = (r', v) \<and> eqv u v)
    else run (msg @ ext) p = (r, q) \<and> (r > 0 \<longleftrightarrow> fin q))"
proof (induction "length msg - off p" arbitrary: p rule: less_induct)
  case less
  obtain r1 p1 where s: "step p (drop (off p) msg) = (r1, p1)" by fastforce
  have d: "drop (off p) (msg @ ext) = drop (off p) msg @ ext" using less.prems(3) by simp
  have e1: "eqv p1 p1" using cong [OF less.prems(1) s] s by auto
  show ?case
  proof (cases "r1 = 0")
    case True
    note w = waiting [OF less.prems(1) s [unfolded True]]
    have nf: "\<not> fin p1" using fin_pos [OF less.prems(2) s] True by auto
    have q: "r = 0" "q = p1" using less.prems(4) s True nf by (subst (asm) run_eq, simp)+
    obtain r' u where u: "run (msg @ ext) p1 = (r', u)" by fastforce
    have "off p1 \<le> length (msg @ ext)" using same [OF w] less.prems(3) by simp
    from run_cong [OF w this u] obtain v where "run (msg @ ext) p = (r', v)" "eqv u v" by blast
    then show ?thesis using u q nf e1 same [OF w] less.prems(3) by auto
  next
    case False
    note st = stable [OF s False, of ext]
    show ?thesis
    proof (cases "\<not> fin p1 \<and> r1 > 0")
      case True
      then have pr: "off p < off p1" "off p1 \<le> length msg" using progress [OF s] less.prems(3) by auto
      have eq: "run (msg @ ext) p = run (msg @ ext) p1" using st d True by (subst run_eq) simp
      have "run msg p1 = (r, q)" using less.prems(4) s True by (subst (asm) run_eq) simp
      moreover have "length msg - off p1 < length msg - off p" using pr by linarith
      ultimately show ?thesis using less.hyps [OF _ e1 _ pr(2)] True unfolding eq by blast
    next
      case stop: False
      have run: "run m p = (if fin p1 then 1 else r1, p1)" if "step p (drop (off p) m) = (r1, p1)" for m
        using that stop by (subst run_eq) auto
      have "fin p1 \<Longrightarrow> r1 > 0" by (rule fin_pos [OF less.prems(2) s])
      moreover have "r1 > 0 \<Longrightarrow> off p1 \<le> length msg" using progress [OF s] less.prems(3) by auto
      moreover have "r = (if fin p1 then 1 else r1)" "q = p1" using run [OF s] less.prems(4) by auto
      moreover have "run (msg @ ext) p = (r, q)" using run [of "msg @ ext"] st d calculation by simp
      ultimately show ?thesis using e1 False stop by auto
    qed
  qed
qed

end

subsection \<open>The parser as resumable steps\<close>

definition pbuf :: "string \<Rightarrow> string \<Rightarrow> nat \<Rightarrow> http_parser \<Rightarrow> http_parser" where
  "pbuf nb mb bs p = p\<lparr>namebuf := nb, msgbuf := mb, bufsize := bs\<rparr>"

definition cname :: "http_parser \<Rightarrow> string" where
  "cname p = takeWhile (\<lambda>c. c \<noteq> NUL) (namebuf p)"

text \<open>Parsers that differ at most in their buffers; the name buffer only counts while a value is read.\<close>

definition peq :: "http_parser \<Rightarrow> http_parser \<Rightarrow> bool" where
  "peq p q \<longleftrightarrow> q = pbuf (namebuf q) (msgbuf q) (bufsize q) p \<and> length (namebuf p) = HTTP_HEADER_NAME_MAX \<and>
     length (namebuf q) = HTTP_HEADER_NAME_MAX \<and> (hstate p = HPS_HEADER_VALUE \<longrightarrow> cname p = cname q)"

lemma pbuf_sel [simp]:
  "hstate (pbuf n m b p) = hstate p" "cstate (pbuf n m b p) = cstate p"
  "header_offset (pbuf n m b p) = header_offset p" "chunk_offset (pbuf n m b p) = chunk_offset p"
  "content_length (pbuf n m b p) = content_length p" "transfer_length (pbuf n m b p) = transfer_length p"
  "chunked (pbuf n m b p) = chunked p" "complete (pbuf n m b p) = complete p" "is_resp (pbuf n m b p) = is_resp p"
  "header_list (pbuf n m b p) = header_list p" "keep_alive (pbuf n m b p) = keep_alive p"
  "namebuf (pbuf n m b p) = n" "msgbuf (pbuf n m b p) = m" "bufsize (pbuf n m b p) = b"
  "pbuf n' m' b' (pbuf n m b p) = pbuf n' m' b' p" "pbuf (namebuf p) (msgbuf p) (bufsize p) p = p"
  by (simp_all add: pbuf_def)

lemma peq_sym: "peq p q \<Longrightarrow> peq q p"
  unfolding peq_def by (metis pbuf_sel(1,15,16))

lemma peq_trans: "peq p q \<Longrightarrow> peq q s \<Longrightarrow> peq p s"
  unfolding peq_def by (metis pbuf_sel(1,15))

lemma peq_refl: "peq p p \<longleftrightarrow> length (namebuf p) = HTTP_HEADER_NAME_MAX"
  by (simp add: peq_def)

lemma peq_same: "peq p q \<Longrightarrow> hstate q = hstate p \<and> cstate q = cstate p \<and> header_offset q = header_offset p \<and>
    chunk_offset q = chunk_offset p \<and> transfer_length q = transfer_length p \<and> content_length q = content_length p \<and>
    chunked q = chunked p \<and> complete q = complete p \<and> is_resp q = is_resp p"
  unfolding peq_def by (metis pbuf_sel)

lemma add_header_pbuf: "http_parser_add_header mem name val (pbuf n m b p) = apsnd (pbuf n m b) (http_parser_add_header mem name val p)"
  by (simp add: http_parser_add_header_def pbuf_def)

lemma pbuf_upd:
  "(pbuf n m b p)\<lparr>expect_continue := x\<rparr> = pbuf n m b (p\<lparr>expect_continue := x\<rparr>)"
  "(pbuf n m b p)\<lparr>keep_alive := x\<rparr> = pbuf n m b (p\<lparr>keep_alive := x\<rparr>)"
  "(pbuf n m b p)\<lparr>chunked := x\<rparr> = pbuf n m b (p\<lparr>chunked := x\<rparr>)"
  "(pbuf n m b p)\<lparr>content_length := k\<rparr> = pbuf n m b (p\<lparr>content_length := k\<rparr>)"
  "(pbuf n m b p)\<lparr>transfer_length := k\<rparr> = pbuf n m b (p\<lparr>transfer_length := k\<rparr>)"
  "(pbuf n m b p)\<lparr>header_offset := k\<rparr> = pbuf n m b (p\<lparr>header_offset := k\<rparr>)"
  "(pbuf n m b p)\<lparr>chunk_offset := k\<rparr> = pbuf n m b (p\<lparr>chunk_offset := k\<rparr>)"
  "(pbuf n m b p)\<lparr>hstate := h\<rparr> = pbuf n m b (p\<lparr>hstate := h\<rparr>)"
  "(pbuf n m b p)\<lparr>cstate := c\<rparr> = pbuf n m b (p\<lparr>cstate := c\<rparr>)"
  "(pbuf n m b p)\<lparr>complete := x\<rparr> = pbuf n m b (p\<lparr>complete := x\<rparr>)"
  "(pbuf n m b p)\<lparr>version := o1\<rparr> = pbuf n m b (p\<lparr>version := o1\<rparr>)"
  "(pbuf n m b p)\<lparr>method_of := o1\<rparr> = pbuf n m b (p\<lparr>method_of := o1\<rparr>)"
  "(pbuf n m b p)\<lparr>uri_of := o1\<rparr> = pbuf n m b (p\<lparr>uri_of := o1\<rparr>)"
  "(pbuf n m b p)\<lparr>code_of := o1\<rparr> = pbuf n m b (p\<lparr>code_of := o1\<rparr>)"
  "(pbuf n m b p)\<lparr>phrase_of := o1\<rparr> = pbuf n m b (p\<lparr>phrase_of := o1\<rparr>)"
  by (simp_all add: pbuf_def)

lemma pbuf_if: "(if c then pbuf n m b p else pbuf n m b q) = pbuf n m b (if c then p else q)"
  by simp

lemma match_pbuf:
  "match_request_line mem x y z (pbuf n m b p) = apsnd (pbuf n m b) (match_request_line mem x y z p)"
  "match_status_line mem x y z (pbuf n m b p) = apsnd (pbuf n m b) (match_status_line mem x y z p)"
  "match_message_header mem x y (pbuf n m b p) = apsnd (pbuf n m b) (match_message_header mem x y p)"
  unfolding match_request_line_def match_status_line_def match_message_header_def Let_def pbuf_upd pbuf_if add_header_pbuf
  by simp_all

lemma match_buffers:
  "match_request_line mem x y z p = (r, q) \<Longrightarrow> pbuf (namebuf p) (msgbuf p) (bufsize p) q = q"
  "match_status_line mem x y z p = (r, q) \<Longrightarrow> pbuf (namebuf p) (msgbuf p) (bufsize p) q = q"
  "match_message_header mem x y p = (r, q) \<Longrightarrow> pbuf (namebuf p) (msgbuf p) (bufsize p) q = q"
  subgoal using match_pbuf(1) [of mem x y z "namebuf p" "msgbuf p" "bufsize p" p] by simp
  subgoal using match_pbuf(2) [of mem x y z "namebuf p" "msgbuf p" "bufsize p" p] by simp
  subgoal using match_pbuf(3) [of mem x y "namebuf p" "msgbuf p" "bufsize p" p] by simp
  done

lemma scan_line_append: "scan_line nul mx i rest = v \<Longrightarrow> v \<noteq> Wait \<Longrightarrow> scan_line nul mx i (rest @ ext) = v"
  by (induction nul mx i rest rule: scan_line.induct) (cases ext, auto split: if_splits list.splits)

lemma name_scan_append: "name_scan i rest nb = (v, nb') \<Longrightarrow> v \<noteq> Wait \<Longrightarrow> name_scan i (rest @ ext) nb = (v, nb')"
  by (induction i rest nb rule: name_scan.induct) (cases ext, auto split: if_splits)

lemma name_scan_length: "name_scan i rest nb = (v, nb') \<Longrightarrow> length nb' = length nb"
  by (induction i rest nb rule: name_scan.induct) (auto split: if_splits)

lemma name_scan_cong: "fst (name_scan i rest nb) = fst (name_scan i rest nb2)"
proof (induction rest arbitrary: i nb nb2)
  case (Cons c cs)
  then show ?case using Cons.IH [of "i + 1" "nb[i := c]" "nb2[i := c]"] by simp
qed simp

lemma takeWhile_take_nul: "NUL \<notin> set (take i nb) \<Longrightarrow> i < length nb \<Longrightarrow> takeWhile (\<lambda>c. c \<noteq> NUL) (nb[i := NUL]) = take i nb"
  by (simp add: upd_conv_take_nth_drop takeWhile_append)

lemma name_scan_name:
  "name_scan i rest nb = (Line j, nb') \<Longrightarrow> length nb = HTTP_HEADER_NAME_MAX \<Longrightarrow> i \<le> HTTP_HEADER_NAME_MAX \<Longrightarrow> NUL \<notin> set (take i nb) \<Longrightarrow>
   takeWhile (\<lambda>c. c \<noteq> NUL) nb' = take i nb @ take (j - i) rest"
proof (induction i rest nb rule: name_scan.induct)
  case (2 i c cs nb)
  show ?case
  proof (cases "c = CHR '':''")
    case False
    with 2 have c: "c \<noteq> NUL" "i < HTTP_HEADER_NAME_MAX" and ns: "name_scan (i + 1) cs (nb[i := c]) = (Line j, nb')"
      by (auto split: if_splits)
    have "takeWhile (\<lambda>c. c \<noteq> NUL) nb' = take (i + 1) (nb[i := c]) @ take (j - (i + 1)) cs"
      using 2 c False ns by (auto simp: take_Suc_conv_app_nth)
    moreover have "i < j" using name_scan_bounds [OF ns] by simp
    ultimately show ?thesis using c 2(3) by (auto simp: take_Suc_conv_app_nth take_Cons')
  qed (use 2 in \<open>auto simp: takeWhile_take_nul split: if_splits\<close>)
qed (auto split: if_splits)

lemma copy_value_append:
  "copy_value r acc = v \<Longrightarrow> v \<noteq> VWait \<Longrightarrow>
   copy_value (r @ ext) acc = (case v of VFound a cs \<Rightarrow> VFound a (cs @ ext) | _ \<Rightarrow> v)"
  by (induction r acc rule: copy_value.induct) (auto split: if_splits)

lemma copy_value_more: "copy_value r acc = VFound a cs \<Longrightarrow> cs \<noteq> []"
  by (induction r acc rule: copy_value.induct) (auto split: if_splits)

lemma dropWhile_more: "dropWhile P xs \<noteq> [] \<Longrightarrow> dropWhile P (xs @ ys) = dropWhile P xs @ ys"
  by (induction xs) auto

text \<open>The condition for another line is never met: a value is one line.\<close>

lemma value_loop_once:
  "value_loop rest acc =
     (let r = dropWhile blank rest in
      if r = [] then VWait
      else (case copy_value r acc of
         VFound acc' cs \<Rightarrow> (if hd cs \<noteq> LF then VFail else if tl cs = [] then VWait else VFound (trim_right acc') (tl cs))
       | v \<Rightarrow> v))"
  by (subst value_loop.simps) (auto simp: Let_def split: vscan.split)

lemma value_loop_append:
  "value_loop rest acc = v \<Longrightarrow> v \<noteq> VWait \<Longrightarrow>
   value_loop (rest @ ext) acc = (case v of VFound a cs \<Rightarrow> VFound a (cs @ ext) | _ \<Rightarrow> v)"
  by (auto simp: value_loop_once Let_def dropWhile_more copy_value_append dest!: copy_value_more
      split: if_splits vscan.splits)

lemma short_start:
  "\<not> (length ptr \<ge> 2 \<and> ptr ! 0 = CR \<and> ptr ! 1 = LF) \<Longrightarrow>
   (length (ptr @ ext) \<ge> 2 \<and> (ptr @ ext) ! 0 = CR \<and> (ptr @ ext) ! 1 = LF) \<Longrightarrow> ptr = [] \<or> ptr = [CR]"
  by (cases ptr rule: remdups_adj.cases) auto

lemma crlf_append:
  "length ptr \<ge> 2 \<and> ptr ! 0 = CR \<and> ptr ! 1 = LF \<Longrightarrow>
   length (ptr @ ext) \<ge> 2 \<and> (ptr @ ext) ! 0 = CR \<and> (ptr @ ext) ! 1 = LF"
  by (cases ptr rule: remdups_adj.cases) auto

lemma start_line_stable:
  assumes "parse_start_line mem ptr p = (r, q)" and "r \<noteq> 0"
  shows "parse_start_line mem (ptr @ ext) p = (r, q)"
proof (cases "length ptr \<ge> 2 \<and> ptr ! 0 = CR \<and> ptr ! 1 = LF")
  case True
  from crlf_append [OF this, of ext] this show ?thesis using assms unfolding parse_start_line_def by (simp del: length_append)
next
  case False
  define v where "v = scan_line True HTTP_START_LINE_MAX 0 ptr"
  have "v \<noteq> Wait" using assms False by (auto simp: parse_start_line_def v_def)
  then have v: "scan_line True HTTP_START_LINE_MAX 0 (ptr @ ext) = v" "v = Line i \<Longrightarrow> i + 2 \<le> length ptr" for i
    using scan_line_append v_def scan_line_bounds [of True HTTP_START_LINE_MAX 0 ptr i] by auto
  have ne: "\<not> (length (ptr @ ext) \<ge> 2 \<and> (ptr @ ext) ! 0 = CR \<and> (ptr @ ext) ! 1 = LF)"
    using short_start [OF False, of ext] \<open>v \<noteq> Wait\<close> v_def by auto
  show ?thesis using assms(1) v unfolding parse_start_line_def if_not_P [OF False] if_not_P [OF ne] v_def [symmetric]
    by (cases v) simp_all
qed

lemma header_name_stable:
  assumes "parse_header_name ptr p = (r, q)" and "r \<noteq> 0"
  shows "parse_header_name (ptr @ ext) p = (r, q)"
proof (cases "length ptr \<ge> 2 \<and> ptr ! 0 = CR \<and> ptr ! 1 = LF")
  case True
  from crlf_append [OF this, of ext] this show ?thesis using assms unfolding parse_header_name_def by (simp del: length_append)
next
  case False
  obtain v nb where v: "name_scan 0 ptr (namebuf p) = (v, nb)" by fastforce
  then have "v \<noteq> Wait" using assms False by (auto simp: parse_header_name_def)
  moreover from this have "\<not> (length (ptr @ ext) \<ge> 2 \<and> (ptr @ ext) ! 0 = CR \<and> (ptr @ ext) ! 1 = LF)"
    using short_start [OF False, of ext] v by auto
  ultimately show ?thesis using assms(1) False v name_scan_append [OF v, of ext] unfolding parse_header_name_def
    by (auto simp del: length_append)
qed

lemma header_value_stable:
  assumes "parse_header_value mem ptr p = (r, q)" and "r \<noteq> 0"
  shows "parse_header_value mem (ptr @ ext) p = (r, q)"
proof -
  define v where "v = value_loop ptr []"
  have "v \<noteq> VWait" using assms by (auto simp: parse_header_value_def v_def)
  then show ?thesis
    using assms value_loop_append [OF v_def [symmetric], of ext] value_loop_bounds [of ptr "[]"]
    unfolding parse_header_value_def v_def [symmetric] by (cases v) (auto split: prod.splits)
qed

lemma header_step_stable: "header_step mem p ptr = (r, q) \<Longrightarrow> r \<noteq> 0 \<Longrightarrow> header_step mem p (ptr @ ext) = (r, q)"
  by (auto simp: header_step_def start_line_stable header_name_stable header_value_stable split: header_state.splits)

lemma header_step_waiting: "peq p p \<Longrightarrow> header_step mem p ptr = (0, q) \<Longrightarrow> peq q p"
  by (auto simp: header_step_def parse_start_line_def parse_header_name_def parse_header_value_def peq_def pbuf_def Let_def
      split: header_state.splits if_splits scan.splits vscan.splits prod.splits dest: name_scan_length)

lemma start_line_pbuf: "parse_start_line mem ptr (pbuf n m b p) = apsnd (pbuf n m b) (parse_start_line mem ptr p)"
  by (simp add: parse_start_line_def match_pbuf pbuf_upd Let_def split: scan.split prod.split)

lemma add_header_hstate: "http_parser_add_header mem n v p = (r, q) \<Longrightarrow> hstate q = hstate p"
  by (auto simp: http_parser_add_header_def split: if_splits)

lemma match_hstate:
  "match_request_line mem a b c p = (r, q) \<Longrightarrow> hstate q = hstate p"
  "match_status_line mem a b c p = (r, q) \<Longrightarrow> hstate q = hstate p"
  "match_message_header mem n v p = (r, q) \<Longrightarrow> hstate q = hstate p"
  by (auto simp: match_request_line_def match_status_line_def match_message_header_def Let_def
      dest!: add_header_hstate split: if_splits)

lemma start_line_state:
  "parse_start_line mem ptr p = (r, q) \<Longrightarrow> hstate q = hstate p \<or> hstate q = HPS_HEADER_NAME"
  by (auto simp: parse_start_line_def Let_def split: if_splits scan.splits prod.splits dest!: match_hstate)

lemma start_line_buffers:
  "parse_start_line mem ptr p = (r, q) \<Longrightarrow> namebuf q = namebuf p"
  using start_line_pbuf [of mem ptr "namebuf p" "msgbuf p" "bufsize p" p] pbuf_sel(12) by (metis apsnd_conv pbuf_sel(16) prod.inject)

lemma start_line_cong:
  assumes "peq p q" and "hstate p = HPS_START_LINE" and "parse_start_line mem ptr p = (r, p')"
  shows "\<exists>q'. parse_start_line mem ptr q = (r, q') \<and> peq p' q'"
proof -
  from assms(1) have q: "q = pbuf (namebuf q) (msgbuf q) (bufsize q) p" by (simp add: peq_def)
  have "parse_start_line mem ptr q = (r, pbuf (namebuf q) (msgbuf q) (bufsize q) p')"
    using start_line_pbuf [of mem ptr "namebuf q" "msgbuf q" "bufsize q" p] q assms(3) by simp
  moreover have "hstate p' \<noteq> HPS_HEADER_VALUE" using start_line_state [OF assms(3)] assms(2) by auto
  ultimately show ?thesis using assms(1) start_line_buffers [OF assms(3)] by (simp add: peq_def)
qed

lemma name_scan_cstr:
  "name_scan 0 ptr nb = (Line i, nb') \<Longrightarrow> length nb = HTTP_HEADER_NAME_MAX \<Longrightarrow> takeWhile (\<lambda>c. c \<noteq> NUL) nb' = take i ptr"
  using name_scan_name [of 0 ptr nb i nb'] by simp

lemma header_name_cong:
  assumes "peq p q" and "hstate p \<noteq> HPS_HEADER_VALUE" and "parse_header_name ptr p = (r, p')"
  shows "\<exists>q'. parse_header_name ptr q = (r, q') \<and> peq p' q'"
proof -
  from assms(1) have q: "q = pbuf (namebuf q) (msgbuf q) (bufsize q) p" and l: "length (namebuf p) = HTTP_HEADER_NAME_MAX"
    "length (namebuf q) = HTTP_HEADER_NAME_MAX" by (simp_all add: peq_def)
  obtain v nb where v: "name_scan 0 ptr (namebuf p) = (v, nb)" by fastforce
  then obtain nb2 where v2: "name_scan 0 ptr (namebuf q) = (v, nb2)"
    using name_scan_cong [of 0 ptr "namebuf p" "namebuf q"] by (metis fst_conv prod.collapse)
  have "length nb = HTTP_HEADER_NAME_MAX" "length nb2 = HTTP_HEADER_NAME_MAX" "v = Line i \<Longrightarrow> takeWhile (\<lambda>c. c \<noteq> NUL) nb2 = takeWhile (\<lambda>c. c \<noteq> NUL) nb" for i
    using v v2 l name_scan_length name_scan_cstr by auto
  then show ?thesis using assms(2,3) v v2 l
    by (subst q, auto simp: parse_header_name_def peq_def cname_def pbuf_def split: if_splits scan.splits)
qed

lemma header_value_cong:
  assumes "peq p q" and "hstate p = HPS_HEADER_VALUE" and "parse_header_value mem ptr p = (r, p')"
  shows "\<exists>q'. parse_header_value mem ptr q = (r, q') \<and> peq p' q'"
proof -
  from assms(1,2) have q: "q = pbuf (namebuf q) (msgbuf q) (bufsize q) p" and l: "length (namebuf p) = HTTP_HEADER_NAME_MAX"
    "length (namebuf q) = HTTP_HEADER_NAME_MAX" and c: "cname q = cname p" by (simp_all add: peq_def)
  show ?thesis
  proof (cases "value_loop ptr []")
    case (VFound v rest)
    obtain r1 p1 where m: "match_message_header mem (cname p) v p = (r1, p1)" by fastforce
    define q1 where "q1 = pbuf (namebuf q) (msgbuf q) (bufsize q) p1"
    have mq: "match_message_header mem (cname q) v q = (r1, q1)"
      using match_pbuf(3) [of mem "cname p" v "namebuf q" "msgbuf q" "bufsize q" p] q m c by (simp add: q1_def)
    have "namebuf p1 = namebuf p" "hstate p1 = hstate p"
      using match_buffers(3) [OF m] match_hstate(3) [OF m] by (metis pbuf_sel(12))+
    then have "peq p1 q1" "peq (p1\<lparr>header_offset := n, hstate := HPS_HEADER_NAME\<rparr>) (q1\<lparr>header_offset := n, hstate := HPS_HEADER_NAME\<rparr>)" for n
      using l c by (auto simp: peq_def q1_def cname_def pbuf_def)
    then show ?thesis using assms(3) VFound m mq unfolding parse_header_value_def cname_def [symmetric]
      by (auto simp: q1_def split: if_splits)
  qed (use assms in \<open>auto simp: parse_header_value_def\<close>)
qed

lemma header_step_cong:
  "peq p q \<Longrightarrow> header_step mem p ptr = (r, p') \<Longrightarrow> \<exists>q'. header_step mem q ptr = (r, q') \<and> peq p' q'"
  using peq_same [of p q] start_line_cong [of p q mem ptr r p'] header_name_cong [of p q ptr r p'] header_value_cong [of p q mem ptr r p']
  by (cases "hstate p") (auto simp: header_step_def)

lemma header_step_fin:
  "hstate p \<noteq> HPS_HEADER_COMPLETE \<Longrightarrow> header_step mem p ptr = (r, q) \<Longrightarrow> hstate q = HPS_HEADER_COMPLETE \<Longrightarrow> r > 0"
  by (auto simp: header_step_def parse_start_line_def parse_header_name_def parse_header_value_def Let_def
      split: header_state.splits if_splits scan.splits vscan.splits prod.splits dest!: match_hstate)

interpretation hdr: resumable "header_step mem" header_offset "\<lambda>p. hstate p = HPS_HEADER_COMPLETE" peq "parse_message_header mem"
  for mem
proof
  show "parse_message_header mem msg p = (let (r, q) = header_step mem p (drop (header_offset p) msg) in
      if hstate q = HPS_HEADER_COMPLETE then (1, q) else if r > 0 then parse_message_header mem msg q else (r, q))" for msg p
    by (subst parse_message_header.simps) simp
qed (use peq_sym peq_trans peq_same header_step_cong header_step_progress header_step_stable header_step_waiting header_step_fin
  in \<open>(blast | metis)+\<close>)

lemma chunk_step_pbuf: "chunk_step (pbuf n m b p) ptr = apsnd (pbuf n m b) (chunk_step p ptr)"
  by (simp add: chunk_step_def parse_chunk_data_def parse_trailer_part_def pbuf_upd Let_def split: scan.split prod.split)

lemma chunk_step_keeps: "chunk_step p ptr = (r, q) \<Longrightarrow> namebuf q = namebuf p \<and> hstate q = hstate p"
  by (auto simp: chunk_step_def parse_chunk_data_def parse_trailer_part_def Let_def split: if_splits scan.splits prod.splits)

lemma chunk_step_cong:
  assumes "peq p q" and "chunk_step p ptr = (r, p')"
  shows "\<exists>q'. chunk_step q ptr = (r, q') \<and> peq p' q'"
proof -
  from assms(1) have q: "q = pbuf (namebuf q) (msgbuf q) (bufsize q) p" by (simp add: peq_def)
  have "chunk_step q ptr = (r, pbuf (namebuf q) (msgbuf q) (bufsize q) p')"
    using chunk_step_pbuf [of "namebuf q" "msgbuf q" "bufsize q" p ptr] q assms(2) by simp
  then show ?thesis using assms(1) chunk_step_keeps [OF assms(2)] by (simp add: peq_def cname_def)
qed

lemma chunk_step_stable:
  assumes "chunk_step p ptr = (r, q)" and "r \<noteq> 0"
  shows "chunk_step p (ptr @ ext) = (r, q)"
proof -
  define mx :: nat where "mx = (if cstate p = CPS_CHUNK_DATA then HTTP_CHUNK_LINE_MAX else HTTP_TRAILER_LINE_MAX)"
  define v where "v = scan_line False mx 0 ptr"
  have w: "v \<noteq> Wait" using assms
    by (auto simp: chunk_step_def parse_chunk_data_def parse_trailer_part_def v_def mx_def split: if_splits scan.splits)
  then have "scan_line False mx 0 (ptr @ ext) = v" using scan_line_append v_def by auto
  moreover have "v = Line i \<Longrightarrow> i + 2 \<le> length ptr" for i using scan_line_bounds [of False mx 0 ptr i] v_def by auto
  ultimately show ?thesis using assms w v_def [symmetric]
    by (cases v) (auto simp: chunk_step_def parse_chunk_data_def parse_trailer_part_def mx_def Let_def
      split: if_splits prod.splits)
qed

lemma chunk_step_waiting: "chunk_step p ptr = (0, q) \<Longrightarrow> q = p"
  by (auto simp: chunk_step_def parse_chunk_data_def parse_trailer_part_def Let_def split: if_splits scan.splits prod.splits)

lemma chunk_step_fin:
  "cstate p \<noteq> CPS_CHUNK_COMPLETE \<Longrightarrow> chunk_step p ptr = (r, q) \<Longrightarrow> cstate q = CPS_CHUNK_COMPLETE \<Longrightarrow> r > 0"
  by (auto simp: chunk_step_def parse_chunk_data_def parse_trailer_part_def Let_def split: if_splits scan.splits prod.splits)

interpretation chunks: resumable chunk_step chunk_offset "\<lambda>p. cstate p = CPS_CHUNK_COMPLETE" peq parse_chunk
proof
  show "parse_chunk msg p = (let (r, q) = chunk_step p (drop (chunk_offset p) msg) in
      if cstate q = CPS_CHUNK_COMPLETE then (1, q) else if r > 0 then parse_chunk msg q else (r, q))" for msg p
    by (subst parse_chunk.simps) simp
qed (use peq_sym peq_trans peq_same chunk_step_cong chunk_step_progress chunk_step_stable chunk_step_waiting chunk_step_fin
  in \<open>(blast | metis)+\<close>)

subsection \<open>Parsing in pieces\<close>

text \<open>Counts are of type \<^verbatim>\<open>size_t\<close>. After an error only the code is compared.\<close>

definition same_result :: "nat \<Rightarrow> int \<times> nat \<times> http_parser \<Rightarrow> int \<times> nat \<times> http_parser \<Rightarrow> bool" where
  "same_result k x y = (case x of (r, n, p) \<Rightarrow> case y of (r', n', p') \<Rightarrow>
     r' = r \<and> peq p p' \<and> (r \<ge> 0 \<longrightarrow> n' mod 2 ^ 64 = (k + n) mod 2 ^ 64 \<and> msgbuf p' = msgbuf p))"

lemma sub_size_add: "sub_size (k + n) m t mod 2 ^ 64 = (k + sub_size n m t) mod 2 ^ 64"
proof -
  have "int (sub_size (k + n) m t mod 2 ^ 64) = int ((k + sub_size n m t) mod 2 ^ 64)"
    by (simp add: sub_size_def zmod_int mod_simps algebra_simps)
  then show ?thesis by simp
qed

lemmas sub_size_add' = sub_size_add [simplified]

lemma sub_size_more: "sub_size (n + k) (m + k) t = sub_size n m t"
  by (simp add: sub_size_def algebra_simps)

lemma peq_complete:
  assumes "peq p q"
  shows "peq (p\<lparr>msgbuf := m, complete := c\<rparr>) (q\<lparr>msgbuf := m', complete := c\<rparr>)"
proof -
  from assms obtain n b m1 where "q = pbuf n m1 b p" and "length n = HTTP_HEADER_NAME_MAX" by (auto simp: peq_def)
  with assms show ?thesis by (auto simp: peq_def pbuf_def cname_def)
qed

lemma chunk_step_msgbuf: "chunk_step p ptr = (r, q) \<Longrightarrow> (msgbuf q, bufsize q) = (msgbuf p, bufsize p)"
  by (auto simp: chunk_step_def parse_chunk_data_def parse_trailer_part_def Let_def split: if_splits scan.splits prod.splits)

lemma header_value_pbuf:
  "n = namebuf p \<Longrightarrow> parse_header_value mem ptr (pbuf n m b p) = apsnd (pbuf n m b) (parse_header_value mem ptr p)"
  by (simp add: parse_header_value_def match_pbuf pbuf_upd Let_def split: vscan.split prod.split)

lemma header_step_msgbuf: "header_step mem p ptr = (r, q) \<Longrightarrow> (msgbuf q, bufsize q) = (msgbuf p, bufsize p)"
  using start_line_pbuf [of mem ptr "namebuf p" "msgbuf p" "bufsize p" p]
    header_value_pbuf [of "namebuf p" p mem ptr "msgbuf p" "bufsize p"]
  by (cases "hstate p") (auto simp: header_step_def parse_header_name_def split: if_splits prod.splits scan.splits,
      (metis apsnd_conv pbuf_sel(13,14) prod.inject)+)

lemma parse_buffers:
  "parse_chunk msg p = (r, q) \<Longrightarrow> (msgbuf q, bufsize q) = (msgbuf p, bufsize p)"
  "parse_message_header mem msg p = (r, q) \<Longrightarrow> (msgbuf q, bufsize q) = (msgbuf p, bufsize p)"
  using chunks.run_keeps [of "\<lambda>p. (msgbuf p, bufsize p)"] hdr.run_keeps [of mem "\<lambda>p. (msgbuf p, bufsize p)"]
    chunk_step_msgbuf header_step_msgbuf by blast+

lemma parse_msgbuf:
  "parse_chunk msg p = (r, q) \<Longrightarrow> msgbuf q = msgbuf p"
  "parse_message_header mem msg p = (r, q) \<Longrightarrow> msgbuf q = msgbuf p"
  using parse_buffers by blast+

lemma body_cong:
  assumes "peq p q" and "msgbuf p = msgbuf q" and "chunk_offset p \<le> length (msgbuf p) \<or> \<not> chunked p"
  shows "same_result k (append_body n p) (append_body (k + n) q)"
proof (cases "transfer_length p \<noteq> SIZE_NONE \<or> \<not> chunked p")
  case True
  then show ?thesis using assms(1,2) peq_same [OF assms(1)] peq_complete
    by (auto simp: append_body_def same_result_def Let_def sub_size_add')
next
  case False
  obtain r p' where p': "(if cstate p \<noteq> CPS_CHUNK_COMPLETE then parse_chunk (msgbuf p) p else (1, p)) = (r, p')" by fastforce
  obtain q' where q': "(if cstate q \<noteq> CPS_CHUNK_COMPLETE then parse_chunk (msgbuf q) q else (1, q)) = (r, q')" and e: "peq p' q'"
  proof (cases "cstate p \<noteq> CPS_CHUNK_COMPLETE")
    case True
    then show ?thesis using that chunks.run_cong [OF assms(1), of "msgbuf p" r p'] assms p' False peq_same [OF assms(1)] by auto
  qed (use that p' assms(1) peq_same [OF assms(1)] in auto)
  have "msgbuf p' = msgbuf p" "msgbuf q' = msgbuf q" using p' q' parse_msgbuf(1) by (auto split: if_splits)
  then show ?thesis using False p' q' e assms peq_same [OF assms(1)] peq_same [OF e] peq_complete [OF e]
    unfolding append_body_def by (auto simp: same_result_def Let_def sub_size_add')
qed

definition chunk_ok :: "http_parser \<Rightarrow> bool" where
  "chunk_ok p \<longleftrightarrow> (chunked p \<longrightarrow> cstate p \<noteq> CPS_CHUNK_COMPLETE \<and> header_offset p \<le> chunk_offset p \<and> chunk_offset p \<le> length (msgbuf p))"

lemma chunk_step_frame:
  "chunk_step p ptr = (r, q) \<Longrightarrow> (transfer_length q, chunked q, hstate q, complete q, header_offset q, namebuf q) =
     (transfer_length p, chunked p, hstate p, complete p, header_offset p, namebuf p)"
  by (auto simp: chunk_step_def parse_chunk_data_def parse_trailer_part_def Let_def split: if_splits scan.splits prod.splits)

lemma chunk_frame:
  "parse_chunk msg p = (r, q) \<Longrightarrow> (transfer_length q, chunked q, hstate q, complete q, header_offset q, namebuf q) =
     (transfer_length p, chunked p, hstate p, complete p, header_offset p, namebuf p)"
  using chunks.run_keeps [of "\<lambda>p. (transfer_length p, chunked p, hstate p, complete p, header_offset p, namebuf p)"]
    chunk_step_frame by blast

lemma body_chunks:
  assumes "transfer_length p = SIZE_NONE" "transfer_length q = SIZE_NONE" "chunked p" "chunked q" "chunk_ok p" "chunk_ok q"
    and "parse_chunk (msgbuf p) p = (r, p')" "parse_chunk (msgbuf q) q = (r, q')" "peq p' q'" "msgbuf p = msgbuf q"
  shows "same_result k (append_body n p) (append_body (k + n) q)"
proof -
  have "msgbuf p' = msgbuf p" "msgbuf q' = msgbuf q" using assms parse_msgbuf(1) by auto
  then show ?thesis using assms peq_same [OF assms(9)] peq_complete [OF assms(9)]
    unfolding append_body_def by (auto simp: chunk_ok_def same_result_def Let_def sub_size_add')
qed

lemma body_verdict:
  assumes e: "peq p p2" and m: "msgbuf p2 = msgbuf p @ b" and c: "chunk_ok p"
    and a: "append_body n p = (r, n1, q)" and r: "r \<noteq> 0"
  shows "same_result 0 (r, n1, q) (append_body (n + length b) p2)"
proof (cases "transfer_length p \<noteq> SIZE_NONE")
  case True
  let ?t = "(header_offset p + transfer_length p) mod 2 ^ 64"
  have t: "?t \<le> length (msgbuf p)" "r = 1" "n1 = sub_size n (length (msgbuf p)) ?t" "q = p\<lparr>msgbuf := take ?t (msgbuf p), complete := True\<rparr>"
    using True a r by (auto simp: append_body_def Let_def split: if_splits)
  have "append_body (n + length b) p2 = (1, n1, p2\<lparr>msgbuf := take ?t (msgbuf p), complete := True\<rparr>)"
    using t(1,3) True m peq_same [OF e] by (simp add: append_body_def Let_def sub_size_more)
  then show ?thesis using t(2,4) peq_complete [OF e] by (simp add: same_result_def)
next
  case False
  then have ch: "chunked p" using a r by (auto simp: append_body_def split: if_splits)
  obtain r1 p1 where p1: "parse_chunk (msgbuf p) p = (r1, p1)" by fastforce
  have e0: "peq p p" using e by (simp add: peq_def)
  have r1: "r1 \<noteq> 0" using a r p1 False ch c by (auto simp: append_body_def chunk_ok_def split: if_splits)
  note more = chunks.run_more [OF e0 _ _ p1, of b]
  have rn: "parse_chunk (msgbuf p @ b) p = (r1, p1)" and off: "r1 \<ge> 0 \<longrightarrow> chunk_offset p1 \<le> length (msgbuf p)"
    using more r1 c ch by (auto simp: chunk_ok_def)
  from chunks.run_cong [OF e _ rn] obtain p3 where p3: "parse_chunk (msgbuf p @ b) p2 = (r1, p3)" "peq p1 p3"
    using c ch by (auto simp: chunk_ok_def)
  have "msgbuf p1 = msgbuf p" "msgbuf p3 = msgbuf p @ b" using parse_msgbuf(1) p1 p3 m by auto
  then show ?thesis using a r1 p1 p3 False ch c m off peq_same [OF e] peq_same [OF p3(2)] peq_complete [OF p3(2)]
    by (auto simp: append_body_def same_result_def chunk_ok_def sub_size_more split: if_splits)
qed

lemma body_wait_keeps:
  assumes "append_body n p = (0, n1, q)" and "chunk_ok p" and "peq p p"
  shows "n1 = n \<and> msgbuf q = msgbuf p \<and> hstate q = hstate p \<and> header_offset q = header_offset p \<and> complete q = complete p \<and>
    namebuf q = namebuf p \<and> chunk_ok q"
proof (cases "transfer_length p \<noteq> SIZE_NONE \<or> \<not> chunked p")
  case False
  then have n: "n1 = n" and p1: "parse_chunk (msgbuf p) p = (0, q)"
    using assms by (auto simp: append_body_def chunk_ok_def split: if_splits prod.splits)
  have "cstate q \<noteq> CPS_CHUNK_COMPLETE" "chunk_offset q \<le> length (msgbuf p)"
    using chunks.run_more [OF assms(3) _ _ p1, of "[]"] False assms(2) by (auto simp: chunk_ok_def)
  moreover have "chunk_offset p \<le> chunk_offset q"
    using chunks.run_off [OF assms(3) _ p1] False assms(2) by (auto simp: chunk_ok_def)
  ultimately show ?thesis using n chunk_frame [OF p1] parse_msgbuf(1) [OF p1] assms(2) by (auto simp: chunk_ok_def)
qed (use assms in \<open>auto simp: append_body_def Let_def split: if_splits\<close>)

lemma body_wait:
  assumes e: "peq p p2" and m: "msgbuf p2 = msgbuf p @ b" and c: "chunk_ok p"
    and a: "append_body n p = (0, n1, q)" and e2: "peq q q2" and m2: "msgbuf q2 = msgbuf p @ b"
  shows "same_result n (append_body (length b) q2) (append_body (n + length b) p2)"
proof (cases "transfer_length p \<noteq> SIZE_NONE \<or> \<not> chunked p")
  case True
  then have "q = p" using a by (auto simp: append_body_def Let_def split: if_splits)
  then have "peq q2 p2" using e e2 peq_sym peq_trans by blast
  moreover have "chunk_offset q2 \<le> length (msgbuf q2) \<or> \<not> chunked q2"
    using c \<open>q = p\<close> peq_same [OF e2] m2 by (auto simp: chunk_ok_def)
  ultimately show ?thesis using body_cong [of q2 p2 n "length b"] m m2 by simp
next
  case False
  then have p1: "parse_chunk (msgbuf p) p = (0, q)"
    using a c by (auto simp: append_body_def chunk_ok_def split: if_splits prod.splits)
  have e0: "peq p p" using e by (simp add: peq_def)
  from chunks.run_more [OF e0 _ _ p1, of b] False c obtain r u v where
    u: "parse_chunk (msgbuf p @ b) q = (r, u)" and v: "parse_chunk (msgbuf p @ b) p = (r, v)" "peq u v"
    and q: "cstate q \<noteq> CPS_CHUNK_COMPLETE" "chunk_offset q \<le> length (msgbuf p)" by (auto simp: chunk_ok_def)
  from chunks.run_cong [OF e _ v(1)] obtain v2 where v2: "parse_chunk (msgbuf p2) p2 = (r, v2)" "peq v v2"
    using c False m by (auto simp: chunk_ok_def)
  from chunks.run_cong [OF e2 _ u] obtain u2 where u2: "parse_chunk (msgbuf q2) q2 = (r, u2)" "peq u u2"
    using q m2 by auto
  have "peq u2 v2" using v u2 v2 peq_sym peq_trans by blast
  moreover have "transfer_length q = transfer_length p" "chunked q = chunked p" using chunk_frame [OF p1] by auto
  moreover have "chunk_ok q" using body_wait_keeps [OF a c e0] by simp
  ultimately show ?thesis
    using body_chunks [OF _ _ _ _ _ _ u2(1) v2(1)] False c q m m2 peq_same [OF e] peq_same [OF e2] by (auto simp: chunk_ok_def)
qed

lemma peq_done: "peq p q \<Longrightarrow> peq (header_done p) (header_done q)"
proof -
  assume e: "peq p q"
  then obtain n b m where "q = pbuf n m b p" and "length n = HTTP_HEADER_NAME_MAX" by (auto simp: peq_def)
  with e show ?thesis by (auto simp: peq_def pbuf_def cname_def header_done_def)
qed

lemma header_done_sel [simp]:
  "msgbuf (header_done p) = msgbuf p" "hstate (header_done p) = hstate p" "header_offset (header_done p) = header_offset p"
  "namebuf (header_done p) = namebuf p" "complete (header_done p) = complete p"
  by (simp_all add: header_done_def)

lemma chunk_ok_done: "header_offset p \<le> length (msgbuf p) \<Longrightarrow> chunk_ok (header_done p)"
  by (simp add: chunk_ok_def header_done_def)

definition parse_ok :: "http_parser \<Rightarrow> bool" where
  "parse_ok p \<longleftrightarrow> length (namebuf p) = HTTP_HEADER_NAME_MAX \<and> header_offset p \<le> length (msgbuf p) \<and>
     (hstate p = HPS_HEADER_COMPLETE \<longrightarrow> chunk_ok p)"

lemma parse_verdict:
  assumes e: "peq p p2" and m: "msgbuf p2 = msgbuf p @ b" and c: "parse_ok p"
    and a: "append_parse mem n p = (r, n1, q)" and r: "r \<noteq> 0"
  shows "same_result 0 (r, n1, q) (append_parse mem (n + length b) p2)"
proof (cases "hstate p = HPS_HEADER_COMPLETE")
  case True
  then show ?thesis using body_verdict [OF e m _ _ r] a c peq_same [OF e] by (simp add: append_parse_def parse_ok_def)
next
  case False
  obtain rh ph where h: "parse_message_header mem (msgbuf p) p = (rh, ph)" by fastforce
  have e0: "peq p p" using e by (simp add: peq_def)
  have "rh \<noteq> 0" using a r h False by (auto simp: append_parse_def split: if_splits)
  then have rn: "parse_message_header mem (msgbuf p @ b) p = (rh, ph)" and off: "rh > 0 \<Longrightarrow> header_offset ph \<le> length (msgbuf p)"
    using hdr.run_more [OF e0 _ _ h, of b] False c by (auto simp: parse_ok_def)
  from hdr.run_cong [OF e _ rn] obtain p3 where p3: "parse_message_header mem (msgbuf p @ b) p2 = (rh, p3)" "peq ph p3"
    using c by (auto simp: parse_ok_def)
  note mm = parse_msgbuf(2) [OF h] parse_msgbuf(2) [OF p3(1)]
  show ?thesis
  proof (cases "rh > 0")
    case True
    have "same_result 0 (r, n1, q) (append_body (n + length b) (header_done p3))"
      using body_verdict [OF peq_done [OF p3(2)] _ chunk_ok_done _ r] a h False True off mm m by (auto simp: append_parse_def)
    then show ?thesis using False True p3(1) m peq_same [OF e] by (simp add: append_parse_def)
  next
    case neg: False
    then show ?thesis using \<open>rh \<noteq> 0\<close> False a h p3 m peq_same [OF e] by (auto simp: append_parse_def same_result_def)
  qed
qed

lemma parse_wait:
  assumes e: "peq p p2" and m: "msgbuf p2 = msgbuf p @ b" and c: "parse_ok p"
    and a: "append_parse mem n p = (0, n1, q)" and e2: "peq q q2" and m2: "msgbuf q2 = msgbuf p @ b"
  shows "same_result n (append_parse mem (length b) q2) (append_parse mem (n + length b) p2)"
proof (cases "hstate p = HPS_HEADER_COMPLETE")
  case True
  then have "append_body n p = (0, n1, q)" using a by (simp add: append_parse_def)
  moreover have "peq p p" "chunk_ok p" using e c True by (auto simp: peq_def parse_ok_def)
  ultimately show ?thesis using body_wait [OF e m _ _ e2 m2] body_wait_keeps [of n p] True peq_same [OF e] peq_same [OF e2]
    by (simp add: append_parse_def)
next
  case False
  obtain rh ph where h: "parse_message_header mem (msgbuf p) p = (rh, ph)" by fastforce
  have e0: "peq p p" and off: "header_offset p \<le> length (msgbuf p)" using e c by (simp_all add: peq_def parse_ok_def)
  note more = hdr.run_more [OF e0 False off h, of b]
  show ?thesis
  proof (cases "rh > 0")
    case True
    with more have rn: "parse_message_header mem (msgbuf p @ b) p = (rh, ph)" and ph: "header_offset ph \<le> length (msgbuf p)"
      "hstate ph = HPS_HEADER_COMPLETE" by auto
    from hdr.run_cong [OF e _ rn] obtain p3 where p3: "parse_message_header mem (msgbuf p @ b) p2 = (rh, p3)" "peq ph p3"
      using off by auto
    have mm: "msgbuf ph = msgbuf p" "msgbuf p3 = msgbuf p @ b" using parse_msgbuf(2) h p3(1) m by auto
    have ab: "append_body n (header_done ph) = (0, n1, q)" using a h False True by (simp add: append_parse_def)
    have "peq (header_done ph) (header_done ph)" using p3(2) by (simp add: peq_refl) (simp add: peq_def)
    from body_wait_keeps [OF ab _ this] have "hstate q = HPS_HEADER_COMPLETE" using ph mm by (auto simp: chunk_ok_done)
    then show ?thesis
      using body_wait [OF peq_done [OF p3(2)] _ _ ab e2] ph mm m2 m False True p3(1) peq_same [OF e] peq_same [OF e2]
      by (simp add: append_parse_def chunk_ok_done)
  next
    case le: False
    then have q: "rh = 0" "q = ph" using a h False by (auto simp: append_parse_def split: if_splits)
    with more obtain r' u v where u: "parse_message_header mem (msgbuf p @ b) q = (r', u)"
      and v: "parse_message_header mem (msgbuf p @ b) p = (r', v)" "peq u v" and nc: "hstate q \<noteq> HPS_HEADER_COMPLETE" "header_offset q \<le> length (msgbuf p)"
      by auto
    from hdr.run_cong [OF e _ v(1)] obtain v2 where v2: "parse_message_header mem (msgbuf p2) p2 = (r', v2)" "peq v v2"
      using off m by auto
    from hdr.run_cong [OF e2 _ u] obtain u2 where u2: "parse_message_header mem (msgbuf q2) q2 = (r', u2)" "peq u u2"
      using nc m2 by auto
    have e3: "peq u2 v2" using v u2 v2 peq_sym peq_trans by blast
    have mm: "msgbuf u2 = msgbuf p @ b" "msgbuf v2 = msgbuf p @ b" using parse_msgbuf(2) u2 v2 m m2 by auto
    have e22: "peq q2 q2" using e2 peq_sym peq_trans by blast
    have "r' > 0 \<Longrightarrow> header_offset u2 \<le> length (msgbuf p @ b)"
      using hdr.run_more [OF e22 _ _ u2(1), of "[]"] nc m2 peq_same [OF e2] by auto
    then have "r' > 0 \<Longrightarrow> same_result n (append_body (length b) (header_done u2)) (append_body (n + length b) (header_done v2))"
      using body_cong [OF peq_done [OF e3]] chunk_ok_done [of u2] mm by (auto simp: chunk_ok_def)
    then show ?thesis using u2(1) v2(1) nc False peq_same [OF e] peq_same [OF e2] e3 mm
      by (auto simp: append_parse_def same_result_def)
  qed
qed

lemma add_header_complete: "http_parser_add_header mem n v p = (r, q) \<Longrightarrow> complete q = complete p"
  by (auto simp: http_parser_add_header_def split: if_splits)

lemma match_complete:
  "match_request_line mem a b c p = (r, q) \<Longrightarrow> complete q = complete p"
  "match_status_line mem a b c p = (r, q) \<Longrightarrow> complete q = complete p"
  "match_message_header mem n v p = (r, q) \<Longrightarrow> complete q = complete p"
  by (auto simp: match_request_line_def match_status_line_def match_message_header_def Let_def
      dest!: add_header_complete split: if_splits)

lemma header_step_complete: "header_step mem p ptr = (r, q) \<Longrightarrow> complete q = complete p"
  by (auto simp: header_step_def parse_start_line_def parse_header_name_def parse_header_value_def Let_def
      split: header_state.splits if_splits scan.splits vscan.splits prod.splits dest!: match_complete)

lemma parse_header_complete: "parse_message_header mem msg p = (r, q) \<Longrightarrow> complete q = complete p"
  by (erule hdr.run_keeps [rotated], erule header_step_complete)

lemma parse_wait_keeps:
  assumes a: "append_parse mem n p = (0, n1, q)" and c: "parse_ok p"
  shows "n1 = n \<and> msgbuf q = msgbuf p \<and> complete q = complete p \<and> parse_ok q"
proof (cases "hstate p = HPS_HEADER_COMPLETE")
  case True
  then show ?thesis using a c body_wait_keeps [of n p n1 q] by (simp add: append_parse_def parse_ok_def peq_refl)
next
  case False
  obtain rh ph where h: "parse_message_header mem (msgbuf p) p = (rh, ph)" by fastforce
  have ph: "peq ph ph" "rh \<ge> 0 \<longrightarrow> header_offset ph \<le> length (msgbuf p)" "rh = 0 \<longrightarrow> hstate ph \<noteq> HPS_HEADER_COMPLETE"
    using hdr.run_more [OF _ False _ h, of "[]"] c by (auto simp: parse_ok_def peq_refl split: if_splits)
  note mm = parse_msgbuf(2) [OF h] parse_header_complete [OF h]
  show ?thesis
  proof (cases "rh > 0")
    case True
    then have "append_body n (header_done ph) = (0, n1, q)" using a h False by (simp add: append_parse_def)
    from body_wait_keeps [OF this] show ?thesis using ph True mm by (simp add: parse_ok_def peq_refl chunk_ok_done)
  next
    case le: False
    then show ?thesis using a h False ph mm by (auto simp: append_parse_def parse_ok_def peq_refl split: if_splits)
  qed
qed

lemma grow_size_enough: "0 < sz \<Longrightarrow> need \<le> grow_size sz need \<and> sz \<le> grow_size sz need"
  by (induction sz need rule: grow_size.induct) (subst (1 2) grow_size.simps, auto)

text \<open>The state of a parser between two calls: it waits, and there is room for a terminator.\<close>

definition parser_inv :: "http_parser \<Rightarrow> bool" where
  "parser_inv p \<longleftrightarrow> parse_ok p \<and> \<not> complete p \<and> (msgbuf p \<noteq> [] \<longrightarrow> length (msgbuf p) < bufsize p)"

definition buffers_ok :: "(nat \<Rightarrow> bool) \<Rightarrow> bool" where
  "buffers_ok mem \<longleftrightarrow> (\<forall>n \<ge> HTTP_MSGBUF_INIT_SIZE. mem n)"

definition buf_after :: "string \<Rightarrow> http_parser \<Rightarrow> nat" where
  "buf_after buf p = (let need = length (msgbuf p) + length buf + 1 in
     if need > bufsize p then grow_size (max HTTP_MSGBUF_INIT_SIZE (2 * bufsize p)) need else bufsize p)"

lemma buf_after_bounds:
  "length (msgbuf p) + length buf < buf_after buf p"
  "length (msgbuf p) + length buf + 1 > bufsize p \<Longrightarrow> HTTP_MSGBUF_INIT_SIZE \<le> buf_after buf p"
  using grow_size_enough [of "max HTTP_MSGBUF_INIT_SIZE (2 * bufsize p)" "length (msgbuf p) + length buf + 1"]
  by (auto simp: buf_after_def Let_def less_max_iff_disj)

lemma append_message_eq:
  "buffers_ok mem \<Longrightarrow> \<not> complete p \<Longrightarrow> http_parser_append_message mem buf p =
     append_parse mem (length buf) (p\<lparr>bufsize := buf_after buf p, msgbuf := msgbuf p @ buf\<rparr>)"
  using buf_after_bounds(2) [of p buf]
  by (auto simp: http_parser_append_message_def buf_after_def buffers_ok_def Let_def)

lemma parse_ok_append: "parse_ok p \<Longrightarrow> parse_ok (p\<lparr>bufsize := n, msgbuf := msgbuf p @ b\<rparr>)"
  by (auto simp: parse_ok_def chunk_ok_def)

lemma peq_append: "peq p p \<Longrightarrow> peq (p\<lparr>bufsize := n, msgbuf := m\<rparr>) (p\<lparr>bufsize := n', msgbuf := m'\<rparr>)"
  by (simp add: peq_def pbuf_def cname_def)

lemma append_two_pieces:
  assumes mem: "buffers_ok mem" and p: "parser_inv p" and a: "http_parser_append_message mem a p = (r, n, q)"
  shows "(r \<noteq> 0 \<longrightarrow> same_result 0 (r, n, q) (http_parser_append_message mem (a @ b) p)) \<and>
    (r = 0 \<longrightarrow> n = length a \<and> parse_ok q \<and> \<not> complete q \<and>
       same_result (length a) (http_parser_append_message mem b q) (http_parser_append_message mem (a @ b) p))"
proof -
  let ?p = "p\<lparr>bufsize := buf_after a p, msgbuf := msgbuf p @ a\<rparr>" and ?p2 = "p\<lparr>bufsize := buf_after (a @ b) p, msgbuf := msgbuf p @ a @ b\<rparr>"
  have ok: "parse_ok ?p" "\<not> complete p" using p parse_ok_append by (auto simp: parser_inv_def)
  have e: "peq ?p ?p2" using p by (auto intro!: peq_append simp: peq_refl parser_inv_def parse_ok_def)
  have pa: "append_parse mem (length a) ?p = (r, n, q)" using append_message_eq [OF mem ok(2), of a] a by simp
  have pab: "http_parser_append_message mem (a @ b) p = append_parse mem (length a + length b) ?p2"
    using append_message_eq [OF mem ok(2), of "a @ b"] by simp
  show ?thesis
  proof (cases "r = 0")
    case True
    note k = parse_wait_keeps [OF pa [unfolded True] ok(1)]
    let ?q = "q\<lparr>bufsize := buf_after b q, msgbuf := msgbuf q @ b\<rparr>"
    have "peq q q" using k by (simp add: parse_ok_def peq_refl)
    then have "peq q ?q" using peq_append [where n = "bufsize q" and m = "msgbuf q" and p = q] by simp
    then have "same_result (length a) (append_parse mem (length b) ?q) (append_parse mem (length a + length b) ?p2)"
      using parse_wait [OF e _ ok(1) pa [unfolded True]] k by simp
    then show ?thesis using True k ok pab append_message_eq [OF mem, of q b] by simp
  next
    case False
    then show ?thesis using parse_verdict [OF e _ ok(1) pa False] pab by simp
  qed
qed

text \<open>The caller's loop: bytes are appended as they arrive until there is a verdict.\<close>

fun feed :: "(nat \<Rightarrow> bool) \<Rightarrow> string list \<Rightarrow> http_parser \<Rightarrow> int \<times> nat \<times> http_parser" where
  "feed mem [] p = (0, 0, p)"
| "feed mem (a # as) p =
     (let (r, n, q) = http_parser_append_message mem a p in
      if r = 0 then (let (r', n', q') = feed mem as q in (r', n + n', q')) else (r, n, q))"

lemma same_result_trans: "same_result j x y \<Longrightarrow> same_result k y z \<Longrightarrow> same_result (k + j) x z"
proof -
  assume s: "same_result j x y" "same_result k y z"
  obtain r n p where x: "x = (r, n, p)" by (metis prod_cases3)
  obtain r' n' p' where y: "y = (r', n', p')" by (metis prod_cases3)
  obtain r'' n'' p'' where z: "z = (r'', n'', p'')" by (metis prod_cases3)
  have "peq p p''" using s x y z peq_trans by (simp add: same_result_def) blast
  moreover have "(k + n') mod 2 ^ 64 = (k + j + n) mod 2 ^ 64" if "n' mod 2 ^ 64 = (j + n) mod 2 ^ 64"
    using that by (metis add.assoc mod_add_right_eq)
  ultimately show ?thesis using s unfolding x y z same_result_def by auto
qed

lemma append_body_buffers: "append_body n p = (r, n1, q) \<Longrightarrow> bufsize q = bufsize p \<and> length (msgbuf q) \<le> length (msgbuf p)"
  by (auto simp: append_body_def Let_def split: if_splits prod.splits dest!: parse_buffers)

lemma header_done_bufsize [simp]: "bufsize (header_done p) = bufsize p"
  by (simp add: header_done_def)

lemma append_parse_buffers: "append_parse mem n p = (r, n1, q) \<Longrightarrow> bufsize q = bufsize p \<and> length (msgbuf q) \<le> length (msgbuf p)"
  by (auto simp: append_parse_def Let_def split: if_splits prod.splits dest!: parse_buffers append_body_buffers)

lemma append_inv:
  assumes "buffers_ok mem" and "parser_inv p" and "http_parser_append_message mem a p = (0, n, q)"
  shows "parser_inv q"
proof -
  have "append_parse mem (length a) (p\<lparr>bufsize := buf_after a p, msgbuf := msgbuf p @ a\<rparr>) = (0, n, q)"
    using append_message_eq [of mem p a] assms by (simp add: parser_inv_def)
  from append_parse_buffers [OF this] show ?thesis
    using append_two_pieces [OF assms, of "[]"] buf_after_bounds(1) [of p a] by (simp add: parser_inv_def)
qed

lemma feed_pieces:
  "buffers_ok mem \<Longrightarrow> parser_inv p \<Longrightarrow> as \<noteq> [] \<Longrightarrow>
   same_result 0 (feed mem as p) (http_parser_append_message mem (concat as) p)"
proof (induction as arbitrary: p)
  case (Cons a as)
  obtain r n q where a: "http_parser_append_message mem a p = (r, n, q)" by (metis prod_cases3)
  note two = append_two_pieces [OF Cons.prems(1,2) a, of "concat as"]
  show ?case
  proof (cases "r = 0")
    case True
    have q: "parser_inv q" by (rule append_inv [OF Cons.prems(1,2) a [unfolded True]])
    show ?thesis
    proof (cases "as = []")
      case True
      then show ?thesis using a two \<open>r = 0\<close> by (auto simp: same_result_def parse_ok_def peq_refl)
    next
      case False
      obtain r' n' q' where f: "feed mem as q = (r', n', q')" by (metis prod_cases3)
      have "same_result (n + 0) (r', n', q') (http_parser_append_message mem (a @ concat as) p)"
        using same_result_trans [OF Cons.IH [OF Cons.prems(1) q False]] two True f by (auto simp: add.commute)
      then show ?thesis using a f True by (auto simp: same_result_def)
    qed
  next
    case False
    then show ?thesis using two a by simp
  qed
qed simp

subsection \<open>Header lines stay well formed\<close>

text \<open>The line as it is sent: name, separator, value and CR LF at the start of its buffer.\<close>

definition line_text :: "header_line \<Rightarrow> string" where
  "line_text l = take (name_len l + 2 + value_len l + 2) (line_buf l)"

definition line_ok :: "header_line \<Rightarrow> bool" where
  "line_ok l \<longleftrightarrow> length (line_name l) = name_len l \<and> length (line_value l) = value_len l \<and>
     line_text l = line_name l @ '': '' @ line_value l @ [CR, LF]"

lemma take_line: "take (length nm + 2 + length v + 2) (nm @ '': '' @ v @ [CR, LF] @ rest) = nm @ '': '' @ v @ [CR, LF]"
proof -
  have "length nm + 2 + length v + 2 = length (nm @ '': '' @ v @ [CR, LF])" by simp
  then show ?thesis by (metis append.assoc append_eq_conv_conj)
qed

lemma line_of:
  assumes "line_buf l = nm @ '': '' @ v @ [CR, LF] @ rest" and "name_len l = length nm" and "value_len l = length v"
  shows "line_ok l \<and> line_name l = nm \<and> line_value l = v"
proof -
  have "line_name l = nm" "line_value l = v" using assms by (simp_all add: line_name_def line_value_def)
  moreover have "line_text l = nm @ '': '' @ v @ [CR, LF]" unfolding line_text_def assms by (rule take_line)
  ultimately show ?thesis using assms by (simp add: line_ok_def)
qed

lemma line_split:
  assumes "line_ok l"
  obtains rest where "line_buf l = line_name l @ '': '' @ line_value l @ [CR, LF] @ rest"
    "name_len l = length (line_name l)" "value_len l = length (line_value l)"
proof -
  let ?n = "name_len l + 2 + value_len l + 2"
  have "line_buf l = line_text l @ drop ?n (line_buf l)" unfolding line_text_def by (rule append_take_drop_id [symmetric])
  moreover have "line_text l = line_name l @ '': '' @ line_value l @ [CR, LF]" using assms by (simp add: line_ok_def)
  ultimately have "line_buf l = line_name l @ '': '' @ line_value l @ [CR, LF] @ drop ?n (line_buf l)" by simp
  then show thesis using assms that unfolding line_ok_def by metis
qed

lemma line_matches_iff: "line_ok l \<Longrightarrow> line_matches name l \<longleftrightarrow> strcaseeq (line_name l) name"
  using strcaseeq_length [of "line_name l" name]
  by (auto simp: line_matches_def line_ok_def line_name_def)

lemma write_at_mid: "length old = length src \<Longrightarrow> write_at (length a) src (a @ old @ rest) = a @ src @ rest"
  by (simp add: write_at_def)

lemma write_value:
  assumes "length val + 2 \<le> length old"
  shows "write_at (length nm + 2 + length val) [CR, LF] (write_at (length nm + 2) val (nm @ '': '' @ old)) =
    nm @ '': '' @ val @ [CR, LF] @ drop (length val + 2) old"
proof -
  let ?a = "take (length val) old" and ?r = "drop (length val) old"
  have "write_at (length nm + 2) val (nm @ '': '' @ old) = nm @ '': '' @ val @ ?r"
    using write_at_mid [of ?a val "nm @ '': ''" ?r] assms by simp
  moreover have "?r = take 2 ?r @ drop (length val + 2) old" by (metis append_take_drop_id drop_drop add.commute)
  ultimately show ?thesis
    using write_at_mid [of "take 2 ?r" "[CR, LF]" "nm @ '': '' @ val" "drop (length val + 2) old"] assms by simp
qed

lemma set_value_ok:
  assumes l: "line_ok l" and m: "line_matches name l" and s: "line_set_value mem name val l = Some l'"
  shows "line_ok l' \<and> strcaseeq (line_name l') name \<and> line_value l' = val"
proof -
  obtain rest where b: "line_buf l = line_name l @ '': '' @ line_value l @ [CR, LF] @ rest"
    and n: "name_len l = length (line_name l)" "value_len l = length (line_value l)" using line_split [OF l] .
  have nl: "length (line_name l) = length name" using m n by (simp add: line_matches_def)
  show ?thesis
  proof (cases "length val > value_len l")
    case True
    have "l' = l\<lparr>line_buf := name @ '': '' @ val @ [CR, LF], value_len := length val\<rparr>"
      using s True write_value [of val "replicate (length val + 2) NUL" name]
      by (simp add: line_set_value_def Let_def split: if_splits del: replicate_add)
    then show ?thesis using line_of [of l' name val "[]"] nl n by simp
  next
    case False
    have "l' = l\<lparr>line_buf := line_name l @ '': '' @ val @ [CR, LF] @ drop (length val + 2) (line_value l @ [CR, LF] @ rest), value_len := length val\<rparr>"
      using s False n nl write_value [of val "line_value l @ [CR, LF] @ rest" "line_name l"] unfolding line_set_value_def Let_def b [symmetric]
      by simp
    then show ?thesis using line_of [of l' "line_name l" val] n m l by (simp add: line_matches_iff)
  qed
qed

definition lines_ok :: "http_parser \<Rightarrow> bool" where
  "lines_ok p \<longleftrightarrow> list_all line_ok (header_list p)"

text \<open>The header fields of a message, in order; looking one up ignores case.\<close>

definition header_fields :: "http_parser \<Rightarrow> (string \<times> string) list" where
  "header_fields p = map (\<lambda>l. (line_name l, line_value l)) (header_list p)"

fun field_get :: "string \<Rightarrow> (string \<times> string) list \<Rightarrow> string option" where
  "field_get name [] = None"
| "field_get name ((n, v) # fs) = (if strcaseeq n name then Some v else field_get name fs)"

lemma find_loop_fields:
  "list_all line_ok ls \<Longrightarrow> fst (cursor_find_loop name ls cur) = field_get name (map (\<lambda>l. (line_name l, line_value l)) ls)"
  by (induction ls arbitrary: cur) (auto simp: line_matches_iff)

lemma find_fields: "lines_ok p \<Longrightarrow> fst (http_header_cursor_find name p 0) = field_get name (header_fields p)"
  by (simp add: http_header_cursor_find_def lines_ok_def header_fields_def find_loop_fields)

subsection \<open>Properties\<close>

abbreviation pairs :: "header_line list \<Rightarrow> (string \<times> string) list" where
  "pairs ls \<equiv> map (\<lambda>l. (line_name l, line_value l)) ls"

lemma field_get_append: "field_get n (a @ b) = (case field_get n a of None \<Rightarrow> field_get n b | Some v \<Rightarrow> Some v)"
  by (induction a) auto

lemma set_header_loop_ok:
  "list_all line_ok ls \<Longrightarrow> set_header_loop mem name val ls = res \<Longrightarrow>
   (res = None \<and> field_get name (pairs ls) = None) \<or>
   (res = Some (-1, ls) \<and> (\<exists>n. \<not> mem n)) \<or>
   (\<exists>ls'. res = Some (0, ls') \<and> list_all line_ok ls' \<and> length ls' = length ls \<and> field_get name (pairs ls) \<noteq> None \<and>
      field_get name (pairs ls') = Some val \<and> (\<forall>n. \<not> strcaseeq n name \<longrightarrow> field_get n (pairs ls') = field_get n (pairs ls)))"
proof (induction ls arbitrary: res)
  case (Cons l ls)
  show ?case
  proof (cases "line_matches name l")
    case True
    have sn: "strcaseeq (line_name l) name" using True Cons.prems(1) by (simp add: line_matches_iff)
    show ?thesis
    proof (cases "line_set_value mem name val l")
      case None
      then show ?thesis using True Cons.prems by (auto simp: line_set_value_def Let_def split: if_splits)
    next
      case (Some l')
      have l': "line_ok l'" "strcaseeq (line_name l') name" "line_value l' = val"
        using set_value_ok [OF _ True Some] Cons.prems(1) by auto
      have "field_get n (pairs (l' # ls)) = field_get n (pairs (l # ls))" if "\<not> strcaseeq n name" for n
      proof -
        have "\<not> strcaseeq (line_name l') n" "\<not> strcaseeq (line_name l) n"
          using that l'(2) sn strcaseeq_sym strcaseeq_trans by blast+
        then show ?thesis by simp
      qed
      moreover have "res = Some (0, l' # ls)" using Cons.prems(2) True Some by simp
      ultimately show ?thesis using Cons.prems(1) l' sn by (intro disjI2 exI [of _ "l' # ls"]) simp
    qed
  next
    case False
    then have "\<not> strcaseeq (line_name l) name" using Cons.prems(1) by (simp add: line_matches_iff)
    then show ?thesis using Cons.IH [OF _ refl] Cons.prems False by auto
  qed
qed auto

lemma append_body_done:
  assumes a: "append_body n p = (1, n1, q)" and c: "chunk_ok p" and e: "peq p p" and h: "hstate p = HPS_HEADER_COMPLETE"
    and o: "header_offset p \<le> length (msgbuf p)"
  shows "complete q \<and> hstate q = HPS_HEADER_COMPLETE \<and> transfer_length q = transfer_length p \<and> header_offset q = header_offset p \<and>
    (\<exists>t \<le> length (msgbuf p). msgbuf q = take t (msgbuf p) \<and>
       (if transfer_length p \<noteq> SIZE_NONE then t = (header_offset p + transfer_length p) mod 2 ^ 64 else header_offset p \<le> t))"
proof (cases "transfer_length p \<noteq> SIZE_NONE")
  case True
  then show ?thesis using a h by (auto simp: append_body_def Let_def split: if_splits)
next
  case False
  then have ch: "chunked p" using a by (auto simp: append_body_def split: if_splits)
  obtain r1 p1 where p1: "parse_chunk (msgbuf p) p = (r1, p1)" by fastforce
  have q: "r1 > 0" "q = p1\<lparr>msgbuf := take (chunk_offset p1) (msgbuf p1), complete := True\<rparr>"
    using a p1 False ch c by (auto simp: append_body_def chunk_ok_def split: if_splits)
  have "chunk_offset p \<le> chunk_offset p1" using chunks.run_off [OF e _ p1] q(1) c ch by (auto simp: chunk_ok_def)
  moreover have "chunk_offset p1 \<le> length (msgbuf p)" using chunks.run_more [OF e _ _ p1] q(1) c ch by (auto simp: chunk_ok_def)
  ultimately show ?thesis using q False ch c h chunk_frame [OF p1] parse_msgbuf(1) [OF p1] by (auto simp: chunk_ok_def)
qed

lemma append_parse_done:
  assumes a: "append_parse mem n p = (1, n1, q)" and c: "parse_ok p"
  shows "complete q \<and> hstate q = HPS_HEADER_COMPLETE \<and> header_offset q \<le> length (msgbuf p) \<and>
    (\<exists>t \<le> length (msgbuf p). msgbuf q = take t (msgbuf p) \<and>
       (if transfer_length q \<noteq> SIZE_NONE then t = (header_offset q + transfer_length q) mod 2 ^ 64 else header_offset q \<le> t))"
proof (cases "hstate p = HPS_HEADER_COMPLETE")
  case True
  then show ?thesis using append_body_done [of n p n1 q] a c by (auto simp: append_parse_def parse_ok_def peq_refl)
next
  case False
  obtain rh ph where h: "parse_message_header mem (msgbuf p) p = (rh, ph)" by fastforce
  then have rh: "rh > 0" using a False by (auto simp: append_parse_def split: if_splits)
  have ph: "peq ph ph" "header_offset ph \<le> length (msgbuf p)" "hstate ph = HPS_HEADER_COMPLETE"
    using hdr.run_more [OF _ False _ h, of "[]"] c rh by (auto simp: parse_ok_def peq_refl)
  have ab: "append_body n (header_done ph) = (1, n1, q)" using a h False rh by (simp add: append_parse_def)
  show ?thesis using append_body_done [OF ab] ph parse_msgbuf(2) [OF h] by (auto simp: chunk_ok_done peq_refl)
qed

text \<open>C1: However the stream is cut into pieces, parsing piece by piece ends with the verdict, the number of bytes
  used (as a \<^verbatim>\<open>size_t\<close>), the message bytes and the parsed fields that parsing the whole at once gives,
  from any state between two calls, provided the message buffer can grow.\<close>

theorem parse_any_pieces:
  assumes "buffers_ok mem" and "parser_inv p" and "as \<noteq> []"
  shows "same_result 0 (feed mem as p) (http_parser_append_message mem (concat as) p)"
  using assms by (rule feed_pieces)

definition blank_parser :: http_parser where
  "blank_parser = http_parser_init False \<lparr>hstate = HPS_START_LINE, cstate = CPS_CHUNK_DATA, header_offset = 0, chunk_offset = 0,
     content_length = 0, transfer_length = 0, version = None, method_of = None, uri_of = None, code_of = None, phrase_of = None,
     header_list = [], namebuf = replicate 64 NUL, msgbuf = [], bufsize = 0, expect_continue = False, keep_alive = False,
     chunked = False, complete = False, is_resp = False\<rparr>"

lemma blank_parser_inv: "parser_inv blank_parser"
  by (simp add: parser_inv_def parse_ok_def blank_parser_def http_parser_init_def)

theorem parse_any_pieces_witness:
  "same_result 0 (feed (\<lambda>_. True) [''GET / HT'', ''TP/1.1'' @ [CR], [LF] @ ''A: '', ''b'' @ [CR, LF, CR, LF]] blank_parser)
     (http_parser_append_message (\<lambda>_. True) (''GET / HTTP/1.1'' @ [CR, LF] @ ''A: b'' @ [CR, LF, CR, LF]) blank_parser) \<and>
   fst (http_parser_append_message (\<lambda>_. True) (''GET / HTTP/1.1'' @ [CR, LF] @ ''A: b'' @ [CR, LF, CR, LF]) blank_parser) = 1"
proof
  show "fst (http_parser_append_message (\<lambda>_. True) (''GET / HTTP/1.1'' @ [CR, LF] @ ''A: b'' @ [CR, LF, CR, LF]) blank_parser) = 1"
    by code_simp
qed (use parse_any_pieces [of "\<lambda>_. True" blank_parser "[''GET / HT'', ''TP/1.1'' @ [CR], [LF] @ ''A: '', ''b'' @ [CR, LF, CR, LF]]"]
  blank_parser_inv in \<open>simp add: buffers_ok_def\<close>)

text \<open>C37: When a message is complete and its declared length did not overflow, the body that
  \<^verbatim>\<open>http_parser_get_body\<close> returns is exactly the rest of the message after the header, as long as declared;
  the message is an initial part of the bytes received, and the terminator is written inside the buffer.\<close>

theorem parsed_body:
  assumes "buffers_ok mem" and "parser_inv p" and "http_parser_append_message mem buf p = (1, n, q)"
    and "length (msgbuf p) + length buf < 2 ^ 64"
    and "transfer_length q = SIZE_NONE \<or> header_offset q + transfer_length q < 2 ^ 64"
  shows "\<exists>size. http_parser_get_body q = Some (header_offset q, size, length (msgbuf q)) \<and>
    header_offset q + size = length (msgbuf q) \<and> length (msgbuf q) < bufsize q \<and>
    (\<exists>rest. msgbuf p @ buf = msgbuf q @ rest) \<and> (transfer_length q \<noteq> SIZE_NONE \<longrightarrow> size = transfer_length q)"
proof -
  let ?p = "p\<lparr>bufsize := buf_after buf p, msgbuf := msgbuf p @ buf\<rparr>"
  have a: "append_parse mem (length buf) ?p = (1, n, q)"
    using append_message_eq [OF assms(1)] assms(2,3) by (simp add: parser_inv_def)
  have ok: "parse_ok ?p" using assms(2) parse_ok_append by (auto simp: parser_inv_def)
  from append_parse_done [OF a ok] obtain t where
    d: "complete q" "hstate q = HPS_HEADER_COMPLETE" and t: "t \<le> length (msgbuf p @ buf)" "msgbuf q = take t (msgbuf p @ buf)"
      "if transfer_length q \<noteq> SIZE_NONE then t = (header_offset q + transfer_length q) mod 2 ^ 64 else header_offset q \<le> t"
    by auto
  have lt: "length (msgbuf q) = t" "header_offset q \<le> t" "transfer_length q \<noteq> SIZE_NONE \<Longrightarrow> t = header_offset q + transfer_length q"
    using t assms(5) by (auto split: if_splits)
  have "length (msgbuf q) < bufsize q"
    using append_parse_buffers [OF a] buf_after_bounds(1) [of p buf] by simp
  moreover have "nat ((int t - int (header_offset q)) mod 2 ^ 64) = t - header_offset q" using t(1) lt(2) assms(4) by simp
  moreover have "\<exists>rest. msgbuf p @ buf = msgbuf q @ rest" using t(2) append_take_drop_id [of t "msgbuf p @ buf"] by metis
  ultimately show ?thesis using lt d
    by (intro exI [of _ "t - header_offset q"]) (simp add: http_parser_get_body_def)
qed

definition post_text :: string where
  "post_text = ''POST / HTTP/1.1'' @ [CR, LF] @ ''Content-Length: 3'' @ [CR, LF, CR, LF] @ ''abcdef''"

theorem parsed_body_witness:
  "http_parser_get_body (snd (snd (http_parser_append_message (\<lambda>_. True) post_text blank_parser))) = Some (38, 3, 41)"
proof -
  obtain r n q where a: "http_parser_append_message (\<lambda>_. True) post_text blank_parser = (r, n, q)" by (metis prod_cases3)
  have "(case http_parser_append_message (\<lambda>_. True) post_text blank_parser of
      (r, n, q) \<Rightarrow> (r, header_offset q, transfer_length q, length post_text)) = (1, 38, 3, 44)" by code_simp
  then have q: "r = 1" "header_offset q = 38" "transfer_length q = 3" "length post_text = 44" using a by auto
  have "msgbuf blank_parser = []" by (simp add: blank_parser_def http_parser_init_def)
  then show ?thesis using parsed_body [OF _ blank_parser_inv a [unfolded q(1)]] q a by (auto simp: buffers_ok_def)
qed

text \<open>A declared length that does not fit an \<^verbatim>\<open>int\<close> can put the end of the message inside its header:
  the message is complete at once, and the size of its body is reported as almost \<^verbatim>\<open>2^64\<close> bytes.\<close>

theorem content_length_wraps:
  "(case http_parser_append_message (\<lambda>_. True)
      (''POST / HTTP/1.1'' @ [CR, LF] @ ''Content-Length: 4294967290'' @ [CR, LF, CR, LF]) blank_parser of
      (r, n, q) \<Rightarrow> (r, http_parser_get_body q)) = (1, Some (47, 2 ^ 64 - 6, 41))"
  by code_simp

text \<open>\<^verbatim>\<open>http_parser_set_header\<close> either fails for lack of memory and changes nothing, or afterwards a search
  for the name finds the new value, every other field is found as before, the lines are well formed
  and at most one line was added, only when the name was not there.\<close>

theorem set_header_find:
  assumes "lines_ok p" and "http_parser_set_header mem name val p = (r, q)"
  shows "(r = -1 \<and> q = p \<and> (\<exists>n. \<not> mem n)) \<or>
    (r = 0 \<and> lines_ok q \<and> fst (http_header_cursor_find name q 0) = Some val \<and>
     (\<forall>n. \<not> strcaseeq n name \<longrightarrow> fst (http_header_cursor_find n q 0) = fst (http_header_cursor_find n p 0)) \<and>
     length (header_list q) = length (header_list p) + (if fst (http_header_cursor_find name p 0) = None then 1 else 0))"
proof (cases "set_header_loop mem name val (header_list p)")
  case None
  define l where "l = \<lparr>name_len = length name, value_len = length val, line_buf = name @ '': '' @ val @ [CR, LF]\<rparr>"
  have l: "line_ok l \<and> line_name l = name \<and> line_value l = val" using line_of [of l name val "[]"] by (simp add: l_def)
  have nf: "field_get name (pairs (header_list p)) = None"
    using set_header_loop_ok [OF _ None] assms(1) by (auto simp: lines_ok_def)
  show ?thesis
  proof (cases "r = 0")
    case True
    then have q: "header_list q = header_list p @ [l]" using assms(2) None
      by (auto simp: http_parser_set_header_def http_parser_add_header_def l_def split: if_splits)
    then have "lines_ok q" using assms(1) l by (simp add: lines_ok_def)
    then show ?thesis using True q l nf assms(1) strcaseeq_sym
      by (auto simp: find_fields header_fields_def field_get_append split: option.split)
  qed (use assms(2) None in \<open>auto simp: http_parser_set_header_def http_parser_add_header_def split: if_splits\<close>)
next
  case (Some x)
  from set_header_loop_ok [OF _ Some] assms(1)
  have "(x = (-1, header_list p) \<and> (\<exists>n. \<not> mem n)) \<or> (\<exists>ls'. x = (0, ls') \<and> list_all line_ok ls' \<and> length ls' = length (header_list p) \<and>
      field_get name (pairs (header_list p)) \<noteq> None \<and> field_get name (pairs ls') = Some val \<and>
      (\<forall>n. \<not> strcaseeq n name \<longrightarrow> field_get n (pairs ls') = field_get n (pairs (header_list p))))"
    by (simp add: lines_ok_def)
  then show ?thesis
  proof
    assume "x = (-1, header_list p) \<and> (\<exists>n. \<not> mem n)"
    then show ?thesis using assms(2) Some by (auto simp: http_parser_set_header_def)
  next
    assume "\<exists>ls'. x = (0, ls') \<and> list_all line_ok ls' \<and> length ls' = length (header_list p) \<and>
      field_get name (pairs (header_list p)) \<noteq> None \<and> field_get name (pairs ls') = Some val \<and>
      (\<forall>n. \<not> strcaseeq n name \<longrightarrow> field_get n (pairs ls') = field_get n (pairs (header_list p)))"
    then obtain ls' where ls: "x = (0, ls')" "list_all line_ok ls'" "length ls' = length (header_list p)"
      "field_get name (pairs (header_list p)) \<noteq> None" "field_get name (pairs ls') = Some val"
      "\<And>n. \<not> strcaseeq n name \<Longrightarrow> field_get n (pairs ls') = field_get n (pairs (header_list p))" by blast
    have q: "r = 0" "q = p\<lparr>header_list := ls'\<rparr>" using assms(2) Some ls(1) by (auto simp: http_parser_set_header_def)
    then have "lines_ok q" using ls(2) by (simp add: lines_ok_def)
    then show ?thesis using q ls assms(1) by (simp add: find_fields header_fields_def)
  qed
qed

theorem set_header_find_witness:
  "fst (http_header_cursor_find ''A'' (snd (http_parser_set_header (\<lambda>_. True) ''a'' ''xyz'' blank_parser)) 0) = Some ''xyz''"
proof -
  obtain r q where s: "http_parser_set_header (\<lambda>_. True) ''a'' ''xyz'' blank_parser = (r, q)" by fastforce
  have "lines_ok blank_parser" by (simp add: lines_ok_def blank_parser_def http_parser_init_def)
  from set_header_find [OF this s] have "lines_ok q" "fst (http_header_cursor_find ''a'' q 0) = Some ''xyz''" by auto
  moreover have "tolower (CHR ''A'') = tolower (CHR ''a'')" by code_simp
  then have "strcaseeq n ''A'' = strcaseeq n ''a''" for n by (simp add: strcaseeq_def)
  then have "field_get ''A'' fs = field_get ''a'' fs" for fs by (induction fs) auto
  ultimately show ?thesis using s by (simp add: find_fields)
qed

end
