(* ===== verification/HttpMessage.thy ===== *)
theory HttpMessage imports HttpParser begin

text \<open>
  HTTP messages of \<^verbatim>\<open>protocol/HttpMessage.cc\<close>: the output body as a list of blocks, \<^verbatim>\<open>encode\<close>, which
  fills an array of vectors and joins the last blocks when the array is too short, and the
  \<^verbatim>\<open>append\<close> methods with their size limit and their replies to the peer. What \<^verbatim>\<open>feedback\<close>
  (a socket write) returns is an argument; the bytes given to it are part of the result. The main
  result is that parsing what \<^verbatim>\<open>encode\<close> sends gives the message back.
\<close>

subsection \<open>State\<close>

record HttpMessageBlock =
  blk_ptr :: string
  blk_size :: nat

record HttpMessage =
  parser :: http_parser
  cur_size :: nat
  size_limit :: nat
  output_body :: "HttpMessageBlock list"
  output_body_size :: nat

datatype http_errno = EBADMSG | EOVERFLOW | EMSGSIZE | EAGAIN | ENOMEM

abbreviation sizeof_block :: nat where "sizeof_block \<equiv> 32"

definition message_init :: "bool \<Rightarrow> http_parser \<Rightarrow> HttpMessage \<Rightarrow> HttpMessage" where
  "message_init resp p m = m\<lparr>size_limit := SIZE_NONE, parser := http_parser_init resp p, output_body := [], output_body_size := 0, cur_size := 0\<rparr>"

subsection \<open>The output body\<close>

definition append_output_body :: "(nat \<Rightarrow> bool) \<Rightarrow> string \<Rightarrow> HttpMessage \<Rightarrow> bool \<times> HttpMessage" where
  "append_output_body mem buf m =
     (if mem (sizeof_block + length buf)
      then (True, m\<lparr>output_body := output_body m @ [\<lparr>blk_ptr = buf, blk_size = length buf\<rparr>],
                    output_body_size := output_body_size m + length buf\<rparr>)
      else (False, m))"

definition append_output_body_nocopy :: "(nat \<Rightarrow> bool) \<Rightarrow> string \<Rightarrow> HttpMessage \<Rightarrow> bool \<times> HttpMessage" where
  "append_output_body_nocopy mem buf m =
     (if mem sizeof_block
      then (True, m\<lparr>output_body := output_body m @ [\<lparr>blk_ptr = buf, blk_size = length buf\<rparr>],
                    output_body_size := output_body_size m + length buf\<rparr>)
      else (False, m))"

definition clear_output_body :: "HttpMessage \<Rightarrow> HttpMessage" where
  "clear_output_body m = m\<lparr>output_body := [], output_body_size := 0\<rparr>"

text \<open>\<open>blk_bytes\<close> is what a reader of the block sees.\<close>

definition blk_bytes :: "HttpMessageBlock \<Rightarrow> string" where
  "blk_bytes b = take (blk_size b) (blk_ptr b)"

text \<open>
  The blocks from \<open>pos\<close> on are replaced by one block of \<open>sz\<close> bytes. \<open>None\<close> is a write beyond
  the new block; the inner \<open>None\<close> a failed allocation.
\<close>

definition combine_from :: "(nat \<Rightarrow> bool) \<Rightarrow> HttpMessageBlock list \<Rightarrow> nat \<Rightarrow> HttpMessageBlock option option" where
  "combine_from mem pos sz =
     (if \<not> mem (sizeof_block + sz) then Some None
      else if length (concat (map blk_bytes pos)) > sz then None
      else Some (Some \<lparr>blk_ptr = concat (map blk_bytes pos), blk_size = sz\<rparr>))"

subsection \<open>Encoding\<close>

text \<open>The loop over the blocks: \<open>vs\<close> are the vectors filled so far, \<open>seen\<close> the blocks passed.\<close>

fun encode_body :: "(nat \<Rightarrow> bool) \<Rightarrow> nat \<Rightarrow> nat \<Rightarrow> string list \<Rightarrow> HttpMessageBlock list \<Rightarrow> HttpMessageBlock list \<Rightarrow>
    ((http_errno + string list) \<times> HttpMessageBlock list) option" where
  "encode_body mem mx sz vs seen [] = Some (Inr vs, seen)"
| "encode_body mem mx sz vs seen (b # bs) =
     (if length vs + 1 = mx \<and> bs \<noteq> [] then
        (case combine_from mem (b # bs) sz of
           None \<Rightarrow> None
         | Some None \<Rightarrow> Some (Inl ENOMEM, seen @ b # bs)
         | Some (Some c) \<Rightarrow> Some (Inr (vs @ [blk_bytes c]), seen @ [c]))
      else encode_body mem mx (sz - blk_size b) (vs @ [blk_bytes b]) (seen @ [b]) bs)"

definition start_parts :: "http_parser \<Rightarrow> (string \<times> string \<times> string) option" where
  "start_parts p =
     (case (case method_of p of
              Some a \<Rightarrow> (Some a, uri_of p, version p)
            | None \<Rightarrow> (version p, code_of p, phrase_of p)) of
        (Some a, Some b, Some c) \<Rightarrow> Some (a, b, c)
      | _ \<Rightarrow> None)"

definition encode_head :: "string \<times> string \<times> string \<Rightarrow> string list" where
  "encode_head st = (case st of (a, b, c) \<Rightarrow> [a, '' '', b, '' '', c, [CR, LF]])"

text \<open>The loop over the header lines stops when the array is full.\<close>

fun encode_lines :: "nat \<Rightarrow> string list \<Rightarrow> header_line list \<Rightarrow> string list" where
  "encode_lines mx vs [] = vs"
| "encode_lines mx vs (l # ls) =
     (if length vs = mx then vs else encode_lines mx (vs @ [line_text l]) ls)"

definition encode :: "(nat \<Rightarrow> bool) \<Rightarrow> nat \<Rightarrow> HttpMessage \<Rightarrow> ((http_errno + string list) \<times> HttpMessage) option" where
  "encode mem mx m =
     (case start_parts (parser m) of
        None \<Rightarrow> Some (Inl EBADMSG, m)
      | Some st \<Rightarrow>
          (let vs = encode_lines mx (encode_head st) (header_list (parser m)) in
           if length vs + 1 \<ge> mx then Some (Inl EOVERFLOW, m)
           else map_option (apsnd (\<lambda>bs. m\<lparr>output_body := bs\<rparr>))
             (encode_body mem mx (output_body_size m) (vs @ [[CR, LF]]) [] (output_body m))))"

subsection \<open>Receiving\<close>

text \<open>Result: the return value, \<^verbatim>\<open>errno\<close> when it is negative, the bytes used, the message.\<close>

definition message_append :: "(nat \<Rightarrow> bool) \<Rightarrow> string \<Rightarrow> HttpMessage \<Rightarrow> int \<times> http_errno option \<times> nat \<times> HttpMessage" where
  "message_append mem buf m =
     (let (ret, n, p) = http_parser_append_message mem buf (parser m); m = m\<lparr>parser := p\<rparr> in
      if ret \<ge> 0 then
        (let m = m\<lparr>cur_size := (cur_size m + n) mod 2 ^ 64\<rparr> in
         if cur_size m > size_limit m then (-1, Some EMSGSIZE, n, m) else (ret, None, n, m))
      else if ret = -2 then (-1, Some EBADMSG, n, m)
      else (ret, Some ENOMEM, n, m))"

definition HTTP_100_RESP :: string where
  "HTTP_100_RESP = ''HTTP/1.1 100 Continue'' @ [CR, LF, CR, LF]"

definition HTTP_400_RESP :: string where
  "HTTP_400_RESP = ''HTTP/1.1 400 Bad Request'' @ [CR, LF] @ ''Content-Length: 0'' @ [CR, LF] @ ''Connection: close'' @ [CR, LF, CR, LF]"

definition HTTP_413_RESP :: string where
  "HTTP_413_RESP = ''HTTP/1.1 413 Request Entity Too Large'' @ [CR, LF] @ ''Content-Length: 0'' @ [CR, LF] @ ''Connection: close'' @ [CR, LF, CR, LF]"

definition HTTP_417_RESP :: string where
  "HTTP_417_RESP = ''HTTP/1.1 417 Expectation Failed'' @ [CR, LF] @ ''Content-Length: 0'' @ [CR, LF] @ ''Connection: close'' @ [CR, LF, CR, LF]"

definition handle_expect_continue :: "(string \<Rightarrow> int) \<Rightarrow> HttpMessage \<Rightarrow> int \<times> http_errno option \<times> string list" where
  "handle_expect_continue feedback m =
     (let trans_len = transfer_length (parser m) in
      if trans_len \<noteq> SIZE_NONE \<and> (header_offset (parser m) + trans_len) mod 2 ^ 64 > size_limit m
      then (-1, Some EMSGSIZE, [HTTP_417_RESP])
      else if feedback HTTP_100_RESP \<noteq> int (length HTTP_100_RESP)
      then (-1, if feedback HTTP_100_RESP \<ge> 0 then Some EAGAIN else None, [HTTP_100_RESP])
      else (0, None, [HTTP_100_RESP]))"

definition request_append :: "(nat \<Rightarrow> bool) \<Rightarrow> (string \<Rightarrow> int) \<Rightarrow> string \<Rightarrow> HttpMessage \<Rightarrow>
    int \<times> http_errno option \<times> nat \<times> string list \<times> HttpMessage" where
  "request_append mem feedback buf m =
     (let (ret, err, n, m) = message_append mem buf m in
      if ret = 0 then
        (if expect_continue (parser m) \<and> hstate (parser m) = HPS_HEADER_COMPLETE then
           (let m = m\<lparr>parser := (parser m)\<lparr>expect_continue := False\<rparr>\<rparr>; (ret, err, sent) = handle_expect_continue feedback m
            in (ret, err, n, sent, m))
         else (0, None, n, [], m))
      else if ret < 0 then
        (ret, err, n, if err = Some EBADMSG then [HTTP_400_RESP] else if err = Some EMSGSIZE then [HTTP_413_RESP] else [], m)
      else (ret, None, n, [], m))"

text \<open>\<^verbatim>\<open>*http_parser_get_code(parser)\<close>: \<open>None\<close> is a null pointer.\<close>

definition response_append :: "(nat \<Rightarrow> bool) \<Rightarrow> string \<Rightarrow> HttpMessage \<Rightarrow> (int \<times> http_errno option \<times> nat \<times> HttpMessage) option" where
  "response_append mem buf m =
     (let (ret, err, n, m) = message_append mem buf m in
      if ret > 0 then
        (case code_of (parser m) of
           None \<Rightarrow> None
         | Some code \<Rightarrow>
             (if cstr_at code 0 = CHR ''1''
              then Some (0, None, n, m\<lparr>parser := http_parser_init True (parser m)\<rparr>)
              else Some (ret, err, n, m)))
      else Some (ret, err, n, m))"

subsection \<open>Moving\<close>

text \<open>\<open>fresh\<close> is the uninitialised memory of the new parser. The result is the new message and what is left.\<close>

definition message_move :: "http_parser \<Rightarrow> HttpMessage \<Rightarrow> HttpMessage \<times> HttpMessage" where
  "message_move fresh msg =
     (msg, msg\<lparr>size_limit := SIZE_NONE, parser := http_parser_init (is_resp (parser msg)) fresh,
               output_body := [], output_body_size := 0, cur_size := 0\<rparr>)"

definition message_assign :: "http_parser \<Rightarrow> HttpMessage \<Rightarrow> HttpMessage \<Rightarrow> HttpMessage \<times> HttpMessage" where
  "message_assign fresh this msg =
     (clear_output_body this\<lparr>size_limit := size_limit msg, parser := parser msg, output_body := output_body msg,
        output_body_size := output_body_size msg, cur_size := cur_size msg\<rparr>,
      msg\<lparr>size_limit := SIZE_NONE, parser := http_parser_init (is_resp (parser msg)) fresh,
          output_body := [], output_body_size := 0, cur_size := 0\<rparr>)"

definition parse_zero_body :: "HttpMessage \<Rightarrow> HttpMessage" where
  "parse_zero_body m = m\<lparr>parser := (parser m)\<lparr>transfer_length := 0\<rparr>\<rparr>"

subsection \<open>What encoding sends\<close>

definition body_ok :: "HttpMessage \<Rightarrow> bool" where
  "body_ok m \<longleftrightarrow> output_body_size m = sum_list (map blk_size (output_body m)) \<and>
     list_all (\<lambda>b. blk_size b \<le> length (blk_ptr b)) (output_body m)"

definition body_text :: "HttpMessage \<Rightarrow> string" where
  "body_text m = concat (map blk_bytes (output_body m))"

definition head_text :: "string \<times> string \<times> string \<Rightarrow> string" where
  "head_text st = (case st of (a, b, c) \<Rightarrow> a @ '' '' @ b @ '' '' @ c @ [CR, LF])"

lemma blk_bytes_length: "list_all (\<lambda>b. blk_size b \<le> length (blk_ptr b)) bs \<Longrightarrow> length (concat (map blk_bytes bs)) = sum_list (map blk_size bs)"
  by (induction bs) (auto simp: blk_bytes_def)

lemma encode_body_ok:
  assumes "list_all (\<lambda>b. blk_size b \<le> length (blk_ptr b)) bs" and "sz = sum_list (map blk_size bs)" and "length vs < mx"
  shows "\<exists>x bs'. encode_body mem mx sz vs seen bs = Some (x, seen @ bs') \<and>
    list_all (\<lambda>b. blk_size b \<le> length (blk_ptr b)) bs' \<and> sum_list (map blk_size bs') = sz \<and>
    concat (map blk_bytes bs') = concat (map blk_bytes bs) \<and>
    (case x of Inl e \<Rightarrow> e = ENOMEM \<and> bs' = bs \<and> (\<exists>n. \<not> mem n)
     | Inr vs' \<Rightarrow> concat vs' = concat vs @ concat (map blk_bytes bs) \<and> length vs' \<le> mx)"
  using assms
proof (induction bs arbitrary: sz vs seen)
  case (Cons b bs)
  show ?case
  proof (cases "length vs + 1 = mx \<and> bs \<noteq> []")
    case True
    have "length (concat (map blk_bytes (b # bs))) = sz" using blk_bytes_length [OF Cons.prems(1)] Cons.prems(2) by simp
    then show ?thesis using True Cons.prems
      by (auto simp: combine_from_def blk_bytes_def [of "\<lparr>blk_ptr = _, blk_size = _\<rparr>"])
  next
    case False
    then have "length (vs @ [blk_bytes b]) < mx \<or> bs = []" using Cons.prems(3) by auto
    then show ?thesis
    proof
      assume "bs = []"
      then show ?thesis using Cons.prems by simp
    next
      assume "length (vs @ [blk_bytes b]) < mx"
      with Cons.IH [of "sz - blk_size b" "vs @ [blk_bytes b]" "seen @ [b]"] obtain x bs' where
        x: "encode_body mem mx (sz - blk_size b) (vs @ [blk_bytes b]) (seen @ [b]) bs = Some (x, (seen @ [b]) @ bs')"
          "list_all (\<lambda>b. blk_size b \<le> length (blk_ptr b)) bs'" "sum_list (map blk_size bs') = sz - blk_size b"
          "concat (map blk_bytes bs') = concat (map blk_bytes bs)"
          "case x of Inl e \<Rightarrow> e = ENOMEM \<and> bs' = bs \<and> (\<exists>n. \<not> mem n)
           | Inr vs' \<Rightarrow> concat vs' = concat (vs @ [blk_bytes b]) @ concat (map blk_bytes bs) \<and> length vs' \<le> mx"
        using Cons.prems by auto
      then show ?thesis using False Cons.prems by (intro exI [of _ x] exI [of _ "b # bs'"]) (auto split: sum.split)
    qed
  qed
qed simp

lemma encode_lines_eq: "length vs \<le> mx \<Longrightarrow> encode_lines mx vs ls = vs @ map line_text (take (mx - length vs) ls)"
  by (induction mx vs ls rule: encode_lines.induct) (auto simp: take_Cons' Suc_diff_le)

lemma encode_head_text: "length (encode_head st) = 6" "concat (encode_head st) = head_text st"
  by (auto simp: encode_head_def head_text_def split: prod.split)

lemma encode_room:
  assumes "body_ok m" and st: "start_parts (parser m) = Some st" and room: "length (header_list (parser m)) + 8 \<le> mx"
  shows "\<exists>x m'. encode mem mx m = Some (x, m') \<and> body_ok m' \<and> body_text m' = body_text m \<and> parser m' = parser m \<and>
    (case x of Inl e \<Rightarrow> m' = m \<and> e = ENOMEM \<and> (\<exists>n. \<not> mem n)
     | Inr vs \<Rightarrow> length vs \<le> mx \<and> concat vs = head_text st @ concat (map line_text (header_list (parser m))) @ [CR, LF] @ body_text m)"
proof -
  let ?ls = "header_list (parser m)" and ?h = "encode_head st"
  note h = encode_head_text [of st]
  have full: "encode_lines mx ?h ?ls = ?h @ map line_text ?ls" using encode_lines_eq [of ?h mx ?ls] h room by simp
  with encode_body_ok [of "output_body m" "output_body_size m" "?h @ map line_text ?ls @ [[CR, LF]]" mx mem "[]"] assms(1) h room
  obtain x bs' where x: "encode_body mem mx (output_body_size m) (?h @ map line_text ?ls @ [[CR, LF]]) [] (output_body m) = Some (x, bs')"
    "list_all (\<lambda>b. blk_size b \<le> length (blk_ptr b)) bs'" "sum_list (map blk_size bs') = output_body_size m"
    "concat (map blk_bytes bs') = concat (map blk_bytes (output_body m))"
    "case x of Inl e \<Rightarrow> e = ENOMEM \<and> bs' = output_body m \<and> (\<exists>n. \<not> mem n)
     | Inr vs' \<Rightarrow> concat vs' = concat (?h @ map line_text ?ls @ [[CR, LF]]) @ concat (map blk_bytes (output_body m)) \<and> length vs' \<le> mx"
    by (auto simp: body_ok_def)
  have "encode mem mx m = Some (x, m\<lparr>output_body := bs'\<rparr>)" using st room h full x(1) by (auto simp: encode_def Let_def)
  then show ?thesis using x h by (auto simp: body_ok_def body_text_def split: sum.split)
qed

text \<open>C14: \<^verbatim>\<open>encode\<close> never writes beyond a block or beyond the array: it reports a message without a start line, an
  array too short for the header, or a failed allocation, leaving the body as it is; or it fills at most
  \<open>mx\<close> vectors, whose bytes are the start line, the header lines and the body, in order.\<close>

theorem encode_sends:
  assumes "body_ok m" and "6 \<le> mx"
  shows "\<exists>x m'. encode mem mx m = Some (x, m') \<and> body_ok m' \<and> body_text m' = body_text m \<and> parser m' = parser m \<and>
    (case x of
       Inl e \<Rightarrow> m' = m \<and> (e = (case start_parts (parser m) of None \<Rightarrow> EBADMSG
           | Some _ \<Rightarrow> if mx < length (header_list (parser m)) + 8 then EOVERFLOW else ENOMEM)) \<and> (e = ENOMEM \<longrightarrow> (\<exists>n. \<not> mem n))
     | Inr vs \<Rightarrow> (\<exists>st. start_parts (parser m) = Some st \<and> length vs \<le> mx \<and>
         concat vs = head_text st @ concat (map line_text (header_list (parser m))) @ [CR, LF] @ body_text m))"
proof (cases "start_parts (parser m)")
  case None
  then show ?thesis using assms(1) by (simp add: encode_def)
next
  case (Some st)
  let ?ls = "header_list (parser m)" and ?h = "encode_head st"
  note h = encode_head_text [of st]
  have vs: "encode_lines mx ?h ?ls = ?h @ map line_text (take (mx - 6) ?ls)" using encode_lines_eq [of ?h mx ?ls] h assms(2) by simp
  show ?thesis
  proof (cases "mx < length ?ls + 8")
    case True
    then show ?thesis using Some vs h assms by (auto simp: encode_def Let_def)
  next
    case False
    with encode_room [OF assms(1) Some, of mx mem] obtain x m' where
      "encode mem mx m = Some (x, m')" "body_ok m'" "body_text m' = body_text m" "parser m' = parser m"
      "case x of Inl e \<Rightarrow> m' = m \<and> e = ENOMEM \<and> (\<exists>n. \<not> mem n)
       | Inr vs \<Rightarrow> length vs \<le> mx \<and> concat vs = head_text st @ concat (map line_text ?ls) @ [CR, LF] @ body_text m" by auto
    then show ?thesis using Some False by (intro exI [of _ x] exI [of _ m']) (auto split: sum.splits)
  qed
qed

subsection \<open>Parsing what was sent\<close>

abbreviation alloc :: "nat \<Rightarrow> bool" where "alloc \<equiv> (\<lambda>_. True)"

definition field_line :: "string \<times> string \<Rightarrow> string" where
  "field_line nv = fst nv @ '': '' @ snd nv @ [CR, LF]"

definition field_ok :: "string \<times> string \<Rightarrow> bool" where
  "field_ok nv \<longleftrightarrow> (case nv of (n, v) \<Rightarrow>
     length n < HTTP_HEADER_NAME_MAX \<and> CHR '':'' \<notin> set n \<and> NUL \<notin> set n \<and> CR \<notin> set n \<and>
     length v < HTTP_HEADER_VALUE_MAX \<and> CR \<notin> set v \<and> NUL \<notin> set v \<and> (v \<noteq> [] \<longrightarrow> \<not> blank (hd v) \<and> \<not> blank (last v)))"

text \<open>The length that the header fields declare.\<close>

fun declared :: "(string \<times> string) list \<Rightarrow> nat \<Rightarrow> nat" where
  "declared [] k = k"
| "declared ((n, v) # fs) k =
     declared fs (if length n = 14 \<and> strcaseeq n ''Content-Length'' \<and> isdigit (cstr_at v 0) then atoi_size v else k)"

definition names_chunked :: "string \<times> string \<Rightarrow> bool" where
  "names_chunked nv \<longleftrightarrow> length (fst nv) = 17 \<and> strcaseeq (fst nv) ''Transfer-Encoding'' \<and>
     (length (snd nv) \<noteq> 8 \<or> \<not> strcaseeq (snd nv) ''identity'')"

abbreviation mk_line :: "string \<times> string \<Rightarrow> header_line" where
  "mk_line nv \<equiv> \<lparr>name_len = length (fst nv), value_len = length (snd nv), line_buf = field_line nv\<rparr>"

text \<open>The part of the parser that the header fields leave alone.\<close>

definition head_of :: "http_parser \<Rightarrow> string option \<times> string option \<times> string option \<times> string option \<times> string option \<times> nat \<times> bool \<times> bool" where
  "head_of p = (method_of p, uri_of p, version p, code_of p, phrase_of p, transfer_length p, complete p, is_resp p)"

lemma head_of_upd [simp]:
  "head_of (p\<lparr>expect_continue := x\<rparr>) = head_of p" "head_of (p\<lparr>keep_alive := x\<rparr>) = head_of p" "head_of (p\<lparr>chunked := x\<rparr>) = head_of p"
  "head_of (p\<lparr>content_length := k\<rparr>) = head_of p" "head_of (p\<lparr>header_list := ls\<rparr>) = head_of p" "head_of (p\<lparr>header_offset := k\<rparr>) = head_of p"
  "head_of (p\<lparr>hstate := h\<rparr>) = head_of p" "head_of (p\<lparr>namebuf := nb\<rparr>) = head_of p" "head_of (p\<lparr>msgbuf := nb\<rparr>) = head_of p"
  "head_of (p\<lparr>bufsize := k\<rparr>) = head_of p"
  by (simp_all add: head_of_def)

lemma sel_if:
  "head_of (if c then p else q) = (if c then head_of p else head_of q)"
  "header_list (if c then p else q) = (if c then header_list p else header_list q)"
  "content_length (if c then p else q) = (if c then content_length p else content_length q)"
  "chunked (if c then p else q) = (if c then chunked p else chunked q)"
  by simp_all

lemma match_header_effect:
  "fst (match_message_header alloc n v p) = 0"
  "head_of (snd (match_message_header alloc n v p)) = head_of p"
  "header_list (snd (match_message_header alloc n v p)) = header_list p @ [mk_line (n, v)]"
  "content_length (snd (match_message_header alloc n v p)) = declared [(n, v)] (content_length p)"
  "chunked (snd (match_message_header alloc n v p)) = (chunked p \<or> names_chunked (n, v))"
  unfolding match_message_header_def Let_def http_parser_add_header_def
  by (simp_all add: sel_if field_line_def names_chunked_def split del: if_split cong: if_cong) auto

lemma name_scan_found:
  "CHR '':'' \<notin> set n \<Longrightarrow> NUL \<notin> set n \<Longrightarrow> i + length n < HTTP_HEADER_NAME_MAX \<Longrightarrow>
   \<exists>nb'. name_scan i (n @ CHR '':'' # r) nb = (Line (i + length n), nb')"
proof (induction n arbitrary: i nb)
  case (Cons c n)
  then show ?case using Cons.IH [of "Suc i" "nb[i := c]"] by auto
qed simp

lemma copy_value_found:
  "CR \<notin> set v \<Longrightarrow> NUL \<notin> set v \<Longrightarrow> length acc + length v < HTTP_HEADER_VALUE_MAX \<Longrightarrow> cs \<noteq> [] \<Longrightarrow>
   copy_value (v @ CR # cs) acc = VFound (acc @ v) cs"
  by (induction v arbitrary: acc) auto

lemma trim_right_id: "(v \<noteq> [] \<Longrightarrow> \<not> blank (last v)) \<Longrightarrow> trim_right v = v"
  by (subst trim_right.simps) auto

lemma value_loop_found:
  assumes "field_ok (n, v)" and "rest \<noteq> []"
  shows "value_loop (CHR '' '' # v @ CR # LF # rest) [] = VFound v rest"
proof -
  have "dropWhile blank (CHR '' '' # v @ CR # LF # rest) = v @ CR # LF # rest"
    using assms(1) by (cases v) (auto simp: blank_def field_ok_def)
  then show ?thesis using assms by (simp add: value_loop_once Let_def copy_value_found trim_right_id field_ok_def)
qed

lemma scan_line_found:
  "CR \<notin> set l \<Longrightarrow> NUL \<notin> set l \<Longrightarrow> i + length l < mx \<Longrightarrow> scan_line nul mx i (l @ CR # LF # rest) = Line (i + length l)"
  by (induction l arbitrary: i) auto

lemma header_name_found:
  assumes f: "field_ok (n, v)" and p: "length (namebuf p) = HTTP_HEADER_NAME_MAX"
  shows "\<exists>nb. length nb = HTTP_HEADER_NAME_MAX \<and> takeWhile (\<lambda>c. c \<noteq> NUL) nb = n \<and>
    parse_header_name (n @ CHR '':'' # r) p =
      (1, p\<lparr>namebuf := nb, header_offset := header_offset p + length n + 1, hstate := HPS_HEADER_VALUE\<rparr>)"
proof -
  from f obtain nb where nb: "name_scan 0 (n @ CHR '':'' # r) (namebuf p) = (Line (length n), nb)"
    using name_scan_found [of n 0 r "namebuf p"] by (auto simp: field_ok_def)
  have "(n @ CHR '':'' # r) ! 0 \<noteq> CR" using f by (cases n) (auto simp: field_ok_def)
  then have ne: "\<not> (2 \<le> length (n @ CHR '':'' # r) \<and> (n @ CHR '':'' # r) ! 0 = CR \<and> (n @ CHR '':'' # r) ! 1 = LF)" by blast
  have "takeWhile (\<lambda>c. c \<noteq> NUL) nb = n" using name_scan_cstr [OF nb p] by simp
  moreover have "length nb = HTTP_HEADER_NAME_MAX" using name_scan_length [OF nb] p by simp
  ultimately show ?thesis unfolding parse_header_name_def if_not_P [OF ne] using nb by auto
qed

lemma header_value_found:
  assumes f: "field_ok (n, v)" and nm: "takeWhile (\<lambda>c. c \<noteq> NUL) (namebuf p) = n" and "rest \<noteq> []"
  shows "parse_header_value alloc (CHR '' '' # v @ CR # LF # rest) p =
    (1, (snd (match_message_header alloc n v p))\<lparr>header_offset := header_offset p + length v + 3, hstate := HPS_HEADER_NAME\<rparr>)"
proof -
  obtain q where q: "match_message_header alloc n v p = (0, q)" using match_header_effect(1) [of n v p] by (metis prod.collapse)
  then show ?thesis using value_loop_found [OF f assms(3)] nm match_offsets(3) [OF q]
    by (simp add: parse_header_value_def)
qed

lemma parse_header_once:
  assumes "drop (header_offset p) msg = ptr" and "header_step mem p ptr = (1, q)" and "hstate q \<noteq> HPS_HEADER_COMPLETE"
  shows "parse_message_header mem msg p = parse_message_header mem msg q"
  using assms by (subst parse_message_header.simps) simp

lemma parse_field:
  assumes f: "field_ok (n, v)" and p: "hstate p = HPS_HEADER_NAME" "length (namebuf p) = HTTP_HEADER_NAME_MAX" "header_offset p = length pre"
    and msg: "msg = pre @ field_line (n, v) @ rest" and "rest \<noteq> []"
  obtains q where "parse_message_header alloc msg p = parse_message_header alloc msg q"
    "hstate q = HPS_HEADER_NAME" "length (namebuf q) = HTTP_HEADER_NAME_MAX" "header_offset q = length (pre @ field_line (n, v))"
    "head_of q = head_of p" "header_list q = header_list p @ [mk_line (n, v)]"
    "content_length q = declared [(n, v)] (content_length p)" "chunked q = (chunked p \<or> names_chunked (n, v))"
proof -
  have ptr: "drop (header_offset p) msg = n @ CHR '':'' # CHR '' '' # v @ CR # LF # rest" using msg p(3) by (simp add: field_line_def)
  from header_name_found [OF f p(2), of "CHR '' '' # v @ CR # LF # rest"] obtain nb where
    nb: "length nb = HTTP_HEADER_NAME_MAX" "takeWhile (\<lambda>c. c \<noteq> NUL) nb = n" and
    st: "parse_header_name (n @ CHR '':'' # CHR '' '' # v @ CR # LF # rest) p =
      (1, p\<lparr>namebuf := nb, header_offset := header_offset p + length n + 1, hstate := HPS_HEADER_VALUE\<rparr>)" by blast
  define p1 where "p1 = p\<lparr>namebuf := nb, header_offset := header_offset p + length n + 1, hstate := HPS_HEADER_VALUE\<rparr>"
  have r1: "parse_message_header alloc msg p = parse_message_header alloc msg p1"
    by (rule parse_header_once [OF ptr]) (use st p(1) in \<open>simp_all add: header_step_def p1_def\<close>)
  define q where "q = (snd (match_message_header alloc n v p1))\<lparr>header_offset := header_offset p1 + length v + 3, hstate := HPS_HEADER_NAME\<rparr>"
  have ptr1: "drop (header_offset p1) msg = CHR '' '' # v @ CR # LF # rest" using msg p(3) by (simp add: p1_def field_line_def)
  have "parse_header_value alloc (CHR '' '' # v @ CR # LF # rest) p1 = (1, q)"
    using header_value_found [OF f _ assms(6), of p1] nb(2) by (simp add: p1_def q_def)
  then have r2: "parse_message_header alloc msg p1 = parse_message_header alloc msg q"
    by (intro parse_header_once [OF ptr1]) (simp_all add: header_step_def p1_def q_def)
  have "namebuf (snd (match_message_header alloc n v p1)) = namebuf p1"
    using arg_cong [OF match_buffers(3) [OF prod.collapse [symmetric]], of namebuf] by simp
  then have "namebuf q = nb" by (simp add: q_def p1_def)
  then show thesis using that [of q] r1 r2 nb(1) p(3) match_header_effect [of n v p1] by (simp add: q_def p1_def field_line_def)
qed

lemma parse_fields:
  assumes "list_all field_ok fs" and "hstate p = HPS_HEADER_NAME" "length (namebuf p) = HTTP_HEADER_NAME_MAX" "header_offset p = length pre"
  shows "\<exists>q. parse_message_header alloc (pre @ concat (map field_line fs) @ [CR, LF] @ body) p = (1, q) \<and>
    hstate q = HPS_HEADER_COMPLETE \<and> header_offset q = length (pre @ concat (map field_line fs) @ [CR, LF]) \<and>
    head_of q = head_of p \<and> header_list q = header_list p @ map mk_line fs \<and>
    content_length q = declared fs (content_length p) \<and> (chunked q \<longleftrightarrow> chunked p \<or> list_ex names_chunked fs)"
  using assms
proof (induction fs arbitrary: pre p)
  case Nil
  have "parse_header_name ([CR, LF] @ body) p = (1, p\<lparr>header_offset := header_offset p + 2, hstate := HPS_HEADER_COMPLETE\<rparr>)"
    by (simp add: parse_header_name_def)
  then show ?case using Nil by (subst parse_message_header.simps) (simp add: header_step_def)
next
  case (Cons f fs)
  obtain n v where f: "f = (n, v)" by fastforce
  let ?rest = "concat (map field_line fs) @ [CR, LF] @ body"
  have fok: "field_ok (n, v)" using Cons.prems(1) f by simp
  from parse_field [OF fok Cons.prems(2-4) refl, of ?rest] obtain q where q:
    "parse_message_header alloc (pre @ field_line (n, v) @ ?rest) p = parse_message_header alloc (pre @ field_line (n, v) @ ?rest) q"
    "hstate q = HPS_HEADER_NAME" "length (namebuf q) = HTTP_HEADER_NAME_MAX" "header_offset q = length (pre @ field_line (n, v))"
    "head_of q = head_of p" "header_list q = header_list p @ [mk_line (n, v)]"
    "content_length q = declared [(n, v)] (content_length p)" "chunked q = (chunked p \<or> names_chunked (n, v))" by auto
  from Cons.IH [OF _ q(2-4)] Cons.prems(1) show ?case using q(1,5-8) f by (auto simp: ac_simps)
qed

definition part_ok :: "string \<Rightarrow> bool" where
  "part_ok s \<longleftrightarrow> CHR '' '' \<notin> set s \<and> CR \<notin> set s \<and> NUL \<notin> set s"

definition start_ok :: "string \<times> string \<times> string \<Rightarrow> bool" where
  "start_ok st \<longleftrightarrow> (case st of (a, b, c) \<Rightarrow> part_ok a \<and> part_ok b \<and> CR \<notin> set c \<and> NUL \<notin> set c \<and>
     length a + length b + length c + 2 < HTTP_START_LINE_MAX)"

text \<open>Responses that have no body whatever they declare.\<close>

definition bodyless :: "string \<Rightarrow> bool" where
  "bodyless code \<longleftrightarrow> cstr_at code 0 = CHR ''1'' \<or> code = ''204'' \<or> code = ''304''"

lemma parse_start:
  assumes st: "start_ok (a, b, c)" and nb: "is_resp p \<longrightarrow> \<not> bodyless b"
  shows "\<exists>q. parse_start_line alloc (head_text (a, b, c) @ rest) p = (1, q) \<and> hstate q = HPS_HEADER_NAME \<and>
    header_offset q = header_offset p + length (head_text (a, b, c)) \<and> namebuf q = namebuf p \<and>
    header_list q = header_list p \<and> content_length q = content_length p \<and> chunked q = chunked p \<and>
    head_of q = (if is_resp p then (method_of p, uri_of p, Some a, Some b, Some c, transfer_length p, complete p, is_resp p)
       else (Some a, Some b, Some c, code_of p, phrase_of p, transfer_length p, complete p, is_resp p))"
proof -
  let ?l = "a @ '' '' @ b @ '' '' @ c"
  have ht: "head_text (a, b, c) @ rest = ?l @ CR # LF # rest" by (simp add: head_text_def)
  have ok: "CR \<notin> set ?l" "NUL \<notin> set ?l" "length ?l < HTTP_START_LINE_MAX" using st by (auto simp: start_ok_def part_ok_def)
  have sl: "scan_line True HTTP_START_LINE_MAX 0 (?l @ CR # LF # rest) = Line (length ?l)"
    using scan_line_found [OF ok(1,2), of 0 HTTP_START_LINE_MAX] ok(3) by (simp del: length_append)
  have "(?l @ CR # LF # rest) ! 0 \<noteq> CR" using ok(1) by (cases a) auto
  then have ne: "\<not> (2 \<le> length (?l @ CR # LF # rest) \<and> (?l @ CR # LF # rest) ! 0 = CR \<and> (?l @ CR # LF # rest) ! 1 = LF)" by blast
  have tw: "takeWhile (\<lambda>c. c \<noteq> CHR '' '') (x @ CHR '' '' # y) = x" if "part_ok x" for x y
    using that by (simp add: part_ok_def takeWhile_append)
  have pa: "part_ok a" "part_ok b" using st by (auto simp: start_ok_def)
  show ?thesis unfolding ht parse_start_line_def if_not_P [OF ne] sl
    using nb tw [OF pa(1)] tw [OF pa(2)]
    by (auto simp: match_request_line_def match_status_line_def strdup_ok_def head_of_def head_text_def bodyless_def Let_def)
qed

lemma line_text_field: "line_ok l \<Longrightarrow> line_text l = field_line (line_name l, line_value l)"
  by (simp add: line_ok_def field_line_def)

lemma pairs_mk_line: "pairs (map mk_line fs) = fs"
  using line_of [of "mk_line f" "fst f" "snd f" "[]" for f] by (induction fs) (auto simp: field_line_def)

lemma append_alloc:
  assumes "hstate p = HPS_START_LINE" "msgbuf p = []" "header_offset p = 0" "\<not> complete p" "\<not> chunked p" "header_list p = []"
    and nb: "length (namebuf p) = HTTP_HEADER_NAME_MAX" and st: "start_ok (a, b, c)" and bl: "is_resp p \<longrightarrow> \<not> bodyless b"
    and tl: "transfer_length p = SIZE_NONE"
    and fs: "list_all field_ok fs" "\<not> list_ex names_chunked fs" "declared fs (content_length p) = length body"
    and msg: "msg = head_text (a, b, c) @ concat (map field_line fs) @ [CR, LF] @ body" and len: "length msg < SIZE_NONE"
  shows "\<exists>q. http_parser_append_message alloc msg p = (1, length msg, q) \<and> hstate q = HPS_HEADER_COMPLETE \<and> complete q \<and>
    header_offset q = length msg - length body \<and> msgbuf q = msg \<and> header_list q = map mk_line fs \<and>
    (method_of q, uri_of q, version q, code_of q, phrase_of q) =
      (if is_resp p then (method_of p, uri_of p, Some a, Some b, Some c) else (Some a, Some b, Some c, code_of p, phrase_of p))"
proof -
  define p0 where "p0 = p\<lparr>bufsize := buf_after msg p, msgbuf := msg\<rparr>"
  have e: "http_parser_append_message alloc msg p = append_parse alloc (length msg) p0"
    using append_message_eq [of alloc p msg] assms(2,4) by (simp add: buffers_ok_def p0_def)
  obtain p1 where p1: "parse_start_line alloc msg p0 = (1, p1)" "hstate p1 = HPS_HEADER_NAME"
    "header_offset p1 = length (head_text (a, b, c))" "namebuf p1 = namebuf p" "header_list p1 = []"
    "content_length p1 = content_length p" "\<not> chunked p1"
    "head_of p1 = (if is_resp p then (method_of p, uri_of p, Some a, Some b, Some c, transfer_length p, complete p, is_resp p)
       else (Some a, Some b, Some c, code_of p, phrase_of p, transfer_length p, complete p, is_resp p))"
    using parse_start [OF st, of p0 "concat (map field_line fs) @ [CR, LF] @ body"] bl assms(3,5,6) msg by (auto simp: p0_def)
  have r1: "parse_message_header alloc msg p0 = parse_message_header alloc msg p1"
    by (rule parse_header_once) (use p1 assms(1,3) in \<open>simp_all add: header_step_def p0_def\<close>)
  from parse_fields [OF fs(1) p1(2) _ p1(3), of body] p1(4) nb obtain q where
    q: "parse_message_header alloc msg p0 = (1, q)" "hstate q = HPS_HEADER_COMPLETE" "header_offset q = length msg - length body"
      "head_of q = head_of p1" "header_list q = map mk_line fs" "content_length q = length body" "\<not> chunked q"
    using p1(5-7) fs(2,3) r1 msg by (auto simp: add.assoc)
  have tq: "transfer_length q = SIZE_NONE" using q(4) p1(8) tl by (simp add: head_of_def split: if_splits)
  have mq: "msgbuf q = msg" using parse_msgbuf(2) [OF q(1)] by (simp add: p0_def)
  have lb: "length body \<le> length msg" using msg by simp
  then have "append_body (length msg) (header_done q) =
      (1, length msg, (header_done q)\<lparr>msgbuf := msg, complete := True\<rparr>)"
    using q(3,6,7) tq mq len by (simp add: append_body_def header_done_def sub_size_def Let_def)
  then have "http_parser_append_message alloc msg p = (1, length msg, (header_done q)\<lparr>msgbuf := msg, complete := True\<rparr>)"
    using e q(1) assms(1) by (simp add: append_parse_def p0_def)
  then show ?thesis using q(2-5,7) p1(8) by (simp add: header_done_def head_of_def split: if_splits)
qed

text \<open>C5: Parsing the bytes that \<^verbatim>\<open>encode\<close> sends gives the message back: a fresh parser of the same kind accepts them
  all, with the same start line, the same header fields in order and the same body, when the parts fit the
  limits of the parser and the header declares the length of the body.\<close>

theorem encode_parse:
  assumes m: "body_ok m" "6 \<le> mx" "encode mem mx m = Some (Inr vs, m')" and st: "start_parts (parser m) = Some st" "start_ok st"
    and ls: "lines_ok (parser m)" "list_all field_ok (header_fields (parser m))" "\<not> list_ex names_chunked (header_fields (parser m))"
    and resp: "resp = (method_of (parser m) = None)" "resp \<longrightarrow> \<not> bodyless (fst (snd st))"
    and len: "declared (header_fields (parser m)) (if resp then SIZE_NONE else 0) = length (body_text m)" "length (concat vs) < SIZE_NONE"
    and p: "length (namebuf p) = HTTP_HEADER_NAME_MAX"
  shows "\<exists>q. http_parser_append_message alloc (concat vs) (http_parser_init resp p) = (1, length (concat vs), q) \<and>
    (method_of q = None) = resp \<and> start_parts q = Some st \<and> header_fields q = header_fields (parser m) \<and>
    http_parser_get_body q = Some (header_offset q, length (body_text m), length (concat vs)) \<and>
    drop (header_offset q) (msgbuf q) = body_text m"
proof -
  obtain a b c where abc: "st = (a, b, c)" by (metis prod_cases3)
  let ?fs = "header_fields (parser m)" and ?p = "http_parser_init resp p"
  have "map line_text (header_list (parser m)) = map field_line ?fs"
    using ls(1) by (auto simp: header_fields_def lines_ok_def list_all_iff line_text_field)
  moreover have room: "length (header_list (parser m)) + 8 \<le> mx"
    using m st(1) encode_lines_eq [of "encode_head st" mx] encode_head_text [of st] by (auto simp: encode_def Let_def split: if_splits)
  ultimately have vs: "concat vs = head_text (a, b, c) @ concat (map field_line ?fs) @ [CR, LF] @ body_text m"
    using encode_room [OF m(1) st(1) room, of mem] m(3) abc by auto
  have bl: "is_resp ?p \<longrightarrow> \<not> bodyless b" using resp(2) abc by (simp add: http_parser_init_def)
  have cl: "declared ?fs (content_length ?p) = length (body_text m)" using len(1) by (simp add: http_parser_init_def)
  from append_alloc [OF _ _ _ _ _ _ _ st(2) [unfolded abc] bl _ ls(2,3) cl vs len(2)] obtain q where
    q: "http_parser_append_message alloc (concat vs) ?p = (1, length (concat vs), q)" "hstate q = HPS_HEADER_COMPLETE" "complete q"
      "header_offset q = length (concat vs) - length (body_text m)" "msgbuf q = concat vs" "header_list q = map mk_line ?fs"
      "(method_of q, uri_of q, version q, code_of q, phrase_of q) =
        (if resp then (None, None, Some a, Some b, Some c) else (Some a, Some b, Some c, None, None))"
    using p by (auto simp: http_parser_init_def)
  have "header_fields q = ?fs" using q(6) pairs_mk_line [of ?fs] by (simp add: header_fields_def)
  moreover have "(method_of q = None) = resp" "start_parts q = Some st" using q(7) abc by (auto simp: start_parts_def split: if_splits)
  moreover have "drop (header_offset q) (msgbuf q) = body_text m" using q(4,5) vs by simp
  moreover have "length (body_text m) \<le> length (concat vs)" using vs by simp
  ultimately show ?thesis using q(1-5) len(2) by (auto simp: http_parser_get_body_def)
qed

definition demo_message :: HttpMessage where
  "demo_message = \<lparr>parser = snd (http_parser_set_header alloc ''Content-Length'' ''4'' (blank_parser\<lparr>method_of := Some ''PUT'',
     uri_of := Some ''/a'', version := Some ''HTTP/1.1''\<rparr>)), cur_size = 0, size_limit = SIZE_NONE,
     output_body = [\<lparr>blk_ptr = ''ab'', blk_size = 2\<rparr>, \<lparr>blk_ptr = ''cd'', blk_size = 2\<rparr>], output_body_size = 4\<rparr>"

text \<open>With room for nine vectors the two blocks are joined.\<close>

definition demo_vectors :: "string list" where
  "demo_vectors = [''PUT'', '' '', ''/a'', '' '', ''HTTP/1.1'', [CR, LF], ''Content-Length: 4'' @ [CR, LF], [CR, LF], ''abcd'']"

lemma demo_encode: "map_option fst (encode alloc 9 demo_message) = Some (Inr demo_vectors)"
  by code_simp

theorem encode_sends_witness:
  "\<exists>m'. encode alloc 9 demo_message = Some (Inr demo_vectors, m') \<and> body_ok m' \<and> body_text m' = ''abcd''"
proof -
  have "body_ok demo_message" "body_text demo_message = ''abcd''" by code_simp+
  then show ?thesis using encode_sends [of demo_message 9 alloc] demo_encode by auto
qed

theorem encode_parse_witness:
  "\<exists>q. http_parser_append_message alloc (concat demo_vectors) blank_parser = (1, length (concat demo_vectors), q) \<and>
     start_parts q = Some (''PUT'', ''/a'', ''HTTP/1.1'') \<and> header_fields q = [(''Content-Length'', ''4'')] \<and> drop (header_offset q) (msgbuf q) = ''abcd''"
proof -
  obtain m' where m': "encode alloc 9 demo_message = Some (Inr demo_vectors, m')" using demo_encode by auto
  have ok: "body_ok demo_message" "start_parts (parser demo_message) = Some (''PUT'', ''/a'', ''HTTP/1.1'')" "lines_ok (parser demo_message)"
    "method_of (parser demo_message) \<noteq> None" "header_fields (parser demo_message) = [(''Content-Length'', ''4'')]" "body_text demo_message = ''abcd''"
    "start_ok (''PUT'', ''/a'', ''HTTP/1.1'')" "list_all field_ok [(''Content-Length'', ''4'')]" "\<not> list_ex names_chunked [(''Content-Length'', ''4'')]"
    "declared [(''Content-Length'', ''4'')] 0 = 4" "length (concat demo_vectors) < SIZE_NONE" "length (namebuf blank_parser) = HTTP_HEADER_NAME_MAX"
    by code_simp+
  have "http_parser_init False blank_parser = blank_parser" by (simp add: blank_parser_def http_parser_init_def)
  then show ?thesis
    using encode_parse [OF ok(1) _ m' ok(2,7,3), of False blank_parser] ok by auto
qed

subsection \<open>Receiving a request\<close>

lemma append_body_flags:
  "append_body n p = (r, n1, q) \<Longrightarrow> hstate p = HPS_HEADER_COMPLETE \<Longrightarrow> hstate q = HPS_HEADER_COMPLETE \<and> expect_continue q = expect_continue p"
proof -
  have "expect_continue q = expect_continue p" if "chunk_step p ptr = (r, q)" for p q r ptr
    using that by (auto simp: chunk_step_def parse_chunk_data_def parse_trailer_part_def Let_def split: if_splits scan.splits prod.splits)
  then have ec: "parse_chunk msg p = (r, q) \<Longrightarrow> hstate q = hstate p \<and> expect_continue q = expect_continue p" for msg p r q
    using chunks.run_keeps [of expect_continue] chunk_frame by blast
  assume "append_body n p = (r, n1, q)" "hstate p = HPS_HEADER_COMPLETE"
  then show ?thesis by (auto simp: append_body_def Let_def split: if_splits prod.splits dest!: ec)
qed

lemma append_flags:
  "http_parser_append_message mem buf p = (r, n, q) \<Longrightarrow> hstate p = HPS_HEADER_COMPLETE \<Longrightarrow>
   hstate q = HPS_HEADER_COMPLETE \<and> expect_continue q = expect_continue p"
  by (auto simp: http_parser_append_message_def append_parse_def Let_def split: if_splits dest!: append_body_flags)

lemma replies_distinct:
  "HTTP_100_RESP \<noteq> HTTP_400_RESP" "HTTP_100_RESP \<noteq> HTTP_413_RESP" "HTTP_100_RESP \<noteq> HTTP_417_RESP"
  "HTTP_400_RESP \<noteq> HTTP_413_RESP" "HTTP_400_RESP \<noteq> HTTP_417_RESP" "HTTP_413_RESP \<noteq> HTTP_417_RESP"
  by code_simp+

text \<open>The announced body does not fit: its length is known and, with the header, passes the limit.\<close>

definition too_large :: "http_parser \<Rightarrow> nat \<Rightarrow> bool" where
  "too_large p limit \<longleftrightarrow> transfer_length p \<noteq> SIZE_NONE \<and> (header_offset p + transfer_length p) mod 2 ^ 64 > limit"

lemma expect_replies:
  assumes "handle_expect_continue fb m = (ret, err, sent)"
  shows "sent = [if too_large (parser m) (size_limit m) then HTTP_417_RESP else HTTP_100_RESP]"
    "ret = (if too_large (parser m) (size_limit m) \<or> fb HTTP_100_RESP \<noteq> int (length HTTP_100_RESP) then -1 else 0)"
    "too_large (parser m) (size_limit m) \<Longrightarrow> err = Some EMSGSIZE"
  using assms by (auto simp: handle_expect_continue_def too_large_def Let_def split: if_splits)

lemmas reply_simps = replies_distinct replies_distinct [symmetric]

text \<open>C38: A request that is still accepted is within its size limit, and the peer gets at most one reply per call: 400
  exactly when the parser rejects the bytes, 413 exactly when the limit is passed. When the message is not complete, is within the limit, and its
  header is complete with an expectation open, the reply is 417 exactly when the announced body does not fit the limit, with -1 and
  \<^verbatim>\<open>EMSGSIZE\<close> as the result, and 100 exactly when it does, with 0 exactly when all of the reply was written. No later call finds the
  expectation open again.\<close>

theorem request_replies:
  assumes "request_append mem fb buf m = (ret, err, n, sent, m')" and "http_parser_append_message mem buf (parser m) = (r, k, p)"
  shows "(ret \<ge> 0 \<longrightarrow> cur_size m' \<le> size_limit m') \<and> length sent \<le> 1 \<and>
    (HTTP_400_RESP \<in> set sent \<longleftrightarrow> r = -2) \<and>
    (HTTP_413_RESP \<in> set sent \<longleftrightarrow> r \<ge> 0 \<and> (cur_size m + k) mod 2 ^ 64 > size_limit m) \<and>
    (HTTP_417_RESP \<in> set sent \<longleftrightarrow> r = 0 \<and> (cur_size m + k) mod 2 ^ 64 \<le> size_limit m \<and> hstate p = HPS_HEADER_COMPLETE \<and> expect_continue p \<and>
       too_large p (size_limit m)) \<and>
    (HTTP_100_RESP \<in> set sent \<longleftrightarrow> r = 0 \<and> (cur_size m + k) mod 2 ^ 64 \<le> size_limit m \<and> hstate p = HPS_HEADER_COMPLETE \<and> expect_continue p \<and>
       \<not> too_large p (size_limit m)) \<and>
    (HTTP_417_RESP \<in> set sent \<longrightarrow> ret = -1 \<and> err = Some EMSGSIZE) \<and>
    (HTTP_100_RESP \<in> set sent \<longrightarrow> ret = (if fb HTTP_100_RESP = int (length HTTP_100_RESP) then 0 else -1)) \<and>
    (HTTP_100_RESP \<in> set sent \<or> HTTP_417_RESP \<in> set sent \<longrightarrow> hstate (parser m') = HPS_HEADER_COMPLETE \<and> \<not> expect_continue (parser m')) \<and>
    (hstate (parser m) = HPS_HEADER_COMPLETE \<and> \<not> expect_continue (parser m) \<longrightarrow>
       HTTP_100_RESP \<notin> set sent \<and> HTTP_417_RESP \<notin> set sent \<and>
       hstate (parser m') = HPS_HEADER_COMPLETE \<and> \<not> expect_continue (parser m'))"
proof -
  note fl = append_flags [OF assms(2)]
  consider (over) "r \<ge> 0" "(cur_size m + k) mod 2 ^ 64 > size_limit m" | (bad) "r < 0"
    | (one) "r > 0" "(cur_size m + k) mod 2 ^ 64 \<le> size_limit m" | (more) "r = 0" "(cur_size m + k) mod 2 ^ 64 \<le> size_limit m" by linarith
  then show ?thesis
  proof cases
    case more
    show ?thesis
    proof (cases "expect_continue p \<and> hstate p = HPS_HEADER_COMPLETE")
      case True
      define m1 where "m1 = m\<lparr>cur_size := (cur_size m + k) mod 2 ^ 64, parser := p\<lparr>expect_continue := False\<rparr>\<rparr>"
      have h: "handle_expect_continue fb m1 = (ret, err, sent)" "m' = m1"
        using assms more True by (auto simp: request_append_def message_append_def Let_def m1_def split: prod.splits)
      have l: "too_large (parser m1) (size_limit m1) = too_large p (size_limit m)" by (simp add: m1_def too_large_def)
      show ?thesis using expect_replies [OF h(1), unfolded l] h(2) more True fl by (simp add: m1_def reply_simps)
    next
      case False
      then show ?thesis using assms more fl by (auto simp: request_append_def message_append_def Let_def)
    qed
  qed (use assms fl in \<open>auto simp: request_append_def message_append_def Let_def reply_simps split: if_splits\<close>)
qed

definition expecting_text :: string where
  "expecting_text = ''PUT / HTTP/1.1'' @ [CR, LF] @ ''Expect: 100-continue'' @ [CR, LF] @ ''Content-Length: 9'' @ [CR, LF, CR, LF]"

theorem request_replies_witness:
  "\<exists>ret err n m'. request_append alloc (\<lambda>s. int (length s)) expecting_text (demo_message\<lparr>parser := blank_parser\<rparr>) =
     (ret, err, n, [HTTP_100_RESP], m') \<and> \<not> expect_continue (parser m')"
proof -
  let ?m = "demo_message\<lparr>parser := blank_parser\<rparr>"
  obtain ret err n sent m' where a: "request_append alloc (\<lambda>s. int (length s)) expecting_text ?m = (ret, err, n, sent, m')"
    by (metis prod_cases5)
  obtain r k p where b: "http_parser_append_message alloc expecting_text (parser ?m) = (r, k, p)" by (metis prod_cases3)
  have "fst (snd (snd (snd (request_append alloc (\<lambda>s. int (length s)) expecting_text ?m)))) = [HTTP_100_RESP]" by code_simp
  then have "sent = [HTTP_100_RESP]" using a by simp
  with request_replies [OF a b] a show ?thesis by auto
qed

end
