(* ===== verification/HttpUtil.thy ===== *)
theory HttpUtil imports HttpMessage begin

text \<open>
  The tool box of \<^verbatim>\<open>protocol/HttpUtil.cc\<close>: the header map, header cursors, status lines, and the cursor
  over the chunks of a parsed body. A pointer into the body is an offset into the body text, which
  ends with the terminator that \<^verbatim>\<open>http_parser_get_body\<close> writes; \<open>None\<close> is an access outside of it.
\<close>

subsection \<open>Header map\<close>

type_synonym HttpHeaderMap = "string \<rightharpoonup> string list"

fun header_map_loop :: "(string \<times> string) list \<Rightarrow> HttpHeaderMap \<Rightarrow> HttpHeaderMap" where
  "header_map_loop [] hm = hm"
| "header_map_loop ((n, v) # fs) hm =
     (let key = map tolower n in
      header_map_loop fs (hm(key \<mapsto> (case hm key of None \<Rightarrow> [v] | Some vs \<Rightarrow> vs @ [v]))))"

text \<open>The visitor of \<^verbatim>\<open>http_header_cursor_next\<close>, called until it reports the end.\<close>

function visit_headers :: "http_parser \<Rightarrow> nat \<Rightarrow> (string \<times> string) list" where
  "visit_headers p cur = (case http_header_cursor_next p cur of (None, _) \<Rightarrow> [] | (Some nv, cur') \<Rightarrow> nv # visit_headers p cur')"
  by pat_completeness auto
termination
  by (relation "measure (\<lambda>(p, cur). length (header_list p) - cur)") (auto simp: http_header_cursor_next_def Let_def split: if_splits)

declare visit_headers.simps [simp del]

definition header_map :: "http_parser \<Rightarrow> HttpHeaderMap" where
  "header_map p = header_map_loop (visit_headers p 0) Map.empty"

definition key_exists :: "string \<Rightarrow> HttpHeaderMap \<Rightarrow> bool" where
  "key_exists key hm \<longleftrightarrow> hm (map tolower key) \<noteq> None"

definition map_get :: "string \<Rightarrow> HttpHeaderMap \<Rightarrow> string" where
  "map_get key hm = (case hm (map tolower key) of None \<Rightarrow> [] | Some [] \<Rightarrow> [] | Some (v # _) \<Rightarrow> v)"

text \<open>The overloads with an output argument: \<open>None\<close> is a false return.\<close>

definition map_get_value :: "string \<Rightarrow> HttpHeaderMap \<Rightarrow> string option" where
  "map_get_value key hm = (case hm (map tolower key) of None \<Rightarrow> None | Some [] \<Rightarrow> None | Some (v # _) \<Rightarrow> Some v)"

text \<open>\<^verbatim>\<open>header_map_[key]\<close> adds an empty entry for a missing key.\<close>

definition map_get_strict :: "string \<Rightarrow> HttpHeaderMap \<Rightarrow> string list \<times> HttpHeaderMap" where
  "map_get_strict key hm =
     (case hm (map tolower key) of None \<Rightarrow> ([], hm(map tolower key \<mapsto> [])) | Some vs \<Rightarrow> (vs, hm))"

definition map_get_strict_value :: "string \<Rightarrow> HttpHeaderMap \<Rightarrow> string list option" where
  "map_get_strict_value key hm = (case hm (map tolower key) of None \<Rightarrow> None | Some [] \<Rightarrow> None | Some vs \<Rightarrow> Some vs)"

definition cursor_next_string :: "http_parser \<Rightarrow> nat \<Rightarrow> (string \<times> string) option \<times> nat" where
  "cursor_next_string p cur = http_header_cursor_next p cur"

definition cursor_find_string :: "string \<Rightarrow> http_parser \<Rightarrow> nat \<Rightarrow> string option \<times> nat" where
  "cursor_find_string name p cur = http_header_cursor_find name p cur"

subsection \<open>Status lines\<close>

definition server_phrase :: "int \<Rightarrow> string" where
  "server_phrase code = (
     if code = 500 then ''Internal Server Error''
     else if code = 501 then ''Not Implemented''
     else if code = 502 then ''Bad Gateway''
     else if code = 503 then ''Service Unavailable''
     else if code = 504 then ''Gateway Timeout''
     else if code = 505 then ''HTTP Version Not Supported''
     else if code = 506 then ''Variant Also Negotiates''
     else if code = 507 then ''Insufficient Storage''
     else if code = 508 then ''Loop Detected''
     else if code = 510 then ''Not Extended''
     else if code = 511 then ''Network Authentication Required''
     else ''Unknown'')"

definition client_phrase :: "int \<Rightarrow> string" where
  "client_phrase code = (
     if code = 400 then ''Bad Request''
     else if code = 401 then ''Unauthorized''
     else if code = 402 then ''Payment Required''
     else if code = 403 then ''Forbidden''
     else if code = 404 then ''Not Found''
     else if code = 405 then ''Method Not Allowed''
     else if code = 406 then ''Not Acceptable''
     else if code = 407 then ''Proxy Authentication Required''
     else if code = 408 then ''Request Timeout''
     else if code = 409 then ''Conflict''
     else if code = 410 then ''Gone''
     else if code = 411 then ''Length Required''
     else if code = 412 then ''Precondition Failed''
     else if code = 413 then ''Request Entity Too Large''
     else if code = 414 then ''Request-URI Too Long''
     else if code = 415 then ''Unsupported Media Type''
     else if code = 416 then ''Requested Range Not Satisfiable''
     else if code = 417 then ''Expectation Failed''
     else if code = 418 then ''I'' @ CHR 0x27 # ''m a teapot''
     else if code = 420 then ''Enhance Your Caim''
     else if code = 421 then ''Misdirected Request''
     else if code = 422 then ''Unprocessable Entity''
     else if code = 423 then ''Locked''
     else if code = 424 then ''Failed Dependency''
     else if code = 425 then ''Too Early''
     else if code = 426 then ''Upgrade Required''
     else if code = 428 then ''Precondition Required''
     else if code = 429 then ''Too Many Requests''
     else if code = 431 then ''Request Header Fields Too Large''
     else if code = 444 then ''No Response''
     else if code = 450 then ''Blocked by Windows Parental Controls''
     else if code = 451 then ''Unavailable For Legal Reasons''
     else if code = 494 then ''Request Header Too Large''
     else server_phrase code)"

definition reason_phrase :: "int \<Rightarrow> string" where
  "reason_phrase code = (
     if code = 100 then ''Continue''
     else if code = 101 then ''Switching Protocols''
     else if code = 102 then ''Processing''
     else if code = 200 then ''OK''
     else if code = 201 then ''Created''
     else if code = 202 then ''Accepted''
     else if code = 203 then ''Non-Authoritative Information''
     else if code = 204 then ''No Content''
     else if code = 205 then ''Reset Content''
     else if code = 206 then ''Partial Content''
     else if code = 207 then ''Multi-Status''
     else if code = 208 then ''Already Reported''
     else if code = 226 then ''IM Used''
     else if code = 300 then ''Multiple Choices''
     else if code = 301 then ''Moved Permanently''
     else if code = 302 then ''Found''
     else if code = 303 then ''See Other''
     else if code = 304 then ''Not Modified''
     else if code = 305 then ''Use Proxy''
     else if code = 306 then ''Switch Proxy''
     else if code = 307 then ''Temporary Redirect''
     else if code = 308 then ''Permanent Redirect''
     else client_phrase code)"

text \<open>\<^verbatim>\<open>%d\<close>\<close>

fun dec_nat :: "nat \<Rightarrow> string" where
  "dec_nat n = (if n < 10 then [char_of (48 + n)] else dec_nat (n div 10) @ [char_of (48 + n mod 10)])"

declare dec_nat.simps [simp del]

definition dec_int :: "int \<Rightarrow> string" where
  "dec_int i = (if i < 0 then CHR ''-'' # dec_nat (nat (- i)) else dec_nat (nat i))"

text \<open>\<^verbatim>\<open>snprintf(buf, 8, "%d", code)\<close> keeps seven characters; the results of the two setters are not looked at.\<close>

definition set_response_status :: "(nat \<Rightarrow> bool) \<Rightarrow> int \<Rightarrow> http_parser \<Rightarrow> http_parser" where
  "set_response_status mem code p =
     (let p = snd (http_parser_set_code mem (take 7 (dec_int code)) p)
      in snd (http_parser_set_phrase mem (reason_phrase code) p))"

subsection \<open>Chunks\<close>

text \<open>Where the digits of a number start, and how many bytes \<^verbatim>\<open>strtol\<close> reads (the distance of its end pointer).\<close>

definition strip_sign :: "string \<Rightarrow> string" where
  "strip_sign s = (if s \<noteq> [] \<and> (hd s = CHR ''-'' \<or> hd s = CHR ''+'') then tl s else s)"

definition strip_hex :: "string \<Rightarrow> string" where
  "strip_hex s = (if length s > 2 \<and> s ! 0 = CHR ''0'' \<and> tolower (s ! 1) = CHR ''x'' \<and> digit_val (s ! 2) < 16 then drop 2 s else s)"

definition num_start :: "nat \<Rightarrow> string \<Rightarrow> string" where
  "num_start base s = (let s = strip_sign (dropWhile isspace s) in if base = 16 then strip_hex s else s)"

definition strtol_end :: "nat \<Rightarrow> string \<Rightarrow> nat" where
  "strtol_end base s = (let r = num_start base s in
     if r \<noteq> [] \<and> digit_val (hd r) < base then length s - length (dropWhile (\<lambda>c. digit_val c < base) r) else 0)"

definition strchr :: "char \<Rightarrow> string \<Rightarrow> nat option" where
  "strchr c s = (if c \<in> set s then Some (length (takeWhile (\<lambda>d. d \<noteq> c) s)) else None)"

definition cstring :: "string \<Rightarrow> string" where
  "cstring s = takeWhile (\<lambda>c. c \<noteq> NUL) s"

record HttpChunkCursor =
  cc_text :: "string option"
  cc_len :: nat
  cc_pos :: nat
  cc_chunked :: bool
  cc_end :: bool

definition chunk_cursor :: "http_parser \<Rightarrow> HttpChunkCursor" where
  "chunk_cursor p =
     (case http_parser_get_body p of
        Some (off, sz, _) \<Rightarrow> \<lparr>cc_text = Some (drop off (msgbuf p) @ [NUL]), cc_len = sz, cc_pos = 0, cc_chunked = chunked p, cc_end = False\<rparr>
      | None \<Rightarrow> \<lparr>cc_text = None, cc_len = 0, cc_pos = 0, cc_chunked = False, cc_end = True\<rparr>)"

text \<open>The chunk that is returned is its offset and size.\<close>

definition chunk_next :: "HttpChunkCursor \<Rightarrow> ((nat \<times> nat) option \<times> HttpChunkCursor) option" where
  "chunk_next c =
     (if cc_end c then Some (None, c)
      else case cc_text c of
        None \<Rightarrow> None
      | Some text \<Rightarrow>
          (if \<not> cc_chunked c then Some (Some (0, cc_len c), c\<lparr>cc_end := True\<rparr>)
           else if cc_pos c \<ge> length text then None
           else
             (let s = cstring (drop (cc_pos c) text); sz = nat (fst (strtol 16 s) mod 2 ^ 64) in
              if sz = 0 then Some (None, c\<lparr>cc_end := True\<rparr>)
              else case strchr CR (drop (strtol_end 16 s) s) of
                 None \<Rightarrow> None
               | Some k \<Rightarrow>
                   (let cur = cc_pos c + strtol_end 16 s + k in
                    Some (Some (cur + 2, sz), c\<lparr>cc_pos := cur + sz + 4\<rparr>)))))"

definition chunk_rewind :: "HttpChunkCursor \<Rightarrow> HttpChunkCursor" where
  "chunk_rewind c = (if cc_text c \<noteq> None then c\<lparr>cc_pos := 0, cc_end := False\<rparr> else c)"

lemma chunk_next_progress:
  "chunk_next c = Some (Some x, c') \<Longrightarrow> cc_text c' = cc_text c \<and> (cc_end c' \<or> cc_pos c < cc_pos c' \<and> cc_pos c < length (the (cc_text c)))"
  by (auto simp: chunk_next_def Let_def split: if_splits option.splits)

lemma chunk_next_live: "chunk_next c = Some (Some x, c') \<Longrightarrow> \<not> cc_end c"
  by (auto simp: chunk_next_def)

text \<open>The loop of \<^verbatim>\<open>decode_chunked_body\<close>; appending a chunk reads \<open>sz\<close> bytes at its offset.\<close>

function decode_loop :: "HttpChunkCursor \<Rightarrow> string option" where
  "decode_loop c =
     (case chunk_next c of
        None \<Rightarrow> None
      | Some (None, _) \<Rightarrow> Some []
      | Some (Some (off, sz), c') \<Rightarrow>
          (if off + sz > length (the (cc_text c)) then None
           else map_option (\<lambda>s. take sz (drop off (the (cc_text c))) @ s) (decode_loop c')))"
  by pat_completeness auto
termination
  by (relation "measure (\<lambda>c. (if cc_end c then 0 else Suc (length (the (cc_text c)) - cc_pos c)))")
    (auto dest: chunk_next_progress chunk_next_live)

declare decode_loop.simps [simp del]

definition decode_chunked_body :: "http_parser \<Rightarrow> string option" where
  "decode_chunked_body p = (if http_parser_get_body p \<noteq> None then decode_loop (chunk_cursor p) else Some [])"

subsection \<open>Numbers before the end of a line\<close>

definition num_neg :: "string \<Rightarrow> bool" where
  "num_neg s \<longleftrightarrow> dropWhile isspace s \<noteq> [] \<and> hd (dropWhile isspace s) = CHR ''-''"

lemma strtol_num:
  "strtol base s = (if num_neg s then max (- LONG_MAX - 1) (- digits_val base (num_start base s) 0) else min LONG_MAX (digits_val base (num_start base s) 0),
     num_start base s \<noteq> [] \<and> digit_val (hd (num_start base s)) < base)"
  by (simp add: strtol_def num_start_def num_neg_def strip_sign_def strip_hex_def Let_def)

lemma digits_val_stop: "\<not> digit_val c < base \<Longrightarrow> digits_val base (ds @ c # x) acc = digits_val base ds acc"
  by (induction ds arbitrary: acc) auto

lemma CR_not_digit: "digit_val CR = 99" "tolower CR \<noteq> CHR ''x''"
  by code_simp+

lemma strip_sign_append: "s \<noteq> [] \<Longrightarrow> strip_sign (s @ y) = strip_sign s @ y"
  and strip_sign_Nil: "strip_sign [] = []" and strip_sign_length: "length (strip_sign s) \<le> length s"
  by (auto simp: strip_sign_def)

lemma strip_hex_cr: "s \<noteq> [] \<Longrightarrow> strip_hex (s @ CR # x) = strip_hex s @ CR # x"
proof -
  assume "s \<noteq> []"
  then consider c where "s = [c]" | c d where "s = [c, d]" | c d e r where "s = c # d # e # r"
    by (metis neq_Nil_conv)
  then show ?thesis by cases (auto simp: strip_hex_def CR_not_digit numeral_2_eq_2)
qed

lemma strip_hex_Nil: "strip_hex [] = []" and strip_hex_length: "length (strip_hex s) \<le> length s"
  by (auto simp: strip_hex_def)

lemma num_start_cr:
  assumes "num_start 16 l \<noteq> []"
  shows "num_start 16 (l @ CR # x) = num_start 16 l @ CR # x" "num_neg (l @ CR # x) = num_neg l" "length (num_start 16 l) \<le> length l"
proof -
  have s0: "dropWhile isspace l \<noteq> []" using assms strip_sign_Nil strip_hex_Nil by (auto simp: num_start_def simp del: dropWhile_eq_Nil_conv)
  have s1: "strip_sign (dropWhile isspace l) \<noteq> []" using assms strip_hex_Nil by (auto simp: num_start_def)
  note e = dropWhile_more [OF s0, of "CR # x"]
  show "num_start 16 (l @ CR # x) = num_start 16 l @ CR # x"
    by (simp add: num_start_def e strip_sign_append [OF s0] strip_hex_cr [OF s1])
  show "num_neg (l @ CR # x) = num_neg l" using s0 by (simp add: num_neg_def e del: dropWhile_eq_Nil_conv)
  show "length (num_start 16 l) \<le> length l"
    using strip_hex_length [of "strip_sign (dropWhile isspace l)"] strip_sign_length [of "dropWhile isspace l"] length_dropWhile_le [of isspace l]
    by (simp add: num_start_def)
qed

lemma strtol_cr:
  assumes "snd (strtol 16 l)"
  shows "strtol 16 (l @ CR # x) = strtol 16 l" "strtol_end 16 (l @ CR # x) = strtol_end 16 l" "strtol_end 16 l \<le> length l"
proof -
  have n: "num_start 16 l \<noteq> []" "digit_val (hd (num_start 16 l)) < 16" using assms by (auto simp: strtol_num)
  note c = num_start_cr(1,2) [OF n(1), of x]
  have dw: "dropWhile (\<lambda>c. digit_val c < 16) (s @ CR # x) = dropWhile (\<lambda>c. digit_val c < 16) s @ CR # x" for s
    by (induction s) (auto simp: CR_not_digit)
  show "strtol 16 (l @ CR # x) = strtol 16 l" using n c CR_not_digit by (simp add: strtol_num digits_val_stop)
  show "strtol_end 16 (l @ CR # x) = strtol_end 16 l" using n c dw by (simp add: strtol_end_def)
  show "strtol_end 16 l \<le> length l" by (simp add: strtol_end_def Let_def)
qed

subsection \<open>What a chunked body holds\<close>

text \<open>The payload of a chunked body, read off its format: \<open>chunk_line t\<close> is the length of the first line and the size it gives.\<close>

definition chunk_line :: "string \<Rightarrow> (nat \<times> nat) option" where
  "chunk_line t = (case scan_line False HTTP_CHUNK_LINE_MAX 0 t of
     Line i \<Rightarrow> (let (sz, any) = strtol 16 (cstring (take i t)) in if any \<and> sz \<ge> 0 then Some (i, nat sz) else None)
   | _ \<Rightarrow> None)"

function chunk_payload :: "string \<Rightarrow> string option" where
  "chunk_payload t = (case chunk_line t of
     None \<Rightarrow> None
   | Some (i, sz) \<Rightarrow> (if sz = 0 then Some [] else if i + sz + 4 > length t then None
       else map_option ((@) (take sz (drop (i + 2) t))) (chunk_payload (drop (i + sz + 4) t))))"
  by pat_completeness auto
termination by (relation "measure length") auto

text \<open>No line that gives a size holds a null byte.\<close>

function clean_lines :: "string \<Rightarrow> bool" where
  "clean_lines t = (case chunk_line t of
     None \<Rightarrow> True
   | Some (i, sz) \<Rightarrow> NUL \<notin> set (take i t) \<and> (if sz = 0 \<or> i + sz + 4 > length t then True else clean_lines (drop (i + sz + 4) t)))"
  by pat_completeness auto
termination by (relation "measure length") auto

declare chunk_payload.simps [simp del] clean_lines.simps [simp del]

lemma scan_line_split:
  "scan_line nul mx i t = Line j \<Longrightarrow> \<exists>l r. t = l @ CR # LF # r \<and> CR \<notin> set l \<and> j = i + length l"
proof (induction nul mx i t rule: scan_line.induct)
  case (2 nul mx i c cs)
  show ?case
  proof (cases "c = CR")
    case True
    then show ?thesis using 2(2) by (auto intro: exI [of _ "[]"] split: if_splits list.splits)
  next
    case False
    with 2 obtain l r where "cs = l @ CR # LF # r" "CR \<notin> set l" "j = i + 1 + length l" by (auto split: if_splits)
    then show ?thesis using False by (intro exI [of _ "c # l"] exI [of _ r]) auto
  qed
qed (auto split: if_splits)

lemma scan_line_take: "scan_line nul mx i t = Line j \<Longrightarrow> j + 2 \<le> i + n \<Longrightarrow> scan_line nul mx i (take n t) = Line j"
proof (induction nul mx i t arbitrary: n rule: scan_line.induct)
  case (2 nul mx i c cs)
  then have "i + 2 \<le> i + n" using scan_line_bounds [OF 2(2)] by linarith
  then obtain k where n: "n = Suc (Suc k)" by (metis add_le_cancel_left add_2_eq_Suc le_Suc_ex)
  show ?case
  proof (cases "c = CR")
    case True
    then show ?thesis using 2(2) n by (auto split: if_splits list.splits)
  next
    case False
    then show ?thesis using 2 n by (auto split: if_splits)
  qed
qed (auto split: if_splits)

lemma cstring_line: "NUL \<notin> set l \<Longrightarrow> cstring (l @ r) = l @ cstring r"
  by (simp add: cstring_def takeWhile_append)

lemma digits_val_nonneg: "0 \<le> acc \<Longrightarrow> 0 \<le> digits_val base ds acc"
  by (induction base ds acc rule: digits_val.induct) auto

lemma strtol_range: "- (2 ^ 63) \<le> fst (strtol base s)" "fst (strtol base s) < 2 ^ 63"
  using digits_val_nonneg [of 0 base "num_start base s"] by (auto simp: strtol_num LONG_MAX_def max_def)

lemma chunk_line_split:
  assumes "chunk_line t = Some (i, sz)" and "NUL \<notin> set (take i t)"
  obtains l r where "t = l @ CR # LF # r" "CR \<notin> set l" "NUL \<notin> set l" "i = length l" "snd (strtol 16 l)" "fst (strtol 16 l) = int sz"
proof -
  from assms(1) have sl: "scan_line False HTTP_CHUNK_LINE_MAX 0 t = Line i" by (auto simp: chunk_line_def Let_def split: scan.splits if_splits prod.splits)
  from scan_line_split [OF this] obtain l r where l: "t = l @ CR # LF # r" "CR \<notin> set l" "i = length l" by auto
  then have nl: "NUL \<notin> set l" using assms(2) by simp
  moreover have "cstring (take i t) = l" using l cstring_line [OF nl, of "[]"] by (simp add: cstring_def)
  ultimately show thesis using that [OF l(1,2)] l(3) assms(1) sl by (auto simp: chunk_line_def Let_def split: if_splits prod.splits)
qed

text \<open>One call of \<^verbatim>\<open>next\<close> at the start of such a line.\<close>

lemma chunk_next_line:
  assumes c: "\<not> cc_end c" "cc_chunked c" "cc_text c = Some (T @ [NUL])" "cc_pos c \<le> length T"
    and t: "drop (cc_pos c) T = l @ CR # LF # r" "CR \<notin> set l" "NUL \<notin> set l" and n: "snd (strtol 16 l)" "fst (strtol 16 l) = int sz"
  shows "chunk_next c = (if sz = 0 then Some (None, c\<lparr>cc_end := True\<rparr>)
    else Some (Some (cc_pos c + length l + 2, sz), c\<lparr>cc_pos := cc_pos c + length l + sz + 4\<rparr>))"
proof -
  have d: "drop (cc_pos c) (T @ [NUL]) = l @ CR # LF # r @ [NUL]" using c(4) t(1) by simp
  then obtain x where s: "cstring (drop (cc_pos c) (T @ [NUL])) = l @ CR # x" using cstring_line [OF t(3)] by (auto simp: cstring_def)
  have sz: "fst (strtol 16 (l @ CR # x)) mod 2 ^ 64 = int sz"
    using strtol_cr(1) [OF n(1), of x] n(2) strtol_range(2) [of 16 l] by simp
  let ?e = "strtol_end 16 l"
  have e: "strtol_end 16 (l @ CR # x) = ?e" "?e \<le> length l" using strtol_cr(2,3) [OF n(1)] by auto
  have "takeWhile (\<lambda>d. d \<noteq> CR) (drop ?e l @ CR # x) = drop ?e l"
    using t(2) set_drop_subset [of ?e l] by (subst takeWhile_append2) auto
  then have k: "strchr CR (drop ?e (l @ CR # x)) = Some (length l - ?e)" using e(2) by (auto simp: strchr_def)
  show ?thesis using c s sz e k unfolding chunk_next_def by (simp add: Let_def)
qed

lemma decode_payload:
  "chunk_payload (drop pos T) = Some d \<Longrightarrow> clean_lines (drop pos T) \<Longrightarrow> pos \<le> length T \<Longrightarrow>
   decode_loop \<lparr>cc_text = Some (T @ [NUL]), cc_len = n, cc_pos = pos, cc_chunked = True, cc_end = False\<rparr> = Some d"
proof (induction "length T - pos" arbitrary: pos d rule: less_induct)
  case less
  let ?c = "\<lparr>cc_text = Some (T @ [NUL]), cc_len = n, cc_pos = pos, cc_chunked = True, cc_end = False\<rparr>"
  from less.prems(1) obtain i sz where cl: "chunk_line (drop pos T) = Some (i, sz)" by (subst (asm) chunk_payload.simps) (auto split: option.splits)
  have clean: "NUL \<notin> set (take i (drop pos T))" using less.prems(2) cl by (subst (asm) clean_lines.simps) auto
  from chunk_line_split [OF cl clean] obtain l r where l: "drop pos T = l @ CR # LF # r" "CR \<notin> set l" "NUL \<notin> set l" "i = length l"
    "snd (strtol 16 l)" "fst (strtol 16 l) = int sz" .
  note nx = chunk_next_line [of ?c T, simplified, OF less.prems(3) l(1-3,5,6)]
  show ?case
  proof (cases "sz = 0")
    case True
    then show ?thesis using nx less.prems(1) cl by (subst decode_loop.simps, subst (asm) chunk_payload.simps) auto
  next
    case False
    let ?p = "pos + i + sz + 4"
    have fit: "?p \<le> length T" using less.prems(1,3) cl False by (subst (asm) chunk_payload.simps) (auto split: if_splits)
    obtain d' where d': "chunk_payload (drop ?p T) = Some d'" "d = take sz (drop (pos + i + 2) T) @ d'"
      using less.prems(1) cl False by (subst (asm) chunk_payload.simps) (auto split: if_splits simp: ac_simps)
    have "clean_lines (drop ?p T)" using less.prems(2) cl False fit by (subst (asm) clean_lines.simps) (auto simp: ac_simps split: if_splits)
    then have "decode_loop (?c\<lparr>cc_pos := ?p\<rparr>) = Some d'" using less.hyps [OF _ d'(1) _ fit] fit by simp
    then show ?thesis using nx False fit l(4) d'(2) by (subst decode_loop.simps) (auto simp: ac_simps)
  qed
qed

text \<open>The step of the parser over one chunk.\<close>

lemma chunk_data_step:
  assumes "parse_chunk_data ptr p = (r, p1)" and "r > 0"
  obtains i sz where "scan_line False HTTP_CHUNK_LINE_MAX 0 ptr = Line i" "strtol 16 (cstring (take i ptr)) = (int sz, True)"
    "if sz = 0 then p1 = p\<lparr>cstate := CPS_TRAILER_PART, chunk_offset := chunk_offset p + (i + 2)\<rparr>
     else sz + i + 4 \<le> length ptr \<and> p1 = p\<lparr>chunk_offset := chunk_offset p + (sz + i + 4)\<rparr>"
proof -
  from assms obtain i where i: "scan_line False HTTP_CHUNK_LINE_MAX 0 ptr = Line i"
    by (auto simp: parse_chunk_data_def split: scan.splits)
  obtain v a where v: "strtol 16 (cstring (take i ptr)) = (v, a)" by fastforce
  have any: "a" using assms i v by (auto simp: parse_chunk_data_def cstring_def split: if_splits)
  have "v \<noteq> 0 \<Longrightarrow> v mod 2 ^ 64 < CHUNK_SIZE_MAX" using assms i v any by (auto simp: parse_chunk_data_def cstring_def split: if_splits)
  moreover have "v mod 2 ^ 64 = v + 2 ^ 64" if "v < 0"
    using strtol_range(1) [of 16 "cstring (take i ptr)"] v that by (subst mod_add_self2 [symmetric], subst mod_pos_pos_trivial) auto
  ultimately have "v \<ge> 0" using strtol_range(1) [of 16 "cstring (take i ptr)"] v by force
  then show thesis using that [of i "nat v"] i v any assms
    by (auto simp: parse_chunk_data_def cstring_def Let_def split: if_splits)
qed

lemma chunk_line_prefix:
  assumes "scan_line False HTTP_CHUNK_LINE_MAX 0 ptr = Line i" "strtol 16 (cstring (take i ptr)) = (int sz, True)" "i + 2 \<le> n"
  shows "chunk_line (take n ptr) = Some (i, sz)"
  using scan_line_take [OF assms(1), of n] assms(2,3) by (simp add: chunk_line_def min_def)

lemma parse_payload:
  "parse_chunk msg p = (r, q) \<Longrightarrow> r > 0 \<Longrightarrow> cstate p = CPS_CHUNK_DATA \<Longrightarrow> chunk_offset p \<le> length msg \<Longrightarrow> peq p p \<Longrightarrow>
   \<exists>d. chunk_payload (drop (chunk_offset p) (take (chunk_offset q) msg)) = Some d"
proof (induction "length msg - chunk_offset p" arbitrary: p rule: less_induct)
  case less
  let ?ptr = "drop (chunk_offset p) msg"
  obtain r1 p1 where s: "chunk_step p ?ptr = (r1, p1)" by fastforce
  have e1: "peq p1 p1" using less.prems(5) chunk_step_keeps [OF s] by (simp add: peq_refl)
  have nf: "cstate p1 \<noteq> CPS_CHUNK_COMPLETE" "r1 > 0" and run: "parse_chunk msg p1 = (r, q)"
  proof -
    show "cstate p1 \<noteq> CPS_CHUNK_COMPLETE" using s less.prems(3)
      by (auto simp: chunk_step_def parse_chunk_data_def Let_def split: if_splits scan.splits prod.splits)
    then show "r1 > 0" "parse_chunk msg p1 = (r, q)" using less.prems(1,2) s
      by (subst (asm) parse_chunk.simps, simp split: if_splits)+
  qed
  have off: "chunk_offset p1 \<le> chunk_offset q" using chunks.run_off [OF e1 nf(1) run] less.prems(2) by simp
  have "parse_chunk_data ?ptr p = (r1, p1)" using s less.prems(3) by (simp add: chunk_step_def)
  from chunk_data_step [OF this nf(2)] obtain i sz where i: "scan_line False HTTP_CHUNK_LINE_MAX 0 ?ptr = Line i" "strtol 16 (cstring (take i ?ptr)) = (int sz, True)"
    "if sz = 0 then p1 = p\<lparr>cstate := CPS_TRAILER_PART, chunk_offset := chunk_offset p + (i + 2)\<rparr>
     else sz + i + 4 \<le> length ?ptr \<and> p1 = p\<lparr>chunk_offset := chunk_offset p + (sz + i + 4)\<rparr>" .
  have cl: "chunk_line (drop (chunk_offset p) (take (chunk_offset q) msg)) = Some (i, sz)"
    unfolding drop_take by (rule chunk_line_prefix [OF i(1,2)]) (use i(3) off in \<open>auto split: if_splits\<close>)
  show ?case
  proof (cases "sz = 0")
    case True
    then show ?thesis using cl by (subst chunk_payload.simps) simp
  next
    case False
    then have p1: "chunk_offset p1 = chunk_offset p + (i + sz + 4)" "cstate p1 = cstate p" "chunk_offset p1 \<le> length msg"
      using i(3) less.prems(4) by auto
    have lt: "length msg - chunk_offset p1 < length msg - chunk_offset p" using p1(1,3) by linarith
    obtain d where d: "chunk_payload (drop (chunk_offset p1) (take (chunk_offset q) msg)) = Some d"
      using less.hyps [OF lt run less.prems(2) _ p1(3) e1] p1(2) less.prems(3) by auto
    have "chunk_offset q \<le> length msg" using chunks.run_more [OF e1 nf(1) p1(3) run] less.prems(2) by simp
    then show ?thesis using cl False d off p1(1) by (subst chunk_payload.simps) (auto simp: drop_drop ac_simps)
  qed
qed

lemma append_chunked:
  assumes "buffers_ok mem" and "length (namebuf p) = HTTP_HEADER_NAME_MAX"
    and a: "http_parser_append_message mem buf (http_parser_init resp p) = (1, n, q)" and q: "chunked q" "transfer_length q = SIZE_NONE"
  obtains ph r q1 where "peq ph ph" "chunk_offset ph = header_offset q" "cstate ph = CPS_CHUNK_DATA" "header_offset q \<le> length buf"
    "parse_chunk buf ph = (r, q1)" "r > 0" "chunk_offset q1 \<le> length buf" "msgbuf q = take (chunk_offset q1) buf" "complete q" "hstate q = HPS_HEADER_COMPLETE"
proof -
  define p0 where "p0 = (http_parser_init resp p)\<lparr>bufsize := buf_after buf (http_parser_init resp p), msgbuf := buf\<rparr>"
  have p0: "peq p0 p0" "hstate p0 \<noteq> HPS_HEADER_COMPLETE" "header_offset p0 = 0" "msgbuf p0 = buf"
    using assms(2) by (simp_all add: p0_def http_parser_init_def peq_refl)
  have ap: "append_parse mem (length buf) p0 = (1, n, q)"
    using append_message_eq [OF assms(1), of "http_parser_init resp p" buf] a by (simp add: p0_def http_parser_init_def)
  obtain rh ph where h: "parse_message_header mem buf p0 = (rh, ph)" by fastforce
  then have rh: "rh > 0" using ap p0 by (auto simp: append_parse_def split: if_splits)
  have ph: "peq ph ph" "header_offset ph \<le> length buf" "hstate ph = HPS_HEADER_COMPLETE"
    using hdr.run_more [OF p0(1,2) _ h, of "[]"] p0(3) rh by auto
  define p1 where "p1 = header_done ph"
  have ab: "append_body (length buf) p1 = (1, n, q)" using ap h p0 rh by (simp add: append_parse_def p1_def)
  have m1: "msgbuf p1 = buf" using parse_msgbuf(2) [OF h] p0(4) by (simp add: p1_def)
  obtain r1 q1 where pc: "parse_chunk buf p1 = (r1, q1)" by fastforce
  note fr = chunk_frame [OF pc]
  have c1: "chunked p1" "transfer_length p1 = SIZE_NONE"
    using ab q fr m1 pc by (auto simp: append_body_def Let_def split: if_splits prod.splits)
  then have ok: "chunk_offset p1 = header_offset ph" "cstate p1 = CPS_CHUNK_DATA" "peq p1 p1"
    using ph(1) by (auto simp: p1_def header_done_def peq_refl split: if_splits)
  then have q1: "r1 > 0" "q = q1\<lparr>msgbuf := take (chunk_offset q1) (msgbuf q1), complete := True\<rparr>"
    using ab c1 m1 pc by (auto simp: append_body_def split: if_splits)
  have "chunk_offset q1 \<le> length buf" using chunks.run_more [OF ok(3) _ _ pc] ok q1(1) ph(2) by simp
  then show thesis using that [OF ok(3) _ ok(2) _ pc] ok(1) q1 ph fr parse_msgbuf(1) [OF pc] m1 by (auto simp: p1_def)
qed

text \<open>C10: The body of every chunked message that the parser accepts has a payload, and when no size line holds a null
  byte, \<^verbatim>\<open>decode_chunked_body\<close> walks over it without leaving the buffer, ends, and returns exactly
  the payload.\<close>

theorem chunked_decode:
  assumes "buffers_ok mem" and "length (namebuf p) = HTTP_HEADER_NAME_MAX"
    and "http_parser_append_message mem buf (http_parser_init resp p) = (1, n, q)" and "chunked q" and "transfer_length q = SIZE_NONE"
  shows "\<exists>d. chunk_payload (drop (header_offset q) (msgbuf q)) = Some d \<and>
    (clean_lines (drop (header_offset q) (msgbuf q)) \<longrightarrow> decode_chunked_body q = Some d)"
proof -
  from append_chunked [OF assms] obtain ph r q1 where h: "peq ph ph" "chunk_offset ph = header_offset q" "cstate ph = CPS_CHUNK_DATA"
    "header_offset q \<le> length buf" "parse_chunk buf ph = (r, q1)" "r > 0" "chunk_offset q1 \<le> length buf"
    "msgbuf q = take (chunk_offset q1) buf" "complete q" "hstate q = HPS_HEADER_COMPLETE" .
  let ?T = "drop (header_offset q) (msgbuf q)"
  from parse_payload [OF h(5,6,3) _ h(1)] h(2,4,8) obtain d where d: "chunk_payload ?T = Some d" by auto
  have "decode_chunked_body q = Some d" if "clean_lines ?T"
    using decode_payload [of 0 ?T d] d that assms(4) h(9,10)
    by (simp add: decode_chunked_body_def chunk_cursor_def http_parser_get_body_def)
  then show ?thesis using d by blast
qed

definition chunked_text :: string where
  "chunked_text = ''HTTP/1.1 200 OK'' @ [CR, LF] @ ''Transfer-Encoding: chunked'' @ [CR, LF, CR, LF] @
     ''5;x=1'' @ [CR, LF] @ ''hello'' @ [CR, LF] @ ''1'' @ [CR, LF] @ ''!'' @ [CR, LF] @ ''0'' @ [CR, LF, CR, LF]"

theorem chunked_decode_witness:
  "decode_chunked_body (snd (snd (http_parser_append_message alloc chunked_text (http_parser_init True blank_parser)))) = Some ''hello!''"
proof -
  obtain r n q where a: "http_parser_append_message alloc chunked_text (http_parser_init True blank_parser) = (r, n, q)" by (metis prod_cases3)
  have "(case http_parser_append_message alloc chunked_text (http_parser_init True blank_parser) of
      (r, n, q) \<Rightarrow> (r, chunked q, transfer_length q, clean_lines (drop (header_offset q) (msgbuf q)), chunk_payload (drop (header_offset q) (msgbuf q)))) =
    (1, True, SIZE_NONE, True, Some ''hello!'')" by code_simp
  then have q: "r = 1" "chunked q" "transfer_length q = SIZE_NONE" "clean_lines (drop (header_offset q) (msgbuf q))"
    "chunk_payload (drop (header_offset q) (msgbuf q)) = Some ''hello!''" using a by auto
  have "length (namebuf blank_parser) = HTTP_HEADER_NAME_MAX" by (simp add: blank_parser_def http_parser_init_def)
  with chunked_decode [OF _ this a [unfolded q(1)] q(2,3)] q(4,5) a show ?thesis by (auto simp: buffers_ok_def)
qed

text \<open>A null byte after the size makes the parser and the cursor disagree: the message is accepted, and the
  search for the end of the line finds nothing.\<close>

lemma nul_in_chunk_line:
  "(case http_parser_append_message alloc (''HTTP/1.1 200 OK'' @ [CR, LF] @ ''Transfer-Encoding: chunked'' @ [CR, LF, CR, LF] @
      ''1'' @ [NUL, CR, LF] @ ''a'' @ [CR, LF] @ ''0'' @ [CR, LF, CR, LF]) (http_parser_init True blank_parser) of
      (r, n, q) \<Rightarrow> (r, decode_chunked_body q)) = (1, None)"
  by code_simp

subsection \<open>Header maps and status lines\<close>

lemma visit_headers_fields: "visit_headers p cur = drop cur (header_fields p)"
proof (induction p cur rule: visit_headers.induct)
  case (1 p cur)
  then show ?case
    by (subst visit_headers.simps)
      (auto simp: http_header_cursor_next_def header_fields_def Let_def drop_map Cons_nth_drop_Suc [symmetric])
qed

definition values_of :: "string \<Rightarrow> (string \<times> string) list \<Rightarrow> string list" where
  "values_of key fs = map snd (filter (\<lambda>f. strcaseeq (fst f) key) fs)"

lemma header_map_loop_get:
  "header_map_loop fs hm (map tolower key) =
     (case hm (map tolower key) of None \<Rightarrow> (if values_of key fs = [] then None else Some (values_of key fs)) | Some vs \<Rightarrow> Some (vs @ values_of key fs))"
  by (induction fs arbitrary: hm) (auto simp: values_of_def strcaseeq_def Let_def split: option.split)

lemma header_map_get: "header_map p (map tolower key) = (if values_of key (header_fields p) = [] then None else Some (values_of key (header_fields p)))"
  by (simp add: header_map_def visit_headers_fields header_map_loop_get)

lemma values_of_first: "field_get key fs = (case values_of key fs of [] \<Rightarrow> None | v # _ \<Rightarrow> Some v)"
  by (induction fs) (auto simp: values_of_def)

text \<open>The header map agrees with the header list whatever the case of a name: \<^verbatim>\<open>get\<close> gives the value that a
  search with a cursor finds first, \<^verbatim>\<open>get_strict\<close> all values in order, and \<^verbatim>\<open>key_exists\<close> whether there is one.\<close>

theorem header_map_correct:
  "lines_ok p \<Longrightarrow>
   map_get_value key (header_map p) = fst (http_header_cursor_find key p 0) \<and>
   map_get key (header_map p) = (case fst (http_header_cursor_find key p 0) of None \<Rightarrow> [] | Some v \<Rightarrow> v) \<and>
   fst (map_get_strict key (header_map p)) = values_of key (header_fields p) \<and>
   (map_get_strict_value key (header_map p) = None \<longleftrightarrow> values_of key (header_fields p) = []) \<and>
   (key_exists key (header_map p) \<longleftrightarrow> fst (http_header_cursor_find key p 0) \<noteq> None)"
  by (auto simp: map_get_value_def map_get_def map_get_strict_def map_get_strict_value_def key_exists_def header_map_get
      find_fields values_of_first split: list.split option.split)

theorem header_map_correct_witness:
  "map_get_value ''CONTENT-LENGTH'' (header_map (parser demo_message)) = Some ''4''"
proof -
  have "lines_ok (parser demo_message)" "fst (http_header_cursor_find ''CONTENT-LENGTH'' (parser demo_message) 0) = Some ''4''" by code_simp+
  then show ?thesis using header_map_correct by simp
qed

end
