(* ===== verification/Upstream.thy ===== *)
theory Upstream imports URIParser HttpParser "HOL-Library.Word" begin

text \<open>
  Upstreams of \<^verbatim>\<open>manager/UpstreamManager.cc\<close>: named sets of servers with weights, groups, failure counts
  and a circuit breaker. A server is a number that \<open>addrs\<close> maps to its record; a group is known by its
  id, \<open>group_ids\<close> being the keys of the red-black tree in order. The clock, \<^verbatim>\<open>rand()\<close>, \<^verbatim>\<open>std::shuffle\<close> and
  \<^verbatim>\<open>std::hash\<close> are arguments. The locks make each call one step.
\<close>

subsection \<open>State\<close>

abbreviation SERVER_TYPE_MASTER :: int where "SERVER_TYPE_MASTER \<equiv> 0"
abbreviation MTTR_SECOND :: int where "MTTR_SECOND \<equiv> 30"
abbreviation VIRTUAL_GROUP_SIZE :: nat where "VIRTUAL_GROUP_SIZE \<equiv> 16"

record AddressParams =
  max_fails :: nat
  weight :: int
  server_type :: int
  group_id :: int

record UpstreamAddress =
  ua_group :: "int option"
  params :: AddressParams
  in_list :: bool
  broken_timeout :: int
  consistent_hash :: "32 word list"
  address :: string
  ua_host :: string
  ua_port :: string
  fail_count :: nat
  port_value :: nat

record UpstreamGroup =
  gmasters :: "nat list"
  gslaves :: "nat list"
  breaker_list :: "nat list"
  nbreak :: int
  nalive :: int
  gweight :: int

type_synonym upstream_route = "string \<Rightarrow> string \<Rightarrow> string \<Rightarrow> 32 word"

record Upstream =
  addrs :: "nat \<Rightarrow> UpstreamAddress"
  total_weight :: int
  available_weight :: int
  masters :: "nat list"
  server_map :: "string \<rightharpoonup> nat list"
  group_ids :: "int list"
  groups :: "int \<Rightarrow> UpstreamGroup"
  select_callback :: "upstream_route option"
  consistent_callback :: "upstream_route option"
  try_another :: bool
  is_consistent :: bool

definition new_group :: UpstreamGroup where
  "new_group = \<lparr>gmasters = [], gslaves = [], breaker_list = [], nbreak = 0, nalive = 0, gweight = 0\<rparr>"

text \<open>The group -1 is the default group; \<open>store\<close> holds the servers of all upstreams.\<close>

definition upstream_init :: "(nat \<Rightarrow> UpstreamAddress) \<Rightarrow> Upstream" where
  "upstream_init store = \<lparr>addrs = store, total_weight = 0, available_weight = 0, masters = [], server_map = Map.empty,
     group_ids = [-1], groups = (\<lambda>_. new_group), select_callback = None, consistent_callback = None,
     try_another = False, is_consistent = False\<rparr>"

definition upd_addr :: "nat \<Rightarrow> (UpstreamAddress \<Rightarrow> UpstreamAddress) \<Rightarrow> Upstream \<Rightarrow> Upstream" where
  "upd_addr a f us = us\<lparr>addrs := (addrs us)(a := f (addrs us a))\<rparr>"

definition upd_group :: "int \<Rightarrow> (UpstreamGroup \<Rightarrow> UpstreamGroup) \<Rightarrow> Upstream \<Rightarrow> Upstream" where
  "upd_group gid f us = us\<lparr>groups := (groups us)(gid := f (groups us gid))\<rparr>"

text \<open>\<^verbatim>\<open>ua->fail_count < ua->params.max_fails\<close>\<close>

definition alive :: "Upstream \<Rightarrow> nat \<Rightarrow> bool" where
  "alive us a \<longleftrightarrow> fail_count (addrs us a) < max_fails (params (addrs us a))"

abbreviation master :: "Upstream \<Rightarrow> nat \<Rightarrow> bool" where
  "master us a \<equiv> server_type (params (addrs us a)) = SERVER_TYPE_MASTER"

abbreviation gid_of :: "Upstream \<Rightarrow> nat \<Rightarrow> int" where
  "gid_of us a \<equiv> group_id (params (addrs us a))"

abbreviation weight_of :: "Upstream \<Rightarrow> nat \<Rightarrow> int" where
  "weight_of us a \<equiv> weight (params (addrs us a))"

subsection \<open>Choosing within a group\<close>

definition get_one :: "(nat list \<Rightarrow> nat list) \<Rightarrow> int \<Rightarrow> Upstream \<Rightarrow> nat option \<times> Upstream" where
  "get_one shuf gid us =
     (if nalive (groups us gid) = 0 then (None, us)
      else
        (let us = upd_group gid (\<lambda>g. g\<lparr>gmasters := shuf (gmasters g)\<rparr>) us in
         case List.find (alive us) (gmasters (groups us gid)) of
           Some a \<Rightarrow> (Some a, us)
         | None \<Rightarrow>
             (let us = upd_group gid (\<lambda>g. g\<lparr>gslaves := shuf (gslaves g)\<rparr>) us in
              (List.find (alive us) (gslaves (groups us gid)), us))))"

definition get_one_slave :: "(nat list \<Rightarrow> nat list) \<Rightarrow> int \<Rightarrow> Upstream \<Rightarrow> nat option \<times> Upstream" where
  "get_one_slave shuf gid us =
     (if nalive (groups us gid) = 0 then (None, us)
      else
        (let us = upd_group gid (\<lambda>g. g\<lparr>gslaves := shuf (gslaves g)\<rparr>) us in
         (List.find (alive us) (gslaves (groups us gid)), us)))"

subsection \<open>Adding and removing servers\<close>

text \<open>\<^verbatim>\<open>UpstreamAddress::UpstreamAddress\<close>; \<^verbatim>\<open>std::to_string\<close> of the numbers below 16.\<close>

definition vname :: "nat \<Rightarrow> string" where
  "vname i = (if i < 10 then [char_of (48 + i)] else [CHR ''1'', char_of (38 + i)])"

definition new_address :: "(string \<Rightarrow> 32 word) \<Rightarrow> string \<Rightarrow> AddressParams \<Rightarrow> UpstreamAddress" where
  "new_address std_hash addr ps =
     (let arr = split addr (CHR '':'') in
      \<lparr>ua_group = None,
       params = ps\<lparr>weight := (if weight ps = 0 then 1 else weight ps), max_fails := (if max_fails ps = 0 then 1 else max_fails ps),
                   group_id := (if group_id ps < 0 then -1 else group_id ps)\<rparr>,
       in_list = False, broken_timeout = 0,
       consistent_hash = map (\<lambda>i. std_hash (addr @ ''|v'' @ vname i)) [0..<VIRTUAL_GROUP_SIZE],
       address = addr,
       ua_host = (if arr = [] then [] else arr ! 0),
       ua_port = (if length arr \<le> 1 then [] else arr ! 1),
       fail_count = 0,
       port_value = (if length arr \<le> 1 then 0 else atoi_size (arr ! 1) mod 2 ^ 16)\<rparr>)"

definition lose_one_server :: "int \<Rightarrow> nat \<Rightarrow> Upstream \<Rightarrow> Upstream" where
  "lose_one_server gid a us =
     (let us = upd_group gid (\<lambda>g. g\<lparr>nalive := nalive g - 1\<rparr>) us;
          us = (if nalive (groups us gid) = 0 \<and> gid_of us a \<ge> 0
                then us\<lparr>available_weight := available_weight us - gweight (groups us gid)\<rparr> else us)
      in if gid_of us a < 0 \<and> master us a then us\<lparr>available_weight := available_weight us - weight_of us a\<rparr> else us)"

definition gain_one_server :: "int \<Rightarrow> nat \<Rightarrow> Upstream \<Rightarrow> Upstream" where
  "gain_one_server gid a us =
     (let was = nalive (groups us gid);
          us = upd_group gid (\<lambda>g. g\<lparr>nalive := nalive g + 1\<rparr>) us;
          us = (if was = 0 \<and> gid_of us a \<ge> 0
                then us\<lparr>available_weight := available_weight us + gweight (groups us gid)\<rparr> else us)
      in if gid_of us a < 0 \<and> master us a then us\<lparr>available_weight := available_weight us + weight_of us a\<rparr> else us)"

definition find_group :: "int \<Rightarrow> Upstream \<Rightarrow> Upstream" where
  "find_group gid us =
     (if gid \<in> set (group_ids us) then us
      else us\<lparr>group_ids := insort gid (group_ids us), groups := (groups us)(gid := new_group)\<rparr>)"

text \<open>\<^verbatim>\<open>Upstream::add\<close>: the server map, the group, the weights and lists.\<close>

definition set_map :: "nat \<Rightarrow> Upstream \<Rightarrow> Upstream" where
  "set_map a us = (let key = address (addrs us a) in
     us\<lparr>server_map := (server_map us)(key \<mapsto> (case server_map us key of None \<Rightarrow> [a] | Some as \<Rightarrow> as @ [a]))\<rparr>)"

definition enter :: "nat \<Rightarrow> Upstream \<Rightarrow> Upstream" where
  "enter a us =
     (let gid = gid_of us a;
          us = (if master us a then us\<lparr>total_weight := total_weight us + weight_of us a, masters := masters us @ [a]\<rparr> else us);
          us = gain_one_server gid a us;
          us = upd_addr a (\<lambda>u. u\<lparr>ua_group := Some gid\<rparr>) us
      in if master us a
         then upd_group gid (\<lambda>g. g\<lparr>gweight := gweight g + weight_of us a, gmasters := gmasters g @ [a]\<rparr>) us
         else upd_group gid (\<lambda>g. g\<lparr>gslaves := gslaves g @ [a]\<rparr>) us)"

definition upstream_add :: "nat \<Rightarrow> Upstream \<Rightarrow> Upstream" where
  "upstream_add a us = (let us = set_map a us in enter a (find_group (gid_of us a) us))"

text \<open>The body of the loop of \<^verbatim>\<open>Upstream::del\<close>; \<open>None\<close> is a null group pointer.\<close>

definition del_one :: "nat \<Rightarrow> Upstream \<Rightarrow> Upstream option" where
  "del_one a us =
     (case ua_group (addrs us a) of
        None \<Rightarrow> None
      | Some gid \<Rightarrow>
          (let us = (if master us a then us\<lparr>total_weight := total_weight us - weight_of us a\<rparr> else us);
               us = upd_addr a (\<lambda>u. u\<lparr>ua_group := None\<rparr>) us;
               us = (if alive us a then lose_one_server gid a us else us);
               us = (if master us a then upd_group gid (\<lambda>g. g\<lparr>gweight := gweight g - weight_of us a\<rparr>) us else us)
           in Some (if master us a then upd_group gid (\<lambda>g. g\<lparr>gmasters := remove1 a (gmasters g)\<rparr>) us
                    else upd_group gid (\<lambda>g. g\<lparr>gslaves := remove1 a (gslaves g)\<rparr>) us)))"

fun del_loop :: "nat list \<Rightarrow> Upstream \<Rightarrow> Upstream option" where
  "del_loop [] us = Some us"
| "del_loop (a # as) us = (case del_one a us of None \<Rightarrow> None | Some us \<Rightarrow> del_loop as us)"

text \<open>The last loop moves the other masters to the front, in order.\<close>

definition upstream_del :: "string \<Rightarrow> Upstream \<Rightarrow> (nat \<times> Upstream) option" where
  "upstream_del addr us =
     map_option (\<lambda>us.
       (let keep = filter (\<lambda>a. address (addrs us a) \<noteq> addr) (masters us)
        in (length (masters us) - length keep, us\<lparr>masters := keep\<rparr>)))
     (case server_map us addr of
        None \<Rightarrow> Some us
      | Some as \<Rightarrow> map_option (\<lambda>us. us\<lparr>server_map := (server_map us)(addr := None)\<rparr>) (del_loop as us))"

subsection \<open>The circuit breaker\<close>

text \<open>What \<^verbatim>\<open>disable_server\<close> and \<^verbatim>\<open>notify_unavailable\<close> do with a server that has just failed.\<close>

definition enlist :: "int \<Rightarrow> int \<Rightarrow> nat \<Rightarrow> Upstream \<Rightarrow> Upstream" where
  "enlist now gid a us =
     (let us = upd_addr a (\<lambda>u. u\<lparr>broken_timeout := now + MTTR_SECOND, in_list := True\<rparr>) us;
          us = upd_group gid (\<lambda>g. g\<lparr>breaker_list := breaker_list g @ [a], nbreak := nbreak g + 1\<rparr>) us
      in lose_one_server gid a us)"

definition disable_one :: "int \<Rightarrow> nat \<Rightarrow> Upstream \<Rightarrow> Upstream" where
  "disable_one now a us =
     (let us' = upd_addr a (\<lambda>u. u\<lparr>fail_count := max_fails (params u)\<rparr>) us in
      case ua_group (addrs us a) of
        None \<Rightarrow> us'
      | Some gid \<Rightarrow> (if \<not> in_list (addrs us a) then enlist now gid a us' else us'))"

definition disable_server :: "int \<Rightarrow> string \<Rightarrow> Upstream \<Rightarrow> Upstream" where
  "disable_server now addr us = (case server_map us addr of None \<Rightarrow> us | Some as \<Rightarrow> fold (disable_one now) as us)"

definition notify_available :: "nat \<Rightarrow> Upstream \<Rightarrow> Upstream" where
  "notify_available a us =
     (case ua_group (addrs us a) of
        None \<Rightarrow> upd_addr a (\<lambda>u. u\<lparr>fail_count := 0\<rparr>) us
      | Some gid \<Rightarrow>
          (let us = (if in_list (addrs us a) then
                       (let us = (if \<not> alive us a then gain_one_server gid a us else us);
                            us = upd_group gid (\<lambda>g. g\<lparr>breaker_list := remove1 a (breaker_list g)\<rparr>) us
                        in upd_addr a (\<lambda>u. u\<lparr>in_list := False\<rparr>) us)
                     else us)
           in upd_addr a (\<lambda>u. u\<lparr>fail_count := 0\<rparr>) us))"

definition enable_server :: "string \<Rightarrow> Upstream \<Rightarrow> Upstream" where
  "enable_server addr us = (case server_map us addr of None \<Rightarrow> us | Some as \<Rightarrow> fold notify_available as us)"

definition notify_unavailable :: "int \<Rightarrow> nat \<Rightarrow> Upstream \<Rightarrow> Upstream" where
  "notify_unavailable now a us =
     (let us' = upd_addr a (\<lambda>u. u\<lparr>fail_count := (fail_count u + 1) mod 2 ^ 32\<rparr>) us in
      case ua_group (addrs us a) of
        None \<Rightarrow> us'
      | Some gid \<Rightarrow>
          (if fail_count (addrs us' a) = max_fails (params (addrs us' a)) \<and> \<not> in_list (addrs us a)
           then enlist now gid a us' else us'))"

text \<open>The body of the loop of \<^verbatim>\<open>check_one_breaker\<close>. \<^verbatim>\<open>max_fails\<close> is not 0.\<close>

definition check_entry :: "int \<Rightarrow> int \<Rightarrow> nat \<Rightarrow> Upstream \<Rightarrow> Upstream" where
  "check_entry now gid a us =
     (if now \<ge> broken_timeout (addrs us a) then
        (let us = (if \<not> alive us a then
                     (let us = upd_addr a (\<lambda>u. u\<lparr>fail_count := max_fails (params u) - 1\<rparr>) us
                      in if ua_group (addrs us a) = Some gid then gain_one_server gid a us else us)
                   else us);
             us = upd_group gid (\<lambda>g. g\<lparr>breaker_list := remove1 a (breaker_list g), nbreak := nbreak g - 1\<rparr>) us
         in upd_addr a (\<lambda>u. u\<lparr>in_list := False\<rparr>) us)
      else us)"

definition check_one_breaker :: "int \<Rightarrow> int \<Rightarrow> Upstream \<Rightarrow> Upstream" where
  "check_one_breaker now gid us =
     (if nbreak (groups us gid) = 0 then us else fold (check_entry now gid) (breaker_list (groups us gid)) us)"

definition check_all_breaker :: "int \<Rightarrow> Upstream \<Rightarrow> Upstream" where
  "check_all_breaker now us = fold (check_one_breaker now) (group_ids us) us"

subsection \<open>Choosing a server\<close>

definition check_get_strong :: "(nat list \<Rightarrow> nat list) \<Rightarrow> nat \<Rightarrow> Upstream \<Rightarrow> nat option \<times> Upstream" where
  "check_get_strong shuf a us =
     (if \<not> alive us a then (if gid_of us a < 0 then (None, us) else get_one shuf (the (ua_group (addrs us a))) us)
      else (Some a, us))"

definition check_get_weak :: "(nat list \<Rightarrow> nat list) \<Rightarrow> nat option \<Rightarrow> Upstream \<Rightarrow> nat option \<times> Upstream" where
  "check_get_weak shuf oa us =
     (case oa of
        None \<Rightarrow> (None, us)
      | Some a \<Rightarrow>
          (if \<not> alive us a \<and> gid_of us a \<ge> 0
           then (case get_one shuf (the (ua_group (addrs us a))) us of (Some b, us) \<Rightarrow> (Some b, us) | (None, us) \<Rightarrow> (Some a, us))
           else (Some a, us)))"

definition is_alive_or_group_alive :: "Upstream \<Rightarrow> nat \<Rightarrow> bool" where
  "is_alive_or_group_alive us a \<longleftrightarrow>
     (gid_of us a \<ge> 0 \<and> nalive (groups us (the (ua_group (addrs us a)))) > 0) \<or> (gid_of us a < 0 \<and> alive us a)"

text \<open>The loop of \<^verbatim>\<open>weighted_random_try_another\<close> over the masters.\<close>

fun weighted_loop :: "Upstream \<Rightarrow> int \<Rightarrow> nat list \<Rightarrow> nat option \<Rightarrow> int \<Rightarrow> nat option" where
  "weighted_loop us x [] ua s = ua"
| "weighted_loop us x (a # as) ua s =
     (if is_alive_or_group_alive us a
      then (if s + weight_of us a > x then Some a else weighted_loop us x as (Some a) (s + weight_of us a))
      else weighted_loop us x as ua s)"

text \<open>The remainder of a number that is not negative has no sign.\<close>

definition weighted_random_try_another :: "(nat list \<Rightarrow> nat list) \<Rightarrow> nat \<Rightarrow> Upstream \<Rightarrow> nat option \<times> Upstream" where
  "weighted_random_try_another shuf rnd us =
     (if available_weight us = 0 then (None, us)
      else check_get_weak shuf (weighted_loop us (int rnd mod \<bar>available_weight us\<bar>) (masters us) None 0) us)"

definition hash_dist :: "32 word \<Rightarrow> 32 word \<Rightarrow> 32 word" where
  "hash_dist h c = min (h - c) (c - h)"

text \<open>The two loops of \<^verbatim>\<open>consistent_hash_select\<close>.\<close>

fun hash_loop :: "32 word \<Rightarrow> nat \<Rightarrow> 32 word list \<Rightarrow> nat option \<times> 32 word \<Rightarrow> nat option \<times> 32 word" where
  "hash_loop h a [] best = best"
| "hash_loop h a (c # cs) best = hash_loop h a cs (if hash_dist h c < snd best then (Some a, hash_dist h c) else best)"

fun ring_loop :: "Upstream \<Rightarrow> 32 word \<Rightarrow> nat list \<Rightarrow> nat option \<times> 32 word \<Rightarrow> nat option \<times> 32 word" where
  "ring_loop us h [] best = best"
| "ring_loop us h (a # as) best =
     ring_loop us h as (if is_alive_or_group_alive us a then hash_loop h a (consistent_hash (addrs us a)) best else best)"

definition consistent_hash_select :: "(nat list \<Rightarrow> nat list) \<Rightarrow> 32 word \<Rightarrow> Upstream \<Rightarrow> nat option \<times> Upstream" where
  "consistent_hash_select shuf h us = check_get_weak shuf (fst (ring_loop us h (masters us) (None, -1))) us"

fun pick_weighted :: "Upstream \<Rightarrow> int \<Rightarrow> nat list \<Rightarrow> int \<Rightarrow> nat" where
  "pick_weighted us x [] s = 0"
| "pick_weighted us x (a # as) s = (if s + weight_of us a > x then 0 else Suc (pick_weighted us x as (s + weight_of us a)))"

definition uri_text :: "string option \<Rightarrow> string" where
  "uri_text s = (case s of None \<Rightarrow> [] | Some t \<Rightarrow> t)"

definition uri_hash :: "(string \<Rightarrow> 32 word) \<Rightarrow> ParsedURI \<Rightarrow> Upstream \<Rightarrow> 32 word" where
  "uri_hash std_hash uri us =
     (let a = uri_text (path uri); b = uri_text (query uri); c = uri_text (fragment uri) in
      case consistent_callback us of Some f \<Rightarrow> f a b c | None \<Rightarrow> std_hash (a @ b @ c))"

definition first_choice :: "nat \<Rightarrow> ParsedURI \<Rightarrow> Upstream \<Rightarrow> nat" where
  "first_choice rnd uri us =
     (let n = length (masters us) in
      if n = 1 then 0
      else case select_callback us of
        Some f \<Rightarrow> unat (f (uri_text (path uri)) (uri_text (query uri)) (uri_text (fragment uri))) mod n
      | None \<Rightarrow>
          (let idx = pick_weighted us (if total_weight us > 0 then int rnd mod total_weight us else 0) (masters us) 0
           in if idx = n then n - 1 else idx))"

record env =
  shuffler :: "nat list \<Rightarrow> nat list"
  rand1 :: nat
  rand2 :: nat
  hasher :: "string \<Rightarrow> 32 word"
  clock :: int

definition try_others :: "env \<Rightarrow> ParsedURI \<Rightarrow> Upstream \<Rightarrow> nat option \<times> Upstream" where
  "try_others e uri us =
     (if select_callback us = None then weighted_random_try_another (shuffler e) (rand2 e) us
      else consistent_hash_select (shuffler e) (uri_hash (hasher e) uri us) us)"

definition upstream_get :: "env \<Rightarrow> ParsedURI \<Rightarrow> Upstream \<Rightarrow> nat option \<times> Upstream" where
  "upstream_get e uri us =
     (let fallback = (\<lambda>(r, us). if r = None then get_one_slave (shuffler e) (-1) us else (r, us)) in
      if is_consistent us
      then fallback (consistent_hash_select (shuffler e) (uri_hash (hasher e) uri us) (check_all_breaker (clock e) us))
      else if masters us = [] then (None, us)
      else
        (let a = masters us ! first_choice (rand1 e) uri us in
         if alive us a then (Some a, us)
         else
           (let us = check_all_breaker (clock e) us;
                (r, us) = check_get_strong (shuffler e) a us
            in fallback (if r = None \<and> try_another us then try_others e uri us else (r, us)))))"

definition set_select_callback :: "upstream_route option \<Rightarrow> Upstream \<Rightarrow> Upstream" where
  "set_select_callback f us = us\<lparr>select_callback := f\<rparr>"

definition set_consistent_mode :: "upstream_route option \<Rightarrow> Upstream \<Rightarrow> Upstream" where
  "set_consistent_mode f us = us\<lparr>is_consistent := True, consistent_callback := f\<rparr>"

definition set_attr :: "bool \<Rightarrow> upstream_route option \<Rightarrow> Upstream \<Rightarrow> Upstream" where
  "set_attr again f us = us\<lparr>try_another := again, consistent_callback := f\<rparr>"

subsection \<open>Invariant\<close>

definition members :: "Upstream \<Rightarrow> int \<Rightarrow> nat set" where
  "members us gid = {a. ua_group (addrs us a) = Some gid}"

text \<open>What a group says of its members: lists, number of live servers, weight and breaker list.\<close>

definition group_lists :: "Upstream \<Rightarrow> int \<Rightarrow> bool" where
  "group_lists us gid \<longleftrightarrow>
     distinct (gmasters (groups us gid)) \<and> set (gmasters (groups us gid)) = {a \<in> members us gid. master us a} \<and>
     distinct (gslaves (groups us gid)) \<and> set (gslaves (groups us gid)) = {a \<in> members us gid. \<not> master us a} \<and>
     gweight (groups us gid) = sum_list (map (weight_of us) (gmasters (groups us gid)))"

definition group_alive :: "Upstream \<Rightarrow> int \<Rightarrow> bool" where
  "group_alive us gid \<longleftrightarrow> nalive (groups us gid) = int (card {a \<in> members us gid. alive us a})"

definition group_breaker :: "Upstream \<Rightarrow> int \<Rightarrow> bool" where
  "group_breaker us gid \<longleftrightarrow>
     distinct (breaker_list (groups us gid)) \<and> int (length (breaker_list (groups us gid))) \<le> nbreak (groups us gid) \<and>
     (\<forall>a \<in> set (breaker_list (groups us gid)). in_list (addrs us a) \<and> ua_group (addrs us a) \<in> {None, Some gid}) \<and>
     (\<forall>a \<in> members us gid. in_list (addrs us a) \<longrightarrow> a \<in> set (breaker_list (groups us gid)))"

definition breakers_disjoint :: "Upstream \<Rightarrow> bool" where
  "breakers_disjoint us \<longleftrightarrow> (\<forall>g \<in> set (group_ids us). \<forall>h \<in> set (group_ids us). g \<noteq> h \<longrightarrow>
     set (breaker_list (groups us g)) \<inter> set (breaker_list (groups us h)) = {})"

text \<open>A registered server is in the breaker list exactly when it is down.\<close>

definition address_ok :: "Upstream \<Rightarrow> nat \<Rightarrow> bool" where
  "address_ok us a \<longleftrightarrow> (\<forall>gid. ua_group (addrs us a) = Some gid \<longrightarrow>
     gid \<in> set (group_ids us) \<and> gid = gid_of us a \<and> 1 \<le> max_fails (params (addrs us a)) \<and> (in_list (addrs us a) \<longleftrightarrow> \<not> alive us a))"

definition masters_ok :: "Upstream \<Rightarrow> bool" where
  "masters_ok us \<longleftrightarrow> distinct (masters us) \<and> set (masters us) = {a. ua_group (addrs us a) \<noteq> None \<and> master us a} \<and>
     total_weight us = sum_list (map (weight_of us) (masters us))"

definition servers_ok :: "Upstream \<Rightarrow> bool" where
  "servers_ok us \<longleftrightarrow>
     (\<forall>a. ua_group (addrs us a) \<noteq> None \<longrightarrow> (\<exists>as. server_map us (address (addrs us a)) = Some as \<and> a \<in> set as)) \<and>
     (\<forall>k as. server_map us k = Some as \<longrightarrow> distinct as \<and> (\<forall>a \<in> set as. address (addrs us a) = k \<and> ua_group (addrs us a) \<noteq> None))"

text \<open>Without groups the available weight is that of the live masters.\<close>

definition available_ok :: "Upstream \<Rightarrow> bool" where
  "available_ok us \<longleftrightarrow> (group_ids us = [-1] \<longrightarrow> available_weight us = sum_list (map (weight_of us) (filter (alive us) (masters us))))"

definition groups_inv :: "Upstream \<Rightarrow> bool" where
  "groups_inv us \<longleftrightarrow> distinct (group_ids us) \<and> -1 \<in> set (group_ids us) \<and>
     (\<forall>gid \<in> set (group_ids us). group_lists us gid \<and> group_alive us gid \<and> group_breaker us gid) \<and>
     breakers_disjoint us \<and> (\<forall>a. address_ok us a)"

definition upstream_inv :: "Upstream \<Rightarrow> bool" where
  "upstream_inv us \<longleftrightarrow> groups_inv us \<and> masters_ok us \<and> servers_ok us \<and> available_ok us"

lemma upstream_invI:
  assumes "distinct (group_ids us)" "-1 \<in> set (group_ids us)"
    and "\<And>gid. gid \<in> set (group_ids us) \<Longrightarrow> group_lists us gid" "\<And>gid. gid \<in> set (group_ids us) \<Longrightarrow> group_alive us gid"
      "\<And>gid. gid \<in> set (group_ids us) \<Longrightarrow> group_breaker us gid"
    and "breakers_disjoint us" "\<And>a. address_ok us a" "masters_ok us" "servers_ok us" "available_ok us"
  shows "upstream_inv us"
  using assms by (simp add: upstream_inv_def groups_inv_def)

lemma upstream_invD:
  assumes "upstream_inv us"
  shows "distinct (group_ids us)" "-1 \<in> set (group_ids us)" "\<And>gid. gid \<in> set (group_ids us) \<Longrightarrow> group_lists us gid"
    "\<And>gid. gid \<in> set (group_ids us) \<Longrightarrow> group_alive us gid" "\<And>gid. gid \<in> set (group_ids us) \<Longrightarrow> group_breaker us gid"
    "breakers_disjoint us" "\<And>a. address_ok us a" "masters_ok us" "servers_ok us" "available_ok us"
  using assms by (simp_all add: upstream_inv_def groups_inv_def)

named_theorems us_simps

lemma upd_sel [us_simps]:
  "addrs (upd_addr a f us) = (addrs us)(a := f (addrs us a))" "groups (upd_addr a f us) = groups us"
  "group_ids (upd_addr a f us) = group_ids us" "masters (upd_addr a f us) = masters us" "server_map (upd_addr a f us) = server_map us"
  "total_weight (upd_addr a f us) = total_weight us" "available_weight (upd_addr a f us) = available_weight us"
  "addrs (upd_group g h us) = addrs us" "groups (upd_group g h us) = (groups us)(g := h (groups us g))"
  "group_ids (upd_group g h us) = group_ids us" "masters (upd_group g h us) = masters us" "server_map (upd_group g h us) = server_map us"
  "total_weight (upd_group g h us) = total_weight us" "available_weight (upd_group g h us) = available_weight us"
  by (simp_all add: upd_addr_def upd_group_def)

lemma lose_sel [us_simps]:
  "addrs (lose_one_server g a us) = addrs us"
  "groups (lose_one_server g a us) = (groups us)(g := (groups us g)\<lparr>nalive := nalive (groups us g) - 1\<rparr>)"
  "group_ids (lose_one_server g a us) = group_ids us" "masters (lose_one_server g a us) = masters us"
  "server_map (lose_one_server g a us) = server_map us" "total_weight (lose_one_server g a us) = total_weight us"
  by (simp_all add: lose_one_server_def Let_def us_simps)

lemma gain_sel [us_simps]:
  "addrs (gain_one_server g a us) = addrs us"
  "groups (gain_one_server g a us) = (groups us)(g := (groups us g)\<lparr>nalive := nalive (groups us g) + 1\<rparr>)"
  "group_ids (gain_one_server g a us) = group_ids us" "masters (gain_one_server g a us) = masters us"
  "server_map (gain_one_server g a us) = server_map us" "total_weight (gain_one_server g a us) = total_weight us"
  by (simp_all add: gain_one_server_def Let_def us_simps)

lemma avail_change:
  "gid_of us a < 0 \<Longrightarrow> available_weight (lose_one_server g a us) = available_weight us - (if master us a then weight_of us a else 0)"
  "gid_of us a < 0 \<Longrightarrow> available_weight (gain_one_server g a us) = available_weight us + (if master us a then weight_of us a else 0)"
  by (simp_all add: lose_one_server_def gain_one_server_def Let_def us_simps)

lemma alive_upd [us_simps]:
  "alive (upd_group g h us) = alive us" "alive (lose_one_server g a us) = alive us" "alive (gain_one_server g a us) = alive us"
  "members (upd_group g h us) = members us" "members (lose_one_server g a us) = members us" "members (gain_one_server g a us) = members us"
  by (auto simp: alive_def members_def us_simps fun_eq_iff)

subsection \<open>A server changes its state\<close>

text \<open>\<open>us'\<close> differs from \<open>us\<close> in the failure count and breaker entry of \<open>a\<close> and in the counters and the
  breaker list of the group \<open>gid\<close>.\<close>

definition same_servers :: "nat \<Rightarrow> int \<Rightarrow> Upstream \<Rightarrow> Upstream \<Rightarrow> bool" where
  "same_servers a gid us us' \<longleftrightarrow>
     (\<forall>b. b \<noteq> a \<longrightarrow> addrs us' b = addrs us b) \<and> (\<forall>g. g \<noteq> gid \<longrightarrow> groups us' g = groups us g) \<and>
     ua_group (addrs us' a) = ua_group (addrs us a) \<and> params (addrs us' a) = params (addrs us a) \<and> address (addrs us' a) = address (addrs us a) \<and>
     gmasters (groups us' gid) = gmasters (groups us gid) \<and> gslaves (groups us' gid) = gslaves (groups us gid) \<and>
     gweight (groups us' gid) = gweight (groups us gid) \<and>
     group_ids us' = group_ids us \<and> masters us' = masters us \<and> server_map us' = server_map us \<and> total_weight us' = total_weight us"

lemma same_address:
  assumes "same_servers a gid us us'"
  shows "params (addrs us' b) = params (addrs us b)" "ua_group (addrs us' b) = ua_group (addrs us b)" "address (addrs us' b) = address (addrs us b)"
  using assms by (cases "b = a"; simp add: same_servers_def)+

lemma same_members: "same_servers a gid us us' \<Longrightarrow> members us' g = members us g"
  by (simp add: members_def same_address)

lemma same_alive: "same_servers a gid us us' \<Longrightarrow> b \<noteq> a \<Longrightarrow> alive us' b = alive us b"
  by (simp add: alive_def same_servers_def)

lemma same_keeps:
  assumes s: "same_servers a gid us us'"
  shows "group_lists us g \<Longrightarrow> group_lists us' g" "masters_ok us \<Longrightarrow> masters_ok us'" "servers_ok us \<Longrightarrow> servers_ok us'"
proof -
  show "group_lists us g \<Longrightarrow> group_lists us' g"
    using s by (cases "g = gid") (auto simp: group_lists_def same_members [OF s] same_address [OF s] same_servers_def)
qed (use s in \<open>simp_all add: masters_ok_def servers_ok_def same_address [OF s] same_servers_def\<close>)

lemma members_finite: "group_lists us gid \<Longrightarrow> finite (members us gid)"
proof -
  assume g: "group_lists us gid"
  have "members us gid = set (gmasters (groups us gid)) \<union> set (gslaves (groups us gid))" using g by (auto simp: group_lists_def)
  then show ?thesis by simp
qed

lemma sum_filter_flip:
  assumes "distinct xs" and pq: "\<And>b. b \<noteq> a \<Longrightarrow> P b = Q b" "P a" "\<not> Q a"
  shows "sum_list (map f (filter P xs)) = sum_list (map f (filter Q xs)) + (if a \<in> set xs then f a else (0::int))"
  using assms(1)
proof (induction xs)
  case (Cons x xs)
  then show ?case using pq by (cases "x = a") auto
qed simp

lemma card_flip: "finite A \<Longrightarrow> B = (if p then insert a A else A - {a}) \<Longrightarrow> int (card B) = int (card A) + (of_bool p - of_bool (a \<in> A))"
  using card_gt_0_iff [of A] by (cases "a \<in> A") (auto simp: insert_absorb of_nat_diff)

lemma flip_alive:
  assumes s: "same_servers a gid us us'" and m: "ua_group (addrs us a) \<in> {None, Some gid}"
    and al: "nalive (groups us' gid) - nalive (groups us gid) =
      (if ua_group (addrs us a) = None then 0 else of_bool (alive us' a) - of_bool (alive us a))"
    and h: "group_alive us h" "group_lists us h"
  shows "group_alive us' h"
proof (cases "h = gid \<and> ua_group (addrs us a) = Some gid")
  case False
  then have "a \<notin> members us h" using m by (auto simp: members_def)
  then have "{b \<in> members us' h. alive us' b} = {b \<in> members us h. alive us b}"
    unfolding same_members [OF s] using same_alive [OF s] by (intro Collect_cong) metis
  moreover have "nalive (groups us' h) = nalive (groups us h)" using False al s m by (cases "h = gid") (auto simp: same_servers_def)
  ultimately show ?thesis using h by (simp add: group_alive_def)
next
  case True
  let ?A = "{b \<in> members us h. alive us b}" and ?B = "{b \<in> members us' h. alive us' b}"
  have fin: "finite ?A" using members_finite [OF h(2)] by simp
  have mem: "a \<in> members us h" using True by (simp add: members_def)
  have "?B = (if alive us' a then insert a ?A else ?A - {a})"
  proof (rule set_eqI)
    show "b \<in> ?B \<longleftrightarrow> b \<in> (if alive us' a then insert a ?A else ?A - {a})" for b
      using same_alive [OF s, of b] same_members [OF s] mem by (cases "b = a") auto
  qed
  from card_flip [OF fin this] have "int (card ?B) = int (card ?A) + (of_bool (alive us' a) - of_bool (alive us a))"
    using mem by simp
  then show ?thesis using h al True by (simp add: group_alive_def)
qed

lemma flip_disjoint:
  assumes s: "same_servers a gid us us'" and d: "breakers_disjoint us" and g: "gid \<in> set (group_ids us)"
    and br: "set (breaker_list (groups us' gid)) - {a} = set (breaker_list (groups us gid)) - {a}"
    and ba: "\<And>h. h \<in> set (group_ids us) \<Longrightarrow> h \<noteq> gid \<Longrightarrow> a \<notin> set (breaker_list (groups us h))"
  shows "breakers_disjoint us'"
proof -
  have sub: "set (breaker_list (groups us' gid)) \<inter> set (breaker_list (groups us h)) = {}" if "h \<in> set (group_ids us)" "h \<noteq> gid" for h
  proof -
    have "set (breaker_list (groups us' gid)) \<subseteq> insert a (set (breaker_list (groups us gid)))" using br by blast
    moreover have "set (breaker_list (groups us gid)) \<inter> set (breaker_list (groups us h)) = {}"
      using d g that by (auto simp: breakers_disjoint_def)
    ultimately show ?thesis using ba [OF that] by blast
  qed
  have gr: "groups us' h = groups us h" if "h \<noteq> gid" for h using that s by (simp add: same_servers_def)
  have "set (breaker_list (groups us' h)) \<inter> set (breaker_list (groups us' k)) = {}"
    if "h \<in> set (group_ids us)" "k \<in> set (group_ids us)" "h \<noteq> k" for h k
  proof (cases "h = gid \<or> k = gid")
    case True
    then show ?thesis using sub gr that by (metis Int_commute)
  next
    case False
    then show ?thesis using gr d that by (simp add: breakers_disjoint_def)
  qed
  then show ?thesis using s by (simp add: breakers_disjoint_def same_servers_def)
qed

lemma flip_available:
  assumes s: "same_servers a gid us us'" and m: "masters_ok us" and o: "available_ok us"
    and av: "group_ids us = [-1] \<Longrightarrow> available_weight us' - available_weight us =
      (if ua_group (addrs us a) = None \<or> \<not> master us a then 0 else (of_bool (alive us' a) - of_bool (alive us a)) * weight_of us a)"
  shows "available_ok us'"
proof (cases "group_ids us = [-1] \<and> a \<in> set (masters us) \<and> alive us' a \<noteq> alive us a")
  case True
  then have "ua_group (addrs us a) \<noteq> None" "master us a" "distinct (masters us)" using m by (auto simp: masters_ok_def)
  then show ?thesis
    using True o av s same_alive [OF s] same_address(1) [OF s] sum_filter_flip [of "masters us" a "alive us" "alive us'" "weight_of us"]
      sum_filter_flip [of "masters us" a "alive us'" "alive us" "weight_of us"]
    by (cases "alive us a") (auto simp: available_ok_def same_servers_def)
next
  case False
  then have "filter (alive us') (masters us) = filter (alive us) (masters us) \<or> group_ids us \<noteq> [-1]"
    using same_alive [OF s] by (intro disjCI filter_cong refl) metis
  moreover have "available_weight us' = available_weight us \<or> group_ids us \<noteq> [-1]"
    using False av m by (auto simp: masters_ok_def split: if_splits)
  ultimately show ?thesis using o s same_address(1) [OF s] by (auto simp: available_ok_def same_servers_def)
qed

lemma flip_breaker:
  assumes s: "same_servers a gid us us'" and m: "ua_group (addrs us a) \<in> {None, Some gid}" and "h \<noteq> gid"
    and "a \<notin> set (breaker_list (groups us h))" "group_breaker us h"
  shows "group_breaker us' h"
proof -
  have "a \<notin> members us h" using m assms(3) by (auto simp: members_def)
  moreover have "groups us' h = groups us h" using s assms(3) by (simp add: same_servers_def)
  moreover have "b \<noteq> a \<Longrightarrow> addrs us' b = addrs us b" for b using s by (simp add: same_servers_def)
  ultimately show ?thesis using assms(4,5) unfolding group_breaker_def same_members [OF s] by metis
qed

text \<open>The common part: only \<open>a\<close> changes, and it does not touch other groups or their breaker lists.\<close>

lemma flip_inv:
  assumes inv: "upstream_inv us" and s: "same_servers a gid us us'" and m: "ua_group (addrs us a) \<in> {None, Some gid}"
    and g: "gid \<in> set (group_ids us)"
    and al: "nalive (groups us' gid) - nalive (groups us gid) =
      (if ua_group (addrs us a) = None then 0 else of_bool (alive us' a) - of_bool (alive us a))"
    and il: "ua_group (addrs us a) \<noteq> None \<Longrightarrow> in_list (addrs us' a) \<longleftrightarrow> \<not> alive us' a"
    and br: "group_breaker us' gid" "set (breaker_list (groups us' gid)) - {a} = set (breaker_list (groups us gid)) - {a}"
    and ba: "\<And>h. h \<in> set (group_ids us) \<Longrightarrow> h \<noteq> gid \<Longrightarrow> a \<notin> set (breaker_list (groups us h))"
    and av: "group_ids us = [-1] \<Longrightarrow> available_weight us' - available_weight us =
      (if ua_group (addrs us a) = None \<or> \<not> master us a then 0 else (of_bool (alive us' a) - of_bool (alive us a)) * weight_of us a)"
  shows "upstream_inv us'"
proof (rule upstream_invI)
  note D = upstream_invD [OF inv]
  have ids: "group_ids us' = group_ids us" using s by (simp add: same_servers_def)
  show "distinct (group_ids us')" "-1 \<in> set (group_ids us')" using D(1,2) ids by simp_all
  show "masters_ok us'" "servers_ok us'" using same_keeps(2,3) [OF s] D(8,9) by blast+
  show "breakers_disjoint us'" by (rule flip_disjoint [OF s D(6) g br(2) ba])
  show "available_ok us'" by (rule flip_available [OF s D(8,10) av])
  show "address_ok us' b" for b
    using D(7) [of b] il same_alive [OF s, of b] s same_address [OF s, of b] by (cases "b = a") (auto simp: address_ok_def same_servers_def)
  fix h assume h: "h \<in> set (group_ids us')"
  show "group_lists us' h" using same_keeps(1) [OF s] D(3) h ids by simp
  show "group_alive us' h" by (rule flip_alive [OF s m al D(4,3)]) (use h ids in simp_all)
  show "group_breaker us' h" using flip_breaker [OF s m _ ba D(5)] br(1) h ids by (cases "h = gid") simp_all
qed

lemma registered:
  assumes "upstream_inv us" and "ua_group (addrs us a) = Some gid"
  shows "gid \<in> set (group_ids us)" "gid = gid_of us a" "1 \<le> max_fails (params (addrs us a))" "in_list (addrs us a) \<longleftrightarrow> \<not> alive us a"
    "in_list (addrs us a) \<longleftrightarrow> a \<in> set (breaker_list (groups us gid))"
    "\<And>h. h \<in> set (group_ids us) \<Longrightarrow> h \<noteq> gid \<Longrightarrow> a \<notin> set (breaker_list (groups us h))"
proof -
  show r: "gid \<in> set (group_ids us)" "gid = gid_of us a" "1 \<le> max_fails (params (addrs us a))" "in_list (addrs us a) \<longleftrightarrow> \<not> alive us a"
    using upstream_invD(7) [OF assms(1), of a] assms(2) by (auto simp: address_ok_def)
  show "in_list (addrs us a) \<longleftrightarrow> a \<in> set (breaker_list (groups us gid))"
    using upstream_invD(5) [OF assms(1) r(1)] assms(2) by (auto simp: group_breaker_def members_def)
  show "a \<notin> set (breaker_list (groups us h))" if "h \<in> set (group_ids us)" "h \<noteq> gid" for h
    using upstream_invD(5) [OF assms(1) that(1)] assms(2) that(2) by (auto simp: group_breaker_def)
qed

text \<open>A live server fails.\<close>

lemma enlist_inv:
  assumes inv: "upstream_inv us" and g: "ua_group (addrs us a) = Some gid" and al: "alive us a" and k: "max_fails (params (addrs us a)) \<le> k"
  shows "upstream_inv (enlist now gid a (upd_addr a (\<lambda>u. u\<lparr>fail_count := k\<rparr>) us))" (is "upstream_inv ?us")
proof -
  note R = registered [OF inv g]
  have dead: "\<not> alive ?us a" using k by (simp add: alive_def enlist_def us_simps)
  have nl: "\<not> in_list (addrs us a)" using R(4) al by simp
  show ?thesis
  proof (rule flip_inv [OF inv])
    show "same_servers a gid us ?us" by (simp add: same_servers_def enlist_def us_simps)
    show "group_breaker ?us gid" using upstream_invD(5) [OF inv R(1)] nl R(5) g
      by (auto simp: group_breaker_def enlist_def us_simps members_def)
    show "available_weight ?us - available_weight us =
        (if ua_group (addrs us a) = None \<or> \<not> master us a then 0 else (of_bool (alive ?us a) - of_bool (alive us a)) * weight_of us a)"
      if "group_ids us = [-1]"
    proof -
      have "gid_of us a < 0" using that R(1,2) by simp
      then show ?thesis using dead al g by (simp add: enlist_def avail_change us_simps)
    qed
  qed (use R g dead al in \<open>auto simp: enlist_def us_simps\<close>)
qed

lemma home:
  assumes "upstream_inv us"
  obtains gid where "gid \<in> set (group_ids us)" "ua_group (addrs us a) \<in> {None, Some gid}"
    "\<forall>h \<in> set (group_ids us). h \<noteq> gid \<longrightarrow> a \<notin> set (breaker_list (groups us h))"
proof (cases "ua_group (addrs us a)")
  case (Some gid)
  show thesis using that [of gid] registered(1,6) [OF assms Some] Some by simp
next
  case None
  show thesis
  proof (cases "\<exists>h \<in> set (group_ids us). a \<in> set (breaker_list (groups us h))")
    case True
    then obtain h where "h \<in> set (group_ids us)" "a \<in> set (breaker_list (groups us h))" by blast
    then show thesis using that [of h] None upstream_invD(6) [OF assms] by (auto simp: breakers_disjoint_def)
  qed (use that [of "-1"] upstream_invD(2) [OF assms] None in auto)
qed

text \<open>The failure count changes, but not whether the server is down.\<close>

lemma fail_inv:
  assumes inv: "upstream_inv us" and al: "ua_group (addrs us a) \<noteq> None \<Longrightarrow> (k < max_fails (params (addrs us a))) = alive us a"
  shows "upstream_inv (upd_addr a (\<lambda>u. u\<lparr>fail_count := k\<rparr>) us)" (is "upstream_inv ?us")
proof -
  from home [OF inv, of a] obtain gid where g: "gid \<in> set (group_ids us)" "ua_group (addrs us a) \<in> {None, Some gid}"
    "\<forall>h \<in> set (group_ids us). h \<noteq> gid \<longrightarrow> a \<notin> set (breaker_list (groups us h))" .
  have al': "ua_group (addrs us a) \<noteq> None \<Longrightarrow> alive ?us a = alive us a" using al by (simp add: alive_def us_simps)
  show ?thesis
  proof (rule flip_inv [OF inv _ g(2,1)])
    show "same_servers a gid us ?us" by (simp add: same_servers_def us_simps)
    show "group_breaker ?us gid" using upstream_invD(5) [OF inv g(1)] by (auto simp: group_breaker_def us_simps members_def)
    show "ua_group (addrs us a) \<noteq> None \<Longrightarrow> in_list (addrs ?us a) \<longleftrightarrow> \<not> alive ?us a"
      using al' registered(4) [OF inv] by (auto simp: us_simps)
  qed (use g(3) al' in \<open>auto simp: us_simps\<close>)
qed

lemma entry_commute: "(u :: UpstreamAddress)\<lparr>in_list := x, fail_count := k\<rparr> = u\<lparr>fail_count := k, in_list := x\<rparr>"
  by simp

lemma length_remove1_int: "a \<in> set xs \<Longrightarrow> int (length (remove1 a xs)) = int (length xs) - 1"
  by (induction xs) auto

text \<open>A server that was down is given another chance, or leaves the breaker list after it was removed.\<close>

lemma revive_inv:
  assumes inv: "upstream_inv us" and g: "gid \<in> set (group_ids us)" "ua_group (addrs us a) \<in> {None, Some gid}"
    and b: "a \<in> set (breaker_list (groups us gid))" and k: "ua_group (addrs us a) \<noteq> None \<Longrightarrow> k < max_fails (params (addrs us a))"
    and n: "nb \<le> nbreak (groups us gid)" "nbreak (groups us gid) - 1 \<le> nb"
    and us': "us' = upd_addr a (\<lambda>u. u\<lparr>fail_count := k, in_list := False\<rparr>)
      (upd_group gid (\<lambda>g. g\<lparr>breaker_list := remove1 a (breaker_list g), nbreak := nb\<rparr>)
        (if ua_group (addrs us a) = Some gid then gain_one_server gid a us else us))"
  shows "upstream_inv us'"
proof -
  have dead: "ua_group (addrs us a) = Some gid \<Longrightarrow> \<not> alive us a" using registered(4,5) [OF inv] b by auto
  have br: "group_breaker us gid" by (rule upstream_invD(5) [OF inv g(1)])
  show ?thesis
  proof (rule flip_inv [OF inv _ g(2,1)])
    show "same_servers a gid us us'" by (auto simp: us' same_servers_def us_simps)
    have "int (length (remove1 a (breaker_list (groups us gid)))) = int (length (breaker_list (groups us gid))) - 1"
      by (rule length_remove1_int [OF b])
    then show "group_breaker us' gid" using br n b by (auto simp: us' group_breaker_def us_simps members_def)
    show "set (breaker_list (groups us' gid)) - {a} = set (breaker_list (groups us gid)) - {a}"
      using br by (auto simp: us' us_simps group_breaker_def)
    show "a \<notin> set (breaker_list (groups us h))" if "h \<in> set (group_ids us)" "h \<noteq> gid" for h
      using upstream_invD(6) [OF inv] that g(1) b by (auto simp: breakers_disjoint_def)
    show "available_weight us' - available_weight us =
        (if ua_group (addrs us a) = None \<or> \<not> master us a then 0 else (of_bool (alive us' a) - of_bool (alive us a)) * weight_of us a)"
      if "group_ids us = [-1]"
    proof (cases "ua_group (addrs us a) = Some gid")
      case True
      then have "gid_of us a < 0" using registered(1,2) [OF inv True] that by simp
      then show ?thesis using True dead k by (simp add: us' avail_change us_simps alive_def)
    next
      case False
      then show ?thesis using g(2) by (auto simp: us' us_simps)
    qed
  qed (use g dead k in \<open>auto simp: us' us_simps alive_def\<close>)
qed

subsection \<open>Notifications and the breaker keep the invariant\<close>

lemma upd_addr_twice: "upd_addr a f (upd_addr a h us) = upd_addr a (\<lambda>u. f (h u)) us"
  by (simp add: upd_addr_def)

lemma upd_commute:
  "upd_group g h (upd_addr a f us) = upd_addr a f (upd_group g h us)"
  "(\<And>u. params (f u) = params u) \<Longrightarrow> gain_one_server g a (upd_addr a f us) = upd_addr a f (gain_one_server g a us)"
  by (simp_all add: upd_addr_def upd_group_def gain_one_server_def Let_def)

lemma disable_one_inv:
  assumes "upstream_inv us"
  shows "upstream_inv (disable_one now a us)"
proof -
  let ?k = "max_fails (params (addrs us a))"
  have e: "upd_addr a (\<lambda>u. u\<lparr>fail_count := max_fails (params u)\<rparr>) us = upd_addr a (\<lambda>u. u\<lparr>fail_count := ?k\<rparr>) us" by (simp add: upd_addr_def)
  show ?thesis
  proof (cases "ua_group (addrs us a)")
    case None
    then show ?thesis using fail_inv [OF assms, of a ?k] by (simp add: disable_one_def Let_def e)
  next
    case (Some gid)
    note R = registered(4) [OF assms Some]
    show ?thesis
    proof (cases "in_list (addrs us a)")
      case True
      then show ?thesis using fail_inv [OF assms, of a ?k] Some R by (simp add: disable_one_def Let_def e alive_def)
    next
      case False
      then show ?thesis using enlist_inv [OF assms Some _ order_refl] Some R by (simp add: disable_one_def Let_def e)
    qed
  qed
qed

lemma notify_unavailable_inv:
  assumes inv: "upstream_inv us" and k: "fail_count (addrs us a) + 1 < 2 ^ 32"
  shows "upstream_inv (notify_unavailable now a us)"
proof -
  let ?k = "fail_count (addrs us a) + 1"
  have e: "upd_addr a (\<lambda>u. u\<lparr>fail_count := (fail_count u + 1) mod 2 ^ 32\<rparr>) us = upd_addr a (\<lambda>u. u\<lparr>fail_count := ?k\<rparr>) us"
    using k by (simp add: upd_addr_def)
  show ?thesis
  proof (cases "ua_group (addrs us a)")
    case None
    then show ?thesis using fail_inv [OF inv, of a ?k] unfolding notify_unavailable_def Let_def e by simp
  next
    case (Some gid)
    note R = registered(3,4) [OF inv Some]
    show ?thesis
    proof (cases "?k = max_fails (params (addrs us a)) \<and> \<not> in_list (addrs us a)")
      case True
      then show ?thesis using enlist_inv [OF inv Some, of ?k now] Some R unfolding notify_unavailable_def Let_def e by (simp add: us_simps)
    next
      case False
      then have "(?k < max_fails (params (addrs us a))) = alive us a" using R by (auto simp: alive_def)
      then show ?thesis using fail_inv [OF inv, of a ?k] False Some unfolding notify_unavailable_def Let_def e by (auto simp: us_simps)
    qed
  qed
qed

lemma notify_available_inv:
  assumes inv: "upstream_inv us"
  shows "upstream_inv (notify_available a us)"
proof (cases "ua_group (addrs us a)")
  case None
  then show ?thesis using fail_inv [OF inv, of a 0] by (simp add: notify_available_def)
next
  case (Some gid)
  note R = registered [OF inv Some]
  show ?thesis
  proof (cases "in_list (addrs us a)")
    case False
    then show ?thesis using fail_inv [OF inv, of a 0] Some R(3,4) by (simp add: notify_available_def alive_def)
  next
    case True
    have "upd_addr a (\<lambda>u. u\<lparr>fail_count := 0\<rparr>) (upd_addr a (\<lambda>u. u\<lparr>in_list := False\<rparr>) us1) = upd_addr a (\<lambda>u. u\<lparr>fail_count := 0, in_list := False\<rparr>) us1" for us1
      by (simp add: upd_addr_twice entry_commute)
    moreover have "upd_group gid (\<lambda>g. g\<lparr>breaker_list := remove1 a (breaker_list g)\<rparr>) (gain_one_server gid a us) =
        upd_group gid (\<lambda>g. g\<lparr>breaker_list := remove1 a (breaker_list g), nbreak := nbreak (groups us gid)\<rparr>) (gain_one_server gid a us)"
      by (simp add: upd_group_def us_simps)
    ultimately show ?thesis
      using revive_inv [OF inv R(1), of a 0 "nbreak (groups us gid)"] True R Some by (simp add: notify_available_def Let_def)
  qed
qed

lemma check_entry_inv:
  assumes inv: "upstream_inv us" and g: "gid \<in> set (group_ids us)" and b: "a \<in> set (breaker_list (groups us gid))"
  shows "upstream_inv (check_entry now gid a us)"
proof (cases "now \<ge> broken_timeout (addrs us a)")
  case True
  have m: "ua_group (addrs us a) \<in> {None, Some gid}" using upstream_invD(5) [OF inv g] b by (simp add: group_breaker_def)
  define k where "k = (if alive us a then fail_count (addrs us a) else max_fails (params (addrs us a)) - 1)"
  let ?us = "upd_addr a (\<lambda>u. u\<lparr>fail_count := k, in_list := False\<rparr>)
      (upd_group gid (\<lambda>g. g\<lparr>breaker_list := remove1 a (breaker_list g), nbreak := nbreak (groups us gid) - 1\<rparr>)
        (if ua_group (addrs us a) = Some gid then gain_one_server gid a us else us))"
  have k: "ua_group (addrs us a) \<noteq> None \<Longrightarrow> k < max_fails (params (addrs us a))" using registered(3) [OF inv] by (fastforce simp: k_def alive_def)
  have al: "ua_group (addrs us a) = Some gid \<Longrightarrow> \<not> alive us a" using registered(4,5) [OF inv] b by auto
  have "check_entry now gid a us = ?us"
  proof (cases "alive us a")
    case alive: True
    then have "ua_group (addrs us a) = None" using al m by auto
    then show ?thesis using alive True by (simp add: check_entry_def Let_def k_def upd_addr_def upd_group_def)
  next
    case False
    have "upd_addr a (\<lambda>u. u\<lparr>fail_count := max_fails (params u) - 1\<rparr>) us1 = upd_addr a (\<lambda>u. u\<lparr>fail_count := k\<rparr>) us1"
      if "addrs us1 a = addrs us a" for us1 using that False by (simp add: upd_addr_def k_def)
    moreover have "upd_group gid (\<lambda>g. g\<lparr>breaker_list := remove1 a (breaker_list g), nbreak := nbreak g - 1\<rparr>) us1 =
        upd_group gid (\<lambda>g. g\<lparr>breaker_list := remove1 a (breaker_list g), nbreak := nbreak (groups us gid) - 1\<rparr>) us1"
      if "nbreak (groups us1 gid) = nbreak (groups us gid)" for us1 using that by (simp add: upd_group_def)
    ultimately show ?thesis using False True
      by (auto simp: check_entry_def Let_def upd_commute upd_addr_twice us_simps)
  qed
  then show ?thesis using revive_inv [OF inv g m b k, of "nbreak (groups us gid) - 1"] by simp
qed (use inv in \<open>simp add: check_entry_def\<close>)

lemma check_entry_sel:
  "group_ids (check_entry now gid a us) = group_ids us"
  "b \<noteq> a \<Longrightarrow> b \<in> set (breaker_list (groups (check_entry now gid a us) gid)) \<longleftrightarrow> b \<in> set (breaker_list (groups us gid))"
  by (auto simp: check_entry_def Let_def us_simps)

lemma check_entries_inv:
  "upstream_inv us \<Longrightarrow> gid \<in> set (group_ids us) \<Longrightarrow> distinct as \<Longrightarrow> set as \<subseteq> set (breaker_list (groups us gid)) \<Longrightarrow>
   upstream_inv (fold (check_entry now gid) as us) \<and> group_ids (fold (check_entry now gid) as us) = group_ids us"
proof (induction as arbitrary: us)
  case (Cons a as)
  then have "upstream_inv (check_entry now gid a us)" by (simp add: check_entry_inv)
  moreover have "set as \<subseteq> set (breaker_list (groups (check_entry now gid a us) gid))"
  proof
    fix b assume "b \<in> set as"
    then show "b \<in> set (breaker_list (groups (check_entry now gid a us) gid))"
      using Cons.prems(3,4) check_entry_sel(2) [of b a now gid us] by auto
  qed
  ultimately show ?case using Cons.IH Cons.prems by (simp add: check_entry_sel(1))
qed simp

lemma check_one_inv:
  "upstream_inv us \<Longrightarrow> gid \<in> set (group_ids us) \<Longrightarrow>
   upstream_inv (check_one_breaker now gid us) \<and> group_ids (check_one_breaker now gid us) = group_ids us"
  using check_entries_inv upstream_invD(5) by (simp add: check_one_breaker_def group_breaker_def)

lemma check_groups_inv:
  "upstream_inv us \<Longrightarrow> set gs \<subseteq> set (group_ids us) \<Longrightarrow>
   upstream_inv (fold (check_one_breaker now) gs us) \<and> group_ids (fold (check_one_breaker now) gs us) = group_ids us"
  by (induction gs arbitrary: us) (simp_all add: check_one_inv)

lemma check_all_inv: "upstream_inv us \<Longrightarrow> upstream_inv (check_all_breaker now us)"
  by (simp add: check_all_breaker_def check_groups_inv)

lemma disable_server_inv: "upstream_inv us \<Longrightarrow> upstream_inv (disable_server now addr us)"
proof -
  have "upstream_inv us \<Longrightarrow> upstream_inv (fold (disable_one now) as us)" for as us
    by (induction as arbitrary: us) (simp_all add: disable_one_inv)
  then show "upstream_inv us \<Longrightarrow> ?thesis" by (simp add: disable_server_def split: option.split)
qed

lemma enable_server_inv: "upstream_inv us \<Longrightarrow> upstream_inv (enable_server addr us)"
proof -
  have "upstream_inv us \<Longrightarrow> upstream_inv (fold notify_available as us)" for as us
    by (induction as arbitrary: us) (simp_all add: notify_available_inv)
  then show "upstream_inv us \<Longrightarrow> ?thesis" by (simp add: enable_server_def split: option.split)
qed

subsection \<open>Adding a server\<close>

definition fresh :: "nat \<Rightarrow> Upstream \<Rightarrow> bool" where
  "fresh a us \<longleftrightarrow> ua_group (addrs us a) = None \<and> \<not> in_list (addrs us a) \<and> alive us a \<and>
     (\<forall>h \<in> set (group_ids us). a \<notin> set (breaker_list (groups us h)))"

lemma find_group_sel [us_simps]:
  "addrs (find_group gid us) = addrs us" "masters (find_group gid us) = masters us" "server_map (find_group gid us) = server_map us"
  "total_weight (find_group gid us) = total_weight us" "available_weight (find_group gid us) = available_weight us"
  "set (group_ids (find_group gid us)) = insert gid (set (group_ids us))"
  "distinct (group_ids us) \<Longrightarrow> distinct (group_ids (find_group gid us))"
  "groups (find_group gid us) = (if gid \<in> set (group_ids us) then groups us else (groups us)(gid := new_group))"
  by (auto simp: find_group_def distinct_insort set_insort_key)

lemma find_group_inv:
  assumes "upstream_inv us"
  shows "upstream_inv (find_group gid us)"
proof (cases "gid \<in> set (group_ids us)")
  case False
  note D = upstream_invD [OF assms]
  let ?us = "find_group gid us"
  have em: "members us gid = {}" using registered(1) [OF assms] False by (auto simp: members_def)
  have mem: "members ?us = members us" "alive ?us = alive us" by (auto simp: members_def us_simps alive_def fun_eq_iff)
  have gr: "groups ?us h = groups us h" if "h \<in> set (group_ids us)" for h using that False by (auto simp: us_simps)
  have gn: "groups ?us gid = new_group" using False by (simp add: us_simps)
  note sel = find_group_sel(1-6)
  show ?thesis
  proof (rule upstream_invI)
    show "distinct (group_ids ?us)" "-1 \<in> set (group_ids ?us)" using D(1,2) by (simp_all add: us_simps)
    show "group_lists ?us h" "group_alive ?us h" "group_breaker ?us h" if "h \<in> set (group_ids ?us)" for h
      using that D(3-5) [of h] gr [of h] em gn by (auto simp: group_lists_def group_alive_def group_breaker_def mem sel new_group_def)
    have bl: "breaker_list (groups ?us h) = (if h = gid then [] else breaker_list (groups us h))" for h
      using False by (simp add: us_simps new_group_def)
    then show "breakers_disjoint ?us" using D(6) by (auto simp: breakers_disjoint_def sel)
    show "address_ok ?us a" for a using D(7) [of a] by (auto simp: address_ok_def sel mem)
    show "masters_ok ?us" "servers_ok ?us" using D(8,9) by (simp_all add: masters_ok_def servers_ok_def sel)
    have "set (group_ids ?us) \<noteq> set [-1]" using D(2) False by (auto simp: sel)
    then have "group_ids ?us \<noteq> [-1]" by metis
    then show "available_ok ?us" by (simp add: available_ok_def)
  qed
qed (use assms in \<open>simp add: find_group_def\<close>)

lemma fresh_find: "fresh a us \<Longrightarrow> fresh a (find_group gid us)"
  by (auto simp: fresh_def us_simps alive_def new_group_def)

text \<open>The server map is not looked at while the server is entered, so it can be updated last.\<close>

lemma map_commute:
  "find_group gid (us\<lparr>server_map := m\<rparr>) = (find_group gid us)\<lparr>server_map := m\<rparr>"
  "upd_group gid h (us\<lparr>server_map := m\<rparr>) = (upd_group gid h us)\<lparr>server_map := m\<rparr>"
  "upd_addr a f (us\<lparr>server_map := m\<rparr>) = (upd_addr a f us)\<lparr>server_map := m\<rparr>"
  by (simp_all add: find_group_def upd_group_def upd_addr_def)

lemma gain_map_commute: "gain_one_server gid a (us\<lparr>server_map := m\<rparr>) = (gain_one_server gid a us)\<lparr>server_map := m\<rparr>"
  by (simp add: gain_one_server_def Let_def map_commute)

lemma enter_map_commute: "enter a (us\<lparr>server_map := m\<rparr>) = (enter a us)\<lparr>server_map := m\<rparr>"
proof -
  have e: "us\<lparr>server_map := m, total_weight := t, masters := ms\<rparr> = us\<lparr>total_weight := t, masters := ms, server_map := m\<rparr>" for t ms by simp
  show ?thesis by (simp add: enter_def Let_def e gain_map_commute map_commute)
qed

lemma enter_sel:
  "addrs (enter a us) = (addrs us)(a := (addrs us a)\<lparr>ua_group := Some (gid_of us a)\<rparr>)"
  "group_ids (enter a us) = group_ids us" "server_map (enter a us) = server_map us"
  "masters (enter a us) = masters us @ (if master us a then [a] else [])"
  "total_weight (enter a us) = total_weight us + (if master us a then weight_of us a else 0)"
  "h \<noteq> gid_of us a \<Longrightarrow> groups (enter a us) h = groups us h"
  by (auto simp: enter_def Let_def us_simps)

lemma enter_group:
  "groups (enter a us) (gid_of us a) = (let g = groups us (gid_of us a) in
     g\<lparr>nalive := nalive g + 1, gweight := gweight g + (if master us a then weight_of us a else 0),
       gmasters := gmasters g @ (if master us a then [a] else []), gslaves := gslaves g @ (if master us a then [] else [a])\<rparr>)"
  by (auto simp: enter_def Let_def us_simps)

lemma enter_groups:
  assumes inv: "upstream_inv us" and fr: "fresh a us" and g: "gid_of us a \<in> set (group_ids us)"
    and us': "us' = (enter a us)\<lparr>server_map := m\<rparr>"
  shows "groups_inv us'"
proof -
  note D = upstream_invD [OF inv]
  let ?gid = "gid_of us a"
  have none: "ua_group (addrs us a) = None" using fr by (simp add: fresh_def)
  have ad: "params (addrs us' b) = params (addrs us b)" "in_list (addrs us' b) = in_list (addrs us b)"
    "ua_group (addrs us' b) = (if b = a then Some ?gid else ua_group (addrs us b))" for b
    by (simp_all add: us' enter_sel)
  have al: "alive us' b = alive us b" for b by (simp add: alive_def us' enter_sel)
  have mem: "members us' h = (if h = ?gid then insert a (members us h) else members us h)" for h
    using none by (auto simp: members_def ad split: if_splits)
  have na: "a \<notin> members us h" for h using none by (simp add: members_def)
  have ids: "group_ids us' = group_ids us" by (simp add: us' enter_sel)
  have gr: "h \<noteq> ?gid \<Longrightarrow> groups us' h = groups us h" for h by (simp add: us' enter_sel)
  have bl: "breaker_list (groups us' h) = breaker_list (groups us h) \<and> nbreak (groups us' h) = nbreak (groups us h)" for h
    using gr [of h] enter_group [of a us] by (cases "h = ?gid") (simp_all add: us' Let_def)
  have "group_lists us' h \<and> group_alive us' h \<and> group_breaker us' h" if h: "h \<in> set (group_ids us)" for h
  proof (intro conjI)
    show "group_lists us' h"
    proof (cases "h = ?gid")
      case True
      have g': "groups us' ?gid = groups (enter a us) ?gid" by (simp add: us')
      have "a \<notin> set (gmasters (groups us ?gid))" "a \<notin> set (gslaves (groups us ?gid))"
        using D(3) [OF g] na by (auto simp: group_lists_def)
      then show ?thesis using D(3) [OF g] True by (auto simp: group_lists_def mem ad g' enter_group Let_def)
    qed (use D(3) [OF h] in \<open>auto simp: group_lists_def mem ad gr\<close>)
    show "group_alive us' h"
    proof (cases "h = ?gid")
      case True
      have "{b \<in> members us' h. alive us' b} = insert a {b \<in> members us h. alive us b}" using True fr al by (auto simp: mem fresh_def)
      moreover have "finite {b \<in> members us h. alive us b}" using members_finite [OF D(3) [OF h]] by simp
      ultimately have "card {b \<in> members us' h. alive us' b} = Suc (card {b \<in> members us h. alive us b})" using na by simp
      then show ?thesis using D(4) [OF h] True by (simp add: group_alive_def us' enter_group Let_def)
    qed (use D(4) [OF h] al in \<open>simp add: group_alive_def mem gr\<close>)
    show "group_breaker us' h" using D(5) [OF h] fr h by (auto simp: group_breaker_def bl mem ad fresh_def)
  qed
  moreover have "1 \<le> max_fails (params (addrs us a))" using fr by (simp add: fresh_def alive_def)
  then have "address_ok us' b" for b using D(7) [of b] g fr by (auto simp: address_ok_def ad al ids fresh_def)
  ultimately show ?thesis using D(1,2,6) by (simp add: groups_inv_def ids breakers_disjoint_def bl)
qed

lemma enter_masters:
  assumes inv: "upstream_inv us" and fr: "fresh a us" and g: "gid_of us a \<in> set (group_ids us)"
    and us': "us' = (enter a us)\<lparr>server_map := m\<rparr>"
  shows "masters_ok us'" "available_ok us'"
proof -
  note D = upstream_invD [OF inv]
  have none: "ua_group (addrs us a) = None" "alive us a" using fr by (simp_all add: fresh_def)
  have ad: "params (addrs us' b) = params (addrs us b)" "(ua_group (addrs us' b) \<noteq> None) = (b = a \<or> ua_group (addrs us b) \<noteq> None)" for b
    by (simp_all add: us' enter_sel)
  have nm: "a \<notin> set (masters us)" using D(8) none by (simp add: masters_ok_def)
  have ms: "masters us' = masters us @ (if master us a then [a] else [])" "total_weight us' = total_weight us + (if master us a then weight_of us a else 0)"
    by (simp_all add: us' enter_sel)
  show "masters_ok us'" using D(8) nm unfolding masters_ok_def ad ms by auto
  have "available_weight us' = available_weight us + (if master us a then weight_of us a else 0)" if "group_ids us = [-1]"
    using that g by (simp add: us' enter_def Let_def us_simps avail_change)
  moreover have "alive us' = alive us" by (simp add: alive_def us' enter_sel fun_eq_iff)
  moreover have "group_ids us' = group_ids us" by (simp add: us' enter_sel)
  ultimately show "available_ok us'" using D(10) none(2) by (auto simp: available_ok_def ms ad)
qed

lemma add_inv:
  assumes inv: "upstream_inv us" and fr: "fresh a us"
  shows "upstream_inv (upstream_add a us)"
proof -
  let ?gid = "gid_of us a" and ?key = "address (addrs us a)"
  let ?us = "find_group ?gid us" and ?m = "(server_map us)(?key \<mapsto> (case server_map us ?key of None \<Rightarrow> [a] | Some as \<Rightarrow> as @ [a]))"
  have e: "upstream_add a us = (enter a ?us)\<lparr>server_map := ?m\<rparr>"
    by (simp add: upstream_add_def set_map_def Let_def map_commute enter_map_commute)
  have inv': "upstream_inv ?us" "fresh a ?us" "gid_of ?us a \<in> set (group_ids ?us)"
    using find_group_inv [OF inv] fresh_find [OF fr] by (simp_all add: us_simps)
  have "servers_ok (upstream_add a us)"
  proof -
    note S = upstream_invD(9) [OF inv]
    have ad: "address (addrs (upstream_add a us) b) = address (addrs us b)"
      "(ua_group (addrs (upstream_add a us) b) \<noteq> None) = (b = a \<or> ua_group (addrs us b) \<noteq> None)" for b
      by (simp_all add: e enter_sel us_simps)
    have na: "server_map us k = Some as \<Longrightarrow> a \<notin> set as" for k as using S fr unfolding servers_ok_def fresh_def by blast
    have sm: "server_map (upstream_add a us) = ?m" by (simp add: e)
    show ?thesis unfolding servers_ok_def ad sm
    proof (intro conjI allI impI)
      fix b assume b: "b = a \<or> ua_group (addrs us b) \<noteq> None"
      show "\<exists>as. ?m (address (addrs us b)) = Some as \<and> b \<in> set as"
      proof (cases "b = a")
        case False
        then obtain as where "server_map us (address (addrs us b)) = Some as" "b \<in> set as" using S b unfolding servers_ok_def by blast
        then show ?thesis by auto
      qed (simp split: option.split)
    next
      fix k as assume k: "?m k = Some as"
      have old: "distinct bs" "\<forall>b \<in> set bs. address (addrs us b) = k \<and> ua_group (addrs us b) \<noteq> None" "a \<notin> set bs"
        if "server_map us k = Some bs" for bs using S na that unfolding servers_ok_def by blast+
      consider "server_map us k = Some as" | "k = ?key" "as = [a]" | bs where "k = ?key" "server_map us k = Some bs" "as = bs @ [a]"
        using k by (auto split: if_splits option.splits)
      then have "distinct as \<and> (\<forall>b \<in> set as. address (addrs us b) = k \<and> (b = a \<or> ua_group (addrs us b) \<noteq> None))"
      proof cases
        case 1
        then show ?thesis using old by blast
      next
        case (3 bs)
        have "set as = insert a (set bs)" "distinct as" using 3(3) old(1,3) [OF 3(2)] by simp_all
        then show ?thesis using old(2) [OF 3(2)] 3(1) by (metis insert_iff)
      qed simp
      then show "distinct as" "\<forall>b \<in> set as. address (addrs us b) = k \<and> (b = a \<or> ua_group (addrs us b) \<noteq> None)" by blast+
    qed
  qed
  then show ?thesis using enter_groups [OF inv' e] enter_masters [OF inv' e] by (simp add: upstream_inv_def)
qed

subsection \<open>Removing servers\<close>

lemma del_one_sel:
  assumes g: "ua_group (addrs us a) = Some gid" and d: "del_one a us = Some us'"
  shows "addrs us' = (addrs us)(a := (addrs us a)\<lparr>ua_group := None\<rparr>)" "group_ids us' = group_ids us" "masters us' = masters us"
    "server_map us' = server_map us" "total_weight us' = total_weight us - (if master us a then weight_of us a else 0)"
    "\<And>h. h \<noteq> gid \<Longrightarrow> groups us' h = groups us h"
    "groups us' gid = (let g = groups us gid in g\<lparr>nalive := nalive g - of_bool (alive us a),
       gweight := gweight g - (if master us a then weight_of us a else 0),
       gmasters := (if master us a then remove1 a (gmasters g) else gmasters g),
       gslaves := (if master us a then gslaves g else remove1 a (gslaves g))\<rparr>)"
    "gid_of us a < 0 \<Longrightarrow> available_weight us' = available_weight us - (if master us a \<and> alive us a then weight_of us a else 0)"
  using d by (auto simp: del_one_def g Let_def us_simps alive_def avail_change)

lemma del_one_some: "ua_group (addrs us a) = Some gid \<Longrightarrow> \<exists>us'. del_one a us = Some us'"
  by (simp add: del_one_def Let_def)

lemma remove1_sum: "a \<in> set xs \<Longrightarrow> sum_list (map f (remove1 a xs)) = sum_list (map f xs) - (f a :: int)"
  by (induction xs) auto

lemma del_one_groups:
  assumes inv: "groups_inv us" and g: "ua_group (addrs us a) = Some gid" and d: "del_one a us = Some us'"
  shows "groups_inv us'"
proof -
  note S = del_one_sel [OF g d]
  have D: "h \<in> set (group_ids us) \<Longrightarrow> group_lists us h \<and> group_alive us h \<and> group_breaker us h" "address_ok us b" for h b
    using inv by (simp_all add: groups_inv_def)
  have gid: "gid \<in> set (group_ids us)" using D(2) [of a] g unfolding address_ok_def by blast
  have ad: "params (addrs us' b) = params (addrs us b)" "in_list (addrs us' b) = in_list (addrs us b)"
    "ua_group (addrs us' b) = (if b = a then None else ua_group (addrs us b))" for b by (simp_all add: S(1))
  have al: "alive us' b = alive us b" for b by (simp add: alive_def S(1))
  have mem: "members us' h = members us h - {a}" for h by (auto simp: members_def ad split: if_splits)
  have am: "a \<in> members us gid" "h \<noteq> gid \<Longrightarrow> a \<notin> members us h" for h using g by (simp_all add: members_def)
  have bl: "breaker_list (groups us' h) = breaker_list (groups us h) \<and> nbreak (groups us' h) = nbreak (groups us h)" for h
    using S(6) [of h] S(7) by (cases "h = gid") (simp_all add: Let_def)
  have "group_lists us' h \<and> group_alive us' h \<and> group_breaker us' h" if h: "h \<in> set (group_ids us)" for h
  proof (intro conjI)
    show "group_lists us' h"
    proof (cases "h = gid")
      case True
      then show ?thesis using D(1) [OF gid] am(1)
        by (auto simp: group_lists_def mem ad S(7) Let_def remove1_sum)
    qed (use D(1) [OF h] am(2) in \<open>auto simp: group_lists_def mem ad S(6)\<close>)
    show "group_alive us' h"
    proof (cases "h = gid")
      case True
      have fin: "finite {b \<in> members us h. alive us b}" using members_finite D(1) [OF h] by simp
      have "{b \<in> members us' h. alive us' b} = (if False then insert a {b \<in> members us h. alive us b} else {b \<in> members us h. alive us b} - {a})"
        by (auto simp: mem al)
      from card_flip [OF fin this] show ?thesis using D(1) [OF h] True am(1) by (simp add: group_alive_def S(7) Let_def)
    next
      case False
      then show ?thesis using D(1) [OF h] am(2) [OF False] by (simp add: group_alive_def mem al S(6))
    qed
    show "group_breaker us' h" using D(1) [OF h] by (auto simp: group_breaker_def bl mem ad)
  qed
  moreover have "address_ok us' b" for b using D(2) [of b] by (auto simp: address_ok_def ad al S(2))
  ultimately show ?thesis using inv by (simp add: groups_inv_def S(2) breakers_disjoint_def bl)
qed

lemma del_loop_ok:
  "groups_inv us \<Longrightarrow> distinct as \<Longrightarrow> \<forall>a \<in> set as. ua_group (addrs us a) \<noteq> None \<Longrightarrow>
   \<exists>us'. del_loop as us = Some us' \<and> groups_inv us' \<and>
     addrs us' = (\<lambda>b. if b \<in> set as then (addrs us b)\<lparr>ua_group := None\<rparr> else addrs us b) \<and>
     group_ids us' = group_ids us \<and> masters us' = masters us \<and> server_map us' = server_map us \<and>
     total_weight us' = total_weight us - sum_list (map (weight_of us) (filter (master us) as)) \<and>
     (group_ids us = [-1] \<longrightarrow> available_weight us' = available_weight us - sum_list (map (weight_of us) (filter (\<lambda>a. master us a \<and> alive us a) as)))"
proof (induction as arbitrary: us)
  case (Cons a as)
  then obtain gid where g: "ua_group (addrs us a) = Some gid" by auto
  then obtain us1 where d: "del_one a us = Some us1" using del_one_some by blast
  note S = del_one_sel [OF g d]
  have ad: "params (addrs us1 b) = params (addrs us b)" "alive us1 b = alive us b" for b by (simp_all add: S(1) alive_def)
  have "gid = gid_of us a \<and> gid \<in> set (group_ids us)" using Cons.prems(1) g by (auto simp: groups_inv_def address_ok_def)
  then have av: "group_ids us = [-1] \<Longrightarrow> available_weight us1 = available_weight us - (if master us a \<and> alive us a then weight_of us a else 0)"
    using S(8) by simp
  have "ua_group (addrs us1 b) \<noteq> None" if "b \<in> set as" for b using that Cons.prems(2,3) S(1) by auto
  then have reg: "\<forall>b \<in> set as. ua_group (addrs us1 b) \<noteq> None" by blast
  have "distinct as" using Cons.prems(2) by simp
  from Cons.IH [OF del_one_groups [OF Cons.prems(1) g d] this reg]
  obtain us' where us': "del_loop as us1 = Some us'" "groups_inv us'"
    "addrs us' = (\<lambda>b. if b \<in> set as then (addrs us1 b)\<lparr>ua_group := None\<rparr> else addrs us1 b)"
    "group_ids us' = group_ids us1" "masters us' = masters us1" "server_map us' = server_map us1"
    "total_weight us' = total_weight us1 - sum_list (map (weight_of us1) (filter (master us1) as))"
    "group_ids us1 = [-1] \<longrightarrow> available_weight us' = available_weight us1 - sum_list (map (weight_of us1) (filter (\<lambda>a. master us1 a \<and> alive us1 a) as))"
    by blast
  have "addrs us' = (\<lambda>b. if b \<in> set (a # as) then (addrs us b)\<lparr>ua_group := None\<rparr> else addrs us b)"
    using us'(3) Cons.prems(2) by (auto simp: S(1) fun_eq_iff)
  then show ?case using d us' av by (auto simp: S(2-5) ad)
qed simp

lemma sum_without:
  assumes "distinct xs" "distinct ys" "set ys \<subseteq> set xs"
  shows "sum_list (map f (filter (\<lambda>a. a \<notin> set ys) xs)) = sum_list (map f xs) - (sum_list (map f ys) :: int)"
proof -
  have "sum_list (map f (filter (\<lambda>a. a \<notin> set ys) xs)) = sum f (set xs - set ys)"
    using assms(1) by (simp add: sum_list_distinct_conv_sum_set set_diff_eq)
  also have "\<dots> = sum f (set xs) - sum f (set ys)" by (rule sum_diff) (use assms(3) in simp_all)
  finally show ?thesis using assms by (simp add: sum_list_distinct_conv_sum_set)
qed

definition named :: "string \<Rightarrow> Upstream \<Rightarrow> nat list" where
  "named addr us = (case server_map us addr of None \<Rightarrow> [] | Some as \<Rightarrow> as)"

lemma named_ok:
  assumes "servers_ok us"
  shows "distinct (named addr us)" "a \<in> set (named addr us) \<longleftrightarrow> ua_group (addrs us a) \<noteq> None \<and> address (addrs us a) = addr"
proof -
  have S: "\<And>a. ua_group (addrs us a) \<noteq> None \<Longrightarrow> \<exists>as. server_map us (address (addrs us a)) = Some as \<and> a \<in> set as"
    "\<And>k as. server_map us k = Some as \<Longrightarrow> distinct as \<and> (\<forall>a \<in> set as. address (addrs us a) = k \<and> ua_group (addrs us a) \<noteq> None)"
    using assms unfolding servers_ok_def by blast+
  show "distinct (named addr us)" using S(2) by (auto simp: named_def split: option.split)
  show "a \<in> set (named addr us) \<longleftrightarrow> ua_group (addrs us a) \<noteq> None \<and> address (addrs us a) = addr"
  proof
    assume "ua_group (addrs us a) \<noteq> None \<and> address (addrs us a) = addr"
    with S(1) [of a] obtain as where "server_map us addr = Some as" "a \<in> set as" by blast
    then show "a \<in> set (named addr us)" by (simp add: named_def)
  next
    assume "a \<in> set (named addr us)"
    then obtain as where "server_map us addr = Some as" "a \<in> set as"
      by (cases "server_map us addr") (simp_all add: named_def)
    with S(2) show "ua_group (addrs us a) \<noteq> None \<and> address (addrs us a) = addr" by blast
  qed
qed

lemma del_masters:
  assumes inv: "upstream_inv us"
    and ad: "\<And>b. params (addrs us' b) = params (addrs us b)" "\<And>b. alive us' b = alive us b"
      "\<And>b. (ua_group (addrs us' b) \<noteq> None) = (ua_group (addrs us b) \<noteq> None \<and> b \<notin> set (named addr us))"
    and ids: "group_ids us' = group_ids us"
    and ms: "masters us' = filter (\<lambda>a. a \<notin> set (named addr us)) (masters us)"
    and tw: "total_weight us' = total_weight us - sum_list (map (weight_of us) (filter (master us) (named addr us)))"
    and av: "group_ids us = [-1] \<longrightarrow>
      available_weight us' = available_weight us - sum_list (map (weight_of us) (filter (\<lambda>a. master us a \<and> alive us a) (named addr us)))"
  shows "masters_ok us'" "available_ok us'"
proof -
  note D = upstream_invD [OF inv] and N = named_ok [OF upstream_invD(9) [OF inv], where addr = addr]
  have M: "distinct (masters us)" "b \<in> set (masters us) \<longleftrightarrow> ua_group (addrs us b) \<noteq> None \<and> master us b" for b
    using D(8) by (simp_all add: masters_ok_def)
  have keep: "filter P (masters us') = filter (\<lambda>a. a \<notin> set (filter (\<lambda>a. master us a \<and> P a) (named addr us))) (filter P (masters us))" for P
    unfolding ms filter_filter by (intro filter_cong refl) (auto simp: M(2))
  have sums: "sum_list (map (weight_of us) (filter P (masters us'))) =
      sum_list (map (weight_of us) (filter P (masters us))) - sum_list (map (weight_of us) (filter (\<lambda>a. master us a \<and> P a) (named addr us)))" for P
    unfolding keep by (rule sum_without) (use M N in auto)
  show "masters_ok us'" unfolding masters_ok_def ad tw
  proof (intro conjI)
    show "distinct (masters us')" using M(1) by (simp add: ms)
    show "set (masters us') = {a. (ua_group (addrs us a) \<noteq> None \<and> a \<notin> set (named addr us)) \<and> master us a}"
      by (auto simp: ms M(2))
    show "total_weight us - sum_list (map (weight_of us) (filter (master us) (named addr us))) = sum_list (map (weight_of us) (masters us'))"
      using sums [of "\<lambda>_. True"] D(8) by (simp add: masters_ok_def)
  qed
  have "alive us' = alive us" using ad(2) by blast
  then show "available_ok us'" using sums [of "alive us"] av D(10) by (simp add: available_ok_def ids ad)
qed

text \<open>Removal succeeds, answers the number of masters removed and unregisters exactly the servers of that name.\<close>

lemma upstream_del_ok:
  assumes inv: "upstream_inv us"
  shows "\<exists>us'. upstream_del addr us = Some (length (filter (master us) (named addr us)), us') \<and> upstream_inv us' \<and>
    addrs us' = (\<lambda>a. if a \<in> set (named addr us) then (addrs us a)\<lparr>ua_group := None\<rparr> else addrs us a)"
proof -
  note D = upstream_invD [OF inv] and N = named_ok [OF upstream_invD(9) [OF inv], where addr = addr]
  let ?as = "named addr us" and ?ms = "filter (\<lambda>a. a \<notin> set (named addr us)) (masters us)"
  have "groups_inv us" "\<forall>a \<in> set ?as. ua_group (addrs us a) \<noteq> None" using inv N(2) by (simp_all add: upstream_inv_def)
  from del_loop_ok [OF this(1) N(1) this(2)] obtain us1 where us1: "del_loop ?as us = Some us1" "groups_inv us1"
     "addrs us1 = (\<lambda>b. if b \<in> set ?as then (addrs us b)\<lparr>ua_group := None\<rparr> else addrs us b)"
     "group_ids us1 = group_ids us" "masters us1 = masters us" "server_map us1 = server_map us"
     "total_weight us1 = total_weight us - sum_list (map (weight_of us) (filter (master us) ?as))"
     "group_ids us = [-1] \<longrightarrow> available_weight us1 = available_weight us - sum_list (map (weight_of us) (filter (\<lambda>a. master us a \<and> alive us a) ?as))"
    by blast
  define us' where "us' = us1\<lparr>server_map := (server_map us)(addr := None), masters := ?ms\<rparr>"
  have ad: "params (addrs us' b) = params (addrs us b)" "alive us' b = alive us b"
    "(ua_group (addrs us' b) \<noteq> None) = (ua_group (addrs us b) \<noteq> None \<and> b \<notin> set ?as)"
    "address (addrs us' b) = address (addrs us b)" for b
    by (simp_all add: us'_def us1(3) alive_def)
  have M: "distinct (masters us)" "b \<in> set (masters us) \<longleftrightarrow> ua_group (addrs us b) \<noteq> None \<and> master us b" for b
    using D(8) by (simp_all add: masters_ok_def)
  have keep: "filter (\<lambda>a. address (addrs us1 a) \<noteq> addr) (masters us) = ?ms"
    by (intro filter_cong refl) (simp add: us1(3) M(2) N(2))
  have len: "length (masters us) - length ?ms = length (filter (master us) ?as)"
  proof -
    have "set (filter (\<lambda>a. a \<in> set ?as) (masters us)) = set (filter (master us) ?as)" using M(2) N(2) by auto
    then have "length (filter (\<lambda>a. a \<in> set ?as) (masters us)) = length (filter (master us) ?as)"
      using M(1) N(1) by (metis distinct_card distinct_filter)
    then show ?thesis using sum_length_filter_compl [of "\<lambda>a. a \<in> set ?as" "masters us"] by linarith
  qed
  have "(case server_map us addr of None \<Rightarrow> Some us
         | Some as \<Rightarrow> map_option (\<lambda>us. us\<lparr>server_map := (server_map us)(addr := None)\<rparr>) (del_loop as us)) =
        Some (us1\<lparr>server_map := (server_map us)(addr := None)\<rparr>)"
    using us1(1,6) by (cases "server_map us addr") (auto simp: named_def fun_upd_idem)
  then have "upstream_del addr us = Some (length (filter (master us) ?as), us')"
    using len keep by (simp add: upstream_del_def Let_def us'_def us1(5))
  moreover have "masters_ok us'" "available_ok us'"
    by (rule del_masters [OF inv ad(1-3)]; simp add: us'_def us1)+
  moreover have "servers_ok us'"
  proof -
    have sm: "server_map us' = (server_map us)(addr := None)" by (simp add: us'_def)
    have S: "\<And>a. ua_group (addrs us a) \<noteq> None \<Longrightarrow> \<exists>as. server_map us (address (addrs us a)) = Some as \<and> a \<in> set as"
      "\<And>k as. server_map us k = Some as \<Longrightarrow> distinct as \<and> (\<forall>a \<in> set as. address (addrs us a) = k \<and> ua_group (addrs us a) \<noteq> None)"
      using D(9) unfolding servers_ok_def by blast+
    show ?thesis unfolding servers_ok_def ad sm N(2) using S by (metis fun_upd_apply option.distinct(1))
  qed
  moreover have "groups_inv us'"
    using us1(2) by (simp add: us'_def groups_inv_def group_lists_def group_alive_def group_breaker_def breakers_disjoint_def
        address_ok_def members_def alive_def)
  ultimately show ?thesis unfolding upstream_inv_def by (intro exI [of _ us']) (simp add: us'_def us1(3))
qed

end
