(* ===== verification/UpstreamGet.thy ===== *)
theory UpstreamGet imports Upstream "HOL-Library.Multiset" begin

text \<open>
  What \<^verbatim>\<open>Upstream::get\<close> chooses (\<^verbatim>\<open>manager/UpstreamManager.cc\<close>): registered, live servers only, in any state that calls of
  the upstream reach; and a broken server comes back.
\<close>

subsection \<open>Choosing keeps the invariant\<close>

text \<open>Choosing only reorders the servers within the groups.\<close>

definition reordered :: "Upstream \<Rightarrow> Upstream \<Rightarrow> bool" where
  "reordered us us' \<longleftrightarrow> us' = us\<lparr>groups := groups us'\<rparr> \<and> (\<forall>g.
     groups us' g = (groups us g)\<lparr>gmasters := gmasters (groups us' g), gslaves := gslaves (groups us' g)\<rparr> \<and>
     mset (gmasters (groups us' g)) = mset (gmasters (groups us g)) \<and> mset (gslaves (groups us' g)) = mset (gslaves (groups us g)))"

lemma reordered_sel:
  assumes "reordered us us'"
  shows "addrs us' = addrs us" "masters us' = masters us" "group_ids us' = group_ids us" "server_map us' = server_map us"
    "total_weight us' = total_weight us" "available_weight us' = available_weight us" "try_another us' = try_another us"
    "nalive (groups us' g) = nalive (groups us g)" "nbreak (groups us' g) = nbreak (groups us g)"
    "breaker_list (groups us' g) = breaker_list (groups us g)" "gweight (groups us' g) = gweight (groups us g)"
    "mset (gmasters (groups us' g)) = mset (gmasters (groups us g))" "mset (gslaves (groups us' g)) = mset (gslaves (groups us g))"
    "alive us' = alive us" "members us' = members us" "select_callback us' = select_callback us"
proof -
  have e: "us' = us\<lparr>groups := groups us'\<rparr>"
    and g: "groups us' g = (groups us g)\<lparr>gmasters := gmasters (groups us' g), gslaves := gslaves (groups us' g)\<rparr>"
    and m: "mset (gmasters (groups us' g)) = mset (gmasters (groups us g))" "mset (gslaves (groups us' g)) = mset (gslaves (groups us g))"
    using assms unfolding reordered_def by blast+
  show "addrs us' = addrs us" "masters us' = masters us" "group_ids us' = group_ids us" "server_map us' = server_map us"
    "total_weight us' = total_weight us" "available_weight us' = available_weight us" "try_another us' = try_another us"
    "select_callback us' = select_callback us"
    by (subst e, simp)+
  then show "alive us' = alive us" "members us' = members us" by (simp_all add: alive_def members_def fun_eq_iff)
  show "nalive (groups us' g) = nalive (groups us g)" "nbreak (groups us' g) = nbreak (groups us g)"
    "breaker_list (groups us' g) = breaker_list (groups us g)" "gweight (groups us' g) = gweight (groups us g)"
    by (subst g, simp)+
qed (use assms in \<open>simp_all add: reordered_def\<close>)

lemma mset_map_sum: "mset xs = mset ys \<Longrightarrow> sum_list (map f xs) = (sum_list (map f ys) :: int)"
  by (metis mset_map sum_mset_sum_list)

lemma reordered_inv:
  assumes inv: "upstream_inv us" and r: "reordered us us'"
  shows "upstream_inv us'"
proof (rule upstream_invI)
  note D = upstream_invD [OF inv] and R = reordered_sel [OF r]
  fix gid assume g: "gid \<in> set (group_ids us')"
  have "set (gmasters (groups us' gid)) = set (gmasters (groups us gid))" "set (gslaves (groups us' gid)) = set (gslaves (groups us gid))"
    "distinct (gmasters (groups us' gid)) = distinct (gmasters (groups us gid))" "distinct (gslaves (groups us' gid)) = distinct (gslaves (groups us gid))"
    by (metis R(12) mset_eq_setD, metis R(13) mset_eq_setD, metis R(12) mset_eq_imp_distinct_iff, metis R(13) mset_eq_imp_distinct_iff)
  then show "group_lists us' gid" using D(3) g mset_map_sum [OF R(12), where f = "weight_of us"] by (simp add: group_lists_def R)
  show "group_alive us' gid" "group_breaker us' gid" using D(4,5) g by (simp_all add: group_alive_def group_breaker_def R)
qed (use upstream_invD [OF inv] reordered_sel [OF r] in
  \<open>simp_all add: breakers_disjoint_def address_ok_def masters_ok_def servers_ok_def available_ok_def\<close>)

lemma reordered_refl: "reordered us us"
  by (simp add: reordered_def)

lemma reordered_trans:
  assumes "reordered us us'" "reordered us' us''"
  shows "reordered us us''"
  unfolding reordered_def
proof (intro conjI allI)
  show "us'' = us\<lparr>groups := groups us''\<rparr>" using assms by (cases us; cases us'; cases us'') (simp add: reordered_def)
qed (use reordered_sel [OF assms(1)] reordered_sel [OF assms(2)] in \<open>simp_all\<close>)

definition shuffles :: "(nat list \<Rightarrow> nat list) \<Rightarrow> bool" where
  "shuffles shuf \<longleftrightarrow> (\<forall>xs. mset (shuf xs) = mset xs)"

lemma reordered_shuffle:
  assumes "shuffles shuf"
  shows "reordered us (upd_group gid (\<lambda>g. g\<lparr>gmasters := shuf (gmasters g)\<rparr>) us)" "reordered us (upd_group gid (\<lambda>g. g\<lparr>gslaves := shuf (gslaves g)\<rparr>) us)"
  using assms by (auto simp: reordered_def upd_group_def shuffles_def)

lemma find_alive:
  "List.find P xs = Some a \<Longrightarrow> P a \<and> a \<in> set xs" "List.find P xs = None \<longleftrightarrow> (\<forall>a \<in> set xs. \<not> P a)"
  by (auto simp: find_Some_iff find_None_iff)

lemma nalive_zero:
  assumes "upstream_inv us" "gid \<in> set (group_ids us)"
  shows "nalive (groups us gid) = 0 \<longleftrightarrow> (\<forall>a \<in> members us gid. \<not> alive us a)" "nalive (groups us gid) \<ge> 0"
proof -
  have "finite {a \<in> members us gid. alive us a}" using members_finite [OF upstream_invD(3) [OF assms]] by simp
  then show "nalive (groups us gid) = 0 \<longleftrightarrow> (\<forall>a \<in> members us gid. \<not> alive us a)" "nalive (groups us gid) \<ge> 0"
    using upstream_invD(4) [OF assms] by (auto simp: group_alive_def)
qed

lemma group_set:
  assumes "upstream_inv us" "gid \<in> set (group_ids us)" and r: "reordered us us'"
  shows "set (gmasters (groups us' gid)) = {a \<in> members us gid. master us a}" "set (gslaves (groups us' gid)) = {a \<in> members us gid. \<not> master us a}"
  using upstream_invD(3) [OF assms(1,2)] mset_eq_setD [OF reordered_sel(12) [OF r]] mset_eq_setD [OF reordered_sel(13) [OF r]]
  by (simp_all add: group_lists_def)

lemma get_one_slave_ok:
  assumes inv: "upstream_inv us" and g: "gid \<in> set (group_ids us)" and sh: "shuffles shuf" and e: "get_one_slave shuf gid us = (r, us')"
  shows "reordered us us'" "r = Some a \<Longrightarrow> a \<in> members us gid \<and> alive us a"
    "r = None \<Longrightarrow> a \<in> members us gid \<Longrightarrow> alive us a \<Longrightarrow> master us a"
proof -
  have *: "reordered us us' \<and> (r = Some a \<longrightarrow> a \<in> members us gid \<and> alive us a) \<and> (r = None \<longrightarrow> a \<in> members us gid \<longrightarrow> alive us a \<longrightarrow> master us a)"
  proof (cases "nalive (groups us gid) = 0")
    case False
    define us1 where "us1 = upd_group gid (\<lambda>g. g\<lparr>gslaves := shuf (gslaves g)\<rparr>) us"
    have r: "reordered us us1" unfolding us1_def by (rule reordered_shuffle(2) [OF sh])
    have "us' = us1" "r = List.find (alive us) (gslaves (groups us1 gid))"
      using e False reordered_sel(14) [OF r] by (auto simp: get_one_slave_def us1_def [symmetric])
    then show ?thesis using r group_set(2) [OF inv g r] find_alive [of "alive us" "gslaves (groups us1 gid)"] by auto
  qed (use e nalive_zero(1) [OF inv g] in \<open>auto simp: get_one_slave_def reordered_refl\<close>)
  from * show "reordered us us'" "r = Some a \<Longrightarrow> a \<in> members us gid \<and> alive us a"
    "r = None \<Longrightarrow> a \<in> members us gid \<Longrightarrow> alive us a \<Longrightarrow> master us a" by blast+
qed

lemma get_one_ok:
  assumes inv: "upstream_inv us" and g: "gid \<in> set (group_ids us)" and sh: "shuffles shuf" and e: "get_one shuf gid us = (r, us')"
  shows "reordered us us'" "r = Some a \<Longrightarrow> a \<in> members us gid \<and> alive us a" "r = None \<Longrightarrow> nalive (groups us gid) = 0"
proof -
  have *: "reordered us us' \<and> (\<forall>a. r = Some a \<longrightarrow> a \<in> members us gid \<and> alive us a) \<and> (r = None \<longrightarrow> nalive (groups us gid) = 0)"
  proof (cases "nalive (groups us gid) = 0")
    case False
    define us1 where "us1 = upd_group gid (\<lambda>g. g\<lparr>gmasters := shuf (gmasters g)\<rparr>) us"
    define us2 where "us2 = upd_group gid (\<lambda>g. g\<lparr>gslaves := shuf (gslaves g)\<rparr>) us1"
    have r1: "reordered us us1" unfolding us1_def by (rule reordered_shuffle(1) [OF sh])
    then have r2: "reordered us us2" unfolding us2_def by (rule reordered_trans [OF _ reordered_shuffle(2) [OF sh]])
    note F = find_alive [of "alive us" "gmasters (groups us1 gid)"] find_alive [of "alive us" "gslaves (groups us2 gid)"]
    show ?thesis
    proof (cases "List.find (alive us) (gmasters (groups us1 gid))")
      case None
      then have "us' = us2" "r = List.find (alive us) (gslaves (groups us2 gid))"
        using e False reordered_sel(14) [OF r1] reordered_sel(14) [OF r2] by (auto simp: get_one_def us1_def [symmetric] us2_def [symmetric])
      then show ?thesis using None r2 group_set(1) [OF inv g r1] group_set(2) [OF inv g r2] F nalive_zero(1) [OF inv g] by auto
    next
      case (Some b)
      then have "us' = us1" "r = Some b" using e False reordered_sel(14) [OF r1] by (simp_all add: get_one_def us1_def [symmetric])
      then show ?thesis using Some r1 group_set(1) [OF inv g r1] F(1) by auto
    qed
  qed (use e in \<open>simp add: get_one_def reordered_refl\<close>)
  from * show "reordered us us'" "r = Some a \<Longrightarrow> a \<in> members us gid \<and> alive us a" "r = None \<Longrightarrow> nalive (groups us gid) = 0" by blast+
qed

lemma master_home:
  assumes "upstream_inv us" "a \<in> set (masters us)"
  shows "ua_group (addrs us a) = Some (gid_of us a)" "gid_of us a \<in> set (group_ids us)"
proof -
  obtain gid where "ua_group (addrs us a) = Some gid" using upstream_invD(8) [OF assms(1)] assms(2) by (auto simp: masters_ok_def)
  then show "ua_group (addrs us a) = Some (gid_of us a)" "gid_of us a \<in> set (group_ids us)" using registered(1,2) [OF assms(1)] by auto
qed

text \<open>A server that may be handed out.\<close>

definition serves :: "Upstream \<Rightarrow> nat \<Rightarrow> bool" where
  "serves us a \<longleftrightarrow> ua_group (addrs us a) \<noteq> None \<and> alive us a"

lemma check_get_weak_ok:
  assumes inv: "upstream_inv us" and sh: "shuffles shuf" and a: "a \<in> set (masters us)" "is_alive_or_group_alive us a"
    and e: "check_get_weak shuf (Some a) us = (r, us')"
  shows "reordered us us' \<and> (\<exists>b. r = Some b \<and> serves us b)"
proof (cases "\<not> alive us a \<and> gid_of us a \<ge> 0")
  case True
  obtain r1 us1 where g: "get_one shuf (gid_of us a) us = (r1, us1)" by fastforce
  note G = get_one_ok [OF inv master_home(2) [OF inv a(1)] sh g]
  have "nalive (groups us (gid_of us a)) \<noteq> 0" using a(2) True master_home(1) [OF inv a(1)] by (simp add: is_alive_or_group_alive_def)
  then obtain b where "r1 = Some b" using G(3) by blast
  then show ?thesis using e True g G(1) G(2) [of b] master_home(1) [OF inv a(1)] by (auto simp: check_get_weak_def serves_def members_def)
qed (use e a master_home(1) [OF inv a(1)] in \<open>auto simp: check_get_weak_def is_alive_or_group_alive_def serves_def reordered_refl\<close>)

lemma check_get_strong_ok:
  assumes inv: "upstream_inv us" and sh: "shuffles shuf" and a: "a \<in> set (masters us)" and e: "check_get_strong shuf a us = (r, us')"
  shows "reordered us us'" "r = Some b \<Longrightarrow> serves us b" "r = None \<Longrightarrow> \<not> is_alive_or_group_alive us a"
proof -
  have "reordered us us' \<and> (\<forall>b. r = Some b \<longrightarrow> serves us b) \<and> (r = None \<longrightarrow> \<not> is_alive_or_group_alive us a)"
  proof (cases "\<not> alive us a \<and> gid_of us a \<ge> 0")
    case True
    note G = get_one_ok [OF inv master_home(2) [OF inv a] sh, of r us']
    have "get_one shuf (gid_of us a) us = (r, us')" using e True master_home(1) [OF inv a] by (simp add: check_get_strong_def)
    with G master_home(1) [OF inv a] True show ?thesis by (auto simp: serves_def members_def is_alive_or_group_alive_def)
  qed (use e master_home(1) [OF inv a] in \<open>auto simp: check_get_strong_def is_alive_or_group_alive_def serves_def reordered_refl split: if_splits\<close>)
  then show "reordered us us'" "r = Some b \<Longrightarrow> serves us b" "r = None \<Longrightarrow> \<not> is_alive_or_group_alive us a" by blast+
qed

lemma weighted_loop_pick:
  "weighted_loop us x as ua s = Some a \<Longrightarrow> ua = Some a \<or> a \<in> set as \<and> is_alive_or_group_alive us a"
proof (induction as arbitrary: ua s)
  case (Cons b as)
  show ?case
  proof (cases "is_alive_or_group_alive us b \<and> s + weight_of us b > x")
    case False
    then show ?thesis using Cons.IH [of "Some b"] Cons.IH [of ua] Cons.prems by (cases "is_alive_or_group_alive us b") auto
  qed (use Cons.prems in auto)
qed simp

lemma weighted_loop_none:
  "weighted_loop us x as ua s = None \<Longrightarrow> ua = None \<and> (\<forall>a \<in> set as. \<not> is_alive_or_group_alive us a)"
proof (induction as arbitrary: ua s)
  case (Cons b as)
  show ?case
  proof (cases "is_alive_or_group_alive us b")
    case True
    then show ?thesis using Cons.IH [of "Some b"] Cons.prems by (cases "s + weight_of us b > x") auto
  qed (use Cons.IH Cons.prems in auto)
qed simp

lemma hash_dist_less: "hash_dist h c < -1"
proof (cases "h - c = -1")
  case True
  then have "c - h = 1" by (metis minus_diff_eq minus_minus)
  moreover have "(1 :: 32 word) < -1" by code_simp
  ultimately show ?thesis by (simp add: hash_dist_def min_less_iff_disj)
next
  case False
  then have "h - c < -1" by (metis word_n1_ge le_neq_trans)
  then show ?thesis by (simp add: hash_dist_def min_less_iff_disj)
qed

lemma hash_loop_min:
  "hash_loop h a cs best = best' \<Longrightarrow> snd best' \<le> snd best \<and> (\<forall>c \<in> set cs. snd best' \<le> hash_dist h c) \<and>
     (best' = best \<or> fst best' = Some a \<and> (\<exists>c \<in> set cs. snd best' = hash_dist h c))"
proof (induction h a cs best rule: hash_loop.induct)
  case (2 h a c cs best)
  then show ?case by (fastforce split: if_splits)
qed simp

text \<open>The loop finds a candidate at the smallest distance from the hash.\<close>

definition nearest :: "Upstream \<Rightarrow> 32 word \<Rightarrow> nat list \<Rightarrow> nat \<Rightarrow> bool" where
  "nearest us h as a \<longleftrightarrow> a \<in> set as \<and> is_alive_or_group_alive us a \<and>
     (\<exists>c \<in> set (consistent_hash (addrs us a)). \<forall>b \<in> set as. is_alive_or_group_alive us b \<longrightarrow>
       (\<forall>d \<in> set (consistent_hash (addrs us b)). hash_dist h c \<le> hash_dist h d))"

lemma ring_loop_min:
  "ring_loop us h as best = best' \<Longrightarrow> snd best' \<le> snd best \<and>
     (\<forall>a \<in> set as. is_alive_or_group_alive us a \<longrightarrow> (\<forall>c \<in> set (consistent_hash (addrs us a)). snd best' \<le> hash_dist h c)) \<and>
     (best' = best \<or> (\<exists>a \<in> set as. is_alive_or_group_alive us a \<and> fst best' = Some a \<and>
        (\<exists>c \<in> set (consistent_hash (addrs us a)). snd best' = hash_dist h c)))"
proof (induction us h as best rule: ring_loop.induct)
  case (2 us h a as best)
  show ?case
  proof (cases "is_alive_or_group_alive us a")
    case True
    let ?m = "hash_loop h a (consistent_hash (addrs us a)) best"
    have m: "snd ?m \<le> snd best" "\<forall>c \<in> set (consistent_hash (addrs us a)). snd ?m \<le> hash_dist h c"
      "?m = best \<or> fst ?m = Some a \<and> (\<exists>c \<in> set (consistent_hash (addrs us a)). snd ?m = hash_dist h c)"
      using hash_loop_min [OF refl] by blast+
    have i: "snd best' \<le> snd ?m" "\<forall>a \<in> set as. is_alive_or_group_alive us a \<longrightarrow> (\<forall>c \<in> set (consistent_hash (addrs us a)). snd best' \<le> hash_dist h c)"
      "best' = ?m \<or> (\<exists>a \<in> set as. is_alive_or_group_alive us a \<and> fst best' = Some a \<and>
        (\<exists>c \<in> set (consistent_hash (addrs us a)). snd best' = hash_dist h c))"
      using 2 True by auto
    show ?thesis using m i True by (auto intro: order_trans)
  qed (use 2 in auto)
qed simp

lemma ring_nearest:
  assumes "\<And>a. a \<in> set as \<Longrightarrow> consistent_hash (addrs us a) \<noteq> []"
  shows "fst (ring_loop us h as (None, -1)) = Some a \<Longrightarrow> nearest us h as a"
    "fst (ring_loop us h as (None, -1)) = None \<Longrightarrow> a \<in> set as \<Longrightarrow> \<not> is_alive_or_group_alive us a"
proof -
  note R = ring_loop_min [OF refl, of us h as "(None, -1)"]
  show "nearest us h as a" if s: "fst (ring_loop us h as (None, -1)) = Some a"
  proof -
    from R s obtain c where c: "a \<in> set as" "is_alive_or_group_alive us a" "c \<in> set (consistent_hash (addrs us a))"
      "snd (ring_loop us h as (None, -1)) = hash_dist h c" by fastforce
    with R show ?thesis unfolding nearest_def by metis
  qed
  assume n: "fst (ring_loop us h as (None, -1)) = None" and a: "a \<in> set as"
  show "\<not> is_alive_or_group_alive us a"
  proof
    assume al: "is_alive_or_group_alive us a"
    obtain c where "c \<in> set (consistent_hash (addrs us a))" using assms [OF a] by (meson list.set_sel(1))
    with R a al have "snd (ring_loop us h as (None, -1)) \<le> hash_dist h c" by blast
    then have "snd (ring_loop us h as (None, -1)) \<noteq> -1" using hash_dist_less [of h c] by (metis leD)
    then have "ring_loop us h as (None, -1) \<noteq> (None, -1)" by (metis snd_conv)
    with R n show False by (metis option.distinct(1))
  qed
qed

subsection \<open>The configuration\<close>

text \<open>What the breaker and the failure counts never change.\<close>

definition same_config :: "Upstream \<Rightarrow> Upstream \<Rightarrow> bool" where
  "same_config us us' \<longleftrightarrow> group_ids us' = group_ids us \<and> masters us' = masters us \<and> try_another us' = try_another us \<and>
     is_consistent us' = is_consistent us \<and> select_callback us' = select_callback us \<and> consistent_callback us' = consistent_callback us \<and>
     (\<forall>a. params (addrs us' a) = params (addrs us a) \<and> consistent_hash (addrs us' a) = consistent_hash (addrs us a) \<and>
        ua_group (addrs us' a) = ua_group (addrs us a))"

named_theorems configs

lemma config_refl [configs]: "same_config us us"
  by (simp add: same_config_def)

lemma config_trans [trans]: "same_config us us' \<Longrightarrow> same_config us' us'' \<Longrightarrow> same_config us us''"
  by (simp add: same_config_def)

lemma config_basic [configs]:
  "same_config us0 (upd_group g f us) = same_config us0 us" "same_config us0 (lose_one_server g a us) = same_config us0 us"
  "same_config us0 (gain_one_server g a us) = same_config us0 us"
  "same_config us0 (upd_addr a (\<lambda>u. u\<lparr>in_list := i\<rparr>) us) = same_config us0 us"
  "same_config us0 (upd_addr a (\<lambda>u. u\<lparr>fail_count := k u\<rparr>) us) = same_config us0 us"
  "same_config us0 (upd_addr a (\<lambda>u. u\<lparr>broken_timeout := t, in_list := i\<rparr>) us) = same_config us0 us"
  by (auto simp: same_config_def upd_group_def upd_addr_def lose_one_server_def gain_one_server_def Let_def split: if_splits)

lemma config_fold: "(\<And>a us. same_config us (f a us)) \<Longrightarrow> same_config us (fold f as us)"
  by (induction as arbitrary: us) (auto simp: config_refl intro: config_trans)

lemma config_steps:
  "same_config us (enlist now g a us)" "same_config us (disable_one now a us)" "same_config us (notify_available a us)"
  "same_config us (notify_unavailable now a us)" "same_config us (check_entry now g a us)"
  by (simp_all add: enlist_def disable_one_def notify_available_def notify_unavailable_def check_entry_def Let_def configs
      split: option.split)

lemma config_ops:
  "same_config us (disable_server now addr us)" "same_config us (enable_server addr us)" "same_config us (check_all_breaker now us)"
  by (auto simp: disable_server_def enable_server_def check_all_breaker_def check_one_breaker_def config_refl
      intro!: config_fold config_steps split: option.split)

text \<open>What construction by \<^verbatim>\<open>UpstreamAddress\<close> gives a registered server.\<close>

definition built :: "Upstream \<Rightarrow> bool" where
  "built us \<longleftrightarrow> (\<forall>a. ua_group (addrs us a) \<noteq> None \<longrightarrow> consistent_hash (addrs us a) \<noteq> [] \<and> 1 \<le> weight_of us a)"

lemma built_config: "same_config us us' \<Longrightarrow> built us \<Longrightarrow> built us'"
  by (simp add: built_def same_config_def)

lemma built_reordered: "reordered us us' \<Longrightarrow> built us \<Longrightarrow> built us'"
  by (simp add: built_def reordered_sel)

lemma built_master: "upstream_inv us \<Longrightarrow> built us \<Longrightarrow> a \<in> set (masters us) \<Longrightarrow> consistent_hash (addrs us a) \<noteq> [] \<and> 1 \<le> weight_of us a"
  using master_home(1) [of us a] by (simp add: built_def)

text \<open>The outcome of one of the selection routines.\<close>

definition chosen :: "Upstream \<Rightarrow> nat option \<times> Upstream \<Rightarrow> bool" where
  "chosen us res \<longleftrightarrow> reordered us (snd res) \<and> (\<forall>b. fst res = Some b \<longrightarrow> serves us b)"

lemma consistent_hash_select_ok:
  assumes inv: "upstream_inv us" "built us" and sh: "shuffles shuf"
  shows "chosen us (consistent_hash_select shuf h us)"
    "fst (consistent_hash_select shuf h us) = None \<Longrightarrow> a \<in> set (masters us) \<Longrightarrow> \<not> is_alive_or_group_alive us a"
proof -
  let ?f = "fst (ring_loop us h (masters us) (None, -1))"
  note R = ring_nearest [of "masters us" us h, OF built_master [OF inv, THEN conjunct1]]
  have "chosen us (consistent_hash_select shuf h us) \<and>
    (fst (consistent_hash_select shuf h us) = None \<longrightarrow> a \<in> set (masters us) \<longrightarrow> \<not> is_alive_or_group_alive us a)"
  proof (cases ?f)
    case None
    then show ?thesis using R(2) by (simp add: consistent_hash_select_def check_get_weak_def chosen_def reordered_refl)
  next
    case (Some b)
    then have b: "b \<in> set (masters us)" "is_alive_or_group_alive us b" using R(1) [of b] by (simp_all add: nearest_def)
    obtain r us' where "check_get_weak shuf (Some b) us = (r, us')" by fastforce
    with check_get_weak_ok [OF inv(1) sh b this] Some show ?thesis by (auto simp: consistent_hash_select_def chosen_def)
  qed
  then show "chosen us (consistent_hash_select shuf h us)"
    "fst (consistent_hash_select shuf h us) = None \<Longrightarrow> a \<in> set (masters us) \<Longrightarrow> \<not> is_alive_or_group_alive us a" by blast+
qed

lemma weighted_random_ok:
  assumes inv: "upstream_inv us" and sh: "shuffles shuf"
  shows "chosen us (weighted_random_try_another shuf x us)"
    "fst (weighted_random_try_another shuf x us) = None \<Longrightarrow>
       available_weight us = 0 \<or> (\<forall>a \<in> set (masters us). \<not> is_alive_or_group_alive us a)"
proof -
  let ?f = "weighted_loop us (int x mod \<bar>available_weight us\<bar>) (masters us) None 0"
  have "chosen us (weighted_random_try_another shuf x us) \<and> (fst (weighted_random_try_another shuf x us) = None \<longrightarrow>
       available_weight us = 0 \<or> (\<forall>a \<in> set (masters us). \<not> is_alive_or_group_alive us a))"
  proof (cases "available_weight us = 0")
    case av: False
    show ?thesis
    proof (cases ?f)
      case None
      then show ?thesis using weighted_loop_none [OF None] av
        by (simp add: weighted_random_try_another_def check_get_weak_def chosen_def reordered_refl)
    next
      case (Some b)
      then have b: "b \<in> set (masters us)" "is_alive_or_group_alive us b" using weighted_loop_pick by blast+
      obtain r us' where "check_get_weak shuf (Some b) us = (r, us')" by fastforce
      with check_get_weak_ok [OF inv sh b this] Some av show ?thesis by (auto simp: weighted_random_try_another_def chosen_def)
    qed
  qed (simp add: weighted_random_try_another_def chosen_def reordered_refl)
  then show "chosen us (weighted_random_try_another shuf x us)"
    "fst (weighted_random_try_another shuf x us) = None \<Longrightarrow>
       available_weight us = 0 \<or> (\<forall>a \<in> set (masters us). \<not> is_alive_or_group_alive us a)" by blast+
qed

lemma pick_weighted_le: "pick_weighted us x as s \<le> length as"
  by (induction us x as s rule: pick_weighted.induct) auto

lemma first_choice_less: "masters us \<noteq> [] \<Longrightarrow> first_choice x uri us < length (masters us)"
  using pick_weighted_le [of us _ "masters us" 0]
  by (auto simp: first_choice_def Let_def le_less split: option.split)

lemma slave_fallback:
  assumes "chosen us res" "upstream_inv us" "shuffles shuf"
  shows "chosen us (case res of (r, us') \<Rightarrow> if r = None then get_one_slave shuf (-1) us' else (r, us'))"
    "fst (case res of (r, us') \<Rightarrow> if r = None then get_one_slave shuf (-1) us' else (r, us')) = None \<Longrightarrow>
       fst res = None \<and> (\<forall>a \<in> members us (-1). alive us a \<longrightarrow> master us a)"
proof -
  obtain r us' where res: "res = (r, us')" by fastforce
  obtain r2 us2 where g: "get_one_slave shuf (-1) us' = (r2, us2)" by fastforce
  have re: "reordered us us'" using assms(1) by (simp add: chosen_def res)
  have inv: "upstream_inv us'" by (rule reordered_inv [OF assms(2) re])
  note G = get_one_slave_ok [OF inv upstream_invD(2) [OF inv] assms(3) g] and S = reordered_sel [OF re]
  show "chosen us (case res of (r, us') \<Rightarrow> if r = None then get_one_slave shuf (-1) us' else (r, us'))"
    using assms(1) G(1) G(2) reordered_trans [OF re G(1)] by (auto simp: res g chosen_def serves_def S members_def)
  assume "fst (case res of (r, us') \<Rightarrow> if r = None then get_one_slave shuf (-1) us' else (r, us')) = None"
  then have "r = None" "r2 = None" by (simp_all add: res g split: if_splits)
  then show "fst res = None \<and> (\<forall>a \<in> members us (-1). alive us a \<longrightarrow> master us a)" using G(3) by (simp add: res S)
qed

subsection \<open>Choosing a server\<close>

lemma try_others_ok:
  assumes inv: "upstream_inv us" "built us" and sh: "shuffles (shuffler e)"
  shows "chosen us (try_others e uri us)"
    "fst (try_others e uri us) = None \<Longrightarrow>
       (select_callback us = None \<and> available_weight us = 0) \<or> (\<forall>a \<in> set (masters us). \<not> is_alive_or_group_alive us a)"
  using consistent_hash_select_ok [OF inv sh] weighted_random_ok [OF inv(1) sh] by (auto simp: try_others_def split: if_splits)

lemma chosen_from: "reordered us us1 \<Longrightarrow> chosen us1 res \<Longrightarrow> chosen us res"
  using reordered_trans [of us us1] by (auto simp: chosen_def serves_def reordered_sel)

text \<open>The part of \<^verbatim>\<open>get\<close> after the breaker check, before the slaves of the default group are tried.\<close>

lemma again_ok:
  assumes inv: "upstream_inv us" "built us" and sh: "shuffles (shuffler e)" and a: "a \<in> set (masters us)"
    and res_def: "res = (case check_get_strong (shuffler e) a us of (r, us1) \<Rightarrow> if r = None \<and> try_another us1 then try_others e uri us1 else (r, us1))"
  shows "chosen us res"
    "try_another us \<Longrightarrow> fst res = None \<Longrightarrow>
       (select_callback us = None \<and> available_weight us = 0) \<or> (\<forall>a \<in> set (masters us). \<not> is_alive_or_group_alive us a)"
proof -
  obtain r us1 where g: "check_get_strong (shuffler e) a us = (r, us1)" by fastforce
  note G = check_get_strong_ok [OF inv(1) sh a g]
  note T = try_others_ok [OF reordered_inv [OF inv(1) G(1)] built_reordered [OF G(1) inv(2)] sh, of uri] and S = reordered_sel [OF G(1)]
  have ia: "is_alive_or_group_alive us1 = is_alive_or_group_alive us" by (simp add: is_alive_or_group_alive_def fun_eq_iff S)
  show "chosen us res" using G(1,2) chosen_from [OF G(1) T(1)] by (auto simp: res_def g chosen_def)
  assume "try_another us" "fst res = None"
  then have "fst (try_others e uri us1) = None" by (auto simp: res_def g S split: if_splits)
  then show "(select_callback us = None \<and> available_weight us = 0) \<or> (\<forall>a \<in> set (masters us). \<not> is_alive_or_group_alive us a)"
    using T(2) by (simp add: S ia)
qed

lemma upstream_get_cases:
  obtains "is_consistent us" "upstream_get e uri us =
      (case consistent_hash_select (shuffler e) (uri_hash (hasher e) uri us) (check_all_breaker (clock e) us) of
         (r, us') \<Rightarrow> if r = None then get_one_slave (shuffler e) (-1) us' else (r, us'))"
  | "\<not> is_consistent us" "masters us = []" "upstream_get e uri us = (None, us)"
  | a where "\<not> is_consistent us" "a \<in> set (masters us)" "alive us a" "upstream_get e uri us = (Some a, us)"
  | a where "\<not> is_consistent us" "a \<in> set (masters us)" "upstream_get e uri us =
      (case (case check_get_strong (shuffler e) a (check_all_breaker (clock e) us) of
               (r, us1) \<Rightarrow> if r = None \<and> try_another us1 then try_others e uri us1 else (r, us1)) of
         (r, us') \<Rightarrow> if r = None then get_one_slave (shuffler e) (-1) us' else (r, us'))"
proof -
  have m: "masters us \<noteq> [] \<Longrightarrow> masters us ! first_choice (rand1 e) uri us \<in> set (masters us)"
    using first_choice_less [of us] by simp
  show ?thesis
    by (cases "is_consistent us"; cases "masters us = []"; cases "alive us (masters us ! first_choice (rand1 e) uri us)")
      (use that m in \<open>auto simp: upstream_get_def Let_def split: prod.splits if_splits\<close>)
qed

lemma upstream_get_ok:
  assumes inv: "upstream_inv us" "built us" and sh: "shuffles (shuffler e)"
  shows "\<exists>us1 \<in> {us, check_all_breaker (clock e) us}. same_config us us1 \<and> upstream_inv us1 \<and> chosen us1 (upstream_get e uri us)"
proof -
  let ?us = "check_all_breaker (clock e) us"
  have c: "same_config us ?us" "upstream_inv ?us" "built ?us" using config_ops(3) check_all_inv [OF inv(1)] built_config inv(2) by blast+
  have ms: "masters ?us = masters us" using c(1) by (simp add: same_config_def)
  show ?thesis
  proof (cases rule: upstream_get_cases [of us e uri])
    case 1
    then show ?thesis using slave_fallback(1) [OF consistent_hash_select_ok(1) [OF c(2,3) sh] c(2) sh] c by auto
  next
    case 2
    then show ?thesis using inv(1) by (auto simp: config_refl chosen_def reordered_refl)
  next
    case (3 a)
    then show ?thesis using inv(1) master_home(1) [OF inv(1) 3(2)]
      by (auto simp: config_refl chosen_def reordered_refl serves_def)
  next
    case (4 a)
    then show ?thesis using slave_fallback(1) [OF again_ok(1) [OF c(2,3) sh _ refl] c(2) sh, of a uri] c ms by auto
  qed
qed

lemma upstream_get_none:
  assumes inv: "upstream_inv us" "built us" and sh: "shuffles (shuffler e)" and m: "is_consistent us \<or> try_another us \<and> masters us \<noteq> []"
    and n: "fst (upstream_get e uri us) = None"
  shows "\<exists>us1. same_config us us1 \<and> upstream_inv us1 \<and> reordered us1 (snd (upstream_get e uri us)) \<and>
    (\<forall>a \<in> members us1 (-1). alive us1 a \<longrightarrow> master us1 a) \<and>
    ((\<not> is_consistent us \<and> select_callback us = None \<and> available_weight us1 = 0) \<or> (\<forall>a \<in> set (masters us1). \<not> is_alive_or_group_alive us1 a))"
proof -
  let ?us = "check_all_breaker (clock e) us"
  have c: "same_config us ?us" "upstream_inv ?us" "built ?us" using config_ops(3) check_all_inv [OF inv(1)] built_config inv(2) by blast+
  have ms: "masters ?us = masters us" "try_another ?us = try_another us" "select_callback ?us = select_callback us"
    using c(1) by (simp_all add: same_config_def)
  show ?thesis
  proof (cases rule: upstream_get_cases [of us e uri])
    case 1
    note F = slave_fallback [OF consistent_hash_select_ok(1) [OF c(2,3) sh] c(2) sh, of "uri_hash (hasher e) uri us"]
    from n 1 F(2) consistent_hash_select_ok(2) [OF c(2,3) sh, of "uri_hash (hasher e) uri us"] F(1) c show ?thesis
      by (intro exI [of _ ?us]) (simp add: chosen_def)
  next
    case (4 a)
    note A = again_ok [OF c(2,3) sh _ refl, of a uri]
    note F = slave_fallback [OF A(1) c(2) sh]
    from n 4 F(2) A(2) F(1) c ms m show ?thesis by (intro exI [of _ ?us]) (simp add: chosen_def)
  qed (use m n in auto)
qed

subsection \<open>Reachable states\<close>

lemma init_inv: "(\<And>a. ua_group (store a) = None) \<Longrightarrow> upstream_inv (upstream_init store) \<and> built (upstream_init store)"
  by (simp add: upstream_inv_def groups_inv_def upstream_init_def new_group_def group_lists_def group_alive_def group_breaker_def
      breakers_disjoint_def address_ok_def masters_ok_def servers_ok_def available_ok_def members_def built_def)

text \<open>A number no server has: an object that \<^verbatim>\<open>new\<close> returns is none of the objects in use.\<close>

definition unused :: "nat \<Rightarrow> Upstream \<Rightarrow> bool" where
  "unused a us \<longleftrightarrow> ua_group (addrs us a) = None \<and> (\<forall>g \<in> set (group_ids us). a \<notin> set (breaker_list (groups us g)))"

lemma unused_lists:
  assumes inv: "upstream_inv us" and a: "unused a us"
  shows "a \<notin> set (masters us)" "a \<notin> members us g" "server_map us k = Some as \<Longrightarrow> a \<notin> set as"
    "g \<in> set (group_ids us) \<Longrightarrow> a \<notin> set (gmasters (groups us g)) \<and> a \<notin> set (gslaves (groups us g)) \<and> a \<notin> set (breaker_list (groups us g))"
proof -
  have n: "ua_group (addrs us a) = None" using a by (simp add: unused_def)
  show "a \<notin> set (masters us)" "a \<notin> members us g" using upstream_invD(8) [OF inv] n by (simp_all add: masters_ok_def members_def)
  show "server_map us k = Some as \<Longrightarrow> a \<notin> set as" using upstream_invD(9) [OF inv] n unfolding servers_ok_def by blast
  show "g \<in> set (group_ids us) \<Longrightarrow> a \<notin> set (gmasters (groups us g)) \<and> a \<notin> set (gslaves (groups us g)) \<and> a \<notin> set (breaker_list (groups us g))"
    using upstream_invD(3) [OF inv, of g] n a by (auto simp: group_lists_def members_def unused_def)
qed

lemma construct_inv:
  assumes inv: "upstream_inv us" and a: "unused a us" and u: "ua_group u = None"
  defines "us' \<equiv> upd_addr a (\<lambda>_. u) us"
  shows "upstream_inv us'"
proof (rule upstream_invI)
  note D = upstream_invD [OF inv] and U = unused_lists [OF inv a]
  have n: "ua_group (addrs us a) = None" using a by (simp add: unused_def)
  have ad: "b \<noteq> a \<Longrightarrow> addrs us' b = addrs us b" "ua_group (addrs us' b) = ua_group (addrs us b)" for b using u n by (simp_all add: us'_def us_simps)
  have al: "b \<noteq> a \<Longrightarrow> alive us' b = alive us b" for b by (simp add: alive_def ad)
  have mem: "members us' = members us" by (simp add: members_def ad fun_eq_iff)
  have g: "groups us' = groups us" "group_ids us' = group_ids us" "masters us' = masters us" "server_map us' = server_map us"
    "total_weight us' = total_weight us" "available_weight us' = available_weight us" by (simp_all add: us'_def us_simps)
  have wt: "a \<notin> set xs \<Longrightarrow> map (weight_of us') xs = map (weight_of us) xs" for xs by (intro map_cong refl) (metis ad(1))
  have ms: "{b \<in> members us h. master us' b} = {b \<in> members us h. master us b}" "{b \<in> members us h. \<not> master us' b} = {b \<in> members us h. \<not> master us b}" for h
    using U(2) by (intro Collect_cong; metis ad(1))+
  show "distinct (group_ids us')" "-1 \<in> set (group_ids us')" "breakers_disjoint us'" using D(1,2,6) by (simp_all add: breakers_disjoint_def g)
  show "address_ok us' b" for b using D(7) [of b] n by (cases "b = a") (simp_all add: address_ok_def ad al g)
  show "masters_ok us'"
  proof -
    have "{b. ua_group (addrs us' b) \<noteq> None \<and> master us' b} = {b. ua_group (addrs us b) \<noteq> None \<and> master us b}"
      using n ad by (intro Collect_cong) metis
    then show ?thesis using D(8) U(1) by (simp add: masters_ok_def g wt ad)
  qed
  show "servers_ok us'"
  proof -
    have adr: "ua_group (addrs us b) \<noteq> None \<Longrightarrow> address (addrs us' b) = address (addrs us b)" for b using n ad(1) [of b] by (cases "b = a") auto
    have S: "\<And>b. ua_group (addrs us b) \<noteq> None \<Longrightarrow> \<exists>as. server_map us (address (addrs us b)) = Some as \<and> b \<in> set as"
      "\<And>k as. server_map us k = Some as \<Longrightarrow> distinct as \<and> (\<forall>b \<in> set as. address (addrs us b) = k \<and> ua_group (addrs us b) \<noteq> None)"
      using D(9) unfolding servers_ok_def by blast+
    show ?thesis unfolding servers_ok_def ad(2) g
    proof (intro conjI allI impI)
      show "\<exists>as. server_map us (address (addrs us' b)) = Some as \<and> b \<in> set as" if "ua_group (addrs us b) \<noteq> None" for b
        using S(1) that by (simp add: adr [OF that])
      show "distinct as" "\<forall>b \<in> set as. address (addrs us' b) = k \<and> ua_group (addrs us b) \<noteq> None" if "server_map us k = Some as" for k as
        using S(2) [OF that] adr by auto
    qed
  qed
  have "filter (alive us') (masters us) = filter (alive us) (masters us)" using U(1) by (intro filter_cong refl) (metis al)
  then show "available_ok us'" using D(10) U(1) by (simp add: available_ok_def g wt)
  fix h assume h: "h \<in> set (group_ids us')"
  then have h': "h \<in> set (group_ids us)" by (simp add: g)
  show "group_lists us' h" using D(3) [OF h'] wt [of "gmasters (groups us h)"] U(4) [OF h']
    unfolding group_lists_def g mem ms by metis
  have "{b \<in> members us h. alive us' b} = {b \<in> members us h. alive us b}" using U(2) by (intro Collect_cong) (metis al)
  then show "group_alive us' h" using D(4) [OF h'] by (simp add: group_alive_def g mem)
  show "group_breaker us' h" using D(5) [OF h'] U(2) [of h] U(4) [OF h'] unfolding group_breaker_def g mem ad(2) by (metis ad(1))
qed

lemma add_new_inv:
  assumes inv: "upstream_inv us" "built us" and a: "unused a us" and w: "0 \<le> weight ps"
  shows "upstream_inv (upstream_add a (upd_addr a (\<lambda>_. new_address hash addr ps) us))"
    "built (upstream_add a (upd_addr a (\<lambda>_. new_address hash addr ps) us))"
proof -
  let ?us = "upd_addr a (\<lambda>_. new_address hash addr ps) us"
  have inv': "upstream_inv ?us" by (rule construct_inv [OF inv(1) a]) (simp add: new_address_def Let_def)
  have "fresh a ?us" using a by (simp add: fresh_def unused_def us_simps new_address_def alive_def Let_def)
  from add_inv [OF inv' this] show "upstream_inv (upstream_add a ?us)" .
  have "addrs (upstream_add a ?us) b = (if b = a then (new_address hash addr ps)\<lparr>ua_group := Some (gid_of ?us a)\<rparr> else addrs us b)" for b
    by (simp add: upstream_add_def set_map_def Let_def map_commute enter_map_commute enter_sel us_simps)
  then show "built (upstream_add a ?us)" using inv(2) w by (simp add: built_def new_address_def Let_def)
qed

text \<open>The states of an upstream: every call from its construction on, in any order. \<open>weight\<close> is unsigned and a server
  fails fewer than 2 ^ 32 times in a row.\<close>

inductive upstream_reach :: "Upstream \<Rightarrow> bool" where
  init: "(\<And>a. ua_group (store a) = None) \<Longrightarrow> upstream_reach (upstream_init store)"
| add: "upstream_reach us \<Longrightarrow> unused a us \<Longrightarrow> 0 \<le> weight ps \<Longrightarrow> upstream_reach (upstream_add a (upd_addr a (\<lambda>_. new_address hash addr ps) us))"
| del: "upstream_reach us \<Longrightarrow> upstream_del addr us = Some (n, us') \<Longrightarrow> upstream_reach us'"
| disable: "upstream_reach us \<Longrightarrow> upstream_reach (disable_server now addr us)"
| enable: "upstream_reach us \<Longrightarrow> upstream_reach (enable_server addr us)"
| available: "upstream_reach us \<Longrightarrow> upstream_reach (notify_available a us)"
| unavailable: "upstream_reach us \<Longrightarrow> fail_count (addrs us a) + 1 < 2 ^ 32 \<Longrightarrow> upstream_reach (notify_unavailable now a us)"
| get: "upstream_reach us \<Longrightarrow> shuffles (shuffler e) \<Longrightarrow> upstream_get e uri us = (r, us') \<Longrightarrow> upstream_reach us'"
| select: "upstream_reach us \<Longrightarrow> upstream_reach (set_select_callback f us)"
| consistent: "upstream_reach us \<Longrightarrow> upstream_reach (set_consistent_mode f us)"
| attr: "upstream_reach us \<Longrightarrow> upstream_reach (set_attr again f us)"

lemma settings_inv:
  "upstream_inv (set_select_callback f us) = upstream_inv us" "upstream_inv (set_consistent_mode f us) = upstream_inv us"
  "upstream_inv (set_attr again f us) = upstream_inv us"
  "built (set_select_callback f us) = built us" "built (set_consistent_mode f us) = built us" "built (set_attr again f us) = built us"
  by (simp_all add: set_select_callback_def set_consistent_mode_def set_attr_def upstream_inv_def groups_inv_def group_lists_def group_alive_def
      group_breaker_def breakers_disjoint_def address_ok_def masters_ok_def servers_ok_def available_ok_def members_def alive_def [abs_def] built_def)

lemma reach_inv: "upstream_reach us \<Longrightarrow> upstream_inv us \<and> built us"
proof (induction rule: upstream_reach.induct)
  case (del us addr n us')
  then obtain us1 where "upstream_del addr us = Some (length (filter (master us) (named addr us)), us1)" "upstream_inv us1"
    "addrs us1 = (\<lambda>a. if a \<in> set (named addr us) then (addrs us a)\<lparr>ua_group := None\<rparr> else addrs us a)"
    using upstream_del_ok by blast
  then show ?case using del by (simp add: built_def)
next
  case (get us e uri r us')
  then obtain us1 where "same_config us us1" "upstream_inv us1" "chosen us1 (upstream_get e uri us)" using upstream_get_ok by blast
  then show ?case using get reordered_inv built_config built_reordered by (simp add: chosen_def) blast
qed (auto simp: init_inv add_new_inv disable_server_inv enable_server_inv notify_available_inv notify_unavailable_inv settings_inv
    intro: built_config config_ops config_steps)

lemma get_serves:
  assumes "upstream_inv us" "built us" "shuffles (shuffler e)" "upstream_get e uri us = (Some a, us')"
  shows "serves us' a"
  using upstream_get_ok [OF assms(1-3), of uri] assms(4) by (auto simp: chosen_def serves_def reordered_sel)

lemma default_group_only:
  assumes inv: "upstream_inv us" and one: "group_ids us = [-1]" and a: "ua_group (addrs us a) \<noteq> None"
  shows "ua_group (addrs us a) = Some (-1)" "gid_of us a = -1" "is_alive_or_group_alive us a = alive us a"
proof -
  from a obtain gid where g: "ua_group (addrs us a) = Some gid" by blast
  from registered(1,2) [OF inv g] one g show "ua_group (addrs us a) = Some (-1)" "gid_of us a = -1" by auto
  then show "is_alive_or_group_alive us a = alive us a" by (simp add: is_alive_or_group_alive_def)
qed

lemma no_weight_no_master:
  assumes inv: "upstream_inv us" "built us" and one: "group_ids us = [-1]" and w: "available_weight us = 0" and a: "a \<in> set (masters us)"
  shows "\<not> alive us a"
proof
  assume al: "alive us a"
  let ?xs = "filter (alive us) (masters us)"
  have pos: "1 \<le> weight_of us b" if "b \<in> set ?xs" for b using built_master [OF inv, of b] that by auto
  have "sum_list (map (weight_of us) ?xs) = 0" using upstream_invD(10) [OF inv(1)] one w by (simp add: available_ok_def)
  moreover have "0 \<le> x" if "x \<in> set (map (weight_of us) ?xs)" for x using that pos by fastforce
  ultimately have "weight_of us a = 0" using a al sum_list_nonneg_eq_0_iff [of "map (weight_of us) ?xs"] by auto
  then show False using pos [of a] a al by simp
qed

text \<open>C2: whatever calls have been made on an upstream, and in whatever order, its books are right: each group counts
  exactly its live members, holds its masters and slaves once each and knows the weight of its masters; a registered server is in
  the breaker list exactly while it is down; the list of masters, the total weight and the map of names agree with the servers. The count of
  breakers of a group is at least the length of its breaker list, so that no check is skipped; the available weight is the weight of the live masters as
  long as no server is in a group, and is not determined otherwise.\<close>

theorem upstream_reachable:
  assumes "upstream_reach us"
  shows "upstream_inv us"
  using reach_inv [OF assms] by blast

text \<open>C11: in every reachable state, \<^verbatim>\<open>get\<close> hands out only servers that are registered and not down; in the consistent-hash
  mode it gives up only when no server of the default group and no server of a group that has a master is alive.\<close>

theorem upstream_get_live:
  assumes r: "upstream_reach us" and sh: "shuffles (shuffler e)" and g: "upstream_get e uri us = (r, us')"
  shows "(\<forall>a. r = Some a \<longrightarrow> serves us' a) \<and>
    (is_consistent us \<and> r = None \<longrightarrow> (\<forall>a. serves us' a \<longrightarrow> gid_of us' a \<noteq> -1 \<and>
       (gid_of us' a \<ge> 0 \<longrightarrow> (\<forall>m \<in> set (masters us'). gid_of us' m \<noteq> gid_of us' a))))"
proof (intro conjI allI impI ballI)
  have inv: "upstream_inv us" "built us" using reach_inv [OF r] by blast+
  show "serves us' a" if "r = Some a" for a using get_serves [OF inv sh] g that by blast
  fix a assume n: "is_consistent us \<and> r = None" and a: "serves us' a"
  obtain us1 where u: "upstream_inv us1" "reordered us1 us'" "\<forall>a \<in> members us1 (-1). alive us1 a \<longrightarrow> master us1 a"
    "\<forall>a \<in> set (masters us1). \<not> is_alive_or_group_alive us1 a"
    using upstream_get_none [OF inv sh, of uri] n g by auto
  note S = reordered_sel [OF u(2)]
  have a1: "ua_group (addrs us1 a) = Some (gid_of us1 a)" "alive us1 a" "gid_of us1 a \<in> set (group_ids us1)"
    using a registered(1,2) [OF u(1)] by (auto simp: serves_def S)
  show "gid_of us' a \<noteq> -1"
  proof
    assume d: "gid_of us' a = -1"
    then have "a \<in> members us1 (-1)" using a1(1) by (simp add: members_def S)
    then have "a \<in> set (masters us1)" using u(3) a1 upstream_invD(8) [OF u(1)] by (simp add: masters_ok_def)
    then show False using u(4) a1(2) d by (auto simp: is_alive_or_group_alive_def S)
  qed
  fix m assume k: "gid_of us' a \<ge> 0" and m: "m \<in> set (masters us')"
  have "nalive (groups us1 (gid_of us1 a)) \<noteq> 0" "nalive (groups us1 (gid_of us1 a)) \<ge> 0"
    using nalive_zero [OF u(1) a1(3)] a1 by (auto simp: members_def)
  then show "gid_of us' m \<noteq> gid_of us' a"
    using u(4) m k master_home(1) [OF u(1), of m] by (force simp: is_alive_or_group_alive_def S)
qed


subsection \<open>Recovery\<close>

lemma check_entry_keeps:
  "broken_timeout (addrs (check_entry now g b us) a) = broken_timeout (addrs us a)"
  "in_list (addrs (check_entry now g b us) a) \<Longrightarrow> in_list (addrs us a)"
  "broken_timeout (addrs us a) \<le> now \<Longrightarrow> \<not> in_list (addrs (check_entry now g a us) a)"
  by (auto simp: check_entry_def Let_def us_simps split: if_splits)

lemma check_entries_keep:
  "broken_timeout (addrs (fold (check_entry now g) as us) a) = broken_timeout (addrs us a)"
  "in_list (addrs (fold (check_entry now g) as us) a) \<Longrightarrow> in_list (addrs us a)"
proof -
  have "broken_timeout (addrs (fold (check_entry now g) as us) a) = broken_timeout (addrs us a) \<and>
      (in_list (addrs (fold (check_entry now g) as us) a) \<longrightarrow> in_list (addrs us a))"
    by (induction as arbitrary: us) (auto simp: check_entry_keeps(1) dest: check_entry_keeps(2))
  then show "broken_timeout (addrs (fold (check_entry now g) as us) a) = broken_timeout (addrs us a)"
    "in_list (addrs (fold (check_entry now g) as us) a) \<Longrightarrow> in_list (addrs us a)" by blast+
qed

lemma check_one_keeps:
  "broken_timeout (addrs (check_one_breaker now g us) a) = broken_timeout (addrs us a)"
  "in_list (addrs (check_one_breaker now g us) a) \<Longrightarrow> in_list (addrs us a)"
  "same_config us (check_one_breaker now g us)"
  by (auto simp: check_one_breaker_def check_entries_keep(1) config_refl dest: check_entries_keep(2) intro: config_fold config_steps split: if_splits)

lemma entries_clear: "a \<in> set as \<Longrightarrow> broken_timeout (addrs us a) \<le> now \<Longrightarrow> \<not> in_list (addrs (fold (check_entry now g) as us) a)"
proof (induction as arbitrary: us)
  case (Cons b as)
  show ?case
  proof (cases "a = b")
    case True
    then show ?thesis using check_entries_keep(2) [of now g as "check_entry now g b us" a] check_entry_keeps(3) [of us a now g] Cons.prems(2) by auto
  qed (use Cons check_entry_keeps(1) in auto)
qed simp

lemma groups_clear:
  "upstream_inv us \<Longrightarrow> set gs \<subseteq> set (group_ids us) \<Longrightarrow> ua_group (addrs us a) = Some gid \<Longrightarrow> broken_timeout (addrs us a) \<le> now \<Longrightarrow>
   gid \<in> set gs \<or> \<not> in_list (addrs us a) \<Longrightarrow> \<not> in_list (addrs (fold (check_one_breaker now) gs us) a)"
proof (induction gs arbitrary: us)
  case (Cons g gs)
  let ?us = "check_one_breaker now g us"
  have inv: "upstream_inv ?us" "group_ids ?us = group_ids us" using check_one_inv Cons.prems(1,2) by auto
  have reg: "ua_group (addrs ?us a) = Some gid" using check_one_keeps(3) [of us now g] Cons.prems(3) by (simp add: same_config_def)
  have "\<not> in_list (addrs ?us a)" if "g = gid"
  proof
    assume i: "in_list (addrs ?us a)"
    then have "a \<in> set (breaker_list (groups us gid))" using check_one_keeps(2) registered(5) [OF Cons.prems(1,3)] by blast
    moreover from this have "nbreak (groups us gid) \<noteq> 0"
      using upstream_invD(5) [OF Cons.prems(1), of gid] Cons.prems(2) that by (auto simp: group_breaker_def)
    ultimately show False using i entries_clear [OF _ Cons.prems(4)] that by (simp add: check_one_breaker_def)
  qed
  then have "gid \<in> set gs \<or> \<not> in_list (addrs ?us a)" using Cons.prems(5) check_one_keeps(2) by auto
  then show ?case using Cons.IH [OF inv(1) _ reg] Cons.prems(2,4) inv(2) by (simp add: check_one_keeps(1))
qed simp

text \<open>C12: a broken server comes back. Once the 30 seconds of its breaker entry are over, the breaker check that every
  selection makes in the consistent-hash mode, and after a dead first choice in the other modes, brings it back to life.\<close>

theorem breaker_recovers:
  assumes r: "upstream_reach us" and g: "ua_group (addrs us a) \<noteq> None" and t: "broken_timeout (addrs us a) \<le> now"
  shows "alive (check_all_breaker now us) a"
proof -
  have inv: "upstream_inv us" using reach_inv [OF r] by blast
  obtain gid where gid: "ua_group (addrs us a) = Some gid" using g by blast
  have "\<not> in_list (addrs (check_all_breaker now us) a)"
    unfolding check_all_breaker_def using groups_clear [OF inv subset_refl gid t] registered(1) [OF inv gid] by blast
  moreover have "ua_group (addrs (check_all_breaker now us) a) = Some gid" using config_ops(3) [of us now] gid by (simp add: same_config_def)
  ultimately show ?thesis using registered(4) [OF check_all_inv [OF inv]] by blast
qed

text \<open>the consistent-hash mode maps a key to the ring: of all the virtual nodes of eligible masters, the one it starts
  from is at the smallest distance from the hash; it gives up only when there is no eligible master.\<close>

theorem consistent_hash_nearest:
  assumes r: "upstream_reach us"
  shows "if \<exists>a \<in> set (masters us). is_alive_or_group_alive us a
    then \<exists>a. nearest us h (masters us) a \<and> consistent_hash_select shuf h us = check_get_weak shuf (Some a) us
    else consistent_hash_select shuf h us = (None, us)"
proof -
  have inv: "upstream_inv us" "built us" using reach_inv [OF r] by blast+
  note R = ring_nearest [of "masters us" us h, OF built_master [OF inv, THEN conjunct1]]
  show ?thesis using R by (cases "fst (ring_loop us h (masters us) (None, -1))") (auto simp: consistent_hash_select_def check_get_weak_def nearest_def)
qed

subsection \<open>Concrete upstreams\<close>

text \<open>Servers of weight 1 that one failure takes down; a clock that stands at 100; hashes by length.\<close>

definition plain :: "int \<Rightarrow> AddressParams" where
  "plain gid = \<lparr>max_fails = 1, weight = 1, server_type = SERVER_TYPE_MASTER, group_id = gid\<rparr>"

definition hash_len :: "string \<Rightarrow> 32 word" where
  "hash_len s = of_nat (length s)"

definition idle :: Upstream where
  "idle = upstream_init (\<lambda>_. new_address hash_len [] (plain (-1)))"

definition add_new :: "nat \<Rightarrow> string \<Rightarrow> AddressParams \<Rightarrow> Upstream \<Rightarrow> Upstream" where
  "add_new a addr ps us = upstream_add a (upd_addr a (\<lambda>_. new_address hash_len addr ps) us)"

definition quiet :: env where
  "quiet = \<lparr>shuffler = (\<lambda>xs. xs), rand1 = 0, rand2 = 0, hasher = hash_len, clock = 100\<rparr>"

definition some_uri :: ParsedURI where
  "some_uri = uri_init\<lparr>path := Some ''/x''\<rparr>"

definition pair_of :: "int \<Rightarrow> Upstream" where
  "pair_of gid = set_attr True None (add_new 1 ''b:81'' (plain (-1)) (add_new 0 ''a:80'' (plain gid) idle))"

lemma quiet_shuffles: "shuffles (shuffler quiet)"
  by (simp add: shuffles_def quiet_def)

lemma add_new_reach: "upstream_reach us \<Longrightarrow> unused a us \<Longrightarrow> upstream_reach (add_new a addr (plain gid) us)"
  unfolding add_new_def by (rule upstream_reach.add) (simp_all add: plain_def)

lemma pair_reach: "upstream_reach (pair_of (-1))"
proof -
  have r: "upstream_reach idle" unfolding idle_def by (rule upstream_reach.init) (simp add: new_address_def Let_def)
  have "unused 0 idle" by code_simp
  from add_new_reach [OF r this] have "upstream_reach (add_new 0 ''a:80'' (plain (-1)) idle)" .
  moreover have "unused 1 (add_new 0 ''a:80'' (plain (-1)) idle)" by code_simp
  ultimately show ?thesis unfolding pair_of_def by (rule upstream_reach.attr [OF add_new_reach])
qed

lemma down_reach: "upstream_reach (disable_server 90 ''a:80'' (pair_of (-1)))"
  by (rule upstream_reach.disable [OF pair_reach])

lemma down_eval:
  "fst (upstream_get quiet some_uri (disable_server 90 ''a:80'' (pair_of (-1)))) = Some 1"
  "group_ids (disable_server 90 ''a:80'' (pair_of (-1))) = [-1]"
  "try_another (disable_server 90 ''a:80'' (pair_of (-1)))"
  "masters (disable_server 90 ''a:80'' (pair_of (-1))) = [0, 1]"
  "broken_timeout (addrs (disable_server 90 ''a:80'' (pair_of (-1))) 0) = 120"
  "ua_group (addrs (disable_server 90 ''a:80'' (pair_of (-1))) 0) = Some (-1)"
  "\<not> alive (disable_server 90 ''a:80'' (pair_of (-1))) 0"
  by code_simp+

theorem upstream_reachable_witness: "upstream_inv (disable_server 90 ''a:80'' (pair_of (-1)))"
  by (rule upstream_reachable [OF down_reach])

theorem upstream_get_live_witness: "serves (snd (upstream_get quiet some_uri (disable_server 90 ''a:80'' (pair_of (-1))))) 1"
  using upstream_get_live [OF down_reach quiet_shuffles prod.collapse [symmetric]] down_eval(1) by blast


theorem breaker_recovers_witness: "alive (check_all_breaker 120 (disable_server 90 ''a:80'' (pair_of (-1)))) 0"
  using breaker_recovers [OF down_reach, of 0 120] down_eval(5,6) by simp

theorem consistent_hash_nearest_witness: "\<exists>a. nearest (pair_of (-1)) 5 (masters (pair_of (-1))) a"
proof -
  have "\<exists>a \<in> set (masters (pair_of (-1))). is_alive_or_group_alive (pair_of (-1)) a" by code_simp
  then show ?thesis using consistent_hash_nearest [OF pair_reach, of 5 id] by auto
qed

text \<open>\<^verbatim>\<open>add\<close> calls \<^verbatim>\<open>gain_one_server\<close> before it adds the weight of the server to its group, so a group's weight is missing
  from the available weight while the group is up and is subtracted when it goes down. With one server in a group and one in none, both
  of weight 1, the failure of the first leaves an available weight of 0: \<^verbatim>\<open>get\<close> answers NULL, although
  \<^verbatim>\<open>try_another\<close> is set and the second server is up. Without the group the second server is found.\<close>

theorem group_weight_lost:
  "available_weight (disable_server 90 ''a:80'' (pair_of 0)) = 0 \<and> alive (disable_server 90 ''a:80'' (pair_of 0)) 1 \<and>
   try_another (disable_server 90 ''a:80'' (pair_of 0)) \<and>
   fst (upstream_get quiet some_uri (disable_server 90 ''a:80'' (pair_of 0))) = None \<and>
   fst (upstream_get quiet some_uri (disable_server 90 ''a:80'' (pair_of (-1)))) = Some 1"
  by (intro conjI) code_simp+

end
