(* ===== verification/UpstreamManager.thy ===== *)
theory UpstreamManager imports UpstreamGet begin

text \<open>
  The class \<^verbatim>\<open>__UpstreamManager\<close> of \<^verbatim>\<open>manager/UpstreamManager.cc\<close>: the upstreams by name. \<open>addresses\<close> is the length of
  \<^verbatim>\<open>addresses_\<close>: a server constructed by the manager is known by its position there. A cookie is the upstream and the number of a server.
\<close>

record upstream_manager =
  upstream_map :: "string \<rightharpoonup> Upstream"
  addresses :: nat

datatype upstream_state = UPSTREAM_SUCCESS | UPSTREAM_NOTFOUND | UPSTREAM_ALL_DOWN

record upstream_result =
  cookie :: "(string \<times> nat) option"
  address_params :: "AddressParams option"
  upstream_state :: upstream_state

definition manager_init :: upstream_manager where
  "manager_init = \<lparr>upstream_map = Map.empty, addresses = 0\<rparr>"

definition blank_address :: UpstreamAddress where
  "blank_address = new_address (\<lambda>_. 0) [] \<lparr>max_fails = 0, weight = 0, server_type = 0, group_id = 0\<rparr>"

definition new_upstream :: Upstream where
  "new_upstream = upstream_init (\<lambda>_. blank_address)"

definition create_consistent :: "string \<Rightarrow> upstream_route option \<Rightarrow> upstream_manager \<Rightarrow> int \<times> upstream_manager" where
  "create_consistent name f mg =
     (if upstream_map mg name = None
      then (0, mg\<lparr>upstream_map := (upstream_map mg)(name \<mapsto> set_consistent_mode f new_upstream)\<rparr>) else (-1, mg))"

definition create_weighted :: "string \<Rightarrow> bool \<Rightarrow> upstream_manager \<Rightarrow> int \<times> upstream_manager" where
  "create_weighted name again mg =
     (if upstream_map mg name = None
      then (0, mg\<lparr>upstream_map := (upstream_map mg)(name \<mapsto> set_attr again None new_upstream)\<rparr>) else (-1, mg))"

definition create_manual :: "string \<Rightarrow> upstream_route option \<Rightarrow> bool \<Rightarrow> upstream_route option \<Rightarrow> upstream_manager \<Rightarrow> int \<times> upstream_manager" where
  "create_manual name select again f mg =
     (if upstream_map mg name = None
      then (0, mg\<lparr>upstream_map := (upstream_map mg)(name \<mapsto> set_attr again f (set_select_callback select new_upstream))\<rparr>) else (0, mg))"

definition construct :: "(string \<Rightarrow> 32 word) \<Rightarrow> string \<Rightarrow> AddressParams \<Rightarrow> nat \<Rightarrow> Upstream \<Rightarrow> Upstream" where
  "construct std_hash addr ps a us = upd_addr a (\<lambda>_. new_address std_hash addr ps) us"

definition manager_add_server :: "(string \<Rightarrow> 32 word) \<Rightarrow> string \<Rightarrow> string \<Rightarrow> AddressParams \<Rightarrow> upstream_manager \<Rightarrow> int \<times> upstream_manager" where
  "manager_add_server std_hash name addr ps mg =
     (let a = addresses mg; mg = mg\<lparr>addresses := a + 1\<rparr> in
      case upstream_map mg name of
        None \<Rightarrow> (-1, mg)
      | Some us \<Rightarrow> (0, mg\<lparr>upstream_map := (upstream_map mg)(name \<mapsto> upstream_add a (construct std_hash addr ps a us))\<rparr>))"

text \<open>\<open>None\<close> is a null group pointer in \<^verbatim>\<open>Upstream::del\<close>.\<close>

definition manager_remove_server :: "string \<Rightarrow> string \<Rightarrow> upstream_manager \<Rightarrow> (int \<times> upstream_manager) option" where
  "manager_remove_server name addr mg =
     (case upstream_map mg name of
        None \<Rightarrow> Some (-1, mg)
      | Some us \<Rightarrow> map_option (\<lambda>(n, us). (int n, mg\<lparr>upstream_map := (upstream_map mg)(name \<mapsto> us)\<rparr>)) (upstream_del addr us))"

definition manager_replace_server ::
    "(string \<Rightarrow> 32 word) \<Rightarrow> string \<Rightarrow> string \<Rightarrow> AddressParams \<Rightarrow> upstream_manager \<Rightarrow> (int \<times> upstream_manager) option" where
  "manager_replace_server std_hash name addr ps mg =
     (let a = addresses mg; mg = mg\<lparr>addresses := a + 1\<rparr> in
      case upstream_map mg name of
        None \<Rightarrow> Some (-1, mg)
      | Some us \<Rightarrow> map_option (\<lambda>(n, us). (0, mg\<lparr>upstream_map := (upstream_map mg)(name \<mapsto> upstream_add a (construct std_hash addr ps a us))\<rparr>))
          (upstream_del addr us))"

text \<open>\<open>mem\<close> says whether the two calls of \<^verbatim>\<open>strdup\<close> find memory.\<close>

definition manager_choose ::
    "env \<Rightarrow> bool \<times> bool \<Rightarrow> ParsedURI \<Rightarrow> upstream_manager \<Rightarrow> int \<times> ParsedURI \<times> upstream_result \<times> upstream_manager" where
  "manager_choose e mem uri mg =
     (let res = \<lparr>cookie = None, address_params = None, upstream_state = UPSTREAM_NOTFOUND\<rparr> in
      if state uri \<noteq> URI_STATE_SUCCESS \<or> host uri = None then (0, uri, res, mg)
      else case upstream_map mg (the (host uri)) of
        None \<Rightarrow> (0, uri, res, mg)
      | Some us \<Rightarrow>
          (let (r, us) = upstream_get e uri us; mg = mg\<lparr>upstream_map := (upstream_map mg)(the (host uri) \<mapsto> us)\<rparr> in
           case r of
             None \<Rightarrow> (0, uri, res\<lparr>upstream_state := UPSTREAM_ALL_DOWN\<rparr>, mg)
           | Some a \<Rightarrow>
               (let ua = addrs us a in
                if ua_host ua \<noteq> [] \<and> \<not> fst mem then (-1, uri, res, mg)
                else if port_value ua > 0 \<and> \<not> snd mem then (-1, uri, res, mg)
                else (0, (if port_value ua > 0 then uri\<lparr>port := Some (ua_port ua)\<rparr> else uri)
                           \<lparr>host := (if ua_host ua = [] then None else Some (ua_host ua))\<rparr>,
                      \<lparr>cookie = Some (the (host uri), a), address_params = Some (params ua), upstream_state = UPSTREAM_SUCCESS\<rparr>, mg))))"

definition cookie_available :: "(string \<times> nat) option \<Rightarrow> upstream_manager \<Rightarrow> upstream_manager" where
  "cookie_available c mg =
     (case c of None \<Rightarrow> mg
      | Some (name, a) \<Rightarrow> mg\<lparr>upstream_map := (upstream_map mg)(name := map_option (notify_available a) (upstream_map mg name))\<rparr>)"

definition cookie_unavailable :: "int \<Rightarrow> (string \<times> nat) option \<Rightarrow> upstream_manager \<Rightarrow> upstream_manager" where
  "cookie_unavailable now c mg =
     (case c of None \<Rightarrow> mg
      | Some (name, a) \<Rightarrow> mg\<lparr>upstream_map := (upstream_map mg)(name := map_option (notify_unavailable now a) (upstream_map mg name))\<rparr>)"

definition upstream_master_addresses :: "Upstream \<Rightarrow> string list" where
  "upstream_master_addresses us = map (\<lambda>a. address (addrs us a)) (masters us)"

subsection \<open>Numbers not in use stay free\<close>

lemma unused_config:
  assumes "same_config us us'" "unused b us" and "\<And>g. b \<in> set (breaker_list (groups us' g)) \<Longrightarrow> b \<in> set (breaker_list (groups us g))"
  shows "unused b us'"
  using assms by (auto simp: unused_def same_config_def)

lemma breaker_kept:
  "ua_group (addrs us b) = None \<Longrightarrow> b \<in> set (breaker_list (groups (enlist now h a us) g)) \<Longrightarrow> b = a \<or> b \<in> set (breaker_list (groups us g))"
  "ua_group (addrs us b) = None \<Longrightarrow> b \<in> set (breaker_list (groups (disable_one now a us) g)) \<Longrightarrow> b \<in> set (breaker_list (groups us g))"
  "ua_group (addrs us b) = None \<Longrightarrow> b \<in> set (breaker_list (groups (notify_unavailable now a us) g)) \<Longrightarrow> b \<in> set (breaker_list (groups us g))"
  "b \<in> set (breaker_list (groups (notify_available a us) g)) \<Longrightarrow> b \<in> set (breaker_list (groups us g))"
  "b \<in> set (breaker_list (groups (check_entry now h a us) g)) \<Longrightarrow> b \<in> set (breaker_list (groups us g))"
  by (auto simp: enlist_def disable_one_def notify_available_def notify_unavailable_def check_entry_def Let_def us_simps
      split: option.splits if_splits dest: notin_set_remove1 set_remove1_subset [THEN subsetD])

lemma unused_steps:
  assumes "unused b us"
  shows "unused b (disable_one now a us)" "unused b (notify_unavailable now a us)" "unused b (notify_available a us)" "unused b (check_entry now h a us)"
proof -
  have n: "ua_group (addrs us b) = None" using assms by (simp add: unused_def)
  show "unused b (disable_one now a us)" by (rule unused_config [OF config_steps(2) assms breaker_kept(2) [OF n]])
  show "unused b (notify_unavailable now a us)" by (rule unused_config [OF config_steps(4) assms breaker_kept(3) [OF n]])
  show "unused b (notify_available a us)" by (rule unused_config [OF config_steps(3) assms breaker_kept(4)])
  show "unused b (check_entry now h a us)" by (rule unused_config [OF config_steps(5) assms breaker_kept(5)])
qed

lemma unused_fold: "(\<And>a us. unused b us \<Longrightarrow> unused b (f a us)) \<Longrightarrow> unused b us \<Longrightarrow> unused b (fold f as us)"
  by (induction as arbitrary: us) simp_all

lemma unused_check_all: "unused b us \<Longrightarrow> unused b (check_all_breaker now us)"
  unfolding check_all_breaker_def check_one_breaker_def
  by (intro unused_fold) (auto intro: unused_fold unused_steps)

lemma unused_reordered: "reordered us us' \<Longrightarrow> unused b us \<Longrightarrow> unused b us'"
  by (simp add: unused_def reordered_sel)

lemma unused_get:
  assumes "upstream_reach us" "shuffles (shuffler e)" "unused b us"
  shows "unused b (snd (upstream_get e uri us))"
proof -
  obtain us1 where "us1 = us \<or> us1 = check_all_breaker (clock e) us" "chosen us1 (upstream_get e uri us)"
    using upstream_get_ok [OF _ _ assms(2)] reach_inv [OF assms(1)] by blast
  then show ?thesis using unused_check_all [OF assms(3)] assms(3) unused_reordered by (auto simp: chosen_def)
qed

lemma unused_add:
  assumes "unused b us" "b \<noteq> a"
  shows "unused b (upstream_add a (construct h addr ps a us))"
proof -
  let ?us = "construct h addr ps a us"
  have e: "upstream_add a ?us = (enter a (find_group (gid_of ?us a) ?us))\<lparr>server_map := server_map (upstream_add a ?us)\<rparr>"
    by (simp add: upstream_add_def set_map_def Let_def map_commute enter_map_commute)
  have "unused b (find_group (gid_of ?us a) ?us)"
    using assms by (auto simp: unused_def find_group_def construct_def upd_addr_def new_group_def set_insort_key)
  then have "unused b (enter a (find_group (gid_of ?us a) ?us))"
    using assms(2) by (simp add: unused_def enter_def Let_def us_simps)
  then show ?thesis by (subst e) (simp add: unused_def)
qed

lemma unused_del_one: "del_one a us = Some us' \<Longrightarrow> unused b us \<Longrightarrow> unused b us'"
  by (auto simp: del_one_def Let_def us_simps unused_def split: option.splits if_splits)

lemma unused_del_loop: "del_loop as us = Some us' \<Longrightarrow> unused b us \<Longrightarrow> unused b us'"
  by (induction as us rule: del_loop.induct) (auto dest: unused_del_one split: option.splits)

lemma unused_del:
  assumes "upstream_del addr us = Some (n, us')" "unused b us"
  shows "unused b us'"
proof -
  have k: "unused b (us1\<lparr>masters := ms\<rparr>) = unused b us1" "unused b (us1\<lparr>server_map := m\<rparr>) = unused b us1"
    "unused b (us1\<lparr>server_map := m, masters := ms\<rparr>) = unused b us1" for us1 ms m by (simp_all add: unused_def)
  show ?thesis using assms unused_del_loop by (auto simp: upstream_del_def Let_def k split: option.splits)
qed

subsection \<open>Reachable managers\<close>

inductive manager_reach :: "upstream_manager \<Rightarrow> bool" where
  init: "manager_reach manager_init"
| consistent: "manager_reach mg \<Longrightarrow> manager_reach (snd (create_consistent name f mg))"
| weighted: "manager_reach mg \<Longrightarrow> manager_reach (snd (create_weighted name again mg))"
| manual: "manager_reach mg \<Longrightarrow> manager_reach (snd (create_manual name select again f mg))"
| add: "manager_reach mg \<Longrightarrow> 0 \<le> weight ps \<Longrightarrow> manager_reach (snd (manager_add_server h name addr ps mg))"
| remove: "manager_reach mg \<Longrightarrow> manager_remove_server name addr mg = Some (rc, mg') \<Longrightarrow> manager_reach mg'"
| replace: "manager_reach mg \<Longrightarrow> 0 \<le> weight ps \<Longrightarrow> manager_replace_server h name addr ps mg = Some (rc, mg') \<Longrightarrow> manager_reach mg'"
| choose: "manager_reach mg \<Longrightarrow> shuffles (shuffler e) \<Longrightarrow> manager_choose e mem uri mg = (rc, uri', res, mg') \<Longrightarrow> manager_reach mg'"
| available: "manager_reach mg \<Longrightarrow> manager_reach (cookie_available c mg)"
| unavailable: "manager_reach mg \<Longrightarrow> (\<And>name a us. c = Some (name, a) \<Longrightarrow> upstream_map mg name = Some us \<Longrightarrow> fail_count (addrs us a) + 1 < 2 ^ 32) \<Longrightarrow>
    manager_reach (cookie_unavailable now c mg)"

definition manager_inv :: "upstream_manager \<Rightarrow> bool" where
  "manager_inv mg \<longleftrightarrow> (\<forall>name us. upstream_map mg name = Some us \<longrightarrow> upstream_reach us \<and> (\<forall>a \<ge> addresses mg. unused a us))"

lemma manager_invD: "manager_inv mg \<Longrightarrow> upstream_map mg name = Some us \<Longrightarrow> upstream_reach us \<and> (\<forall>a \<ge> addresses mg. unused a us)"
  by (simp add: manager_inv_def)

lemma manager_inv_upd:
  "manager_inv mg \<Longrightarrow> upstream_reach us \<Longrightarrow> (\<And>a. addresses mg \<le> a \<Longrightarrow> unused a us) \<Longrightarrow>
   manager_inv (mg\<lparr>upstream_map := (upstream_map mg)(name \<mapsto> us)\<rparr>)"
  by (simp add: manager_inv_def)

lemma manager_inv_grow: "manager_inv mg \<Longrightarrow> manager_inv (mg\<lparr>addresses := Suc (addresses mg)\<rparr>)"
  by (simp add: manager_inv_def)

lemma new_upstream_ok:
  "upstream_reach (set_consistent_mode f new_upstream)" "upstream_reach (set_attr again f new_upstream)"
  "upstream_reach (set_attr again f (set_select_callback g new_upstream))"
  "unused a (set_consistent_mode f new_upstream)" "unused a (set_attr again f new_upstream)"
  "unused a (set_attr again f (set_select_callback g new_upstream))"
proof -
  have "upstream_reach new_upstream"
    unfolding new_upstream_def by (rule upstream_reach.init) (simp add: blank_address_def new_address_def Let_def)
  then show "upstream_reach (set_consistent_mode f new_upstream)" "upstream_reach (set_attr again f new_upstream)"
    "upstream_reach (set_attr again f (set_select_callback g new_upstream))" by (auto intro: upstream_reach.intros)
qed (simp_all add: unused_def set_consistent_mode_def set_attr_def set_select_callback_def new_upstream_def upstream_init_def new_group_def
    blank_address_def new_address_def Let_def)

lemma created_inv:
  "manager_inv mg \<Longrightarrow> manager_inv (snd (create_consistent name f mg))" "manager_inv mg \<Longrightarrow> manager_inv (snd (create_weighted name again mg))"
  "manager_inv mg \<Longrightarrow> manager_inv (snd (create_manual name select again f mg))"
  by (auto simp: create_consistent_def create_weighted_def create_manual_def intro!: manager_inv_upd new_upstream_ok)

lemma add_step:
  assumes "upstream_reach us" "\<And>a. n \<le> a \<Longrightarrow> unused a us" "0 \<le> weight ps"
  shows "upstream_reach (upstream_add n (construct h addr ps n us))" "Suc n \<le> a \<Longrightarrow> unused a (upstream_add n (construct h addr ps n us))"
  using upstream_reach.add [OF assms(1,2,3)] unused_add [OF assms(2)] by (simp_all add: construct_def)

lemma add_server_inv:
  assumes "manager_inv mg" "0 \<le> weight ps"
  shows "manager_inv (snd (manager_add_server h name addr ps mg))"
proof (cases "upstream_map mg name")
  case (Some us)
  note M = manager_invD [OF assms(1) Some]
  have e: "snd (manager_add_server h name addr ps mg) = mg\<lparr>addresses := Suc (addresses mg), upstream_map := (upstream_map mg)(name \<mapsto>
      upstream_add (addresses mg) (construct h addr ps (addresses mg) us))\<rparr>"
    using Some by (simp add: manager_add_server_def Let_def)
  have "upstream_reach us" "\<And>a. addresses mg \<le> a \<Longrightarrow> unused a us" using M by blast+
  from add_step [OF this assms(2)] show ?thesis using assms(1) by (auto simp: e manager_inv_def)
qed (use manager_inv_grow [OF assms(1)] in \<open>simp add: manager_add_server_def Let_def\<close>)

lemma del_reach:
  assumes "upstream_reach us"
  obtains us' where "upstream_del addr us = Some (length (filter (master us) (named addr us)), us')" "upstream_reach us'"
    "addrs us' = (\<lambda>a. if a \<in> set (named addr us) then (addrs us a)\<lparr>ua_group := None\<rparr> else addrs us a)"
    "\<And>a. unused a us \<Longrightarrow> unused a us'"
  using upstream_del_ok [of us addr] reach_inv [OF assms] upstream_reach.del [OF assms] unused_del by blast

lemma remove_inv:
  assumes "manager_inv mg" "manager_remove_server name addr mg = Some (rc, mg')"
  shows "manager_inv mg'"
proof (cases "upstream_map mg name")
  case (Some us)
  note M = manager_invD [OF assms(1) Some]
  obtain us' where us': "upstream_del addr us = Some (length (filter (master us) (named addr us)), us')" "upstream_reach us'"
    "\<And>a. unused a us \<Longrightarrow> unused a us'" using del_reach M by metis
  have "mg' = mg\<lparr>upstream_map := (upstream_map mg)(name \<mapsto> us')\<rparr>" using assms(2) Some us'(1) by (simp add: manager_remove_server_def)
  then show ?thesis using manager_inv_upd [OF assms(1) us'(2)] us'(3) M by simp
qed (use assms in \<open>simp add: manager_remove_server_def\<close>)

lemma replace_inv:
  assumes "manager_inv mg" "0 \<le> weight ps" "manager_replace_server h name addr ps mg = Some (rc, mg')"
  shows "manager_inv mg'"
proof (cases "upstream_map mg name")
  case (Some us)
  note M = manager_invD [OF assms(1) Some]
  obtain us' where us': "upstream_del addr us = Some (length (filter (master us) (named addr us)), us')" "upstream_reach us'"
    "\<And>a. unused a us \<Longrightarrow> unused a us'" using del_reach M by metis
  have e: "mg' = mg\<lparr>addresses := Suc (addresses mg), upstream_map := (upstream_map mg)(name \<mapsto>
      upstream_add (addresses mg) (construct h addr ps (addresses mg) us'))\<rparr>"
    using assms(3) Some us'(1) by (simp add: manager_replace_server_def Let_def)
  have "unused a us'" if "addresses mg \<le> a" for a using us'(3) M that by blast
  from add_step [OF us'(2) this assms(2)] show ?thesis using assms(1) by (auto simp: e manager_inv_def)
qed (use assms manager_inv_grow [OF assms(1)] in \<open>auto simp: manager_replace_server_def Let_def\<close>)

lemma choose_state:
  assumes "manager_choose e mem uri mg = (rc, uri', res, mg')"
  shows "mg' = mg \<or> (\<exists>us. upstream_map mg (the (host uri)) = Some us \<and>
    mg' = mg\<lparr>upstream_map := (upstream_map mg)(the (host uri) \<mapsto> snd (upstream_get e uri us))\<rparr>)"
  using assms by (auto simp: manager_choose_def Let_def split: if_splits option.splits prod.splits)

lemma choose_inv:
  assumes inv: "manager_inv mg" and sh: "shuffles (shuffler e)" and c: "manager_choose e mem uri mg = (rc, uri', res, mg')"
  shows "manager_inv mg'"
proof -
  have "manager_inv (mg\<lparr>upstream_map := (upstream_map mg)(the (host uri) \<mapsto> snd (upstream_get e uri us))\<rparr>)"
    if us: "upstream_map mg (the (host uri)) = Some us" for us
  proof (rule manager_inv_upd [OF inv])
    note M = manager_invD [OF inv us]
    show "upstream_reach (snd (upstream_get e uri us))" using upstream_reach.get [OF _ sh prod.collapse [symmetric]] M by blast
    show "unused a (snd (upstream_get e uri us))" if "addresses mg \<le> a" for a using unused_get [OF _ sh] M that by blast
  qed
  then show ?thesis using choose_state [OF c] inv by auto
qed

lemma cookie_inv:
  assumes inv: "manager_inv mg"
  shows "manager_inv (cookie_available c mg)"
    "(\<And>name a us. c = Some (name, a) \<Longrightarrow> upstream_map mg name = Some us \<Longrightarrow> fail_count (addrs us a) + 1 < 2 ^ 32) \<Longrightarrow>
     manager_inv (cookie_unavailable now c mg)"
  using inv by (auto simp: cookie_available_def cookie_unavailable_def manager_inv_def split: option.split
      intro: upstream_reach.available upstream_reach.unavailable unused_steps)

lemma manager_reach_inv: "manager_reach mg \<Longrightarrow> manager_inv mg"
  by (induction rule: manager_reach.induct)
    (auto simp: manager_init_def manager_inv_def [of "manager_init"] created_inv add_server_inv cookie_inv
      intro: remove_inv replace_inv choose_inv, simp_all add: manager_inv_def manager_init_def)

text \<open>C19: removing an address from a known upstream always succeeds, unregisters every server of that address and no other, and keeps the
  upstream consistent; it answers a number that is at least 0 and, when the servers of that address are all masters, is the number of servers it
  removed. An unknown name gives -1 and changes nothing.\<close>

theorem remove_server_counts:
  assumes r: "manager_reach mg"
  shows "case upstream_map mg name of
      None \<Rightarrow> manager_remove_server name addr mg = Some (-1, mg)
    | Some us \<Rightarrow> \<exists>n us'. manager_remove_server name addr mg = Some (int n, mg\<lparr>upstream_map := (upstream_map mg)(name \<mapsto> us')\<rparr>) \<and>
        ((\<forall>a. ua_group (addrs us a) \<noteq> None \<and> address (addrs us a) = addr \<longrightarrow> master us a) \<longrightarrow>
          n = card {a. ua_group (addrs us a) \<noteq> None \<and> ua_group (addrs us' a) = None}) \<and>
        upstream_inv us' \<and>
        (\<forall>a. ua_group (addrs us' a) = (if address (addrs us a) = addr then None else ua_group (addrs us a)))"
proof (cases "upstream_map mg name")
  case (Some us)
  have re: "upstream_reach us" using manager_invD [OF manager_reach_inv [OF r] Some] by blast
  obtain us' where us': "upstream_del addr us = Some (length (filter (master us) (named addr us)), us')" "upstream_reach us'"
    "addrs us' = (\<lambda>a. if a \<in> set (named addr us) then (addrs us a)\<lparr>ua_group := None\<rparr> else addrs us a)" by (rule del_reach [OF re])
  note N = named_ok [OF upstream_invD(9) [OF conjunct1 [OF reach_inv [OF re]]], where addr = addr]
  have g: "ua_group (addrs us' a) = (if address (addrs us a) = addr then None else ua_group (addrs us a))" for a
    using N(2) [of a] by (auto simp: us'(3))
  have n: "length (filter (master us) (named addr us)) = card {a. ua_group (addrs us a) \<noteq> None \<and> ua_group (addrs us' a) = None}"
    if "\<forall>a. ua_group (addrs us a) \<noteq> None \<and> address (addrs us a) = addr \<longrightarrow> master us a"
  proof -
    have "filter (master us) (named addr us) = named addr us" by (rule filter_True) (use that N(2) in blast)
    moreover have "set (named addr us) = {a. ua_group (addrs us a) \<noteq> None \<and> ua_group (addrs us' a) = None}" by (rule set_eqI) (simp add: N(2) g del: not_None_eq)
    ultimately show ?thesis using distinct_card [OF N(1)] by simp
  qed
  have inv: "upstream_inv us'" using reach_inv [OF us'(2)] by blast
  have e: "manager_remove_server name addr mg =
      Some (int (length (filter (master us) (named addr us))), mg\<lparr>upstream_map := (upstream_map mg)(name \<mapsto> us')\<rparr>)"
    using Some us'(1) by (simp add: manager_remove_server_def)
  show ?thesis
    unfolding Some option.case
    by (rule exI [of _ "length (filter (master us) (named addr us))"], rule exI [of _ us'], intro conjI e inv allI g impI, erule n)
qed (simp add: manager_remove_server_def)

text \<open>C18: what \<^verbatim>\<open>choose\<close> answers, in every case. A URI that failed to parse, has no host or names no upstream is NOTFOUND and nothing
  changes. Otherwise the upstream is asked, and its new state kept: without a server the answer is ALL_DOWN; with one, which is registered and up,
  lack of memory for its host or port gives -1 and leaves the URI as it was, and else the URI's host and, if the server has one, port are
  replaced by those of the server, and the cookie names it.\<close>

theorem choose_outcomes:
  assumes r: "manager_reach mg" and sh: "shuffles (shuffler e)" and c: "manager_choose e mem uri mg = (rc, uri', res, mg')"
  shows "if state uri \<noteq> URI_STATE_SUCCESS \<or> host uri = None \<or> upstream_map mg (the (host uri)) = None
    then rc = 0 \<and> upstream_state res = UPSTREAM_NOTFOUND \<and> cookie res = None \<and> uri' = uri \<and> mg' = mg
    else \<exists>us s us'. upstream_map mg (the (host uri)) = Some us \<and> upstream_get e uri us = (s, us') \<and>
      mg' = mg\<lparr>upstream_map := (upstream_map mg)(the (host uri) \<mapsto> us')\<rparr> \<and>
      (case s of
         None \<Rightarrow> rc = 0 \<and> upstream_state res = UPSTREAM_ALL_DOWN \<and> cookie res = None \<and> uri' = uri
       | Some a \<Rightarrow> serves us' a \<and>
           (if ua_host (addrs us' a) \<noteq> [] \<and> \<not> fst mem \<or> port_value (addrs us' a) > 0 \<and> \<not> snd mem
            then rc = -1 \<and> cookie res = None \<and> uri' = uri
            else rc = 0 \<and> upstream_state res = UPSTREAM_SUCCESS \<and> cookie res = Some (the (host uri), a) \<and>
              address_params res = Some (params (addrs us' a)) \<and>
              host uri' = (if ua_host (addrs us' a) = [] then None else Some (ua_host (addrs us' a))) \<and>
              port uri' = (if port_value (addrs us' a) > 0 then Some (ua_port (addrs us' a)) else port uri) \<and>
              uri' = uri\<lparr>host := host uri', port := port uri'\<rparr>))"
proof (cases "state uri \<noteq> URI_STATE_SUCCESS \<or> host uri = None \<or> upstream_map mg (the (host uri)) = None")
  case True
  then show ?thesis using c by (auto simp: manager_choose_def Let_def split: if_splits option.splits)
next
  case False
  then obtain us where us: "upstream_map mg (the (host uri)) = Some us" by blast
  obtain s us' where g: "upstream_get e uri us = (s, us')" by fastforce
  have inv: "upstream_inv us" "built us" using reach_inv manager_invD [OF manager_reach_inv [OF r] us] by blast+
  have sv: "serves us' a" if "s = Some a" for a using get_serves [OF inv sh] g that by blast
  have mg': "mg' = mg\<lparr>upstream_map := (upstream_map mg)(the (host uri) \<mapsto> us')\<rparr>"
    using c False us g by (auto simp: manager_choose_def Let_def split: option.splits if_splits)
  show ?thesis
    unfolding if_not_P [OF False]
    by (rule exI [of _ us], rule exI [of _ s], rule exI [of _ us'], intro conjI us g mg')
      (use c False us g sv in \<open>auto simp: manager_choose_def Let_def split: option.splits if_splits\<close>)
qed

subsection \<open>A concrete manager\<close>

definition some_manager :: upstream_manager where
  "some_manager = snd (manager_add_server hash_len ''up'' ''h:80'' ((plain (-1))\<lparr>server_type := 1\<rparr>)
     (snd (manager_add_server hash_len ''up'' ''h:80'' (plain (-1)) (snd (create_weighted ''up'' True manager_init)))))"

definition up_uri :: ParsedURI where
  "up_uri = uri_init\<lparr>host := Some ''up'', state := URI_STATE_SUCCESS\<rparr>"

lemma some_manager_reach: "manager_reach some_manager"
  unfolding some_manager_def by (intro manager_reach.intros) (simp_all add: plain_def)

lemma some_manager_eval:
  "upstream_map some_manager ''up'' \<noteq> None"
  "address (addrs (the (upstream_map some_manager ''up'')) 0) = ''h:80''" "address (addrs (the (upstream_map some_manager ''up'')) 1) = ''h:80''"
  "map_option fst (manager_remove_server ''up'' ''h:80'' some_manager) = Some 1"
  "fst (manager_choose quiet (True, True) up_uri some_manager) = 0"
  "upstream_state (fst (snd (snd (manager_choose quiet (True, True) up_uri some_manager)))) = UPSTREAM_SUCCESS"
  by code_simp+

definition two_masters :: upstream_manager where
  "two_masters = snd (manager_add_server hash_len ''up'' ''h:80'' (plain (-1))
     (snd (manager_add_server hash_len ''up'' ''h:80'' (plain (-1)) (snd (create_weighted ''up'' True manager_init)))))"

lemma two_masters_reach: "manager_reach two_masters"
  unfolding two_masters_def by (intro manager_reach.intros) (simp_all add: plain_def)

lemma two_masters_eval:
  "upstream_map two_masters ''up'' \<noteq> None" "addresses two_masters = 2"
  "address (addrs (the (upstream_map two_masters ''up'')) 0) = ''h:80''" "address (addrs (the (upstream_map two_masters ''up'')) 1) = ''h:80''"
  "ua_group (addrs (the (upstream_map two_masters ''up'')) 0) \<noteq> None" "ua_group (addrs (the (upstream_map two_masters ''up'')) 1) \<noteq> None"
  "master (the (upstream_map two_masters ''up'')) 0" "master (the (upstream_map two_masters ''up'')) 1"
  by code_simp+

theorem remove_server_counts_witness:
  "\<exists>us' mg'. manager_remove_server ''up'' ''h:80'' two_masters = Some (2, mg') \<and> upstream_map mg' ''up'' = Some us' \<and>
     upstream_inv us' \<and> ua_group (addrs us' 0) = None \<and> ua_group (addrs us' 1) = None"
proof -
  obtain us where us: "upstream_map two_masters ''up'' = Some us" using two_masters_eval(1) by blast
  have u: "unused a us" if "2 \<le> a" for a using manager_invD [OF manager_reach_inv [OF two_masters_reach] us] that by (simp add: two_masters_eval(2))
  have l: "a < 2" if "ua_group (addrs us a) \<noteq> None" for a using u [of a] that by (auto simp: unused_def not_less [symmetric])
  have k: "address (addrs us a) = ''h:80''" "ua_group (addrs us a) \<noteq> None" "master us a" if "a < 2" for a
    using two_masters_eval(3-8) that unfolding us option.sel by (auto simp: less_2_cases_iff)
  obtain n us' where n: "manager_remove_server ''up'' ''h:80'' two_masters = Some (int n, two_masters\<lparr>upstream_map := (upstream_map two_masters)(''up'' \<mapsto> us')\<rparr>)"
    "n = card {a. ua_group (addrs us a) \<noteq> None \<and> ua_group (addrs us' a) = None}" "upstream_inv us'"
    "\<forall>a. ua_group (addrs us' a) = (if address (addrs us a) = ''h:80'' then None else ua_group (addrs us a))"
    using remove_server_counts [OF two_masters_reach, of "''up''" "''h:80''"] l k(3) by (auto simp: us)
  have "{a. ua_group (addrs us a) \<noteq> None \<and> ua_group (addrs us' a) = None} = {..<2}" using l k n(4) by auto
  then have "n = 2" using n(2) by simp
  then show ?thesis using n(1,3,4) k(1) by auto
qed

theorem choose_outcomes_witness:
  "case manager_choose quiet (True, True) up_uri some_manager of (rc, uri', res, mg') \<Rightarrow>
     \<exists>us' a. upstream_map mg' ''up'' = Some us' \<and> cookie res = Some (''up'', a) \<and> serves us' a \<and> address_params res = Some (params (addrs us' a))"
proof -
  obtain rc uri' res mg' where c: "manager_choose quiet (True, True) up_uri some_manager = (rc, uri', res, mg')" by (metis prod_cases4)
  have h: "host up_uri = Some ''up''" by (simp add: up_uri_def)
  have ok: "state up_uri = URI_STATE_SUCCESS" "upstream_map some_manager ''up'' \<noteq> None" "upstream_state res = UPSTREAM_SUCCESS" "rc = 0"
    using some_manager_eval(1,5,6) c by (simp_all add: up_uri_def)
  obtain a us' where "mg' = some_manager\<lparr>upstream_map := (upstream_map some_manager)(''up'' \<mapsto> us')\<rparr>"
    "serves us' a" "cookie res = Some (''up'', a)" "address_params res = Some (params (addrs us' a))"
    using choose_outcomes [OF some_manager_reach quiet_shuffles c] ok h by (auto split: option.splits)
  then show ?thesis unfolding c by auto
qed

end
