(* ===== verification/RouteManager.thy ===== *)
theory RouteManager imports CommSched HttpParser StringUtil begin

text \<open>
  Routes of \<^verbatim>\<open>manager/RouteManager.cc\<close>: for a set of addresses, a router owns one target per address and, with
  more than one, a scheduling group of them; targets that fail leave the group for 30 seconds. Also the
  functions of \<^verbatim>\<open>util/MD5Util.cc\<close> that make the key of a route. The digest of OpenSSL, the clock and the outcome of
  initialisers and allocations are arguments. The group of a router is number 1, its targets are 2, 3, \<open>\<dots>\<close>
\<close>

subsection \<open>Keys\<close>

definition hex_char :: "nat \<Rightarrow> char" where
  "hex_char v = (if v < 10 then char_of (48 + v) else char_of (97 + (v - 10)))"

definition plain_hex :: "char \<Rightarrow> string" where
  "plain_hex c = [hex_char (ord c div 16), hex_char (ord c mod 16)]"

definition md5_string_32 :: "(string \<Rightarrow> string) \<Rightarrow> string \<Rightarrow> string" where
  "md5_string_32 md5 s = concat (map plain_hex (take 16 (md5 s)))"

definition md5_string_16 :: "(string \<Rightarrow> string) \<Rightarrow> string \<Rightarrow> string" where
  "md5_string_16 md5 s = concat (map (\<lambda>i. plain_hex (md5 s ! (i + 4))) [0..<8])"

text \<open>\<^verbatim>\<open>memcpy\<close> of 8 bytes into a 64-bit integer, little endian.\<close>

fun le_int :: "string \<Rightarrow> nat" where
  "le_int [] = 0"
| "le_int (c # cs) = ord c + 256 * le_int cs"

definition md5_integer_32 :: "(string \<Rightarrow> string) \<Rightarrow> string \<Rightarrow> nat \<times> nat" where
  "md5_integer_32 md5 s = (let md = md5 s in (le_int (take 8 md), le_int (take 8 (drop 8 md))))"

definition md5_integer_16 :: "(string \<Rightarrow> string) \<Rightarrow> string \<Rightarrow> nat" where
  "md5_integer_16 md5 s = le_int (take 8 (drop 4 (md5 s)))"

fun memcmp :: "string \<Rightarrow> string \<Rightarrow> int" where
  "memcmp (c # cs) (d # ds) = (if ord c < ord d then -1 else if ord c > ord d then 1 else memcmp cs ds)"
| "memcmp _ _ = 0"

text \<open>An address is given by the bytes of its \<^verbatim>\<open>ai_addr\<close>.\<close>

definition addr_cmp :: "string \<Rightarrow> string \<Rightarrow> int" where
  "addr_cmp x y = (if length x = length y then memcmp x y else if length x < length y then -1 else 1)"

definition addr_less :: "string \<Rightarrow> string \<Rightarrow> bool" where
  "addr_less x y \<longleftrightarrow> addr_cmp x y < 0"

text \<open>\<^verbatim>\<open>std::sort\<close> with \<^verbatim>\<open>__addr_less\<close>; addresses that compare equal are equal.\<close>

fun insert_addr :: "string \<Rightarrow> string list \<Rightarrow> string list" where
  "insert_addr x [] = [x]"
| "insert_addr x (y # ys) = (if addr_less y x then y # insert_addr x ys else x # y # ys)"

definition sort_addr :: "string list \<Rightarrow> string list" where
  "sort_addr xs = foldr insert_addr xs []"

datatype TransportType = TT_TCP | TT_UDP | TT_SCTP | TT_TCP_SSL | TT_SCTP_SSL

fun type_digit :: "TransportType \<Rightarrow> char" where
  "type_digit TT_TCP = CHR ''0''" | "type_digit TT_UDP = CHR ''1''" | "type_digit TT_SCTP = CHR ''2''"
| "type_digit TT_TCP_SSL = CHR ''3''" | "type_digit TT_SCTP_SSL = CHR ''4''"

definition key_text :: "TransportType \<Rightarrow> string list \<Rightarrow> string \<Rightarrow> string" where
  "key_text type addrs other_info =
     ''TT'' @ [type_digit type, CHR 0x0A] @ (if other_info = [] then [] else other_info @ [CHR 0x0A]) @
     concat (map (\<lambda>a. a @ [CHR 0x0A]) (sort_addr addrs))"

definition generate_key :: "(string \<Rightarrow> string) \<Rightarrow> TransportType \<Rightarrow> string list \<Rightarrow> string \<Rightarrow> nat" where
  "generate_key md5 type addrs other_info = md5_integer_16 md5 (key_text type addrs other_info)"

subsection \<open>Routers\<close>

datatype target_class = RouteTargetTCP | RouteTargetUDP | RouteTargetSCTP

datatype request_object = NullObject | TargetObject nat | GroupObject

record RouterParams =
  transport_type :: TransportType
  rp_addrs :: "string list"
  rp_md5 :: nat
  connect_timeout :: int
  response_timeout :: int
  max_connections :: nat

record Router =
  rsched :: sched
  classes :: "nat \<Rightarrow> target_class"
  has_group :: bool
  request_object :: request_object
  targets :: "nat list"
  breakers :: "(nat \<times> int) list"
  md5_16 :: nat
  nleft :: int
  nbreak :: int

text \<open>The outcome of \<^verbatim>\<open>CommTarget::init\<close> for each target and of the initialisers of the group, and whether \<^verbatim>\<open>realloc\<close>
  finds memory when a target enters the group.\<close>

record init_env =
  base_init :: "nat \<Rightarrow> string \<Rightarrow> int \<Rightarrow> int \<Rightarrow> errno option"
  group_base :: "errno option"
  realloc :: "nat \<Rightarrow> bool"

definition new_router :: Router where
  "new_router = \<lparr>rsched = \<lparr>tgt = (\<lambda>_. \<lparr>max_load = 0, cur_load = 0, group = 0, index = 0, wait_cnt = 0\<rparr>),
       grp = \<lparr>gself = 0, g_max_load = 0, g_cur_load = 0, tg_heap = [], heap_size = 0, heap_buf_size = 0, g_wait_cnt = 0\<rparr>, signals = []\<rparr>,
     classes = (\<lambda>_. RouteTargetTCP), has_group = False, request_object = NullObject, targets = [], breakers = [], md5_16 = 0,
     nleft = 0, nbreak = 0\<rparr>"

fun class_of :: "TransportType \<Rightarrow> target_class" where
  "class_of TT_TCP = RouteTargetTCP" | "class_of TT_TCP_SSL = RouteTargetTCP" | "class_of TT_UDP = RouteTargetUDP"
| "class_of TT_SCTP = RouteTargetSCTP" | "class_of TT_SCTP_SSL = RouteTargetSCTP"

text \<open>The number of the object that the next \<^verbatim>\<open>new\<close> returns.\<close>

definition next_target :: "Router \<Rightarrow> nat" where
  "next_target r = length (targets r) + 2"

definition create_target :: "init_env \<Rightarrow> RouterParams \<Rightarrow> string \<Rightarrow> Router \<Rightarrow> (errno + nat) \<times> Router" where
  "create_target e ps addr r =
     (let t = next_target r;
          r = r\<lparr>classes := (classes r)(t := class_of (transport_type ps))\<rparr>;
          (res, s) = target_init (base_init e t addr (connect_timeout ps) (response_timeout ps)) t (max_connections ps) (rsched r)
      in (case res of Inl err \<Rightarrow> (Inl err, r\<lparr>rsched := s\<rparr>) | Inr _ \<Rightarrow> (Inr t, r\<lparr>rsched := s\<rparr>)))"

definition drop_targets :: "Router \<Rightarrow> Router" where
  "drop_targets r = r\<lparr>rsched := fold (\<lambda>t s. snd (group_remove t s)) (targets r) (rsched r)\<rparr>"

fun add_group_targets :: "init_env \<Rightarrow> RouterParams \<Rightarrow> string list \<Rightarrow> Router \<Rightarrow> (errno + unit) \<times> Router" where
  "add_group_targets e ps [] r = (Inr (), r)"
| "add_group_targets e ps (addr # as) r =
     (case create_target e ps addr r of
        (Inl err, r) \<Rightarrow> (Inl err, drop_targets r)
      | (Inr t, r) \<Rightarrow>
          (case group_add (realloc e t) t (rsched r) of
             (Inl err, s) \<Rightarrow> (Inl err, drop_targets (r\<lparr>rsched := s\<rparr>))
           | (Inr _, s) \<Rightarrow> add_group_targets e ps as (r\<lparr>rsched := s, targets := targets r @ [t], nleft := nleft r + 1\<rparr>)))"

definition router_init :: "init_env \<Rightarrow> RouterParams \<Rightarrow> Router \<Rightarrow> (errno + unit) \<times> Router" where
  "router_init e ps r =
     (case rp_addrs ps of
        [] \<Rightarrow> (Inl EINVAL, r)
      | [addr] \<Rightarrow>
          (case create_target e ps addr r of
             (Inr t, r) \<Rightarrow> (Inr (), r\<lparr>targets := targets r @ [t], request_object := TargetObject t, md5_16 := rp_md5 ps\<rparr>)
           | (Inl err, r) \<Rightarrow> (Inl err, r))
      | addrs \<Rightarrow>
          (case group_init (group_base e) 1 (rsched r) of
             (Inl err, s) \<Rightarrow> (Inl err, r\<lparr>rsched := s, has_group := True\<rparr>)
           | (Inr _, s) \<Rightarrow>
               (case add_group_targets e ps addrs (r\<lparr>rsched := s, has_group := True\<rparr>) of
                  (Inr _, r) \<Rightarrow> (Inr (), r\<lparr>request_object := GroupObject, md5_16 := rp_md5 ps\<rparr>)
                | (Inl err, r) \<Rightarrow> (Inl err, r))))"

text \<open>\<open>mem\<close> says whether \<^verbatim>\<open>realloc\<close> finds memory. An error of the group is dropped and \<^verbatim>\<open>errno\<close> restored.\<close>

definition readd :: "bool \<Rightarrow> nat \<Rightarrow> Router \<Rightarrow> Router" where
  "readd mem t r =
     (case group_add mem t (rsched r) of
        (Inr _, s) \<Rightarrow> r\<lparr>rsched := s, nleft := nleft r + 1\<rparr>
      | (Inl _, s) \<Rightarrow> r\<lparr>rsched := s\<rparr>)"

definition router_notify_available :: "bool \<Rightarrow> nat \<Rightarrow> Router \<Rightarrow> Router" where
  "router_notify_available mem t r = (if length (targets r) \<le> 1 \<or> nbreak r = 0 then r else readd mem t r)"

definition router_notify_unavailable :: "int \<Rightarrow> nat \<Rightarrow> Router \<Rightarrow> Router" where
  "router_notify_unavailable now t r =
     (if length (targets r) \<le> 1 then r
      else if nleft r \<le> 1 then r
      else
        (case group_remove t (rsched r) of
           (Inl _, s) \<Rightarrow> r\<lparr>rsched := s\<rparr>
         | (Inr _, s) \<Rightarrow> r\<lparr>rsched := s, breakers := breakers r @ [(t, now + 30)], nbreak := nbreak r + 1, nleft := nleft r - 1\<rparr>))"

definition check_node :: "int \<Rightarrow> bool \<Rightarrow> nat \<times> int \<Rightarrow> Router \<Rightarrow> Router" where
  "check_node now mem node r =
     (if now \<ge> snd node
      then (let r = readd mem (fst node) r in r\<lparr>breakers := remove1 node (breakers r), nbreak := nbreak r - 1\<rparr>)
      else r)"

definition router_check_breaker :: "int \<Rightarrow> bool \<Rightarrow> Router \<Rightarrow> Router" where
  "router_check_breaker now mem r =
     (if length (targets r) \<le> 1 \<or> nbreak r = 0 then r else fold (check_node now mem) (breakers r) r)"

definition router_deinit :: "Router \<Rightarrow> Router" where
  "router_deinit r = (if has_group r then drop_targets r else r)\<lparr>breakers := []\<rparr>"

subsection \<open>The manager\<close>

record RouteManager =
  cache :: "nat \<rightharpoonup> Router"

record RouteResult =
  route_cookie :: "nat option"
  route_object :: request_object

text \<open>\<^verbatim>\<open>atoi\<close> of the text after \<^verbatim>\<open>?maxconn=\<close>\<close>

definition atoi32 :: "string \<Rightarrow> int" where
  "atoi32 s = (let v = fst (strtol 10 s) mod 2 ^ 32 in if v \<ge> 2 ^ 31 then v - 2 ^ 32 else v)"

definition limit_connections :: "string \<Rightarrow> nat \<Rightarrow> nat" where
  "limit_connections other_info n =
     (if start_with other_info ''?maxconn='' then
        (let maxconn = atoi32 (drop 9 other_info) in if maxconn \<le> 0 then 1 else nat maxconn)
      else n)"

definition route_get :: "(string \<Rightarrow> string) \<Rightarrow> init_env \<Rightarrow> int \<Rightarrow> bool \<Rightarrow> TransportType \<Rightarrow> string list \<Rightarrow> string \<Rightarrow> int \<times> int \<times> nat \<Rightarrow>
    RouteManager \<Rightarrow> int \<times> RouteResult \<times> RouteManager" where
  "route_get md5 e now mem type addrs other_info endpoint mg =
     (let none = \<lparr>route_cookie = None, route_object = NullObject\<rparr> in
      if addrs = [] then (-1, none, mg)
      else
        (let key = generate_key md5 type addrs other_info in
         case cache mg key of
           Some r \<Rightarrow>
             (let r = router_check_breaker now mem r
              in (0, \<lparr>route_cookie = Some key, route_object = request_object r\<rparr>, mg\<lparr>cache := (cache mg)(key \<mapsto> r)\<rparr>))
         | None \<Rightarrow>
             (let ps = \<lparr>transport_type = type, rp_addrs = addrs, rp_md5 = key, connect_timeout = fst endpoint,
                        response_timeout = fst (snd endpoint), max_connections = limit_connections other_info (snd (snd endpoint))\<rparr>
              in (case router_init e ps new_router of
                    (Inr _, r) \<Rightarrow> (0, \<lparr>route_cookie = Some key, route_object = request_object r\<rparr>, mg\<lparr>cache := (cache mg)(key \<mapsto> r)\<rparr>)
                  | (Inl _, _) \<Rightarrow> (-1, none, mg)))))"

text \<open>Cookies and targets may be null.\<close>

definition route_notify_unavailable :: "int \<Rightarrow> nat option \<Rightarrow> nat \<Rightarrow> RouteManager \<Rightarrow> RouteManager" where
  "route_notify_unavailable now c t mg =
     (case c of Some key \<Rightarrow> (if t \<noteq> 0 then mg\<lparr>cache := (cache mg)(key := map_option (router_notify_unavailable now t) (cache mg key))\<rparr> else mg)
      | None \<Rightarrow> mg)"

definition route_notify_available :: "bool \<Rightarrow> nat option \<Rightarrow> nat \<Rightarrow> RouteManager \<Rightarrow> RouteManager" where
  "route_notify_available mem c t mg =
     (case c of Some key \<Rightarrow> (if t \<noteq> 0 then mg\<lparr>cache := (cache mg)(key := map_option (router_notify_available mem t) (cache mg key))\<rparr> else mg)
      | None \<Rightarrow> mg)"

subsection \<open>The group as an interface\<close>

text \<open>What a router relies on: its targets \<open>T\<close> are in the group or in none, adding and removing change the members by exactly
  the target when they succeed and nothing otherwise, and a target nobody waits for enters a group with room.\<close>

locale target_group =
  fixes ok :: "nat set \<Rightarrow> 's \<Rightarrow> bool" and mem :: "'s \<Rightarrow> nat set" and idle :: "'s \<Rightarrow> nat \<Rightarrow> bool" and cap :: "'s \<Rightarrow> nat"
    and add :: "bool \<Rightarrow> nat \<Rightarrow> 's \<Rightarrow> (errno + unit) \<times> 's" and rem :: "nat \<Rightarrow> 's \<Rightarrow> (errno + unit) \<times> 's"
  assumes mem_sub: "ok T s \<Longrightarrow> finite T \<and> mem s \<subseteq> T \<and> card (mem s) \<le> cap s"
    and add_in: "ok T s \<Longrightarrow> t \<in> T \<Longrightarrow> add m t s = (Inr (), s') \<Longrightarrow>
      ok T s' \<and> t \<notin> mem s \<and> mem s' = insert t (mem s) \<and> cap s \<le> cap s' \<and> (\<forall>a. idle s' a = idle s a)"
    and add_out: "add m t s = (Inl err, s') \<Longrightarrow> s' = s"
    and add_idle: "ok T s \<Longrightarrow> t \<in> T \<Longrightarrow> t \<notin> mem s \<Longrightarrow> idle s t \<Longrightarrow> m \<or> card T \<le> cap s \<Longrightarrow> fst (add m t s) = Inr ()"
    and rem_in: "ok T s \<Longrightarrow> rem t s = (Inr (), s') \<Longrightarrow>
      ok T s' \<and> t \<in> mem s \<and> mem s' = mem s - {t} \<and> cap s' = cap s \<and> (\<forall>a. idle s' a = idle s a)"
    and rem_out: "rem t s = (Inl err, s') \<Longrightarrow> s' = s"
begin

lemma mem_finite: "ok T s \<Longrightarrow> finite (mem s)"
  using mem_sub finite_subset by blast

lemma add_card: "ok T s \<Longrightarrow> t \<in> T \<Longrightarrow> add m t s = (Inr (), s') \<Longrightarrow> card (mem s') = Suc (card (mem s))"
  using add_in [of T s t m s'] mem_finite [of T s] by simp

lemma rem_card: "ok T s \<Longrightarrow> rem t s = (Inr (), s') \<Longrightarrow> card (mem s) = Suc (card (mem s'))"
  using rem_in [of T s t s'] mem_finite [of T s] by (metis card_Suc_Diff1)

lemma add_cases:
  assumes "ok T s" "t \<in> T"
  obtains s' where "add m t s = (Inr (), s')" "ok T s'" "t \<notin> mem s" "mem s' = insert t (mem s)" "cap s \<le> cap s'" "\<And>a. idle s' a = idle s a"
    "card (mem s') = Suc (card (mem s))"
  | err where "add m t s = (Inl err, s)"
proof (cases "fst (add m t s)")
  case (Inl err)
  then have "add m t s = (Inl err, s)" using add_out by (metis prod.collapse)
  then show ?thesis using that by blast
next
  case (Inr u)
  then have "add m t s = (Inr (), snd (add m t s))" by (metis old.unit.exhaust prod.collapse)
  then show ?thesis using that(1) add_in [OF assms] add_card [OF assms] by blast
qed

lemma rem_cases:
  assumes "ok T s"
  obtains s' where "rem t s = (Inr (), s')" "ok T s'" "t \<in> mem s" "mem s' = mem s - {t}" "cap s' = cap s" "\<And>a. idle s' a = idle s a"
    "card (mem s) = Suc (card (mem s'))"
  | err where "rem t s = (Inl err, s)"
proof (cases "fst (rem t s)")
  case (Inl err)
  then have "rem t s = (Inl err, s)" using rem_out by (metis prod.collapse)
  then show ?thesis using that by blast
next
  case (Inr u)
  then have "rem t s = (Inr (), snd (rem t s))" by (metis old.unit.exhaust prod.collapse)
  then show ?thesis using that(1) rem_in [OF assms] rem_card [OF assms] by blast
qed

end

lemma adjust_frame: "frame s (adjust_loop ix t s)"
proof (induction ix t s rule: adjust_loop.induct)
  case (1 ix t s)
  then show ?case by (subst adjust_loop.simps) (auto simp: Let_def frame_set_slot intro: frame_trans [OF frame_set_slot])
qed

lemma heapify_frame: "frame s (heapify_loop tp t lst s)"
proof (induction tp t lst s rule: heapify_loop.induct)
  case (1 tp t lst s)
  note IH = 1 [OF refl refl refl, simplified]
  show ?case by (subst heapify_loop.simps)
    (auto simp: Let_def frame_set_slot frame_trans [OF frame_set_slot frame_set_slot] intro: frame_trans [OF frame_set_slot] IH)
qed

lemma heap_remove_frame:
  "wait_cnt (tgt (heap_remove ix s) a) = wait_cnt (tgt s a)" "heap_buf_size (grp (heap_remove ix s)) = heap_buf_size (grp s)"
  "group (tgt (heap_remove ix s) a) = group (tgt s a)" "gself (grp (heap_remove ix s)) = gself (grp s)"
  using frame_fields [OF heapify_frame] frame_fields [OF adjust_frame] frame_fields [OF frame_set_slot]
  by (simp_all add: heap_remove_def heapify_def heap_adjust_def Let_def upd_grp_def)

lemma heap_insert_frame:
  assumes "heap_insert mem t s = (r, s')"
  shows "wait_cnt (tgt s' a) = wait_cnt (tgt s a)" "heap_buf_size (grp s) \<le> heap_buf_size (grp s')" "group (tgt s' a) = group (tgt s a)"
    "gself (grp s') = gself (grp s)" "r < 0 \<Longrightarrow> s' = s"
  using assms frame_fields [OF adjust_frame] frame_fields [OF frame_set_slot]
  by (auto simp: heap_insert_def heap_adjust_def Let_def upd_grp_def split: if_splits)

definition sched_ok :: "nat set \<Rightarrow> sched \<Rightarrow> bool" where
  "sched_ok T s \<longleftrightarrow> group_inv s \<and> finite T \<and> card T \<le> 2 ^ 30 \<and> set (members s) \<subseteq> T \<and>
     (\<forall>t \<in> T. loads_ok (tgt s t) \<and> (group (tgt s t) = 0 \<or> group (tgt s t) = gself (grp s)))"

lemma members_card:
  assumes "group_inv s"
  shows "card (set (members s)) = hsize s" "hsize s \<le> heap_buf_size (grp s)" "t \<in> set (members s) \<longleftrightarrow> group (tgt s t) = gself (grp s)" "gself (grp s) \<noteq> 0"
proof -
  have ok: "group_ok s" using assms by (simp add: group_inv_def)
  then show "card (set (members s)) = hsize s" "hsize s \<le> heap_buf_size (grp s)"
    by (simp_all add: group_ok_def placed_def members_def distinct_card)
  show "t \<in> set (members s) \<longleftrightarrow> group (tgt s t) = gself (grp s)" "gself (grp s) \<noteq> 0" using ok by (simp_all add: group_ok_def)
qed

lemma group_add_frame:
  assumes "group_add mem t s = (Inr (), s')"
  shows "wait_cnt (tgt s' a) = wait_cnt (tgt s a)" "heap_buf_size (grp s) \<le> heap_buf_size (grp s')"
    "group (tgt s' a) = (if a = t then gself (grp s) else group (tgt s a))" "gself (grp s') = gself (grp s)"
    "group (tgt s t) = 0" "wait_cnt (tgt s t) = 0" "mem \<or> hsize s \<noteq> heap_buf_size (grp s)"
proof -
  obtain r s1 where h: "heap_insert mem t s = (r, s1)" by fastforce
  note F = heap_insert_frame [OF h]
  show c: "group (tgt s t) = 0" "wait_cnt (tgt s t) = 0" using assms by (simp_all add: group_add_def split: if_splits)
  have r: "\<not> r < 0" using assms h c by (auto simp: group_add_def)
  then show "mem \<or> hsize s \<noteq> heap_buf_size (grp s)" using h by (auto simp: heap_insert_def)
  have "s' = snd (group_add mem t s)" using assms by simp
  then have "tgt s' = (tgt s1)(t := (tgt s1 t)\<lparr>group := gself (grp s1)\<rparr>) \<and> gself (grp s') = gself (grp s1) \<and> heap_buf_size (grp s') = heap_buf_size (grp s1)"
    using c h r by (simp add: group_add_def Let_def upd_tgt_def upd_grp_def signal_def)
  then show "wait_cnt (tgt s' a) = wait_cnt (tgt s a)" "heap_buf_size (grp s) \<le> heap_buf_size (grp s')"
    "group (tgt s' a) = (if a = t then gself (grp s) else group (tgt s a))" "gself (grp s') = gself (grp s)"
    using F(1-4) by simp_all
qed

lemma group_add_fails: "group_add mem t s = (Inl err, s') \<Longrightarrow> s' = s"
  using heap_insert_frame(5) by (auto simp: group_add_def Let_def split: prod.splits if_splits)

lemma group_remove_frame:
  assumes "group_remove t s = (Inr (), s')"
  shows "wait_cnt (tgt s' a) = wait_cnt (tgt s a)" "heap_buf_size (grp s') = heap_buf_size (grp s)"
    "group (tgt s' a) = (if a = t then 0 else group (tgt s a))" "gself (grp s') = gself (grp s)"
    "group (tgt s t) = gself (grp s)" "wait_cnt (tgt s t) = 0"
  using assms heap_remove_frame by (auto simp: group_remove_def Let_def upd_tgt_def upd_grp_def split: if_splits)

interpretation sg: target_group sched_ok "\<lambda>s. set (members s)" "\<lambda>s t. wait_cnt (tgt s t) = 0" "\<lambda>s. heap_buf_size (grp s)" group_add group_remove
proof
  fix T and s s' :: sched and t m err
  show "finite T \<and> set (members s) \<subseteq> T \<and> card (set (members s)) \<le> heap_buf_size (grp s)" if "sched_ok T s"
    using that members_card(1,2) [of s] by (simp add: sched_ok_def)
  show "group_add m t s = (Inl err, s') \<Longrightarrow> s' = s" by (rule group_add_fails)
  show "group_remove t s = (Inl err, s') \<Longrightarrow> s' = s" by (auto simp: group_remove_def Let_def split: if_splits)
  show "fst (group_add m t s) = Inr ()"
    if ok: "sched_ok T s" and t: "t \<in> T" "t \<notin> set (members s)" "wait_cnt (tgt s t) = 0" and m: "m \<or> card T \<le> heap_buf_size (grp s)"
  proof -
    have g: "group_inv s" "loads_ok (tgt s t)" "group (tgt s t) = 0" "finite T" "card T \<le> 2 ^ 30" "set (members s) \<subseteq> T"
      using ok t(1,2) members_card(3) [of s t] by (auto simp: sched_ok_def)
    have "card (set (members s)) < card T" using g(4,6) t(1,2) by (intro psubset_card_mono) auto
    then have "hsize s < 2 ^ 30" "m \<or> hsize s \<noteq> heap_buf_size (grp s)" using members_card(1) [OF g(1)] g(5) m by auto
    from group_add_ok [OF g(1,3) t(3) g(2) this] show ?thesis by auto
  qed
  show "sched_ok T s' \<and> t \<notin> set (members s) \<and> set (members s') = insert t (set (members s)) \<and> heap_buf_size (grp s) \<le> heap_buf_size (grp s') \<and>
      (\<forall>a. (wait_cnt (tgt s' a) = 0) = (wait_cnt (tgt s a) = 0))"
    if ok: "sched_ok T s" and t: "t \<in> T" and a: "group_add m t s = (Inr (), s')"
  proof -
    note F = group_add_frame [OF a]
    have g: "group_inv s" "loads_ok (tgt s t)" "finite T" "card T \<le> 2 ^ 30" "set (members s) \<subseteq> T" using ok t by (auto simp: sched_ok_def)
    have tm: "t \<notin> set (members s)" using F(5) members_card(3,4) [OF g(1)] by simp
    have "card (set (members s)) < card T" using g(3,5) t tm by (intro psubset_card_mono) auto
    then have "hsize s < 2 ^ 30" using members_card(1) [OF g(1)] g(4) by simp
    from group_add_ok [OF g(1) F(5,6) g(2) this F(7)] a have s': "group_inv s'" "set (members s') = insert t (set (members s))"
      "\<And>a. cur_load (tgt s' a) = cur_load (tgt s a) \<and> max_load (tgt s' a) = max_load (tgt s a)" by auto
    then have "sched_ok T s'" using ok t by (auto simp: sched_ok_def loads_ok_def F(3,4))
    then show ?thesis using tm s' F(1,2) by simp
  qed
  show "sched_ok T s' \<and> t \<in> set (members s) \<and> set (members s') = set (members s) - {t} \<and> heap_buf_size (grp s') = heap_buf_size (grp s) \<and>
      (\<forall>a. (wait_cnt (tgt s' a) = 0) = (wait_cnt (tgt s a) = 0))"
    if ok: "sched_ok T s" and r: "group_remove t s = (Inr (), s')"
  proof -
    note F = group_remove_frame [OF r]
    have g: "group_inv s" using ok by (simp add: sched_ok_def)
    from group_remove_ok [OF g F(5,6)] r have s': "group_inv s'" "set (members s') = set (members s) - {t}"
      "\<And>a. cur_load (tgt s' a) = cur_load (tgt s a) \<and> max_load (tgt s' a) = max_load (tgt s a)" by auto
    then have "sched_ok T s'" using ok by (auto simp: sched_ok_def loads_ok_def F(3,4))
    then show ?thesis using s' F(1,2,5) members_card(3) [OF g] by simp
  qed
qed

subsection \<open>Invariant of a router\<close>

lemma group_inv_other:
  assumes inv: "group_inv s" and t: "t \<notin> set (members s)" and u: "group u \<noteq> gself (grp s)"
  shows "group_inv (upd_tgt t (\<lambda>_. u) s)"
proof -
  let ?s = "upd_tgt t (\<lambda>_. u) s"
  have ok: "group_ok s" and hp: "load.is_heap (tgt s) (hsize s) (heap_of s)" using inv by (simp_all add: group_inv_def)
  have len: "hsize s \<le> length (heap_of s)" using ok by (simp add: group_ok_def placed_def)
  have m: "members ?s = members s" by (simp add: members_def upd_tgt_def)
  have other: "tgt ?s (heap_of s ! i) = tgt s (heap_of s ! i)" if "i < hsize s" for i
    using t that nth_mem [of i "members s"] len by (auto simp: members_def upd_tgt_def)
  have tot: "total f ?s = total f s" for f unfolding total_def m using t by (intro sum.cong refl) (auto simp: upd_tgt_def)
  have "placed (hsize ?s) ?s" using ok other unfolding group_ok_def placed_def by (auto simp: upd_tgt_def)
  moreover have "\<forall>a. a \<in> set (members ?s) \<longrightarrow> loads_ok (tgt ?s a)" using ok t unfolding m group_ok_def by (auto simp: upd_tgt_def)
  moreover have "\<forall>a. group (tgt ?s a) = gself (grp ?s) \<longleftrightarrow> a \<in> set (members ?s)" using ok t u unfolding m group_ok_def by (auto simp: upd_tgt_def)
  ultimately have "group_ok ?s" using ok tot unfolding group_ok_def m by (auto simp: upd_tgt_def)
  moreover have "load.is_heap (tgt ?s) (hsize ?s) (heap_of ?s)"
  proof -
    have "target_cmp (tgt ?s) (heap_of s ! i) (heap_of s ! par i) = target_cmp (tgt s) (heap_of s ! i) (heap_of s ! par i)"
      if "0 < i" "i < hsize s" for i
      using other [OF that(2)] other [of "par i"] par_less [OF that(1)] that(2) by (simp add: target_cmp_def)
    then show ?thesis using hp by (simp add: load.is_heap_def upd_tgt_def)
  qed
  ultimately show ?thesis by (simp add: group_inv_def)
qed

text \<open>Nobody waits for a target of a group: requests go to the group.\<close>

definition router_core :: "Router \<Rightarrow> bool" where
  "router_core r \<longleftrightarrow> has_group r \<and> distinct (targets r) \<and> sched_ok (set (targets r)) (rsched r) \<and>
     (\<forall>t \<in> set (targets r). wait_cnt (tgt (rsched r) t) = 0) \<and> nleft r = int (card (set (members (rsched r)))) \<and>
     fst ` set (breakers r) \<subseteq> set (targets r)"

definition router_inv :: "Router \<Rightarrow> bool" where
  "router_inv r \<longleftrightarrow> nbreak r = int (length (breakers r)) \<and>
     (if has_group r then
        request_object r = GroupObject \<and> router_core r \<and> 2 \<le> length (targets r) \<and> length (targets r) \<le> heap_buf_size (grp (rsched r)) \<and>
        1 \<le> nleft r \<and> set (targets r) \<subseteq> set (members (rsched r)) \<union> fst ` set (breakers r)
      else \<exists>t. targets r = [t] \<and> request_object r = TargetObject t)"

definition same_router :: "Router \<Rightarrow> Router \<Rightarrow> bool" where
  "same_router r r' \<longleftrightarrow> has_group r' = has_group r \<and> targets r' = targets r \<and> request_object r' = request_object r \<and> md5_16 r' = md5_16 r"

lemma readd_ok:
  assumes c: "router_core r" and t: "t \<in> set (targets r)" and room: "length (targets r) \<le> heap_buf_size (grp (rsched r))"
  shows "router_core (readd m t r)" "set (members (rsched (readd m t r))) = insert t (set (members (rsched r)))"
    "same_router r (readd m t r)" "breakers (readd m t r) = breakers r" "nbreak (readd m t r) = nbreak r"
    "length (targets r) \<le> heap_buf_size (grp (rsched (readd m t r)))"
proof -
  have ok: "sched_ok (set (targets r)) (rsched r)" and i: "wait_cnt (tgt (rsched r) t) = 0" and d: "card (set (targets r)) = length (targets r)"
    using c t by (auto simp: router_core_def distinct_card)
  show "same_router r (readd m t r)" "breakers (readd m t r) = breakers r" "nbreak (readd m t r) = nbreak r"
    by (auto simp: readd_def same_router_def split: prod.split sum.split)
  have "router_core (readd m t r) \<and> set (members (rsched (readd m t r))) = insert t (set (members (rsched r))) \<and>
    length (targets r) \<le> heap_buf_size (grp (rsched (readd m t r)))"
  proof (cases rule: sg.add_cases [OF ok t, of m])
    case (1 s')
    then have "readd m t r = r\<lparr>rsched := s', nleft := nleft r + 1\<rparr>" by (simp add: readd_def)
    then show ?thesis using 1 c room by (simp add: router_core_def)
  next
    case (2 err)
    have "t \<in> set (members (rsched r))"
    proof (rule ccontr)
      assume "t \<notin> set (members (rsched r))"
      from sg.add_idle [OF ok t this i, of m] show False using 2 room d by simp
    qed
    moreover have "readd m t r = r" using 2 by (simp add: readd_def)
    ultimately show ?thesis using c room by (simp add: insert_absorb)
  qed
  then show "router_core (readd m t r)" "set (members (rsched (readd m t r))) = insert t (set (members (rsched r)))"
    "length (targets r) \<le> heap_buf_size (grp (rsched (readd m t r)))" by blast+
qed

lemma same_router_trans: "same_router r s \<Longrightarrow> same_router s t \<Longrightarrow> same_router r t"
  by (simp add: same_router_def)

lemma check_node_late:
  assumes c: "router_core r" and room: "length (targets r) \<le> heap_buf_size (grp (rsched r))" and n: "snd n \<le> now"
    and b: "breakers r = kept @ n # ns" "\<And>k. k \<in> set kept \<Longrightarrow> now < snd k" and r'_def: "r' = check_node now m n r"
  shows "router_core r'" "length (targets r') \<le> heap_buf_size (grp (rsched r'))" "same_router r r'" "breakers r' = kept @ ns" "nbreak r' = nbreak r - 1"
    "set (members (rsched r')) = insert (fst n) (set (members (rsched r)))"
proof -
  have t: "fst n \<in> set (targets r)" using c b(1) by (auto simp: router_core_def)
  note A = readd_ok [OF c t room, of m]
  have "n \<notin> set kept" using b(2) [of n] n by auto
  then have e: "r' = (readd m (fst n) r)\<lparr>breakers := kept @ ns, nbreak := nbreak r - 1\<rparr>"
    using n b(1) A(4,5) by (simp add: r'_def check_node_def Let_def remove1_append)
  show "router_core r'" "length (targets r') \<le> heap_buf_size (grp (rsched r'))" "same_router r r'" "breakers r' = kept @ ns" "nbreak r' = nbreak r - 1"
    "set (members (rsched r')) = insert (fst n) (set (members (rsched r)))"
    using A b(1) by (auto simp: e router_core_def same_router_def)
qed

lemma check_nodes:
  "router_core r \<Longrightarrow> length (targets r) \<le> heap_buf_size (grp (rsched r)) \<Longrightarrow> breakers r = kept @ ns \<Longrightarrow> (\<And>k. k \<in> set kept \<Longrightarrow> now < snd k) \<Longrightarrow>
   let r' = fold (check_node now m) ns r in
     router_core r' \<and> length (targets r') \<le> heap_buf_size (grp (rsched r')) \<and> same_router r r' \<and> breakers r' = kept @ filter (\<lambda>n. now < snd n) ns \<and>
     nbreak r' - int (length (breakers r')) = nbreak r - int (length (breakers r)) \<and>
     set (members (rsched r')) = set (members (rsched r)) \<union> fst ` {n \<in> set ns. snd n \<le> now}"
proof (induction ns arbitrary: r kept)
  case (Cons n ns)
  show ?case
  proof (cases "snd n \<le> now")
    case True
    note L = check_node_late [OF Cons.prems(1,2) True Cons.prems(3,4) refl, of m]
    have "{x \<in> set (n # ns). snd x \<le> now} = insert n {x \<in> set ns. snd x \<le> now}" using True by auto
    with Cons.IH [OF L(1,2,4) Cons.prems(4)] True L(3-6) Cons.prems(3) same_router_trans [OF L(3)]
    show ?thesis unfolding Let_def fold_Cons comp_apply by auto
  next
    case False
    have "{x \<in> set (n # ns). snd x \<le> now} = {x \<in> set ns. snd x \<le> now}" using False by auto
    moreover have "check_node now m n r = r" using False by (simp add: check_node_def)
    moreover have "breakers r = (kept @ [n]) @ ns" "\<And>k. k \<in> set (kept @ [n]) \<Longrightarrow> now < snd k" using Cons.prems(3,4) False by auto
    note Cons.IH [OF Cons.prems(1,2) this]
    ultimately show ?thesis using False by (auto simp: Let_def)
  qed
qed (simp add: same_router_def)

lemma router_invD:
  assumes "router_inv r" "has_group r"
  shows "router_core r" "length (targets r) \<le> heap_buf_size (grp (rsched r))" "1 \<le> nleft r"
    "set (targets r) \<subseteq> set (members (rsched r)) \<union> fst ` set (breakers r)" "nbreak r = int (length (breakers r))" "request_object r = GroupObject"
    "2 \<le> length (targets r)"
  using assms by (simp_all add: router_inv_def)

lemma no_group: "router_inv r \<Longrightarrow> \<not> has_group r \<Longrightarrow> length (targets r) \<le> 1"
  by (auto simp: router_inv_def)

lemma check_breaker_ok:
  assumes inv: "router_inv r"
  shows "router_inv (router_check_breaker now m r)" "same_router r (router_check_breaker now m r)"
    "has_group r \<Longrightarrow> (\<And>n. n \<in> set (breakers r) \<Longrightarrow> snd n \<le> now) \<Longrightarrow> set (members (rsched (router_check_breaker now m r))) = set (targets r)"
proof -
  let ?r = "router_check_breaker now m r"
  have *: "router_inv ?r \<and> same_router r ?r \<and> (has_group r \<longrightarrow> (\<forall>n \<in> set (breakers r). snd n \<le> now) \<longrightarrow> set (members (rsched ?r)) = set (targets r))"
  proof (cases "has_group r \<and> nbreak r \<noteq> 0")
    case True
    note D = router_invD [OF inv conjunct1 [OF True]]
    have e: "?r = fold (check_node now m) (breakers r) r" using True D(7) by (simp add: router_check_breaker_def)
    have C: "router_core ?r" "length (targets ?r) \<le> heap_buf_size (grp (rsched ?r))" "same_router r ?r" "breakers ?r = filter (\<lambda>n. now < snd n) (breakers r)"
      "nbreak ?r = int (length (breakers ?r))" "set (members (rsched ?r)) = set (members (rsched r)) \<union> fst ` {n \<in> set (breakers r). snd n \<le> now}"
      using check_nodes [OF D(1,2), of "[]" "breakers r" now m] D(5) unfolding e by (auto simp: Let_def)
    have sub: "set (members (rsched r)) \<subseteq> set (members (rsched ?r))" using C(6) by blast
    then have "card (set (members (rsched r))) \<le> card (set (members (rsched ?r)))" by (intro card_mono) simp_all
    then have "1 \<le> nleft ?r" using D(1,3) C(1) by (simp add: router_core_def)
    moreover have "set (targets r) \<subseteq> set (members (rsched ?r)) \<union> fst ` set (breakers ?r)"
    proof
      fix t assume "t \<in> set (targets r)"
      then consider "t \<in> set (members (rsched r))" | n where "n \<in> set (breakers r)" "t = fst n" using D(4) by auto
      then show "t \<in> set (members (rsched ?r)) \<union> fst ` set (breakers ?r)"
      proof cases
        case (2 n)
        then show ?thesis by (cases "snd n \<le> now") (auto simp: C(4,6))
      qed (use sub in blast)
    qed
    ultimately have "router_inv ?r" using C(1-3,5) D(6,7) True by (simp add: router_inv_def same_router_def)
    moreover have "set (members (rsched ?r)) = set (targets r)" if "\<forall>n \<in> set (breakers r). snd n \<le> now"
    proof -
      have "{n \<in> set (breakers r). snd n \<le> now} = set (breakers r)" using that by blast
      then have "set (targets r) \<subseteq> set (members (rsched ?r))" using D(4) C(6) by simp
      moreover have "set (members (rsched ?r)) \<subseteq> set (targets r)" using C(1,3) sg.mem_sub by (simp add: router_core_def same_router_def)
      ultimately show ?thesis by blast
    qed
    ultimately show ?thesis using C(3) by blast
  next
    case False
    then have e: "?r = r" using no_group [OF inv] by (auto simp: router_check_breaker_def)
    have "set (members (rsched r)) = set (targets r)" if h: "has_group r"
    proof -
      note D = router_invD [OF inv h]
      have "breakers r = []" using False h D(5) by simp
      then show ?thesis using D(4) D(1) sg.mem_sub by (auto simp: router_core_def)
    qed
    then show ?thesis using inv by (simp add: e same_router_def)
  qed
  from * show "router_inv ?r" "same_router r ?r" by blast+
  show "has_group r \<Longrightarrow> (\<And>n. n \<in> set (breakers r) \<Longrightarrow> snd n \<le> now) \<Longrightarrow> set (members (rsched ?r)) = set (targets r)" using * by blast
qed

lemma notify_available_ok:
  assumes inv: "router_inv r" and t: "t \<in> set (targets r)"
  shows "router_inv (router_notify_available m t r)"
proof (cases "length (targets r) \<le> 1 \<or> nbreak r = 0")
  case False
  then have h: "has_group r" using no_group [OF inv] by blast
  note D = router_invD [OF inv h] and A = readd_ok [OF router_invD(1) [OF inv h] t router_invD(2) [OF inv h], of m]
  have "card (set (members (rsched r))) \<le> card (set (members (rsched (readd m t r))))" using A(2) by (intro card_mono) auto
  then have "1 \<le> nleft (readd m t r)" using D(1,3) A(1) by (simp add: router_core_def)
  then have "router_inv (readd m t r)" using A D(4-7) h by (auto simp: router_inv_def same_router_def)
  then show ?thesis using False by (simp add: router_notify_available_def)
qed (use inv in \<open>simp add: router_notify_available_def\<close>)

lemma notify_unavailable_ok:
  assumes inv: "router_inv r"
  shows "router_inv (router_notify_unavailable now t r)"
proof (cases "length (targets r) \<le> 1 \<or> nleft r \<le> 1")
  case False
  then have h: "has_group r" using no_group [OF inv] by blast
  note D = router_invD [OF inv h]
  have c: "sched_ok (set (targets r)) (rsched r)" using D(1) by (simp add: router_core_def)
  show ?thesis
  proof (cases rule: sg.rem_cases [OF c, of t])
    case (1 s')
    define r' where "r' = r\<lparr>rsched := s', breakers := breakers r @ [(t, now + 30)], nbreak := nbreak r + 1, nleft := nleft r - 1\<rparr>"
    have "t \<in> set (targets r)" using 1(3) sg.mem_sub [OF c] by blast
    moreover have "nleft r - 1 = int (card (set (members s')))" using D(1) 1(7) by (simp add: router_core_def)
    ultimately have "router_core r'" using D(1) 1(2,6) by (simp add: router_core_def r'_def)
    moreover have "set (targets r') \<subseteq> set (members (rsched r')) \<union> fst ` set (breakers r')" using D(4) 1(4) by (auto simp: r'_def)
    ultimately have "router_inv r'" using D(2,5,6,7) False 1(5) h by (simp add: router_inv_def r'_def)
    then show ?thesis using False 1(1) by (simp add: router_notify_unavailable_def r'_def)
  next
    case (2 err)
    then show ?thesis using False inv by (simp add: router_notify_unavailable_def)
  qed
qed (use inv in \<open>auto simp: router_notify_unavailable_def\<close>)

text \<open>The state while \<^verbatim>\<open>add_group_targets\<close> runs.\<close>

definition filling :: "Router \<Rightarrow> bool" where
  "filling r \<longleftrightarrow> router_core r \<and> targets r = [2..<length (targets r) + 2] \<and> set (members (rsched r)) = set (targets r) \<and> breakers r = [] \<and> nbreak r = 0"

lemma create_target_ok:
  assumes f: "filling r" and c: "create_target e ps addr r = (Inr t, r1)" and small: "max_connections ps < 2 ^ 32" "length (targets r) < 2 ^ 30"
  shows "t = length (targets r) + 2" "same_router r r1" "nleft r1 = nleft r" "breakers r1 = []" "nbreak r1 = 0" "sched_ok (insert t (set (targets r))) (rsched r1)"
    "set (members (rsched r1)) = set (targets r)" "\<forall>a \<in> insert t (set (targets r)). wait_cnt (tgt (rsched r1) a) = 0"
proof -
  let ?s = "rsched r"
  define u where "u = (tgt ?s t)\<lparr>max_load := max_connections ps, cur_load := 0, wait_cnt := 0, group := 0\<rparr>"
  have core: "router_core r" and m: "set (members ?s) = set (targets r)" and tg: "targets r = [2..<length (targets r) + 2]" using f by (auto simp: filling_def)
  have ok: "sched_ok (set (targets r)) ?s" "\<forall>t \<in> set (targets r). wait_cnt (tgt ?s t) = 0" "distinct (targets r)" using core by (simp_all add: router_core_def)
  show t: "t = length (targets r) + 2" using c by (auto simp: create_target_def target_init_def next_target_def Let_def split: if_splits option.splits)
  have tn: "t \<notin> set (targets r)" by (subst tg) (simp add: t)
  have mx: "max_connections ps \<noteq> 0" and e: "r1 = r\<lparr>classes := (classes r)(t := class_of (transport_type ps)), rsched := upd_tgt t (\<lambda>_. u) ?s\<rparr>"
    using c by (auto simp: create_target_def target_init_def next_target_def u_def upd_tgt_def t Let_def split: if_splits option.splits)
  show "same_router r r1" "nleft r1 = nleft r" "breakers r1 = []" "nbreak r1 = 0" using f by (simp_all add: e same_router_def filling_def)
  have ms: "members (upd_tgt t (\<lambda>_. u) ?s) = members ?s" by (simp add: members_def upd_tgt_def)
  then show "set (members (rsched r1)) = set (targets r)" using m by (simp add: e)
  show "\<forall>a \<in> insert t (set (targets r)). wait_cnt (tgt (rsched r1) a) = 0" using ok(2) by (auto simp: e upd_tgt_def u_def)
  have "group_inv (upd_tgt t (\<lambda>_. u) ?s)"
    using group_inv_other [of ?s t u] ok(1) m tn members_card(4) [of ?s] by (simp add: sched_ok_def u_def)
  moreover have "loads_ok u" using mx small(1) by (simp add: u_def loads_ok_def)
  moreover have "card (insert t (set (targets r))) \<le> 2 ^ 30" using small(2) tn ok(3) by (simp add: distinct_card)
  ultimately show "sched_ok (insert t (set (targets r))) (rsched r1)"
    using ok(1) m by (auto simp: sched_ok_def e ms) (auto simp: upd_tgt_def u_def)
qed

lemma add_group_targets_ok:
  "filling r \<Longrightarrow> max_connections ps < 2 ^ 32 \<Longrightarrow> length (targets r) + length as \<le> 2 ^ 30 \<Longrightarrow> add_group_targets e ps as r = (Inr (), r') \<Longrightarrow>
   filling r' \<and> length (targets r') = length (targets r) + length as"
proof (induction as arbitrary: r)
  case (Cons addr as)
  obtain t r1 where c: "create_target e ps addr r = (Inr t, r1)" using Cons.prems(4) by (auto split: prod.splits sum.splits)
  note C = create_target_ok [OF Cons.prems(1) c Cons.prems(2)]
  have small: "length (targets r) < 2 ^ 30" using Cons.prems(3) by simp
  note C = C [OF small]
  obtain s where a: "group_add (realloc e t) t (rsched r1) = (Inr (), s)"
    and rest: "add_group_targets e ps as (r1\<lparr>rsched := s, targets := targets r1 @ [t], nleft := nleft r1 + 1\<rparr>) = (Inr (), r')"
    using Cons.prems(4) c by (auto split: prod.splits sum.splits)
  let ?r = "r1\<lparr>rsched := s, targets := targets r1 @ [t], nleft := nleft r1 + 1\<rparr>"
  have tgs: "targets r1 = targets r" "has_group r1" using C(2) Cons.prems(1) by (simp_all add: same_router_def filling_def router_core_def)
  note A = sg.add_in [OF C(6) insertI1 a] and K = sg.add_card [OF C(6) insertI1 a]
  have tg: "targets r = [2..<length (targets r) + 2]" "nleft r = int (card (set (members (rsched r))))" "set (members (rsched r)) = set (targets r)"
    "distinct (targets r)" using Cons.prems(1) by (simp_all add: filling_def router_core_def)
  have up: "targets r @ [t] = [2..<length (targets r @ [t]) + 2]" by (subst (1) tg(1)) (simp add: C(1))
  have ms: "set (members s) = insert t (set (targets r))" using A C(7) by simp
  have "router_core ?r" unfolding router_core_def
  proof (intro conjI)
    show "sched_ok (set (targets ?r)) (rsched ?r)" "\<forall>t \<in> set (targets ?r). wait_cnt (tgt (rsched ?r) t) = 0" using A C(8) by (auto simp: tgs)
    show "nleft ?r = int (card (set (members (rsched ?r))))" using K C(3,7) tg(2,3) by simp
    have "t \<notin> set (targets r)" by (subst tg(1)) (simp add: C(1))
    then show "distinct (targets ?r)" using tg(4) by (simp add: tgs)
  qed (use tgs C(4) in simp_all)
  then have "filling ?r" using up ms C(4,5) by (simp add: filling_def tgs)
  from Cons.IH [OF this Cons.prems(2) _ rest] show ?case using Cons.prems(3) by (simp add: tgs)
qed simp

lemma router_init_ok:
  assumes i: "router_init e ps new_router = (Inr (), r)" and small: "max_connections ps < 2 ^ 32" "length (rp_addrs ps) \<le> 2 ^ 30"
  shows "router_inv r \<and> length (targets r) = length (rp_addrs ps) \<and> md5_16 r = rp_md5 ps \<and> (has_group r \<longrightarrow> set (members (rsched r)) = set (targets r))"
proof -
  consider "rp_addrs ps = []" | addr where "rp_addrs ps = [addr]" | a b as where "rp_addrs ps = a # b # as" by (metis list.exhaust)
  then show ?thesis
  proof cases
    case (2 addr)
    then show ?thesis using i by (auto simp: router_init_def create_target_def new_router_def target_init_def router_inv_def Let_def split: prod.splits sum.splits if_splits option.splits)
  next
    case (3 a b as)
    obtain s where g: "group_init (group_base e) 1 (rsched new_router) = (Inr (), s)" using i 3 by (auto simp: router_init_def split: prod.splits sum.splits)
    then have gb: "group_base e = None" by (simp add: group_init_def split: option.splits)
    have "\<And>a. group (tgt (rsched new_router) a) \<noteq> 1" by (simp add: new_router_def)
    from group_init_inv [OF _ this] g have s: "group_inv s" "members s = []" "tgt s = tgt (rsched new_router)" by (auto simp: gb)
    define r0 where "r0 = new_router\<lparr>rsched := s, has_group := True\<rparr>"
    have "filling r0" using s by (simp add: filling_def router_core_def sched_ok_def r0_def new_router_def)
    moreover obtain r1 where a: "add_group_targets e ps (a # b # as) r0 = (Inr (), r1)" and r: "r = r1\<lparr>request_object := GroupObject, md5_16 := rp_md5 ps\<rparr>"
      using i 3 g by (auto simp: router_init_def r0_def simp del: add_group_targets.simps split: prod.splits sum.splits)
    moreover have "targets r0 = []" by (simp add: r0_def new_router_def)
    ultimately have F: "filling r1" "length (targets r1) = Suc (Suc (length as))"
      using add_group_targets_ok [OF _ small(1), of r0 "a # b # as" e r1] small(2) 3 by simp_all
    have inv: "router_core r1" "set (members (rsched r1)) = set (targets r1)" "breakers r1 = []" "nbreak r1 = 0" using F(1) by (auto simp: filling_def)
    have d: "card (set (targets r1)) = length (targets r1)" using inv(1) by (simp add: router_core_def distinct_card)
    have "length (targets r1) \<le> heap_buf_size (grp (rsched r1))" using sg.mem_sub [of "set (targets r1)" "rsched r1"] inv(1,2) d by (simp add: router_core_def)
    moreover have "1 \<le> nleft r1" using inv(1,2) d F(2) by (simp add: router_core_def)
    moreover have "router_core r = router_core r1" by (simp add: r router_core_def)
    ultimately show ?thesis using inv F(2) 3 by (simp add: r router_inv_def) (simp add: router_core_def)
  qed (use i in \<open>simp add: router_init_def\<close>)
qed

text \<open>The short form of a digest is the middle of the long one, and the short key the middle eight bytes.\<close>

lemma md5_string_middle:
  assumes "length (md5 s) = 16"
  shows "md5_string_16 md5 s = take 16 (drop 8 (md5_string_32 md5 s))"
proof -
  obtain a b where ab: "md5 s = a @ b" "length a = 4" "length b = 12" by (rule that [of "take 4 (md5 s)" "drop 4 (md5 s)"]) (use assms in simp_all)
  obtain b1 b2 where b: "b = b1 @ b2" "length b1 = 8" "length b2 = 4" by (rule that [of "take 8 b" "drop 8 b"]) (use ab in simp_all)
  have l: "length (concat (map plain_hex xs)) = 2 * length xs" for xs by (induction xs) (simp_all add: plain_hex_def)
  have "map (\<lambda>i. plain_hex (md5 s ! (i + 4))) [0..<8] = map plain_hex b1"
    by (rule nth_equalityI) (simp_all add: ab b nth_append)
  then show ?thesis using ab b by (simp add: md5_string_16_def md5_string_32_def l)
qed

subsection \<open>Keys do not depend on the order of the addresses\<close>

text \<open>The number an address would be as digits to base 256 with a leading 1: \<^verbatim>\<open>__addr_cmp\<close> orders by it.\<close>

fun rank :: "nat \<Rightarrow> string \<Rightarrow> nat" where
  "rank acc [] = acc"
| "rank acc (c # cs) = rank (256 * acc + ord c) cs"

lemma rank_split: "rank acc cs = acc * 256 ^ length cs + rank 0 cs"
proof (induction cs arbitrary: acc)
  case (Cons c cs)
  have "rank acc (c # cs) = (256 * acc + ord c) * 256 ^ length cs + rank 0 cs" using Cons [of "256 * acc + ord c"] by simp
  also have "\<dots> = acc * 256 ^ length (c # cs) + (ord c * 256 ^ length cs + rank 0 cs)" by (simp add: algebra_simps)
  also have "ord c * 256 ^ length cs + rank 0 cs = rank 0 (c # cs)" using Cons [of "ord c"] by simp
  finally show ?case .
qed simp

lemma rank_less: "rank 0 cs < 256 ^ length cs"
proof (induction cs)
  case (Cons c cs)
  have "rank 0 (c # cs) = ord c * 256 ^ length cs + rank 0 cs" using rank_split [of "ord c" cs] by simp
  also have "\<dots> < (ord c + 1) * 256 ^ length cs" using Cons by simp
  also have "\<dots> \<le> 256 * 256 ^ length cs"
  proof (rule mult_right_mono)
    show "ord c + 1 \<le> 256" using ord_less_256 [of c] by linarith
  qed simp
  finally show ?case by simp
qed simp

lemma digit_less:
  assumes "x < B" "y < (B :: nat)"
  shows "a * B + x < b * B + y \<longleftrightarrow> a < b \<or> a = b \<and> x < y"
proof -
  have "a * B + x < b * B + y" if "a < b"
  proof -
    have "(a + 1) * B \<le> b * B" using that by (intro mult_right_mono) auto
    then show ?thesis using assms(1) by (simp add: algebra_simps)
  qed
  moreover have "b * B + y < a * B + x" if "b < a"
  proof -
    have "(b + 1) * B \<le> a * B" using that by (intro mult_right_mono) auto
    then show ?thesis using assms(2) by (simp add: algebra_simps)
  qed
  ultimately show ?thesis by (cases a b rule: linorder_cases) force+
qed

lemma memcmp_rank: "length x = length y \<Longrightarrow> (memcmp x y < 0 \<longleftrightarrow> rank 0 x < rank 0 y) \<and> (memcmp x y > 0 \<longleftrightarrow> rank 0 y < rank 0 x) \<and> (memcmp x y = 0 \<longleftrightarrow> x = y)"
proof (induction x y rule: memcmp.induct)
  case (1 c cs d ds)
  have "rank 0 (c # cs) < rank 0 (d # ds) \<longleftrightarrow> ord c < ord d \<or> ord c = ord d \<and> rank 0 cs < rank 0 ds"
    "rank 0 (d # ds) < rank 0 (c # cs) \<longleftrightarrow> ord d < ord c \<or> ord d = ord c \<and> rank 0 ds < rank 0 cs"
    using digit_less [of "rank 0 cs" "256 ^ length cs" "rank 0 ds" "ord c" "ord d"] digit_less [of "rank 0 ds" "256 ^ length cs" "rank 0 cs" "ord d" "ord c"]
      rank_less [of cs] rank_less [of ds] rank_split [of "ord c" cs] rank_split [of "ord d" ds] 1(2)
    by simp_all
  then show ?case using 1 by (auto simp: ord_eq_iff)
qed auto

lemma addr_less_rank: "addr_less x y \<longleftrightarrow> rank 1 x < rank 1 y"
proof -
  have shorter: "rank 1 x < rank 1 y" if "length x < length y" for x y
  proof -
    have "rank 1 x < 2 * 256 ^ length x" using rank_split [of 1 x] rank_less [of x] by simp
    also have "\<dots> \<le> 256 ^ Suc (length x)" by simp
    also have "\<dots> \<le> 256 ^ length y" using that by (intro power_increasing) auto
    also have "\<dots> \<le> rank 1 y" using rank_split [of 1 y] by simp
    finally show ?thesis .
  qed
  consider "length x = length y" | "length x < length y" | "length y < length x" by linarith
  then show ?thesis
  proof cases
    case 1
    then show ?thesis using memcmp_rank [OF 1] rank_split [of 1 x] rank_split [of 1 y] by (simp add: addr_less_def addr_cmp_def)
  next
    case 2
    then show ?thesis using shorter [of x y] by (simp add: addr_less_def addr_cmp_def)
  next
    case 3
    then show ?thesis using shorter [of y x] by (simp add: addr_less_def addr_cmp_def)
  qed
qed

lemma rank_inj: "inj (rank 1)"
proof (rule injI)
  fix x y assume e: "rank 1 x = rank 1 y"
  then have "\<not> addr_less x y" "\<not> addr_less y x" by (simp_all add: addr_less_rank)
  then have l: "length x = length y" by (auto simp: addr_less_def addr_cmp_def split: if_splits)
  have "rank 0 x = rank 0 y" using e l rank_split [of 1 x] rank_split [of 1 y] by simp
  then show "x = y" using memcmp_rank [OF l] by (metis less_irrefl linorder_neqE)
qed

lemma insert_addr_insort: "insert_addr x ys = insort_key (rank 1) x ys"
  by (induction ys) (auto simp: addr_less_rank not_less)

lemma sort_addr_sort: "sort_addr xs = sort_key (rank 1) xs"
  by (simp add: sort_addr_def sort_key_def insert_addr_insort [abs_def])

lemma key_order:
  assumes "mset xs = mset ys"
  shows "generate_key md5 type xs info = generate_key md5 type ys info"
proof -
  have "sort_key (rank 1) xs = sort_key (rank 1) ys"
    by (rule sort_key_inj_key_eq) (use assms rank_inj in \<open>auto intro: inj_on_subset\<close>)
  then show ?thesis by (simp add: generate_key_def key_text_def sort_addr_sort)
qed

subsection \<open>Reachable managers\<close>

text \<open>Limits on connections are below \<open>2 ^ 32\<close>, an address list has at most \<open>2 ^ 30\<close> entries, and a target that is reported is one of
  its router. Between the calls other threads acquire and release targets: the members of the group stay the same.\<close>

definition others_step :: "Router \<Rightarrow> sched \<Rightarrow> bool" where
  "others_step r s \<longleftrightarrow> sched_ok (set (targets r)) s \<and> set (members s) = set (members (rsched r)) \<and>
     heap_buf_size (grp (rsched r)) \<le> heap_buf_size (grp s) \<and> (\<forall>t \<in> set (targets r). wait_cnt (tgt s t) = 0)"

inductive route_reach :: "RouteManager \<Rightarrow> bool" where
  init: "route_reach \<lparr>cache = Map.empty\<rparr>"
| get: "route_reach mg \<Longrightarrow> snd (snd endpoint) < 2 ^ 32 \<Longrightarrow> length addrs \<le> 2 ^ 30 \<Longrightarrow>
    route_get md5 e now mem type addrs info endpoint mg = (rc, res, mg') \<Longrightarrow> route_reach mg'"
| unavailable: "route_reach mg \<Longrightarrow> route_reach (route_notify_unavailable now c t mg)"
| available: "route_reach mg \<Longrightarrow> (\<And>key r. c = Some key \<Longrightarrow> cache mg key = Some r \<Longrightarrow> t \<in> set (targets r)) \<Longrightarrow> route_reach (route_notify_available mem c t mg)"
| others: "route_reach mg \<Longrightarrow> cache mg key = Some r \<Longrightarrow> has_group r \<Longrightarrow> others_step r s \<Longrightarrow> route_reach (mg\<lparr>cache := (cache mg)(key \<mapsto> r\<lparr>rsched := s\<rparr>)\<rparr>)"

lemma limit_small: "n < 2 ^ 32 \<Longrightarrow> limit_connections info n < 2 ^ 32"
proof -
  assume n: "n < 2 ^ 32"
  have "atoi32 x < 2 ^ 31" for x using pos_mod_bound [of "2 ^ 32" "fst (strtol 10 x)"] by (auto simp: atoi32_def Let_def)
  then have "nat (atoi32 x) < 2 ^ 32" for x using order_less_trans [of "atoi32 x" "2 ^ 31" "2 ^ 32"]
    by (cases "0 \<le> atoi32 x") (simp_all add: nat_less_iff)
  then show ?thesis using n by (simp add: limit_connections_def Let_def)
qed

lemma others_inv: "router_inv r \<Longrightarrow> has_group r \<Longrightarrow> others_step r s \<Longrightarrow> router_inv (r\<lparr>rsched := s\<rparr>)"
  by (auto simp: router_inv_def router_core_def others_step_def)

definition route_inv :: "RouteManager \<Rightarrow> bool" where
  "route_inv mg \<longleftrightarrow> (\<forall>key r. cache mg key = Some r \<longrightarrow> router_inv r \<and> md5_16 r = key)"

lemma route_inv_upd: "route_inv mg \<Longrightarrow> router_inv r \<Longrightarrow> md5_16 r = key \<Longrightarrow> route_inv (mg\<lparr>cache := (cache mg)(key \<mapsto> r)\<rparr>)"
  by (simp add: route_inv_def)

lemma route_get_inv:
  assumes inv: "route_inv mg" and small: "snd (snd endpoint) < 2 ^ 32" "length addrs \<le> 2 ^ 30"
    and g: "route_get md5 e now mem type addrs info endpoint mg = (rc, res, mg')"
  shows "route_inv mg'"
proof (cases "addrs = []")
  case False
  let ?key = "generate_key md5 type addrs info"
  let ?ps = "\<lparr>transport_type = type, rp_addrs = addrs, rp_md5 = ?key, connect_timeout = fst endpoint,
       response_timeout = fst (snd endpoint), max_connections = limit_connections info (snd (snd endpoint))\<rparr>"
  show ?thesis
  proof (cases "cache mg ?key")
    case (Some r)
    have "router_inv (router_check_breaker now mem r)" "md5_16 (router_check_breaker now mem r) = ?key"
      using check_breaker_ok(1,2) inv Some by (auto simp: route_inv_def same_router_def)
    then show ?thesis using route_inv_upd [OF inv] g False Some by (auto simp: route_get_def Let_def)
  next
    case None
    obtain i r where i: "router_init e ?ps new_router = (i, r)" by fastforce
    have "router_inv r \<and> md5_16 r = ?key" if "i = Inr ()" using router_init_ok [of e ?ps r] i that small limit_small by simp
    then show ?thesis using inv route_inv_upd [OF inv, of r ?key] g False None i by (auto simp: route_get_def Let_def split: sum.splits)
  qed
qed (use inv g in \<open>simp add: route_get_def\<close>)

lemma notify_config: "md5_16 (router_notify_unavailable now t r) = md5_16 r" "md5_16 (router_notify_available mem t r) = md5_16 r"
  by (auto simp: router_notify_unavailable_def router_notify_available_def readd_def split: prod.split sum.split)

lemma route_reach_inv: "route_reach mg \<Longrightarrow> route_inv mg"
proof (induction rule: route_reach.induct)
  case init
  then show ?case by (simp add: route_inv_def)
next
  case (get mg endpoint addrs md5 e now mem type info rc res mg')
  then show ?case using route_get_inv by blast
next
  case (unavailable mg now c t)
  then show ?case by (auto simp: route_inv_def route_notify_unavailable_def notify_unavailable_ok notify_config split: option.split)
next
  case (available mg c t mem)
  then show ?case by (auto simp: route_inv_def route_notify_available_def notify_available_ok notify_config split: option.split)
next
  case (others mg key r s)
  then show ?case using others_inv [of r s] by (auto simp: route_inv_def)
qed

subsection \<open>Properties\<close>

text \<open>C4: a router with several targets never empties its group. In every reachable state \<^verbatim>\<open>nleft\<close> is the number of targets in the
  group and at least one, a target outside the group has an entry in the breaker list, \<^verbatim>\<open>nbreak\<close> is the length of that list,
  and the group is consistent in the sense of the scheduler, so that requests find a target.\<close>

theorem router_keeps_target:
  assumes r: "route_reach mg" and c: "cache mg key = Some r"
  shows "if has_group r
    then request_object r = GroupObject \<and> group_inv (rsched r) \<and> members (rsched r) \<noteq> [] \<and> nleft r = int (length (members (rsched r))) \<and>
      set (members (rsched r)) \<subseteq> set (targets r) \<and> set (targets r) \<subseteq> set (members (rsched r)) \<union> fst ` set (breakers r) \<and>
      nbreak r = int (length (breakers r))
    else \<exists>t. targets r = [t] \<and> request_object r = TargetObject t"
proof -
  have inv: "router_inv r" using route_reach_inv [OF r] c by (simp add: route_inv_def)
  show ?thesis
  proof (cases "has_group r")
    case True
    note D = router_invD [OF inv True]
    have k: "group_inv (rsched r)" "set (members (rsched r)) \<subseteq> set (targets r)" "nleft r = int (card (set (members (rsched r))))"
      using D(1) by (simp_all add: router_core_def sched_ok_def)
    have "hsize (rsched r) \<le> length (heap_of (rsched r))" using k(1) by (simp add: group_inv_def group_ok_def placed_def)
    then have "length (members (rsched r)) = card (set (members (rsched r)))" using members_card(1) [OF k(1)] by (simp add: members_def)
    moreover have "members (rsched r) \<noteq> []" using k(3) D(3) by auto
    ultimately show ?thesis using True D k by simp
  qed (use inv in \<open>simp add: router_inv_def\<close>)
qed

text \<open>C13: targets come back. A look-up of a route after the 30 seconds of every broken target are over puts all targets of the router back
  into its group, whatever memory there is: the array of the group never has to grow again.\<close>

theorem route_targets_return:
  assumes r: "route_reach mg" and c: "cache mg (generate_key md5 type addrs info) = Some r" and h: "has_group r" and a: "addrs \<noteq> []"
    and t: "\<forall>n \<in> set (breakers r). snd n \<le> now" and g: "route_get md5 e now mem type addrs info endpoint mg = (rc, res, mg')"
  shows "rc = 0 \<and> (\<exists>r'. cache mg' (generate_key md5 type addrs info) = Some r' \<and> targets r' = targets r \<and>
    set (members (rsched r')) = set (targets r))"
proof -
  have inv: "router_inv r" using route_reach_inv [OF r] c by (simp add: route_inv_def)
  have "set (members (rsched (router_check_breaker now mem r))) = set (targets r)" by (rule check_breaker_ok(3) [OF inv h]) (use t in blast)
  then show ?thesis using g c a check_breaker_ok(2) [OF inv, of now mem] by (auto simp: route_get_def Let_def same_router_def)
qed

text \<open>a route is looked up by its set of addresses: when a look-up has succeeded, another one with the same addresses in any order finds the
  same router and the same request object, at any time and without creating anything.\<close>

theorem route_get_again:
  assumes r: "route_reach mg" and lim: "snd (snd endpoint) < 2 ^ 32" "length addrs \<le> 2 ^ 30" and p: "mset addrs' = mset addrs"
    and g: "route_get md5 e now mem type addrs info endpoint mg = (0, res, mg')"
  shows "\<exists>mg''. route_get md5 e' now' mem' type addrs' info endpoint' mg' = (0, res, mg'') \<and> dom (cache mg'') = dom (cache mg')"
proof -
  let ?key = "generate_key md5 type addrs info"
  have k: "generate_key md5 type addrs' info = ?key" by (rule key_order [OF p])
  have ne: "addrs \<noteq> []" using g by (auto simp: route_get_def)
  then have ne': "addrs' \<noteq> []" using p by auto
  have inv: "route_inv mg'" by (rule route_get_inv [OF route_reach_inv [OF r] lim g])
  obtain r1 where r1: "cache mg' ?key = Some r1" "route_cookie res = Some ?key" "route_object res = request_object r1"
    using g ne by (auto simp: route_get_def Let_def split: option.splits prod.splits sum.splits)
  have "request_object (router_check_breaker now' mem' r1) = request_object r1"
    using check_breaker_ok(2) [of r1 now' mem'] inv r1(1) by (simp add: route_inv_def same_router_def)
  then show ?thesis using r1 ne' by (auto simp: route_get_def k Let_def)
qed

subsection \<open>A concrete manager\<close>

definition calm :: init_env where
  "calm = \<lparr>base_init = (\<lambda>_ _ _ _. None), group_base = None, realloc = (\<lambda>_. True)\<rparr>"

definition some_md5 :: "string \<Rightarrow> string" where
  "some_md5 s = replicate 16 CHR ''m''"

definition two_targets :: RouteManager where
  "two_targets = snd (snd (route_get some_md5 calm 0 True TT_TCP [''aa'', ''b''] [] (1000, 1000, 4) \<lparr>cache = Map.empty\<rparr>))"

definition some_key :: nat where
  "some_key = generate_key some_md5 TT_TCP [''b'', ''aa''] []"

definition one_left :: RouteManager where
  "one_left = route_notify_unavailable 5 (Some some_key) 2 two_targets"

lemma two_targets_get: "route_get some_md5 calm 0 True TT_TCP [''aa'', ''b''] [] (1000, 1000, 4) \<lparr>cache = Map.empty\<rparr> =
    (0, \<lparr>route_cookie = Some some_key, route_object = GroupObject\<rparr>, two_targets)"
proof -
  let ?g = "route_get some_md5 calm 0 True TT_TCP [''aa'', ''b''] [] (1000, 1000, 4) \<lparr>cache = Map.empty\<rparr>"
  have "fst ?g = 0" "fst (snd ?g) = \<lparr>route_cookie = Some some_key, route_object = GroupObject\<rparr>" by code_simp+
  then show ?thesis by (metis two_targets_def prod.collapse)
qed

lemma two_targets_reach: "route_reach two_targets"
  by (rule route_reach.get [OF route_reach.init _ _ two_targets_get]) simp_all

lemma one_left_reach: "route_reach one_left"
  unfolding one_left_def by (rule route_reach.unavailable [OF two_targets_reach])

lemma one_left_eval:
  "map_option has_group (cache one_left some_key) = Some True"
  "map_option targets (cache one_left some_key) = Some [2, 3]"
  "map_option breakers (cache one_left some_key) = Some [(2, 35)]"
  "map_option (\<lambda>r. members (rsched r)) (cache one_left some_key) = Some [3]"
  by code_simp+

theorem router_keeps_target_witness: "\<exists>r. cache one_left some_key = Some r \<and> nleft r = 1 \<and> members (rsched r) = [3]"
proof -
  obtain r where r: "cache one_left some_key = Some r" using one_left_eval(1) by blast
  show ?thesis using router_keeps_target [OF one_left_reach r] one_left_eval(1,4) r by auto
qed

theorem route_targets_return_witness:
  "\<exists>rc res mg' r'. route_get some_md5 calm 35 False TT_TCP [''b'', ''aa''] [] (1000, 1000, 4) one_left = (rc, res, mg') \<and>
     cache mg' some_key = Some r' \<and> set (members (rsched r')) = {2, 3}"
proof -
  obtain r where r: "cache one_left some_key = Some r" using one_left_eval(1) by blast
  obtain rc res mg' where g: "route_get some_md5 calm 35 False TT_TCP [''b'', ''aa''] [] (1000, 1000, 4) one_left = (rc, res, mg')" by (metis prod_cases3)
  have f: "has_group r" "\<forall>n \<in> set (breakers r). snd n \<le> 35" "targets r = [2, 3]" using one_left_eval(1-3) r by auto
  have k: "cache one_left (generate_key some_md5 TT_TCP [''b'', ''aa''] []) = Some r" using r by (simp add: some_key_def)
  show ?thesis using route_targets_return [OF one_left_reach k f(1) _ f(2) g] g f(3) by (auto simp: some_key_def)
qed

theorem route_get_again_witness:
  "\<exists>mg''. route_get some_md5 calm 9 False TT_TCP [''b'', ''aa''] [] (1, 1, 1) two_targets =
     (0, \<lparr>route_cookie = Some some_key, route_object = GroupObject\<rparr>, mg'')"
  using route_get_again [OF route_reach.init _ _ _ two_targets_get, of "[''b'', ''aa'']" calm 9 False "(1, 1, 1)"] by auto

end
