(* ===== verification/Executor.thy ===== *)
theory Executor imports Prelude "HOL-Library.Multiset" begin

text \<open>
  The executor of \<^verbatim>\<open>kernel/Executor.cc\<close> on the thread pool of \<^verbatim>\<open>kernel/thrdpool.c\<close>, as an interleaving of the steps the
  mutexes make atomic. Queues and sessions are numbers. A pool task is known by its context, the queue: its routine is always
  \<^verbatim>\<open>executor_thread_routine\<close>. Outcomes of \<^verbatim>\<open>malloc\<close> and \<^verbatim>\<open>pthread_create\<close> are arguments.
\<close>

subsection \<open>State\<close>

text \<open>What a pool thread does between two lock operations. An \<open>Idle\<close> thread is about to lock the pool and test the queue; a \<open>Waiting\<close> one sleeps in
  \<^verbatim>\<open>pthread_cond_wait\<close> and does nothing before it is woken.\<close>

datatype thread = Idle | Waiting | Holding nat | Executing nat | Exited

datatype es_state = ES_STATE_FINISHED | ES_STATE_CANCELED

text \<open>\<open>accepted\<close> and \<open>started\<close> log the requests and the sessions that were taken from their queue, with the queue; \<open>handled\<close> logs
  the calls of \<^verbatim>\<open>ExecSession::handle\<close>. \<open>signals\<close> counts the callers that have unlocked the pool in \<^verbatim>\<open>__thrdpool_schedule\<close> and have
  \<^verbatim>\<open>pthread_cond_signal\<close> still to call.\<close>

record executor =
  task_queue :: "nat list"
  task_list :: "nat \<Rightarrow> nat list"
  threads :: "thread list"
  nthreads :: nat
  terminating :: bool
  signals :: nat
  accepted :: "(nat \<times> nat) list"
  started :: "(nat \<times> nat) list"
  handled :: "(nat \<times> es_state) list"

definition new_pool :: executor where
  "new_pool = \<lparr>task_queue = [], task_list = (\<lambda>_. []), threads = [], nthreads = 0, terminating = False, signals = 0, accepted = [], started = [], handled = []\<rparr>"

subsection \<open>The thread pool\<close>

definition pool_increase :: "bool \<Rightarrow> executor \<Rightarrow> int \<times> executor" where
  "pool_increase ok ex = (if ok then (0, ex\<lparr>threads := threads ex @ [Idle], nthreads := nthreads ex + 1\<rparr>) else (-1, ex))"

text \<open>\<open>oks\<close> gives the outcome of each \<^verbatim>\<open>pthread_create\<close>; \<open>None\<close> is a pool that could not be created.\<close>

fun create_threads :: "nat \<Rightarrow> (nat \<Rightarrow> bool) \<Rightarrow> executor \<Rightarrow> executor option" where
  "create_threads 0 oks ex = Some ex"
| "create_threads (Suc n) oks ex =
     (if oks (nthreads ex) then create_threads n oks (ex\<lparr>threads := threads ex @ [Idle], nthreads := nthreads ex + 1\<rparr>) else None)"

text \<open>\<^verbatim>\<open>__thrdpool_schedule\<close>: the entry is added under the mutex, which is released before the signal.\<close>

definition pool_schedule_entry :: "nat \<Rightarrow> executor \<Rightarrow> executor" where
  "pool_schedule_entry q ex = ex\<lparr>task_queue := task_queue ex @ [q], signals := signals ex + 1\<rparr>"

definition pool_schedule :: "bool \<Rightarrow> nat \<Rightarrow> executor \<Rightarrow> int \<times> executor" where
  "pool_schedule mem q ex = (if mem then (0, pool_schedule_entry q ex) else (-1, ex))"

definition set_thread :: "nat \<Rightarrow> thread \<Rightarrow> executor \<Rightarrow> executor" where
  "set_thread i t ex = ex\<lparr>threads := (threads ex)[i := t]\<rparr>"

text \<open>The body of \<^verbatim>\<open>__thrdpool_routine\<close> under the mutex of the pool: a thread takes the first task, or leaves when the pool terminates.\<close>

definition pool_take :: "nat \<Rightarrow> executor \<Rightarrow> executor option" where
  "pool_take i ex =
     (if i < length (threads ex) \<and> threads ex ! i = Idle \<and> \<not> terminating ex
      then (case task_queue ex of [] \<Rightarrow> None | q # qs \<Rightarrow> Some (set_thread i (Holding q) (ex\<lparr>task_queue := qs\<rparr>)))
      else None)"

definition pool_exit :: "nat \<Rightarrow> executor \<Rightarrow> executor option" where
  "pool_exit i ex =
     (if i < length (threads ex) \<and> threads ex ! i = Idle \<and> terminating ex
      then Some (set_thread i Exited (ex\<lparr>nthreads := nthreads ex - 1\<rparr>)) else None)"

text \<open>An idle thread that finds no task goes to sleep; it is woken by a signal, by the broadcast of the termination, or spuriously.\<close>

definition pool_wait :: "nat \<Rightarrow> executor \<Rightarrow> executor option" where
  "pool_wait i ex =
     (if i < length (threads ex) \<and> threads ex ! i = Idle \<and> \<not> terminating ex \<and> task_queue ex = []
      then Some (set_thread i Waiting ex) else None)"

definition pool_wake :: "nat \<Rightarrow> executor \<Rightarrow> executor option" where
  "pool_wake i ex = (if i < length (threads ex) \<and> threads ex ! i = Waiting then Some (set_thread i Idle ex) else None)"

text \<open>\<^verbatim>\<open>pthread_cond_signal\<close>: one of the sleeping threads, any of them, is woken; without one the signal has no effect.\<close>

definition pool_signal :: "nat \<Rightarrow> executor \<Rightarrow> executor option" where
  "pool_signal i ex =
     (if signals ex = 0 then None
      else let ex' = ex\<lparr>signals := signals ex - 1\<rparr> in
        (if Waiting \<in> set (threads ex) then pool_wake i ex' else Some ex'))"

definition pool_terminate :: "executor \<Rightarrow> executor" where
  "pool_terminate ex = ex\<lparr>terminating := True, threads := map (\<lambda>t. if t = Waiting then Idle else t) (threads ex)\<rparr>"

subsection \<open>The executor\<close>

definition executor_init :: "nat \<Rightarrow> (nat \<Rightarrow> bool) \<Rightarrow> executor option" where
  "executor_init n oks = (if n = 0 then None else create_threads n oks new_pool)"

definition request :: "bool \<times> bool \<Rightarrow> nat \<Rightarrow> nat \<Rightarrow> executor \<Rightarrow> int \<times> executor" where
  "request mem s q ex =
     (if \<not> fst mem then (-1, ex)
      else
        (let ex' = ex\<lparr>task_list := (task_list ex)(q := task_list ex q @ [s]), accepted := accepted ex @ [(q, s)]\<rparr> in
         if task_list ex q = [] then
           (case pool_schedule (snd mem) q ex' of (r, ex') \<Rightarrow> (if r < 0 then (-1, ex) else (0, ex')))
         else (0, ex')))"

text \<open>The part of \<^verbatim>\<open>executor_thread_routine\<close> under the mutex of the queue; \<open>None\<close> is a read of an entry that is not there.\<close>

definition routine_start :: "nat \<Rightarrow> nat \<Rightarrow> executor \<Rightarrow> executor option" where
  "routine_start i q ex =
     (case task_list ex q of
        [] \<Rightarrow> None
      | s # ss \<Rightarrow>
          (let ex = ex\<lparr>task_list := (task_list ex)(q := ss), started := started ex @ [(q, s)]\<rparr>;
               ex = (if ss \<noteq> [] then pool_schedule_entry q ex else ex)
           in Some (set_thread i (Executing s) ex)))"

definition routine_finish :: "nat \<Rightarrow> nat \<Rightarrow> executor \<Rightarrow> executor" where
  "routine_finish i s ex = set_thread i Idle (ex\<lparr>handled := handled ex @ [(s, ES_STATE_FINISHED)]\<rparr>)"

definition cancel_tasks :: "nat \<Rightarrow> executor \<Rightarrow> executor" where
  "cancel_tasks q ex = ex\<lparr>handled := handled ex @ map (\<lambda>s. (s, ES_STATE_CANCELED)) (task_list ex q), task_list := (task_list ex)(q := [])\<rparr>"

text \<open>\<^verbatim>\<open>thrdpool_destroy\<close> once all threads have left.\<close>

definition executor_deinit :: "executor \<Rightarrow> executor" where
  "executor_deinit ex = (fold cancel_tasks (task_queue ex) ex)\<lparr>task_queue := []\<rparr>"

subsection \<open>Steps\<close>

text \<open>Steps of the pool threads and the signals that are due, and calls from outside. A spurious wake-up is no step of its own: it can occur any
  number of times and brings nothing forward.\<close>

inductive thread_step :: "executor \<Rightarrow> executor \<Rightarrow> bool" where
  take: "pool_take i ex = Some ex' \<Longrightarrow> thread_step ex ex'"
| start: "i < length (threads ex) \<Longrightarrow> threads ex ! i = Holding q \<Longrightarrow> routine_start i q ex = Some ex' \<Longrightarrow> thread_step ex ex'"
| finish: "i < length (threads ex) \<Longrightarrow> threads ex ! i = Executing s \<Longrightarrow> thread_step ex (routine_finish i s ex)"
| leave: "pool_exit i ex = Some ex' \<Longrightarrow> thread_step ex ex'"
| sleep: "pool_wait i ex = Some ex' \<Longrightarrow> thread_step ex ex'"
| signal: "pool_signal i ex = Some ex' \<Longrightarrow> thread_step ex ex'"

inductive exec_reach :: "executor \<Rightarrow> bool" where
  init: "executor_init n oks = Some ex \<Longrightarrow> exec_reach ex"
| request: "exec_reach ex \<Longrightarrow> exec_reach (snd (request mem s q ex))"
| increase: "exec_reach ex \<Longrightarrow> exec_reach (snd (pool_increase ok ex))"
| terminate: "exec_reach ex \<Longrightarrow> exec_reach (pool_terminate ex)"
| spurious: "exec_reach ex \<Longrightarrow> pool_wake i ex = Some ex' \<Longrightarrow> exec_reach ex'"
| thread: "exec_reach ex \<Longrightarrow> thread_step ex ex' \<Longrightarrow> exec_reach ex'"

subsection \<open>Invariant\<close>

fun held :: "thread \<Rightarrow> nat list" where
  "held (Holding q) = [q]" | "held _ = []"

fun busy :: "thread \<Rightarrow> nat list" where
  "busy (Executing s) = [s]" | "busy _ = []"

definition holding :: "executor \<Rightarrow> nat multiset" where
  "holding ex = mset (concat (map held (threads ex)))"

definition executing :: "executor \<Rightarrow> nat multiset" where
  "executing ex = mset (concat (map busy (threads ex)))"

definition of_queue :: "nat \<Rightarrow> (nat \<times> nat) list \<Rightarrow> nat list" where
  "of_queue q xs = map snd (filter (\<lambda>x. fst x = q) xs)"

text \<open>A queue with sessions has exactly one pool task, waiting or in the hands of a thread; per queue, the requests are the sessions
  started, in order, followed by those waiting; a started session is executing or has been handled.\<close>

definition exec_inv :: "executor \<Rightarrow> bool" where
  "exec_inv ex \<longleftrightarrow>
     (\<forall>q. count (mset (task_queue ex) + holding ex) q = (if task_list ex q = [] then 0 else 1)) \<and>
     nthreads ex = length (filter (\<lambda>t. t \<noteq> Exited) (threads ex)) \<and>
     (\<forall>q. of_queue q (accepted ex) = of_queue q (started ex) @ task_list ex q) \<and>
     mset (map snd (started ex)) = mset (map fst (handled ex)) + executing ex \<and>
     (\<forall>x \<in> set (handled ex). snd x = ES_STATE_FINISHED)"

lemma of_queue_append: "of_queue q (xs @ ys) = of_queue q xs @ of_queue q ys"
  by (simp add: of_queue_def)

lemma of_queue_one: "of_queue q [(p, s)] = (if p = q then [s] else [])"
  by (simp add: of_queue_def)

lemma concat_update:
  "i < length xs \<Longrightarrow> mset (concat (map f (xs[i := t]))) + mset (f (xs ! i)) = mset (concat (map f xs)) + mset (f t)"
  by (induction xs arbitrary: i) (auto simp: less_Suc_eq_0_disj ac_simps)

lemma filter_update:
  "i < length xs \<Longrightarrow> length (filter P (xs[i := t])) + of_bool (P (xs ! i)) = length (filter P xs) + of_bool (P t)"
proof (induction xs arbitrary: i)
  case (Cons x xs)
  then show ?case using Cons.IH [of "i - 1"] by (cases i) simp_all
qed simp

lemma set_thread_sel [simp]:
  "task_queue (set_thread i t ex) = task_queue ex" "task_list (set_thread i t ex) = task_list ex" "nthreads (set_thread i t ex) = nthreads ex"
  "accepted (set_thread i t ex) = accepted ex" "started (set_thread i t ex) = started ex" "handled (set_thread i t ex) = handled ex"
  "threads (set_thread i t ex) = (threads ex)[i := t]" "terminating (set_thread i t ex) = terminating ex"
  "signals (set_thread i t ex) = signals ex"
  by (simp_all add: set_thread_def)

lemma exec_invD:
  assumes "exec_inv ex"
  shows "count (mset (task_queue ex) + holding ex) q = (if task_list ex q = [] then 0 else 1)" "nthreads ex = length (filter (\<lambda>t. t \<noteq> Exited) (threads ex))"
    "of_queue q (accepted ex) = of_queue q (started ex) @ task_list ex q" "mset (map snd (started ex)) = mset (map fst (handled ex)) + executing ex"
    "x \<in> set (handled ex) \<Longrightarrow> snd x = ES_STATE_FINISHED"
  using assms by (auto simp: exec_inv_def)

lemma exec_invI:
  assumes "\<And>q. count (mset (task_queue ex) + holding ex) q = (if task_list ex q = [] then 0 else 1)" "nthreads ex = length (filter (\<lambda>t. t \<noteq> Exited) (threads ex))"
    "\<And>q. of_queue q (accepted ex) = of_queue q (started ex) @ task_list ex q" "mset (map snd (started ex)) = mset (map fst (handled ex)) + executing ex"
    "\<And>x. x \<in> set (handled ex) \<Longrightarrow> snd x = ES_STATE_FINISHED"
  shows "exec_inv ex"
  using assms by (auto simp: exec_inv_def)

lemma routine_startE:
  assumes "routine_start i q ex = Some ex'"
  obtains s ss where "task_list ex q = s # ss"
    "ex' = set_thread i (Executing s) ((if ss \<noteq> [] then pool_schedule_entry q else id) (ex\<lparr>task_list := (task_list ex)(q := ss), started := started ex @ [(q, s)]\<rparr>))"
  using assms by (auto simp: routine_start_def Let_def split: list.splits)

lemma take_inv:
  assumes inv: "exec_inv ex" and t: "pool_take i ex = Some ex'"
  shows "exec_inv ex'"
proof -
  obtain q qs where q: "i < length (threads ex)" "threads ex ! i = Idle" "task_queue ex = q # qs" "ex' = set_thread i (Holding q) (ex\<lparr>task_queue := qs\<rparr>)"
    using t by (auto simp: pool_take_def split: if_splits list.splits)
  have sel: "threads ex' = (threads ex)[i := Holding q]" "task_list ex' = task_list ex" "started ex' = started ex" "task_queue ex' = qs"
    "accepted ex' = accepted ex" "handled ex' = handled ex" "nthreads ex' = nthreads ex"
    by (simp_all add: q(4))
  have h: "holding ex' = add_mset q (holding ex)" "executing ex' = executing ex"
    using concat_update [OF q(1), of held "Holding q"] concat_update [OF q(1), of busy "Holding q"] q(2) by (simp_all add: holding_def executing_def sel)
  show ?thesis
  proof (rule exec_invI)
    show "count (mset (task_queue ex') + holding ex') p = (if task_list ex' p = [] then 0 else 1)" for p
      using exec_invD(1) [OF inv, of p] by (simp add: h sel q(3))
    show "nthreads ex' = length (filter (\<lambda>t. t \<noteq> Exited) (threads ex'))"
      using exec_invD(2) [OF inv] filter_update [OF q(1), of "\<lambda>t. t \<noteq> Exited" "Holding q"] q(2) by (simp add: sel)
  qed (use exec_invD(3-5) [OF inv] in \<open>auto simp: sel h(2)\<close>)
qed

lemma start_inv:
  assumes inv: "exec_inv ex" and i: "i < length (threads ex)" "threads ex ! i = Holding q" and t: "routine_start i q ex = Some ex'"
  shows "exec_inv ex'"
proof -
  obtain s ss where q: "task_list ex q = s # ss"
    and e: "ex' = set_thread i (Executing s) ((if ss \<noteq> [] then pool_schedule_entry q else id) (ex\<lparr>task_list := (task_list ex)(q := ss), started := started ex @ [(q, s)]\<rparr>))"
    by (rule routine_startE [OF t])
  have sel: "threads ex' = (threads ex)[i := Executing s]" "task_list ex' = (task_list ex)(q := ss)" "started ex' = started ex @ [(q, s)]"
    "task_queue ex' = task_queue ex @ (if ss \<noteq> [] then [q] else [])" "accepted ex' = accepted ex" "handled ex' = handled ex" "nthreads ex' = nthreads ex"
    by (simp_all add: e pool_schedule_entry_def)
  have h: "add_mset q (holding ex') = holding ex" "executing ex' = add_mset s (executing ex)"
    using concat_update [OF i(1), of held "Executing s"] concat_update [OF i(1), of busy "Executing s"] i(2) by (simp_all add: holding_def executing_def sel)
  show ?thesis
  proof (rule exec_invI)
    show "count (mset (task_queue ex') + holding ex') p = (if task_list ex' p = [] then 0 else 1)" for p
      using exec_invD(1) [OF inv, of p] q by (auto simp: sel h(1) [symmetric] split: if_splits)
    show "nthreads ex' = length (filter (\<lambda>t. t \<noteq> Exited) (threads ex'))"
      using exec_invD(2) [OF inv] filter_update [OF i(1), of "\<lambda>t. t \<noteq> Exited" "Executing s"] i(2) by (simp add: sel)
    show "of_queue p (accepted ex') = of_queue p (started ex') @ task_list ex' p" for p
      using exec_invD(3) [OF inv, of p] q by (simp add: sel of_queue_append of_queue_one)
  qed (use exec_invD(4,5) [OF inv] h(2) in \<open>auto simp: sel\<close>)
qed

lemma finish_inv:
  assumes inv: "exec_inv ex" and i: "i < length (threads ex)" "threads ex ! i = Executing s"
  shows "exec_inv (routine_finish i s ex)"
proof -
  let ?ex = "routine_finish i s ex"
  have h: "holding ?ex = holding ex" "add_mset s (executing ?ex) = executing ex"
    using concat_update [OF i(1), of held Idle] concat_update [OF i(1), of busy Idle] i(2) by (simp_all add: holding_def executing_def routine_finish_def)
  show ?thesis
  proof (rule exec_invI)
    show "nthreads ?ex = length (filter (\<lambda>t. t \<noteq> Exited) (threads ?ex))"
      using exec_invD(2) [OF inv] filter_update [OF i(1), of "\<lambda>t. t \<noteq> Exited" Idle] i(2) by (simp add: routine_finish_def)
    show "mset (map snd (started ?ex)) = mset (map fst (handled ?ex)) + executing ?ex"
      using exec_invD(4) [OF inv] h(2) by (simp add: routine_finish_def)
  qed (use exec_invD(1,3,5) [OF inv] h(1) in \<open>auto simp: routine_finish_def\<close>)
qed

lemma exit_inv:
  assumes inv: "exec_inv ex" and t: "pool_exit i ex = Some ex'"
  shows "exec_inv ex'"
proof -
  have i: "i < length (threads ex)" "threads ex ! i = Idle" and e: "ex' = set_thread i Exited (ex\<lparr>nthreads := nthreads ex - 1\<rparr>)"
    using t by (auto simp: pool_exit_def split: if_splits)
  have sel: "threads ex' = (threads ex)[i := Exited]" "task_list ex' = task_list ex" "started ex' = started ex" "task_queue ex' = task_queue ex"
    "accepted ex' = accepted ex" "handled ex' = handled ex" "nthreads ex' = nthreads ex - 1"
    by (simp_all add: e)
  have h: "holding ex' = holding ex" "executing ex' = executing ex"
    using concat_update [OF i(1), of held Exited] concat_update [OF i(1), of busy Exited] i(2) by (simp_all add: holding_def executing_def e)
  show ?thesis
  proof (rule exec_invI)
    show "nthreads ex' = length (filter (\<lambda>t. t \<noteq> Exited) (threads ex'))"
      using exec_invD(2) [OF inv] filter_update [OF i(1), of "\<lambda>t. t \<noteq> Exited" Exited] i(2) by (simp add: sel)
  qed (use exec_invD(1,3,4,5) [OF inv] in \<open>auto simp: sel h\<close>)
qed

lemma set_thread_inv:
  assumes inv: "exec_inv ex" and i: "i < length (threads ex)" "threads ex ! i \<in> {Idle, Waiting}" and t: "t \<in> {Idle, Waiting}"
  shows "exec_inv (set_thread i t ex)" "holding (set_thread i t ex) = holding ex" "executing (set_thread i t ex) = executing ex"
proof -
  show h: "holding (set_thread i t ex) = holding ex" "executing (set_thread i t ex) = executing ex"
    using concat_update [OF i(1), of held t] concat_update [OF i(1), of busy t] i(2) t by (auto simp: holding_def executing_def)
  show "exec_inv (set_thread i t ex)"
  proof (rule exec_invI)
    show "nthreads (set_thread i t ex) = length (filter (\<lambda>t. t \<noteq> Exited) (threads (set_thread i t ex)))"
      using exec_invD(2) [OF inv] filter_update [OF i(1), of "\<lambda>t. t \<noteq> Exited" t] i(2) t by auto
  qed (use exec_invD(1,3,4,5) [OF inv] in \<open>auto simp: h\<close>)
qed

lemma wake_inv: "exec_inv ex \<Longrightarrow> pool_wake i ex = Some ex' \<Longrightarrow> exec_inv ex'"
  by (auto simp: pool_wake_def split: if_splits intro: set_thread_inv)

lemma wait_inv: "exec_inv ex \<Longrightarrow> pool_wait i ex = Some ex' \<Longrightarrow> exec_inv ex'"
  by (auto simp: pool_wait_def split: if_splits intro: set_thread_inv)

lemma signals_inv: "exec_inv (ex\<lparr>signals := n\<rparr>) = exec_inv ex"
  by (simp add: exec_inv_def holding_def executing_def)

lemma signal_inv: "exec_inv ex \<Longrightarrow> pool_signal i ex = Some ex' \<Longrightarrow> exec_inv ex'"
  by (auto simp: pool_signal_def Let_def signals_inv split: if_splits intro: wake_inv [of "ex\<lparr>signals := signals ex - 1\<rparr>"])

text \<open>The broadcast changes no task, and no count of the threads that run.\<close>

lemma broadcast_threads:
  "concat (map held (map (\<lambda>t. if t = Waiting then Idle else t) ts)) = concat (map held ts)"
  "concat (map busy (map (\<lambda>t. if t = Waiting then Idle else t) ts)) = concat (map busy ts)"
  "length (filter (\<lambda>t. t \<noteq> Exited) (map (\<lambda>t. if t = Waiting then Idle else t) ts)) = length (filter (\<lambda>t. t \<noteq> Exited) ts)"
  by (induction ts) auto

lemma terminate_inv: "exec_inv ex \<Longrightarrow> exec_inv (pool_terminate ex)"
proof (rule exec_invI)
  assume inv: "exec_inv ex"
  have h: "holding (pool_terminate ex) = holding ex" "executing (pool_terminate ex) = executing ex"
    using broadcast_threads [of "threads ex"] by (simp_all add: holding_def executing_def pool_terminate_def del: map_map)
  show "count (mset (task_queue (pool_terminate ex)) + holding (pool_terminate ex)) q = (if task_list (pool_terminate ex) q = [] then 0 else 1)" for q
    using exec_invD(1) [OF inv, of q] unfolding h by (simp add: pool_terminate_def)
  show "nthreads (pool_terminate ex) = length (filter (\<lambda>t. t \<noteq> Exited) (threads (pool_terminate ex)))"
    using exec_invD(2) [OF inv] broadcast_threads(3) [of "threads ex"] by (simp add: pool_terminate_def)
  show "mset (map snd (started (pool_terminate ex))) = mset (map fst (handled (pool_terminate ex))) + executing (pool_terminate ex)"
    using exec_invD(4) [OF inv] unfolding h by (simp add: pool_terminate_def)
qed (auto simp: pool_terminate_def exec_invD(3,5))

lemma request_inv:
  assumes inv: "exec_inv ex"
  shows "exec_inv (snd (request mem s q ex))"
proof (cases "snd (request mem s q ex) = ex")
  case False
  let ?ex = "snd (request mem s q ex)"
  have sel: "threads ?ex = threads ex" "task_list ?ex = (task_list ex)(q := task_list ex q @ [s])" "started ?ex = started ex"
    "task_queue ?ex = task_queue ex @ (if task_list ex q = [] then [q] else [])" "accepted ?ex = accepted ex @ [(q, s)]" "handled ?ex = handled ex" "nthreads ?ex = nthreads ex"
    using False by (auto simp: request_def pool_schedule_def pool_schedule_entry_def Let_def split: if_splits)
  have h: "holding ?ex = holding ex" "executing ?ex = executing ex" by (simp_all add: holding_def executing_def sel)
  show ?thesis
  proof (rule exec_invI)
    show "count (mset (task_queue ?ex) + holding ?ex) p = (if task_list ?ex p = [] then 0 else 1)" for p
      using exec_invD(1) [OF inv, of p] by (auto simp: sel h split: if_splits)
    show "of_queue p (accepted ?ex) = of_queue p (started ?ex) @ task_list ?ex p" for p
      using exec_invD(3) [OF inv, of p] by (simp add: sel of_queue_append of_queue_one)
  qed (use exec_invD(2,4,5) [OF inv] in \<open>auto simp: sel h\<close>)
qed (use inv in simp)

lemma create_threads_inv:
  "exec_inv ex \<Longrightarrow> create_threads n oks ex = Some ex' \<Longrightarrow> exec_inv ex' \<and> nthreads ex' = nthreads ex + n \<and> terminating ex' = terminating ex"
proof (induction n arbitrary: ex)
  case (Suc n)
  let ?ex = "ex\<lparr>threads := threads ex @ [Idle], nthreads := nthreads ex + 1\<rparr>"
  have "exec_inv ?ex" using Suc.prems(1) by (simp add: exec_inv_def holding_def executing_def)
  then show ?case using Suc.IH [of ?ex] Suc.prems(2) by (simp split: if_splits)
qed simp

lemma reach_exec_inv: "exec_reach ex \<Longrightarrow> exec_inv ex"
proof (induction rule: exec_reach.induct)
  case (init n oks ex)
  moreover have "exec_inv new_pool" by (simp add: exec_inv_def new_pool_def holding_def executing_def of_queue_def)
  ultimately show ?case using create_threads_inv by (auto simp: executor_init_def split: if_splits)
next
  case (thread ex ex')
  from thread(2,3) show ?case by cases (auto intro: take_inv start_inv finish_inv exit_inv wait_inv signal_inv)
next
  case (increase ex ok)
  then show ?case by (simp add: pool_increase_def exec_inv_def holding_def executing_def)
qed (auto intro: request_inv wake_inv terminate_inv)

subsection \<open>No lost wake-up\<close>

text \<open>While the pool runs, a thread sleeps only when every entry of the queue is accounted for by a thread that is about to test the queue or by a
  signal that is still to come.\<close>

definition idlers :: "executor \<Rightarrow> nat" where
  "idlers ex = length (filter (\<lambda>t. t = Idle) (threads ex))"

definition awake_inv :: "executor \<Rightarrow> bool" where
  "awake_inv ex \<longleftrightarrow> (\<not> terminating ex \<and> Waiting \<in> set (threads ex) \<longrightarrow> length (task_queue ex) \<le> signals ex + idlers ex)"

lemma idlers_set:
  "i < length (threads ex) \<Longrightarrow> idlers (set_thread i t ex) + of_bool (threads ex ! i = Idle) = idlers ex + of_bool (t = Idle)"
  using filter_update [of i "threads ex" "\<lambda>t. t = Idle" t] by (simp add: idlers_def)

lemma waiting_set: "t \<noteq> Waiting \<Longrightarrow> Waiting \<in> set (ts[i := t]) \<Longrightarrow> Waiting \<in> set ts"
  using set_update_subset_insert [of ts i t] by auto

lemma idlers_upd [simp]:
  "idlers (ex\<lparr>task_queue := a\<rparr>) = idlers ex" "idlers (ex\<lparr>signals := n\<rparr>) = idlers ex" "idlers (ex\<lparr>handled := h\<rparr>) = idlers ex"
  "idlers (ex\<lparr>task_list := b, started := c\<rparr>) = idlers ex" "idlers (ex\<lparr>task_list := b, accepted := c\<rparr>) = idlers ex"
  "idlers (ex\<lparr>task_queue := a, signals := n\<rparr>) = idlers ex"
  by (simp_all add: idlers_def)

lemma awake_mono:
  assumes "awake_inv ex" "Waiting \<in> set (threads ex') \<Longrightarrow> Waiting \<in> set (threads ex)" "terminating ex \<Longrightarrow> terminating ex'"
    "length (task_queue ex') + signals ex + idlers ex \<le> length (task_queue ex) + signals ex' + idlers ex'"
  shows "awake_inv ex'"
  using assms by (auto simp: awake_inv_def)

lemma wake_awake:
  assumes "awake_inv ex" "pool_wake i ex = Some ex'"
  shows "awake_inv ex'"
  by (rule awake_mono [OF assms(1)])
    (use assms(2) idlers_set [of i ex Idle] in \<open>auto simp: pool_wake_def split: if_splits dest: waiting_set [rotated]\<close>)

lemma take_awake:
  assumes "awake_inv ex" "pool_take i ex = Some ex'"
  shows "awake_inv ex'"
proof -
  obtain q qs where q: "i < length (threads ex)" "threads ex ! i = Idle" "task_queue ex = q # qs" "ex' = set_thread i (Holding q) (ex\<lparr>task_queue := qs\<rparr>)"
    using assms(2) by (auto simp: pool_take_def split: if_splits list.splits)
  show ?thesis
    by (rule awake_mono [OF assms(1)]) (use q idlers_set [of i "ex\<lparr>task_queue := qs\<rparr>" "Holding q"] in \<open>auto dest: waiting_set [rotated]\<close>)
qed

lemma start_awake:
  assumes "awake_inv ex" and i: "i < length (threads ex)" "threads ex ! i = Holding q" and "routine_start i q ex = Some ex'"
  shows "awake_inv ex'"
proof -
  obtain s ss where
    e: "ex' = set_thread i (Executing s) ((if ss \<noteq> [] then pool_schedule_entry q else id) (ex\<lparr>task_list := (task_list ex)(q := ss), started := started ex @ [(q, s)]\<rparr>))"
    by (rule routine_startE [OF assms(4)])
  have "idlers ex' = idlers ex" using filter_update [OF i(1), of "\<lambda>t. t = Idle" "Executing s"] i(2) by (simp add: e idlers_def pool_schedule_entry_def)
  then show ?thesis
    by (intro awake_mono [OF assms(1)]) (auto simp: e pool_schedule_entry_def split: if_splits dest: waiting_set [rotated])
qed

lemma finish_awake:
  assumes "awake_inv ex" and i: "i < length (threads ex)" "threads ex ! i = Executing s"
  shows "awake_inv (routine_finish i s ex)"
  by (rule awake_mono [OF assms(1)])
    (use i idlers_set [of i "ex\<lparr>handled := handled ex @ [(s, ES_STATE_FINISHED)]\<rparr>" Idle] in \<open>auto simp: routine_finish_def dest: waiting_set [rotated]\<close>)

lemma signal_awake:
  assumes "awake_inv ex" "pool_signal i ex = Some ex'"
  shows "awake_inv ex'"
proof (cases "Waiting \<in> set (threads ex)")
  case True
  have s: "0 < signals ex" "i < length (threads ex)" "threads ex ! i = Waiting" "ex' = set_thread i Idle (ex\<lparr>signals := signals ex - 1\<rparr>)"
    using assms(2) True by (auto simp: pool_signal_def pool_wake_def Let_def split: if_splits)
  show ?thesis
    by (rule awake_mono [OF assms(1)]) (use s True idlers_set [of i "ex\<lparr>signals := signals ex - 1\<rparr>" Idle] in auto)
next
  case False
  then show ?thesis using assms(2) by (auto simp: awake_inv_def pool_signal_def Let_def split: if_splits)
qed

lemma request_awake: "awake_inv ex \<Longrightarrow> awake_inv (snd (request mem s q ex))"
  by (auto simp: request_def pool_schedule_def pool_schedule_entry_def Let_def awake_inv_def idlers_def)

lemma step_awake:
  assumes "awake_inv ex" "thread_step ex ex'"
  shows "awake_inv ex'"
  using assms(2)
proof cases
  case (leave i)
  then show ?thesis by (auto simp: awake_inv_def pool_exit_def split: if_splits)
next
  case (sleep i)
  then show ?thesis by (auto simp: awake_inv_def pool_wait_def split: if_splits)
qed (use assms(1) take_awake start_awake finish_awake signal_awake in blast)+

lemma reach_awake_inv: "exec_reach ex \<Longrightarrow> awake_inv ex"
proof (induction rule: exec_reach.induct)
  case (init n oks ex)
  have "create_threads n oks e = Some e' \<Longrightarrow> task_queue e' = task_queue e" for e e' by (induction n arbitrary: e) (auto split: if_splits)
  from this [of new_pool ex] show ?case using init by (auto simp: executor_init_def awake_inv_def new_pool_def split: if_splits)
next
  case (terminate ex)
  then show ?case by (simp add: awake_inv_def pool_terminate_def)
next
  case (increase ex ok)
  then show ?case by (auto simp: pool_increase_def awake_inv_def idlers_def)
qed (auto intro: request_awake wake_awake step_awake)

subsection \<open>Counting sessions\<close>

lemma count_of_queue: "count (mset xs) (q, s) = count (mset (of_queue q xs)) s"
  by (induction xs) (auto simp: of_queue_def)

lemma of_queue_mset: "(\<And>q. of_queue q xs = of_queue q ys) \<Longrightarrow> mset xs = mset ys"
  by (intro multiset_eqI) (metis count_of_queue surj_pair)

lemma started_le:
  assumes "exec_inv ex"
  shows "mset (started ex) \<subseteq># mset (accepted ex)" "length (started ex) \<le> length (accepted ex)"
proof -
  show le: "mset (started ex) \<subseteq># mset (accepted ex)"
  proof (rule mset_subset_eqI)
    fix x :: "nat \<times> nat"
    show "count (mset (started ex)) x \<le> count (mset (accepted ex)) x"
      using exec_invD(3) [OF assms, of "fst x"] count_of_queue [of _ "fst x" "snd x"] by simp
  qed
  then show "length (started ex) \<le> length (accepted ex)" by (metis size_mset size_mset_mono)
qed

lemma holding_thread: "i < length (threads ex) \<Longrightarrow> threads ex ! i = Holding q \<Longrightarrow> q \<in># holding ex"
  using nth_mem [of i "threads ex"] by (force simp: holding_def)

lemma start_possible:
  assumes inv: "exec_inv ex" and i: "i < length (threads ex)" "threads ex ! i = Holding q"
  shows "task_list ex q \<noteq> []" "\<exists>ex'. routine_start i q ex = Some ex'"
proof -
  have "0 < count (mset (task_queue ex) + holding ex) q" using holding_thread [OF i] by (simp add: count_greater_zero_iff)
  then show "task_list ex q \<noteq> []" using exec_invD(1) [OF inv, of q] by (metis less_irrefl)
  then show "\<exists>ex'. routine_start i q ex = Some ex'" by (auto simp: routine_start_def Let_def split: list.split)
qed

text \<open>What is left to do, weighted so that every step of a thread and every signal reduces it.\<close>

definition work :: "executor \<Rightarrow> nat" where
  "work ex = 5 * (length (accepted ex) - length (started ex)) + 2 * length (task_queue ex) + 2 * size (holding ex) + 2 * size (executing ex) +
     2 * signals ex + idlers ex"

lemma take_work:
  assumes t: "pool_take i ex = Some ex'"
  shows "work ex' < work ex"
proof -
  obtain q qs where q: "i < length (threads ex)" "threads ex ! i = Idle" "task_queue ex = q # qs" "ex' = set_thread i (Holding q) (ex\<lparr>task_queue := qs\<rparr>)"
    using t by (auto simp: pool_take_def split: if_splits list.splits)
  have "holding ex' = add_mset q (holding ex)" "executing ex' = executing ex"
    using concat_update [OF q(1), of held "Holding q"] concat_update [OF q(1), of busy "Holding q"] q(2) by (simp_all add: holding_def executing_def q(4))
  moreover have "idlers ex' + 1 = idlers ex" using filter_update [OF q(1), of "\<lambda>t. t = Idle" "Holding q"] q(2) by (simp add: idlers_def q(4))
  ultimately show ?thesis using q(3) by (simp add: work_def) (simp add: q(4))
qed

lemma start_work:
  assumes inv: "exec_inv ex" and i: "i < length (threads ex)" "threads ex ! i = Holding q" and t: "routine_start i q ex = Some ex'"
  shows "work ex' < work ex"
proof -
  obtain s ss where e: "task_list ex q = s # ss"
    "ex' = set_thread i (Executing s) ((if ss \<noteq> [] then pool_schedule_entry q else id) (ex\<lparr>task_list := (task_list ex)(q := ss), started := started ex @ [(q, s)]\<rparr>))"
    by (rule routine_startE [OF t])
  have sel: "started ex' = started ex @ [(q, s)]" "length (task_queue ex') \<le> length (task_queue ex) + 1" "accepted ex' = accepted ex" "threads ex' = (threads ex)[i := Executing s]"
    "signals ex' \<le> signals ex + 1"
    by (simp_all add: e(2) pool_schedule_entry_def)
  have h: "add_mset q (holding ex') = holding ex" "executing ex' = add_mset s (executing ex)"
    using concat_update [OF i(1), of held "Executing s"] concat_update [OF i(1), of busy "Executing s"] i(2) by (simp_all add: holding_def executing_def sel)
  have "length (started ex) < length (accepted ex)" using started_le(2) [OF start_inv [OF inv i t]] sel(1,3) by simp
  moreover have "size (holding ex) = Suc (size (holding ex'))" using h(1) by (metis size_add_mset)
  moreover have "idlers ex' = idlers ex" using filter_update [OF i(1), of "\<lambda>t. t = Idle" "Executing s"] i(2) by (simp add: idlers_def sel)
  ultimately show ?thesis using sel(1-3,5) h(2) by (simp add: work_def)
qed

lemma finish_work:
  assumes i: "i < length (threads ex)" "threads ex ! i = Executing s"
  shows "work (routine_finish i s ex) < work ex"
proof -
  let ?ex = "routine_finish i s ex"
  have "holding ?ex = holding ex" "add_mset s (executing ?ex) = executing ex"
    using concat_update [OF i(1), of held Idle] concat_update [OF i(1), of busy Idle] i(2) by (simp_all add: holding_def executing_def routine_finish_def)
  then have h: "holding ?ex = holding ex" "size (executing ex) = Suc (size (executing ?ex))" by (metis size_add_mset)+
  have "idlers ?ex = idlers ex + 1" using filter_update [OF i(1), of "\<lambda>t. t = Idle" Idle] i(2) by (simp add: idlers_def routine_finish_def)
  with h show ?thesis by (simp add: work_def) (simp add: routine_finish_def)
qed

lemma wait_work:
  assumes inv: "exec_inv ex" and t: "pool_wait i ex = Some ex'"
  shows "work ex' < work ex"
proof -
  have w: "i < length (threads ex)" "threads ex ! i = Idle" "ex' = set_thread i Waiting ex" using t by (auto simp: pool_wait_def split: if_splits)
  then show ?thesis using idlers_set [OF w(1), of Waiting] set_thread_inv(2,3) [OF inv w(1), of Waiting] by (simp add: work_def)
qed

lemma signal_work:
  assumes inv: "exec_inv ex" and t: "pool_signal i ex = Some ex'"
  shows "work ex' < work ex"
proof -
  let ?ex = "ex\<lparr>signals := signals ex - 1\<rparr>"
  have w: "work ?ex + 2 = work ex" using t by (auto simp: work_def holding_def executing_def pool_signal_def split: if_splits)
  show ?thesis
  proof (cases "Waiting \<in> set (threads ex)")
    case True
    then have k: "i < length (threads ?ex)" "threads ?ex ! i = Waiting" "ex' = set_thread i Idle ?ex"
      using t by (auto simp: pool_signal_def pool_wake_def Let_def split: if_splits)
    have "exec_inv ?ex" using inv signals_inv by blast
    from set_thread_inv(2,3) [OF this k(1), of Idle] idlers_set [OF k(1), of Idle] k
    have "work ex' \<le> work ?ex + 1" by (simp add: work_def)
    then show ?thesis using w by simp
  next
    case False
    then have "ex' = ?ex" using t by (auto simp: pool_signal_def Let_def split: if_splits)
    then show ?thesis using w by simp
  qed
qed

lemma step_work:
  assumes inv: "exec_inv ex" and t: "\<not> terminating ex" and st: "thread_step ex ex'"
  shows "work ex' < work ex"
  using st by cases (use inv t take_work start_work finish_work wait_work signal_work in \<open>auto simp: pool_exit_def\<close>)

text \<open>When nothing can move, every thread sleeps and no signal is due; so the queue is empty.\<close>

lemma stuck_asleep:
  assumes inv: "exec_inv ex" and t: "\<not> terminating ex" and st: "\<nexists>ex'. thread_step ex ex'" and th: "t \<in> set (threads ex)"
  shows "t = Waiting \<or> t = Exited"
proof -
  obtain i where i: "i < length (threads ex)" "threads ex ! i = t" using th by (auto simp: in_set_conv_nth)
  have "t \<noteq> Idle"
  proof
    assume idle: "t = Idle"
    show False
    proof (cases "task_queue ex")
      case Nil
      then have "pool_wait i ex \<noteq> None" using i idle t by (simp add: pool_wait_def)
      then show False using st thread_step.sleep by blast
    next
      case (Cons q qs)
      then have "pool_take i ex \<noteq> None" using i idle t by (simp add: pool_take_def)
      then show False using st thread_step.take by blast
    qed
  qed
  moreover have "t \<noteq> Holding q" for q using i start_possible(2) [OF inv i(1)] st thread_step.start by blast
  moreover have "t \<noteq> Executing s" for s using i st thread_step.finish by blast
  ultimately show ?thesis by (cases t) auto
qed

lemma stuck_no_signal:
  assumes st: "\<nexists>ex'. thread_step ex ex'"
  shows "signals ex = 0"
proof (rule ccontr)
  assume s: "signals ex \<noteq> 0"
  show False
  proof (cases "Waiting \<in> set (threads ex)")
    case True
    then obtain i where "i < length (threads ex)" "threads ex ! i = Waiting" by (auto simp: in_set_conv_nth)
    then have "pool_signal i ex \<noteq> None" using s True by (simp add: pool_signal_def pool_wake_def)
    then show False using st thread_step.signal by blast
  next
    case False
    then have "pool_signal 0 ex \<noteq> None" using s by (simp add: pool_signal_def)
    then show False using st thread_step.signal by blast
  qed
qed

lemma stuck_idle:
  assumes inv: "exec_inv ex" and awake: "awake_inv ex" and t: "\<not> terminating ex" "0 < nthreads ex" and st: "\<nexists>ex'. thread_step ex ex'"
  shows "task_queue ex = []" "holding ex = {#}" "executing ex = {#}"
proof -
  note none = stuck_asleep [OF inv t(1) st]
  then have nil: "held t = []" "busy t = []" "t \<noteq> Idle" if "t \<in> set (threads ex)" for t using that by fastforce+
  show "holding ex = {#}" "executing ex = {#}" using nil by (simp_all add: holding_def executing_def)
  have "filter (\<lambda>t. t \<noteq> Exited) (threads ex) \<noteq> []" using exec_invD(2) [OF inv] t(2) by auto
  then have "Waiting \<in> set (threads ex)" using none by (force simp: filter_empty_conv)
  moreover have "idlers ex = 0" using nil(3) by (auto simp: idlers_def filter_empty_conv)
  ultimately show "task_queue ex = []" using awake t(1) stuck_no_signal [OF st] by (simp add: awake_inv_def)
qed

lemma all_started:
  assumes inv: "exec_inv ex" and e: "\<And>q. task_list ex q = []"
  shows "mset (accepted ex) = mset (started ex)"
  by (rule of_queue_mset) (simp add: exec_invD(3) [OF inv] e)

text \<open>Cancelling: \<open>waiting\<close> are the sessions in the queues that the pool still has a task for.\<close>

definition waiting :: "executor \<Rightarrow> nat list \<Rightarrow> (nat \<times> nat) list" where
  "waiting ex qs = concat (map (\<lambda>q. map (Pair q) (task_list ex q)) qs)"

lemma cancel_fold:
  "distinct qs \<Longrightarrow> handled (fold cancel_tasks qs ex) = handled ex @ map (\<lambda>x. (snd x, ES_STATE_CANCELED)) (waiting ex qs) \<and>
     task_list (fold cancel_tasks qs ex) = (\<lambda>q. if q \<in> set qs then [] else task_list ex q)"
proof (induction qs arbitrary: ex)
  case (Cons q qs)
  have "waiting (cancel_tasks q ex) qs = waiting ex qs"
    using Cons.prems by (auto simp: waiting_def cancel_tasks_def intro!: arg_cong [where f = concat] map_cong)
  then show ?case using Cons.IH [of "cancel_tasks q ex"] Cons.prems by (auto simp: cancel_tasks_def waiting_def comp_def fun_eq_iff)
qed (simp add: waiting_def)

lemma of_queue_waiting: "distinct qs \<Longrightarrow> of_queue q (waiting ex qs) = (if q \<in> set qs then task_list ex q else [])"
proof (induction qs)
  case (Cons p qs)
  have "of_queue q (map (Pair p) xs) = (if p = q then xs else [])" for xs by (induction xs) (auto simp: of_queue_def)
  then show ?case using Cons by (auto simp: waiting_def of_queue_append)
qed (simp add: waiting_def of_queue_def)

lemma deinit_state:
  assumes inv: "exec_inv ex" and n: "nthreads ex = 0"
  shows "distinct (task_queue ex)" "set (task_queue ex) = {q. task_list ex q \<noteq> []}" "executing ex = {#}"
proof -
  have ex: "t = Exited" if "t \<in> set (threads ex)" for t using exec_invD(2) [OF inv] n that by (auto simp: filter_empty_conv)
  then have nil: "held t = []" "busy t = []" if "t \<in> set (threads ex)" for t using that by fastforce+
  then show "executing ex = {#}" by (simp add: executing_def)
  have "holding ex = {#}" using nil by (simp add: holding_def)
  then have c: "count (mset (task_queue ex)) q = (if task_list ex q = [] then 0 else 1)" for q using exec_invD(1) [OF inv, of q] by simp
  have s: "q \<in> set (task_queue ex) \<longleftrightarrow> task_list ex q \<noteq> []" for q using c [of q] count_greater_zero_iff [of "mset (task_queue ex)" q] by (auto split: if_splits)
  then show "set (task_queue ex) = {q. task_list ex q \<noteq> []}" by blast
  show "distinct (task_queue ex)" unfolding distinct_count_atmost_1 using c s by auto
qed

subsection \<open>Properties\<close>

text \<open>C22: in every interleaving of requests and pool threads, a thread that has a pool task in its hands finds a session in its queue, and
  each queue starts its sessions in the order of the requests: what was requested is what was started followed by what waits. Every started session
  is executing or has been told that it finished, exactly once.\<close>

theorem executor_fifo:
  assumes r: "exec_reach ex"
  shows "(\<forall>i q. i < length (threads ex) \<and> threads ex ! i = Holding q \<longrightarrow> routine_start i q ex \<noteq> None) \<and>
    (\<forall>q. of_queue q (accepted ex) = of_queue q (started ex) @ task_list ex q) \<and>
    mset (map snd (started ex)) = mset (map fst (handled ex)) + executing ex"
  using start_possible(2) [OF reach_exec_inv [OF r]] exec_invD(3,4) [OF reach_exec_inv [OF r]] by fastforce

text \<open>C23: no request is forgotten and no wake-up lost while the pool runs. In a pool that is not being terminated and has at least one thread, every
  step of a pool thread and every signal reduces the work left, also when threads sleep on the condition variable until they are signalled; and when
  no thread can move and no signal is due, every accepted session has been executed and told so. A spurious wake-up can occur in any reachable state and
  is not counted as a step.\<close>

theorem executor_drains:
  assumes r: "exec_reach ex" and t: "\<not> terminating ex" "0 < nthreads ex"
  shows "(\<forall>ex'. thread_step ex ex' \<longrightarrow> work ex' < work ex) \<and>
    ((\<nexists>ex'. thread_step ex ex') \<longrightarrow> (\<forall>q. task_list ex q = []) \<and> mset (map fst (handled ex)) = mset (map snd (accepted ex)))"
proof (intro conjI allI impI)
  note inv = reach_exec_inv [OF r]
  show "work ex' < work ex" if "thread_step ex ex'" for ex' by (rule step_work [OF inv t(1) that])
  assume st: "\<nexists>ex'. thread_step ex ex'"
  note S = stuck_idle [OF inv reach_awake_inv [OF r] t st]
  show e: "task_list ex q = []" for q using exec_invD(1) [OF inv, of q] S(1,2) by (auto split: if_splits)
  have "mset (map snd (accepted ex)) = mset (map snd (started ex))" using all_started [OF inv e] by (metis mset_map)
  then show "mset (map fst (handled ex)) = mset (map snd (accepted ex))" using exec_invD(4) [OF inv] S(3) by simp
qed

text \<open>after the executor is shut down, every session whose request was accepted has been handled exactly once: as finished when it
  was started, as cancelled otherwise; no queue holds a session any more.\<close>

theorem executor_deinit_handles_all:
  assumes r: "exec_reach ex" and n: "nthreads ex = 0"
  shows "mset (map fst (handled (executor_deinit ex))) = mset (map snd (accepted ex)) \<and>
    mset (map fst (filter (\<lambda>x. snd x = ES_STATE_FINISHED) (handled (executor_deinit ex)))) = mset (map snd (started ex)) \<and>
    (\<forall>q. task_list (executor_deinit ex) q = [])"
proof -
  note inv = reach_exec_inv [OF r]
  note D = deinit_state [OF inv n]
  let ?w = "waiting ex (task_queue ex)"
  have h: "handled (executor_deinit ex) = handled ex @ map (\<lambda>x. (snd x, ES_STATE_CANCELED)) ?w"
    "task_list (executor_deinit ex) = (\<lambda>q. if q \<in> set (task_queue ex) then [] else task_list ex q)"
    using cancel_fold [OF D(1), of ex] by (simp_all add: executor_deinit_def)
  have "mset (accepted ex) = mset (started ex @ ?w)"
    by (rule of_queue_mset) (use D(1,2) exec_invD(3) [OF inv] in \<open>auto simp: of_queue_append of_queue_waiting\<close>)
  then have "mset (map snd (accepted ex)) = mset (map snd (started ex @ ?w))" by (metis mset_map)
  moreover have "filter (\<lambda>x. snd x = ES_STATE_FINISHED) (handled ex) = handled ex" using exec_invD(5) [OF inv] by (simp add: filter_id_conv)
  moreover have "mset (map fst (handled ex)) = mset (map snd (started ex))" using exec_invD(4) [OF inv] D(3) by simp
  ultimately show ?thesis using D(2) by (auto simp: h comp_def)
qed

subsection \<open>A concrete run\<close>

text \<open>One thread, two requests on queue 7, the thread takes the task and starts the first session.\<close>

definition two_requests :: executor where
  "two_requests = snd (request (True, True) 21 7 (snd (request (True, True) 20 7 (the (executor_init 1 (\<lambda>_. True))))))"

definition one_running :: executor where
  "one_running = the (routine_start 0 7 (the (pool_take 0 two_requests)))"

definition shut_down :: executor where
  "shut_down = the (pool_exit 0 (pool_terminate (routine_finish 0 20 one_running)))"

lemma some_the: "\<not> Option.is_none x \<Longrightarrow> x = Some (the x)"
  by (cases x) simp_all

lemma two_requests_reach: "exec_reach two_requests"
proof -
  have "executor_init 1 (\<lambda>_. True) = Some (the (executor_init 1 (\<lambda>_. True)))" by (rule some_the) code_simp
  then show ?thesis unfolding two_requests_def by (intro exec_reach.request exec_reach.init)
qed

text \<open>The thread sleeps before the first request comes.\<close>

definition one_asleep :: executor where
  "one_asleep = snd (request (True, True) 20 7 (the (pool_wait 0 (the (executor_init 1 (\<lambda>_. True))))))"

lemma one_asleep_reach: "exec_reach one_asleep"
proof -
  let ?init = "the (executor_init 1 (\<lambda>_. True))"
  have "executor_init 1 (\<lambda>_. True) = Some ?init" by (rule some_the) code_simp
  then have i: "exec_reach ?init" by (rule exec_reach.init)
  have "pool_wait 0 ?init = Some (the (pool_wait 0 ?init))" by (rule some_the) code_simp
  then have "exec_reach (the (pool_wait 0 ?init))" using exec_reach.thread [OF i] thread_step.sleep by blast
  then show ?thesis unfolding one_asleep_def by (rule exec_reach.request)
qed

lemma one_running_reach: "exec_reach (the (pool_take 0 two_requests))" "exec_reach one_running" "exec_reach shut_down"
proof -
  have "pool_take 0 two_requests = Some (the (pool_take 0 two_requests))" by (rule some_the) code_simp
  then show t: "exec_reach (the (pool_take 0 two_requests))" using exec_reach.thread [OF two_requests_reach] thread_step.take by blast
  have "routine_start 0 7 (the (pool_take 0 two_requests)) = Some one_running" unfolding one_running_def by (rule some_the) code_simp
  moreover have "0 < length (threads (the (pool_take 0 two_requests)))"
    "threads (the (pool_take 0 two_requests)) ! 0 = Holding 7" by code_simp+
  ultimately show o: "exec_reach one_running" using exec_reach.thread [OF t] thread_step.start by blast
  have "0 < length (threads one_running)" "threads one_running ! 0 = Executing 20" by code_simp+
  then have f: "exec_reach (routine_finish 0 20 one_running)" using exec_reach.thread [OF o] thread_step.finish by blast
  have "pool_exit 0 (pool_terminate (routine_finish 0 20 one_running)) = Some shut_down" unfolding shut_down_def by (rule some_the) code_simp
  then show "exec_reach shut_down" using exec_reach.thread [OF exec_reach.terminate [OF f]] thread_step.leave by blast
qed

theorem executor_fifo_witness: "of_queue 7 (accepted one_running) = [20, 21] \<and> of_queue 7 (started one_running) @ task_list one_running 7 = [20, 21]"
proof -
  have "of_queue 7 (accepted one_running) = [20, 21]" by code_simp
  moreover have "\<forall>q. of_queue q (accepted one_running) = of_queue q (started one_running) @ task_list one_running q"
    using executor_fifo [OF one_running_reach(2)] by blast
  ultimately show ?thesis by metis
qed

theorem executor_drains_witness:
  "threads one_asleep = [Waiting] \<and> task_queue one_asleep = [7] \<and> work (the (pool_signal 0 one_asleep)) < work one_asleep"
proof (intro conjI)
  show "threads one_asleep = [Waiting]" "task_queue one_asleep = [7]" by code_simp+
  have "pool_signal 0 one_asleep = Some (the (pool_signal 0 one_asleep))" by (rule some_the) code_simp
  then have st: "thread_step one_asleep (the (pool_signal 0 one_asleep))" by (rule thread_step.signal)
  have "\<not> terminating one_asleep" "0 < nthreads one_asleep" by code_simp+
  then show "work (the (pool_signal 0 one_asleep)) < work one_asleep" using executor_drains [OF one_asleep_reach] st by blast
qed

theorem executor_deinit_handles_all_witness:
  "mset (map fst (handled (executor_deinit shut_down))) = {#20, 21#} \<and> task_list (executor_deinit shut_down) 7 = []"
proof -
  have n: "nthreads shut_down = 0" and a: "map snd (accepted shut_down) = [20, 21]" by code_simp+
  then show ?thesis using executor_deinit_handles_all [OF one_running_reach(3) n] by simp
qed

end
