(* ===== verification/RBTree.thy ===== *)
theory RBTree imports Prelude "HOL-Library.Monad_Syntax" begin

text \<open>
  The red-black trees of \<^verbatim>\<open>kernel/rbtree.c\<close> on a store of nodes. A node is a number, 0 is null; \<open>None\<close> is a null pointer dereference or a loop
  that does not end.
\<close>

subsection \<open>State and rotations\<close>

datatype rb_color = RB_RED | RB_BLACK

record rb_heap =
  rb_parent :: "nat \<Rightarrow> nat"
  rb_right :: "nat \<Rightarrow> nat"
  rb_left :: "nat \<Rightarrow> nat"
  rb_color :: "nat \<Rightarrow> rb_color"
  rb_node :: nat

definition set_parent :: "nat \<Rightarrow> nat \<Rightarrow> rb_heap \<Rightarrow> rb_heap" where
  "set_parent n p h = h\<lparr>rb_parent := (rb_parent h)(n := p)\<rparr>"

definition set_left :: "nat \<Rightarrow> nat \<Rightarrow> rb_heap \<Rightarrow> rb_heap" where
  "set_left n p h = h\<lparr>rb_left := (rb_left h)(n := p)\<rparr>"

definition set_right :: "nat \<Rightarrow> nat \<Rightarrow> rb_heap \<Rightarrow> rb_heap" where
  "set_right n p h = h\<lparr>rb_right := (rb_right h)(n := p)\<rparr>"

definition set_color :: "nat \<Rightarrow> rb_color \<Rightarrow> rb_heap \<Rightarrow> rb_heap" where
  "set_color n c h = h\<lparr>rb_color := (rb_color h)(n := c)\<rparr>"

text \<open>\<open>m\<close> takes the place of \<open>n\<close> under the parent \<open>p\<close>, or as the root.\<close>

definition replace_child :: "nat \<Rightarrow> nat \<Rightarrow> nat \<Rightarrow> rb_heap \<Rightarrow> rb_heap" where
  "replace_child p n m h =
     (if p \<noteq> 0 then (if n = rb_left h p then set_left p m h else set_right p m h) else h\<lparr>rb_node := m\<rparr>)"

definition rotate_left :: "nat \<Rightarrow> rb_heap \<Rightarrow> rb_heap option" where
  "rotate_left node h =
     (let right = rb_right h node in
      if node = 0 \<or> right = 0 then None
      else
        (let h = set_right node (rb_left h right) h;
             h = (if rb_right h node \<noteq> 0 then set_parent (rb_left h right) node h else h);
             h = set_left right node h;
             h = set_parent right (rb_parent h node) h;
             h = replace_child (rb_parent h node) node right h
         in Some (set_parent node right h)))"

definition rotate_right :: "nat \<Rightarrow> rb_heap \<Rightarrow> rb_heap option" where
  "rotate_right node h =
     (let left = rb_left h node in
      if node = 0 \<or> left = 0 then None
      else
        (let h = set_left node (rb_right h left) h;
             h = (if rb_left h node \<noteq> 0 then set_parent (rb_right h left) node h else h);
             h = set_right left node h;
             h = set_parent left (rb_parent h node) h;
             h = replace_child (rb_parent h node) node left h
         in Some (set_parent node left h)))"

subsection \<open>Insertion\<close>

text \<open>The address of a child pointer: what \<^verbatim>\<open>struct rb_node **link\<close> points to.\<close>

datatype place = Root | LeftOf nat | RightOf nat

fun get_link :: "place \<Rightarrow> rb_heap \<Rightarrow> nat" where
  "get_link Root h = rb_node h"
| "get_link (LeftOf n) h = rb_left h n"
| "get_link (RightOf n) h = rb_right h n"

fun set_link :: "place \<Rightarrow> nat \<Rightarrow> rb_heap \<Rightarrow> rb_heap" where
  "set_link Root m h = h\<lparr>rb_node := m\<rparr>"
| "set_link (LeftOf n) m h = set_left n m h"
| "set_link (RightOf n) m h = set_right n m h"

definition rb_link_node :: "nat \<Rightarrow> nat \<Rightarrow> place \<Rightarrow> rb_heap \<Rightarrow> rb_heap" where
  "rb_link_node node parent link h =
     set_link link node (set_left node 0 (set_right node 0 (set_color node RB_RED (set_parent node parent h))))"

definition is_red :: "rb_heap \<Rightarrow> nat \<Rightarrow> bool" where
  "is_red h n \<longleftrightarrow> n \<noteq> 0 \<and> rb_color h n = RB_RED"

text \<open>One round of the loop for a red parent on the left of its own parent, and the mirror image: the node to go on with.\<close>

definition insert_left :: "nat \<Rightarrow> nat \<Rightarrow> nat \<Rightarrow> rb_heap \<Rightarrow> (nat \<times> rb_heap) option" where
  "insert_left node parent gparent h =
     (let uncle = rb_right h gparent in
      if is_red h uncle
      then Some (gparent, set_color gparent RB_RED (set_color parent RB_BLACK (set_color uncle RB_BLACK h)))
      else do {
        (node, parent, h) \<leftarrow> (if rb_right h parent = node
           then do { h \<leftarrow> rotate_left parent h; Some (parent, node, h) } else Some (node, parent, h));
        h \<leftarrow> rotate_right gparent (set_color gparent RB_RED (set_color parent RB_BLACK h));
        Some (node, h) })"

definition insert_right :: "nat \<Rightarrow> nat \<Rightarrow> nat \<Rightarrow> rb_heap \<Rightarrow> (nat \<times> rb_heap) option" where
  "insert_right node parent gparent h =
     (let uncle = rb_left h gparent in
      if is_red h uncle
      then Some (gparent, set_color gparent RB_RED (set_color parent RB_BLACK (set_color uncle RB_BLACK h)))
      else do {
        (node, parent, h) \<leftarrow> (if rb_left h parent = node
           then do { h \<leftarrow> rotate_right parent h; Some (parent, node, h) } else Some (node, parent, h));
        h \<leftarrow> rotate_left gparent (set_color gparent RB_RED (set_color parent RB_BLACK h));
        Some (node, h) })"

partial_function (option) insert_loop :: "nat \<Rightarrow> rb_heap \<Rightarrow> rb_heap option" where
  "insert_loop node h =
     (let parent = rb_parent h node in
      if is_red h parent then
        (let gparent = rb_parent h parent in
         if gparent = 0 then None
         else do {
           (node, h) \<leftarrow> (if parent = rb_left h gparent then insert_left node parent gparent h else insert_right node parent gparent h);
           insert_loop node h })
      else Some h)"

definition rb_insert_color :: "nat \<Rightarrow> rb_heap \<Rightarrow> rb_heap option" where
  "rb_insert_color node h = do {
     h \<leftarrow> insert_loop node h;
     if rb_node h = 0 then None else Some (set_color (rb_node h) RB_BLACK h) }"

subsection \<open>Removal\<close>

definition black :: "rb_heap \<Rightarrow> nat \<Rightarrow> bool" where
  "black h n \<longleftrightarrow> n = 0 \<or> rb_color h n = RB_BLACK"

text \<open>One round of the loop of \<^verbatim>\<open>__rb_erase_color\<close> for a node on the left of its parent, and the mirror image: first a red sibling is rotated
  away, then the colours of the children of the (black) sibling decide. The result is the node and the parent to go on with; \<open>None\<close> for them is the
  end of the loop with the node set to the root.\<close>

definition red_sibling_left :: "nat \<Rightarrow> rb_heap \<Rightarrow> rb_heap option" where
  "red_sibling_left parent h =
     (let other = rb_right h parent in
      if other = 0 then None
      else if rb_color h other = RB_RED then rotate_left parent (set_color parent RB_RED (set_color other RB_BLACK h)) else Some h)"

definition red_sibling_right :: "nat \<Rightarrow> rb_heap \<Rightarrow> rb_heap option" where
  "red_sibling_right parent h =
     (let other = rb_left h parent in
      if other = 0 then None
      else if rb_color h other = RB_RED then rotate_right parent (set_color parent RB_RED (set_color other RB_BLACK h)) else Some h)"

definition erase_last_left :: "nat \<Rightarrow> nat \<Rightarrow> rb_heap \<Rightarrow> rb_heap option" where
  "erase_last_left parent other h =
     rotate_left parent (let h = set_color parent RB_BLACK (set_color other (rb_color h parent) h)
       in if rb_right h other \<noteq> 0 then set_color (rb_right h other) RB_BLACK h else h)"

definition erase_last_right :: "nat \<Rightarrow> nat \<Rightarrow> rb_heap \<Rightarrow> rb_heap option" where
  "erase_last_right parent other h =
     rotate_right parent (let h = set_color parent RB_BLACK (set_color other (rb_color h parent) h)
       in if rb_left h other \<noteq> 0 then set_color (rb_left h other) RB_BLACK h else h)"

definition erase_left :: "nat \<Rightarrow> rb_heap \<Rightarrow> ((nat \<times> nat) option \<times> rb_heap) option" where
  "erase_left parent h = do {
     h \<leftarrow> red_sibling_left parent h;
     let other = rb_right h parent;
     if other = 0 then None
     else if black h (rb_left h other) \<and> black h (rb_right h other)
     then (let h = set_color other RB_RED h in Some (Some (parent, rb_parent h parent), h))
     else do {
       h \<leftarrow> (if black h (rb_right h other)
         then rotate_right other (set_color other RB_RED (if rb_left h other \<noteq> 0 then set_color (rb_left h other) RB_BLACK h else h))
         else Some h);
       let other = rb_right h parent;
       if other = 0 then None else do {
       h \<leftarrow> erase_last_left parent other h;
       Some (None, h) } } }"

definition erase_right :: "nat \<Rightarrow> rb_heap \<Rightarrow> ((nat \<times> nat) option \<times> rb_heap) option" where
  "erase_right parent h = do {
     h \<leftarrow> red_sibling_right parent h;
     let other = rb_left h parent;
     if other = 0 then None
     else if black h (rb_left h other) \<and> black h (rb_right h other)
     then (let h = set_color other RB_RED h in Some (Some (parent, rb_parent h parent), h))
     else do {
       h \<leftarrow> (if black h (rb_left h other)
         then rotate_left other (set_color other RB_RED (if rb_right h other \<noteq> 0 then set_color (rb_right h other) RB_BLACK h else h))
         else Some h);
       let other = rb_left h parent;
       if other = 0 then None else do {
       h \<leftarrow> erase_last_right parent other h;
       Some (None, h) } } }"

partial_function (option) erase_loop :: "nat \<Rightarrow> nat \<Rightarrow> rb_heap \<Rightarrow> (nat \<times> rb_heap) option" where
  "erase_loop node parent h =
     (if black h node \<and> node \<noteq> rb_node h then
        (if parent = 0 then None
         else do {
           (next, h) \<leftarrow> (if rb_left h parent = node then erase_left parent h else erase_right parent h);
           (case next of Some (node, parent) \<Rightarrow> erase_loop node parent h | None \<Rightarrow> Some (rb_node h, h)) })
      else Some (node, h))"

definition erase_color :: "nat \<Rightarrow> nat \<Rightarrow> rb_heap \<Rightarrow> rb_heap option" where
  "erase_color node parent h = do {
     (node, h) \<leftarrow> erase_loop node parent h;
     Some (if node \<noteq> 0 then set_color node RB_BLACK h else h) }"

partial_function (option) leftmost :: "nat \<Rightarrow> rb_heap \<Rightarrow> nat option" where
  "leftmost n h = (if n = 0 then None else if rb_left h n \<noteq> 0 then leftmost (rb_left h n) h else Some n)"

partial_function (option) rightmost :: "nat \<Rightarrow> rb_heap \<Rightarrow> nat option" where
  "rightmost n h = (if n = 0 then None else if rb_right h n \<noteq> 0 then rightmost (rb_right h n) h else Some n)"

text \<open>Taking a node with at most one child out of the tree.\<close>

definition unlink :: "nat \<Rightarrow> nat \<Rightarrow> rb_heap \<Rightarrow> rb_heap" where
  "unlink node child h =
     (let parent = rb_parent h node;
          h = (if child \<noteq> 0 then set_parent child parent h else h)
      in replace_child parent node child h)"

text \<open>\<open>node\<close> takes over the links and the colour of \<open>old\<close>, which has a left child.\<close>

definition take_place :: "nat \<Rightarrow> nat \<Rightarrow> rb_heap \<Rightarrow> rb_heap" where
  "take_place node old h =
     (let h = set_parent node (rb_parent h old) h;
          h = set_color node (rb_color h old) h;
          h = set_right node (rb_right h old) h;
          h = set_left node (rb_left h old) h;
          h = replace_child (rb_parent h old) old node h;
          h = set_parent (rb_left h old) node h
      in if rb_right h old \<noteq> 0 then set_parent (rb_right h old) node h else h)"

definition rb_erase :: "nat \<Rightarrow> rb_heap \<Rightarrow> rb_heap option" where
  "rb_erase node h =
     (if node = 0 then None
      else if rb_left h node = 0 \<or> rb_right h node = 0 then
        (let child = (if rb_left h node = 0 then rb_right h node else rb_left h node);
             parent = rb_parent h node; color = rb_color h node;
             h = unlink node child h
         in if color = RB_BLACK then erase_color child parent h else Some h)
      else do {
        let old = node;
        node \<leftarrow> leftmost (rb_right h old) h;
        let child = rb_right h node;
        let color = rb_color h node;
        let parent = rb_parent h node;
        let h = unlink node child h;
        let parent = (if rb_parent h node = old then node else parent);
        let h = take_place node old h;
        if color = RB_BLACK then erase_color child parent h else Some h })"

subsection \<open>Traversal\<close>

definition rb_first :: "rb_heap \<Rightarrow> nat option" where
  "rb_first h = (if rb_node h = 0 then Some 0 else leftmost (rb_node h) h)"

definition rb_last :: "rb_heap \<Rightarrow> nat option" where
  "rb_last h = (if rb_node h = 0 then Some 0 else rightmost (rb_node h) h)"

partial_function (option) climb_right :: "nat \<Rightarrow> rb_heap \<Rightarrow> nat option" where
  "climb_right n h =
     (if rb_parent h n \<noteq> 0 \<and> n = rb_right h (rb_parent h n) then climb_right (rb_parent h n) h else Some (rb_parent h n))"

partial_function (option) climb_left :: "nat \<Rightarrow> rb_heap \<Rightarrow> nat option" where
  "climb_left n h =
     (if rb_parent h n \<noteq> 0 \<and> n = rb_left h (rb_parent h n) then climb_left (rb_parent h n) h else Some (rb_parent h n))"

definition rb_next :: "nat \<Rightarrow> rb_heap \<Rightarrow> nat option" where
  "rb_next n h = (if n = 0 then None else if rb_right h n \<noteq> 0 then leftmost (rb_right h n) h else climb_right n h)"

definition rb_prev :: "nat \<Rightarrow> rb_heap \<Rightarrow> nat option" where
  "rb_prev n h = (if n = 0 then None else if rb_left h n \<noteq> 0 then rightmost (rb_left h n) h else climb_left n h)"

subsection \<open>Trees and contexts\<close>

text \<open>The shape a store holds, and a tree with a hole: the path from a subtree up to the root.\<close>

datatype shape = Lf | Nd shape nat rb_color shape

datatype ctx = Top | CL nat rb_color shape ctx | CR shape nat rb_color ctx

fun rt :: "shape \<Rightarrow> nat" where
  "rt Lf = 0"
| "rt (Nd l a c r) = a"

fun ino :: "shape \<Rightarrow> nat list" where
  "ino Lf = []"
| "ino (Nd l a c r) = ino l @ a # ino r"

fun plug :: "ctx \<Rightarrow> shape \<Rightarrow> shape" where
  "plug Top t = t"
| "plug (CL a c r C) t = plug C (Nd t a c r)"
| "plug (CR l a c C) t = plug C (Nd l a c t)"

fun cpar :: "ctx \<Rightarrow> nat" where
  "cpar Top = 0"
| "cpar (CL a c r C) = a"
| "cpar (CR l a c C) = a"

fun pre :: "ctx \<Rightarrow> nat list" where
  "pre Top = []"
| "pre (CL a c r C) = pre C"
| "pre (CR l a c C) = pre C @ ino l @ [a]"

fun post :: "ctx \<Rightarrow> nat list" where
  "post Top = []"
| "post (CL a c r C) = a # ino r @ post C"
| "post (CR l a c C) = post C"

fun tree_at :: "rb_heap \<Rightarrow> nat \<Rightarrow> shape \<Rightarrow> bool" where
  "tree_at h p Lf = True"
| "tree_at h p (Nd l a c r) \<longleftrightarrow> a \<noteq> 0 \<and> rb_parent h a = p \<and> rb_color h a = c \<and> rb_left h a = rt l \<and> rb_right h a = rt r \<and>
     tree_at h a l \<and> tree_at h a r"

fun ctx_at :: "rb_heap \<Rightarrow> ctx \<Rightarrow> nat \<Rightarrow> bool" where
  "ctx_at h Top q \<longleftrightarrow> rb_node h = q"
| "ctx_at h (CL a c r C) q \<longleftrightarrow> a \<noteq> 0 \<and> rb_parent h a = cpar C \<and> rb_color h a = c \<and> rb_left h a = q \<and> rb_right h a = rt r \<and>
     tree_at h a r \<and> ctx_at h C a"
| "ctx_at h (CR l a c C) q \<longleftrightarrow> a \<noteq> 0 \<and> rb_parent h a = cpar C \<and> rb_color h a = c \<and> rb_left h a = rt l \<and> rb_right h a = q \<and>
     tree_at h a l \<and> ctx_at h C a"

text \<open>The store holds exactly the shape \<open>t\<close>.\<close>

definition is_tree :: "rb_heap \<Rightarrow> shape \<Rightarrow> bool" where
  "is_tree h t \<longleftrightarrow> rb_node h = rt t \<and> tree_at h 0 t \<and> distinct (ino t)"

lemma ino_plug [simp]: "ino (plug C t) = pre C @ ino t @ post C"
  by (induction C arbitrary: t) auto

lemma plug_Lf [simp]: "plug C t = Lf \<longleftrightarrow> C = Top \<and> t = Lf"
  by (induction C arbitrary: t) auto

lemma is_tree_plug: "is_tree h (plug C t) \<longleftrightarrow> ctx_at h C (rt t) \<and> tree_at h (cpar C) t \<and> distinct (pre C @ ino t @ post C)"
proof -
  have "rb_node h = rt (plug C t) \<and> tree_at h 0 (plug C t) \<longleftrightarrow> ctx_at h C (rt t) \<and> tree_at h (cpar C) t"
    by (induction C arbitrary: t) auto
  then show ?thesis by (auto simp: is_tree_def)
qed

lemma tree_at_nonzero: "tree_at h p t \<Longrightarrow> 0 \<notin> set (ino t)"
  by (induction t arbitrary: p) auto

lemma rt_zero: "tree_at h p t \<Longrightarrow> rt t = 0 \<longleftrightarrow> t = Lf"
  by (cases t) auto

lemma rt_in_ino: "t \<noteq> Lf \<Longrightarrow> rt t \<in> set (ino t)"
  by (cases t) auto

subsubsection \<open>What a write changes\<close>

lemma set_sel [simp]:
  "rb_parent (set_parent n p h) = (rb_parent h)(n := p)" "rb_left (set_parent n p h) = rb_left h" "rb_right (set_parent n p h) = rb_right h"
  "rb_color (set_parent n p h) = rb_color h" "rb_node (set_parent n p h) = rb_node h"
  "rb_parent (set_left n p h) = rb_parent h" "rb_left (set_left n p h) = (rb_left h)(n := p)" "rb_right (set_left n p h) = rb_right h"
  "rb_color (set_left n p h) = rb_color h" "rb_node (set_left n p h) = rb_node h"
  "rb_parent (set_right n p h) = rb_parent h" "rb_left (set_right n p h) = rb_left h" "rb_right (set_right n p h) = (rb_right h)(n := p)"
  "rb_color (set_right n p h) = rb_color h" "rb_node (set_right n p h) = rb_node h"
  "rb_parent (set_color n c h) = rb_parent h" "rb_left (set_color n c h) = rb_left h" "rb_right (set_color n c h) = rb_right h"
  "rb_color (set_color n c h) = (rb_color h)(n := c)" "rb_node (set_color n c h) = rb_node h"
  by (simp_all add: set_parent_def set_left_def set_right_def set_color_def)

lemma replace_child_sel [simp]:
  "rb_parent (replace_child p n m h) = rb_parent h" "rb_color (replace_child p n m h) = rb_color h"
  "a \<noteq> p \<Longrightarrow> rb_left (replace_child p n m h) a = rb_left h a" "a \<noteq> p \<Longrightarrow> rb_right (replace_child p n m h) a = rb_right h a"
  by (auto simp: replace_child_def)

text \<open>Two stores that agree on the nodes of a tree hold it both.\<close>

definition agree :: "nat set \<Rightarrow> rb_heap \<Rightarrow> rb_heap \<Rightarrow> bool" where
  "agree S h h' \<longleftrightarrow> (\<forall>a\<in>S. rb_parent h a = rb_parent h' a \<and> rb_color h a = rb_color h' a \<and> rb_left h a = rb_left h' a \<and> rb_right h a = rb_right h' a)"

lemma agree_set [simp]:
  "n \<notin> S \<Longrightarrow> agree S (set_parent n p h) h" "n \<notin> S \<Longrightarrow> agree S (set_left n p h) h"
  "n \<notin> S \<Longrightarrow> agree S (set_right n p h) h" "n \<notin> S \<Longrightarrow> agree S (set_color n c h) h"
  "p \<notin> S \<Longrightarrow> agree S (replace_child p n m h) h" "agree S (h\<lparr>rb_node := m\<rparr>) h"
  by (auto simp: agree_def replace_child_def)

lemma agree_subset: "agree S h h' \<Longrightarrow> T \<subseteq> S \<Longrightarrow> agree T h h'"
  by (auto simp: agree_def)

lemma tree_at_agree: "agree (set (ino t)) h h' \<Longrightarrow> tree_at h p t = tree_at h' p t"
proof (induction t arbitrary: p)
  case (Nd l a c r)
  then have "agree (set (ino l)) h h'" "agree (set (ino r)) h h'" by (auto elim: agree_subset)
  with Nd show ?case by (auto simp: agree_def)
qed simp

lemma tree_at_frame [simp]:
  "n \<notin> set (ino t) \<Longrightarrow> tree_at (set_parent n p h) q t = tree_at h q t"
  "n \<notin> set (ino t) \<Longrightarrow> tree_at (set_left n p h) q t = tree_at h q t"
  "n \<notin> set (ino t) \<Longrightarrow> tree_at (set_right n p h) q t = tree_at h q t"
  "n \<notin> set (ino t) \<Longrightarrow> tree_at (set_color n c h) q t = tree_at h q t"
  "p \<notin> set (ino t) \<Longrightarrow> tree_at (replace_child p n m h) q t = tree_at h q t"
  "tree_at (h\<lparr>rb_node := m\<rparr>) q t = tree_at h q t"
  by (simp_all add: tree_at_agree [OF agree_set(1)] tree_at_agree [OF agree_set(2)] tree_at_agree [OF agree_set(3)]
      tree_at_agree [OF agree_set(4)] tree_at_agree [OF agree_set(5)] tree_at_agree [OF agree_set(6)])

lemma ctx_at_agree: "agree (set (pre C) \<union> set (post C)) h h' \<Longrightarrow> rb_node h = rb_node h' \<Longrightarrow> ctx_at h C q = ctx_at h' C q"
proof (induction C arbitrary: q)
  case (CL a c r C)
  then have "agree (set (ino r)) h h'" "agree (set (pre C) \<union> set (post C)) h h'" by (auto elim: agree_subset)
  with CL show ?case by (auto simp: agree_def tree_at_agree [of r h h'])
next
  case (CR l a c C)
  then have "agree (set (ino l)) h h'" "agree (set (pre C) \<union> set (post C)) h h'" by (auto elim: agree_subset)
  with CR show ?case by (auto simp: agree_def tree_at_agree [of l h h'])
qed simp

lemma ctx_at_frame [simp]:
  "n \<notin> set (pre C) \<Longrightarrow> n \<notin> set (post C) \<Longrightarrow> ctx_at (set_parent n p h) C q = ctx_at h C q"
  "n \<notin> set (pre C) \<Longrightarrow> n \<notin> set (post C) \<Longrightarrow> ctx_at (set_left n p h) C q = ctx_at h C q"
  "n \<notin> set (pre C) \<Longrightarrow> n \<notin> set (post C) \<Longrightarrow> ctx_at (set_right n p h) C q = ctx_at h C q"
  "n \<notin> set (pre C) \<Longrightarrow> n \<notin> set (post C) \<Longrightarrow> ctx_at (set_color n c h) C q = ctx_at h C q"
  by (simp_all add: ctx_at_agree [OF agree_set(1)] ctx_at_agree [OF agree_set(2)] ctx_at_agree [OF agree_set(3)] ctx_at_agree [OF agree_set(4)])

lemma cpar_in: "C \<noteq> Top \<Longrightarrow> cpar C \<in> set (pre C) \<union> set (post C)"
  by (cases C) auto

lemma cpar_zero: "ctx_at h C q \<Longrightarrow> cpar C = 0 \<longleftrightarrow> C = Top"
  by (cases C) auto

lemma ctx_at_nonzero: "ctx_at h C q \<Longrightarrow> 0 \<notin> set (pre C) \<and> 0 \<notin> set (post C)"
  by (induction C arbitrary: q) (auto dest: tree_at_nonzero)

lemma replace_child_ctx:
  assumes "ctx_at h C q" "q \<noteq> 0" "q \<notin> set (pre C)" "q \<notin> set (post C)" "distinct (pre C @ post C)"
  shows "ctx_at (replace_child (cpar C) q m h) C m"
proof (cases C)
  case Top then show ?thesis by (simp add: replace_child_def)
next
  case (CL a c r D)
  then have "ctx_at (set_left a m h) D a" "tree_at (set_left a m h) a r"
    using assms by auto
  then show ?thesis using assms CL by (auto simp: replace_child_def)
next
  case (CR l a c D)
  then have "ctx_at (set_right a m h) D a" "tree_at (set_right a m h) a l"
    using assms by auto
  moreover have "q \<noteq> rt l" using assms CR by (cases l) auto
  ultimately show ?thesis using assms CR by (auto simp: replace_child_def)
qed

lemma cpar_notin:
  "is_tree h (plug C t) \<Longrightarrow> cpar C \<notin> set (ino t)"
  using cpar_in [of C] by (cases "C = Top") (auto simp: is_tree_plug is_tree_def dest: tree_at_nonzero)

subsubsection \<open>Recolouring and rotating in place\<close>

lemma recolor: "is_tree h (plug C (Nd l a c r)) \<Longrightarrow> is_tree (set_color a d h) (plug C (Nd l a d r))"
  by (auto simp: is_tree_plug)

lemma rotate_left_tree:
  assumes "is_tree h (plug C (Nd l a c (Nd m b d r)))"
  shows "\<exists>h'. rotate_left a h = Some h' \<and> is_tree h' (plug C (Nd (Nd l a c m) b d r))"
proof -
  have cp: "cpar C \<notin> set (ino (Nd l a c (Nd m b d r)))" using assms by (rule cpar_notin)
  have d: "distinct (pre C @ post C)" using assms by (auto simp: is_tree_plug)
  show ?thesis using assms cp d
    by (cases m) (auto simp: is_tree_plug rotate_left_def Let_def replace_child_ctx)
qed

lemma rotate_right_tree:
  assumes "is_tree h (plug C (Nd (Nd l a c m) b d r))"
  shows "\<exists>h'. rotate_right b h = Some h' \<and> is_tree h' (plug C (Nd l a c (Nd m b d r)))"
proof -
  have cp: "cpar C \<notin> set (ino (Nd (Nd l a c m) b d r))" using assms by (rule cpar_notin)
  have d: "distinct (pre C @ post C)" using assms by (auto simp: is_tree_plug)
  show ?thesis using assms cp d
    by (cases m) (auto simp: is_tree_plug rotate_right_def Let_def replace_child_ctx)
qed

subsection \<open>Balance\<close>

fun col :: "shape \<Rightarrow> rb_color" where
  "col Lf = RB_BLACK"
| "col (Nd l a c r) = c"

fun bh :: "shape \<Rightarrow> nat" where
  "bh Lf = 0"
| "bh (Nd l a c r) = bh l + (if c = RB_BLACK then 1 else 0)"

text \<open>No red node has a red child, and every way down has the same number of black nodes.\<close>

fun rb_inv :: "shape \<Rightarrow> bool" where
  "rb_inv Lf = True"
| "rb_inv (Nd l a c r) \<longleftrightarrow> (c = RB_RED \<longrightarrow> col l = RB_BLACK \<and> col r = RB_BLACK) \<and> bh l = bh r \<and> rb_inv l \<and> rb_inv r"

definition rb_ok :: "shape \<Rightarrow> bool" where
  "rb_ok t \<longleftrightarrow> rb_inv t \<and> col t = RB_BLACK"

text \<open>The context of a hole where a tree of black height \<open>n\<close> fits.\<close>

fun black_ctx :: "ctx \<Rightarrow> bool" where
  "black_ctx Top = False"
| "black_ctx (CL a c r C) \<longleftrightarrow> c = RB_BLACK"
| "black_ctx (CR l a c C) \<longleftrightarrow> c = RB_BLACK"

fun ctx_ok :: "ctx \<Rightarrow> nat \<Rightarrow> bool" where
  "ctx_ok Top n = True"
| "ctx_ok (CL a c r C) n \<longleftrightarrow> rb_inv r \<and> bh r = n \<and> (c = RB_RED \<longrightarrow> col r = RB_BLACK \<and> black_ctx C) \<and> ctx_ok C (n + (if c = RB_BLACK then 1 else 0))"
| "ctx_ok (CR l a c C) n \<longleftrightarrow> rb_inv l \<and> bh l = n \<and> (c = RB_RED \<longrightarrow> col l = RB_BLACK \<and> black_ctx C) \<and> ctx_ok C (n + (if c = RB_BLACK then 1 else 0))"

lemma not_black_iff [simp]: "c \<noteq> RB_BLACK \<longleftrightarrow> c = RB_RED" "c \<noteq> RB_RED \<longleftrightarrow> c = RB_BLACK"
  by (cases c; simp)+

lemma rb_ok_plugI:
  "ctx_ok C (bh t) \<Longrightarrow> rb_inv t \<Longrightarrow> col t = RB_BLACK \<or> black_ctx C \<Longrightarrow> rb_ok (plug C t)"
proof (induction C arbitrary: t)
  case Top then show ?case by (simp add: rb_ok_def)
next
  case (CL a c r C) then show ?case by (cases c) auto
next
  case (CR l a c C) then show ?case by (cases c) auto
qed

lemma rb_ok_plugD:
  "rb_ok (plug C t) \<Longrightarrow> ctx_ok C (bh t) \<and> rb_inv t \<and> (col t = RB_BLACK \<or> black_ctx C)"
proof (induction C arbitrary: t)
  case Top then show ?case by (simp add: rb_ok_def)
next
  case (CL a c r C)
  then have "ctx_ok C (bh (Nd t a c r)) \<and> rb_inv (Nd t a c r) \<and> (c = RB_BLACK \<or> black_ctx C)" by fastforce
  then show ?case by (cases c) auto
next
  case (CR l a c C)
  then have "ctx_ok C (bh (Nd l a c t)) \<and> rb_inv (Nd l a c t) \<and> (c = RB_BLACK \<or> black_ctx C)" by fastforce
  then show ?case by (cases c) auto
qed

lemma col_at: "tree_at h p t \<Longrightarrow> is_red h (rt t) \<longleftrightarrow> col t = RB_RED" "tree_at h p t \<Longrightarrow> black h (rt t) \<longleftrightarrow> col t = RB_BLACK"
  by (cases t; auto simp: is_red_def black_def)+

text \<open>A subtree with a root of another colour.\<close>

lemma red_tree: "col t = RB_RED \<Longrightarrow> \<exists>l a r. t = Nd l a RB_RED r"
  by (cases t) auto

text \<open>Blackening the root of a tree whose root is black, or in a top context.\<close>

lemma blacken_root:
  assumes "is_tree h t" "col t = RB_BLACK"
  shows "is_tree (set_color (rb_node h) RB_BLACK h) t \<or> t = Lf"
proof (cases t)
  case (Nd l a c r)
  then show ?thesis using recolor [of h Top l a c r RB_BLACK] assms by (simp add: is_tree_def)
qed simp

subsection \<open>Insertion keeps the tree\<close>

lemma parent_at: "is_tree h (plug C (Nd l a c r)) \<Longrightarrow> rb_parent h a = cpar C"
  by (simp add: is_tree_plug)

lemma insert_loop_stop: "\<not> is_red h (rb_parent h x) \<Longrightarrow> insert_loop x h = Some h"
  by (simp add: insert_loop.simps [of x h])

text \<open>The end of the work: the loop has reached a store whose shape is balanced but for a red root.\<close>

definition inserts :: "nat \<Rightarrow> rb_heap \<Rightarrow> shape \<Rightarrow> bool" where
  "inserts x h t \<longleftrightarrow> (\<exists>h' t'. rb_insert_color x h = Some h' \<and> is_tree h' t' \<and> rb_ok t' \<and> ino t' = ino t)"

lemma insertsI_top:
  assumes "is_tree h (Nd l x RB_RED r)" "rb_inv (Nd l x RB_RED r)"
  shows "inserts x h (Nd l x RB_RED r)"
proof -
  have "insert_loop x h = Some h" using assms by (intro insert_loop_stop) (auto simp: is_tree_def is_red_def)
  moreover have "rb_node h = x" "x \<noteq> 0" using assms by (auto simp: is_tree_def)
  moreover have "is_tree (set_color x RB_BLACK h) (Nd l x RB_BLACK r)" using recolor [of h Top l x RB_RED r] assms by simp
  moreover have "rb_ok (Nd l x RB_BLACK r)" using assms by (simp add: rb_ok_def)
  ultimately show ?thesis unfolding inserts_def rb_insert_color_def by (intro exI [of _ "set_color x RB_BLACK h"] exI [of _ "Nd l x RB_BLACK r"]) simp
qed

lemma insertsI_black:
  assumes "is_tree h (plug C (Nd l x c r))" "black_ctx C" "rb_ok (plug C (Nd l x c r))"
  shows "inserts x h (plug C (Nd l x c r))"
proof -
  have "\<not> is_red h (rb_parent h x)" using assms by (cases C) (auto simp: is_tree_plug is_red_def)
  then have 1: "insert_loop x h = Some h" by (rule insert_loop_stop)
  have nz: "plug C (Nd l x c r) \<noteq> Lf" by simp
  then have 2: "is_tree (set_color (rb_node h) RB_BLACK h) (plug C (Nd l x c r))"
    using blacken_root [of h "plug C (Nd l x c r)"] assms by (auto simp: rb_ok_def)
  have "rb_node h \<noteq> 0" using assms(1) nz rt_zero [of h 0] unfolding is_tree_def by auto
  with 1 2 show ?thesis using assms unfolding inserts_def rb_insert_color_def by auto
qed

lemma inserts_step:
  assumes "is_red h (rb_parent h x)" "rb_parent h (rb_parent h x) \<noteq> 0"
    "(if rb_parent h x = rb_left h (rb_parent h (rb_parent h x)) then insert_left x (rb_parent h x) (rb_parent h (rb_parent h x)) h
      else insert_right x (rb_parent h x) (rb_parent h (rb_parent h x)) h) = Some (y, h')"
    "inserts y h' t'" "ino t' = ino t"
  shows "inserts x h t"
proof -
  have "insert_loop x h = insert_loop y h'"
    using assms(1-3) by (subst insert_loop.simps) (simp add: Let_def)
  then show ?thesis using assms(4,5) by (simp add: inserts_def rb_insert_color_def)
qed

text \<open>A red uncle: the colours move up.\<close>

lemma recolor_three:
  assumes "is_tree h (plug C (Nd (Nd a p c b) g d (Nd a' q c' b')))"
  shows "is_tree (set_color g z (set_color p y (set_color q x h))) (plug C (Nd (Nd a p y b) g z (Nd a' q x b')))"
    and "is_tree (set_color g z (set_color q y (set_color p x h))) (plug C (Nd (Nd a p x b) g z (Nd a' q y b')))"
  using assms by (auto simp: is_tree_plug)

lemma insert_left_uncle:
  assumes "is_tree h (plug C (Nd (Nd a p RB_RED b) g RB_BLACK (Nd a' q RB_RED b')))"
  shows "\<exists>h'. insert_left x p g h = Some (g, h') \<and> is_tree h' (plug C (Nd (Nd a p RB_BLACK b) g RB_RED (Nd a' q RB_BLACK b')))"
  using assms recolor_three(1) [OF assms] by (auto simp: insert_left_def is_tree_plug is_red_def Let_def)

lemma insert_right_uncle:
  assumes "is_tree h (plug C (Nd (Nd a q RB_RED b) g RB_BLACK (Nd a' p RB_RED b')))"
  shows "\<exists>h'. insert_right x p g h = Some (g, h') \<and> is_tree h' (plug C (Nd (Nd a q RB_BLACK b) g RB_RED (Nd a' p RB_BLACK b')))"
  using assms recolor_three(2) [OF assms] by (auto simp: insert_right_def is_tree_plug is_red_def Let_def)

text \<open>A black uncle: one rotation, or two when the node is between its parent and grandparent.\<close>

lemma insert_left_outer:
  assumes t: "is_tree h (plug C (Nd (Nd (Nd l x c r) p RB_RED b) g RB_BLACK u))" and u: "col u = RB_BLACK"
  shows "\<exists>h'. insert_left x p g h = Some (x, h') \<and> is_tree h' (plug C (Nd (Nd l x c r) p RB_BLACK (Nd b g RB_RED u)))"
proof -
  have "\<not> is_red h (rb_right h g)" using t u col_at(1) [of h g u] by (simp add: is_tree_plug)
  moreover have "rb_right h p \<noteq> x" using t by (cases b) (auto simp: is_tree_plug)
  moreover have "is_tree (set_color g RB_RED (set_color p RB_BLACK h)) (plug C (Nd (Nd (Nd l x c r) p RB_BLACK b) g RB_RED u))"
    using t by (auto simp: is_tree_plug)
  ultimately show ?thesis using rotate_right_tree by (fastforce simp: insert_left_def Let_def)
qed

lemma insert_right_outer:
  assumes t: "is_tree h (plug C (Nd u g RB_BLACK (Nd b p RB_RED (Nd l x c r))))" and u: "col u = RB_BLACK"
  shows "\<exists>h'. insert_right x p g h = Some (x, h') \<and> is_tree h' (plug C (Nd (Nd u g RB_RED b) p RB_BLACK (Nd l x c r)))"
proof -
  have "\<not> is_red h (rb_left h g)" using t u col_at(1) [of h g u] by (simp add: is_tree_plug)
  moreover have "rb_left h p \<noteq> x" using t by (cases b) (auto simp: is_tree_plug)
  moreover have "is_tree (set_color g RB_RED (set_color p RB_BLACK h)) (plug C (Nd u g RB_RED (Nd b p RB_BLACK (Nd l x c r))))"
    using t by (auto simp: is_tree_plug)
  ultimately show ?thesis using rotate_left_tree by (fastforce simp: insert_right_def Let_def)
qed

lemma insert_left_inner:
  assumes t: "is_tree h (plug C (Nd (Nd a p RB_RED (Nd l x RB_RED r)) g RB_BLACK u))" and u: "col u = RB_BLACK"
  shows "\<exists>h'. insert_left x p g h = Some (p, h') \<and> is_tree h' (plug C (Nd (Nd a p RB_RED l) x RB_BLACK (Nd r g RB_RED u)))"
proof -
  have red: "\<not> is_red h (rb_right h g)" using t u col_at(1) [of h g u] by (simp add: is_tree_plug)
  have x: "rb_right h p = x" using t by (simp add: is_tree_plug)
  obtain h1 where h1: "rotate_left p h = Some h1" "is_tree h1 (plug (CL g RB_BLACK u C) (Nd (Nd a p RB_RED l) x RB_RED r))"
    using rotate_left_tree [of h "CL g RB_BLACK u C" a p RB_RED l x RB_RED r] t by auto
  then have "is_tree (set_color g RB_RED (set_color x RB_BLACK h1)) (plug C (Nd (Nd (Nd a p RB_RED l) x RB_BLACK r) g RB_RED u))"
    by (auto simp: is_tree_plug)
  then show ?thesis using rotate_right_tree red x h1(1) by (fastforce simp: insert_left_def Let_def)
qed

lemma insert_right_inner:
  assumes t: "is_tree h (plug C (Nd u g RB_BLACK (Nd (Nd l x RB_RED r) p RB_RED b)))" and u: "col u = RB_BLACK"
  shows "\<exists>h'. insert_right x p g h = Some (p, h') \<and> is_tree h' (plug C (Nd (Nd u g RB_RED l) x RB_BLACK (Nd r p RB_RED b)))"
proof -
  have red: "\<not> is_red h (rb_left h g)" using t u col_at(1) [of h g u] by (simp add: is_tree_plug)
  have x: "rb_left h p = x" using t by (simp add: is_tree_plug)
  obtain h1 where h1: "rotate_right p h = Some h1" "is_tree h1 (plug (CR u g RB_BLACK C) (Nd l x RB_RED (Nd r p RB_RED b)))"
    using rotate_right_tree [of h "CR u g RB_BLACK C" l x RB_RED r p RB_RED b] t by auto
  then have "is_tree (set_color g RB_RED (set_color x RB_BLACK h1)) (plug C (Nd u g RB_RED (Nd l x RB_BLACK (Nd r p RB_RED b))))"
    by (auto simp: is_tree_plug)
  then show ?thesis using rotate_left_tree red x h1(1) by (fastforce simp: insert_right_def Let_def)
qed

lemma gparent_left:
  assumes "is_tree h (plug (CL g d u C) (Nd a p RB_RED b))" "rb_parent h x = p"
  shows "is_red h (rb_parent h x)" "rb_parent h (rb_parent h x) = g" "g \<noteq> 0" "rb_left h g = p"
  using assms by (auto simp: is_tree_plug is_red_def)

lemma gparent_right:
  assumes "is_tree h (plug (CR u g d C) (Nd a p RB_RED b))" "rb_parent h x = p"
  shows "is_red h (rb_parent h x)" "rb_parent h (rb_parent h x) = g" "g \<noteq> 0" "rb_left h g \<noteq> p"
  using assms by (cases u; auto simp: is_tree_plug is_red_def)+

lemma inserts_left:
  assumes t: "is_tree h (plug (CL g RB_BLACK u C) (Nd a p RB_RED b))" "rb_parent h x = p"
    and s: "\<exists>h'. insert_left x p g h = Some (y, h') \<and> is_tree h' t'" and k: "\<And>h'. is_tree h' t' \<Longrightarrow> inserts y h' t'" and i: "ino t' = ino t"
  shows "inserts x h t"
  using s k i gparent_left [OF t] t(2) by (auto intro!: inserts_step [of h x y _ t' t])

lemma inserts_right:
  assumes t: "is_tree h (plug (CR u g RB_BLACK C) (Nd a p RB_RED b))" "rb_parent h x = p"
    and s: "\<exists>h'. insert_right x p g h = Some (y, h') \<and> is_tree h' t'" and k: "\<And>h'. is_tree h' t' \<Longrightarrow> inserts y h' t'" and i: "ino t' = ino t"
  shows "inserts x h t"
  using s k i gparent_right [OF t] t(2) by (auto intro!: inserts_step [of h x y _ t' t])

text \<open>Both sides at once: \<open>t\<close> is the red node with its red parent \<open>p\<close>, under the grandparent \<open>g\<close>.\<close>

lemma inserts_red_uncle_left:
  assumes t: "is_tree h (plug (CL g RB_BLACK u C) (Nd a p RB_RED b))" "rb_parent h x = p" and u: "col u = RB_RED"
    and ok: "rb_inv a" "rb_inv b" "rb_inv u" "bh a = bh b" "bh u = bh a" "ctx_ok C (Suc (bh a))"
    and IH: "\<And>l x r h. is_tree h (plug C (Nd l x RB_RED r)) \<Longrightarrow> rb_inv (Nd l x RB_RED r) \<Longrightarrow> ctx_ok C (bh l) \<Longrightarrow> inserts x h (plug C (Nd l x RB_RED r))"
  shows "inserts x h (plug (CL g RB_BLACK u C) (Nd a p RB_RED b))"
proof -
  obtain a' q b' where q: "u = Nd a' q RB_RED b'" using red_tree [OF u] by blast
  show ?thesis
    by (rule inserts_left [OF t insert_left_uncle [of h C a p b g a' q b' x]]) (use t ok q in \<open>auto intro!: IH\<close>)
qed

lemma inserts_red_uncle_right:
  assumes t: "is_tree h (plug (CR u g RB_BLACK C) (Nd a p RB_RED b))" "rb_parent h x = p" and u: "col u = RB_RED"
    and ok: "rb_inv a" "rb_inv b" "rb_inv u" "bh a = bh b" "bh u = bh a" "ctx_ok C (Suc (bh a))"
    and IH: "\<And>l x r h. is_tree h (plug C (Nd l x RB_RED r)) \<Longrightarrow> rb_inv (Nd l x RB_RED r) \<Longrightarrow> ctx_ok C (bh l) \<Longrightarrow> inserts x h (plug C (Nd l x RB_RED r))"
  shows "inserts x h (plug (CR u g RB_BLACK C) (Nd a p RB_RED b))"
proof -
  obtain a' q b' where q: "u = Nd a' q RB_RED b'" using red_tree [OF u] by blast
  show ?thesis
    by (rule inserts_right [OF t insert_right_uncle [of h C a' q b' g a p b x]]) (use t ok q in \<open>auto intro!: IH\<close>)
qed

lemma inserts_black_uncle:
  assumes inv: "rb_inv (Nd l x RB_RED r)" "rb_inv s" "rb_inv u" "bh s = bh l" "bh u = bh l" "col s = RB_BLACK" "col u = RB_BLACK" "ctx_ok C (Suc (bh l))"
  shows "is_tree h (plug (CL p RB_RED s (CL g RB_BLACK u C)) (Nd l x RB_RED r)) \<Longrightarrow>
      inserts x h (plug (CL p RB_RED s (CL g RB_BLACK u C)) (Nd l x RB_RED r))"
    and "is_tree h (plug (CR s p RB_RED (CL g RB_BLACK u C)) (Nd l x RB_RED r)) \<Longrightarrow>
      inserts x h (plug (CR s p RB_RED (CL g RB_BLACK u C)) (Nd l x RB_RED r))"
    and "is_tree h (plug (CL p RB_RED s (CR u g RB_BLACK C)) (Nd l x RB_RED r)) \<Longrightarrow>
      inserts x h (plug (CL p RB_RED s (CR u g RB_BLACK C)) (Nd l x RB_RED r))"
    and "is_tree h (plug (CR s p RB_RED (CR u g RB_BLACK C)) (Nd l x RB_RED r)) \<Longrightarrow>
      inserts x h (plug (CR s p RB_RED (CR u g RB_BLACK C)) (Nd l x RB_RED r))"
proof -
  assume t: "is_tree h (plug (CL p RB_RED s (CL g RB_BLACK u C)) (Nd l x RB_RED r))"
  have k: "inserts x h' (plug (CL p RB_BLACK (Nd s g RB_RED u) C) (Nd l x RB_RED r))"
    if "is_tree h' (plug (CL p RB_BLACK (Nd s g RB_RED u) C) (Nd l x RB_RED r))" for h'
    using inv that by (intro insertsI_black rb_ok_plugI) auto
  show "inserts x h (plug (CL p RB_RED s (CL g RB_BLACK u C)) (Nd l x RB_RED r))"
    using t parent_at [OF t] inv k insert_left_outer [of h C l x RB_RED r p s g u]
    by (intro inserts_left [of h g u C "Nd l x RB_RED r" p s x x]) auto
next
  assume t: "is_tree h (plug (CR s p RB_RED (CL g RB_BLACK u C)) (Nd l x RB_RED r))"
  have k: "inserts p h' (plug (CL x RB_BLACK (Nd r g RB_RED u) C) (Nd s p RB_RED l))"
    if "is_tree h' (plug (CL x RB_BLACK (Nd r g RB_RED u) C) (Nd s p RB_RED l))" for h'
    using inv that by (intro insertsI_black rb_ok_plugI) auto
  show "inserts x h (plug (CR s p RB_RED (CL g RB_BLACK u C)) (Nd l x RB_RED r))"
    using t parent_at [OF t] inv k insert_left_inner [of h C s p l x r g u]
    by (intro inserts_left [of h g u C s p "Nd l x RB_RED r" x p]) auto
next
  assume t: "is_tree h (plug (CL p RB_RED s (CR u g RB_BLACK C)) (Nd l x RB_RED r))"
  have k: "inserts p h' (plug (CR (Nd u g RB_RED l) x RB_BLACK C) (Nd r p RB_RED s))"
    if "is_tree h' (plug (CR (Nd u g RB_RED l) x RB_BLACK C) (Nd r p RB_RED s))" for h'
    using inv that by (intro insertsI_black rb_ok_plugI) auto
  show "inserts x h (plug (CL p RB_RED s (CR u g RB_BLACK C)) (Nd l x RB_RED r))"
    using t parent_at [OF t] inv k insert_right_inner [of h C u g l x r p s]
    by (intro inserts_right [of h u g C "Nd l x RB_RED r" p s x p]) auto
next
  assume t: "is_tree h (plug (CR s p RB_RED (CR u g RB_BLACK C)) (Nd l x RB_RED r))"
  have k: "inserts x h' (plug (CR (Nd u g RB_RED s) p RB_BLACK C) (Nd l x RB_RED r))"
    if "is_tree h' (plug (CR (Nd u g RB_RED s) p RB_BLACK C) (Nd l x RB_RED r))" for h'
    using inv that by (intro insertsI_black rb_ok_plugI) auto
  show "inserts x h (plug (CR s p RB_RED (CR u g RB_BLACK C)) (Nd l x RB_RED r))"
    using t parent_at [OF t] inv k insert_right_outer [of h C u g s p l x RB_RED r]
    by (intro inserts_right [of h u g C s p "Nd l x RB_RED r" x x]) auto
qed

lemma inserts_grandparent:
  assumes t: "is_tree h (plug C (Nd l x RB_RED r))" "rb_inv (Nd l x RB_RED r)" "ctx_ok C (bh l)"
    and C: "C = CL p RB_RED s D \<or> C = CR s p RB_RED D"
    and IH: "\<And>E l x r h. size E < size D \<Longrightarrow> is_tree h (plug E (Nd l x RB_RED r)) \<Longrightarrow> rb_inv (Nd l x RB_RED r) \<Longrightarrow> ctx_ok E (bh l) \<Longrightarrow>
      inserts x h (plug E (Nd l x RB_RED r))"
  shows "inserts x h (plug C (Nd l x RB_RED r))"
proof -
  have p: "rb_parent h x = p" using parent_at [OF t(1)] C by auto
  have D: "black_ctx D" and s: "rb_inv s" "bh s = bh l" "col s = RB_BLACK" "ctx_ok D (bh l)" using t(3) C by auto
  obtain a b where ab: "plug C (Nd l x RB_RED r) = plug D (Nd a p RB_RED b)" "rb_inv a" "rb_inv b" "bh a = bh l" "bh b = bh l"
    using C t(2) s by auto
  then have ta: "is_tree h (plug D (Nd a p RB_RED b))" using t(1) by simp
  show ?thesis
  proof (cases D)
    case Top then show ?thesis using D by simp
  next
    case [simp]: (CL g d u E)
    then have d: "d = RB_BLACK" using D by simp
    show ?thesis
    proof (cases "col u = RB_BLACK")
      case True then show ?thesis using t(1,2) C d s inserts_black_uncle [of l x r s u E h p g] by auto
    next
      case False then show ?thesis unfolding ab(1) using ta ab p d s IH [of E]
        by (simp only: CL) (rule inserts_red_uncle_left, auto)
    qed
  next
    case [simp]: (CR u g d E)
    then have d: "d = RB_BLACK" using D by simp
    show ?thesis
    proof (cases "col u = RB_BLACK")
      case True then show ?thesis using t(1,2) C d s inserts_black_uncle [of l x r s u E h p g] by auto
    next
      case False then show ?thesis unfolding ab(1) using ta ab p d s IH [of E]
        by (simp only: CR) (rule inserts_red_uncle_right, auto)
    qed
  qed
qed

lemma red_ctx: "C \<noteq> Top \<Longrightarrow> \<not> black_ctx C \<Longrightarrow> \<exists>p s D. C = CL p RB_RED s D \<or> C = CR s p RB_RED D"
  by (cases C) auto

lemma insert_balanced:
  assumes "is_tree h (plug C (Nd l x RB_RED r))" "rb_inv (Nd l x RB_RED r)" "ctx_ok C (bh l)"
  shows "inserts x h (plug C (Nd l x RB_RED r))"
  using assms
proof (induction C arbitrary: l x r h rule: measure_induct_rule [of size])
  case (less C)
  consider (top) "C = Top" | (black) "black_ctx C" | (red) p s D where "C = CL p RB_RED s D \<or> C = CR s p RB_RED D"
    using red_ctx [of C] by blast
  then show ?case
  proof cases
    case top then show ?thesis using less.prems insertsI_top by simp
  next
    case black then show ?thesis using less.prems by (intro insertsI_black rb_ok_plugI) auto
  next
    case red
    then have "size D < size C" by auto
    then show ?thesis using inserts_grandparent [OF less.prems red] less.IH by (meson less_trans)
  qed
qed

subsection \<open>Linking a new node\<close>

text \<open>Every empty place of the tree is a context with nothing in it.\<close>

fun cplace :: "ctx \<Rightarrow> place" where
  "cplace Top = Root"
| "cplace (CL a c r C) = LeftOf a"
| "cplace (CR l a c C) = RightOf a"

lemma get_cplace: "ctx_at h C q \<Longrightarrow> get_link (cplace C) h = q"
  by (cases C) auto

lemma link_new:
  assumes t: "is_tree h (plug C Lf)" and x: "x \<noteq> 0" "x \<notin> set (pre C @ post C)"
  shows "is_tree (rb_link_node x (cpar C) (cplace C) h) (plug C (Nd Lf x RB_RED Lf))"
proof -
  let ?h = "set_left x 0 (set_right x 0 (set_color x RB_RED (set_parent x (cpar C) h)))"
  have at: "ctx_at ?h C 0" using t x by (simp add: is_tree_plug)
  have x': "tree_at ?h (cpar C) (Nd Lf x RB_RED Lf)" using x by simp
  have d: "distinct (pre C @ [x] @ post C)" using t x by (auto simp: is_tree_plug)
  show ?thesis
  proof (cases "C = Top")
    case True then show ?thesis using x by (simp add: rb_link_node_def is_tree_def)
  next
    case False then show ?thesis using at x' d x by (cases C) (auto simp: rb_link_node_def is_tree_plug)
  qed
qed

text \<open>Linking a node at an empty place and rebalancing gives a balanced tree with the node at that place.\<close>

lemma insert_at_place:
  assumes t: "is_tree h (plug C Lf)" "rb_ok (plug C Lf)" and x: "x \<noteq> 0" "x \<notin> set (pre C @ post C)"
  shows "\<exists>h' t'. rb_insert_color x (rb_link_node x (cpar C) (cplace C) h) = Some h' \<and> is_tree h' t' \<and> rb_ok t' \<and> ino t' = pre C @ x # post C"
  using insert_balanced [OF link_new [OF t(1) x]] rb_ok_plugD [OF t(2)] by (simp add: inserts_def)

subsection \<open>Removal keeps the tree\<close>

text \<open>The loop works on a hole whose subtree lacks one black node; the root of that subtree may be red below a red parent.\<close>

fun inv_below :: "shape \<Rightarrow> bool" where
  "inv_below Lf = True"
| "inv_below (Nd l a c r) \<longleftrightarrow> bh l = bh r \<and> rb_inv l \<and> rb_inv r"

lemma inv_below: "rb_inv t \<Longrightarrow> inv_below t" "inv_below t \<Longrightarrow> col t = RB_BLACK \<Longrightarrow> rb_inv t"
  by (cases t; simp)+

definition erases :: "nat \<Rightarrow> nat \<Rightarrow> rb_heap \<Rightarrow> shape \<Rightarrow> bool" where
  "erases node parent h t \<longleftrightarrow> (\<exists>h' t'. erase_color node parent h = Some h' \<and> is_tree h' t' \<and> rb_ok t' \<and> ino t' = ino t)"

lemma erases_red:
  assumes "is_tree h (plug C (Nd l x RB_RED r))" "inv_below (Nd l x RB_RED r)" "ctx_ok C (Suc (bh l))"
  shows "erases x p h (plug C (Nd l x RB_RED r))"
proof -
  have "\<not> black h x" "x \<noteq> 0" using assms by (auto simp: black_def is_tree_plug)
  then have "erase_color x p h = Some (set_color x RB_BLACK h)" by (simp add: erase_color_def erase_loop.simps [of x p h])
  moreover have "rb_ok (plug C (Nd l x RB_BLACK r))" using assms by (intro rb_ok_plugI) auto
  ultimately show ?thesis unfolding erases_def using recolor [OF assms(1), of RB_BLACK]
    by (intro exI [of _ "set_color x RB_BLACK h"] exI [of _ "plug C (Nd l x RB_BLACK r)"]) simp
qed

lemma erases_top:
  assumes "is_tree h t" "inv_below t" "col t = RB_BLACK"
  shows "erases (rt t) p h t"
proof -
  have "erase_color (rt t) p h = Some (if rt t \<noteq> 0 then set_color (rt t) RB_BLACK h else h)"
    using assms(1) by (simp add: erase_color_def erase_loop.simps [of "rt t" p h] is_tree_def)
  moreover have "is_tree (if rt t \<noteq> 0 then set_color (rt t) RB_BLACK h else h) t"
    using blacken_root [OF assms(1,3)] assms(1) by (auto simp: is_tree_def)
  ultimately show ?thesis using assms by (auto simp: erases_def rb_ok_def inv_below)
qed

text \<open>The last round: a red child of the sibling on the far side.\<close>

lemma erase_last_left_tree:
  assumes "is_tree h (plug C (Nd t p c (Nd sl q d (Nd x y e z))))"
  shows "\<exists>h'. erase_last_left p q h = Some h' \<and> is_tree h' (plug C (Nd (Nd t p RB_BLACK sl) q c (Nd x y RB_BLACK z)))"
proof -
  let ?h = "set_color y RB_BLACK (set_color p RB_BLACK (set_color q (rb_color h p) h))"
  have "is_tree ?h (plug C (Nd t p RB_BLACK (Nd sl q c (Nd x y RB_BLACK z))))"
    using assms by (auto simp: is_tree_plug)
  moreover have "rb_right h q = y" "y \<noteq> 0" using assms by (auto simp: is_tree_plug)
  ultimately show ?thesis using rotate_left_tree by (fastforce simp: erase_last_left_def Let_def)
qed

lemma erase_last_right_tree:
  assumes "is_tree h (plug C (Nd (Nd (Nd x y e z) q d sr) p c t))"
  shows "\<exists>h'. erase_last_right p q h = Some h' \<and> is_tree h' (plug C (Nd (Nd x y RB_BLACK z) q c (Nd sr p RB_BLACK t)))"
proof -
  let ?h = "set_color y RB_BLACK (set_color p RB_BLACK (set_color q (rb_color h p) h))"
  have "is_tree ?h (plug C (Nd (Nd (Nd x y RB_BLACK z) q c sr) p RB_BLACK t))"
    using assms by (auto simp: is_tree_plug)
  moreover have "rb_left h q = y" "y \<noteq> 0" using assms by (auto simp: is_tree_plug)
  ultimately show ?thesis using rotate_right_tree by (fastforce simp: erase_last_right_def Let_def)
qed

text \<open>A black sibling: both its children are black, or one is red.\<close>

lemma red_sibling_black:
  "is_tree h (plug C (Nd t p c (Nd sl q RB_BLACK sr))) \<Longrightarrow> red_sibling_left p h = Some h"
  "is_tree h (plug C (Nd (Nd sl q RB_BLACK sr) p c t)) \<Longrightarrow> red_sibling_right p h = Some h"
  by (auto simp: red_sibling_left_def red_sibling_right_def is_tree_plug Let_def)

lemma sibling_left:
  assumes "is_tree h (plug C (Nd t p c (Nd sl q d sr)))"
  shows "rb_right h p = q" "q \<noteq> 0" "rb_parent h p = cpar C" "black h (rb_left h q) = (col sl = RB_BLACK)" "black h (rb_right h q) = (col sr = RB_BLACK)"
  using assms col_at(2) [of h q sl] col_at(2) [of h q sr] by (auto simp: is_tree_plug)

lemma sibling_right:
  assumes "is_tree h (plug C (Nd (Nd sl q d sr) p c t))"
  shows "rb_left h p = q" "q \<noteq> 0" "rb_parent h p = cpar C" "black h (rb_left h q) = (col sl = RB_BLACK)" "black h (rb_right h q) = (col sr = RB_BLACK)"
  using assms col_at(2) [of h q sl] col_at(2) [of h q sr] by (auto simp: is_tree_plug)

lemma erase_left_up:
  assumes t: "is_tree h (plug C (Nd t p c (Nd sl q RB_BLACK sr)))" "red_sibling_left p h0 = Some h" "col sl = RB_BLACK" "col sr = RB_BLACK"
  shows "\<exists>h'. erase_left p h0 = Some (Some (p, cpar C), h') \<and> is_tree h' (plug C (Nd t p c (Nd sl q RB_RED sr)))"
proof -
  have "is_tree (set_color q RB_RED h) (plug C (Nd t p c (Nd sl q RB_RED sr)))" using t by (auto simp: is_tree_plug)
  then show ?thesis using sibling_left [OF t(1)] t by (simp add: erase_left_def Let_def)
qed

lemma erase_right_up:
  assumes t: "is_tree h (plug C (Nd (Nd sl q RB_BLACK sr) p c t))" "red_sibling_right p h0 = Some h" "col sl = RB_BLACK" "col sr = RB_BLACK"
  shows "\<exists>h'. erase_right p h0 = Some (Some (p, cpar C), h') \<and> is_tree h' (plug C (Nd (Nd sl q RB_RED sr) p c t))"
proof -
  have "is_tree (set_color q RB_RED h) (plug C (Nd (Nd sl q RB_RED sr) p c t))" using t by (auto simp: is_tree_plug)
  then show ?thesis using sibling_right [OF t(1)] t by (simp add: erase_right_def Let_def)
qed

lemma erase_left_far:
  assumes t: "is_tree h (plug C (Nd t p c (Nd sl q RB_BLACK (Nd x y RB_RED z))))" "red_sibling_left p h0 = Some h"
  shows "\<exists>h'. erase_left p h0 = Some (None, h') \<and> is_tree h' (plug C (Nd (Nd t p RB_BLACK sl) q c (Nd x y RB_BLACK z)))"
  using sibling_left [OF t(1)] t(2) erase_last_left_tree [OF t(1)] by (auto simp: erase_left_def Let_def)

lemma erase_right_far:
  assumes t: "is_tree h (plug C (Nd (Nd (Nd x y RB_RED z) q RB_BLACK sr) p c t))" "red_sibling_right p h0 = Some h"
  shows "\<exists>h'. erase_right p h0 = Some (None, h') \<and> is_tree h' (plug C (Nd (Nd x y RB_BLACK z) q c (Nd sr p RB_BLACK t)))"
  using sibling_right [OF t(1)] t(2) erase_last_right_tree [OF t(1)] by (auto simp: erase_right_def Let_def)

lemma erase_left_near:
  assumes t: "is_tree h (plug C (Nd t p c (Nd (Nd x y RB_RED z) q RB_BLACK sr)))" "red_sibling_left p h0 = Some h" "col sr = RB_BLACK"
  shows "\<exists>h'. erase_left p h0 = Some (None, h') \<and> is_tree h' (plug C (Nd (Nd t p RB_BLACK x) y c (Nd z q RB_BLACK sr)))"
proof -
  have y: "rb_left h q = y" "y \<noteq> 0" using t(1) by (auto simp: is_tree_plug)
  have "is_tree (set_color q RB_RED (set_color y RB_BLACK h)) (plug (CR t p c C) (Nd (Nd x y RB_BLACK z) q RB_RED sr))"
    using t(1) by (auto simp: is_tree_plug)
  then obtain h1 where h1: "rotate_right q (set_color q RB_RED (set_color y RB_BLACK h)) = Some h1"
    "is_tree h1 (plug C (Nd t p c (Nd x y RB_BLACK (Nd z q RB_RED sr))))" using rotate_right_tree by fastforce
  then show ?thesis using sibling_left [OF t(1)] sibling_left(1,2) [OF h1(2)] t(2,3) y erase_last_left_tree [OF h1(2)]
    by (auto simp: erase_left_def Let_def)
qed

lemma erase_right_near:
  assumes t: "is_tree h (plug C (Nd (Nd sl q RB_BLACK (Nd x y RB_RED z)) p c t))" "red_sibling_right p h0 = Some h" "col sl = RB_BLACK"
  shows "\<exists>h'. erase_right p h0 = Some (None, h') \<and> is_tree h' (plug C (Nd (Nd sl q RB_BLACK x) y c (Nd z p RB_BLACK t)))"
proof -
  have y: "rb_right h q = y" "y \<noteq> 0" using t(1) by (auto simp: is_tree_plug)
  have "is_tree (set_color q RB_RED (set_color y RB_BLACK h)) (plug (CL p c t C) (Nd sl q RB_RED (Nd x y RB_BLACK z)))"
    using t(1) by (auto simp: is_tree_plug)
  then obtain h1 where h1: "rotate_left q (set_color q RB_RED (set_color y RB_BLACK h)) = Some h1"
    "is_tree h1 (plug C (Nd (Nd (Nd sl q RB_RED x) y RB_BLACK z) p c t))" using rotate_left_tree by fastforce
  then show ?thesis using sibling_right [OF t(1)] sibling_right(1,2) [OF h1(2)] t(2,3) y erase_last_right_tree [OF h1(2)]
    by (auto simp: erase_right_def Let_def)
qed

text \<open>The rounds put together.\<close>

lemma rt_plug_in: "C \<noteq> Top \<Longrightarrow> rt (plug C t) \<in> set (pre C) \<union> set (post C)"
proof (induction C arbitrary: t)
  case (CL a c r C) then show ?case by (cases "C = Top") auto
next
  case (CR l a c C) then show ?case by (cases "C = Top") auto
qed simp

lemma not_root:
  assumes "is_tree h (plug C t)" "C \<noteq> Top" "col t = RB_BLACK"
  shows "black h (rt t)" "rt t \<noteq> rb_node h"
proof -
  show "black h (rt t)" using assms col_at(2) by (auto simp: is_tree_plug)
  have r: "rb_node h = rt (plug C t)" using assms(1) by (simp add: is_tree_def)
  then have "rb_node h \<in> set (pre C) \<union> set (post C)" using rt_plug_in [OF assms(2)] by simp
  moreover have "rb_node h \<noteq> 0" using r rt_zero [of h 0 "plug C t"] assms(1,2) by (simp add: is_tree_def)
  moreover have "t \<noteq> Lf \<Longrightarrow> rt t \<notin> set (pre C) \<union> set (post C)" using assms(1) by (cases t) (auto simp: is_tree_plug)
  ultimately show "rt t \<noteq> rb_node h" by (cases "t = Lf") auto
qed

lemma erases_end:
  assumes "(if rb_left h p = n then erase_left p h else erase_right p h) = Some (None, h')" "black h n" "n \<noteq> rb_node h" "p \<noteq> 0"
    "is_tree h' t'" "rb_ok t'" "ino t' = ino t"
  shows "erases n p h t"
proof -
  have "erase_color n p h = Some (if rb_node h' \<noteq> 0 then set_color (rb_node h') RB_BLACK h' else h')"
    using assms(1-4) by (simp add: erase_color_def erase_loop.simps [of n p h])
  moreover have "is_tree (if rb_node h' \<noteq> 0 then set_color (rb_node h') RB_BLACK h' else h') t'"
    using blacken_root [of h' t'] assms(5,6) by (auto simp: rb_ok_def is_tree_def)
  ultimately show ?thesis using assms(6,7) by (auto simp: erases_def)
qed

lemma erases_step:
  assumes "(if rb_left h p = n then erase_left p h else erase_right p h) = Some (Some (n', p'), h')" "black h n" "n \<noteq> rb_node h" "p \<noteq> 0"
    "erases n' p' h' t'" "ino t' = ino t"
  shows "erases n p h t"
proof -
  have "erase_loop n p h = erase_loop n' p' h'"
    using assms(1-4) by (subst erase_loop.simps) simp
  then show ?thesis using assms(5,6) by (simp add: erases_def erase_color_def)
qed

lemma erase_left_end:
  assumes t: "is_tree h (plug D (Nd t p c (Nd sl q RB_BLACK sr)))" "red_sibling_left p h0 = Some h"
    and inv: "rb_inv t" "rb_inv sl" "rb_inv sr" "bh sl = bh t" "bh sr = bh t" "col sl = RB_RED \<or> col sr = RB_RED"
  shows "\<exists>h' t'. erase_left p h0 = Some (None, h') \<and> is_tree h' (plug D t') \<and> rb_inv t' \<and> bh t' = bh (Nd t p c (Nd sl q RB_BLACK sr)) + 1 \<and>
    col t' = c \<and> ino t' = ino (Nd t p c (Nd sl q RB_BLACK sr))"
proof (cases "col sr = RB_RED")
  case True
  then obtain x y z where s: "sr = Nd x y RB_RED z" using red_tree by blast
  then show ?thesis using erase_left_far [of h D t p c sl q x y z h0] t inv by (intro ex_comm [THEN iffD1, OF exI [of _ "Nd (Nd t p RB_BLACK sl) q c (Nd x y RB_BLACK z)"]]) auto
next
  case False
  then obtain x y z where s: "sl = Nd x y RB_RED z" using red_tree inv(6) by blast
  then show ?thesis using erase_left_near [of h D t p c x y z q sr h0] t inv False by (intro ex_comm [THEN iffD1, OF exI [of _ "Nd (Nd t p RB_BLACK x) y c (Nd z q RB_BLACK sr)"]]) auto
qed

lemma erases_black_left:
  assumes start: "black h0 (rt t)" "rt t \<noteq> rb_node h0" "rb_left h0 p = rt t" "p \<noteq> 0"
    and t: "is_tree h (plug D (Nd t p c (Nd sl q RB_BLACK sr)))" "red_sibling_left p h0 = Some h"
    and inv: "rb_inv t" "rb_inv sl" "rb_inv sr" "bh sl = bh t" "bh sr = bh t"
    and D: "ctx_ok D (Suc (bh t) + (if c = RB_BLACK then 1 else 0))" "c = RB_RED \<Longrightarrow> black_ctx D"
    and T: "ino T = ino (plug D (Nd t p c (Nd sl q RB_BLACK sr)))"
    and IH: "\<And>h' t'. c = RB_BLACK \<Longrightarrow> is_tree h' (plug D t') \<Longrightarrow> inv_below t' \<Longrightarrow> ctx_ok D (Suc (bh t')) \<Longrightarrow> erases (rt t') (cpar D) h' (plug D t')"
  shows "erases (rt t) p h0 T"
proof (cases "col sl = RB_BLACK \<and> col sr = RB_BLACK")
  case True
  then obtain h' where h': "erase_left p h0 = Some (Some (p, cpar D), h')" "is_tree h' (plug D (Nd t p c (Nd sl q RB_RED sr)))"
    using erase_left_up [OF t] by blast
  have "erases p (cpar D) h' (plug D (Nd t p c (Nd sl q RB_RED sr)))"
  proof (cases c)
    case RB_RED then show ?thesis using h'(2) True inv D by (auto intro!: erases_red)
  next
    case RB_BLACK then show ?thesis using IH [OF RB_BLACK h'(2)] True inv D by simp
  qed
  then show ?thesis using start h' T by (intro erases_step [of h0 p "rt t" p "cpar D" h' "plug D (Nd t p c (Nd sl q RB_RED sr))"]) auto
next
  case False
  then obtain h' t' where h': "erase_left p h0 = Some (None, h')" "is_tree h' (plug D t')" "rb_inv t'" "col t' = c"
    "bh t' = bh (Nd t p c (Nd sl q RB_BLACK sr)) + 1" "ino t' = ino (Nd t p c (Nd sl q RB_BLACK sr))" using erase_left_end [OF t inv] by auto
  then have "rb_ok (plug D t')" using D by (intro rb_ok_plugI) (cases c; auto)+
  then show ?thesis using start h' T by (intro erases_end [of h0 p "rt t" h' "plug D t'"]) auto
qed

lemma erase_right_end:
  assumes t: "is_tree h (plug D (Nd (Nd sl q RB_BLACK sr) p c t))" "red_sibling_right p h0 = Some h"
    and inv: "rb_inv t" "rb_inv sl" "rb_inv sr" "bh sl = bh t" "bh sr = bh t" "col sl = RB_RED \<or> col sr = RB_RED"
  shows "\<exists>h' t'. erase_right p h0 = Some (None, h') \<and> is_tree h' (plug D t') \<and> rb_inv t' \<and> bh t' = bh (Nd t p c (Nd sl q RB_BLACK sr)) + 1 \<and>
    col t' = c \<and> ino t' = ino (Nd (Nd sl q RB_BLACK sr) p c t)"
proof (cases "col sl = RB_RED")
  case True
  then obtain x y z where s: "sl = Nd x y RB_RED z" using red_tree by blast
  then show ?thesis using erase_right_far [of h D x y z q sr p c t h0] t inv by (intro ex_comm [THEN iffD1, OF exI [of _ "Nd (Nd x y RB_BLACK z) q c (Nd sr p RB_BLACK t)"]]) auto
next
  case False
  then obtain x y z where s: "sr = Nd x y RB_RED z" using red_tree inv(6) by blast
  then show ?thesis using erase_right_near [of h D sl q x y z p c t h0] t inv False by (intro ex_comm [THEN iffD1, OF exI [of _ "Nd (Nd sl q RB_BLACK x) y c (Nd z p RB_BLACK t)"]]) auto
qed

lemma erases_black_right:
  assumes start: "black h0 (rt t)" "rt t \<noteq> rb_node h0" "rb_left h0 p \<noteq> rt t" "p \<noteq> 0"
    and t: "is_tree h (plug D (Nd (Nd sl q RB_BLACK sr) p c t))" "red_sibling_right p h0 = Some h"
    and inv: "rb_inv t" "rb_inv sl" "rb_inv sr" "bh sl = bh t" "bh sr = bh t"
    and D: "ctx_ok D (Suc (bh t) + (if c = RB_BLACK then 1 else 0))" "c = RB_RED \<Longrightarrow> black_ctx D"
    and T: "ino T = ino (plug D (Nd (Nd sl q RB_BLACK sr) p c t))"
    and IH: "\<And>h' t'. c = RB_BLACK \<Longrightarrow> is_tree h' (plug D t') \<Longrightarrow> inv_below t' \<Longrightarrow> ctx_ok D (Suc (bh t')) \<Longrightarrow> erases (rt t') (cpar D) h' (plug D t')"
  shows "erases (rt t) p h0 T"
proof (cases "col sl = RB_BLACK \<and> col sr = RB_BLACK")
  case True
  then obtain h' where h': "erase_right p h0 = Some (Some (p, cpar D), h')" "is_tree h' (plug D (Nd (Nd sl q RB_RED sr) p c t))"
    using erase_right_up [OF t] by blast
  have "erases p (cpar D) h' (plug D (Nd (Nd sl q RB_RED sr) p c t))"
  proof (cases c)
    case RB_RED then show ?thesis using h'(2) True inv D by (auto intro!: erases_red)
  next
    case RB_BLACK then show ?thesis using IH [OF RB_BLACK h'(2)] True inv D by simp
  qed
  then show ?thesis using start h' T by (intro erases_step [of h0 p "rt t" p "cpar D" h' "plug D (Nd (Nd sl q RB_RED sr) p c t)"]) auto
next
  case False
  then obtain h' t' where h': "erase_right p h0 = Some (None, h')" "is_tree h' (plug D t')" "rb_inv t'" "col t' = c"
    "bh t' = bh (Nd t p c (Nd sl q RB_BLACK sr)) + 1" "ino t' = ino (Nd (Nd sl q RB_BLACK sr) p c t)" using erase_right_end [OF t inv] by auto
  then have "rb_ok (plug D t')" using D by (intro rb_ok_plugI) (cases c; auto)+
  then show ?thesis using start h' T by (intro erases_end [of h0 p "rt t" h' "plug D t'"]) auto
qed

lemma red_sibling_left_tree:
  assumes "is_tree h (plug C (Nd t p RB_BLACK (Nd sl q RB_RED sr)))"
  shows "\<exists>h'. red_sibling_left p h = Some h' \<and> is_tree h' (plug C (Nd (Nd t p RB_RED sl) q RB_BLACK sr))"
proof -
  have "is_tree (set_color p RB_RED (set_color q RB_BLACK h)) (plug C (Nd t p RB_RED (Nd sl q RB_BLACK sr)))"
    using assms by (auto simp: is_tree_plug)
  moreover have "rb_right h p = q" "q \<noteq> 0" "rb_color h q = RB_RED" using assms by (auto simp: is_tree_plug)
  ultimately show ?thesis using rotate_left_tree by (fastforce simp: red_sibling_left_def Let_def)
qed

lemma red_sibling_right_tree:
  assumes "is_tree h (plug C (Nd (Nd sl q RB_RED sr) p RB_BLACK t))"
  shows "\<exists>h'. red_sibling_right p h = Some h' \<and> is_tree h' (plug C (Nd sl q RB_BLACK (Nd sr p RB_RED t)))"
proof -
  have "is_tree (set_color p RB_RED (set_color q RB_BLACK h)) (plug C (Nd (Nd sl q RB_BLACK sr) p RB_RED t))"
    using assms by (auto simp: is_tree_plug)
  moreover have "rb_left h p = q" "q \<noteq> 0" "rb_color h q = RB_RED" using assms by (auto simp: is_tree_plug)
  ultimately show ?thesis using rotate_right_tree by (fastforce simp: red_sibling_right_def Let_def)
qed

lemma tall_node: "bh s = Suc n \<Longrightarrow> \<exists>l a c r. s = Nd l a c r"
  by (cases s) auto

lemma erases_left:
  assumes t: "is_tree h (plug (CL p c s C) t)" "rb_inv t" "col t = RB_BLACK" "ctx_ok (CL p c s C) (Suc (bh t))"
    and IH: "\<And>h' t'. is_tree h' (plug C t') \<Longrightarrow> inv_below t' \<Longrightarrow> ctx_ok C (Suc (bh t')) \<Longrightarrow> erases (rt t') (cpar C) h' (plug C t')"
  shows "erases (rt t) p h (plug (CL p c s C) t)"
proof -
  note start = not_root [OF t(1) _ t(3)]
  have p: "p \<noteq> 0" "rb_left h p = rt t" using t(1) unfolding is_tree_plug by auto
  obtain sl q d sr where s: "s = Nd sl q d sr" using t(4) tall_node [of s "bh t"] by auto
  show ?thesis
  proof (cases d)
    case RB_BLACK
    show ?thesis by (rule erases_black_left [OF start(1,2) p(2,1), of h C c sl q sr])
        (use t s RB_BLACK red_sibling_black IH in \<open>auto split: if_splits\<close>)
  next
    case RB_RED
    then have c: "c = RB_BLACK" using t(4) s by (cases c) auto
    obtain h' where h': "red_sibling_left p h = Some h'" "is_tree h' (plug (CL q RB_BLACK sr C) (Nd t p RB_RED sl))"
      using red_sibling_left_tree [of h C t p sl q sr] t(1) s RB_RED c by auto
    obtain sl' q' sr' where sl: "sl = Nd sl' q' RB_BLACK sr'" using t(4) s RB_RED tall_node [of sl "bh t"] by auto
    show ?thesis by (rule erases_black_left [OF start(1,2) p(2,1), of h' "CL q RB_BLACK sr C" RB_RED sl' q' sr'])
        (use t s sl RB_RED c h' in auto)
  qed
qed

lemma erases_right:
  assumes t: "is_tree h (plug (CR s p c C) t)" "rb_inv t" "col t = RB_BLACK" "ctx_ok (CR s p c C) (Suc (bh t))"
    and IH: "\<And>h' t'. is_tree h' (plug C t') \<Longrightarrow> inv_below t' \<Longrightarrow> ctx_ok C (Suc (bh t')) \<Longrightarrow> erases (rt t') (cpar C) h' (plug C t')"
  shows "erases (rt t) p h (plug (CR s p c C) t)"
proof -
  note start = not_root [OF t(1) _ t(3)]
  obtain sl q d sr where s: "s = Nd sl q d sr" using t(4) tall_node [of s "bh t"] by auto
  have p: "p \<noteq> 0" "rb_left h p \<noteq> rt t" using t(1) s unfolding is_tree_plug by (cases t; auto)+
  show ?thesis
  proof (cases d)
    case RB_BLACK
    show ?thesis by (rule erases_black_right [OF start(1,2) p(2,1), of h C sl q sr c])
        (use t s RB_BLACK red_sibling_black IH in \<open>auto split: if_splits\<close>)
  next
    case RB_RED
    then have c: "c = RB_BLACK" using t(4) s by (cases c) auto
    obtain h' where h': "red_sibling_right p h = Some h'" "is_tree h' (plug (CR sl q RB_BLACK C) (Nd sr p RB_RED t))"
      using red_sibling_right_tree [of h C sl q sr p t] t(1) s RB_RED c by auto
    obtain sl' q' sr' where sr: "sr = Nd sl' q' RB_BLACK sr'" using t(4) s RB_RED tall_node [of sr "bh t"] by auto
    show ?thesis by (rule erases_black_right [OF start(1,2) p(2,1), of h' "CR sl q RB_BLACK C" sl' q' sr' RB_RED])
        (use t s sr RB_RED c h' in auto)
  qed
qed

lemma erases_hole:
  "is_tree h (plug C t) \<Longrightarrow> inv_below t \<Longrightarrow> ctx_ok C (Suc (bh t)) \<Longrightarrow> erases (rt t) (cpar C) h (plug C t)"
proof (induction C arbitrary: h t)
  case Top
  then show ?case using erases_red [of h Top] erases_top [of h t] by (cases "col t = RB_RED") (auto dest!: red_tree)
next
  case (CL p c s C)
  show ?case
  proof (cases "col t = RB_RED")
    case True then show ?thesis using CL.prems erases_red [of h "CL p c s C"] by (auto dest!: red_tree)
  next
    case False then show ?thesis using CL erases_left [of h p c s C t] by (auto simp: inv_below)
  qed
next
  case (CR s p c C)
  show ?case
  proof (cases "col t = RB_RED")
    case True then show ?thesis using CR.prems erases_red [of h "CR s p c C"] by (auto dest!: red_tree)
  next
    case False then show ?thesis using CR erases_right [of h s p c C t] by (auto simp: inv_below)
  qed
qed

subsubsection \<open>Taking the node out\<close>

lemma unlink_tree:
  "is_tree h (plug C (Nd Lf x c r)) \<Longrightarrow> is_tree (unlink x (rt r) h) (plug C r)"
  "is_tree h (plug C (Nd r x c Lf)) \<Longrightarrow> is_tree (unlink x (rt r) h) (plug C r)"
proof -
  have "is_tree (unlink x (rt r) h) (plug C r)"
    if "ctx_at h C x" "tree_at h x r" "x \<noteq> 0" "rb_parent h x = cpar C" "distinct (pre C @ x # ino r @ post C)" "cpar C \<notin> set (ino r)"
  proof -
    have d: "distinct (pre C @ post C)" using that by auto
    show ?thesis using that d by (cases r) (auto simp: is_tree_plug unlink_def Let_def replace_child_ctx)
  qed
  then show
    "is_tree h (plug C (Nd Lf x c r)) \<Longrightarrow> is_tree (unlink x (rt r) h) (plug C r)"
    "is_tree h (plug C (Nd r x c Lf)) \<Longrightarrow> is_tree (unlink x (rt r) h) (plug C r)"
    using cpar_notin [of h C "Nd Lf x c r"] cpar_notin [of h C "Nd r x c Lf"] by (auto simp: is_tree_plug)
qed

lemma reparent: "tree_at h p t \<Longrightarrow> distinct (ino t) \<Longrightarrow> t \<noteq> Lf \<Longrightarrow> tree_at (set_parent (rt t) q h) q t"
  by (cases t) auto

lemma take_place_tree:
  assumes t: "is_tree h (plug C (Nd l x c r))" "l \<noteq> Lf" and y: "y \<noteq> 0" "y \<notin> set (ino (plug C (Nd l x c r)))"
  shows "is_tree (take_place y x h) (plug C (Nd l y c r))"
proof -
  have cp: "cpar C \<notin> set (ino (Nd l x c r))" using t(1) by (rule cpar_notin)
  have cy: "cpar C \<noteq> y" using y cpar_in [of C] by (cases "C = Top") auto
  have d: "distinct (pre C @ post C)" using t by (auto simp: is_tree_plug)
  define h1 where "h1 = set_left y (rb_left h x) (set_right y (rb_right h x) (set_color y (rb_color h x) (set_parent y (rb_parent h x) h)))"
  define h2 where "h2 = replace_child (cpar C) x y h1"
  have xy: "x \<noteq> y" "x \<noteq> 0" using y t by (auto simp: is_tree_plug)
  have h1: "ctx_at h1 C x" "tree_at h1 x l" "tree_at h1 x r" "rb_left h1 x = rt l" "rb_right h1 x = rt r"
    "rb_left h1 y = rt l" "rb_right h1 y = rt r" "rb_parent h1 y = cpar C" "rb_color h1 y = c"
    using t(1) y xy by (auto simp: h1_def is_tree_plug)
  have h2: "ctx_at h2 C y" using h1 t(1) d xy unfolding h2_def by (intro replace_child_ctx) (auto simp: is_tree_plug)
  have h2': "tree_at h2 x l" "tree_at h2 x r" "rb_left h2 x = rt l" "rb_right h2 x = rt r"
    "rb_left h2 y = rt l" "rb_right h2 y = rt r" "rb_parent h2 y = cpar C" "rb_color h2 y = c"
    using h1 cp cy by (auto simp: h2_def)
  have l: "rt l \<in> set (ino l)" "rt l \<noteq> y" "rt l \<notin> set (ino r)" "rt l \<notin> set (pre C)" "rt l \<notin> set (post C)"
    using rt_in_ino [OF t(2)] y t(1) by (auto simp: is_tree_plug)
  have r: "r \<noteq> Lf \<Longrightarrow> rt r \<noteq> y \<and> rt r \<notin> set (ino l) \<and> rt r \<notin> set (pre C) \<and> rt r \<notin> set (post C)"
    using rt_in_ino [of r] y t(1) by (auto simp: is_tree_plug)
  have h3: "ctx_at (set_parent (rt l) y h2) C y" "tree_at (set_parent (rt l) y h2) y l" "tree_at (set_parent (rt l) y h2) x r"
    using h2 h2' l t by (auto simp: reparent is_tree_plug)
  have "take_place y x h = (if rb_right h2 x \<noteq> 0 then set_parent (rb_right h2 x) y (set_parent (rt l) y h2) else set_parent (rt l) y h2)"
    using t(1) xy cp cy unfolding h2_def h1_def by (auto simp: take_place_def Let_def is_tree_plug)
  then show ?thesis using h2' h3 l r t y rt_zero [OF h3(3)]
    by (cases "r = Lf") (auto simp: reparent is_tree_plug)
qed

fun capp :: "ctx \<Rightarrow> ctx \<Rightarrow> ctx" where
  "capp Top E = E"
| "capp (CL a c r D) E = CL a c r (capp D E)"
| "capp (CR l a c D) E = CR l a c (capp D E)"

lemma capp_plug [simp]: "plug (capp D E) t = plug E (plug D t)"
  by (induction D arbitrary: t) auto

lemma capp_nodes [simp]: "pre (capp D E) = pre E @ pre D" "post (capp D E) = post D @ post E"
  by (induction D) auto

lemma capp_cpar: "cpar (capp D E) = (if D = Top then cpar E else cpar D)"
  by (cases D) auto

lemma capp_ok: "ctx_ok (capp D (CR l x c C)) n = ctx_ok (capp D (CR l y c C)) n" "black_ctx (capp D (CR l x c C)) = black_ctx (capp D (CR l y c C))"
proof -
  show b: "black_ctx (capp D (CR l x c C)) = black_ctx (capp D (CR l y c C))" for D by (cases D) auto
  show "ctx_ok (capp D (CR l x c C)) n = ctx_ok (capp D (CR l y c C)) n" by (induction D arbitrary: n) (auto simp: b)
qed

lemma leftmost_at:
  "tree_at h p t \<Longrightarrow> t \<noteq> Lf \<Longrightarrow> \<exists>D y d w. t = plug D (Nd Lf y d w) \<and> pre D = [] \<and> leftmost (rt t) h = Some y"
proof (induction t arbitrary: p)
  case (Nd l a c r)
  show ?case
  proof (cases "l = Lf")
    case True
    then have "leftmost a h = Some a" using Nd.prems by (simp add: leftmost.simps [of a])
    then show ?thesis using True by (intro exI [of _ Top]) auto
  next
    case False
    then obtain D y d w where D: "l = plug D (Nd Lf y d w)" "pre D = []" "leftmost (rt l) h = Some y"
      using Nd.IH(1) [of a] Nd.prems unfolding tree_at.simps by blast
    have "leftmost a h = leftmost (rt l) h" using Nd.prems False by (subst leftmost.simps) (auto simp: rt_zero)
    then show ?thesis using D by (intro exI [of _ "capp D (CL a c r Top)"] exI [of _ y] exI [of _ d] exI [of _ w]) auto
  qed
qed simp

text \<open>What is left to do once the node is out: nothing, or the loop when its colour was black.\<close>

lemma erase_finish:
  assumes t: "is_tree h (plug C w)" and ok: "ctx_ok C (bh w + (if d = RB_BLACK then 1 else 0))" "rb_inv w"
    and red: "d = RB_RED \<Longrightarrow> col w = RB_BLACK"
  shows "\<exists>h' t'. (if d = RB_BLACK then erase_color (rt w) (cpar C) h else Some h) = Some h' \<and> is_tree h' t' \<and> rb_ok t' \<and> ino t' = ino (plug C w)"
proof (cases d)
  case RB_BLACK
  then show ?thesis using erases_hole [OF t] ok by (auto simp: erases_def inv_below)
next
  case RB_RED
  moreover have "rb_ok (plug C w)" using RB_RED ok red by (intro rb_ok_plugI) auto
  ultimately show ?thesis using t by auto
qed

lemma erase_one_child:
  assumes t: "is_tree h (plug C (Nd l x c r))" "rb_ok (plug C (Nd l x c r))" and one: "l = Lf \<or> r = Lf"
  shows "\<exists>h' t'. rb_erase x h = Some h' \<and> is_tree h' t' \<and> rb_ok t' \<and> ino t' = pre C @ ino l @ ino r @ post C"
proof -
  have ok: "ctx_ok C (bh (Nd l x c r))" "rb_inv (Nd l x c r)" using rb_ok_plugD [OF t(2)] by auto
  define w where "w = (if l = Lf then r else l)"
  have w: "is_tree (unlink x (rt w) h) (plug C w)" using t(1) one unlink_tree(1) [of h C x c r] unlink_tree(2) [of h C l x c] by (auto simp: w_def)
  have e: "rb_erase x h = (if c = RB_BLACK then erase_color (rt w) (cpar C) (unlink x (rt w) h) else Some (unlink x (rt w) h))"
    using t(1) one rt_zero [of h x l] rt_zero [of h x r] by (auto simp: rb_erase_def Let_def is_tree_plug w_def)
  show ?thesis unfolding e using erase_finish [OF w, of c] ok one by (auto simp: w_def)
qed

lemma erase_two_children:
  assumes t: "is_tree h (plug C (Nd l x c r))" "rb_ok (plug C (Nd l x c r))" and two: "l \<noteq> Lf" "r \<noteq> Lf"
  shows "\<exists>h' t'. rb_erase x h = Some h' \<and> is_tree h' t' \<and> rb_ok t' \<and> ino t' = pre C @ ino l @ ino r @ post C"
proof -
  have tr: "tree_at h x r" "tree_at h x l" "x \<noteq> 0" "rb_left h x = rt l" "rb_right h x = rt r" using t(1) by (auto simp: is_tree_plug)
  obtain D y d w where D: "r = plug D (Nd Lf y d w)" "pre D = []" "leftmost (rt r) h = Some y" using leftmost_at [OF tr(1) two(2)] by blast
  let ?E = "capp D (CR l x c C)" and ?F = "capp D (CR l y c C)"
  have t1: "is_tree h (plug ?E (Nd Lf y d w))" using t(1) D(1) by simp
  then have t1': "tree_at h (cpar ?E) (Nd Lf y d w)" "distinct (pre ?E @ ino (Nd Lf y d w) @ post ?E)" unfolding is_tree_plug by blast+
  have y: "rb_right h y = rt w" "rb_color h y = d" "rb_parent h y = cpar ?E" "y \<noteq> 0" "rt w \<noteq> y" "y \<notin> set (ino (plug ?E w))"
    using t1' by (cases w; auto)+
  have p: "cpar ?E = x \<longleftrightarrow> D = Top" using cpar_in [of D] t1'(2) by (auto simp: capp_cpar)
  let ?h = "unlink y (rt w) h"
  have t2: "is_tree ?h (plug C (Nd l x c (plug D w)))" using unlink_tree(1) [OF t1] by simp
  have t3: "is_tree (take_place y x ?h) (plug ?F w)" using take_place_tree [OF t2 two(1) y(4)] y(6) by simp
  have py: "rb_parent ?h y = cpar ?E" using y by (auto simp: unlink_def Let_def)
  have e: "rb_erase x h = (if d = RB_BLACK then erase_color (rt w) (cpar ?F) (take_place y x ?h) else Some (take_place y x ?h))"
    using tr y p py D(3) two rt_zero [OF tr(1)] rt_zero [OF tr(2)] by (auto simp: rb_erase_def Let_def capp_cpar)
  have "rb_ok (plug ?E (Nd Lf y d w))" using t(2) D(1) by simp
  then have "ctx_ok ?F (bh w + (if d = RB_BLACK then 1 else 0))" "rb_inv (Nd Lf y d w)"
    using rb_ok_plugD [of ?E "Nd Lf y d w"] by (auto simp: capp_ok(1) [of D l x c C _ y])
  then show ?thesis unfolding e using erase_finish [OF t3, of d] D(1,2) by auto
qed

lemma split_at: "x \<in> set (ino t) \<Longrightarrow> \<exists>C l c r. t = plug C (Nd l x c r)"
proof (induction t)
  case (Nd l a c r)
  then consider "x = a" | "x \<in> set (ino l)" | "x \<in> set (ino r)" by auto
  then show ?case
  proof cases
    case 1 then show ?thesis by (intro exI [of _ Top]) auto
  next
    case 2 then obtain C l' c' r' where "l = plug C (Nd l' x c' r')" using Nd.IH by blast
    then show ?thesis by (intro exI [of _ "capp C (CL a c r Top)"]) auto
  next
    case 3 then obtain C l' c' r' where "r = plug C (Nd l' x c' r')" using Nd.IH by blast
    then show ?thesis by (intro exI [of _ "capp C (CR l a c Top)"]) auto
  qed
qed simp

lemma rb_erase_remove1:
  assumes t: "is_tree h t" "rb_ok t" "x \<in> set (ino t)"
  shows "\<exists>h' t'. rb_erase x h = Some h' \<and> is_tree h' t' \<and> rb_ok t' \<and> ino t' = remove1 x (ino t)"
proof -
  obtain C l c r where C: "t = plug C (Nd l x c r)" using split_at [OF t(3)] by blast
  then have "remove1 x (ino t) = pre C @ ino l @ ino r @ post C" using t(1) by (auto simp: is_tree_plug remove1_append)
  then show ?thesis using erase_one_child [of h C l x c r] erase_two_children [of h C l x c r] t C by auto
qed

subsection \<open>Going through the tree\<close>

definition hd0 :: "nat list \<Rightarrow> nat" where
  "hd0 xs = (case xs of [] \<Rightarrow> 0 | x # _ \<Rightarrow> x)"

definition last0 :: "nat list \<Rightarrow> nat" where
  "last0 xs = (if xs = [] then 0 else last xs)"

lemma hd0_simps [simp]: "hd0 [] = 0" "hd0 (x # xs) = x" "hd0 (xs @ ys) = (if xs = [] then hd0 ys else hd0 xs)"
  by (auto simp: hd0_def split: list.split)

lemma last0_simps [simp]: "last0 [] = 0" "last0 (xs @ [x]) = x" "last0 (xs @ ys) = (if ys = [] then last0 xs else last0 ys)"
  by (auto simp: last0_def)

lemma ino_empty [simp]: "ino t = [] \<longleftrightarrow> t = Lf"
  by (cases t) auto

lemma leftmost_hd: "tree_at h p t \<Longrightarrow> t \<noteq> Lf \<Longrightarrow> leftmost (rt t) h = Some (hd0 (ino t))"
  using leftmost_at [of h p t] by auto

lemma rightmost_last: "tree_at h p t \<Longrightarrow> t \<noteq> Lf \<Longrightarrow> rightmost (rt t) h = Some (last0 (ino t))"
proof (induction t arbitrary: p)
  case (Nd l a c r)
  then show ?case using rt_zero [of h a r] by (cases "r = Lf") (auto simp: rightmost.simps [of a] last0_def)
qed simp

lemma climb_right_post: "is_tree h (plug C t) \<Longrightarrow> t \<noteq> Lf \<Longrightarrow> climb_right (rt t) h = Some (hd0 (post C))"
proof (induction C arbitrary: t)
  case Top
  then have "rb_parent h (rt t) = 0" by (cases t) (auto simp: is_tree_def)
  then show ?case by (simp add: climb_right.simps [of "rt t" h])
next
  case (CL a c r C)
  then have "rb_parent h (rt t) = a" "a \<noteq> 0" "rb_right h a = rt r" "rt r \<noteq> rt t"
    unfolding is_tree_plug by (cases t; cases r; auto)+
  then show ?case by (simp add: climb_right.simps [of "rt t" h])
next
  case (CR l a c C)
  then have "rb_parent h (rt t) = a" "a \<noteq> 0" "rb_right h a = rt t" unfolding is_tree_plug by (cases t; auto)+
  then show ?case using CR.IH [of "Nd l a c t"] CR.prems by (simp add: climb_right.simps [of "rt t" h])
qed

lemma climb_left_pre: "is_tree h (plug C t) \<Longrightarrow> t \<noteq> Lf \<Longrightarrow> climb_left (rt t) h = Some (last0 (pre C))"
proof (induction C arbitrary: t)
  case Top
  then have "rb_parent h (rt t) = 0" by (cases t) (auto simp: is_tree_def)
  then show ?case by (simp add: climb_left.simps [of "rt t" h])
next
  case (CR l a c C)
  then have "rb_parent h (rt t) = a" "a \<noteq> 0" "rb_left h a = rt l" "rt l \<noteq> rt t"
    unfolding is_tree_plug by (cases t; cases l; auto)+
  then show ?case by (simp add: climb_left.simps [of "rt t" h] last0_def)
next
  case (CL a c r C)
  then have "rb_parent h (rt t) = a" "a \<noteq> 0" "rb_left h a = rt t" unfolding is_tree_plug by (cases t; auto)+
  then show ?case using CL.IH [of "Nd t a c r"] CL.prems by (simp add: climb_left.simps [of "rt t" h])
qed

lemma rb_first_hd: "is_tree h t \<Longrightarrow> rb_first h = Some (hd0 (ino t))" "is_tree h t \<Longrightarrow> rb_last h = Some (last0 (ino t))"
  using leftmost_hd [of h 0 t] rightmost_last [of h 0 t] rt_zero [of h 0 t] by (auto simp: rb_first_def rb_last_def is_tree_def)

lemma rb_next_prev:
  assumes t: "is_tree h t" "ino t = xs @ x # ys"
  shows "rb_next x h = Some (hd0 ys)" "rb_prev x h = Some (last0 xs)"
proof -
  have d: "distinct (ino t)" using t(1) by (simp add: is_tree_def)
  have "x \<in> set (ino t)" using t(2) by simp
  then obtain C l c r where C: "t = plug C (Nd l x c r)" using split_at by blast
  have "(pre C @ ino l) @ x # (ino r @ post C) = xs @ x # ys" using t(2) C by simp
  then have xs: "xs = pre C @ ino l" "ys = ino r @ post C" using d C by (subst (asm) append_Cons_eq_iff; auto)+
  have tr: "tree_at h x l" "tree_at h x r" "x \<noteq> 0" "rb_left h x = rt l" "rb_right h x = rt r" using t(1) C by (auto simp: is_tree_plug)
  show "rb_next x h = Some (hd0 ys)"
    using climb_right_post [of h C "Nd l x c r"] leftmost_hd [OF tr(2)] rt_zero [OF tr(2)] t(1) C xs tr by (auto simp: rb_next_def)
  show "rb_prev x h = Some (last0 xs)"
    using climb_left_pre [of h C "Nd l x c r"] rightmost_last [OF tr(1)] rt_zero [OF tr(1)] t(1) C xs tr by (auto simp: rb_prev_def)
qed

subsection \<open>Empty places and the height\<close>

fun place_parent :: "place \<Rightarrow> nat" where
  "place_parent Root = 0"
| "place_parent (LeftOf n) = n"
| "place_parent (RightOf n) = n"

lemma place_ctx:
  assumes t: "is_tree h t" "get_link p h = 0" "p = Root \<or> place_parent p \<in> set (ino t)"
  shows "\<exists>C. t = plug C Lf \<and> cplace C = p \<and> cpar C = place_parent p"
proof (cases p)
  case Root
  then show ?thesis using t rt_zero [of h 0 t] by (intro exI [of _ Top]) (auto simp: is_tree_def)
next
  case (LeftOf q)
  then obtain C l c r where C: "t = plug C (Nd l q c r)" using split_at t(3) by fastforce
  then have "l = Lf" using t(1,2) LeftOf rt_zero [of h q l] by (auto simp: is_tree_plug)
  then show ?thesis using C LeftOf by (intro exI [of _ "CL q c r C"]) auto
next
  case (RightOf q)
  then obtain C l c r where C: "t = plug C (Nd l q c r)" using split_at t(3) by fastforce
  then have "r = Lf" using t(1,2) RightOf rt_zero [of h q r] by (auto simp: is_tree_plug)
  then show ?thesis using C RightOf by (intro exI [of _ "CR l q c C"]) auto
qed

fun height :: "shape \<Rightarrow> nat" where
  "height Lf = 0"
| "height (Nd l a c r) = Suc (max (height l) (height r))"

lemma height_bh: "rb_inv t \<Longrightarrow> height t \<le> 2 * bh t + (if col t = RB_RED then 1 else 0)"
  by (induction t) (auto split: if_splits)

lemma bh_size: "rb_inv t \<Longrightarrow> 2 ^ bh t \<le> length (ino t) + 1"
proof (induction t)
  case (Nd l a c r)
  then have "2 ^ bh l \<le> length (ino l) + 1" "2 ^ bh l \<le> length (ino r) + 1" by auto
  then show ?case by auto
qed simp

lemma height_size:
  assumes "rb_ok t"
  shows "2 ^ height t \<le> (length (ino t) + 1)\<^sup>2"
proof -
  have "height t \<le> 2 * bh t" using height_bh [of t] assms by (auto simp: rb_ok_def)
  then have "(2::nat) ^ height t \<le> 2 ^ (2 * bh t)" by (intro power_increasing) auto
  also have "\<dots> = (2 ^ bh t)\<^sup>2" by (simp add: power_mult [symmetric] mult.commute)
  also have "\<dots> \<le> (length (ino t) + 1)\<^sup>2" using bh_size [of t] assms by (intro power_mono) (auto simp: rb_ok_def)
  finally show ?thesis .
qed

subsection \<open>Correctness\<close>

lemma insert_at_link:
  assumes t: "is_tree h t" "rb_ok t" and x: "x \<noteq> 0" "x \<notin> set (ino t)"
    and p: "get_link p h = 0" "p = Root \<or> place_parent p \<in> set (ino t)"
  shows "\<exists>h' t' xs ys. rb_insert_color x (rb_link_node x (place_parent p) p h) = Some h' \<and> is_tree h' t' \<and> rb_ok t' \<and>
    ino t = xs @ ys \<and> ino t' = xs @ x # ys \<and>
    (case p of Root \<Rightarrow> xs @ ys = [] | LeftOf q \<Rightarrow> hd0 ys = q | RightOf q \<Rightarrow> last0 xs = q)"
proof -
  obtain C where C: "t = plug C Lf" "cplace C = p" "cpar C = place_parent p" using place_ctx [OF t(1) p] by blast
  then obtain h' t' where "rb_insert_color x (rb_link_node x (place_parent p) p h) = Some h'" "is_tree h' t'" "rb_ok t'" "ino t' = pre C @ x # post C"
    using insert_at_place [of h C x] t x by auto
  moreover have "case p of Root \<Rightarrow> pre C @ post C = [] | LeftOf q \<Rightarrow> hd0 (post C) = q | RightOf q \<Rightarrow> last0 (pre C) = q"
    using C(2) by (cases C) (auto simp: last0_def)
  ultimately show ?thesis using C(1) by (intro exI [of _ h'] exI [of _ t'] exI [of _ "pre C"] exI [of _ "post C"]) auto
qed

text \<open>A store with three nodes, 2 at the root.\<close>

definition three :: rb_heap where
  "three = \<lparr>rb_parent = (\<lambda>n. if n = 1 \<or> n = 3 then 2 else 0), rb_right = (\<lambda>n. if n = 2 then 3 else 0), rb_left = (\<lambda>n. if n = 2 then 1 else 0),
     rb_color = (\<lambda>n. if n = 2 then RB_BLACK else RB_RED), rb_node = 2\<rparr>"

definition three_shape :: shape where
  "three_shape = Nd (Nd Lf 1 RB_RED Lf) 2 RB_BLACK (Nd Lf 3 RB_RED Lf)"

lemma three_tree: "is_tree three three_shape" "rb_ok three_shape" "ino three_shape = [1, 2, 3]"
  by (auto simp: is_tree_def three_def three_shape_def rb_ok_def)

text \<open>C24: Linking a new node at an empty link of a red-black tree (\<^verbatim>\<open>rb_link_node\<close>) and calling \<^verbatim>\<open>rb_insert_color\<close> always
  returns: no null pointer is followed and the loop ends. The store then holds a red-black tree again (the root is black, no red node has a red child, all ways
  down have the same number of black nodes, parent pointers fit), and the order of the nodes is the old one with the new node just before the node whose left
  link was used, or just after the one whose right link was used.\<close>

theorem rb_insert_correct:
  assumes "is_tree h t" "rb_ok t" "x \<noteq> 0" "x \<notin> set (ino t)" "get_link p h = 0" "p = Root \<or> place_parent p \<in> set (ino t)"
  shows "\<exists>h' t' xs ys. rb_insert_color x (rb_link_node x (place_parent p) p h) = Some h' \<and> is_tree h' t' \<and> rb_ok t' \<and>
    ino t = xs @ ys \<and> ino t' = xs @ x # ys \<and>
    (case p of Root \<Rightarrow> xs @ ys = [] | LeftOf q \<Rightarrow> hd0 ys = q | RightOf q \<Rightarrow> last0 xs = q)"
  using assms by (rule insert_at_link)

theorem rb_insert_correct_witness:
  "\<exists>h' t' xs ys. rb_insert_color 4 (rb_link_node 4 3 (RightOf 3) three) = Some h' \<and> is_tree h' t' \<and> rb_ok t' \<and>
    ino three_shape = xs @ ys \<and> ino t' = xs @ 4 # ys \<and> last0 xs = 3"
  using rb_insert_correct [OF three_tree(1,2), of 4 "RightOf 3"] by (simp add: three_tree(3)) (simp add: three_def)

text \<open>C25: \<^verbatim>\<open>rb_erase\<close> of any node of a red-black tree always returns, and the store then holds a red-black tree with the other nodes
  in the same order.\<close>

theorem rb_erase_correct:
  assumes "is_tree h t" "rb_ok t" "x \<in> set (ino t)"
  shows "\<exists>h' t'. rb_erase x h = Some h' \<and> is_tree h' t' \<and> rb_ok t' \<and> ino t' = remove1 x (ino t)"
  using assms by (rule rb_erase_remove1)

theorem rb_erase_correct_witness:
  "\<exists>h' t'. rb_erase 2 three = Some h' \<and> is_tree h' t' \<and> rb_ok t' \<and> ino t' = [1, 3]"
  using rb_erase_correct [OF three_tree(1,2), of 2] by (simp add: three_tree(3))

text \<open>C39: \<^verbatim>\<open>rb_first\<close>, \<^verbatim>\<open>rb_last\<close>, \<^verbatim>\<open>rb_next\<close> and \<^verbatim>\<open>rb_prev\<close> give the ends of the order
  of the nodes and the neighbours in it, null at the ends: going on with \<^verbatim>\<open>rb_next\<close> from \<^verbatim>\<open>rb_first\<close> visits every node once, in order.\<close>

theorem rb_next_correct:
  assumes "is_tree h t"
  shows "rb_first h = Some (hd0 (ino t)) \<and> rb_last h = Some (last0 (ino t)) \<and>
    (\<forall>xs x ys. ino t = xs @ x # ys \<longrightarrow> rb_next x h = Some (hd0 ys) \<and> rb_prev x h = Some (last0 xs))"
  using rb_first_hd [OF assms] rb_next_prev [OF assms] by blast

theorem rb_next_correct_witness:
  "rb_first three = Some 1 \<and> rb_last three = Some 3 \<and> rb_next 1 three = Some 2 \<and> rb_next 3 three = Some 0 \<and> rb_prev 3 three = Some 2"
proof -
  note c = rb_next_correct [OF three_tree(1), unfolded three_tree(3)]
  note n = c [THEN conjunct2, THEN conjunct2, rule_format]
  show ?thesis using c n [of "[]" 1 "[2, 3]"] n [of "[1, 2]" 3 "[]"] by (simp add: last0_def)
qed

text \<open>The stores that insertions and removals lead to, with the nodes they hold.\<close>

inductive rb_reach :: "rb_heap \<Rightarrow> nat set \<Rightarrow> bool" where
  empty: "rb_node h = 0 \<Longrightarrow> rb_reach h {}"
| insert: "rb_reach h S \<Longrightarrow> x \<noteq> 0 \<Longrightarrow> x \<notin> S \<Longrightarrow> get_link p h = 0 \<Longrightarrow> p = Root \<or> place_parent p \<in> S \<Longrightarrow>
    rb_insert_color x (rb_link_node x (place_parent p) p h) = Some h' \<Longrightarrow> rb_reach h' (insert x S)"
| erase: "rb_reach h S \<Longrightarrow> x \<in> S \<Longrightarrow> rb_erase x h = Some h' \<Longrightarrow> rb_reach h' (S - {x})"

lemma reach_tree: "rb_reach h S \<Longrightarrow> \<exists>t. is_tree h t \<and> rb_ok t \<and> set (ino t) = S"
proof (induction rule: rb_reach.induct)
  case (empty h)
  then show ?case by (intro exI [of _ Lf]) (auto simp: is_tree_def rb_ok_def)
next
  case (insert h S x p h')
  then obtain t where t: "is_tree h t" "rb_ok t" "set (ino t) = S" by blast
  then show ?case using insert_at_link [OF t(1,2) insert.hyps(2), of p] insert.hyps by force
next
  case (erase h S x h')
  then obtain t where t: "is_tree h t" "rb_ok t" "set (ino t) = S" by blast
  moreover have "distinct (ino t)" using t by (simp add: is_tree_def)
  ultimately show ?case using rb_erase_remove1 [OF t(1,2), of x] erase.hyps by force
qed

text \<open>C26: Whatever insertions and removals have been done since the tree was empty, the store holds a red-black tree with exactly the nodes put in and
  not taken out, of height at most twice the binary logarithm of their number plus one.\<close>

theorem rb_reachable_balanced:
  assumes "rb_reach h S"
  shows "\<exists>t. is_tree h t \<and> rb_ok t \<and> set (ino t) = S \<and> finite S \<and> 2 ^ height t \<le> (card S + 1)\<^sup>2"
proof -
  obtain t where t: "is_tree h t" "rb_ok t" "set (ino t) = S" using reach_tree [OF assms] by blast
  then have "length (ino t) = card S" using distinct_card [of "ino t"] by (simp add: is_tree_def)
  then show ?thesis using t height_size [of t] by auto
qed

theorem rb_reachable_balanced_witness:
  "\<exists>t h. rb_insert_color 7 (rb_link_node 7 0 Root (three\<lparr>rb_node := 0\<rparr>)) = Some h \<and> is_tree h t \<and> rb_ok t \<and>
    set (ino t) = {7} \<and> 2 ^ height t \<le> (card {7::nat} + 1)\<^sup>2"
proof -
  have e: "rb_reach (three\<lparr>rb_node := 0\<rparr>) {}" by (rule rb_reach.empty) simp
  have "is_tree (three\<lparr>rb_node := 0\<rparr>) Lf" "rb_ok Lf" by (simp_all add: is_tree_def rb_ok_def)
  then obtain h where h: "rb_insert_color 7 (rb_link_node 7 0 Root (three\<lparr>rb_node := 0\<rparr>)) = Some h"
    using insert_at_link [of "three\<lparr>rb_node := 0\<rparr>" Lf 7 Root] by auto
  then have "rb_reach h {7}" using rb_reach.insert [OF e, of 7 Root] by simp
  from rb_reachable_balanced [OF this] show ?thesis using h by blast
qed

end
