(* ===== verification/Poller.thy ===== *)
theory Poller imports RBTree "HOL-Library.Product_Lexorder" begin

text \<open>
  The poller of \<^verbatim>\<open>kernel/poller.c\<close>: the table of registered nodes, the deadlines kept in a list and a red-black tree, the timer, the pipe
  of removed nodes and the result queue. Intrusive lists are lists of node addresses; \<open>None\<close> is an invalid pointer or a list or tree operation on a
  node that is not where the code expects it. Results of system calls, allocations and callbacks are arguments, but for \<^verbatim>\<open>timerfd_settime\<close> and
  the removal of a descriptor from \<^verbatim>\<open>epoll\<close>, which are taken to succeed: the code does not look at their results.
\<close>

subsection \<open>Data\<close>

datatype pd_op = PD_OP_READ | PD_OP_WRITE | PD_OP_LISTEN | PD_OP_CONNECT | PD_OP_EVENT | PD_OP_NOTIFY | PD_OP_TIMER

datatype pr_state = PR_ST_SUCCESS | PR_ST_FINISHED | PR_ST_ERROR | PR_ST_DELETED | PR_ST_MODIFIED | PR_ST_STOPPED

datatype errno = EOK | EBADF | EMFILE | EINVAL | EEXIST | ENOENT | ENOMEM | EAGAIN | ETIMEDOUT | ESYS nat

record timespec =
  tv_sec :: int
  tv_nsec :: int

record poller_data =
  operation :: pd_op
  pd_fd :: int
  pd_context :: nat
  message :: nat

record poller_node =
  pn_state :: pr_state
  pn_error :: errno
  pn_data :: poller_data
  in_rbtree :: bool
  removed :: bool
  events :: nat
  timeout :: timespec
  pn_res :: nat

text \<open>An entry of the table of nodes: null, \<^verbatim>\<open>POLLER_NODE_ERROR\<close> or an address.\<close>

datatype slot = NULL | POLLER_NODE_ERROR | Node nat

text \<open>\<open>timer\<close> is the time the timer descriptor is set to, \<open>epoll\<close> the node registered for a descriptor; a null pointer in the pipe asks the thread to stop.\<close>

record poller =
  max_open_files :: nat
  store :: "nat \<Rightarrow> poller_node"
  nodes :: "nat \<Rightarrow> slot"
  timeo_tree :: rb_heap
  tree_first :: nat
  timeo_list :: "nat list"
  no_timeo_list :: "nat list"
  timer :: "timespec option"
  epoll :: "int \<Rightarrow> nat option"
  pipe :: "nat list"
  results :: "nat list"
  stopped :: bool
  stopping :: bool

definition upd :: "nat \<Rightarrow> (poller_node \<Rightarrow> poller_node) \<Rightarrow> poller \<Rightarrow> poller" where
  "upd n f p = p\<lparr>store := (store p)(n := f (store p n))\<rparr>"

abbreviation fd_of :: "poller \<Rightarrow> nat \<Rightarrow> int" where
  "fd_of p n \<equiv> pd_fd (pn_data (store p n))"

abbreviation deadline :: "poller \<Rightarrow> nat \<Rightarrow> timespec" where
  "deadline p n \<equiv> timeout (store p n)"

definition timeout_cmp :: "timespec \<Rightarrow> timespec \<Rightarrow> int" where
  "timeout_cmp a b = (let ret = tv_sec a - tv_sec b in if ret = 0 then tv_nsec a - tv_nsec b else ret)"

subsection \<open>Timers in the list and the tree\<close>

text \<open>The search for the place of a new node, and whether only left turns were taken.\<close>

partial_function (option) tree_walk :: "(nat \<Rightarrow> timespec) \<Rightarrow> timespec \<Rightarrow> rb_heap \<Rightarrow> place \<Rightarrow> nat \<Rightarrow> bool \<Rightarrow> (place \<times> nat \<times> bool) option" where
  "tree_walk dl t h p parent first =
     (let n = get_link p h in
      if n = 0 then Some (p, parent, first)
      else if timeout_cmp t (dl n) < 0 then tree_walk dl t h (LeftOf n) n first
      else tree_walk dl t h (RightOf n) n False)"

definition tree_insert :: "nat \<Rightarrow> poller \<Rightarrow> poller option" where
  "tree_insert node p = do {
     (link, parent, first) \<leftarrow> tree_walk (deadline p) (deadline p node) (timeo_tree p) Root 0 True;
     let p = (if first then p\<lparr>tree_first := node\<rparr> else p);
     let p = upd node (\<lambda>x. x\<lparr>in_rbtree := True\<rparr>) p;
     h \<leftarrow> rb_insert_color node (rb_link_node node parent link (timeo_tree p));
     Some (p\<lparr>timeo_tree := h\<rparr>) }"

definition tree_erase :: "nat \<Rightarrow> poller \<Rightarrow> poller option" where
  "tree_erase node p = do {
     first \<leftarrow> (if node = tree_first p then rb_next node (timeo_tree p) else Some (tree_first p));
     h \<leftarrow> rb_erase node (timeo_tree p);
     Some (upd node (\<lambda>x. x\<lparr>in_rbtree := False\<rparr>) (p\<lparr>tree_first := first, timeo_tree := h\<rparr>)) }"

text \<open>\<^verbatim>\<open>list_del\<close> of a node in one of the two lists. \<open>None\<close> is a node that is in neither of them: it is in the result queue, whose entries are linked
  through the same field, and the code would unlink it there without the lock of the queue, or it has been handed out already.\<close>

definition list_del_node :: "nat \<Rightarrow> poller \<Rightarrow> poller option" where
  "list_del_node node p =
     (if node \<in> set (timeo_list p) then Some (p\<lparr>timeo_list := remove1 node (timeo_list p)\<rparr>)
      else if node \<in> set (no_timeo_list p) then Some (p\<lparr>no_timeo_list := remove1 node (no_timeo_list p)\<rparr>)
      else None)"

definition unlink_node :: "nat \<Rightarrow> poller \<Rightarrow> poller option" where
  "unlink_node node p = (if in_rbtree (store p node) then tree_erase node p else list_del_node node p)"

text \<open>\<^verbatim>\<open>timerfd_settime\<close> with an absolute time, zero of which disarms the timer; the times that reach it are normalised when the time spans of the callers are.\<close>

definition set_timerfd :: "timespec \<Rightarrow> poller \<Rightarrow> poller" where
  "set_timerfd t p = p\<lparr>timer := (if tv_sec t = 0 \<and> tv_nsec t = 0 then None else Some t)\<rparr>"

text \<open>The first half of \<^verbatim>\<open>__poller_insert_node\<close>: the end of the list, or the tree.\<close>

definition place_node :: "nat \<Rightarrow> poller \<Rightarrow> poller option" where
  "place_node node p =
     (if timeo_list p = [] \<or> timeout_cmp (deadline p node) (deadline p (last (timeo_list p))) \<ge> 0
      then Some (p\<lparr>timeo_list := timeo_list p @ [node]\<rparr>) else tree_insert node p)"

text \<open>The second half: the timer is set when the new node is the first of all.\<close>

definition rearm :: "nat \<Rightarrow> poller \<Rightarrow> poller option" where
  "rearm node p =
     (if timeo_list p \<noteq> [] \<and> node = hd (timeo_list p) then
        Some (if tree_first p = 0 \<or> timeout_cmp (deadline p node) (deadline p (tree_first p)) < 0 then set_timerfd (deadline p node) p else p)
      else if node = tree_first p then
        (case timeo_list p of [] \<Rightarrow> None
         | e # _ \<Rightarrow> Some (if timeout_cmp (deadline p node) (deadline p e) < 0 then set_timerfd (deadline p node) p else p))
      else Some p)"

definition insert_node :: "nat \<Rightarrow> poller \<Rightarrow> poller option" where
  "insert_node node p = place_node node p \<bind> rearm node"

definition set_timer :: "poller \<Rightarrow> poller" where
  "set_timer p =
     (let node = (if timeo_list p \<noteq> [] then hd (timeo_list p) else 0);
          node = (if tree_first p \<noteq> 0 \<and> (node = 0 \<or> timeout_cmp (deadline p (tree_first p)) (deadline p node) < 0) then tree_first p else node)
      in set_timerfd (if node \<noteq> 0 then deadline p node else \<lparr>tv_sec = 0, tv_nsec = 0\<rparr>) p)"

definition add_time :: "timespec \<Rightarrow> int \<Rightarrow> int \<Rightarrow> timespec" where
  "add_time now sec nsec =
     (let t = \<lparr>tv_sec = tv_sec now + sec, tv_nsec = tv_nsec now + nsec\<rparr> in
      if tv_nsec t \<ge> 1000000000 then \<lparr>tv_sec = tv_sec t + 1, tv_nsec = tv_nsec t - 1000000000\<rparr> else t)"

definition node_set_timeout :: "timespec \<Rightarrow> int \<Rightarrow> timespec" where
  "node_set_timeout now ms = add_time now (ms div 1000) (ms mod 1000 * 1000000)"

subsection \<open>Results\<close>

text \<open>A node is appended to the result queue; it must not be in it already.\<close>

definition add_result :: "nat \<Rightarrow> poller \<Rightarrow> poller option" where
  "add_result n p = (if n \<in> set (results p) then None else Some (p\<lparr>results := results p @ [n]\<rparr>))"

definition finish :: "nat \<Rightarrow> pr_state \<Rightarrow> errno \<Rightarrow> poller \<Rightarrow> poller option" where
  "finish n st e p = add_result n (upd n (\<lambda>x. x\<lparr>pn_error := e, pn_state := st\<rparr>) p)"

definition remove_node :: "nat \<Rightarrow> poller \<Rightarrow> (bool \<times> poller) option" where
  "remove_node node p =
     (if removed (store p node) then Some (True, p)
      else if fd_of p node < 0 then None
      else do {
        p \<leftarrow> unlink_node node (p\<lparr>nodes := (nodes p)(nat (fd_of p node) := NULL)\<rparr>);
        Some (False, p\<lparr>epoll := (epoll p)(fd_of p node := None)\<rparr>) })"

subsection \<open>Registering and removing\<close>

definition EPOLLIN :: nat where "EPOLLIN = 1"

definition EPOLLOUT :: nat where "EPOLLOUT = 4"

definition EPOLLET :: nat where "EPOLLET = 2 ^ 31"

text \<open>The events of an operation and whether a node for results is needed; the other operations run off the end of the function.\<close>

definition data_get_event :: "poller_data \<Rightarrow> (nat \<times> bool) option" where
  "data_get_event d =
     (case operation d of
        PD_OP_READ \<Rightarrow> Some (EPOLLIN + EPOLLET, message d \<noteq> 0)
      | PD_OP_LISTEN \<Rightarrow> Some (EPOLLIN + EPOLLET, True)
      | PD_OP_CONNECT \<Rightarrow> Some (EPOLLOUT + EPOLLET, False)
      | _ \<Rightarrow> None)"

definition init_node :: "poller_data \<Rightarrow> nat \<Rightarrow> nat \<Rightarrow> int \<Rightarrow> timespec \<Rightarrow> poller_node \<Rightarrow> poller_node" where
  "init_node d ev res ms now x =
     (let x = x\<lparr>pn_data := d, events := ev, in_rbtree := False, removed := False, pn_res := res\<rparr>
      in if ms \<ge> 0 then x\<lparr>timeout := node_set_timeout now ms\<rparr> else x)"

definition bad_fd :: "int \<Rightarrow> poller \<Rightarrow> bool" where
  "bad_fd fd p \<longleftrightarrow> fd < 0 \<or> int (max_open_files p) \<le> fd"

definition fd_error :: "int \<Rightarrow> errno" where
  "fd_error fd = (if fd < 0 then EBADF else EMFILE)"

definition enlist :: "nat \<Rightarrow> int \<Rightarrow> poller \<Rightarrow> poller option" where
  "enlist node ms p = (if ms \<ge> 0 then insert_node node p else Some (p\<lparr>no_timeo_list := no_timeo_list p @ [node]\<rparr>))"

text \<open>\<open>res\<close> and \<open>node\<close> are what \<^verbatim>\<open>malloc\<close> returns, 0 for a failure; \<open>ctl\<close> is the error of \<^verbatim>\<open>epoll_ctl\<close>.\<close>

definition poller_add :: "poller_data \<Rightarrow> int \<Rightarrow> nat \<Rightarrow> nat \<Rightarrow> timespec \<Rightarrow> errno \<Rightarrow> poller \<Rightarrow> (errno \<times> poller) option" where
  "poller_add d ms res node now ctl p =
     (if bad_fd (pd_fd d) p then Some (fd_error (pd_fd d), p)
      else do {
        (ev, need_res) \<leftarrow> data_get_event d;
        if need_res \<and> res = 0 \<or> node = 0 then Some (ENOMEM, p)
        else (let p = upd node (init_node d ev (if need_res then res else 0) ms now) p in
          (case nodes p (nat (pd_fd d)) of
             NULL \<Rightarrow>
               if ctl \<noteq> EOK then Some (ctl, p)
               else do {
                 p \<leftarrow> enlist node ms (p\<lparr>epoll := (epoll p)(pd_fd d := Some node)\<rparr>);
                 Some (EOK, p\<lparr>nodes := (nodes p)(nat (pd_fd d) := Node node)\<rparr>) }
           | POLLER_NODE_ERROR \<Rightarrow> Some (EINVAL, p)
           | Node _ \<Rightarrow> Some (EEXIST, p))) })"

text \<open>A removed node goes to the result queue when the poller is stopped, otherwise through the pipe to the poller thread.\<close>

definition retire :: "nat \<Rightarrow> pr_state \<Rightarrow> poller \<Rightarrow> poller option" where
  "retire node st p =
     (let p = upd node (\<lambda>x. x\<lparr>pn_error := EOK, pn_state := st\<rparr>) p in
      if stopped p then add_result node p
      else Some ((upd node (\<lambda>x. x\<lparr>removed := True\<rparr>) p)\<lparr>pipe := pipe p @ [node]\<rparr>))"

definition poller_del :: "int \<Rightarrow> poller \<Rightarrow> (errno \<times> poller) option" where
  "poller_del fd p =
     (if bad_fd fd p then Some (fd_error fd, p)
      else case nodes p (nat fd) of
        NULL \<Rightarrow> Some (ENOENT, p)
      | POLLER_NODE_ERROR \<Rightarrow> None
      | Node node \<Rightarrow> do {
          p \<leftarrow> unlink_node node (p\<lparr>nodes := (nodes p)(nat fd := NULL)\<rparr>);
          p \<leftarrow> retire node PR_ST_DELETED (p\<lparr>epoll := (epoll p)(fd := None)\<rparr>);
          Some (EOK, p) })"

definition poller_mod :: "poller_data \<Rightarrow> int \<Rightarrow> nat \<Rightarrow> nat \<Rightarrow> timespec \<Rightarrow> poller \<Rightarrow> (errno \<times> poller) option" where
  "poller_mod d ms res node now p =
     (if bad_fd (pd_fd d) p then Some (fd_error (pd_fd d), p)
      else do {
        (ev, need_res) \<leftarrow> data_get_event d;
        if need_res \<and> res = 0 \<or> node = 0 then Some (ENOMEM, p)
        else (let p = upd node (init_node d ev (if need_res then res else 0) ms now) p in
          (case nodes p (nat (pd_fd d)) of
             NULL \<Rightarrow> Some (ENOENT, p)
           | POLLER_NODE_ERROR \<Rightarrow> Some (EINVAL, p)
           | Node old \<Rightarrow> do {
               p \<leftarrow> unlink_node old p;
               p \<leftarrow> retire old PR_ST_MODIFIED p;
               p \<leftarrow> enlist node ms p;
               Some (EOK, p\<lparr>nodes := (nodes p)(nat (pd_fd d) := Node node)\<rparr>) })) })"

definition poller_set_timeout :: "int \<Rightarrow> int \<Rightarrow> timespec \<Rightarrow> poller \<Rightarrow> (errno \<times> poller) option" where
  "poller_set_timeout fd ms now p =
     (if bad_fd fd p then Some (fd_error fd, p)
      else case nodes p (nat fd) of
        NULL \<Rightarrow> Some (ENOENT, p)
      | POLLER_NODE_ERROR \<Rightarrow> None
      | Node node \<Rightarrow> do {
          p \<leftarrow> unlink_node node p;
          p \<leftarrow> enlist node ms (if ms \<ge> 0 then upd node (\<lambda>x. x\<lparr>timeout := node_set_timeout now ms\<rparr>) p else p);
          Some (EOK, p) })"

definition poller_add_timer :: "nat \<Rightarrow> timespec \<Rightarrow> nat \<Rightarrow> timespec \<Rightarrow> poller \<Rightarrow> (errno \<times> poller) option" where
  "poller_add_timer ctxt value node now p =
     (if node = 0 then Some (ENOMEM, p)
      else do {
        p \<leftarrow> insert_node node (upd node (\<lambda>x. x\<lparr>pn_data := \<lparr>operation = PD_OP_TIMER, pd_fd = -1, pd_context = ctxt, message = 0\<rparr>,
          in_rbtree := False, removed := False, pn_res := 0, timeout := add_time now (tv_sec value) (tv_nsec value)\<rparr>) p);
        Some (EOK, p) })"

subsection \<open>Events\<close>

definition handle_connect :: "nat \<Rightarrow> errno \<Rightarrow> poller \<Rightarrow> poller option" where
  "handle_connect node err p = do {
     (gone, p) \<leftarrow> remove_node node p;
     if gone then Some p
     else if err = EOK then finish node PR_ST_FINISHED EOK p else finish node PR_ST_ERROR err p }"

text \<open>The nodes whose time is over: from the front of the list, then from the tree; each leaves the table and \<^verbatim>\<open>epoll\<close>.\<close>

definition drop_fd :: "nat \<Rightarrow> poller \<Rightarrow> poller" where
  "drop_fd n p = (if fd_of p n \<ge> 0 then p\<lparr>nodes := (nodes p)(nat (fd_of p n) := NULL), epoll := (epoll p)(fd_of p n := None)\<rparr> else p)"

fun expire_list :: "timespec \<Rightarrow> nat list \<Rightarrow> poller \<Rightarrow> nat list \<times> poller" where
  "expire_list now [] p = ([], p)"
| "expire_list now (n # ns) p =
     (if timeout_cmp (deadline p n) now < 0
      then (let p = drop_fd n p; (out, p) = expire_list now ns (p\<lparr>timeo_list := ns\<rparr>) in (n # out, p))
      else ([], p))"

partial_function (option) expire_tree :: "timespec \<Rightarrow> poller \<Rightarrow> (nat list \<times> poller) option" where
  "expire_tree now p =
     (let n = tree_first p in
      if n \<noteq> 0 \<and> timeout_cmp (deadline p n) now < 0
      then do {
        let p = drop_fd n p;
        first \<leftarrow> rb_next n (timeo_tree p);
        h \<leftarrow> rb_erase n (timeo_tree p);
        (out, p) \<leftarrow> expire_tree now (p\<lparr>tree_first := first, timeo_tree := h\<rparr>);
        Some (n # out, p) }
      else Some ([], p))"

fun deliver :: "nat list \<Rightarrow> pr_state \<Rightarrow> errno \<Rightarrow> poller \<Rightarrow> poller option" where
  "deliver [] st e p = Some p"
| "deliver (n # ns) st e p = do { p \<leftarrow> finish n st e p; deliver ns st e p }"

text \<open>The code releases the mutex once the due nodes are out of the list and the tree, before it passes them on. They are then in no structure that another
  call can find them by, so the two halves are one step here.\<close>

definition handle_timeout :: "timespec \<Rightarrow> poller \<Rightarrow> poller option" where
  "handle_timeout now p = do {
     let (out1, p) = expire_list now (timeo_list p) p;
     (out2, p) \<leftarrow> expire_tree now p;
     deliver (out1 @ out2) PR_ST_ERROR ETIMEDOUT p }"

text \<open>Reading \<open>k\<close> pointers from the pipe.\<close>

fun add_results :: "nat list \<Rightarrow> poller \<Rightarrow> (bool \<times> poller) option" where
  "add_results [] p = Some (False, p)"
| "add_results (n # ns) p =
     (if n \<noteq> 0 then do { p \<leftarrow> add_result n p; add_results ns p }
      else do { (_, p) \<leftarrow> add_results ns p; Some (True, p) })"

definition handle_pipe :: "nat \<Rightarrow> poller \<Rightarrow> (bool \<times> poller) option" where
  "handle_pipe k p = (if pipe p = [] then None else add_results (take k (pipe p)) (p\<lparr>pipe := drop k (pipe p)\<rparr>))"

text \<open>What \<^verbatim>\<open>malloc\<close>, \<^verbatim>\<open>create_message\<close> and the \<^verbatim>\<open>append\<close> of the message answer, and how many bytes the latter takes.\<close>

record append_call =
  ac_res :: nat
  ac_msg :: nat
  ac_ret :: int
  ac_n :: int
  ac_errno :: errno

definition pass_result :: "nat \<Rightarrow> nat \<Rightarrow> poller \<Rightarrow> poller option" where
  "pass_result node result p =
     (let res = pn_res (store p node) in
      if res = 0 then None
      else add_result res (upd res (\<lambda>x. x\<lparr>pn_data := (pn_data (store p node))\<lparr>message := result\<rparr>, pn_error := EOK, pn_state := PR_ST_SUCCESS, pn_res := 0\<rparr>) p))"

definition append_message :: "nat \<Rightarrow> append_call \<Rightarrow> poller \<Rightarrow> (int \<times> poller) option" where
  "append_message node a p =
     (if message (pn_data (store p node)) = 0 \<and> (ac_res a = 0 \<or> ac_msg a = 0) then Some (-1, p)
      else do {
        let p = (if message (pn_data (store p node)) = 0
                 then upd node (\<lambda>x. x\<lparr>pn_data := (pn_data x)\<lparr>message := ac_msg a\<rparr>, pn_res := ac_res a\<rparr>) p else p);
        if ac_ret a > 0 then do {
          p \<leftarrow> pass_result node (message (pn_data (store p node))) p;
          Some (ac_ret a, upd node (\<lambda>x. x\<lparr>pn_data := (pn_data x)\<lparr>message := 0\<rparr>, pn_res := 0\<rparr>) p) }
        else Some (ac_ret a, p) })"

text \<open>Reading until no data is left, the stream ends or something fails: the bytes left over and the error, or \<open>None\<close> for \<^verbatim>\<open>EAGAIN\<close>. A list of answers that
  ends stands for \<^verbatim>\<open>EAGAIN\<close>, or for an append that fails.\<close>

fun append_loop :: "int \<Rightarrow> nat \<Rightarrow> append_call list \<Rightarrow> poller \<Rightarrow> (int \<times> errno \<times> poller) option" where
  "append_loop nleft node [] p = Some (-1, EOK, p)"
| "append_loop nleft node (a # as) p = do {
     (ret, p) \<leftarrow> append_message node a p;
     let nleft = (if ret \<ge> 0 then nleft - ac_n a else -1);
     if nleft > 0 then append_loop nleft node as p else Some (nleft, ac_errno a, p) }"

datatype read_answer = ReadError errno | ReadBytes nat "append_call list"

fun read_loop :: "nat \<Rightarrow> read_answer list \<Rightarrow> poller \<Rightarrow> ((int \<times> errno) option \<times> poller) option" where
  "read_loop node [] p = Some (None, p)"
| "read_loop node (ReadError e # rs) p = Some (if e = EAGAIN then None else Some (-1, e), p)"
| "read_loop node (ReadBytes k as # rs) p =
     (if k = 0 then Some (Some (0, EOK), p)
      else do {
        (nleft, e, p) \<leftarrow> append_loop (int k) node as p;
        if nleft < 0 then Some (Some (nleft, e), p) else read_loop node rs p })"

definition handle_read :: "nat \<Rightarrow> read_answer list \<Rightarrow> poller \<Rightarrow> poller option" where
  "handle_read node rs p = do {
     (out, p) \<leftarrow> read_loop node rs p;
     (case out of None \<Rightarrow> Some p
      | Some (nleft, e) \<Rightarrow> do {
          (gone, p) \<leftarrow> remove_node node p;
          if gone then Some p
          else if nleft = 0 then finish node PR_ST_FINISHED EOK p else finish node PR_ST_ERROR e p }) }"

text \<open>An answer of \<^verbatim>\<open>accept\<close> and of the callback, with the next result node and the error number at that time.\<close>

datatype accept_answer = AcceptError errno | Refused errno | Accepted nat nat errno

fun accept_loop :: "nat \<Rightarrow> accept_answer list \<Rightarrow> poller \<Rightarrow> (errno option \<times> poller) option" where
  "accept_loop node [] p = Some (None, p)"
| "accept_loop node (AcceptError e # as) p = Some (if e = EAGAIN then None else Some e, p)"
| "accept_loop node (Refused e # as) p = Some (Some e, p)"
| "accept_loop node (Accepted result nres e # as) p = do {
     p \<leftarrow> pass_result node result p;
     let p = upd node (\<lambda>x. x\<lparr>pn_res := nres\<rparr>) p;
     if nres = 0 then Some (Some e, p) else accept_loop node as p }"

definition handle_listen :: "nat \<Rightarrow> accept_answer list \<Rightarrow> poller \<Rightarrow> poller option" where
  "handle_listen node as p = do {
     (out, p) \<leftarrow> accept_loop node as p;
     (case out of None \<Rightarrow> Some p
      | Some e \<Rightarrow> do { (gone, p) \<leftarrow> remove_node node p; if gone then Some p else finish node PR_ST_ERROR e p }) }"

text \<open>A round of the poller thread. The timer event carries a null pointer, the pipe event the pointer 1; \<open>k\<close> is how much the next read of the pipe gets.\<close>

datatype answers = Answers "read_answer list" errno

datatype event = EvTimer | EvPipe | EvNode nat answers

definition handle_node :: "nat \<Rightarrow> answers \<Rightarrow> poller \<Rightarrow> poller option" where
  "handle_node n an p =
     (case an of Answers rs err \<Rightarrow>
        (case operation (pn_data (store p n)) of
           PD_OP_READ \<Rightarrow> handle_read n rs p
         | PD_OP_CONNECT \<Rightarrow> handle_connect n err p
         | _ \<Rightarrow> Some p))"

fun event_loop :: "timespec \<Rightarrow> bool \<Rightarrow> (event \<times> nat) list \<Rightarrow> poller \<Rightarrow> poller option" where
  "event_loop now has_pipe [] p = Some p"
| "event_loop now has_pipe ((ev, k) # evs) p = do {
     p \<leftarrow> (case ev of EvNode n an \<Rightarrow> handle_node n an p | _ \<Rightarrow> Some p);
     let has_pipe = (has_pipe \<or> ev = EvPipe);
     (stop, p) \<leftarrow> (if has_pipe then handle_pipe k p else Some (False, p));
     if stop then Some p
     else do { p \<leftarrow> handle_timeout now p; event_loop now has_pipe evs p } }"

definition thread_round :: "timespec \<Rightarrow> (event \<times> nat) list \<Rightarrow> poller \<Rightarrow> poller option" where
  "thread_round now evs p = event_loop now False evs (set_timer p)"

subsection \<open>Life cycle\<close>

definition POLLER_NODES_MAX :: nat where "POLLER_NODES_MAX = 65536"

definition empty_heap :: rb_heap where
  "empty_heap = \<lparr>rb_parent = (\<lambda>_. 0), rb_right = (\<lambda>_. 0), rb_left = (\<lambda>_. 0), rb_color = (\<lambda>_. RB_RED), rb_node = 0\<rparr>"

text \<open>The descriptors are what the system calls return, \<open>None\<close> after a failure, and \<open>ok\<close> says that every other call succeeds; a descriptor beyond the table is
  written out of bounds. The inner \<open>None\<close> is the null pointer.\<close>

definition poller_create :: "nat \<Rightarrow> nat option \<Rightarrow> nat option \<Rightarrow> bool \<Rightarrow> (nat \<Rightarrow> poller_node) \<Rightarrow> poller option option" where
  "poller_create maxfiles pfd tfd ok mem =
     (let n = (if maxfiles = 0 then POLLER_NODES_MAX else maxfiles) in
      case (pfd, tfd) of
        (Some e, Some t) \<Rightarrow>
          if \<not> ok then Some None
          else if n \<le> t \<or> n \<le> e then None
          else Some (Some \<lparr>max_open_files = n, store = mem, nodes = (\<lambda>_. NULL)(t := POLLER_NODE_ERROR, e := POLLER_NODE_ERROR),
            timeo_tree = empty_heap, tree_first = 0, timeo_list = [], no_timeo_list = [], timer = None, epoll = (\<lambda>_. None), pipe = [], results = [],
            stopped = True, stopping = True\<rparr>)
      | _ \<Rightarrow> Some None)"

text \<open>The ends of the pipe, when it could be opened and registered, and whether the thread could be created.\<close>

definition poller_start :: "(nat \<times> nat) option \<Rightarrow> bool \<Rightarrow> poller \<Rightarrow> (errno \<times> poller) option" where
  "poller_start pp thread p =
     (case pp of None \<Rightarrow> Some (ESYS 0, p)
      | Some (rd, wr) \<Rightarrow>
          if \<not> thread then Some (ESYS 1, p\<lparr>stopping := True\<rparr>)
          else if max_open_files p \<le> rd \<or> max_open_files p \<le> wr then None
          else Some (EOK, p\<lparr>stopping := False, nodes := (nodes p)(rd := POLLER_NODE_ERROR, wr := POLLER_NODE_ERROR), stopped := False\<rparr>))"

text \<open>\<^verbatim>\<open>poller_stop\<close> once the thread has ended: the pipe is emptied, the tree is taken apart from its root, and every node is passed on.\<close>

partial_function (option) clear_tree :: "poller \<Rightarrow> poller option" where
  "clear_tree p =
     (let n = rb_node (timeo_tree p) in
      if n = 0 then Some p
      else do { h \<leftarrow> rb_erase n (timeo_tree p); clear_tree (p\<lparr>timeo_tree := h, timeo_list := n # timeo_list p\<rparr>) })"

fun stop_nodes :: "nat list \<Rightarrow> poller \<Rightarrow> poller option" where
  "stop_nodes [] p = Some p"
| "stop_nodes (n # ns) p = do {
     p \<leftarrow> add_result n (p\<lparr>timeo_list := ns\<rparr>);
     p \<leftarrow> finish n PR_ST_STOPPED EOK (drop_fd n p);
     stop_nodes ns p }"

definition poller_stop_joined :: "nat \<Rightarrow> nat \<Rightarrow> poller \<Rightarrow> poller option" where
  "poller_stop_joined rd wr p = do {
     let p = p\<lparr>stopping := True, stopped := True, nodes := (nodes p)(rd := NULL, wr := NULL)\<rparr>;
     (_, p) \<leftarrow> (if pipe p = [] then Some (False, p) else handle_pipe (length (pipe p)) p);
     p \<leftarrow> clear_tree (p\<lparr>tree_first := 0\<rparr>);
     let p = p\<lparr>timeo_list := no_timeo_list p @ timeo_list p, no_timeo_list := []\<rparr>;
     stop_nodes (timeo_list p) p }"

subsection \<open>The result queue\<close>

record poller_queue =
  res_max :: nat
  res_cnt :: nat
  nonblock :: bool
  get_list :: "nat list"
  put_list :: "nat list"

definition queue_create :: "nat \<Rightarrow> poller_queue" where
  "queue_create maxlen = \<lparr>res_max = maxlen, res_cnt = 0, nonblock = False, get_list = [], put_list = []\<rparr>"

text \<open>\<open>None\<close> is a call that waits. The comparison with \<open>res_max - 1\<close> is in \<^verbatim>\<open>size_t\<close>.\<close>

definition full :: "poller_queue \<Rightarrow> bool" where
  "full q \<longleftrightarrow> res_max q \<noteq> 0 \<and> res_max q - 1 < res_cnt q"

definition queue_put :: "bool \<Rightarrow> nat \<Rightarrow> poller_queue \<Rightarrow> poller_queue option" where
  "queue_put stop n q = (if full q \<and> \<not> stop then None else Some (q\<lparr>put_list := put_list q @ [n], res_cnt := res_cnt q + 1\<rparr>))"

definition queue_swap :: "poller_queue \<Rightarrow> (nat \<times> poller_queue) option" where
  "queue_swap q = (if res_cnt q = 0 \<and> \<not> nonblock q then None
     else Some (res_cnt q, q\<lparr>get_list := put_list q, put_list := get_list q, res_cnt := 0\<rparr>))"

definition queue_get :: "poller_queue \<Rightarrow> (nat option \<times> poller_queue) option" where
  "queue_get q = do {
     (cnt, q) \<leftarrow> (if get_list q \<noteq> [] then Some (1, q) else queue_swap q);
     if cnt > 0 then (case get_list q of [] \<Rightarrow> None | n # ns \<Rightarrow> Some (Some n, q\<lparr>get_list := ns\<rparr>)) else Some (None, q) }"

subsection \<open>The timer queue\<close>

definition key :: "timespec \<Rightarrow> int \<times> int" where
  "key t = (tv_sec t, tv_nsec t)"

lemma timeout_cmp_less: "timeout_cmp a b < 0 \<longleftrightarrow> key a < key b"
  by (auto simp: timeout_cmp_def key_def Let_def less_prod_def)

abbreviation dl :: "poller \<Rightarrow> nat \<Rightarrow> int \<times> int" where
  "dl p n \<equiv> key (deadline p n)"

text \<open>The tree and the list are sorted by deadline, \<open>tree_first\<close> is the first node of the tree, no node is in two of the three places, and the flag of
  each node says where it is.\<close>

definition queue :: "poller \<Rightarrow> shape \<Rightarrow> bool" where
  "queue p t \<longleftrightarrow> is_tree (timeo_tree p) t \<and> rb_ok t \<and> sorted (map (dl p) (ino t)) \<and> tree_first p = hd0 (ino t) \<and> sorted (map (dl p) (timeo_list p)) \<and>
     distinct (ino t @ timeo_list p @ no_timeo_list p) \<and> 0 \<notin> set (timeo_list p) \<union> set (no_timeo_list p) \<and>
     (\<forall>n\<in>set (ino t). in_rbtree (store p n)) \<and> (\<forall>n\<in>set (timeo_list p) \<union> set (no_timeo_list p). \<not> in_rbtree (store p n))"

definition timed :: "poller \<Rightarrow> shape \<Rightarrow> nat set" where
  "timed p t = set (ino t) \<union> set (timeo_list p)"

definition listed :: "poller \<Rightarrow> shape \<Rightarrow> nat set" where
  "listed p t = timed p t \<union> set (no_timeo_list p)"

text \<open>A time that \<^verbatim>\<open>timerfd_settime\<close> does not take for a request to disarm.\<close>

definition armable :: "timespec \<Rightarrow> bool" where
  "armable t \<longleftrightarrow> tv_sec t \<noteq> 0 \<or> tv_nsec t \<noteq> 0"

text \<open>The timer goes off no later than the first deadline.\<close>

definition armed :: "poller \<Rightarrow> shape \<Rightarrow> bool" where
  "armed p t \<longleftrightarrow> (\<forall>n\<in>timed p t. armable (deadline p n) \<and> (\<exists>a. timer p = Some a \<and> key a \<le> dl p n))"

text \<open>Nothing but the places of nodes, the timer and the flag of one node has changed.\<close>

definition rest :: "nat \<Rightarrow> poller \<Rightarrow> poller \<Rightarrow> bool" where
  "rest n p p' \<longleftrightarrow> max_open_files p' = max_open_files p \<and> nodes p' = nodes p \<and> epoll p' = epoll p \<and> pipe p' = pipe p \<and> results p' = results p \<and>
     stopped p' = stopped p \<and> (\<exists>b. store p' = (store p)(n := store p n\<lparr>in_rbtree := b\<rparr>))"

lemma flag_self [simp]: "\<exists>b. s = s(n := s n\<lparr>in_rbtree := b\<rparr>)"
  by (intro exI [of _ "in_rbtree (s n)"]) simp

lemma restD: "rest n p p' \<Longrightarrow> deadline p' m = deadline p m" "rest n p p' \<Longrightarrow> pn_data (store p' m) = pn_data (store p m)"
  "rest n p p' \<Longrightarrow> removed (store p' m) = removed (store p m)" "rest n p p' \<Longrightarrow> m \<noteq> n \<Longrightarrow> store p' m = store p m"
  by (auto simp: rest_def split: if_splits)

lemma pupd_sel [simp]:
  "max_open_files (upd n f p) = max_open_files p" "nodes (upd n f p) = nodes p" "timeo_tree (upd n f p) = timeo_tree p" "tree_first (upd n f p) = tree_first p"
  "timeo_list (upd n f p) = timeo_list p" "no_timeo_list (upd n f p) = no_timeo_list p" "timer (upd n f p) = timer p" "epoll (upd n f p) = epoll p"
  "pipe (upd n f p) = pipe p" "results (upd n f p) = results p" "stopped (upd n f p) = stopped p" "store (upd n f p) = (store p)(n := f (store p n))"
  by (simp_all add: upd_def)

lemma ino_nonzero: "is_tree h t \<Longrightarrow> 0 \<notin> set (ino t)"
  using tree_at_nonzero [of h 0 t] by (simp add: is_tree_def)

text \<open>The walk ends at the place that keeps the order, and remembers whether it is the first one.\<close>

lemma tree_walk_place:
  assumes "is_tree h (plug C t)" "sorted (map (\<lambda>n. key (f n)) (ino t))"
    "\<forall>n\<in>set (pre C). key (f n) \<le> key d" "\<forall>n\<in>set (post C). key d < key (f n)" "first = (pre C = [])"
  shows "\<exists>D. plug D Lf = plug C t \<and> tree_walk f d h (cplace C) (cpar C) first = Some (cplace D, cpar D, pre D = []) \<and>
    (\<forall>n\<in>set (pre D). key (f n) \<le> key d) \<and> (\<forall>n\<in>set (post D). key d < key (f n))"
  using assms
proof (induction t arbitrary: C first)
  case Lf
  then have "get_link (cplace C) h = 0" using get_cplace [of h C] by (simp add: is_tree_plug)
  then show ?case using Lf by (intro exI [of _ C]) (simp add: tree_walk.simps)
next
  case (Nd l a c r)
  then have a: "get_link (cplace C) h = a" "a \<noteq> 0" using get_cplace [of h C] by (auto simp: is_tree_plug)
  have s: "sorted (map (\<lambda>n. key (f n)) (ino l))" "sorted (map (\<lambda>n. key (f n)) (ino r))"
    "\<forall>n\<in>set (ino l). key (f n) \<le> key (f a)" "\<forall>n\<in>set (ino r). key (f a) \<le> key (f n)"
    using Nd.prems(2) by (auto simp: sorted_append)
  show ?case
  proof (cases "key d < key (f a)")
    case True
    then have "tree_walk f d h (cplace C) (cpar C) first = tree_walk f d h (LeftOf a) a first"
      using a by (subst tree_walk.simps) (simp add: timeout_cmp_less)
    then show ?thesis using Nd.IH(1) [of "CL a c r C" first] Nd.prems s True by fastforce
  next
    case False
    then have "tree_walk f d h (cplace C) (cpar C) first = tree_walk f d h (RightOf a) a False"
      using a by (subst tree_walk.simps) (simp add: timeout_cmp_less)
    then show ?thesis using Nd.IH(2) [of "CR l a c C" False] Nd.prems s False by fastforce
  qed
qed

lemma tree_insert_ok:
  assumes q: "is_tree (timeo_tree p) t" "rb_ok t" "sorted (map (dl p) (ino t))" "tree_first p = hd0 (ino t)" and n: "n \<noteq> 0" "n \<notin> set (ino t)"
  shows "\<exists>h t' xs ys. tree_insert n p = Some ((upd n (\<lambda>x. x\<lparr>in_rbtree := True\<rparr>) p)\<lparr>tree_first := hd0 (ino t'), timeo_tree := h\<rparr>) \<and>
    is_tree h t' \<and> rb_ok t' \<and> ino t = xs @ ys \<and> ino t' = xs @ n # ys \<and> (\<forall>m\<in>set xs. dl p m \<le> dl p n) \<and> (\<forall>m\<in>set ys. dl p n < dl p m)"
proof -
  obtain D where D: "plug D Lf = t" "tree_walk (deadline p) (deadline p n) (timeo_tree p) Root 0 True = Some (cplace D, cpar D, pre D = [])"
    "\<forall>m\<in>set (pre D). dl p m \<le> dl p n" "\<forall>m\<in>set (post D). dl p n < dl p m"
    using tree_walk_place [of "timeo_tree p" Top t "deadline p" "deadline p n" True] q by auto
  obtain h t' where h: "rb_insert_color n (rb_link_node n (cpar D) (cplace D) (timeo_tree p)) = Some h" "is_tree h t'" "rb_ok t'" "ino t' = pre D @ n # post D"
    using insert_at_place [of "timeo_tree p" D n] q n D(1) by auto
  have "ino t = pre D @ post D" using D(1) by auto
  moreover from this have "(if pre D = [] then n else tree_first p) = hd0 (ino t')" using h(4) q(4) by auto
  moreover have "tree_insert n p = Some ((upd n (\<lambda>x. x\<lparr>in_rbtree := True\<rparr>) p)\<lparr>tree_first := (if pre D = [] then n else tree_first p), timeo_tree := h\<rparr>)"
    using D(2) h(1) by (auto simp: tree_insert_def upd_def)
  ultimately show ?thesis using h D by (intro exI [of _ h] exI [of _ t'] exI [of _ "pre D"] exI [of _ "post D"]) simp
qed

lemma tree_erase_ok:
  assumes q: "is_tree (timeo_tree p) t" "rb_ok t" "tree_first p = hd0 (ino t)" and n: "n \<in> set (ino t)"
  shows "\<exists>h t'. tree_erase n p = Some (upd n (\<lambda>x. x\<lparr>in_rbtree := False\<rparr>) (p\<lparr>tree_first := hd0 (ino t'), timeo_tree := h\<rparr>)) \<and>
    is_tree h t' \<and> rb_ok t' \<and> ino t' = remove1 n (ino t)"
proof -
  obtain h t' where h: "rb_erase n (timeo_tree p) = Some h" "is_tree h t'" "rb_ok t'" "ino t' = remove1 n (ino t)"
    using rb_erase_remove1 [OF q(1,2) n] by blast
  have "(if n = tree_first p then rb_next n (timeo_tree p) else Some (tree_first p)) = Some (hd0 (ino t'))"
  proof (cases "n = tree_first p")
    case True
    then obtain ys where "ino t = [] @ n # ys" using q(3) n by (cases "ino t") auto
    then show ?thesis using rb_next_prev(1) [OF q(1)] h(4) True by simp
  next
    case False
    then show ?thesis using q(3) n h(4) by (cases "ino t") auto
  qed
  then show ?thesis using h(1-3) unfolding h(4) [symmetric] by (intro exI [of _ h] exI [of _ t']) (simp add: tree_erase_def)
qed

lemma queueI:
  assumes "is_tree (timeo_tree p) t" "rb_ok t" "sorted (map (dl p) (ino t))" "tree_first p = hd0 (ino t)" "sorted (map (dl p) (timeo_list p))"
    "distinct (ino t @ timeo_list p @ no_timeo_list p)" "0 \<notin> set (timeo_list p) \<union> set (no_timeo_list p)"
    "\<And>n. n \<in> set (ino t) \<Longrightarrow> in_rbtree (store p n)" "\<And>n. n \<in> set (timeo_list p) \<union> set (no_timeo_list p) \<Longrightarrow> \<not> in_rbtree (store p n)"
  shows "queue p t"
  using assms unfolding queue_def by blast

lemma queueD:
  assumes "queue p t"
  shows "is_tree (timeo_tree p) t" "rb_ok t" "sorted (map (dl p) (ino t))" "tree_first p = hd0 (ino t)" "sorted (map (dl p) (timeo_list p))"
    "distinct (ino t)" "distinct (timeo_list p)" "distinct (no_timeo_list p)" "distinct (ino t @ timeo_list p @ no_timeo_list p)"
    "0 \<notin> set (timeo_list p) \<union> set (no_timeo_list p)" "0 \<notin> set (ino t)"
    "n \<in> set (ino t) \<Longrightarrow> in_rbtree (store p n)" "n \<in> set (timeo_list p) \<union> set (no_timeo_list p) \<Longrightarrow> \<not> in_rbtree (store p n)"
  using assms ino_nonzero [of "timeo_tree p" t] unfolding queue_def by auto

text \<open>Setting the flag of a node changes no deadline.\<close>

lemma dl_upd [simp]: "dl (upd n (\<lambda>x. x\<lparr>in_rbtree := b\<rparr>) p) = dl p"
  by (auto simp: fun_eq_iff)

text \<open>Taking a node out of the queue.\<close>

lemma unlink_ok:
  assumes q: "queue p t" and n: "n \<in> listed p t"
  shows "\<exists>p' t'. unlink_node n p = Some p' \<and> queue p' t' \<and> timed p' t' = timed p t - {n} \<and> listed p' t' = listed p t - {n} \<and>
    rest n p p' \<and> timer p' = timer p \<and> \<not> in_rbtree (store p' n)"
proof (cases "in_rbtree (store p n)")
  case True
  then have nt: "n \<in> set (ino t)" using n queueD(13) [OF q, of n] by (auto simp: listed_def timed_def)
  obtain h t' where e: "tree_erase n p = Some (upd n (\<lambda>x. x\<lparr>in_rbtree := False\<rparr>) (p\<lparr>tree_first := hd0 (ino t'), timeo_tree := h\<rparr>))"
    "is_tree h t'" "rb_ok t'" "ino t' = remove1 n (ino t)" using tree_erase_ok [OF queueD(1,2,4) [OF q] nt] by blast
  let ?p = "upd n (\<lambda>x. x\<lparr>in_rbtree := False\<rparr>) (p\<lparr>tree_first := hd0 (ino t'), timeo_tree := h\<rparr>)"
  have r: "rest n p ?p" by (auto simp: rest_def)
  have "set (ino t') = set (ino t) - {n}" using e(4) queueD(6) [OF q] by (simp add: set_remove1_eq)
  moreover have "n \<notin> set (timeo_list p) \<union> set (no_timeo_list p)" using nt queueD(9) [OF q] by auto
  moreover have "queue ?p t'"
  proof (rule queueI)
    show "sorted (map (dl ?p) (ino t'))" "sorted (map (dl ?p) (timeo_list ?p))" unfolding dl_upd using queueD(3,5) [OF q] e(4) by (simp_all add: sorted_map_remove1)
  qed (use e(2-4) queueD [OF q] nt in auto)
  ultimately show ?thesis using True e(1) r by (intro exI [of _ ?p] exI [of _ t']) (auto simp: unlink_node_def timed_def listed_def)
next
  case False
  then have nt: "n \<notin> set (ino t)" using queueD(12) [OF q, of n] by auto
  show ?thesis
  proof (cases "n \<in> set (timeo_list p)")
    case True
    let ?p = "p\<lparr>timeo_list := remove1 n (timeo_list p)\<rparr>"
    have r: "rest n p ?p" by (simp add: rest_def)
    have "n \<notin> set (no_timeo_list p)" using True queueD(9) [OF q] by auto
    moreover have "queue ?p t"
      by (rule queueI) (use queueD [OF q] in \<open>auto simp: sorted_map_remove1 dest: in_set_remove1\<close>)
    ultimately show ?thesis using True False nt r queueD(7) [OF q]
      by (intro exI [of _ ?p] exI [of _ t]) (auto simp: unlink_node_def list_del_node_def timed_def listed_def)
  next
    case no: False
    then have nn: "n \<in> set (no_timeo_list p)" using n nt by (auto simp: listed_def timed_def)
    let ?p = "p\<lparr>no_timeo_list := remove1 n (no_timeo_list p)\<rparr>"
    have r: "rest n p ?p" by (simp add: rest_def)
    have "queue ?p t" by (rule queueI) (use queueD [OF q] in \<open>auto dest: in_set_remove1\<close>)
    then show ?thesis using nn no False nt r queueD(8) [OF q]
      by (intro exI [of _ ?p] exI [of _ t]) (auto simp: unlink_node_def list_del_node_def timed_def listed_def)
  qed
qed

text \<open>Putting a node into the queue.\<close>

lemma set_timerfd_sel [simp]:
  "max_open_files (set_timerfd t p) = max_open_files p" "nodes (set_timerfd t p) = nodes p" "timeo_tree (set_timerfd t p) = timeo_tree p" "tree_first (set_timerfd t p) = tree_first p"
  "timeo_list (set_timerfd t p) = timeo_list p" "no_timeo_list (set_timerfd t p) = no_timeo_list p" "epoll (set_timerfd t p) = epoll p"
  "pipe (set_timerfd t p) = pipe p" "results (set_timerfd t p) = results p" "stopped (set_timerfd t p) = stopped p" "store (set_timerfd t p) = store p"
  "armable t \<Longrightarrow> timer (set_timerfd t p) = Some t"
  by (auto simp: set_timerfd_def armable_def)

lemma queue_timer [simp]: "queue (set_timerfd a p) t = queue p t" "timed (set_timerfd a p) t = timed p t" "listed (set_timerfd a p) t = listed p t"
  "rest n p (set_timerfd a p') = rest n p p'"
  by (auto simp: queue_def timed_def listed_def rest_def)

lemma place_ok:
  assumes q: "queue p t" and n: "n \<noteq> 0" "n \<notin> listed p t" "\<not> in_rbtree (store p n)"
  shows "\<exists>p' t'. place_node n p = Some p' \<and> queue p' t' \<and> timed p' t' = insert n (timed p t) \<and> no_timeo_list p' = no_timeo_list p \<and>
    rest n p p' \<and> timer p' = timer p \<and> timeo_list p' \<noteq> []"
proof (cases "timeo_list p = [] \<or> timeout_cmp (deadline p n) (deadline p (last (timeo_list p))) \<ge> 0")
  case True
  let ?p = "p\<lparr>timeo_list := timeo_list p @ [n]\<rparr>"
  have n': "n \<notin> set (ino t)" "n \<notin> set (timeo_list p)" "n \<notin> set (no_timeo_list p)" using n by (auto simp: listed_def timed_def)
  have "\<forall>m\<in>set (timeo_list p). dl p m \<le> dl p n"
  proof (cases "timeo_list p" rule: rev_cases)
    case (snoc ys y)
    then have "dl p y \<le> dl p n" using True timeout_cmp_less [of "deadline p n" "deadline p y"] by (simp add: not_less)
    then show ?thesis using queueD(5) [OF q] snoc by (auto simp: sorted_append)
  qed simp
  then have "sorted (map (dl ?p) (timeo_list ?p))" using queueD(5) [OF q] by (auto simp: sorted_append)
  then have "queue ?p t" by (intro queueI) (use queueD [OF q] n n' in auto)
  then show ?thesis using True by (intro exI [of _ ?p] exI [of _ t]) (auto simp: place_node_def timed_def rest_def)
next
  case False
  have n': "n \<notin> set (ino t)" "n \<notin> set (timeo_list p)" "n \<notin> set (no_timeo_list p)" using n by (auto simp: listed_def timed_def)
  obtain h t' xs ys where i: "tree_insert n p = Some ((upd n (\<lambda>x. x\<lparr>in_rbtree := True\<rparr>) p)\<lparr>tree_first := hd0 (ino t'), timeo_tree := h\<rparr>)"
    "is_tree h t'" "rb_ok t'" "ino t = xs @ ys" "ino t' = xs @ n # ys" "\<forall>m\<in>set xs. dl p m \<le> dl p n" "\<forall>m\<in>set ys. dl p n < dl p m"
    using tree_insert_ok [OF queueD(1-4) [OF q] n(1) n'(1)] by blast
  let ?p = "(upd n (\<lambda>x. x\<lparr>in_rbtree := True\<rparr>) p)\<lparr>tree_first := hd0 (ino t'), timeo_tree := h\<rparr>"
  have d: "dl ?p = dl p" by (auto simp: fun_eq_iff)
  have "sorted (map (dl p) (xs @ n # ys))" using queueD(3) [OF q] i(4,6,7) by (auto simp: sorted_append intro: order.strict_implies_order order.trans)
  then have "queue ?p t'"
    by (intro queueI, unfold d) (use queueD [OF q] i n n' in auto)
  moreover have "rest n p ?p" by (auto simp: rest_def)
  moreover have "timed ?p t' = insert n (timed p t)" using i(4,5) by (auto simp: timed_def)
  ultimately show ?thesis using False i(1) by (intro exI [of _ ?p] exI [of _ t']) (auto simp: place_node_def)
qed

text \<open>The first node of the list or of the tree has the first deadline.\<close>

lemma hd_least: "queue p t \<Longrightarrow> m \<in> set (timeo_list p) \<Longrightarrow> dl p (hd (timeo_list p)) \<le> dl p m"
  by (drule queueD(5)) (cases "timeo_list p", auto)

lemma tree_first_least: "queue p t \<Longrightarrow> m \<in> set (ino t) \<Longrightarrow> dl p (tree_first p) \<le> dl p m \<and> tree_first p \<in> set (ino t)"
  using queueD(3,4) [of p t] by (cases "ino t") auto

lemma tree_first_zero: "queue p t \<Longrightarrow> tree_first p = 0 \<longleftrightarrow> t = Lf"
  using queueD(4,11) [of p t] by (cases "ino t") auto

lemma armed_step:
  assumes "armed p t" "rest n p p'" "timed p' t' = insert n (timed p t)" "timer p' = timer p" "armable (deadline p' n)"
  shows "m \<in> timed p' t' \<Longrightarrow> m \<noteq> n \<Longrightarrow> dl p' m \<le> dl p' n \<Longrightarrow> armed p' t'"
    and "(\<And>m. m \<in> timed p' t' \<Longrightarrow> dl p' n \<le> dl p' m) \<Longrightarrow> armed (set_timerfd (deadline p' n) p') t'"
  using assms restD(1) [OF assms(2)] unfolding armed_def by (fastforce, auto)

text \<open>A node in the queue that is neither the first of the list nor of the tree comes after one of them; otherwise the other first node decides.\<close>

lemma rearm_ok:
  assumes q: "queue p t" "timeo_list p \<noteq> []" and n: "n \<in> timed p t"
    and later: "\<And>m. m \<in> timed p t \<Longrightarrow> m \<noteq> n \<Longrightarrow> dl p m \<le> dl p n \<Longrightarrow> armed p t"
    and first: "(\<And>m. m \<in> timed p t \<Longrightarrow> dl p n \<le> dl p m) \<Longrightarrow> armed (set_timerfd (deadline p n) p) t"
  shows "\<exists>p'. rearm n p = Some p' \<and> armed p' t \<and> (p' = p \<or> p' = set_timerfd (deadline p n) p)"
proof -
  let ?hd = "hd (timeo_list p)" and ?tf = "tree_first p"
  obtain e es where e: "timeo_list p = e # es" using q(2) by (cases "timeo_list p") auto
  have dis: "set (ino t) \<inter> set (timeo_list p) = {}" using queueD(9) [OF q(1)] by auto
  have tf: "t \<noteq> Lf \<Longrightarrow> ?tf \<in> set (ino t)" using tree_first_least [OF q(1)] rt_in_ino by blast
  have least: "armed (set_timerfd (deadline p n) p) t" if "dl p n \<le> dl p e" "t \<noteq> Lf \<Longrightarrow> dl p n \<le> dl p ?tf"
    using that hd_least [OF q(1)] tree_first_least [OF q(1)] e unfolding timed_def
    by (intro first) (metis UnE empty_iff ino.simps(1) list.sel(1) list.set(1) order.trans timed_def)
  consider (list) "n = e" | (tree) "n \<noteq> e" "n = ?tf" | (after) "n \<noteq> e" "n \<noteq> ?tf" by blast
  then show ?thesis
  proof cases
    case list
    then show ?thesis
      using e tf dis least later [of ?tf] timeout_cmp_less [of "deadline p n" "deadline p ?tf"]
      by (cases "t = Lf") (auto simp: rearm_def timed_def tree_first_zero [OF q(1)] not_less)
  next
    case tree
    then show ?thesis
      using e least later [of e] timeout_cmp_less [of "deadline p n" "deadline p e"] by (auto simp: rearm_def timed_def not_less)
  next
    case after
    have "armed p t"
    proof (cases "n \<in> set (ino t)")
      case True then show ?thesis using tree_first_least [OF q(1) True] after by (intro later [of ?tf]) (auto simp: timed_def)
    next
      case False
      then have "n \<in> set (timeo_list p)" using n by (auto simp: timed_def)
      then show ?thesis using hd_least [OF q(1)] e after by (intro later [of e]) (auto simp: timed_def)
    qed
    then show ?thesis using after e by (simp add: rearm_def)
  qed
qed

lemma insert_ok:
  assumes q: "queue p t" "armed p t" and n: "n \<noteq> 0" "n \<notin> listed p t" "\<not> in_rbtree (store p n)" "armable (deadline p n)"
  shows "\<exists>p' t'. insert_node n p = Some p' \<and> queue p' t' \<and> armed p' t' \<and> timed p' t' = insert n (timed p t) \<and> no_timeo_list p' = no_timeo_list p \<and> rest n p p'"
proof -
  obtain p1 t1 where p1: "place_node n p = Some p1" "queue p1 t1" "timed p1 t1 = insert n (timed p t)" "no_timeo_list p1 = no_timeo_list p"
    "rest n p p1" "timer p1 = timer p" "timeo_list p1 \<noteq> []" using place_ok [OF q(1) n(1-3)] by blast
  have ok: "armable (deadline p1 n)" using n(4) restD(1) [OF p1(5)] by simp
  note step = armed_step [OF q(2) p1(5,3,6) ok]
  have "\<exists>p'. rearm n p1 = Some p' \<and> armed p' t1 \<and> (p' = p1 \<or> p' = set_timerfd (deadline p1 n) p1)"
    using p1(3) by (intro rearm_ok [OF p1(2,7)] step) auto
  then show ?thesis using p1 unfolding insert_node_def by (metis bind.bind_lunit queue_timer set_timerfd_sel(6))
qed

end
