(* ===== verification/PollerRun.thy ===== *)
theory PollerRun imports Poller begin

text \<open>
  The states of the poller that calls and events lead to. \<open>core\<close> is the invariant of the timer queue, the pipe and the result nodes, \<open>tab\<close> that of the
  table of nodes; one lemma per operation shows that it returns and keeps both. Then the properties of all reachable states, and the faults of the
  event loop, of \<^verbatim>\<open>poller_mod\<close> and of \<^verbatim>\<open>poller_stop\<close>.
\<close>

subsection \<open>The invariant\<close>

text \<open>The nodes the poller still looks at: the listed ones and those on their way through the pipe.\<close>

definition owned :: "poller \<Rightarrow> shape \<Rightarrow> nat set" where
  "owned p t = listed p t \<union> (set (pipe p) - {0})"

text \<open>Every address the poller may still write to or hand out.\<close>

definition refs :: "poller \<Rightarrow> shape \<Rightarrow> nat set" where
  "refs p t = owned p t \<union> set (results p) \<union> (\<lambda>n. pn_res (store p n)) ` owned p t"

definition res_ok :: "poller_node \<Rightarrow> bool" where
  "res_ok x \<longleftrightarrow> (operation (pn_data x) = PD_OP_READ \<and> message (pn_data x) \<noteq> 0 \<longrightarrow> pn_res x \<noteq> 0)"

definition retired :: "poller \<Rightarrow> shape \<Rightarrow> bool" where
  "retired p t \<longleftrightarrow> distinct (filter (\<lambda>n. n \<noteq> 0) (pipe p) @ results p) \<and> (set (pipe p) \<union> set (results p)) \<inter> listed p t = {} \<and> 0 \<notin> set (results p) \<and>
     (\<forall>n\<in>set (pipe p). n \<noteq> 0 \<longrightarrow> removed (store p n)) \<and> (\<forall>n\<in>listed p t. \<not> removed (store p n))"

definition spare :: "poller \<Rightarrow> shape \<Rightarrow> bool" where
  "spare p t \<longleftrightarrow> (\<forall>n\<in>owned p t. res_ok (store p n) \<and> (pn_res (store p n) \<noteq> 0 \<longrightarrow> pn_res (store p n) \<notin> owned p t \<union> set (results p))) \<and>
     (\<forall>n\<in>owned p t. \<forall>m\<in>owned p t. pn_res (store p n) = pn_res (store p m) \<and> pn_res (store p n) \<noteq> 0 \<longrightarrow> n = m)"

definition core :: "poller \<Rightarrow> shape \<Rightarrow> bool" where
  "core p t \<longleftrightarrow> queue p t \<and> armed p t \<and> retired p t \<and> spare p t"

text \<open>The table of nodes and the listed nodes agree, and the descriptors are within the table.\<close>

definition tab :: "(nat \<Rightarrow> slot) \<Rightarrow> nat set \<Rightarrow> (nat \<Rightarrow> int) \<Rightarrow> nat \<Rightarrow> bool" where
  "tab N L F M \<longleftrightarrow> (\<forall>k n. N k = Node n \<longrightarrow> n \<in> L \<and> F n = int k) \<and> (\<forall>n\<in>L. F n \<ge> 0 \<longrightarrow> N (nat (F n)) = Node n \<and> F n < int M)"

abbreviation table :: "poller \<Rightarrow> shape \<Rightarrow> bool" where
  "table p t \<equiv> tab (nodes p) (listed p t) (fd_of p) (max_open_files p)"

text \<open>A node that nothing refers to, and whose own result node nothing refers to.\<close>

definition detached :: "poller \<Rightarrow> shape \<Rightarrow> nat \<Rightarrow> bool" where
  "detached p t n \<longleftrightarrow> n \<noteq> 0 \<and> n \<notin> refs p t \<and> res_ok (store p n) \<and>
     (pn_res (store p n) \<noteq> 0 \<longrightarrow> pn_res (store p n) \<notin> refs p t \<and> pn_res (store p n) \<noteq> n)"

lemma coreD: "core p t \<Longrightarrow> queue p t" "core p t \<Longrightarrow> armed p t" "core p t \<Longrightarrow> retired p t" "core p t \<Longrightarrow> spare p t"
  by (auto simp: core_def)

lemma core_indep [simp]:
  "listed (p\<lparr>nodes := N\<rparr>) t = listed p t" "listed (p\<lparr>epoll := E\<rparr>) t = listed p t" "core (p\<lparr>nodes := N\<rparr>) t = core p t" "core (p\<lparr>epoll := E\<rparr>) t = core p t"
  "detached (p\<lparr>nodes := N\<rparr>) t n = detached p t n" "detached (p\<lparr>epoll := E\<rparr>) t n = detached p t n"
  "timed (p\<lparr>nodes := N\<rparr>) t = timed p t" "timed (p\<lparr>epoll := E\<rparr>) t = timed p t"
  by (auto simp: core_def queue_def armed_def retired_def spare_def owned_def listed_def timed_def detached_def refs_def)

lemma listed_upd [simp]: "timed (upd n f p) t = timed p t" "listed (upd n f p) t = listed p t" "owned (upd n f p) t = owned p t"
  by (auto simp: listed_def timed_def owned_def)

lemma pcore_cong:
  assumes "timeo_tree p' = timeo_tree p" "tree_first p' = tree_first p" "timeo_list p' = timeo_list p" "no_timeo_list p' = no_timeo_list p" "timer p' = timer p"
    "pipe p' = pipe p" "results p' = results p" "\<And>m. m \<in> owned p t \<Longrightarrow> store p' m = store p m"
  shows "core p' t = core p t" "owned p' t = owned p t" "refs p' t = refs p t"
proof -
  have s: "timed p' t = timed p t" "listed p' t = listed p t" "owned p' t = owned p t" using assms by (simp_all add: timed_def listed_def owned_def)
  then show "owned p' t = owned p t" "refs p' t = refs p t" using assms(7,8) by (auto simp: refs_def)
  have q: "store p' m = store p m" if "m \<in> listed p t \<or> m \<in> set (ino t) \<or> m \<in> set (timeo_list p) \<or> m \<in> set (no_timeo_list p) \<or> m \<in> set (pipe p) \<and> m \<noteq> 0" for m
    using that assms(8) by (auto simp: owned_def listed_def timed_def)
  have m: "map (dl p') (ino t) = map (dl p) (ino t)" "map (dl p') (timeo_list p) = map (dl p) (timeo_list p)" using q by auto
  have f: "(\<forall>n\<in>set (ino t). in_rbtree (store p' n)) = (\<forall>n\<in>set (ino t). in_rbtree (store p n))"
    "(\<forall>n\<in>set (timeo_list p) \<union> set (no_timeo_list p). \<not> in_rbtree (store p' n)) = (\<forall>n\<in>set (timeo_list p) \<union> set (no_timeo_list p). \<not> in_rbtree (store p n))"
    using q by (intro ball_cong refl, simp, intro ball_cong refl, metis Un_iff)
  have "queue p' t = queue p t" unfolding queue_def assms(1-4) m f ..
  moreover have "armed p' t = armed p t"
  proof -
    have "store p' m = store p m" if "m \<in> timed p t" for m using that q by (auto simp: timed_def)
    then show ?thesis unfolding armed_def s assms(5) by (simp cong: ball_cong)
  qed
  moreover have "retired p' t = retired p t"
  proof -
    have "(\<forall>n\<in>set (pipe p). n \<noteq> 0 \<longrightarrow> removed (store p' n)) = (\<forall>n\<in>set (pipe p). n \<noteq> 0 \<longrightarrow> removed (store p n))"
      "(\<forall>n\<in>listed p t. \<not> removed (store p' n)) = (\<forall>n\<in>listed p t. \<not> removed (store p n))" using q by (metis (no_types), metis)
    then show ?thesis unfolding retired_def s assms(6,7) by simp
  qed
  moreover have "spare p' t = spare p t" unfolding spare_def s assms(7) using assms(8) by (simp cong: ball_cong)
  ultimately show "core p' t = core p t" by (simp add: core_def)
qed

lemma refsI: "n \<in> listed p t \<Longrightarrow> n \<in> refs p t" "n \<in> owned p t \<Longrightarrow> n \<in> refs p t" "n \<in> set (results p) \<Longrightarrow> n \<in> refs p t"
  "n \<in> set (pipe p) \<Longrightarrow> n \<noteq> 0 \<Longrightarrow> n \<in> refs p t" "n \<in> owned p t \<Longrightarrow> pn_res (store p n) \<in> refs p t"
  by (auto simp: refs_def owned_def)

lemma core_upd: "n \<notin> owned p t \<Longrightarrow> core (upd n f p) t = core p t" "n \<notin> owned p t \<Longrightarrow> refs (upd n f p) t = refs p t"
  by (rule pcore_cong; auto)+

lemma detachedD: "detached p t n \<Longrightarrow> n \<noteq> 0 \<and> n \<notin> refs p t \<and> n \<notin> owned p t \<and> n \<notin> listed p t \<and> n \<notin> set (pipe p) \<and> n \<notin> set (results p)"
  by (auto simp: detached_def dest: refsI)

lemma detached_upd:
  "detached p t n \<Longrightarrow> pn_res (f (store p n)) = pn_res (store p n) \<Longrightarrow> pn_data (f (store p n)) = pn_data (store p n) \<Longrightarrow> detached (upd n f p) t n"
  by (frule detachedD) (simp add: detached_def core_upd(2) res_ok_def)

subsubsection \<open>What each part of an operation keeps\<close>

lemma rest_owned: "rest n p p' \<Longrightarrow> pn_res (store p' m) = pn_res (store p m)" "rest n p p' \<Longrightarrow> res_ok (store p' m) = res_ok (store p m)"
  "rest n p p' \<Longrightarrow> pipe p' = pipe p" "rest n p p' \<Longrightarrow> results p' = results p"
  by (auto simp: rest_def res_ok_def split: if_splits)

lemma core_unlink:
  assumes c: "core p t" and n: "n \<in> listed p t"
  shows "\<exists>p' t'. unlink_node n p = Some p' \<and> core p' t' \<and> listed p' t' = listed p t - {n} \<and> timed p' t' = timed p t - {n} \<and> rest n p p' \<and> timer p' = timer p \<and>
    detached p' t' n \<and> \<not> in_rbtree (store p' n) \<and> \<not> removed (store p' n)"
proof -
  obtain p' t' where u: "unlink_node n p = Some p'" "queue p' t'" "timed p' t' = timed p t - {n}" "listed p' t' = listed p t - {n}"
    "rest n p p'" "timer p' = timer p" "\<not> in_rbtree (store p' n)" using unlink_ok [OF coreD(1) [OF c] n] by blast
  note r = restD [OF u(5)] rest_owned [OF u(5)]
  have nr: "n \<notin> set (pipe p)" "n \<notin> set (results p)" "n \<noteq> 0" "\<not> removed (store p n)"
    using coreD(3) [OF c] n queueD(10,11) [OF coreD(1) [OF c]] by (auto simp: retired_def listed_def timed_def)
  have o: "owned p' t' = owned p t - {n}" "n \<in> owned p t" using u(4) r(7) nr n by (auto simp: owned_def)
  have "armed p' t'" using coreD(2) [OF c] u(3,6) r(1) by (auto simp: armed_def)
  moreover have "retired p' t'" using coreD(3) [OF c] u(4) r(3,7,8) by (auto simp: retired_def)
  moreover have "spare p' t'" using coreD(4) [OF c] unfolding spare_def o(1) r(5-8) by blast
  moreover have "detached p' t' n"
    using coreD(4) [OF c] o(2) nr unfolding detached_def refs_def o(1) r(5-8) spare_def by auto
  ultimately show ?thesis using u r(3) nr by (intro exI [of _ p'] exI [of _ t']) (simp add: core_def)
qed

lemma core_add:
  assumes c: "core p t" and d: "detached p t n" "\<not> removed (store p n)"
    and p': "queue p' t'" "armed p' t'" "rest n p p'" "listed p' t' = insert n (listed p t)"
  shows "core p' t'"
proof -
  note r = restD [OF p'(3)] rest_owned [OF p'(3)]
  have o: "owned p' t' = insert n (owned p t)" using p'(4) r(7) by (auto simp: owned_def)
  have "retired p' t'" using coreD(3) [OF c] p'(4) r(3,7,8) d(2) detachedD [OF d(1)] by (auto simp: retired_def)
  moreover have "spare p' t'" using coreD(4) [OF c] d(1) unfolding spare_def o r(5-8) detached_def refs_def by (auto simp: image_iff)
  ultimately show ?thesis using p' by (simp add: core_def)
qed

lemma core_enlist:
  assumes c: "core p t" and d: "detached p t n" "\<not> removed (store p n)" "\<not> in_rbtree (store p n)" "ms \<ge> 0 \<Longrightarrow> armable (deadline p n)"
  shows "\<exists>p' t'. enlist n ms p = Some p' \<and> core p' t' \<and> listed p' t' = insert n (listed p t) \<and> rest n p p'"
proof (cases "ms \<ge> 0")
  case True
  then obtain p' t' where i: "insert_node n p = Some p'" "queue p' t'" "armed p' t'" "timed p' t' = insert n (timed p t)" "no_timeo_list p' = no_timeo_list p" "rest n p p'"
    using insert_ok [OF coreD(1,2) [OF c]] d detachedD [OF d(1)] by blast
  moreover have "listed p' t' = insert n (listed p t)" using i(4,5) by (auto simp: listed_def)
  ultimately show ?thesis using True core_add [OF c d(1,2) i(2,3,6)] by (auto simp: enlist_def)
next
  case False
  let ?p = "p\<lparr>no_timeo_list := no_timeo_list p @ [n]\<rparr>"
  have q: "queue ?p t" by (rule queueI) (use queueD [OF coreD(1) [OF c]] detachedD [OF d(1)] d(3) in \<open>auto simp: listed_def timed_def\<close>)
  have "armed ?p t" using coreD(2) [OF c] by (simp add: armed_def timed_def)
  moreover have "rest n p ?p" "listed ?p t = insert n (listed p t)" by (auto simp: rest_def listed_def timed_def)
  ultimately show ?thesis using False core_add [OF c d(1,2) q] by (auto simp: enlist_def)
qed

lemma refs_results: "refs (p\<lparr>results := results p @ [n]\<rparr>) t = insert n (refs p t)"
  by (auto simp: refs_def owned_def listed_def timed_def)

lemma core_add_result:
  assumes c: "core p t" and n: "n \<noteq> 0" "n \<notin> refs p t"
  shows "\<exists>p'. add_result n p = Some p' \<and> core p' t \<and> p' = p\<lparr>results := results p @ [n]\<rparr>"
proof -
  let ?p = "p\<lparr>results := results p @ [n]\<rparr>"
  have s: "timed ?p t = timed p t" "listed ?p t = listed p t" "owned ?p t = owned p t" by (simp_all add: timed_def listed_def owned_def)
  have "queue ?p t" "armed ?p t" using coreD(1,2) [OF c] by (simp_all add: queue_def armed_def s)
  moreover have "retired ?p t" using coreD(3) [OF c] n unfolding retired_def s by (auto dest: refsI)
  moreover have "spare ?p t" using coreD(4) [OF c] n unfolding spare_def s by (auto simp: refs_def image_iff)
  ultimately show ?thesis using n by (auto simp: add_result_def core_def dest: refsI)
qed

lemma core_finish:
  assumes c: "core p t" and n: "n \<noteq> 0" "n \<notin> refs p t"
  shows "\<exists>p'. finish n st e p = Some p' \<and> core p' t \<and> p' = (upd n (\<lambda>x. x\<lparr>pn_error := e, pn_state := st\<rparr>) p)\<lparr>results := results p @ [n]\<rparr>"
proof -
  have "n \<notin> owned p t" using n by (auto dest: refsI)
  then show ?thesis using core_add_result [of "upd n (\<lambda>x. x\<lparr>pn_error := e, pn_state := st\<rparr>) p" t n] c n by (simp add: finish_def core_upd)
qed

lemma core_retire:
  assumes c: "core p t" and d: "detached p t n"
  shows "\<exists>p'. retire n st p = Some p' \<and> core p' t \<and> timeo_list p' = timeo_list p \<and> no_timeo_list p' = no_timeo_list p \<and> nodes p' = nodes p \<and> epoll p' = epoll p \<and>
    max_open_files p' = max_open_files p \<and> stopped p' = stopped p \<and> (\<forall>m. m \<noteq> n \<longrightarrow> store p' m = store p m) \<and> refs p' t \<subseteq> refs p t \<union> {n, pn_res (store p n)}"
proof (cases "stopped p")
  case True
  have n: "n \<noteq> 0" "n \<notin> refs p t" "n \<notin> owned p t" using detachedD [OF d] by auto
  let ?p = "upd n (\<lambda>x. x\<lparr>pn_error := EOK, pn_state := st\<rparr>) p"
  have "refs (?p\<lparr>results := results ?p @ [n]\<rparr>) t = insert n (refs p t)" by (simp only: refs_results core_upd(2) [OF n(3)])
  then show ?thesis using core_finish [OF c n(1,2), of st EOK] True unfolding finish_def retire_def by auto
next
  case False
  have n: "n \<noteq> 0" "n \<notin> refs p t" "n \<notin> owned p t" "n \<notin> listed p t" "n \<notin> set (pipe p)" "n \<notin> set (results p)" using detachedD [OF d] by auto
  let ?q = "upd n (\<lambda>x. x\<lparr>pn_error := EOK, pn_state := st, removed := True\<rparr>) p"
  let ?p = "?q\<lparr>pipe := pipe p @ [n]\<rparr>"
  have e: "retire n st p = Some ?p" using False by (simp add: retire_def upd_def)
  have cq: "core ?q t" using core_upd(1) [OF n(3)] c by simp
  have s: "timed ?p t = timed ?q t" "listed ?p t = listed ?q t" "owned ?p t = insert n (owned p t)" using n(1) by (auto simp: timed_def listed_def owned_def)
  have "queue ?p t" "armed ?p t" using coreD(1,2) [OF cq] by (simp_all add: queue_def armed_def s(1))
  moreover have "retired ?p t" using coreD(3) [OF c] n unfolding retired_def s(2) by auto
  moreover have "spare ?p t" using coreD(4) [OF c] d n unfolding spare_def s(3) detached_def refs_def by (auto simp: image_iff res_ok_def)
  moreover have "refs ?p t \<subseteq> refs p t \<union> {n, pn_res (store p n)}" using n(3) unfolding refs_def s(3) by (auto split: if_splits)
  ultimately show ?thesis using e by (intro exI [of _ ?p]) (simp add: core_def)
qed

subsubsection \<open>The table\<close>

lemma tabI: "(\<And>k n. N k = Node n \<Longrightarrow> n \<in> L \<and> F n = int k) \<Longrightarrow> (\<And>n. n \<in> L \<Longrightarrow> F n \<ge> 0 \<Longrightarrow> N (nat (F n)) = Node n \<and> F n < int M) \<Longrightarrow> tab N L F M"
  by (auto simp: tab_def)

lemma tabD: "tab N L F M \<Longrightarrow> N k = Node n \<Longrightarrow> n \<in> L \<and> F n = int k" "tab N L F M \<Longrightarrow> n \<in> L \<Longrightarrow> F n \<ge> 0 \<Longrightarrow> N (nat (F n)) = Node n \<and> F n < int M"
  by (auto simp: tab_def)

lemma tab_inj: "tab N L F M \<Longrightarrow> n \<in> L \<Longrightarrow> m \<in> L \<Longrightarrow> F n = F m \<Longrightarrow> F n \<ge> 0 \<Longrightarrow> n = m"
  using tabD(2) [of N L F M n] tabD(2) [of N L F M m] by (metis slot.inject)

lemma tab_del:
  assumes t: "tab N L F M" "n \<in> L"
  shows "tab (if F n \<ge> 0 then N(nat (F n) := NULL) else N) (L - {n}) F M"
proof (rule tabI)
  fix k m assume "(if F n \<ge> 0 then N(nat (F n) := NULL) else N) k = Node m"
  then have "N k = Node m" "F n \<ge> 0 \<Longrightarrow> k \<noteq> nat (F n)" by (auto split: if_splits)
  then show "m \<in> L - {n} \<and> F m = int k" using tabD(1) [OF t(1)] by auto
next
  fix m assume m: "m \<in> L - {n}" "F m \<ge> 0"
  then have "F n \<ge> 0 \<Longrightarrow> nat (F m) \<noteq> nat (F n)" using tab_inj [OF t(1), of m n] t(2) eq_nat_nat_iff [of "F m" "F n"] by auto
  then show "(if F n \<ge> 0 then N(nat (F n) := NULL) else N) (nat (F m)) = Node m \<and> F m < int M" using tabD(2) [OF t(1)] m by auto
qed

lemma tab_ins:
  assumes t: "tab N L F M" "n \<notin> L" "F' n < int M" and F: "\<And>m. m \<in> L \<Longrightarrow> F' m = F m" and N: "F' n \<ge> 0 \<Longrightarrow> \<forall>m. N (nat (F' n)) \<noteq> Node m"
  shows "tab (if F' n \<ge> 0 then N(nat (F' n) := Node n) else N) (insert n L) F' M"
proof (rule tabI)
  fix k m assume a: "(if F' n \<ge> 0 then N(nat (F' n) := Node n) else N) k = Node m"
  show "m \<in> insert n L \<and> F' m = int k"
  proof (cases "F' n \<ge> 0 \<and> k = nat (F' n)")
    case True then show ?thesis using a by simp
  next
    case False
    then have "N k = Node m" using a by (cases "F' n \<ge> 0") simp_all
    then show ?thesis using tabD(1) [OF t(1), of k m] F [of m] by simp
  qed
next
  fix m assume m: "m \<in> insert n L" "F' m \<ge> 0"
  show "(if F' n \<ge> 0 then N(nat (F' n) := Node n) else N) (nat (F' m)) = Node m \<and> F' m < int M"
  proof (cases "m = n")
    case False
    then have "N (nat (F' m)) = Node m \<and> F' m < int M" using tabD(2) [OF t(1), of m] m F by auto
    then show ?thesis using N by auto
  qed (use m t(3) in simp)
qed

lemma tab_cong: "tab N L F M \<Longrightarrow> (\<And>m. m \<in> L \<Longrightarrow> F' m = F m) \<Longrightarrow> tab N L F' M"
  unfolding tab_def by metis

lemma tab_swap:
  assumes t: "tab N L F M" "N k = Node m" "n \<notin> L" "F' n = int k" "\<And>x. x \<in> L \<Longrightarrow> F' x = F x"
  shows "tab (N(k := Node n)) (insert n (L - {m})) F' M"
proof -
  have m: "m \<in> L" "F m = int k" using tabD(1) [OF t(1,2)] by auto
  have "int k < int M" using tabD(2) [OF t(1) m(1)] m by simp
  have "tab (N(k := NULL)) (L - {m}) F M" using tab_del [OF t(1) m(1)] m by simp
  from tab_ins [OF this, of n F'] have "tab ((N(k := NULL))(k := Node n)) (insert n (L - {m})) F' M"
    using t(3-5) \<open>int k < int M\<close> by simp
  then show ?thesis by simp
qed

subsection \<open>Every call keeps the invariant\<close>

definition fresh :: "poller \<Rightarrow> shape \<Rightarrow> nat \<Rightarrow> bool" where
  "fresh p t n \<longleftrightarrow> n \<noteq> 0 \<and> n \<notin> refs p t"

lemma fresh_detached:
  assumes "fresh p t n" "r = 0 \<or> fresh p t r \<and> r \<noteq> n" "pn_res (f (store p n)) = r" "res_ok (f (store p n))"
  shows "detached (upd n f p) t n"
proof -
  have "n \<notin> owned p t" using assms(1) by (auto simp: fresh_def dest: refsI)
  then show ?thesis using assms by (auto simp: detached_def fresh_def core_upd(2))
qed

lemma init_node_sel [simp]:
  "pn_data (init_node d ev res ms now x) = d" "\<not> in_rbtree (init_node d ev res ms now x)" "\<not> removed (init_node d ev res ms now x)" "pn_res (init_node d ev res ms now x) = res"
  "ms \<ge> 0 \<Longrightarrow> timeout (init_node d ev res ms now x) = node_set_timeout now ms"
  by (simp_all add: init_node_def Let_def)

definition new_ok :: "poller \<Rightarrow> shape \<Rightarrow> poller_data \<Rightarrow> int \<Rightarrow> nat \<Rightarrow> nat \<Rightarrow> timespec \<Rightarrow> bool" where
  "new_ok p t d ms res node now \<longleftrightarrow> data_get_event d \<noteq> None \<and> (node = 0 \<or> fresh p t node) \<and> (res = 0 \<or> fresh p t res \<and> res \<noteq> node) \<and>
     (ms \<ge> 0 \<longrightarrow> armable (node_set_timeout now ms))"

lemma new_node:
  assumes c: "core p t" and ok: "new_ok p t d ms res node now" "data_get_event d = Some (ev, need)" "\<not> (need \<and> res = 0)" "node \<noteq> 0"
    and q: "q = upd node (init_node d ev (if need then res else 0) ms now) p"
  shows "core q t" "detached q t node" "\<not> in_rbtree (store q node)" "\<not> removed (store q node)" "ms \<ge> 0 \<Longrightarrow> armable (deadline q node)"
    "\<And>m. m \<in> listed p t \<Longrightarrow> store q m = store p m" "fd_of q node = pd_fd d" "table p t \<Longrightarrow> table q t"
proof -
  have f: "fresh p t node" "node \<notin> owned p t" using ok by (auto simp: new_ok_def fresh_def dest: refsI)
  show "core q t" using core_upd(1) [OF f(2)] c q by simp
  show "detached q t node" unfolding q using ok f(1)
    by (intro fresh_detached [where r = "if need then res else 0"]) (auto simp: new_ok_def res_ok_def data_get_event_def split: pd_op.splits)
  show s: "\<And>m. m \<in> listed p t \<Longrightarrow> store q m = store p m" using f(2) q by (auto simp: owned_def)
  have "nodes q = nodes p" "listed q t = listed p t" "max_open_files q = max_open_files p" using q by simp_all
  then show "table p t \<Longrightarrow> table q t" using s by (auto intro: tab_cong [where F = "fd_of p"])
qed (use ok q in \<open>auto simp: new_ok_def\<close>)

lemma add_ok:
  assumes c: "core p t" "table p t" and ok: "new_ok p t d ms res node now"
  shows "\<exists>e p' t'. poller_add d ms res node now ctl p = Some (e, p') \<and> core p' t' \<and> table p' t'"
proof -
  obtain ev need where ev: "data_get_event d = Some (ev, need)" using ok by (auto simp: new_ok_def)
  let ?q = "upd node (init_node d ev (if need then res else 0) ms now) p"
  show ?thesis
  proof (cases "bad_fd (pd_fd d) p \<or> need \<and> res = 0 \<or> node = 0")
    case True then show ?thesis using c ev by (auto simp: poller_add_def)
  next
    case False
    note n = new_node [OF c(1) ok ev _ _ refl]
    have tq: "table ?q t" using n(8) c(2) False by blast
    show ?thesis
    proof (cases "nodes p (nat (pd_fd d)) = NULL \<and> ctl = EOK")
      case True
      let ?e = "?q\<lparr>epoll := (epoll p)(pd_fd d := Some node)\<rparr>"
      obtain p' t' where e: "enlist node ms ?e = Some p'" "core p' t'" "listed p' t' = insert node (listed ?q t)" "rest node ?e p'"
        using core_enlist [of ?e t node ms] n False by auto
      have F: "nodes p' = nodes p" "max_open_files p' = max_open_files p" and fd: "\<And>m. fd_of p' m = fd_of ?q m"
        using restD(2) [OF e(4)] e(4) by (auto simp: rest_def)
      have t: "tab (nodes p') (listed ?q t) (fd_of ?q) (max_open_files p')" using tq F by simp
      have "node \<notin> listed ?q t" "fd_of p' node = pd_fd d" using detachedD [OF n(2)] n(7) fd False by auto
      with tab_ins [OF t, of node "fd_of p'"] have "tab ((nodes p')(nat (pd_fd d) := Node node)) (insert node (listed ?q t)) (fd_of p') (max_open_files p')"
        using fd True False F by (simp add: bad_fd_def)
      then have "table (p'\<lparr>nodes := (nodes p')(nat (pd_fd d) := Node node)\<rparr>) t'" using e(3) by simp
      then show ?thesis using True False ev e(1,2) by (auto simp: poller_add_def Let_def)
    next
      case no: False
      then have "\<exists>e. poller_add d ms res node now ctl p = Some (e, ?q)"
        using False ev by (cases "nodes p (nat (pd_fd d))") (auto simp: poller_add_def Let_def)
      then show ?thesis using n(1) tq False by blast
    qed
  qed
qed

lemma del_ok:
  assumes c: "core p t" "table p t" and fd: "bad_fd fd p \<or> nodes p (nat fd) \<noteq> POLLER_NODE_ERROR"
  shows "\<exists>e p' t'. poller_del fd p = Some (e, p') \<and> core p' t' \<and> table p' t'"
proof (cases "bad_fd fd p \<or> nodes p (nat fd) = NULL")
  case True then show ?thesis using c by (auto simp: poller_del_def)
next
  case False
  then obtain n where n: "nodes p (nat fd) = Node n" using fd by (cases "nodes p (nat fd)") auto
  have m: "n \<in> listed p t" "fd_of p n = fd" using tabD(1) [OF c(2) n] False by (auto simp: bad_fd_def)
  let ?p = "p\<lparr>nodes := (nodes p)(nat fd := NULL)\<rparr>"
  obtain p1 t1 where u: "unlink_node n ?p = Some p1" "core p1 t1" "listed p1 t1 = listed p t - {n}" "rest n ?p p1" "detached p1 t1 n"
    using core_unlink [of ?p t n] c m by auto
  let ?q = "p1\<lparr>epoll := (epoll p1)(fd := None)\<rparr>"
  obtain p2 where r: "retire n PR_ST_DELETED ?q = Some p2" "core p2 t1" "timeo_list p2 = timeo_list ?q" "no_timeo_list p2 = no_timeo_list ?q"
    "nodes p2 = nodes p1" "max_open_files p2 = max_open_files p1" "\<forall>m. m \<noteq> n \<longrightarrow> store p2 m = store p1 m"
    using core_retire [of ?q t1 n PR_ST_DELETED] u by auto
  have l: "listed p2 t1 = listed p t - {n}" using u(3) r(3,4) by (simp add: listed_def timed_def)
  have "tab (nodes p2) (listed p t - {n}) (fd_of p) (max_open_files p2)"
    using tab_del [OF c(2) m(1)] m(2) u(4) r(5,6) False by (simp add: rest_def bad_fd_def)
  moreover have "fd_of p2 m = fd_of p m" if "m \<in> listed p t - {n}" for m using that r(7) restD(2) [OF u(4)] by simp
  ultimately have "table p2 t1" unfolding l by (rule tab_cong)
  moreover have "poller_del fd p = Some (EOK, p2)" using False n u(1) r(1) by (simp add: poller_del_def)
  ultimately show ?thesis using r(2) by blast
qed

lemma mod_ok:
  assumes c: "core p t" "table p t" and ok: "new_ok p t d ms res node now"
  shows "\<exists>e p' t'. poller_mod d ms res node now p = Some (e, p') \<and> core p' t' \<and> table p' t'"
proof -
  obtain ev need where ev: "data_get_event d = Some (ev, need)" using ok by (auto simp: new_ok_def)
  define q where "q = upd node (init_node d ev (if need then res else 0) ms now) p"
  show ?thesis
  proof (cases "bad_fd (pd_fd d) p \<or> need \<and> res = 0 \<or> node = 0")
    case True then show ?thesis using c ev by (auto simp: poller_mod_def)
  next
    case False
    then have n: "core q t" "detached q t node" "\<not> in_rbtree (store q node)" "\<not> removed (store q node)" "ms \<ge> 0 \<Longrightarrow> armable (deadline q node)"
      "fd_of q node = pd_fd d" "table q t" using new_node [OF c(1) ok ev _ _ q_def] c(2) by auto
    have nq: "nodes q = nodes p" by (simp add: q_def)
    show ?thesis
    proof (cases "nodes p (nat (pd_fd d))")
      case (Node old)
      have o: "old \<in> listed q t" using tabD(1) [OF n(7)] Node nq by auto
      obtain p1 t1 where u: "unlink_node old q = Some p1" "core p1 t1" "listed p1 t1 = listed q t - {old}" "rest old q p1" "detached p1 t1 old"
        using core_unlink [OF n(1) o] by blast
      have on: "old \<noteq> node" using o detachedD [OF n(2)] by auto
      obtain p2 where r: "retire old PR_ST_MODIFIED p1 = Some p2" "core p2 t1" "timeo_list p2 = timeo_list p1" "no_timeo_list p2 = no_timeo_list p1"
        "nodes p2 = nodes p1" "max_open_files p2 = max_open_files p1" "\<forall>m. m \<noteq> old \<longrightarrow> store p2 m = store p1 m" "refs p2 t1 \<subseteq> refs p1 t1 \<union> {old, pn_res (store p1 old)}"
        using core_retire [OF u(2,5), of PR_ST_MODIFIED] by blast
      have s: "store p2 node = store q node" using r(7) on restD(4) [OF u(4)] by auto
      have "refs p1 t1 \<union> {old, pn_res (store p1 old)} \<subseteq> refs q t" using u(3) o rest_owned [OF u(4)] by (auto simp: refs_def owned_def)
      then have d2: "detached p2 t1 node" using n(2) r(8) unfolding detached_def s by blast
      obtain p3 t3 where e: "enlist node ms p2 = Some p3" "core p3 t3" "listed p3 t3 = insert node (listed p2 t1)" "rest node p2 p3"
        using core_enlist [OF r(2) d2, of ms] n(3-5) s by auto
      have l: "listed p3 t3 = insert node (listed q t - {old})" using e(3) u(3) r(3,4) by (simp add: listed_def timed_def)
      have N: "nodes p3 = nodes q" "max_open_files p3 = max_open_files q" using e(4) r(5,6) u(4) by (auto simp: rest_def)
      have fd: "fd_of p3 m = fd_of q m" if "m \<noteq> old" for m using that restD(2) [OF e(4)] r(7) restD(2) [OF u(4)] by simp
      have fd_old: "fd_of p3 old = fd_of q old" using restD(2) [OF e(4), of old] restD(2) [OF u(4), of old] r(1) on
        by (auto simp: retire_def add_result_def Let_def split: if_splits)
      have "tab ((nodes q)(nat (pd_fd d) := Node node)) (insert node (listed q t - {old})) (fd_of p3) (max_open_files q)"
      proof (rule tab_swap [OF n(7)])
        show "nodes q (nat (pd_fd d)) = Node old" using Node nq by simp
        show "node \<notin> listed q t" using detachedD [OF n(2)] by blast
        show "fd_of p3 node = int (nat (pd_fd d))" using fd on n(6) False by (auto simp: bad_fd_def)
        show "fd_of p3 x = fd_of q x" for x using fd fd_old by (cases "x = old") auto
      qed
      then have "table (p3\<lparr>nodes := (nodes p3)(nat (pd_fd d) := Node node)\<rparr>) t3" using l N by simp
      then show ?thesis using False ev Node u(1) r(1) e(1,2) nq by (auto simp: poller_mod_def Let_def q_def [symmetric])
    qed (use n(1,7) False ev nq in \<open>auto simp: poller_mod_def Let_def q_def [symmetric]\<close>)
  qed
qed

lemma set_timeout_ok:
  assumes c: "core p t" "table p t" and fd: "bad_fd fd p \<or> nodes p (nat fd) \<noteq> POLLER_NODE_ERROR" and ms: "ms \<ge> 0 \<Longrightarrow> armable (node_set_timeout now ms)"
  shows "\<exists>e p' t'. poller_set_timeout fd ms now p = Some (e, p') \<and> core p' t' \<and> table p' t'"
proof (cases "bad_fd fd p \<or> nodes p (nat fd) = NULL")
  case True then show ?thesis using c by (auto simp: poller_set_timeout_def)
next
  case False
  then obtain n where n: "nodes p (nat fd) = Node n" using fd by (cases "nodes p (nat fd)") auto
  have m: "n \<in> listed p t" using tabD(1) [OF c(2) n] by auto
  obtain p1 t1 where u: "unlink_node n p = Some p1" "core p1 t1" "listed p1 t1 = listed p t - {n}" "rest n p p1" "detached p1 t1 n" "\<not> in_rbtree (store p1 n)" "\<not> removed (store p1 n)"
    using core_unlink [OF c(1) m] by blast
  define q where "q = (if ms \<ge> 0 then upd n (\<lambda>x. x\<lparr>timeout := node_set_timeout now ms\<rparr>) p1 else p1)"
  have no: "n \<notin> owned p1 t1" using detachedD [OF u(5)] by blast
  have q: "core q t1" "detached q t1 n" "\<not> in_rbtree (store q n)" "\<not> removed (store q n)" "ms \<ge> 0 \<Longrightarrow> armable (deadline q n)" "listed q t1 = listed p1 t1"
    "\<And>m. fd_of q m = fd_of p m" "nodes q = nodes p" "max_open_files q = max_open_files p"
    using u ms core_upd(1) [OF no] restD(2) [OF u(4)] by (auto simp: q_def detached_upd rest_def)
  obtain p2 t2 where e: "enlist n ms q = Some p2" "core p2 t2" "listed p2 t2 = insert n (listed q t1)" "rest n q p2"
    using core_enlist [OF q(1,2,4,3,5)] by blast
  have "listed p2 t2 = listed p t" "nodes p2 = nodes p" "max_open_files p2 = max_open_files p" using e(3,4) q(6,8,9) u(3) m by (auto simp: rest_def)
  then have "table p2 t2" using tab_cong [OF c(2), of "fd_of p2"] restD(2) [OF e(4)] q(7) by simp
  moreover have "poller_set_timeout fd ms now p = Some (EOK, p2)" using False n u(1) e(1) by (simp add: poller_set_timeout_def q_def)
  ultimately show ?thesis using e(2) by blast
qed

lemma add_timer_ok:
  assumes c: "core p t" "table p t" and ok: "node = 0 \<or> fresh p t node" "armable (add_time now (tv_sec value) (tv_nsec value))"
  shows "\<exists>e p' t'. poller_add_timer ctxt value node now p = Some (e, p') \<and> core p' t' \<and> table p' t'"
proof (cases "node = 0")
  case True then show ?thesis using c by (auto simp: poller_add_timer_def)
next
  case False
  define f :: "poller_node \<Rightarrow> poller_node" where "f = (\<lambda>x. x\<lparr>pn_data := \<lparr>operation = PD_OP_TIMER, pd_fd = -1, pd_context = ctxt, message = 0\<rparr>,
          in_rbtree := False, removed := False, pn_res := 0, timeout := add_time now (tv_sec value) (tv_nsec value)\<rparr>)"
  define q where "q = upd node f p"
  have no: "fresh p t node" "node \<notin> owned p t" using ok False by (auto simp: fresh_def dest: refsI)
  have q: "core q t" "detached q t node" "\<not> in_rbtree (store q node)" "\<not> removed (store q node)" "armable (deadline q node)" "fd_of q node = -1"
    "\<And>m. m \<in> listed p t \<Longrightarrow> fd_of q m = fd_of p m" "nodes q = nodes p" "max_open_files q = max_open_files p" "listed q t = listed p t"
    using c core_upd(1) [OF no(2)] ok no fresh_detached [OF no(1), of 0 f] by (auto simp: q_def f_def res_ok_def owned_def)
  obtain p2 t2 where e: "enlist node 0 q = Some p2" "core p2 t2" "listed p2 t2 = insert node (listed q t)" "rest node q p2"
    using core_enlist [OF q(1,2,4,3)] q(5) by blast
  have fd: "fd_of p2 m = fd_of q m" "nodes p2 = nodes q" "max_open_files p2 = max_open_files q" for m using restD(2) [OF e(4)] e(4) by (auto simp: rest_def)
  have "node \<notin> listed p t" using no(2) by (simp add: owned_def)
  then have "table p2 t2" using tab_ins [OF c(2), of node "fd_of p2"] fd q(6-10) e(3) by simp
  moreover have "poller_add_timer ctxt value node now p = Some (EOK, p2)" using False e(1) by (simp add: poller_add_timer_def enlist_def q_def f_def)
  ultimately show ?thesis using e(2) by blast
qed

text \<open>The arming of the timer at the start of a round.\<close>

lemma set_timer_ok:
  assumes c: "core p t" "table p t"
  shows "core (set_timer p) t" "table (set_timer p) t" "timed p t = {} \<Longrightarrow> timer (set_timer p) = None"
    "timed p t \<noteq> {} \<Longrightarrow> \<exists>n\<in>timed p t. timer (set_timer p) = Some (deadline p n) \<and> (\<forall>m\<in>timed p t. dl p n \<le> dl p m)"
proof -
  note q = coreD(1) [OF c(1)]
  define n where "n = (if timeo_list p \<noteq> [] then hd (timeo_list p) else 0)"
  define m where "m = (if tree_first p \<noteq> 0 \<and> (n = 0 \<or> timeout_cmp (deadline p (tree_first p)) (deadline p n) < 0) then tree_first p else n)"
  have s: "set_timer p = set_timerfd (if m \<noteq> 0 then deadline p m else \<lparr>tv_sec = 0, tv_nsec = 0\<rparr>) p" by (simp add: set_timer_def n_def m_def Let_def)
  have n: "n \<noteq> 0 \<longleftrightarrow> timeo_list p \<noteq> []" "n \<noteq> 0 \<Longrightarrow> n \<in> set (timeo_list p)" using queueD(10) [OF q] by (cases "timeo_list p"; auto simp: n_def)+
  have none: "m = 0 \<longleftrightarrow> timed p t = {}" using n tree_first_zero [OF q] by (auto simp: m_def timed_def)
  have mt: "m \<in> timed p t" if "m \<noteq> 0"
    using that n tree_first_least [OF q] tree_first_zero [OF q] rt_in_ino [of t] by (auto simp: m_def timed_def split: if_splits)
  have least: "dl p m \<le> dl p x" if "x \<in> timed p t" for x
  proof -
    have "x \<in> set (timeo_list p) \<Longrightarrow> dl p n \<le> dl p x" "x \<in> set (timeo_list p) \<Longrightarrow> n \<noteq> 0" "x \<in> set (ino t) \<Longrightarrow> dl p (tree_first p) \<le> dl p x" "x \<in> set (ino t) \<Longrightarrow> tree_first p \<noteq> 0"
      using hd_least [OF q, of x] tree_first_least [OF q, of x] tree_first_zero [OF q] n by (auto simp: n_def)
    then show ?thesis using that unfolding timed_def m_def by (auto simp: timeout_cmp_less not_less intro: order.trans order.strict_implies_order)
  qed
  have "armed (set_timer p) t"
    using coreD(2) [OF c(1)] mt none least unfolding armed_def s by (cases "m = 0") auto
  then show "core (set_timer p) t" using c(1) unfolding s core_def by (simp add: retired_def spare_def owned_def)
  show "table (set_timer p) t" using c(2) by (simp add: s)
  show "timed p t = {} \<Longrightarrow> timer (set_timer p) = None" using none by (simp add: s set_timerfd_def)
  show "timed p t \<noteq> {} \<Longrightarrow> \<exists>n\<in>timed p t. timer (set_timer p) = Some (deadline p n) \<and> (\<forall>m\<in>timed p t. dl p n \<le> dl p m)"
    using none mt least coreD(2) [OF c(1)] by (intro bexI [of _ m]) (auto simp: s armed_def)
qed

subsubsection \<open>Events on a node\<close>

text \<open>An event may name a registered node, or one that was removed and waits in the pipe.\<close>

definition eventful :: "poller \<Rightarrow> shape \<Rightarrow> nat \<Rightarrow> bool" where
  "eventful p t n \<longleftrightarrow> n \<in> listed p t \<and> fd_of p n \<ge> 0 \<or> n \<in> set (pipe p) \<and> n \<noteq> 0"

lemma remove_finish_ok:
  assumes c: "core p t" "table p t" and n: "eventful p t n"
  shows "\<exists>p' t'. (do { (gone, p) \<leftarrow> remove_node n p; if gone then Some p else finish n st e p }) = Some p' \<and> core p' t' \<and> table p' t'"
proof (cases "n \<in> listed p t")
  case False
  then have "removed (store p n)" using n coreD(3) [OF c(1)] by (auto simp: eventful_def retired_def)
  then show ?thesis using c by (auto simp: remove_node_def)
next
  case True
  then have fd: "fd_of p n \<ge> 0" "\<not> removed (store p n)" using n coreD(3) [OF c(1)] by (auto simp: eventful_def retired_def)
  let ?p = "p\<lparr>nodes := (nodes p)(nat (fd_of p n) := NULL)\<rparr>"
  obtain p1 t1 where u: "unlink_node n ?p = Some p1" "core p1 t1" "listed p1 t1 = listed p t - {n}" "rest n ?p p1" "detached p1 t1 n"
    using core_unlink [of ?p t n] c True by auto
  let ?q = "p1\<lparr>epoll := (epoll p1)(fd_of p1 n := None)\<rparr>"
  have d: "n \<noteq> 0" "n \<notin> refs ?q t1" using u(5) detachedD [of ?q t1 n] by auto
  obtain p2 where r: "finish n st e ?q = Some p2" "core p2 t1" "p2 = (upd n (\<lambda>x. x\<lparr>pn_error := e, pn_state := st\<rparr>) ?q)\<lparr>results := results ?q @ [n]\<rparr>"
    using core_finish [OF _ d, of st e] u(2) by auto
  have l: "listed p2 t1 = listed p t - {n}" using u(3) unfolding r(3) by (simp add: listed_def timed_def)
  have "tab (nodes p2) (listed p t - {n}) (fd_of p) (max_open_files p2)" using tab_del [OF c(2) True] fd u(4) unfolding r(3) by (simp add: rest_def)
  moreover have "fd_of p2 m = fd_of p m" if "m \<in> listed p t - {n}" for m using that restD(2) [OF u(4)] unfolding r(3) by simp
  ultimately have "table p2 t1" unfolding l by (rule tab_cong)
  moreover have "remove_node n p = Some (False, ?q)" using fd u(1) by (simp add: remove_node_def)
  ultimately show ?thesis using r(1,2) by auto
qed

lemma connect_ok:
  assumes "core p t" "table p t" "eventful p t n"
  shows "\<exists>p' t'. handle_connect n err p = Some p' \<and> core p' t' \<and> table p' t'"
proof -
  have "handle_connect n err p = (do { (gone, p) \<leftarrow> remove_node n p; if gone then Some p else finish n (if err = EOK then PR_ST_FINISHED else PR_ST_ERROR) err p })"
    by (cases "remove_node n p") (auto simp: handle_connect_def)
  then show ?thesis using remove_finish_ok [OF assms] by simp
qed

text \<open>While a message is read only the message and the result node of the reading node change.\<close>

definition kept :: "shape \<Rightarrow> poller \<Rightarrow> poller \<Rightarrow> bool" where
  "kept t p p' \<longleftrightarrow> listed p' t = listed p t \<and> pipe p' = pipe p \<and> nodes p' = nodes p \<and> max_open_files p' = max_open_files p \<and>
     (\<forall>m\<in>owned p t. fd_of p' m = fd_of p m \<and> operation (pn_data (store p' m)) = operation (pn_data (store p m)))"

lemma kept_refl [simp]: "kept t p p"
  by (simp add: kept_def)

lemma kept_owned: "kept t p p' \<Longrightarrow> owned p' t = owned p t"
  by (simp add: kept_def owned_def)

lemma kept_trans: "kept t p p' \<Longrightarrow> kept t p' p'' \<Longrightarrow> kept t p p''"
  using kept_owned [of t p p'] by (auto simp: kept_def)

lemma kept_table: "kept t p p' \<Longrightarrow> table p t \<Longrightarrow> table p' t"
  by (auto simp: kept_def owned_def intro: tab_cong [where F = "fd_of p"])

lemma kept_eventful: "kept t p p' \<Longrightarrow> eventful p t n \<Longrightarrow> eventful p' t n"
  by (auto simp: kept_def eventful_def owned_def)

lemma eventful_owned: "eventful p t n \<Longrightarrow> n \<in> owned p t"
  by (auto simp: eventful_def owned_def)

definition set_msg :: "nat \<Rightarrow> nat \<Rightarrow> nat \<Rightarrow> poller \<Rightarrow> poller" where
  "set_msg n msg r p = upd n (\<lambda>x. x\<lparr>pn_data := (pn_data x)\<lparr>message := msg\<rparr>, pn_res := r\<rparr>) p"

lemma set_msg_ok:
  assumes c: "core p t" and r: "r = 0 \<or> fresh p t r" "msg = 0 \<or> r \<noteq> 0" and n: "n \<in> owned p t"
  shows "core (set_msg n msg r p) t" "kept t p (set_msg n msg r p)" "refs (set_msg n msg r p) t \<subseteq> insert r (refs p t)"
    "pn_res (store p n) \<noteq> 0 \<Longrightarrow> r \<noteq> pn_res (store p n) \<Longrightarrow> pn_res (store p n) \<notin> refs (set_msg n msg r p) t"
proof -
  let ?p = "set_msg n msg r p"
  have st: "store ?p m = (if m = n then (store p n)\<lparr>pn_data := (pn_data (store p n))\<lparr>message := msg\<rparr>, pn_res := r\<rparr> else store p m)" for m
    by (simp add: set_msg_def)
  have sel: "deadline ?p m = deadline p m" "in_rbtree (store ?p m) = in_rbtree (store p m)" "removed (store ?p m) = removed (store p m)" "fd_of ?p m = fd_of p m" for m
    by (simp_all add: st)
  have fields: "timeo_tree ?p = timeo_tree p" "tree_first ?p = tree_first p" "timeo_list ?p = timeo_list p" "no_timeo_list ?p = no_timeo_list p" "timer ?p = timer p"
    "pipe ?p = pipe p" "results ?p = results p" "nodes ?p = nodes p" "max_open_files ?p = max_open_files p" by (simp_all add: set_msg_def)
  have s: "timed ?p t = timed p t" "listed ?p t = listed p t" "owned ?p t = owned p t" by (simp_all add: set_msg_def)
  have "queue ?p t" "armed ?p t" "retired ?p t" using coreD(1-3) [OF c] unfolding queue_def armed_def retired_def s sel fields by blast+
  moreover have "spare ?p t" using coreD(4) [OF c] r unfolding spare_def s fields st by (auto simp: fresh_def refs_def res_ok_def)
  ultimately show "core ?p t" by (simp add: core_def)
  show "kept t p ?p" by (simp add: kept_def s(2) fields st)
  show "refs ?p t \<subseteq> insert r (refs p t)" unfolding refs_def s fields st by auto
  show "pn_res (store p n) \<notin> refs ?p t" if "pn_res (store p n) \<noteq> 0" "r \<noteq> pn_res (store p n)"
  proof -
    have a: "pn_res (store p n) \<notin> owned p t" "pn_res (store p n) \<notin> set (results p)" using coreD(4) [OF c] n that by (auto simp: spare_def)
    have b: "pn_res (store ?p m) \<noteq> pn_res (store p n)" if "m \<in> owned p t" for m
      using coreD(4) [OF c] n that \<open>pn_res (store p n) \<noteq> 0\<close> \<open>r \<noteq> pn_res (store p n)\<close> unfolding spare_def by (cases "m = n") (auto simp: st)
    show ?thesis using a b unfolding refs_def s fields by (metis (no_types, lifting) UnE imageE)
  qed
qed

lemma pass_ok:
  assumes c: "core p t" and n: "n \<in> owned p t" "pn_res (store p n) \<noteq> 0"
  shows "\<exists>p'. pass_result n result p = Some p' \<and> core (set_msg n 0 0 p') t \<and> kept t p (set_msg n 0 0 p') \<and> refs (set_msg n 0 0 p') t \<subseteq> refs p t \<union> {0}"
proof -
  let ?r = "pn_res (store p n)"
  define f where "f = (\<lambda>x. x\<lparr>pn_data := (pn_data (store p n))\<lparr>message := result\<rparr>, pn_error := EOK, pn_state := PR_ST_SUCCESS, pn_res := (0::nat)\<rparr> :: poller_node)"
  define q where "q = set_msg n 0 0 p"
  have sp: "?r \<notin> owned p t" "?r \<notin> set (results p)" using coreD(4) [OF c] n by (auto simp: spare_def)
  have q: "core q t" "kept t p q" "refs q t \<subseteq> insert 0 (refs p t)" "?r \<notin> refs q t" using set_msg_ok [OF c, of 0 0 n] n by (auto simp: q_def)
  have ro: "?r \<notin> owned q t" "?r \<noteq> n" using sp n kept_owned [OF q(2)] by auto
  have e: "set_msg n 0 0 ((upd ?r f p)\<lparr>results := results p @ [?r]\<rparr>) = (upd ?r f q)\<lparr>results := results (upd ?r f q) @ [?r]\<rparr>"
    using ro(2) by (simp add: q_def set_msg_def upd_def fun_upd_twist)
  have k: "core (upd ?r f q) t" "refs (upd ?r f q) t = refs q t" using core_upd [OF ro(1)] q(1) by simp_all
  obtain p' where p': "add_result ?r (upd ?r f q) = Some p'" "core p' t" "p' = (upd ?r f q)\<lparr>results := results (upd ?r f q) @ [?r]\<rparr>"
    using core_add_result [OF k(1) n(2)] q(4) k(2) by auto
  have "listed p' t = listed q t" unfolding p'(3) by (simp add: listed_def timed_def)
  then have "kept t q p'" using ro(1) by (auto simp: kept_def p'(3))
  then have "kept t p p'" by (rule kept_trans [OF q(2)])
  moreover have "refs p' t \<subseteq> refs p t \<union> {0}" using q(3) k(2) n(1) unfolding p'(3) refs_results by (auto intro: refsI)
  moreover have "pass_result n result p = Some ((upd ?r f p)\<lparr>results := results p @ [?r]\<rparr>)"
    using n(2) sp(2) by (simp add: pass_result_def add_result_def f_def Let_def)
  ultimately show ?thesis using p'(2) e p'(3) by auto
qed

lemma append_ok:
  assumes c: "core p t" and n: "n \<in> owned p t" "operation (pn_data (store p n)) = PD_OP_READ" and a: "ac_res a = 0 \<or> fresh p t (ac_res a)"
  shows "\<exists>r p'. append_message n a p = Some (r, p') \<and> core p' t \<and> kept t p p' \<and> refs p' t \<subseteq> refs p t \<union> {ac_res a, 0}"
proof (cases "message (pn_data (store p n)) = 0 \<and> (ac_res a = 0 \<or> ac_msg a = 0)")
  case True then show ?thesis using c by (auto simp: append_message_def)
next
  case False
  define q where "q = (if message (pn_data (store p n)) = 0 then set_msg n (ac_msg a) (ac_res a) p else p)"
  have q: "core q t" "kept t p q" "refs q t \<subseteq> refs p t \<union> {ac_res a}" "pn_res (store q n) \<noteq> 0"
    using set_msg_ok [OF c a _ n(1), of "ac_msg a"] c False n coreD(4) [OF c] by (auto simp: q_def set_msg_def spare_def res_ok_def)
  have e: "append_message n a p = (if ac_ret a > 0 then do { p \<leftarrow> pass_result n (message (pn_data (store q n))) q; Some (ac_ret a, set_msg n 0 0 p) } else Some (ac_ret a, q))"
    using False by (auto simp: append_message_def q_def set_msg_def Let_def)
  have nq: "n \<in> owned q t" using n(1) kept_owned [OF q(2)] by simp
  from pass_ok [OF q(1) nq q(4), of "message (pn_data (store q n))"] show ?thesis
    using q kept_trans [OF q(2)] unfolding e by (cases "ac_ret a > 0") (auto; blast)+
qed

text \<open>The result nodes that are allocated while reading are new.\<close>

definition new_res :: "poller \<Rightarrow> shape \<Rightarrow> nat list \<Rightarrow> bool" where
  "new_res p t rs \<longleftrightarrow> distinct (filter (\<lambda>r. r \<noteq> 0) rs) \<and> (\<forall>r\<in>set rs. r = 0 \<or> fresh p t r)"

lemma new_res_step: "new_res p t (r # rs) \<Longrightarrow> refs p' t \<subseteq> refs p t \<union> {r, 0} \<Longrightarrow> new_res p' t rs"
  by (auto simp: new_res_def fresh_def split: if_splits)

lemma append_loop_ok:
  assumes "core p t" "n \<in> owned p t" "operation (pn_data (store p n)) = PD_OP_READ" "new_res p t (map ac_res as @ rs)"
  shows "\<exists>l e p'. append_loop nleft n as p = Some (l, e, p') \<and> core p' t \<and> kept t p p' \<and> new_res p' t rs"
  using assms
proof (induction as arbitrary: nleft p)
  case Nil then show ?case by auto
next
  case (Cons a as)
  then obtain r p1 where p1: "append_message n a p = Some (r, p1)" "core p1 t" "kept t p p1" "refs p1 t \<subseteq> refs p t \<union> {ac_res a, 0}"
    using append_ok [of p t n a] by (auto simp: new_res_def)
  then have n: "n \<in> owned p1 t" "operation (pn_data (store p1 n)) = PD_OP_READ" "new_res p1 t (map ac_res as @ rs)"
    using Cons.prems kept_owned [OF p1(3)] new_res_step [OF _ p1(4), of "map ac_res as @ rs"] by (auto simp: kept_def)
  then have rs: "new_res p1 t rs" by (auto simp: new_res_def)
  show ?case using Cons.IH [OF p1(2) n, of "if r \<ge> 0 then nleft - ac_n a else -1"] p1 rs kept_trans [OF p1(3)]
    by (cases "0 < (if r \<ge> 0 then nleft - ac_n a else -1)") (auto simp: Let_def; blast)+
qed

fun allocated :: "read_answer list \<Rightarrow> nat list" where
  "allocated [] = []"
| "allocated (ReadError e # rs) = allocated rs"
| "allocated (ReadBytes k as # rs) = map ac_res as @ allocated rs"

lemma read_loop_ok:
  assumes "core p t" "n \<in> owned p t" "operation (pn_data (store p n)) = PD_OP_READ" "new_res p t (allocated rs)"
  shows "\<exists>out p'. read_loop n rs p = Some (out, p') \<and> core p' t \<and> kept t p p'"
  using assms
proof (induction rs arbitrary: p rule: allocated.induct)
  case (3 k as rs)
  obtain l e p1 where p1: "append_loop (int k) n as p = Some (l, e, p1)" "core p1 t" "kept t p p1" "new_res p1 t (allocated rs)"
    using append_loop_ok [of p t n as "allocated rs" "int k"] "3.prems" by auto
  have n: "n \<in> owned p1 t" "operation (pn_data (store p1 n)) = PD_OP_READ" using "3.prems" kept_owned [OF p1(3)] p1(3) by (auto simp: kept_def)
  show ?case using "3.IH" [OF p1(2) n p1(4)] p1 "3.prems" kept_trans [OF p1(3)] by (cases "k = 0"; cases "l < 0") auto
qed auto

lemma read_ok:
  assumes c: "core p t" "table p t" "eventful p t n" and r: "operation (pn_data (store p n)) = PD_OP_READ" "new_res p t (allocated rs)"
  shows "\<exists>p' t'. handle_read n rs p = Some p' \<and> core p' t' \<and> table p' t'"
proof -
  obtain out p1 where p1: "read_loop n rs p = Some (out, p1)" "core p1 t" "kept t p p1" using read_loop_ok [OF c(1) eventful_owned [OF c(3)] r] by blast
  have t1: "table p1 t" "eventful p1 t n" using kept_table [OF p1(3) c(2)] kept_eventful [OF p1(3) c(3)] by auto
  show ?thesis
  proof (cases out)
    case None then show ?thesis using p1 t1 by (auto simp: handle_read_def)
  next
    case (Some le)
    obtain l e where le: "le = (l, e)" by (cases le)
    have "handle_read n rs p = (do { (gone, p) \<leftarrow> remove_node n p1; if gone then Some p else finish n (if l = 0 then PR_ST_FINISHED else PR_ST_ERROR) (if l = 0 then EOK else e) p })"
      using p1(1) Some le by (cases "remove_node n p1") (auto simp: handle_read_def)
    then show ?thesis using remove_finish_ok [OF p1(2) t1] by simp
  qed
qed

subsubsection \<open>Time-outs\<close>

definition drops :: "nat list \<Rightarrow> poller \<Rightarrow> poller" where
  "drops ns p = p\<lparr>nodes := (\<lambda>k. if \<exists>n\<in>set ns. fd_of p n = int k then NULL else nodes p k),
     epoll := (\<lambda>f. if f \<ge> 0 \<and> f \<in> fd_of p ` set ns then None else epoll p f)\<rparr>"

lemma drops_step: "drops ns ((drop_fd n p)\<lparr>timeo_list := xs\<rparr>) = (drops (n # ns) p)\<lparr>timeo_list := xs\<rparr>"
  "drops ns ((drop_fd n p)\<lparr>tree_first := f, timeo_tree := h\<rparr>) = (drops (n # ns) p)\<lparr>tree_first := f, timeo_tree := h\<rparr>"
  by (rule poller.equality; auto simp: drops_def drop_fd_def fun_eq_iff)+

lemma drop_fd_sel [simp]: "store (drop_fd n p) = store p" "timeo_tree (drop_fd n p) = timeo_tree p" "tree_first (drop_fd n p) = tree_first p" "timeo_list (drop_fd n p) = timeo_list p"
  by (auto simp: drop_fd_def)

lemma drops_sel [simp]: "store (drops ns p) = store p" "timeo_tree (drops ns p) = timeo_tree p" "tree_first (drops ns p) = tree_first p" "timeo_list (drops ns p) = timeo_list p"
  "no_timeo_list (drops ns p) = no_timeo_list p" "timer (drops ns p) = timer p" "pipe (drops ns p) = pipe p" "results (drops ns p) = results p" "max_open_files (drops ns p) = max_open_files p"
  by (auto simp: drops_def)

abbreviation due :: "timespec \<Rightarrow> poller \<Rightarrow> nat \<Rightarrow> bool" where
  "due now p n \<equiv> dl p n < key now"

lemma expire_list_eq:
  "timeo_list p = xs \<Longrightarrow> expire_list now xs p = (takeWhile (due now p) xs, (drops (takeWhile (due now p) xs) p)\<lparr>timeo_list := dropWhile (due now p) xs\<rparr>)"
proof (induction xs arbitrary: p)
  case Nil then show ?case by (simp add: drops_def)
next
  case (Cons n ns)
  then show ?case
  proof (cases "due now p n")
    case True
    then show ?thesis using Cons.IH [of "(drop_fd n p)\<lparr>timeo_list := ns\<rparr>"] by (simp add: timeout_cmp_less drops_step Let_def)
  next
    case False
    then show ?thesis using Cons.prems by (simp add: timeout_cmp_less drops_def)
  qed
qed

lemma expire_tree_eq:
  assumes "is_tree (timeo_tree p) t" "rb_ok t" "tree_first p = hd0 (ino t)"
  shows "\<exists>h t'. expire_tree now p = Some (takeWhile (due now p) (ino t), (drops (takeWhile (due now p) (ino t)) p)\<lparr>tree_first := hd0 (ino t'), timeo_tree := h\<rparr>) \<and>
    is_tree h t' \<and> rb_ok t' \<and> ino t' = dropWhile (due now p) (ino t)"
  using assms
proof (induction "ino t" arbitrary: p t)
  case Nil
  then have "expire_tree now p = Some ([], p)" by (simp add: expire_tree.simps [of now p])
  then show ?case using Nil by (intro exI [of _ "timeo_tree p"] exI [of _ t]) (auto simp: drops_def)
next
  case (Cons n ns)
  have it: "ino t = n # ns" using Cons.hyps(2) by simp
  have n: "n \<noteq> 0" "tree_first p = n" "n \<in> set (ino t)" using it Cons.prems ino_nonzero [OF Cons.prems(1)] by auto
  show ?case
  proof (cases "due now p n")
    case False
    then have "expire_tree now p = Some ([], p)" using n by (simp add: expire_tree.simps [of now p] timeout_cmp_less)
    then show ?thesis using Cons.prems False it by (intro exI [of _ "timeo_tree p"] exI [of _ t]) (simp add: drops_def)
  next
    case True
    have nx: "rb_next n (timeo_tree p) = Some (hd0 ns)" using rb_next_prev(1) [OF Cons.prems(1), of "[]" n ns] it by simp
    obtain h1 t1 where e: "rb_erase n (timeo_tree p) = Some h1" "is_tree h1 t1" "rb_ok t1" "ino t1 = ns"
      using rb_erase_remove1 [OF Cons.prems(1,2) n(3)] it by auto
    let ?q = "(drop_fd n p)\<lparr>tree_first := hd0 ns, timeo_tree := h1\<rparr>"
    obtain h t' where h: "expire_tree now ?q = Some (takeWhile (due now p) ns, (drops (takeWhile (due now p) ns) ?q)\<lparr>tree_first := hd0 (ino t'), timeo_tree := h\<rparr>)"
      "is_tree h t'" "rb_ok t'" "ino t' = dropWhile (due now p) ns" using Cons.hyps(1) [OF e(4) [symmetric], of ?q] e by auto
    have "expire_tree now p = Some (n # takeWhile (due now p) ns, (drops (n # takeWhile (due now p) ns) p)\<lparr>tree_first := hd0 (ino t'), timeo_tree := h\<rparr>)"
      using n True nx e(1) h(1) by (simp add: expire_tree.simps [of now p] timeout_cmp_less drops_step)
    then show ?thesis using h True it by (intro exI [of _ h] exI [of _ t']) simp
  qed
qed

lemma core_shrink:
  assumes c: "core p t" and q: "queue p' t'" "timed p' t' \<subseteq> timed p t" "listed p' t' = listed p t - S" "S \<subseteq> listed p t"
    and f: "store p' = store p" "timer p' = timer p" "pipe p' = pipe p" "results p' = results p"
  shows "core p' t'" "\<And>n. n \<in> S \<Longrightarrow> n \<noteq> 0 \<and> n \<notin> refs p' t'"
proof -
  have o: "owned p' t' = owned p t - S" using q(3,4) f(3) coreD(3) [OF c] by (auto simp: owned_def retired_def)
  have "armed p' t'" using coreD(2) [OF c] q(2) f by (auto simp: armed_def)
  moreover have "retired p' t'" using coreD(3) [OF c] unfolding retired_def f q(3) by blast
  moreover have "spare p' t'" using coreD(4) [OF c] unfolding spare_def f o by blast
  ultimately show "core p' t'" using q(1) by (simp add: core_def)
  fix n assume n: "n \<in> S"
  then have "n \<in> owned p t" "n \<notin> set (results p)" "n \<noteq> 0"
    using q(4) coreD(3) [OF c] queueD(10,11) [OF coreD(1) [OF c]] by (auto simp: owned_def retired_def listed_def timed_def)
  moreover have "n \<noteq> pn_res (store p m)" if "m \<in> owned p t" for m using coreD(4) [OF c] that \<open>n \<in> owned p t\<close> \<open>n \<noteq> 0\<close> unfolding spare_def by auto
  ultimately show "n \<noteq> 0 \<and> n \<notin> refs p' t'" using n unfolding refs_def o f by auto
qed

lemma deliver_ok:
  assumes "core p t" "distinct ns" "\<And>n. n \<in> set ns \<Longrightarrow> n \<noteq> 0 \<and> n \<notin> refs p t"
  shows "\<exists>p'. deliver ns st e p = Some p' \<and> core p' t \<and>
    p' = p\<lparr>store := (\<lambda>n. if n \<in> set ns then (store p n)\<lparr>pn_error := e, pn_state := st\<rparr> else store p n), results := results p @ ns\<rparr>"
  using assms
proof (induction ns arbitrary: p)
  case Nil then show ?case by simp
next
  case (Cons n ns)
  obtain p1 where f: "finish n st e p = Some p1" "core p1 t" "p1 = (upd n (\<lambda>x. x\<lparr>pn_error := e, pn_state := st\<rparr>) p)\<lparr>results := results p @ [n]\<rparr>"
    using core_finish [OF Cons.prems(1), of n st e] Cons.prems(3) by auto
  have no: "n \<notin> owned p t" using Cons.prems(3) [of n] by (auto dest: refsI)
  have "refs p1 t = insert n (refs p t)" using refs_results [of "upd n (\<lambda>x. x\<lparr>pn_error := e, pn_state := st\<rparr>) p" n t] core_upd(2) [OF no] unfolding f(3) by simp
  then obtain p' where p': "deliver ns st e p1 = Some p'" "core p' t"
    "p' = p1\<lparr>store := (\<lambda>n. if n \<in> set ns then (store p1 n)\<lparr>pn_error := e, pn_state := st\<rparr> else store p1 n), results := results p1 @ ns\<rparr>"
    using Cons.IH [OF f(2)] Cons.prems by fastforce
  have "p' = p\<lparr>store := (\<lambda>m. if m \<in> set (n # ns) then (store p m)\<lparr>pn_error := e, pn_state := st\<rparr> else store p m), results := results p @ (n # ns)\<rparr>"
    using Cons.prems(2) unfolding p'(3) f(3) by (auto simp: upd_def fun_eq_iff)
  then show ?case using f(1) p'(1,2) by simp
qed

lemma sorted_takeWhile: "sorted (map f xs) \<Longrightarrow> set (takeWhile (\<lambda>x. f x < k) xs) = {x\<in>set xs. f x < k} \<and> set (dropWhile (\<lambda>x. f x < k) xs) = {x\<in>set xs. \<not> f x < k}"
  by (induction xs) auto

lemma sorted_map_dropWhile: "sorted (map f xs) \<Longrightarrow> sorted (map f (dropWhile P xs))"
  by (induction xs) auto

lemma tab_drops:
  assumes t: "tab N L F M" "S \<subseteq> L"
  shows "tab (\<lambda>k. if \<exists>n\<in>S. F n = int k then NULL else N k) (L - S) F M"
proof (rule tabI)
  fix k n assume "(if \<exists>n\<in>S. F n = int k then NULL else N k) = Node n"
  then have "N k = Node n" "\<not> (\<exists>n\<in>S. F n = int k)" by (auto split: if_splits)
  then show "n \<in> L - S \<and> F n = int k" using tabD(1) [OF t(1)] by blast
next
  fix n assume n: "n \<in> L - S" "F n \<ge> 0"
  then have "\<not> (\<exists>m\<in>S. F m = int (nat (F n)))" using tab_inj [OF t(1), of n] t(2) by fastforce
  then show "(if \<exists>m\<in>S. F m = int (nat (F n)) then NULL else N (nat (F n))) = Node n \<and> F n < int M" using tabD(2) [OF t(1), of n] n by auto
qed

text \<open>What is left of the queue after the nodes that are due have been taken out.\<close>

lemma expire_ok:
  assumes c: "core p t" "table p t"
  shows "\<exists>p2 t2 out1 out2. expire_list now (timeo_list p) p = (out1, p2) \<and> (\<exists>p3. expire_tree now p2 = Some (out2, p3) \<and> core p3 t2 \<and> table p3 t2 \<and>
    listed p3 t2 = listed p t - set (out1 @ out2) \<and> store p3 = store p \<and> results p3 = results p \<and> pipe p3 = pipe p \<and> p3 = drops (out1 @ out2) p3 \<and>
    set (out1 @ out2) = {n\<in>timed p t. due now p n} \<and> distinct (out1 @ out2) \<and> (\<forall>n\<in>set (out1 @ out2). n \<noteq> 0 \<and> n \<notin> refs p3 t2) \<and>
    (\<forall>k. nodes p3 k = nodes p k \<or> (\<exists>n\<in>set (out1 @ out2). fd_of p n = int k)))"
proof -
  note q = coreD(1) [OF c(1)]
  define out1 where "out1 = takeWhile (due now p) (timeo_list p)"
  define out2 where "out2 = takeWhile (due now p) (ino t)"
  define p2 where "p2 = (drops out1 p)\<lparr>timeo_list := dropWhile (due now p) (timeo_list p)\<rparr>"
  have e1: "expire_list now (timeo_list p) p = (out1, p2)" by (simp add: expire_list_eq out1_def p2_def)
  have d2: "due now p2 = due now p" by (simp add: p2_def fun_eq_iff)
  obtain h t2 where e2: "expire_tree now p2 = Some (out2, (drops out2 p2)\<lparr>tree_first := hd0 (ino t2), timeo_tree := h\<rparr>)" "is_tree h t2" "rb_ok t2" "ino t2 = dropWhile (due now p) (ino t)"
    using expire_tree_eq [of p2 t now] queueD(1,2,4) [OF q] d2 by (auto simp: p2_def out2_def)
  define p3 where "p3 = (drops out2 p2)\<lparr>tree_first := hd0 (ino t2), timeo_tree := h\<rparr>"
  have f: "store p3 = store p" "results p3 = results p" "pipe p3 = pipe p" "timer p3 = timer p" "max_open_files p3 = max_open_files p" "no_timeo_list p3 = no_timeo_list p"
    "timeo_list p3 = dropWhile (due now p) (timeo_list p)" "timeo_tree p3 = h" "tree_first p3 = hd0 (ino t2)" by (simp_all add: p3_def p2_def)
  note w1 = sorted_takeWhile [OF queueD(5) [OF q], of "key now"] and w2 = sorted_takeWhile [OF queueD(3) [OF q], of "key now"]
  have out: "set (out1 @ out2) = {n\<in>timed p t. due now p n}" using w1 w2 by (auto simp: out1_def out2_def timed_def)
  have dis: "distinct (out1 @ out2)" using queueD(6,7,9) [OF q] w1 w2 by (auto simp: out1_def out2_def)
  have tl: "timed p3 t2 = timed p t - set (out1 @ out2)" using w1 w2 f(7) e2(4) unfolding out by (auto simp: timed_def)
  have "set (out1 @ out2) \<inter> set (no_timeo_list p) = {}" using queueD(9) [OF q] unfolding out by (auto simp: timed_def)
  then have l: "listed p3 t2 = listed p t - set (out1 @ out2)" using tl f(6) by (auto simp: listed_def)
  have q3: "queue p3 t2"
  proof (rule queueI)
    show "sorted (map (dl p3) (ino t2))" "sorted (map (dl p3) (timeo_list p3))"
      using queueD(3,5) [OF q] unfolding f e2(4) by (simp_all add: sorted_map_dropWhile)
    show "distinct (ino t2 @ timeo_list p3 @ no_timeo_list p3)" using queueD(9) [OF q] set_dropWhileD unfolding f e2(4) by fastforce
    show "0 \<notin> set (timeo_list p3) \<union> set (no_timeo_list p3)" using queueD(10) [OF q] unfolding f by (auto dest: set_dropWhileD)
    show "in_rbtree (store p3 n)" if "n \<in> set (ino t2)" for n using queueD(12) [OF q, of n] that unfolding f e2(4) by (auto dest: set_dropWhileD)
    show "\<not> in_rbtree (store p3 n)" if "n \<in> set (timeo_list p3) \<union> set (no_timeo_list p3)" for n
      using queueD(13) [OF q, of n] that unfolding f by (auto dest: set_dropWhileD)
  qed (use e2 f in simp_all)
  have sub: "set (out1 @ out2) \<subseteq> listed p t" unfolding out by (auto simp: listed_def)
  note s = core_shrink [OF c(1) q3 _ l sub f(1,4,3,2)]
  have N: "nodes p3 k = (if \<exists>n\<in>set (out1 @ out2). fd_of p n = int k then NULL else nodes p k)" for k by (auto simp: p3_def p2_def drops_def)
  have "nodes p3 = (\<lambda>k. if \<exists>n\<in>set (out1 @ out2). fd_of p n = int k then NULL else nodes p k)" using N by blast
  then have "table p3 t2" using tab_drops [OF c(2) sub] l f(1,5) by simp
  moreover have "p3 = drops (out1 @ out2) p3" by (rule poller.equality) (auto simp: p3_def p2_def drops_def fun_eq_iff)
  ultimately show ?thesis using e1 e2(1) s tl l f(1-3) out dis N unfolding p3_def [symmetric]
    by (intro exI [of _ p2] exI [of _ t2] exI [of _ out1] exI [of _ out2] conjI exI [of _ p3]) auto
qed

lemma timeout_ok:
  assumes c: "core p t" "table p t"
  shows "\<exists>p' t' out. handle_timeout now p = Some p' \<and> core p' t' \<and> table p' t' \<and> results p' = results p @ out \<and> distinct out \<and> set out = {n\<in>timed p t. due now p n} \<and>
    listed p' t' = listed p t - set out \<and> (\<forall>n. n \<notin> set out \<longrightarrow> store p' n = store p n) \<and>
    (\<forall>n\<in>set out. pn_state (store p' n) = PR_ST_ERROR \<and> pn_error (store p' n) = ETIMEDOUT \<and>
       (fd_of p n \<ge> 0 \<longrightarrow> nodes p' (nat (fd_of p n)) = NULL \<and> epoll p' (fd_of p n) = None)) \<and>
    (\<forall>k. nodes p' k = nodes p k \<or> (\<exists>n\<in>set out. fd_of p n = int k)) \<and> pipe p' = pipe p \<and>
    (\<forall>n. removed (store p' n) = removed (store p n) \<and> in_rbtree (store p' n) = in_rbtree (store p n) \<and> pn_data (store p' n) = pn_data (store p n))"
proof -
  obtain p2 t2 out1 out2 p3 where e: "expire_list now (timeo_list p) p = (out1, p2)" "expire_tree now p2 = Some (out2, p3)" "core p3 t2" "table p3 t2"
    "listed p3 t2 = listed p t - set (out1 @ out2)" "store p3 = store p" "results p3 = results p" "pipe p3 = pipe p" "p3 = drops (out1 @ out2) p3"
    "set (out1 @ out2) = {n\<in>timed p t. due now p n}" "distinct (out1 @ out2)" "\<forall>n\<in>set (out1 @ out2). n \<noteq> 0 \<and> n \<notin> refs p3 t2"
    "\<forall>k. nodes p3 k = nodes p k \<or> (\<exists>n\<in>set (out1 @ out2). fd_of p n = int k)" using expire_ok [OF c, of now] by (elim exE conjE) (rule that)
  define out where "out = out1 @ out2"
  obtain p' where d: "deliver out PR_ST_ERROR ETIMEDOUT p3 = Some p'" "core p' t2"
    "p' = p3\<lparr>store := (\<lambda>n. if n \<in> set out then (store p3 n)\<lparr>pn_error := ETIMEDOUT, pn_state := PR_ST_ERROR\<rparr> else store p3 n), results := results p3 @ out\<rparr>"
    using deliver_ok [OF e(3), of out PR_ST_ERROR ETIMEDOUT] e(11,12) by (auto simp: out_def)
  have l: "listed p' t2 = listed p3 t2" unfolding d(3) by (simp add: listed_def timed_def)
  have fd: "fd_of p' n = fd_of p n" for n unfolding d(3) using e(6) by simp
  have N: "nodes p3 (nat (fd_of p n)) = NULL" "epoll p3 (fd_of p n) = None" if "n \<in> set out" "fd_of p n \<ge> 0" for n
  proof -
    have "nodes (drops out p3) (nat (fd_of p n)) = NULL" "epoll (drops out p3) (fd_of p n) = None" using that e(6) by (auto simp: drops_def)
    then show "nodes p3 (nat (fd_of p n)) = NULL" "epoll p3 (fd_of p n) = None" using e(9) unfolding out_def by metis+
  qed
  have "table p' t2" using tab_cong [OF e(4), of "fd_of p'"] fd e(6) unfolding l by (simp add: d(3))
  moreover have "handle_timeout now p = Some p'" using e(1,2) d(1) by (simp add: handle_timeout_def out_def)
  ultimately show ?thesis using d(2) e(5-13) l N unfolding out_def [symmetric]
    by (intro exI [of _ p'] exI [of _ t2] exI [of _ out]) (auto simp: d(3))
qed

subsubsection \<open>The pipe and the result queue\<close>

lemma results_pipe_ok:
  assumes "core p t" "table p t" "pipe p = ns @ rs"
  shows "\<exists>s p'. add_results ns (p\<lparr>pipe := rs\<rparr>) = Some (s, p') \<and> core p' t \<and> table p' t \<and> (s \<longleftrightarrow> 0 \<in> set ns) \<and>
    p' = p\<lparr>pipe := rs, results := results p @ filter (\<lambda>n. n \<noteq> 0) ns\<rparr>"
  using assms
proof (induction ns arbitrary: p)
  case Nil then show ?case by (intro exI [of _ False] exI [of _ p]) auto
next
  case (Cons n ns)
  define q where "q = (if n = 0 then p\<lparr>pipe := ns @ rs\<rparr> else p\<lparr>pipe := ns @ rs, results := results p @ [n]\<rparr>)"
  have f: "pipe q = ns @ rs" "nodes q = nodes p" "store q = store p" "max_open_files q = max_open_files p" "results q = results p @ filter (\<lambda>n. n \<noteq> 0) [n]"
    "timed q t = timed p t" "listed q t = listed p t" by (simp_all add: q_def timed_def listed_def)
  have n: "n \<noteq> 0 \<Longrightarrow> n \<in> owned p t \<and> n \<notin> set (results p) \<and> n \<notin> set ns \<and> n \<notin> set rs \<and> n \<notin> listed p t"
    using coreD(3) [OF Cons.prems(1)] Cons.prems(3) by (auto simp: retired_def owned_def)
  have o: "owned q t = owned p t - {n}" using n Cons.prems(3) f coreD(1) [OF Cons.prems(1)] queueD(10,11) [of p t]
    by (cases "n = 0") (auto simp: owned_def listed_def timed_def q_def)
  have "queue q t" "armed q t" using coreD(1,2) [OF Cons.prems(1)] by (auto simp: queue_def armed_def q_def timed_def)
  moreover have "retired q t" using coreD(3) [OF Cons.prems(1)] n Cons.prems(3) unfolding retired_def f by (cases "n = 0") auto
  moreover have "spare q t" using coreD(4) [OF Cons.prems(1)] n unfolding spare_def f o by (cases "n = 0") auto
  ultimately have q: "core q t" "table q t" using Cons.prems(2) f by (simp_all add: core_def)
  obtain s p' where p': "add_results ns (q\<lparr>pipe := rs\<rparr>) = Some (s, p')" "core p' t" "table p' t" "s \<longleftrightarrow> 0 \<in> set ns"
    "p' = q\<lparr>pipe := rs, results := results q @ filter (\<lambda>n. n \<noteq> 0) ns\<rparr>" using Cons.IH [OF q f(1)] by blast
  have "q\<lparr>pipe := rs\<rparr> = (if n = 0 then p\<lparr>pipe := rs\<rparr> else p\<lparr>pipe := rs, results := results p @ [n]\<rparr>)" by (rule poller.equality) (auto simp: q_def)
  then have "add_results (n # ns) (p\<lparr>pipe := rs\<rparr>) = Some (n = 0 \<or> s, p')" using p'(1) n by (auto simp: add_result_def)
  moreover have "p' = p\<lparr>pipe := rs, results := results p @ filter (\<lambda>n. n \<noteq> 0) (n # ns)\<rparr>" unfolding p'(5) by (simp add: q_def)
  ultimately show ?case using p'(2-4) by (intro exI [of _ "n = 0 \<or> s"] exI [of _ p']) auto
qed

lemma pipe_ok:
  assumes c: "core p t" "table p t" "pipe p \<noteq> []"
  shows "\<exists>s p'. handle_pipe k p = Some (s, p') \<and> core p' t \<and> table p' t \<and> (s \<longleftrightarrow> 0 \<in> set (take k (pipe p))) \<and>
    p' = p\<lparr>pipe := drop k (pipe p), results := results p @ filter (\<lambda>n. n \<noteq> 0) (take k (pipe p))\<rparr>"
  using results_pipe_ok [OF c(1,2), of "take k (pipe p)" "drop k (pipe p)"] c(3) by (simp add: handle_pipe_def)

text \<open>Another thread takes the first result; its node belongs to that thread from then on.\<close>

lemma take_result_ok: "core p t \<Longrightarrow> table p t \<Longrightarrow> core (p\<lparr>results := tl (results p)\<rparr>) t \<and> table (p\<lparr>results := tl (results p)\<rparr>) t"
proof -
  assume c: "core p t" "table p t"
  let ?p = "p\<lparr>results := tl (results p)\<rparr>"
  have s: "timed ?p t = timed p t" "listed ?p t = listed p t" "owned ?p t = owned p t" "set (tl (results p)) \<subseteq> set (results p)"
    by (auto simp: timed_def listed_def owned_def dest: list.set_sel(2) [rotated], cases "results p", auto)
  have "queue ?p t" "armed ?p t" using coreD(1,2) [OF c(1)] by (simp_all add: queue_def armed_def s(1))
  moreover have "retired ?p t" using coreD(3) [OF c(1)] s(4) unfolding retired_def s(2) by (auto simp: distinct_tl)
  moreover have "spare ?p t" using coreD(4) [OF c(1)] s(4) unfolding spare_def s(3) by auto
  ultimately show ?thesis using c(2) s(2) by (simp add: core_def)
qed

subsection \<open>Runs\<close>

datatype call =
  Add poller_data int nat nat timespec errno
| Del int
| Mod poller_data int nat nat timespec
| SetTimeout int int timespec
| AddTimer nat timespec nat timespec
| Start nat nat
| Arm
| Expire timespec
| Connect nat errno
| Read nat "read_answer list"
| PipeRead nat
| TakeResult

text \<open>A call by a user, a step of the poller thread, or another thread that takes a result.\<close>

fun poller_call :: "call \<Rightarrow> poller \<Rightarrow> (errno \<times> poller) option" where
  "poller_call (Add d ms res node now ctl) p = poller_add d ms res node now ctl p"
| "poller_call (Del fd) p = poller_del fd p"
| "poller_call (Mod d ms res node now) p = poller_mod d ms res node now p"
| "poller_call (SetTimeout fd ms now) p = poller_set_timeout fd ms now p"
| "poller_call (AddTimer ctxt v node now) p = poller_add_timer ctxt v node now p"
| "poller_call (Start rd wr) p = poller_start (Some (rd, wr)) True p"
| "poller_call Arm p = Some (EOK, set_timer p)"
| "poller_call (Expire now) p = map_option (Pair EOK) (handle_timeout now p)"
| "poller_call (Connect n e) p = map_option (Pair EOK) (handle_connect n e p)"
| "poller_call (Read n rs) p = map_option (Pair EOK) (handle_read n rs p)"
| "poller_call (PipeRead k) p = map_option (\<lambda>(s, p). (EOK, p)) (handle_pipe k p)"
| "poller_call TakeResult p = Some (EOK, p\<lparr>results := tl (results p)\<rparr>)"

text \<open>What a call may rely on: \<^verbatim>\<open>malloc\<close> returns addresses nobody uses, deadlines are not zero, events name nodes that are registered or wait in the pipe, no
  call names a descriptor of the poller itself, and a read of the pipe follows its event.\<close>

fun admissible :: "poller \<Rightarrow> shape \<Rightarrow> call \<Rightarrow> bool" where
  "admissible p t (Add d ms res node now ctl) = new_ok p t d ms res node now"
| "admissible p t (Del fd) = (bad_fd fd p \<or> nodes p (nat fd) \<noteq> POLLER_NODE_ERROR)"
| "admissible p t (Mod d ms res node now) = new_ok p t d ms res node now"
| "admissible p t (SetTimeout fd ms now) = ((bad_fd fd p \<or> nodes p (nat fd) \<noteq> POLLER_NODE_ERROR) \<and> (ms \<ge> 0 \<longrightarrow> armable (node_set_timeout now ms)))"
| "admissible p t (AddTimer ctxt v node now) = ((node = 0 \<or> fresh p t node) \<and> armable (add_time now (tv_sec v) (tv_nsec v)))"
| "admissible p t (Start rd wr) = (rd < max_open_files p \<and> wr < max_open_files p \<and> (\<forall>n. nodes p rd \<noteq> Node n \<and> nodes p wr \<noteq> Node n))"
| "admissible p t Arm = True"
| "admissible p t (Expire now) = True"
| "admissible p t (Connect n e) = eventful p t n"
| "admissible p t (Read n rs) = (eventful p t n \<and> operation (pn_data (store p n)) = PD_OP_READ \<and> new_res p t (allocated rs))"
| "admissible p t (PipeRead k) = (pipe p \<noteq> [])"
| "admissible p t TakeResult = True"

text \<open>Reachable states, each with the shape its tree has.\<close>

inductive poller_reach :: "poller \<Rightarrow> shape \<Rightarrow> bool" where
  create: "poller_create maxfiles pfd tfd ok mem = Some (Some p) \<Longrightarrow> poller_reach p Lf"
| call: "poller_reach p t \<Longrightarrow> admissible p t c \<Longrightarrow> poller_call c p = Some (e, p') \<Longrightarrow> is_tree (timeo_tree p') t' \<Longrightarrow> poller_reach p' t'"

lemma shape_unique: "tree_at h q t \<Longrightarrow> tree_at h q' t' \<Longrightarrow> rt t = rt t' \<Longrightarrow> t = t'"
proof (induction t arbitrary: q q' t')
  case Lf then show ?case by (cases t') auto
next
  case (Nd l a c r)
  then obtain l' c' r' where t': "t' = Nd l' a c' r'" by (cases t') auto
  then show ?case using Nd.prems Nd.IH(1) [of a a l'] Nd.IH(2) [of a a r'] by auto
qed

lemma is_tree_unique: "is_tree h t \<Longrightarrow> is_tree h t' \<Longrightarrow> t = t'"
  using shape_unique [of h 0 t 0 t'] by (simp add: is_tree_def)

lemma start_ok:
  assumes c: "core p t" "table p t" and s: "admissible p t (Start rd wr)"
  shows "\<exists>p'. poller_start (Some (rd, wr)) True p = Some (EOK, p') \<and> core p' t \<and> table p' t"
proof -
  let ?p = "p\<lparr>stopping := False, nodes := (nodes p)(rd := POLLER_NODE_ERROR, wr := POLLER_NODE_ERROR), stopped := False\<rparr>"
  have l: "listed ?p t = listed p t" by (simp add: listed_def timed_def)
  have "core ?p t" using c(1) by (subst pcore_cong(1)) simp_all
  moreover have "table ?p t" unfolding l
  proof (rule tabI)
    show "n \<in> listed p t \<and> fd_of ?p n = int k" if "nodes ?p k = Node n" for k n using that tabD(1) [OF c(2), of k n] by (auto split: if_splits)
    show "nodes ?p (nat (fd_of ?p n)) = Node n \<and> fd_of ?p n < int (max_open_files ?p)" if "n \<in> listed p t" "fd_of ?p n \<ge> 0" for n
      using that tabD(2) [OF c(2), of n] s by auto
  qed
  ultimately show ?thesis using s by (auto simp: poller_start_def)
qed

lemma call_ok:
  assumes c: "core p t" "table p t" and a: "admissible p t c"
  shows "\<exists>e p' t'. poller_call c p = Some (e, p') \<and> core p' t' \<and> table p' t'"
proof (cases c)
  case (Add d ms res node now ctl) then show ?thesis using add_ok [OF c] a by simp
next
  case (Del fd) then show ?thesis using del_ok [OF c] a by simp
next
  case (Mod d ms res node now) then show ?thesis using mod_ok [OF c] a by simp
next
  case (SetTimeout fd ms now) then show ?thesis using set_timeout_ok [OF c] a by simp
next
  case (AddTimer ctxt v node now) then show ?thesis using add_timer_ok [OF c] a by simp
next
  case (Start rd wr)
  obtain p' where "poller_start (Some (rd, wr)) True p = Some (EOK, p')" "core p' t" "table p' t" using start_ok [OF c, of rd wr] a Start by blast
  then show ?thesis using Start by auto
next
  case Arm then show ?thesis using set_timer_ok(1,2) [OF c] by auto
next
  case (Expire now)
  obtain p' t' where "handle_timeout now p = Some p'" "core p' t'" "table p' t'" using timeout_ok [OF c, of now] by (elim exE conjE) (rule that)
  then show ?thesis using Expire by auto
next
  case (Connect n e) then show ?thesis using connect_ok [OF c, of n e] a by auto
next
  case (Read n rs) then show ?thesis using read_ok [OF c, of n rs] a by auto
next
  case (PipeRead k) then show ?thesis using pipe_ok [OF c, of k] a by fastforce
next
  case TakeResult then show ?thesis using take_result_ok [OF c] by auto
qed

lemma reach_ok: "poller_reach p t \<Longrightarrow> core p t \<and> table p t"
proof (induction rule: poller_reach.induct)
  case (create maxfiles pfd tfd ok mem p)
  then have p: "timeo_tree p = empty_heap" "tree_first p = 0" "timeo_list p = []" "no_timeo_list p = []" "pipe p = []" "results p = []" "\<forall>k n. nodes p k \<noteq> Node n"
    by (auto simp: poller_create_def Let_def split: option.splits if_splits)
  then have l: "timed p Lf = {}" "listed p Lf = {}" "owned p Lf = {}" by (simp_all add: timed_def listed_def owned_def)
  have "is_tree empty_heap Lf" "rb_ok Lf" by (simp_all add: is_tree_def rb_ok_def empty_heap_def)
  then show ?case using p l by (simp add: core_def queue_def armed_def retired_def spare_def tab_def)
next
  case (call p t c e p' t')
  obtain t1 where "core p' t1" "table p' t1" using call_ok [of p t c] call by auto
  moreover have "t1 = t'" using is_tree_unique [OF queueD(1) [OF coreD(1)]] calculation call.hyps by blast
  ultimately show ?case by simp
qed

subsection \<open>Properties of reachable states\<close>

text \<open>A new poller with room for sixteen descriptors, and a node that is waiting for its connection.\<close>

definition zero_node :: poller_node where
  "zero_node = \<lparr>pn_state = PR_ST_SUCCESS, pn_error = EOK, pn_data = \<lparr>operation = PD_OP_TIMER, pd_fd = -1, pd_context = 0, message = 0\<rparr>, in_rbtree = False,
     removed = False, events = 0, timeout = \<lparr>tv_sec = 0, tv_nsec = 0\<rparr>, pn_res = 0\<rparr>"

definition poller0 :: poller where
  "poller0 = \<lparr>max_open_files = 16, store = (\<lambda>_. zero_node), nodes = (\<lambda>_. NULL)(4 := POLLER_NODE_ERROR, 3 := POLLER_NODE_ERROR), timeo_tree = empty_heap, tree_first = 0,
     timeo_list = [], no_timeo_list = [], timer = None, epoll = (\<lambda>_. None), pipe = [], results = [], stopped = True, stopping = True\<rparr>"

definition conn_data :: poller_data where
  "conn_data = \<lparr>operation = PD_OP_CONNECT, pd_fd = 7, pd_context = 0, message = 0\<rparr>"

definition time5 :: timespec where
  "time5 = \<lparr>tv_sec = 5, tv_nsec = 0\<rparr>"

lemma poller0_reach: "poller_reach poller0 Lf"
  by (rule poller_reach.create [of 16 "Some 3" "Some 4" True "\<lambda>_. zero_node"]) (simp add: poller_create_def poller0_def)

lemma poller0_sets: "timed poller0 Lf = {}" "listed poller0 Lf = {}" "owned poller0 Lf = {}" "refs poller0 Lf = {}"
  by (simp_all add: timed_def listed_def owned_def refs_def poller0_def)

lemma poller0_add: "admissible poller0 Lf (Add conn_data 1000 0 100 time5 EOK)" "admissible poller0 Lf (AddTimer 0 time5 100 time5)"
  by (simp_all add: new_ok_def fresh_def poller0_sets data_get_event_def conn_data_def armable_def node_set_timeout_def add_time_def time5_def)

definition poller1 :: poller where
  "poller1 = poller0\<lparr>store := (\<lambda>_. zero_node)(100 := zero_node\<lparr>pn_data := \<lparr>operation = PD_OP_TIMER, pd_fd = -1, pd_context = 0, message = 0\<rparr>, timeout := \<lparr>tv_sec = 10, tv_nsec = 0\<rparr>\<rparr>),
     timeo_list := [100], timer := Some \<lparr>tv_sec = 10, tv_nsec = 0\<rparr>\<rparr>"

lemma poller1_reach: "poller_reach poller1 Lf"
proof (rule poller_reach.call [OF poller0_reach poller0_add(2)])
  show "poller_call (AddTimer 0 time5 100 time5) poller0 = Some (EOK, poller1)"
    by (simp add: poller_add_timer_def insert_node_def place_node_def rearm_def poller0_def poller1_def upd_def set_timerfd_def add_time_def time5_def zero_node_def fun_eq_iff)
  show "is_tree (timeo_tree poller1) Lf" by (simp add: poller1_def poller0_def is_tree_def empty_heap_def)
qed

text \<open>C27: In every reachable state of a poller, whatever calls and events came before, the list and the red-black tree of timers are sorted by deadline with the first node of the
  tree remembered, no node is in two places, flags and table agree with where each node is and with its descriptor, nodes in the pipe and in the result queue are
  not listed, and result nodes are not shared; and every admissible call returns, to a reachable state again.\<close>

theorem poller_calls_return:
  assumes "poller_reach p t"
  shows "core p t \<and> table p t \<and> (\<forall>c. admissible p t c \<longrightarrow> (\<exists>e p' t'. poller_call c p = Some (e, p') \<and> poller_reach p' t'))"
proof -
  have c: "core p t" "table p t" using reach_ok [OF assms] by auto
  have "\<exists>e p' t'. poller_call a p = Some (e, p') \<and> poller_reach p' t'" if a: "admissible p t a" for a
  proof -
    obtain e p' t' where "poller_call a p = Some (e, p')" "core p' t'" using call_ok [OF c a] by blast
    then show ?thesis using poller_reach.call [OF assms a] queueD(1) [OF coreD(1)] by blast
  qed
  then show ?thesis using c by blast
qed

theorem poller_calls_return_witness:
  "\<exists>e p' t'. poller_add conn_data 1000 0 100 time5 EOK poller0 = Some (e, p') \<and> poller_reach p' t'"
  using poller_calls_return [OF poller0_reach] poller0_add(1) by (metis poller_call.simps(1))

text \<open>C28: No deadline is missed: in every reachable state the timer descriptor is set to a time no later than the deadline of each node in the list or the tree, and
  when a round of the thread sets it, it is set exactly to the first deadline, or switched off when there is none.\<close>

theorem timer_covers_deadlines:
  assumes "poller_reach p t"
  shows "(\<forall>n\<in>timed p t. \<exists>a. timer p = Some a \<and> key a \<le> key (timeout (store p n))) \<and>
    (if timed p t = {} then timer (set_timer p) = None
     else \<exists>n\<in>timed p t. timer (set_timer p) = Some (timeout (store p n)) \<and> (\<forall>m\<in>timed p t. key (timeout (store p n)) \<le> key (timeout (store p m))))"
proof -
  have c: "core p t" "table p t" using reach_ok [OF assms] by auto
  show ?thesis using coreD(2) [OF c(1)] set_timer_ok(3,4) [OF c] by (auto simp: armed_def)
qed

theorem timer_covers_deadlines_witness:
  "timed poller1 Lf = {100} \<and> (\<exists>a. timer poller1 = Some a \<and> key a \<le> (10, 0))"
proof -
  have t: "timed poller1 Lf = {100}" "timeout (store poller1 100) = \<lparr>tv_sec = 10, tv_nsec = 0\<rparr>" by (simp_all add: timed_def poller1_def)
  then show ?thesis using timer_covers_deadlines [OF poller1_reach] by (simp add: key_def)
qed

text \<open>C29: Handling time-outs at a time \<open>now\<close> always ends; it delivers exactly the nodes whose deadline is before \<open>now\<close>, each once and marked with \<^verbatim>\<open>ETIMEDOUT\<close>, takes
  them out of the list, the tree, the table and \<^verbatim>\<open>epoll\<close>, and leaves every other node and table entry as it was.\<close>

theorem timeouts_exact:
  assumes "poller_reach p t"
  shows "\<exists>p' t' out. handle_timeout now p = Some p' \<and> poller_reach p' t' \<and> results p' = results p @ out \<and> distinct out \<and>
    set out = {n\<in>timed p t. key (timeout (store p n)) < key now} \<and> listed p' t' = listed p t - set out \<and> (\<forall>n. n \<notin> set out \<longrightarrow> store p' n = store p n) \<and>
    (\<forall>n\<in>set out. pn_state (store p' n) = PR_ST_ERROR \<and> pn_error (store p' n) = ETIMEDOUT \<and>
       (pd_fd (pn_data (store p n)) \<ge> 0 \<longrightarrow> nodes p' (nat (pd_fd (pn_data (store p n)))) = NULL \<and> epoll p' (pd_fd (pn_data (store p n))) = None)) \<and>
    (\<forall>k. nodes p' k = nodes p k \<or> (\<exists>n\<in>set out. pd_fd (pn_data (store p n)) = int k))"
proof -
  have c: "core p t" "table p t" using reach_ok [OF assms] by auto
  obtain p' t' out where o: "handle_timeout now p = Some p'" "core p' t'" "results p' = results p @ out" "distinct out" "set out = {n\<in>timed p t. due now p n}"
    "listed p' t' = listed p t - set out" "\<forall>n. n \<notin> set out \<longrightarrow> store p' n = store p n"
    "\<forall>n\<in>set out. pn_state (store p' n) = PR_ST_ERROR \<and> pn_error (store p' n) = ETIMEDOUT \<and>
       (fd_of p n \<ge> 0 \<longrightarrow> nodes p' (nat (fd_of p n)) = NULL \<and> epoll p' (fd_of p n) = None)"
    "\<forall>k. nodes p' k = nodes p k \<or> (\<exists>n\<in>set out. fd_of p n = int k)" using timeout_ok [OF c, of now] by (elim exE conjE) (rule that)
  have "poller_reach p' t'" using poller_reach.call [OF assms, of "Expire now" EOK p' t'] o(1,2) queueD(1) [OF coreD(1)] by auto
  then show ?thesis using o by (intro exI [of _ p'] exI [of _ t'] exI [of _ out] conjI)
qed

theorem timeouts_exact_witness:
  "\<exists>p' t'. handle_timeout \<lparr>tv_sec = 11, tv_nsec = 0\<rparr> poller1 = Some p' \<and> poller_reach p' t' \<and> results p' = [100]"
proof -
  obtain p' t' out where o: "handle_timeout \<lparr>tv_sec = 11, tv_nsec = 0\<rparr> poller1 = Some p'" "poller_reach p' t'" "results p' = results poller1 @ out" "distinct out"
    "set out = {n\<in>timed poller1 Lf. key (timeout (store poller1 n)) < key \<lparr>tv_sec = 11, tv_nsec = 0\<rparr>}" using timeouts_exact [OF poller1_reach, of "\<lparr>tv_sec = 11, tv_nsec = 0\<rparr>"]
    by (elim exE conjE) (rule that)
  have "set out = {100}" using o(5) by (auto simp: timed_def poller1_def key_def less_prod_def)
  then have "out = [100]" using o(4) by (cases out; cases "tl out") (auto simp: insert_eq_iff)
  then show ?thesis using o(1-3) by (auto simp: poller1_def poller0_def)
qed

subsection \<open>Faults\<close>

text \<open>The loop over the events of one round handles time-outs and the pipe after every event, while later events of the same round still name their nodes.\<close>

lemma event_after_timeout:
  assumes c: "core p t" "table p t" and n: "n \<in> set (timeo_list p)" "due now p n" "operation (pn_data (store p n)) = PD_OP_CONNECT" "fd_of p n \<ge> 0"
  shows "event_loop now False ((EvTimer, k) # (EvNode n (Answers rs e), k') # evs) p = None"
proof -
  obtain p' t' out where o: "handle_timeout now p = Some p'" "core p' t'" "set out = {n\<in>timed p t. due now p n}" "listed p' t' = listed p t - set out"
    "\<forall>n. removed (store p' n) = removed (store p n) \<and> in_rbtree (store p' n) = in_rbtree (store p n) \<and> pn_data (store p' n) = pn_data (store p n)"
    using timeout_ok [OF c, of now] by (elim exE conjE) (rule that)
  have l: "n \<in> listed p t" "\<not> in_rbtree (store p n)" using n(1) queueD(13) [OF coreD(1) [OF c(1)], of n] by (auto simp: listed_def timed_def)
  then have "\<not> removed (store p n)" using coreD(3) [OF c(1)] by (auto simp: retired_def)
  moreover have "n \<notin> listed p' t'" using o(3,4) n(1,2) by (auto simp: timed_def)
  ultimately have "handle_connect n e p' = None" using o(5) l n
    by (simp add: handle_connect_def remove_node_def unlink_node_def list_del_node_def listed_def timed_def)
  then show ?thesis using o(1,5) n(3) by (simp add: handle_node_def)
qed

lemma event_after_pipe:
  assumes c: "core p t" "table p t" and k: "pipe p \<noteq> []" "0 \<notin> set (pipe p)" "length (pipe p) \<le> k"
  shows "event_loop now False ((EvPipe, k) # (EvTimer, k') # evs) p = None"
proof -
  obtain s p1 where p1: "handle_pipe k p = Some (s, p1)" "core p1 t" "table p1 t" "s \<longleftrightarrow> 0 \<in> set (take k (pipe p))"
    "p1 = p\<lparr>pipe := drop k (pipe p), results := results p @ filter (\<lambda>n. n \<noteq> 0) (take k (pipe p))\<rparr>" using pipe_ok [OF c k(1), of k] by blast
  obtain p2 where p2: "handle_timeout now p1 = Some p2" "pipe p2 = pipe p1" using timeout_ok [OF p1(2,3), of now] by (elim exE conjE) (rule that)
  have "\<not> s" "pipe p2 = []" using p1(4,5) p2(2) k(2,3) by auto
  then show ?thesis using p1(1) p2(1) by (simp add: handle_pipe_def)
qed

lemma tree_frame: "tree_erase n p = Some q \<Longrightarrow> epoll q = epoll p" "tree_insert n p = Some q \<Longrightarrow> epoll q = epoll p"
proof -
  show "tree_erase n p = Some q \<Longrightarrow> epoll q = epoll p" unfolding tree_erase_def bind_eq_Some_conv by auto
  show "tree_insert n p = Some q \<Longrightarrow> epoll q = epoll p" unfolding tree_insert_def Let_def by (auto simp: bind_eq_Some_conv)
qed

lemma epoll_frame:
  "unlink_node n p = Some p' \<Longrightarrow> epoll p' = epoll p" "retire n st p = Some p' \<Longrightarrow> epoll p' = epoll p" "enlist n ms p = Some p' \<Longrightarrow> epoll p' = epoll p"
proof -
  show "unlink_node n p = Some p' \<Longrightarrow> epoll p' = epoll p"
    using tree_frame(1) [of n p p'] by (cases "in_rbtree (store p n)") (auto simp: unlink_node_def list_del_node_def split: if_splits)
  show "retire n st p = Some p' \<Longrightarrow> epoll p' = epoll p" by (auto simp: retire_def add_result_def Let_def split: if_splits)
  have "place_node n p = Some q \<Longrightarrow> epoll q = epoll p" for p q using tree_frame(2) [of n p q] by (auto simp: place_node_def split: if_splits)
  moreover have "rearm n p = Some q \<Longrightarrow> epoll q = epoll p" for p q by (auto simp: rearm_def split: if_splits list.splits)
  ultimately have "insert_node n p = Some q \<Longrightarrow> epoll q = epoll p" for p q unfolding insert_node_def bind_eq_Some_conv by metis
  then show "enlist n ms p = Some p' \<Longrightarrow> epoll p' = epoll p" by (cases "ms \<ge> 0") (auto simp: enlist_def)
qed

lemma stop_nodes_twice: "stop_nodes (n # ns) p = None"
  by (auto simp: add_result_def finish_def drop_fd_def)

lemma clear_tree_grows:
  assumes "clear_tree p = Some p'"
  shows "set (timeo_list p) \<subseteq> set (timeo_list p') \<and> no_timeo_list p' = no_timeo_list p"
proof (rule clear_tree.raw_induct [OF _ assms])
  fix f p p' assume IH: "\<And>p p'. f p = Some p' \<Longrightarrow> set (timeo_list p) \<subseteq> set (timeo_list p') \<and> no_timeo_list p' = no_timeo_list p"
    and e: "(let n = rb_node (timeo_tree p) in if n = 0 then Some p
       else do { h \<leftarrow> rb_erase n (timeo_tree p); f (p\<lparr>timeo_tree := h, timeo_list := n # timeo_list p\<rparr>) }) = Some p'"
  show "set (timeo_list p) \<subseteq> set (timeo_list p') \<and> no_timeo_list p' = no_timeo_list p"
  proof (cases "rb_node (timeo_tree p) = 0")
    case True then show ?thesis using e by (simp add: Let_def)
  next
    case False
    then obtain h where h: "f (p\<lparr>timeo_tree := h, timeo_list := rb_node (timeo_tree p) # timeo_list p\<rparr>) = Some p'" using e by (auto simp: Let_def bind_eq_Some_conv)
    show ?thesis using IH [OF h] by simp
  qed
qed

lemma clear_tree_nonempty: "clear_tree p = Some p' \<Longrightarrow> rb_node (timeo_tree p) \<noteq> 0 \<Longrightarrow> timeo_list p' \<noteq> []"
  by (subst (asm) clear_tree.simps) (auto simp: Let_def bind_eq_Some_conv dest!: clear_tree_grows)

lemma add_results_frame:
  "add_results ns p = Some (s, p') \<Longrightarrow> timeo_tree p' = timeo_tree p \<and> timeo_list p' = timeo_list p \<and> no_timeo_list p' = no_timeo_list p"
  by (induction ns arbitrary: p s) (auto simp: add_result_def bind_eq_Some_conv split: if_splits)

lemma stop_faults:
  assumes c: "core p t" "table p t" and l: "listed p t \<noteq> {}"
  shows "poller_stop_joined rd wr p = None"
proof -
  define q where "q = p\<lparr>stopping := True, stopped := True, nodes := (nodes p)(rd := NULL, wr := NULL)\<rparr>"
  define x where "x = (if pipe q = [] then Some (False, q) else handle_pipe (length (pipe q)) q)"
  have e: "poller_stop_joined rd wr p = (do { (_, p) \<leftarrow> x; p \<leftarrow> clear_tree (p\<lparr>tree_first := 0\<rparr>);
      stop_nodes (no_timeo_list p @ timeo_list p) (p\<lparr>timeo_list := no_timeo_list p @ timeo_list p, no_timeo_list := []\<rparr>) })"
    by (simp add: poller_stop_joined_def q_def x_def Let_def)
  have tree: "t \<noteq> Lf \<Longrightarrow> rb_node (timeo_tree p) \<noteq> 0" using queueD(1) [OF coreD(1) [OF c(1)]] rt_zero [of "timeo_tree p" 0 t] by (simp add: is_tree_def)
  show ?thesis
  proof (cases "\<exists>s p1 p2. x = Some (s, p1) \<and> clear_tree (p1\<lparr>tree_first := 0\<rparr>) = Some p2")
    case False then show ?thesis unfolding e by (cases x) auto
  next
    case True
    then obtain s p1 p2 where p1: "x = Some (s, p1)" "clear_tree (p1\<lparr>tree_first := 0\<rparr>) = Some p2" by blast
    have "timeo_tree p1 = timeo_tree q \<and> timeo_list p1 = timeo_list q \<and> no_timeo_list p1 = no_timeo_list q"
    proof (cases "pipe q = []")
      case True then show ?thesis using p1(1) by (simp add: x_def)
    next
      case False
      then have "add_results (pipe q) (q\<lparr>pipe := []\<rparr>) = Some (s, p1)" using p1(1) by (simp add: x_def handle_pipe_def)
      from add_results_frame [OF this] show ?thesis by simp
    qed
    then have f: "timeo_tree p1 = timeo_tree p" "timeo_list p1 = timeo_list p" "no_timeo_list p1 = no_timeo_list p" by (simp_all add: q_def)
    have "no_timeo_list p2 @ timeo_list p2 \<noteq> []"
    proof (cases "t = Lf")
      case True
      then have "timeo_list p \<noteq> [] \<or> no_timeo_list p \<noteq> []" using l by (auto simp: listed_def timed_def)
      then show ?thesis using clear_tree_grows [OF p1(2)] f by auto
    next
      case False then show ?thesis using clear_tree_nonempty [OF p1(2)] f tree by simp
    qed
    then obtain n ns where "no_timeo_list p2 @ timeo_list p2 = n # ns" by (cases "no_timeo_list p2 @ timeo_list p2") auto
    then show ?thesis unfolding e using p1 stop_nodes_twice by simp
  qed
qed

text \<open>A poller that waits for a connection on descriptor 7, and one whose node was deleted and waits in the pipe.\<close>

definition node7 :: poller_node where
  "node7 = zero_node\<lparr>pn_data := conn_data, events := EPOLLOUT + EPOLLET, timeout := \<lparr>tv_sec = 6, tv_nsec = 0\<rparr>\<rparr>"

definition poller2 :: poller where
  "poller2 = poller0\<lparr>store := (\<lambda>_. zero_node)(100 := node7), nodes := (nodes poller0)(7 := Node 100), timeo_list := [100],
     timer := Some \<lparr>tv_sec = 6, tv_nsec = 0\<rparr>, epoll := (\<lambda>_. None)(7 := Some 100)\<rparr>"

lemma empty_tree: "is_tree empty_heap Lf"
  by (simp add: is_tree_def empty_heap_def)

lemma poller2_reach: "poller_reach poller2 Lf"
proof (rule poller_reach.call [OF poller0_reach poller0_add(1)])
  show "poller_call (Add conn_data 1000 0 100 time5 EOK) poller0 = Some (EOK, poller2)"
    by (simp add: poller_add_def bad_fd_def data_get_event_def init_node_def enlist_def insert_node_def place_node_def rearm_def poller0_def poller2_def node7_def upd_def
        set_timerfd_def add_time_def node_set_timeout_def time5_def zero_node_def conn_data_def fun_eq_iff Let_def)
  show "is_tree (timeo_tree poller2) Lf" by (simp add: poller2_def poller0_def empty_tree)
qed

definition poller3 :: poller where
  "poller3 = poller2\<lparr>stopping := False, stopped := False, nodes := (nodes poller0)(7 := Node 100, 5 := POLLER_NODE_ERROR, 6 := POLLER_NODE_ERROR)\<rparr>"

definition poller4 :: poller where
  "poller4 = poller3\<lparr>store := (\<lambda>_. zero_node)(100 := node7\<lparr>pn_state := PR_ST_DELETED, removed := True\<rparr>),
     nodes := (nodes poller0)(5 := POLLER_NODE_ERROR, 6 := POLLER_NODE_ERROR), timeo_list := [], epoll := (\<lambda>_. None), pipe := [100]\<rparr>"

lemma poller4_reach: "poller_reach poller4 Lf"
proof (rule poller_reach.call [where p = poller3 and t = Lf and c = "Del 7" and e = EOK])
  show "poller_reach poller3 Lf"
  proof (rule poller_reach.call [OF poller2_reach, of "Start 5 6" EOK])
    show "poller_call (Start 5 6) poller2 = Some (EOK, poller3)" by (simp add: poller_start_def poller2_def poller3_def poller0_def fun_eq_iff)
  qed (simp_all add: poller2_def poller3_def poller0_def empty_tree)
  show "poller_call (Del 7) poller3 = Some (EOK, poller4)"
    by (rule trans [of _ "Some (EOK, upd 100 (\<lambda>x. x\<lparr>pn_error := EOK, pn_state := PR_ST_DELETED, removed := True\<rparr>) (poller3\<lparr>nodes := (nodes poller3)(7 := NULL),
         timeo_list := [], epoll := (epoll poller3)(7 := None), pipe := [100]\<rparr>))"])
      (simp_all add: poller_del_def bad_fd_def unlink_node_def list_del_node_def retire_def poller2_def poller3_def poller4_def poller0_def node7_def zero_node_def upd_def fun_eq_iff Let_def)
qed (simp_all add: poller2_def poller3_def poller4_def poller0_def empty_tree bad_fd_def)

text \<open>The event loop handles time-outs and reads the pipe after every event of a round. So when the node of a later event of the round has timed out, its handler
  unlinks a node that is in neither list of the poller but in the result queue, through the same link; and when another event follows the pipe event, the emptied pipe is read again and the thread waits there.\<close>

theorem event_loop_faults:
  assumes "poller_reach p t"
  shows "(n \<in> set (timeo_list p) \<and> key (timeout (store p n)) < key now \<and> operation (pn_data (store p n)) = PD_OP_CONNECT \<and> pd_fd (pn_data (store p n)) \<ge> 0 \<longrightarrow>
      event_loop now False ((EvTimer, k) # (EvNode n (Answers rs e), k') # evs) p = None) \<and>
    (pipe p \<noteq> [] \<and> 0 \<notin> set (pipe p) \<and> length (pipe p) \<le> k \<longrightarrow> event_loop now False ((EvPipe, k) # (EvTimer, k') # evs) p = None)"
  using reach_ok [OF assms] event_after_timeout [of p t n now k rs e k' evs] event_after_pipe [of p t k now k' evs] by blast

theorem event_loop_faults_witness:
  "event_loop \<lparr>tv_sec = 7, tv_nsec = 0\<rparr> False [(EvTimer, 0), (EvNode 100 (Answers [] EOK), 0)] poller2 = None \<and>
   event_loop \<lparr>tv_sec = 7, tv_nsec = 0\<rparr> False [(EvPipe, 1), (EvTimer, 1)] poller4 = None"
  using event_loop_faults [OF poller2_reach, of 100 "\<lparr>tv_sec = 7, tv_nsec = 0\<rparr>" 0 "[]" EOK 0 "[]"]
    event_loop_faults [OF poller4_reach, of 0 "\<lparr>tv_sec = 7, tv_nsec = 0\<rparr>" 1 "[]" EOK 1 "[]"]
  by (simp add: poller2_def poller4_def node7_def conn_data_def key_def less_prod_def)

text \<open>\<^verbatim>\<open>poller_mod\<close> replaces the node of a descriptor but does not tell \<^verbatim>\<open>epoll\<close>: after a success the table holds the new node, while events of the descriptor
  still carry the old one, which has been retired.\<close>

theorem poller_mod_stale:
  assumes "poller_reach p t" "admissible p t (Mod d ms res node now)" "nodes p (nat (pd_fd d)) = Node old" "epoll p (pd_fd d) = Some old"
    "poller_mod d ms res node now p = Some (EOK, p')"
  shows "nodes p' (nat (pd_fd d)) = Node node \<and> epoll p' (pd_fd d) = Some old \<and> node \<noteq> old"
proof -
  have c: "core p t" "table p t" using reach_ok [OF assms(1)] by auto
  obtain ev need where ev: "data_get_event d = Some (ev, need)" using assms(2) by (auto simp: new_ok_def)
  have no: "\<not> bad_fd (pd_fd d) p" "\<not> (need \<and> res = 0)" "node \<noteq> 0" using assms(5) ev by (auto simp: poller_mod_def fd_error_def split: if_splits)
  have "fresh p t node" using assms(2) no(3) by (auto simp: new_ok_def)
  then have "node \<noteq> old" using tabD(1) [OF c(2) assms(3)] by (auto simp: fresh_def dest: refsI)
  moreover obtain p1 p2 p3 where p3: "unlink_node old (upd node (init_node d ev (if need then res else 0) ms now) p) = Some p1" "retire old PR_ST_MODIFIED p1 = Some p2"
    "enlist node ms p2 = Some p3" "p' = p3\<lparr>nodes := (nodes p3)(nat (pd_fd d) := Node node)\<rparr>"
    using assms(3,5) ev no by (auto simp: poller_mod_def Let_def bind_eq_Some_conv)
  moreover have "epoll p3 = epoll p" using epoll_frame(1) [OF p3(1)] epoll_frame(2) [OF p3(2)] epoll_frame(3) [OF p3(3)] by simp
  ultimately show ?thesis using assms(4) by simp
qed

theorem poller_mod_stale_witness:
  "\<exists>p'. poller_mod conn_data 1000 0 200 time5 poller2 = Some (EOK, p') \<and> nodes p' 7 = Node 200 \<and> epoll p' 7 = Some 100"
proof -
  have s: "owned poller2 Lf = {100}" "refs poller2 Lf = {0, 100}"
    by (auto simp: owned_def refs_def listed_def timed_def poller2_def poller0_def node7_def zero_node_def)
  have a: "admissible poller2 Lf (Mod conn_data 1000 0 200 time5)"
    by (simp add: new_ok_def fresh_def s data_get_event_def conn_data_def armable_def node_set_timeout_def add_time_def time5_def)
  obtain e p' where p': "poller_mod conn_data 1000 0 200 time5 poller2 = Some (e, p')" using mod_ok [of poller2 Lf conn_data 1000 0 200 time5] reach_ok [OF poller2_reach] a by auto
  moreover have "nodes poller2 7 = Node 100" "\<not> bad_fd 7 poller2" "pd_fd conn_data = 7" "data_get_event conn_data = Some (EPOLLOUT + EPOLLET, False)"
    by (simp_all add: poller2_def poller0_def bad_fd_def conn_data_def data_get_event_def)
  ultimately have "e = EOK" by (auto simp: poller_mod_def Let_def bind_eq_Some_conv)
  with p' have p': "poller_mod conn_data 1000 0 200 time5 poller2 = Some (EOK, p')" by simp
  show ?thesis using poller_mod_stale [OF poller2_reach a _ _ p', of 100] p' by (simp add: poller2_def conn_data_def)
qed

text \<open>Once its thread has ended, \<^verbatim>\<open>poller_stop\<close> puts every node that is still registered into the result queue twice, so with at least one such node the list of results
  is broken.\<close>

theorem stop_adds_twice:
  assumes "poller_reach p t" "listed p t \<noteq> {}"
  shows "poller_stop_joined rd wr p = None"
  using reach_ok [OF assms(1)] stop_faults assms(2) by blast

theorem stop_adds_twice_witness: "poller_stop_joined 5 6 poller2 = None"
  by (rule stop_adds_twice [OF poller2_reach]) (simp add: listed_def timed_def poller2_def)

subsection \<open>The result queue\<close>

text \<open>With the number of results right, the two lists behave as one queue of at most \<open>res_max\<close> new results: \<^verbatim>\<open>poller_queue_get\<close> takes from the front, waits only when
  it is empty and blocking, and answers nothing only when it is empty.\<close>

definition queue_items :: "poller_queue \<Rightarrow> nat list" where
  "queue_items q = get_list q @ put_list q"

theorem result_queue_fifo:
  assumes "res_cnt q = length (put_list q)"
  shows "(\<forall>q'. queue_put s n q = Some q' \<longrightarrow> queue_items q' = queue_items q @ [n] \<and> res_cnt q' = length (put_list q')) \<and>
    (queue_get q = None \<longleftrightarrow> queue_items q = [] \<and> \<not> nonblock q) \<and>
    (\<forall>q'. queue_get q = Some (None, q') \<longrightarrow> queue_items q = [] \<and> queue_items q' = []) \<and>
    (\<forall>m q'. queue_get q = Some (Some m, q') \<longrightarrow> queue_items q = m # queue_items q' \<and> res_cnt q' = length (put_list q'))"
  using assms by (cases "get_list q"; cases "put_list q") (auto simp: queue_put_def queue_get_def queue_swap_def queue_items_def split: if_splits)

end
