(* ===== verification/HttpTask.thy ===== *)
theory HttpTask imports HttpUtil UpstreamManager RouteManager begin

text \<open>
  The HTTP client task: \<^verbatim>\<open>WFComplexClientTask\<close> of \<^verbatim>\<open>factory/WFTaskFactory.inl\<close> (initialisation from a URI,
  dispatch, routing, retries and redirects) with the methods \<^verbatim>\<open>ComplexHttpTask\<close> of \<^verbatim>\<open>factory/HttpTaskImpl.cc\<close>
  overrides. A task is a record; its requests and responses are the messages of \<open>HttpMessage\<close>, its URIs
  those of \<open>URIParser\<close>, and the managers it notifies are the modelled upstream and route managers. What a method
  does to its series, the scheduler and the user is the list of its actions. The callback is an argument, a function
  on the task; results of allocations and the clock are arguments too.
\<close>

subsection \<open>State\<close>

datatype task_state = WFT_STATE_UNDEFINED | WFT_STATE_SYS_ERROR | WFT_STATE_ABORTED | WFT_STATE_SUCCESS
  | WFT_STATE_DNS_ERROR | WFT_STATE_TASK_ERROR

abbreviation WFT_ERR_URI_PARSE_FAILED :: int where "WFT_ERR_URI_PARSE_FAILED \<equiv> 1001"
abbreviation WFT_ERR_URI_PORT_INVALID :: int where "WFT_ERR_URI_PORT_INVALID \<equiv> 1003"
abbreviation WFT_ERR_UPSTREAM_UNAVAILABLE :: int where "WFT_ERR_UPSTREAM_UNAVAILABLE \<equiv> 1004"
abbreviation WFT_ERR_HTTP_BAD_REDIRECT_HEADER :: int where "WFT_ERR_HTTP_BAD_REDIRECT_HEADER \<equiv> 2001"

abbreviation HTTP_KEEPALIVE_DEFAULT :: int where "HTTP_KEEPALIVE_DEFAULT \<equiv> 60 * 1000"
abbreviation HTTP_KEEPALIVE_MAX :: int where "HTTP_KEEPALIVE_MAX \<equiv> 300 * 1000"

abbreviation EAGAIN_NO :: int where "EAGAIN_NO \<equiv> 11"

datatype timeout_reason = TOR_NOT_TIMEOUT | TOR_WAIT_TIMEOUT | TOR_CONNECT_TIMEOUT | TOR_TRANSMIT_TIMEOUT

text \<open>A null target is 0, a null router task \<open>False\<close>.\<close>

record http_task =
  t_state :: task_state
  t_error :: int
  t_reason :: timeout_reason
  t_target :: nat
  t_req :: HttpMessage
  t_resp :: HttpMessage
  keep_alive_timeo :: int
  t_uri :: ParsedURI
  original_uri :: ParsedURI
  retry_max :: int
  is_sockaddr :: bool
  first_addr_only :: bool
  router_task :: bool
  t_route :: RouteResult
  t_upstream :: upstream_result
  t_type :: TransportType
  t_info :: string
  retry_times :: int
  init_state :: nat
  is_retry :: bool
  has_original_uri :: bool
  redirect :: bool
  redirect_max :: int
  redirect_count :: int

text \<open>
  The surroundings of a call: memory for the parser and for the parts of a URI, for a port and for the names an
  upstream puts into a URI, the memory of a new parser, the value of \<^verbatim>\<open>errno\<close> after a failed call, the upstream's
  choices, whether a target re-enters its group, and the ports registered by the user.
\<close>

record client_env =
  ce_mem :: "nat \<Rightarrow> bool"
  ce_alloc :: "nat \<Rightarrow> bool"
  ce_port_mem :: bool
  ce_choose_mem :: "bool \<times> bool"
  ce_fresh :: http_parser
  ce_errno :: int
  ce_up :: env
  ce_group_mem :: bool
  ce_user_ports :: "string \<rightharpoonup> string"

text \<open>What \<^verbatim>\<open>RouteManager::get\<close> depends on: the digest, the initialisers of targets, the clock and memory.\<close>

record route_env =
  re_md5 :: "string \<Rightarrow> string"
  re_init :: init_env
  re_now :: int
  re_mem :: bool

record managers =
  umgr :: upstream_manager
  rmgr :: RouteManager

record router_args =
  ra_type :: TransportType
  ra_host :: string
  ra_port :: nat
  ra_info :: string
  ra_cache_level :: nat
  ra_params :: "AddressParams option"
  ra_first_addr_only :: bool

datatype task_action = Request request_object | PushRouter router_args | PushSelf | Again | Callback task_state int | DeleteTask

abbreviation req_parser :: "http_task \<Rightarrow> http_parser" where "req_parser t \<equiv> parser (t_req t)"
abbreviation resp_parser :: "http_task \<Rightarrow> http_parser" where "resp_parser t \<equiv> parser (t_resp t)"

definition upd_req :: "(http_parser \<Rightarrow> int \<times> http_parser) \<Rightarrow> http_task \<Rightarrow> http_task" where
  "upd_req f t = t\<lparr>t_req := (t_req t)\<lparr>parser := snd (f (req_parser t))\<rparr>\<rparr>"

subsection \<open>Sending the request\<close>

definition find_header :: "string \<Rightarrow> http_task \<Rightarrow> string option" where
  "find_header name t = fst (http_header_cursor_find name (req_parser t) 0)"

fun keep_alive_loop :: "string list \<Rightarrow> int \<Rightarrow> int" where
  "keep_alive_loop [] timeo = timeo"
| "keep_alive_loop (kv # kvs) timeo =
     (let arr = split kv (CHR ''=''); arr = (if length arr < 2 then arr @ [''0''] else arr);
          key = strip (arr ! 0); val = strip (arr ! 1)
      in if strcaseeq key ''timeout'' then atoi32 val else keep_alive_loop kvs timeo)"

definition add_content_length :: "client_env \<Rightarrow> http_task \<Rightarrow> http_task" where
  "add_content_length e t =
     (case find_header ''Content-Length'' t of
        Some _ \<Rightarrow> t
      | None \<Rightarrow> upd_req (http_parser_add_header (ce_mem e) ''Content-Length'' (take 31 (dec_nat (output_body_size (t_req t))))) t)"

definition add_connection :: "client_env \<Rightarrow> http_task \<Rightarrow> bool \<times> http_task" where
  "add_connection e t =
     (case find_header ''Connection'' t of
        Some v \<Rightarrow> (strcaseeq v ''Keep-Alive'', t)
      | None \<Rightarrow>
          if keep_alive_timeo t \<noteq> 0 then (True, upd_req (http_parser_add_header (ce_mem e) ''Connection'' ''Keep-Alive'') t)
          else (False, upd_req (http_parser_add_header (ce_mem e) ''Connection'' ''close'') t))"

text \<open>\<^verbatim>\<open>(unsigned int)timeo > HTTP_KEEPALIVE_MAX\<close> holds of negative numbers too.\<close>

definition clamp_timeo :: "int \<Rightarrow> int" where
  "clamp_timeo v = (if v mod 2 ^ 32 > HTTP_KEEPALIVE_MAX then HTTP_KEEPALIVE_MAX else v)"

text \<open>\<open>None\<close>: \<^verbatim>\<open>strcmp\<close> on the null method of a request.\<close>

definition message_out :: "client_env \<Rightarrow> http_task \<Rightarrow> http_task option" where
  "message_out e t =
     (let chunked = (case find_header ''Transfer-Encoding'' t of Some v \<Rightarrow> v \<noteq> [] \<and> \<not> strcaseeq v ''identity'' | None \<Rightarrow> False)
      in if \<not> chunked \<and> method_of (req_parser t) = None then None
         else
           (let t = (if \<not> chunked \<and> (the (method_of (req_parser t)) = ''POST'' \<or> strcaseeq (the (method_of (req_parser t))) ''PUT'')
                     then add_content_length e t else t);
                (is_alive, t) = add_connection e t
            in Some (if \<not> is_alive then t\<lparr>keep_alive_timeo := 0\<rparr>
                     else t\<lparr>keep_alive_timeo := clamp_timeo (case find_header ''Keep-Alive'' t of
                              None \<Rightarrow> keep_alive_timeo t
                            | Some v \<Rightarrow> keep_alive_loop (split v (CHR '','')) (keep_alive_timeo t))\<rparr>)))"

definition message_in :: "http_task \<Rightarrow> http_task option" where
  "message_in t =
     (case method_of (req_parser t) of
        None \<Rightarrow> None
      | Some m \<Rightarrow> Some (if m = ''HEAD'' then t\<lparr>t_resp := parse_zero_body (t_resp t)\<rparr> else t))"

definition keep_alive_timeout :: "http_task \<Rightarrow> int" where
  "keep_alive_timeout t = (if keep_alive (resp_parser t) then keep_alive_timeo t else 0)"

subsection \<open>Initialisation\<close>

text \<open>A component of a URI is used when it is present and not empty.\<close>

definition nonempty :: "string option \<Rightarrow> bool" where
  "nonempty s = (case s of None \<Rightarrow> False | Some x \<Rightarrow> x \<noteq> [])"

definition request_uri :: "ParsedURI \<Rightarrow> string" where
  "request_uri u = (if nonempty (path u) then the (path u) else ''/'') @ (if nonempty (query u) then ''?'' @ the (query u) else [])"

definition header_host :: "ParsedURI \<Rightarrow> string" where
  "header_host u =
     (let is_unix = (nonempty (host u) \<and> hd (the (host u)) = CHR ''/'')
      in (if nonempty (host u) then the (host u) else []) @
         (if \<not> is_unix \<and> nonempty (port u) \<and> atoi32 (the (port u)) \<noteq> 80 then '':'' @ the (port u) else []))"

definition init_success :: "client_env \<Rightarrow> http_task \<Rightarrow> bool \<times> http_task" where
  "init_success e t =
     (let uri = request_uri (t_uri t); hh = header_host (t_uri t); t = t\<lparr>t_type := TT_TCP\<rparr>;
          t = upd_req (http_parser_set_uri (ce_mem e) uri) t
      in (True, upd_req (http_parser_set_header (ce_mem e) ''Host'' hh) t))"

definition set_empty_request :: "client_env \<Rightarrow> http_task \<Rightarrow> http_task" where
  "set_empty_request e t =
     upd_req (http_parser_set_header (ce_mem e) ''Host'' []) (upd_req (http_parser_set_uri (ce_mem e) ''/'') t)"

definition init_failed :: "client_env \<Rightarrow> http_task \<Rightarrow> http_task" where
  "init_failed e t = set_empty_request e t"

definition static_scheme_port :: "string \<Rightarrow> string option" where
  "static_scheme_port s = map_of [(''http'', ''80''), (''https'', ''443''), (''redis'', ''6379''), (''rediss'', ''6379''),
     (''mysql'', ''3306''), (''kafka'', ''9092'')] s"

definition get_default_port :: "(string \<rightharpoonup> string) \<Rightarrow> string \<Rightarrow> string option" where
  "get_default_port user sch = (case static_scheme_port sch of Some p \<Rightarrow> Some p | None \<Rightarrow> user sch)"

definition set_task_error :: "task_state \<Rightarrow> int \<Rightarrow> http_task \<Rightarrow> http_task" where
  "set_task_error st err t = t\<lparr>t_state := st, t_error := err\<rparr>"

definition set_port :: "client_env \<Rightarrow> http_task \<Rightarrow> bool \<times> http_task" where
  "set_port e t =
     (let u = t_uri t; p = (if nonempty (port u) then atoi32 (the (port u)) else 0) in
      if p < 0 \<or> p > 65535 then (False, set_task_error WFT_STATE_TASK_ERROR WFT_ERR_URI_PORT_INVALID t)
      else case (if p = 0 \<and> scheme u \<noteq> None then get_default_port (ce_user_ports e) (the (scheme u)) else None) of
        None \<Rightarrow> (True, t)
      | Some port_str \<Rightarrow>
          if ce_port_mem e then (True, t\<lparr>t_uri := u\<lparr>port := Some port_str\<rparr>\<rparr>)
          else (False, set_task_error WFT_STATE_SYS_ERROR (ce_errno e)
                  (t\<lparr>t_uri := u\<lparr>port := None, state := URI_STATE_ERROR, error := ce_errno e\<rparr>\<rparr>)))"

definition route_clear :: RouteResult where
  "route_clear = \<lparr>route_cookie = None, route_object = NullObject\<rparr>"

definition upstream_clear :: upstream_result where
  "upstream_clear = \<lparr>cookie = None, address_params = None, upstream_state = UPSTREAM_NOTFOUND\<rparr>"

definition keep_original :: "client_env \<Rightarrow> http_task \<Rightarrow> http_task" where
  "keep_original e t =
     (if has_original_uri t
      then t\<lparr>original_uri := uri_assign_copy (ce_alloc e) False (original_uri t) (t_uri t), has_original_uri := True\<rparr> else t)"

definition uri_failed :: "client_env \<Rightarrow> http_task \<Rightarrow> http_task" where
  "uri_failed e t =
     (if state (t_uri t) = URI_STATE_ERROR then set_task_error WFT_STATE_SYS_ERROR (error (t_uri t)) t
      else set_task_error WFT_STATE_TASK_ERROR WFT_ERR_URI_PARSE_FAILED t)"

definition choose_upstream :: "client_env \<Rightarrow> http_task \<Rightarrow> managers \<Rightarrow> http_task \<times> managers" where
  "choose_upstream e t g =
     (let (ret, u, res, um) = manager_choose (ce_up e) (ce_choose_mem e) (t_uri t) (umgr g);
          t = t\<lparr>t_uri := u, t_upstream := res\<rparr>; g = g\<lparr>umgr := um\<rparr> in
      if ret < 0 then (init_failed e (set_task_error WFT_STATE_SYS_ERROR (ce_errno e) t), g)
      else if upstream_state res = UPSTREAM_ALL_DOWN
      then (init_failed e (set_task_error WFT_STATE_TASK_ERROR WFT_ERR_UPSTREAM_UNAVAILABLE t), g)
      else (let (ok, t) = init_success e t in (t\<lparr>init_state := (if ok then 1 else 0)\<rparr>, g)))"

definition init_with_uri :: "client_env \<Rightarrow> http_task \<Rightarrow> managers \<Rightarrow> http_task \<times> managers" where
  "init_with_uri e t g =
     (let t = (keep_original e t)\<lparr>t_route := route_clear\<rparr> in
      if state (t_uri t) = URI_STATE_SUCCESS
      then (let (ok, t) = set_port e t in if ok then choose_upstream e t g else (init_failed e (uri_failed e t), g))
      else (init_failed e (uri_failed e t), g))"

text \<open>\<open>same\<close>: the argument is the task's own \<^verbatim>\<open>uri_\<close>.\<close>

definition init_copy :: "client_env \<Rightarrow> bool \<Rightarrow> ParsedURI \<Rightarrow> http_task \<Rightarrow> managers \<Rightarrow> http_task \<times> managers" where
  "init_copy e same u t g =
     init_with_uri e (t\<lparr>is_sockaddr := False, init_state := 0, t_uri := uri_assign_copy (ce_alloc e) same (t_uri t) u\<rparr>) g"

definition init_move :: "client_env \<Rightarrow> ParsedURI \<Rightarrow> http_task \<Rightarrow> managers \<Rightarrow> http_task \<times> managers" where
  "init_move e u t g =
     init_with_uri e (t\<lparr>is_sockaddr := False, init_state := 0, t_uri := fst (uri_assign_move False (t_uri t) u)\<rparr>) g"

text \<open>The address of a socket is its bytes; \<open>endpoint\<close> are the global settings.\<close>

definition init_addr :: "client_env \<Rightarrow> route_env \<Rightarrow> int \<times> int \<times> nat \<Rightarrow> TransportType \<Rightarrow> string \<Rightarrow> string \<Rightarrow> http_task \<Rightarrow> managers \<Rightarrow>
    http_task \<times> managers" where
  "init_addr e re endpoint type addr info t g =
     (let t = t\<lparr>is_sockaddr := True, init_state := 0, t_type := type, t_info := info\<rparr>;
          (ret, rr, rm) = route_get (re_md5 re) (re_init re) (re_now re) (re_mem re) type [addr] info endpoint (rmgr g);
          t = t\<lparr>t_route := rr\<rparr>; g = g\<lparr>rmgr := rm\<rparr> in
      if ret < 0 then (init_failed e (set_task_error WFT_STATE_SYS_ERROR (ce_errno e) t), g)
      else if route_object rr = NullObject then (init_failed e (set_task_error WFT_STATE_SYS_ERROR EAGAIN_NO t), g)
      else (let (ok, t) = init_success e t in (t\<lparr>init_state := (if ok then 1 else 0)\<rparr>, g)))"

subsection \<open>Redirects and retries\<close>

definition set_redirect :: "client_env \<Rightarrow> http_task \<Rightarrow> managers \<Rightarrow> http_task \<times> managers" where
  "set_redirect e t g =
     (let (t, g) = init_copy e True (t_uri t) (t\<lparr>redirect := True\<rparr>) g in (t\<lparr>retry_times := 0\<rparr>, g))"

definition set_retry_uri :: "client_env \<Rightarrow> http_task \<Rightarrow> managers \<Rightarrow> http_task \<times> managers" where
  "set_retry_uri e t g =
     (let (t, g) = init_copy e False (original_uri t) (t\<lparr>redirect := True\<rparr>) g in (t\<lparr>retry_times := retry_times t + 1\<rparr>, g))"

definition set_retry :: "http_task \<Rightarrow> http_task" where
  "set_retry t = t\<lparr>redirect := True, retry_times := retry_times t + 1\<rparr>"

definition disable_retry :: "http_task \<Rightarrow> http_task" where
  "disable_retry t = t\<lparr>retry_times := retry_max t\<rparr>"

definition clear_resp :: "client_env \<Rightarrow> http_task \<Rightarrow> http_task" where
  "clear_resp e t =
     (let size = size_limit (t_resp t) in t\<lparr>t_resp := (message_init True (ce_fresh e) (t_resp t))\<lparr>size_limit := size\<rparr>\<rparr>)"

definition redirect_url :: "client_env \<Rightarrow> http_task \<Rightarrow> bool \<times> http_task" where
  "redirect_url e t =
     (if redirect_count t < redirect_max t then
        (let t = t\<lparr>redirect_count := redirect_count t + 1\<rparr> in
         case fst (cursor_find_string ''Location'' (resp_parser t) 0) of
           None \<Rightarrow> (False, set_task_error WFT_STATE_TASK_ERROR WFT_ERR_HTTP_BAD_REDIRECT_HEADER t)
         | Some url \<Rightarrow>
             if url = [] then (False, set_task_error WFT_STATE_TASK_ERROR WFT_ERR_HTTP_BAD_REDIRECT_HEADER t)
             else (True, t\<lparr>t_uri := snd (parse_string (ce_alloc e) url (t_uri t))\<rparr>))
      else (False, t))"

definition need_redirect :: "client_env \<Rightarrow> http_task \<Rightarrow> bool \<times> http_task" where
  "need_redirect e t =
     (case (code_of (resp_parser t), method_of (req_parser t)) of
        (Some code, Some m) \<Rightarrow>
          (let status_code = atoi32 code in
           if status_code \<in> {301, 302, 303} then
             (let (r, t) = redirect_url e t in
              if r then (True, if \<not> strcaseeq m ''GET'' \<and> \<not> strcaseeq m ''HEAD''
                               then upd_req (http_parser_set_method (ce_mem e) ''GET'') t else t)
              else (False, t))
           else if status_code \<in> {307, 308} then redirect_url e t
           else (False, t))
      | _ \<Rightarrow> (False, t))"

definition finish_once :: "client_env \<Rightarrow> http_task \<Rightarrow> managers \<Rightarrow> bool \<times> http_task \<times> managers" where
  "finish_once e t g =
     (True,
      if t_state t = WFT_STATE_SUCCESS then
        (let (r, t) = need_redirect e t in
         if r then set_redirect e t g
         else if t_state t \<noteq> WFT_STATE_SUCCESS then (disable_retry t, g)
         else (t, g))
      else (t\<lparr>t_resp := (t_resp t)\<lparr>parser := http_parser_close_message (resp_parser t)\<rparr>, redirect_count := 0\<rparr>, g))"

subsection \<open>Routing, dispatch and completion\<close>

definition route :: "http_task \<Rightarrow> router_args \<times> http_task" where
  "route t =
     (let dns_cache_level = (if is_retry t then 1 else 2); u = t_uri t in
      (\<lparr>ra_type = t_type t, ra_host = (case host u of Some h \<Rightarrow> h | None \<Rightarrow> []),
        ra_port = nat ((case port u of Some p \<Rightarrow> atoi32 p | None \<Rightarrow> 0) mod 2 ^ 16), ra_info = t_info t,
        ra_cache_level = dns_cache_level,
        ra_params = (if upstream_state (t_upstream t) = UPSTREAM_SUCCESS then address_params (t_upstream t) else None),
        ra_first_addr_only = first_addr_only t\<rparr>,
       t\<lparr>is_retry := False\<rparr>))"

text \<open>The actions of \<^verbatim>\<open>dispatch\<close>; unless it sends a request it goes on with \<^verbatim>\<open>done\<close>.\<close>

definition dispatch :: "client_env \<Rightarrow> http_task \<Rightarrow> task_action list \<times> http_task" where
  "dispatch e t =
     (let t = (if init_state t = 1 then t\<lparr>init_state := 2\<rparr> else t) in
      if init_state t \<noteq> 0 then
        if route_object (t_route t) \<noteq> NullObject then ([Request (route_object (t_route t))], t)
        else if is_sockaddr t \<or> state (t_uri t) = URI_STATE_SUCCESS
        then (let (args, t) = route t in ([PushRouter args], t\<lparr>router_task := True\<rparr>))
        else ([], uri_failed e t)
      else ([], t))"

definition switch_callback :: "client_env \<Rightarrow> (http_task \<Rightarrow> http_task) option \<Rightarrow> http_task \<Rightarrow> task_action list \<times> http_task" where
  "switch_callback e callback t =
     (let (acts, t) = (case callback of
            Some f \<Rightarrow> if \<not> redirect t then ([Callback (t_state t) (t_error t)], f t) else ([], t)
          | None \<Rightarrow> ([], t)) in
      if redirect t then
        (let (ok, t) = init_success e t;
             t = clear_resp e (t\<lparr>init_state := (if ok then 1 else 0), redirect := False\<rparr>)
         in (acts @ [PushSelf], t\<lparr>t_target := 0, t_reason := TOR_NOT_TIMEOUT, t_state := WFT_STATE_UNDEFINED, t_error := 0\<rparr>))
      else (acts @ [DeleteTask], t))"

definition notify_result :: "client_env \<Rightarrow> http_task \<Rightarrow> managers \<Rightarrow> http_task \<times> managers" where
  "notify_result e t g =
     (if t_state t = WFT_STATE_SUCCESS then
        (t\<lparr>t_upstream := upstream_clear\<rparr>,
         g\<lparr>rmgr := route_notify_available (ce_group_mem e) (route_cookie (t_route t)) (t_target t) (rmgr g),
           umgr := cookie_available (cookie (t_upstream t)) (umgr g)\<rparr>)
      else if t_state t = WFT_STATE_SYS_ERROR then
        (let g = g\<lparr>rmgr := route_notify_unavailable (clock (ce_up e)) (route_cookie (t_route t)) (t_target t) (rmgr g),
                   umgr := cookie_unavailable (clock (ce_up e)) (cookie (t_upstream t)) (umgr g)\<rparr> in
         if retry_times t < retry_max t then
           (let (t, g) = (if is_sockaddr t then (set_retry t, g) else set_retry_uri e t g) in (t\<lparr>is_retry := True\<rparr>, g))
         else (t, g))
      else (t, g))"

definition task_done :: "client_env \<Rightarrow> (http_task \<Rightarrow> http_task) option \<Rightarrow> http_task \<Rightarrow> managers \<Rightarrow>
    task_action list \<times> http_task \<times> managers" where
  "task_done e callback t g =
     (if router_task t then ([], t\<lparr>router_task := False\<rparr>, g)
      else
        (let (user, t1, g1) = (if init_state t \<noteq> 0 then finish_once e t g else (True, t, g));
             (t2, g2) = (if init_state t \<noteq> 0 then notify_result e t1 g1 else (t1, g1))
         in if t_state t1 = WFT_STATE_SUCCESS \<and> \<not> user then ([Again], t2, g2)
            else if t_target t2 = 0 then ([], t2, g2)
            else (let (acts, t3) = switch_callback e callback t2 in (acts, t3, g2))))"

text \<open>\<open>got\<close>: the state, the error and the route result of the router task.\<close>

definition router_callback :: "client_env \<Rightarrow> (http_task \<Rightarrow> http_task) option \<Rightarrow> task_state \<times> int \<times> RouteResult \<Rightarrow> http_task \<Rightarrow> managers \<Rightarrow>
    task_action list \<times> http_task \<times> managers" where
  "router_callback e callback got t g =
     (case got of (st, err, rr) \<Rightarrow>
       (let t = (if st = WFT_STATE_SUCCESS then t\<lparr>t_route := rr\<rparr> else set_task_error st err t) in
        if route_object (t_route t) \<noteq> NullObject then ([PushSelf], t, g)
        else
          (let g = g\<lparr>umgr := cookie_unavailable (clock (ce_up e)) (cookie (t_upstream t)) (umgr g)\<rparr>;
               (acts, t) = (case callback of Some f \<Rightarrow> ([Callback (t_state t) (t_error t)], f t) | None \<Rightarrow> ([], t)) in
           if redirect t then
             (let (ok, t) = init_success e t in
              (acts @ [PushSelf], t\<lparr>init_state := (if ok then 1 else 0), redirect := False, t_state := WFT_STATE_UNDEFINED, t_error := 0,
                 t_reason := TOR_NOT_TIMEOUT\<rparr>, g))
           else (acts @ [DeleteTask], t, g))))"

subsection \<open>The scheduler's answers\<close>

abbreviation ETIMEDOUT :: int where "ETIMEDOUT \<equiv> 110"

text \<open>\<open>out\<close>: a message was sent. The target is the one the request acquired.\<close>

definition comm_handle :: "task_state \<Rightarrow> int \<Rightarrow> bool \<Rightarrow> http_task \<Rightarrow> http_task" where
  "comm_handle st err out t =
     t\<lparr>t_state := st, t_error := err,
       t_reason := (if err \<noteq> ETIMEDOUT then TOR_NOT_TIMEOUT else if \<not> out then TOR_CONNECT_TIMEOUT else TOR_TRANSMIT_TIMEOUT)\<rparr>"

definition comm_failed :: "nat \<Rightarrow> int \<Rightarrow> http_task \<Rightarrow> http_task" where
  "comm_failed target err t =
     t\<lparr>t_target := target, t_state := WFT_STATE_SYS_ERROR, t_error := err,
       t_reason := (if err \<noteq> ETIMEDOUT then TOR_NOT_TIMEOUT else TOR_WAIT_TIMEOUT)\<rparr>"

subsection \<open>Creation\<close>

text \<open>\<open>t0\<close> is the memory the task is built in; what the constructors leave unset keeps its value.\<close>

definition new_http_task :: "client_env \<Rightarrow> http_task \<Rightarrow> int \<Rightarrow> int \<Rightarrow> http_task" where
  "new_http_task e t0 rdmax rtmax =
     (let t = t0\<lparr>t_state := WFT_STATE_UNDEFINED, t_error := 0, t_reason := TOR_NOT_TIMEOUT, t_target := 0,
            t_req := message_init False (ce_fresh e) (t_req t0), t_resp := message_init True (ce_fresh e) (t_resp t0),
            keep_alive_timeo := 0, t_uri := uri_init, original_uri := uri_init, retry_max := rtmax, first_addr_only := False,
            router_task := False, t_type := TT_TCP, t_info := [], t_upstream := upstream_clear, retry_times := 0, is_retry := False,
            has_original_uri := True, redirect := False, redirect_max := rdmax, redirect_count := 0\<rparr>;
          t = upd_req (http_parser_set_method (ce_mem e) ''GET'') t
      in upd_req (http_parser_set_version (ce_mem e) ''HTTP/1.1'') t)"

definition create_http_task :: "client_env \<Rightarrow> http_task \<Rightarrow> string \<Rightarrow> int \<Rightarrow> int \<Rightarrow> managers \<Rightarrow> http_task \<times> managers" where
  "create_http_task e t0 url rdmax rtmax g =
     (let t = new_http_task e t0 rdmax rtmax; u = snd (parse_string (ce_alloc e) url uri_init);
          (t, g) = init_move e u t g
      in (t\<lparr>keep_alive_timeo := HTTP_KEEPALIVE_DEFAULT\<rparr>, g))"

end
