(* ===== verification/HttpTaskRun.thy ===== *)
theory HttpTaskRun imports HttpTask begin

text \<open>
  The life of an HTTP client task: between its creation and its deletion the task is queued in its series, waits for
  its router task or waits for the scheduler. The steps run the methods of \<open>HttpTask\<close> with whatever the network,
  the memory and the managers answer. The invariants give the number of callbacks, the bounds on redirects and
  retries and the cases in which a task is dropped.
\<close>

subsection \<open>Runs\<close>

datatype phase = Queued | Routing | Waiting | Finished | Lost

record client =
  c_phase :: phase
  c_task :: http_task
  c_mgrs :: managers
  c_calls :: "(task_state \<times> int) list"
  c_redirects :: nat
  c_retries :: nat

fun is_router :: "task_action \<Rightarrow> bool" where
  "is_router (PushRouter a) = True"
| "is_router _ = False"

fun is_request :: "task_action \<Rightarrow> bool" where
  "is_request (Request a) = True"
| "is_request _ = False"

fun calls_of :: "task_action list \<Rightarrow> (task_state \<times> int) list" where
  "calls_of [] = []"
| "calls_of (Callback st err # as) = (st, err) # calls_of as"
| "calls_of (a # as) = calls_of as"

text \<open>Who runs next: the series takes what was pushed last; a request waits for the scheduler; after nothing at all,
  nobody refers to the task.\<close>

definition phase_of :: "task_action list \<Rightarrow> phase" where
  "phase_of acts =
     (if PushSelf \<in> set acts \<or> Again \<in> set acts then Queued
      else if DeleteTask \<in> set acts then Finished
      else if list_ex is_router acts then Routing
      else if list_ex is_request acts then Waiting
      else Lost)"

text \<open>Whether \<^verbatim>\<open>done\<close> follows a redirect, and whether it starts another try.\<close>

definition redirects :: "client_env \<Rightarrow> http_task \<Rightarrow> bool" where
  "redirects e t \<longleftrightarrow> init_state t \<noteq> 0 \<and> t_state t = WFT_STATE_SUCCESS \<and> fst (need_redirect e t)"

definition retries :: "client_env \<Rightarrow> http_task \<Rightarrow> managers \<Rightarrow> bool" where
  "retries e t g \<longleftrightarrow> init_state t \<noteq> 0 \<and>
     (let t1 = fst (snd (finish_once e t g)) in t_state t1 = WFT_STATE_SYS_ERROR \<and> retry_times t1 < retry_max t1)"

definition on_done :: "client_env \<Rightarrow> (http_task \<Rightarrow> http_task) option \<Rightarrow> task_action list \<Rightarrow> http_task \<Rightarrow> client \<Rightarrow> client" where
  "on_done e cb before t c =
     (let (acts, t', g) = task_done e cb t (c_mgrs c) in
      c\<lparr>c_phase := phase_of (before @ acts), c_task := t', c_mgrs := g, c_calls := c_calls c @ calls_of acts,
        c_redirects := c_redirects c + (if \<not> router_task t \<and> redirects e t then 1 else 0),
        c_retries := c_retries c + (if \<not> router_task t \<and> retries e t (c_mgrs c) then 1 else 0)\<rparr>)"

definition on_dispatch :: "client_env \<Rightarrow> (http_task \<Rightarrow> http_task) option \<Rightarrow> client \<Rightarrow> client" where
  "on_dispatch e cb c =
     (let (acts, t) = dispatch e (c_task c) in
      if list_ex is_request acts then c\<lparr>c_phase := phase_of acts, c_task := t\<rparr> else on_done e cb acts t c)"

definition on_route :: "client_env \<Rightarrow> (http_task \<Rightarrow> http_task) option \<Rightarrow> task_state \<times> int \<times> RouteResult \<Rightarrow> client \<Rightarrow> client" where
  "on_route e cb got c =
     (let (acts, t, g) = router_callback e cb got (c_task c) (c_mgrs c) in
      c\<lparr>c_phase := phase_of acts, c_task := t, c_mgrs := g, c_calls := c_calls c @ calls_of acts\<rparr>)"

definition on_failed :: "client_env \<Rightarrow> (http_task \<Rightarrow> http_task) option \<Rightarrow> nat \<Rightarrow> int \<Rightarrow> client \<Rightarrow> client" where
  "on_failed e cb target err c = on_done e cb [] (comm_failed target err (c_task c)) c"

text \<open>The request goes out and \<open>resp\<close> is what was received.\<close>

definition exchange :: "client_env \<Rightarrow> HttpMessage \<Rightarrow> http_task \<Rightarrow> http_task option" where
  "exchange e resp t = Option.bind (message_out e t) (\<lambda>t. map_option (\<lambda>t. t\<lparr>t_resp := resp\<rparr>) (message_in t))"

definition on_reply :: "client_env \<Rightarrow> (http_task \<Rightarrow> http_task) option \<Rightarrow> task_state \<Rightarrow> int \<Rightarrow> bool \<Rightarrow> nat \<Rightarrow> http_task \<Rightarrow> client \<Rightarrow> client" where
  "on_reply e cb st err out target t c = on_done e cb [] (comm_handle st err out (t\<lparr>t_target := target\<rparr>)) c"

inductive client_step :: "(http_task \<Rightarrow> http_task) option \<Rightarrow> client \<Rightarrow> client \<Rightarrow> bool" for cb where
  StepDispatch: "c_phase c = Queued \<Longrightarrow> client_step cb c (on_dispatch e cb c)"
| StepRoute: "c_phase c = Routing \<Longrightarrow> client_step cb c (on_route e cb got c)"
| StepFailed: "c_phase c = Waiting \<Longrightarrow> client_step cb c (on_failed e cb target err c)"
| StepUnsent: "c_phase c = Waiting \<Longrightarrow> target \<noteq> 0 \<Longrightarrow> st \<in> {WFT_STATE_SYS_ERROR, WFT_STATE_ABORTED} \<Longrightarrow>
    client_step cb c (on_reply e cb st err False target (c_task c) c)"
| StepReply: "c_phase c = Waiting \<Longrightarrow> target \<noteq> 0 \<Longrightarrow> st \<in> {WFT_STATE_SYS_ERROR, WFT_STATE_ABORTED, WFT_STATE_SUCCESS} \<Longrightarrow>
    exchange e resp (c_task c) = Some t \<Longrightarrow> client_step cb c (on_reply e cb st err True target t c)"

definition client_init :: "client_env \<Rightarrow> http_task \<Rightarrow> string \<Rightarrow> int \<Rightarrow> int \<Rightarrow> managers \<Rightarrow> client" where
  "client_init e t0 url rdmax rtmax g =
     (let (t, g) = create_http_task e t0 url rdmax rtmax g
      in \<lparr>c_phase = Queued, c_task = t, c_mgrs = g, c_calls = [], c_redirects = 0, c_retries = 0\<rparr>)"

text \<open>A callback is given the task as a \<^verbatim>\<open>WFHttpTask\<close>, which has no access to the redirect flag; \<^verbatim>\<open>set_redirect\<close> is a method of
  \<^verbatim>\<open>WFComplexClientTask\<close>, and a callback that casts its argument to call it is excluded.\<close>

definition plain_callback :: "(http_task \<Rightarrow> http_task) option \<Rightarrow> bool" where
  "plain_callback cb \<longleftrightarrow> (\<forall>f t. cb = Some f \<longrightarrow> redirect (f t) = redirect t)"

subsection \<open>What the methods keep\<close>

definition runs :: "http_task \<Rightarrow> bool \<times> int \<times> int \<times> int \<times> int \<times> bool \<times> nat" where
  "runs t = (redirect t, retry_times t, retry_max t, redirect_max t, redirect_count t, router_task t, t_target t)"

lemma runs_upd_req [simp]: "runs (upd_req f t) = runs t"
  by (simp add: runs_def upd_req_def)

lemma runs_parts [simp]:
  "runs (t\<lparr>t_uri := u\<rparr>) = runs t" "runs (t\<lparr>t_route := r\<rparr>) = runs t" "runs (t\<lparr>t_upstream := us\<rparr>) = runs t"
  "runs (t\<lparr>init_state := n\<rparr>) = runs t" "runs (t\<lparr>t_type := ty\<rparr>) = runs t" "runs (t\<lparr>is_sockaddr := b\<rparr>) = runs t"
  "runs (t\<lparr>is_retry := b\<rparr>) = runs t" "runs (t\<lparr>t_resp := m\<rparr>) = runs t" "runs (t\<lparr>keep_alive_timeo := i\<rparr>) = runs t"
  "runs (set_task_error st err t) = runs t" "runs (keep_original e t) = runs t" "runs (uri_failed e t) = runs t"
  by (simp_all add: runs_def set_task_error_def keep_original_def uri_failed_def)

lemma runs_init_success [simp]: "runs (snd (init_success e t)) = runs t" "fst (init_success e t)"
  by (simp_all add: init_success_def Let_def)

lemma runs_init_failed [simp]: "runs (init_failed e t) = runs t"
  by (simp add: init_failed_def set_empty_request_def)

lemma runs_set_port [simp]: "runs (snd (set_port e t)) = runs t"
  by (simp add: set_port_def Let_def split: option.split)

lemma runs_choose [simp]: "runs (fst (choose_upstream e t g)) = runs t"
  by (simp add: choose_upstream_def Let_def split_beta)

lemma runs_init_with_uri [simp]: "runs (fst (init_with_uri e t g)) = runs t"
  by (simp add: init_with_uri_def Let_def split_beta)

lemma runs_init_copy [simp]: "runs (fst (init_copy e same u t g)) = runs t"
  by (simp add: init_copy_def)

lemma runs_init_move [simp]: "runs (fst (init_move e u t g)) = runs t"
  by (simp add: init_move_def)

lemma runs_dispatch: "runs (snd (dispatch e t)) = (runs (t\<lparr>router_task := list_ex is_router (fst (dispatch e t)) \<or> router_task t\<rparr>))"
  by (simp add: dispatch_def route_def Let_def split_beta) (simp add: runs_def)

lemma runs_message_out: "message_out e t = Some t' \<Longrightarrow> runs t' = runs t"
  by (auto simp: message_out_def Let_def split_beta add_connection_def add_content_length_def split: if_splits option.splits)

lemma runs_exchange: "exchange e resp t = Some t' \<Longrightarrow> runs t' = runs t"
  using runs_message_out [of e t] by (fastforce simp: exchange_def message_in_def bind_eq_Some_conv split: option.split_asm if_split_asm)

subsection \<open>Finishing an attempt\<close>

lemma redirect_url_cases:
  "redirect_url e t = (r, t') \<Longrightarrow>
   (redirect_count t \<ge> redirect_max t \<and> \<not> r \<and> t' = t) \<or>
   (redirect_count t < redirect_max t \<and> runs t' = runs (t\<lparr>redirect_count := redirect_count t + 1\<rparr>) \<and> init_state t' = init_state t \<and>
      (if r then t_state t' = t_state t else t_state t' = WFT_STATE_TASK_ERROR))"
  by (auto simp: redirect_url_def Let_def set_task_error_def runs_def split: if_splits option.splits)

lemma need_redirect_cases:
  assumes "need_redirect e t = (r, t')"
  shows "(\<not> r \<and> t' = t) \<or>
   (redirect_count t < redirect_max t \<and> runs t' = runs (t\<lparr>redirect_count := redirect_count t + 1\<rparr>) \<and> init_state t' = init_state t \<and>
      (if r then t_state t' = t_state t else t_state t' = WFT_STATE_TASK_ERROR))"
proof -
  obtain r0 t0 where u: "redirect_url e t = (r0, t0)" by fastforce
  have st: "t_state (upd_req f x) = t_state x" "init_state (upd_req f x) = init_state x" for f x by (simp_all add: upd_req_def)
  show ?thesis using redirect_url_cases [OF u] assms u
    by (auto simp: need_redirect_def Let_def st split: option.splits if_splits)
qed

lemma runs_redirect: "runs (fst (set_redirect e t g)) = runs (t\<lparr>redirect := True, retry_times := 0\<rparr>)"
  using runs_init_copy [of e True "t_uri t" "t\<lparr>redirect := True\<rparr>" g]
  by (simp add: set_redirect_def split_beta runs_def)

lemma runs_retry_uri: "runs (fst (set_retry_uri e t g)) = runs (t\<lparr>redirect := True, retry_times := retry_times t + 1\<rparr>)"
  using runs_init_copy [of e False "original_uri t" "t\<lparr>redirect := True\<rparr>" g]
  by (simp add: set_retry_uri_def split_beta runs_def)

lemma finish_cases:
  assumes "finish_once e t g = (user, t1, g1)"
  shows "user" and
    "if t_state t \<noteq> WFT_STATE_SUCCESS then t_state t1 = t_state t \<and> runs t1 = runs (t\<lparr>redirect_count := 0\<rparr>)
     else if fst (need_redirect e t) then redirect_count t < redirect_max t \<and>
       runs t1 = runs (t\<lparr>redirect := True, retry_times := 0, redirect_count := redirect_count t + 1\<rparr>)
     else t1 = t \<or> (redirect_count t < redirect_max t \<and> t_state t1 = WFT_STATE_TASK_ERROR \<and>
       runs t1 = runs (t\<lparr>retry_times := retry_max t, redirect_count := redirect_count t + 1\<rparr>))"
proof -
  obtain r t0 where n: "need_redirect e t = (r, t0)" by fastforce
  show "user" using assms by (simp add: finish_once_def)
  have d: "runs (disable_retry t0) = runs (t0\<lparr>retry_times := retry_max t0\<rparr>)" "t_state (disable_retry t0) = t_state t0"
    by (simp_all add: disable_retry_def)
  show "if t_state t \<noteq> WFT_STATE_SUCCESS then t_state t1 = t_state t \<and> runs t1 = runs (t\<lparr>redirect_count := 0\<rparr>)
     else if fst (need_redirect e t) then redirect_count t < redirect_max t \<and>
       runs t1 = runs (t\<lparr>redirect := True, retry_times := 0, redirect_count := redirect_count t + 1\<rparr>)
     else t1 = t \<or> (redirect_count t < redirect_max t \<and> t_state t1 = WFT_STATE_TASK_ERROR \<and>
       runs t1 = runs (t\<lparr>retry_times := retry_max t, redirect_count := redirect_count t + 1\<rparr>))"
    using assms n need_redirect_cases [OF n] runs_redirect [of e t0 g] d
    by (auto simp: finish_once_def split_beta runs_def split: if_splits)
qed

lemma notify_cases:
  "runs (fst (notify_result e t g)) =
     (if t_state t = WFT_STATE_SYS_ERROR \<and> retry_times t < retry_max t
      then runs (t\<lparr>redirect := True, retry_times := retry_times t + 1\<rparr>) else runs t)"
  using runs_retry_uri [of e t] by (simp add: notify_result_def Let_def split_beta set_retry_def)

lemma switch_cases:
  assumes "plain_callback cb" and "switch_callback e cb t = (acts, t')"
  shows "if redirect t then acts = [PushSelf] \<and> runs t' = runs (t\<lparr>redirect := False, t_target := 0\<rparr>)
    else acts = (if cb = None then [] else [Callback (t_state t) (t_error t)]) @ [DeleteTask]"
proof -
  have i: "runs (snd (init_success e x)) = runs x" for x by simp
  show ?thesis using assms i [of t]
    by (auto simp: switch_callback_def Let_def split_beta clear_resp_def plain_callback_def runs_def split: option.splits if_splits)
qed

subsection \<open>Counting\<close>

text \<open>
  With \<open>r\<close> redirects and \<open>f\<close> retries so far, \<open>m\<close> and \<open>x\<close> the limits, \<open>a\<close> and \<open>b\<close> the counters: a redirect
  starts the counter of the retries again and a failure that of the redirects.
\<close>

definition within :: "int \<Rightarrow> int \<Rightarrow> nat \<Rightarrow> nat \<Rightarrow> int \<Rightarrow> int \<Rightarrow> bool" where
  "within m x r f a b \<longleftrightarrow> int f \<le> max 0 m * int r + a \<and> 0 \<le> a \<and> a \<le> max 0 m \<and>
     int r \<le> max 0 x * int f + b \<and> 0 \<le> b \<and> b \<le> max 0 x"

lemma within_redirect: "within m x r f a b \<Longrightarrow> b < x \<Longrightarrow> within m x (r + 1) f 0 (b + 1)"
  by (auto simp: within_def algebra_simps)

lemma within_retry: "within m x r f a b \<Longrightarrow> a < m \<Longrightarrow> 0 \<le> b' \<Longrightarrow> b' \<le> max 0 x \<Longrightarrow> b' = 0 \<or> b' = b \<Longrightarrow> within m x r (f + 1) (a + 1) b'"
  by (auto simp: within_def algebra_simps max_def split: if_splits)

lemma within_bounds:
  "within m x r f a b \<Longrightarrow> int f \<le> max 0 m * (int r + 1) \<and> int r \<le> max 0 x * (int f + 1)"
  by (auto simp: within_def algebra_simps)

text \<open>The counters of a task that can go on.\<close>

definition ready :: "int \<Rightarrow> int \<Rightarrow> nat \<Rightarrow> nat \<Rightarrow> http_task \<Rightarrow> bool" where
  "ready m x r f t \<longleftrightarrow> \<not> redirect t \<and> \<not> router_task t \<and> retry_max t = m \<and> redirect_max t = x \<and>
     within m x r f (retry_times t) (redirect_count t)"

lemma ready_runs: "runs t' = runs t \<Longrightarrow> ready m x r f t' = ready m x r f t"
  by (simp add: runs_def ready_def)

lemma attempt_counts:
  assumes r: "ready m x r f t" and i: "init_state t \<noteq> 0"
    and f1: "finish_once e t g = (user, t1, g1)" and n: "notify_result e t1 g1 = (t2, g2)"
  defines "r' \<equiv> r + (if redirects e t then 1 else 0)" and "f' \<equiv> f + (if retries e t g then 1 else 0)"
  shows "redirect t2 \<longleftrightarrow> redirects e t \<or> retries e t g" and "t_target t2 = t_target t" and
    "\<exists>a b. within m x r' f' a b" and "redirect t2 \<Longrightarrow> ready m x r' f' (t2\<lparr>redirect := False\<rparr>)"
proof -
  let ?w = "within m x r f (retry_times t) (redirect_count t)"
  have re: "redirects e t \<longleftrightarrow> t_state t = WFT_STATE_SUCCESS \<and> fst (need_redirect e t)"
    and rt: "retries e t g \<longleftrightarrow> t_state t1 = WFT_STATE_SYS_ERROR \<and> retry_times t1 < retry_max t1"
    using i f1 by (simp_all add: redirects_def retries_def)
  have n2: "runs t2 = (if retries e t g then runs (t1\<lparr>redirect := True, retry_times := retry_times t1 + 1\<rparr>) else runs t1)"
    using notify_cases [of e t1 g1] n rt by simp
  note c = finish_cases(2) [OF f1]
  have old: "\<not> redirect t" "\<not> router_task t" "retry_max t = m" "redirect_max t = x" ?w using r by (simp_all add: ready_def)
  consider (redir) "redirects e t" | (fail) "\<not> redirects e t" "retries e t g" | (stop) "\<not> redirects e t" "\<not> retries e t g" by blast
  then have "(redirect t2 \<longleftrightarrow> redirects e t \<or> retries e t g) \<and> t_target t2 = t_target t \<and> (\<exists>a b. within m x r' f' a b) \<and>
    (redirect t2 \<longrightarrow> ready m x r' f' (t2\<lparr>redirect := False\<rparr>))"
  proof cases
    case redir
    then have t1: "runs t1 = runs (t\<lparr>redirect := True, retry_times := 0, redirect_count := redirect_count t + 1\<rparr>)" "redirect_count t < x"
      using c re old by (auto split: if_splits)
    have w: "within m x (r + 1) f 0 (redirect_count t + 1)" using within_redirect [OF old(5) t1(2)] .
    moreover have "within m x (r + 1) (f + 1) 1 (redirect_count t + 1)" if "retries e t g"
      using within_retry [OF w, of "redirect_count t + 1"] that rt t1 old w by (auto simp: runs_def within_def)
    ultimately show ?thesis using redir t1 n2 old by (auto simp: runs_def ready_def r'_def f'_def)
  next
    case fail
    then have t1: "runs t1 = runs (t\<lparr>redirect_count := 0\<rparr>)" using c re rt by (auto split: if_splits)
    have "within m x r (f + 1) (retry_times t + 1) 0" using within_retry [OF old(5), of 0] fail rt t1 old by (auto simp: runs_def)
    then show ?thesis using fail t1 n2 old by (auto simp: runs_def ready_def r'_def f'_def)
  next
    case stop
    then have "redirect t1 = redirect t" "t_target t1 = t_target t" using c re by (auto simp: runs_def split: if_splits)
    then show ?thesis using stop n2 old by (auto simp: runs_def r'_def f'_def)
  qed
  then show "redirect t2 \<longleftrightarrow> redirects e t \<or> retries e t g" and "t_target t2 = t_target t" and
    "\<exists>a b. within m x r' f' a b" and "redirect t2 \<Longrightarrow> ready m x r' f' (t2\<lparr>redirect := False\<rparr>)" by blast+
qed

text \<open>Without a target nothing is done; otherwise the task is queued again or its callback runs and it is deleted.\<close>

lemma on_done_cases:
  assumes cb: "plain_callback cb" and r: "ready m x (c_redirects c) (c_retries c) t" and c': "c' = on_done e cb [] t c"
  shows "\<exists>a b. within m x (c_redirects c') (c_retries c') a b"
    and "c_redirects c' \<ge> c_redirects c" and "c_retries c' \<ge> c_retries c"
    and "if t_target t = 0 then c_phase c' = Lost \<and> c_calls c' = c_calls c
      else if c_redirects c' + c_retries c' > c_redirects c + c_retries c
      then c_phase c' = Queued \<and> c_calls c' = c_calls c \<and> ready m x (c_redirects c') (c_retries c') (c_task c') \<and> t_target (c_task c') = 0
      else c_phase c' = Finished \<and> (\<exists>st err. c_calls c' = c_calls c @ (if cb = None then [] else [(st, err)]))"
proof -
  have nr: "\<not> router_task t" "\<not> redirect t" using r by (simp_all add: ready_def)
  obtain user t1 g1 where f: "(if init_state t \<noteq> 0 then finish_once e t (c_mgrs c) else (True, t, c_mgrs c)) = (user, t1, g1)"
    by (metis prod_cases3)
  obtain t2 g2 where n: "(if init_state t \<noteq> 0 then notify_result e t1 g1 else (t1, g1)) = (t2, g2)" by fastforce
  obtain acts t3 where s: "switch_callback e cb t2 = (acts, t3)" by fastforce
  have u: "user" using f finish_cases(1) by (auto split: if_splits)
  have d: "task_done e cb t (c_mgrs c) = (if t_target t2 = 0 then ([], t2, g2) else (acts, t3, g2))"
    unfolding task_done_def using nr f n s u by (simp add: Let_def)
  have R: "c_redirects c' = c_redirects c + (if redirects e t then 1 else 0)" "c_retries c' = c_retries c + (if retries e t (c_mgrs c) then 1 else 0)"
    using nr unfolding c' on_done_def by (simp_all add: split_beta)
  have A: "(redirect t2 \<longleftrightarrow> redirects e t \<or> retries e t (c_mgrs c)) \<and> t_target t2 = t_target t \<and>
    (\<exists>a b. within m x (c_redirects c') (c_retries c') a b) \<and> (redirect t2 \<longrightarrow> ready m x (c_redirects c') (c_retries c') (t2\<lparr>redirect := False\<rparr>))"
  proof (cases "init_state t = 0")
    case True
    then have "t2 = t" "\<not> redirects e t" "\<not> retries e t (c_mgrs c)" using f n by (simp_all add: redirects_def retries_def)
    then show ?thesis using nr R r by (auto simp: ready_def)
  next
    case False
    then show ?thesis using attempt_counts [OF r False, of e "c_mgrs c" user t1 g1 t2 g2] f n unfolding R by simp
  qed
  show "\<exists>a b. within m x (c_redirects c') (c_retries c') a b" using A by blast
  show "c_redirects c' \<ge> c_redirects c" "c_retries c' \<ge> c_retries c" using R by simp_all
  have more: "c_redirects c' + c_retries c' > c_redirects c + c_retries c \<longleftrightarrow> redirect t2" using A R by auto
  note sw = switch_cases [OF cb s]
  have P: "phase_of [] = Lost" "phase_of [PushSelf] = Queued" "phase_of [DeleteTask] = Finished" "phase_of [Callback st err, DeleteTask] = Finished" for st err
    by (simp_all add: phase_of_def)
  have c2: "c_phase c' = phase_of (fst (task_done e cb t (c_mgrs c)))" "c_task c' = fst (snd (task_done e cb t (c_mgrs c)))"
    "c_calls c' = c_calls c @ calls_of (fst (task_done e cb t (c_mgrs c)))" unfolding c' on_done_def by (simp_all add: split_beta)
  show "if t_target t = 0 then c_phase c' = Lost \<and> c_calls c' = c_calls c
      else if c_redirects c' + c_retries c' > c_redirects c + c_retries c
      then c_phase c' = Queued \<and> c_calls c' = c_calls c \<and> ready m x (c_redirects c') (c_retries c') (c_task c') \<and> t_target (c_task c') = 0
      else c_phase c' = Finished \<and> (\<exists>st err. c_calls c' = c_calls c @ (if cb = None then [] else [(st, err)]))"
    using A sw unfolding more c2 d by (auto simp: P ready_def runs_def split: if_splits)
qed

subsection \<open>The invariant of a run\<close>

text \<open>The number of steps a task can still take before it must start another attempt or end.\<close>

definition pot :: "client \<Rightarrow> nat" where
  "pot c = (case c_phase c of Queued \<Rightarrow> if route_object (t_route (c_task c)) = NullObject then 4 else 2
     | Routing \<Rightarrow> 3 | Waiting \<Rightarrow> 1 | Finished \<Rightarrow> 0 | Lost \<Rightarrow> 0)"

definition live :: "client \<Rightarrow> bool" where
  "live c \<longleftrightarrow> c_phase c = Queued \<or> c_phase c = Routing \<or> c_phase c = Waiting"

definition client_inv :: "(http_task \<Rightarrow> http_task) option \<Rightarrow> int \<Rightarrow> int \<Rightarrow> nat \<Rightarrow> client \<Rightarrow> bool" where
  "client_inv cb m x n c \<longleftrightarrow>
     (\<exists>a b. within m x (c_redirects c) (c_retries c) a b) \<and>
     (live c \<longrightarrow> ready m x (c_redirects c) (c_retries c) (c_task c)) \<and>
     (c_phase c = Queued \<or> c_phase c = Routing \<longrightarrow> t_target (c_task c) = 0) \<and>
     (c_phase c = Routing \<longrightarrow> route_object (t_route (c_task c)) = NullObject) \<and>
     length (c_calls c) = (if c_phase c = Finished \<and> cb \<noteq> None then 1 else 0) \<and>
     n + pot c \<le> 4 * (c_redirects c + c_retries c + 1)"

lemma dispatch_cases:
  assumes "dispatch e t = (acts, t')"
  obtains (request) "acts = [Request (route_object (t_route t))]" "route_object (t_route t) \<noteq> NullObject" "runs t' = runs t"
  | (router) a where "acts = [PushRouter a]" "route_object (t_route t) = NullObject" "t_route t' = t_route t"
      "runs t' = runs (t\<lparr>router_task := True\<rparr>)"
  | (ended) "acts = []" "runs t' = runs t" "init_state t = 0 \<or> (route_object (t_route t) = NullObject \<and> state (t_uri t) \<noteq> URI_STATE_SUCCESS)"
proof -
  note r = runs_dispatch [of e t, unfolded assms, simplified]
  consider "acts = [Request (route_object (t_route t))] \<and> route_object (t_route t) \<noteq> NullObject"
    | "\<exists>a. acts = [PushRouter a] \<and> route_object (t_route t) = NullObject \<and> t_route t' = t_route t"
    | "acts = [] \<and> (init_state t = 0 \<or> (route_object (t_route t) = NullObject \<and> state (t_uri t) \<noteq> URI_STATE_SUCCESS))"
    using assms by (auto simp: dispatch_def Let_def route_def split: if_splits)
  then show thesis
    by cases (use r request router ended in \<open>auto simp: runs_def\<close>)
qed

lemma dispatch_inv:
  assumes cb: "plain_callback cb" and inv: "client_inv cb m x n c" and q: "c_phase c = Queued"
  shows "client_inv cb m x (Suc n) (on_dispatch e cb c)"
proof -
  obtain acts t where d: "dispatch e (c_task c) = (acts, t)" by fastforce
  have r: "ready m x (c_redirects c) (c_retries c) (c_task c)" "t_target (c_task c) = 0" "c_calls c = []"
    using inv q by (simp_all add: client_inv_def live_def)
  from d show ?thesis
  proof (cases rule: dispatch_cases)
    case request
    then have "on_dispatch e cb c = c\<lparr>c_phase := Waiting, c_task := t\<rparr>" using d by (simp add: on_dispatch_def phase_of_def)
    moreover have "ready m x (c_redirects c) (c_retries c) t" using ready_runs request(3) r(1) by blast
    ultimately show ?thesis using inv q request(2) by (simp add: client_inv_def live_def pot_def)
  next
    case (router a)
    then have t: "router_task t" "t_target t = 0" "ready m x (c_redirects c) (c_retries c) (t\<lparr>router_task := False\<rparr>)"
      using r by (auto simp: runs_def ready_def)
    then have "on_dispatch e cb c = c\<lparr>c_phase := Routing, c_task := t\<lparr>router_task := False\<rparr>\<rparr>"
      using d router(1) by (simp add: on_dispatch_def on_done_def task_done_def phase_of_def)
    then show ?thesis using inv q t router(2,3) by (simp add: client_inv_def live_def pot_def)
  next
    case ended
    have t: "ready m x (c_redirects c) (c_retries c) t" "t_target t = 0" using ended(2) r by (auto simp: runs_def ready_def)
    have o: "on_dispatch e cb c = on_done e cb [] t c" using d ended(1) by (simp add: on_dispatch_def)
    show ?thesis using on_done_cases [OF cb t(1) o] t(2) inv q r(3)
      by (auto simp: client_inv_def live_def pot_def split: if_splits)
  qed
qed

lemma route_inv:
  assumes cb: "plain_callback cb" and inv: "client_inv cb m x n c" and q: "c_phase c = Routing"
  shows "client_inv cb m x (Suc n) (on_route e cb got c)"
proof -
  obtain st err rr where g: "got = (st, err, rr)" by (cases got)
  have r: "ready m x (c_redirects c) (c_retries c) (c_task c)" "t_target (c_task c) = 0" "c_calls c = []"
    "route_object (t_route (c_task c)) = NullObject"
    using inv q by (simp_all add: client_inv_def live_def)
  show ?thesis
  proof (cases "st = WFT_STATE_SUCCESS \<and> route_object rr \<noteq> NullObject")
    case True
    then have "on_route e cb got c = c\<lparr>c_phase := Queued, c_task := (c_task c)\<lparr>t_route := rr\<rparr>\<rparr>"
      by (simp add: on_route_def g router_callback_def phase_of_def)
    moreover have "ready m x (c_redirects c) (c_retries c) ((c_task c)\<lparr>t_route := rr\<rparr>)" using r(1) ready_runs runs_parts(2) by blast
    ultimately show ?thesis using inv q r(2) True by (simp add: client_inv_def live_def pot_def)
  next
    case False
    have nr: "\<not> redirect (c_task c)" using r(1) by (simp add: ready_def)
    have p: "redirect (f t) = redirect t" if "cb = Some f" for f t using cb that by (simp add: plain_callback_def)
    have "c_phase (on_route e cb got c) = Finished" "c_redirects (on_route e cb got c) = c_redirects c"
      "c_retries (on_route e cb got c) = c_retries c" "length (c_calls (on_route e cb got c)) = (if cb = None then 0 else 1)"
      using False r(3,4) nr p by (auto simp: on_route_def g router_callback_def Let_def phase_of_def set_task_error_def split_beta split: option.splits)
    then show ?thesis using inv q by (simp add: client_inv_def live_def pot_def)
  qed
qed

lemma answer_inv:
  assumes cb: "plain_callback cb" and inv: "client_inv cb m x n c" and q: "c_phase c = Waiting"
    and t: "runs t = runs ((c_task c)\<lparr>t_target := target\<rparr>)"
  shows "client_inv cb m x (Suc n) (on_done e cb [] t c)"
proof -
  have r: "ready m x (c_redirects c) (c_retries c) t" "c_calls c = []" "n + 1 \<le> 4 * (c_redirects c + c_retries c + 1)"
    using inv q t by (auto simp: client_inv_def live_def pot_def runs_def ready_def)
  note d = on_done_cases [OF cb r(1) refl, of e]
  have p: "pot c' \<le> 4" for c' by (simp add: pot_def split: phase.split)
  show ?thesis
  proof (cases "c_phase (on_done e cb [] t c) = Queued")
    case True
    then have "c_redirects (on_done e cb [] t c) + c_retries (on_done e cb [] t c) > c_redirects c + c_retries c"
      using d(4) by (auto split: if_splits)
    then have "Suc n + pot (on_done e cb [] t c) \<le> 4 * (c_redirects (on_done e cb [] t c) + c_retries (on_done e cb [] t c) + 1)"
      using p [of "on_done e cb [] t c"] r(3) by simp
    then show ?thesis using d True r(2) unfolding client_inv_def live_def by (auto split: if_splits)
  next
    case False
    then have "c_phase (on_done e cb [] t c) \<in> {Finished, Lost}" using d(4) by (auto split: if_splits)
    then show ?thesis using d r(2,3) unfolding client_inv_def live_def by (auto simp: pot_def split: if_splits)
  qed
qed

lemma client_step_inv:
  assumes "client_step cb c c'" and "plain_callback cb" and "client_inv cb m x n c"
  shows "client_inv cb m x (Suc n) c'"
  using assms(1)
proof cases
  case (StepDispatch e)
  then show ?thesis using dispatch_inv assms(2,3) by blast
next
  case (StepRoute e got)
  then show ?thesis using route_inv assms(2,3) by blast
next
  case (StepFailed e target err)
  then show ?thesis using answer_inv [OF assms(2,3), of _ target] by (simp add: on_failed_def comm_failed_def runs_def)
next
  case (StepUnsent target st e err)
  then show ?thesis using answer_inv [OF assms(2,3), of _ target] by (simp add: on_reply_def comm_handle_def runs_def)
next
  case (StepReply target st e resp t err)
  then show ?thesis using answer_inv [OF assms(2,3), of _ target] runs_exchange [OF StepReply(5)]
    by (simp add: on_reply_def comm_handle_def runs_def)
qed

lemma create_runs: "runs (fst (create_http_task e t0 url x m g)) = (False, 0, m, x, 0, False, 0)"
  by (simp add: create_http_task_def Let_def split_beta new_http_task_def) (simp add: runs_def)

lemma client_init_inv: "client_inv cb m x 0 (client_init e t0 url x m g)"
  using create_runs [of e t0 url x m g]
  by (auto simp: client_init_def split_beta client_inv_def live_def ready_def runs_def pot_def within_def intro!: exI [of _ "0 :: int"])

lemma client_run_inv:
  assumes "plain_callback cb" and "(client_step cb ^^ n) (client_init e t0 url x m g) c"
  shows "client_inv cb m x n c"
  using assms(2)
proof (induction n arbitrary: c)
  case 0
  then show ?case using client_init_inv [of cb m x e t0 url g] by simp
next
  case (Suc n)
  then show ?case using client_step_inv [OF _ assms(1)] by auto
qed

subsection \<open>Initialisation with memory\<close>

text \<open>Every allocation succeeds.\<close>

definition roomy :: "client_env \<Rightarrow> bool" where
  "roomy e \<longleftrightarrow> ce_mem e = (\<lambda>_. True) \<and> ce_alloc e = (\<lambda>_. True) \<and> ce_port_mem e"

text \<open>The URI with its port filled in.\<close>

definition with_port :: "client_env \<Rightarrow> ParsedURI \<Rightarrow> ParsedURI" where
  "with_port e u = (if nonempty (port u) \<and> atoi32 (the (port u)) \<noteq> 0 \<or> scheme u = None then u
     else case get_default_port (ce_user_ports e) (the (scheme u)) of None \<Rightarrow> u | Some p \<Rightarrow> u\<lparr>port := Some p\<rparr>)"

definition port_valid :: "ParsedURI \<Rightarrow> bool" where
  "port_valid u \<longleftrightarrow> nonempty (port u) \<longrightarrow> 0 \<le> atoi32 (the (port u)) \<and> atoi32 (the (port u)) \<le> 65535"

lemma with_port_keeps [simp]: "state (with_port e u) = state u" "host (with_port e u) = host u" "path (with_port e u) = path u"
  "query (with_port e u) = query u"
  by (simp_all add: with_port_def split: option.split)

lemma set_port_ok: "roomy e \<Longrightarrow> port_valid (t_uri t) \<Longrightarrow> set_port e t = (True, t\<lparr>t_uri := with_port e (t_uri t)\<rparr>)"
  by (auto simp: set_port_def with_port_def roomy_def port_valid_def Let_def split: option.split)

lemma choose_notfound:
  assumes "state u = URI_STATE_SUCCESS" and "\<And>h. host u = Some h \<Longrightarrow> upstream_map mg h = None"
  shows "manager_choose ev mem u mg = (0, u, upstream_clear, mg)"
  using assms by (cases "host u") (simp_all add: manager_choose_def upstream_clear_def)

lemma copy_ok: "roomy e \<Longrightarrow> state u = URI_STATE_SUCCESS \<Longrightarrow> uri_assign_copy (ce_alloc e) False v u = u"
  by (simp add: uri_assign_copy_def uri_copy_def roomy_def dup_fails_def uri_init_def Let_def)

text \<open>A URI that names no upstream: the request is set from it and the task is ready to be routed.\<close>

lemma init_plain:
  assumes "roomy e" and "state (t_uri t) = URI_STATE_SUCCESS" and "port_valid (t_uri t)" and "has_original_uri t"
    and "\<And>h. host (t_uri t) = Some h \<Longrightarrow> upstream_map (umgr g) h = None"
  shows "init_with_uri e t g =
    ((snd (init_success e (t\<lparr>original_uri := t_uri t, has_original_uri := True, t_route := route_clear, t_uri := with_port e (t_uri t),
       t_upstream := upstream_clear\<rparr>)))\<lparr>init_state := 1\<rparr>, g)"
proof -
  have "manager_choose (ce_up e) (ce_choose_mem e) (with_port e (t_uri t)) (umgr g) = (0, with_port e (t_uri t), upstream_clear, umgr g)"
    using assms(2,5) by (intro choose_notfound) simp_all
  then show ?thesis using assms(1-4)
    by (simp add: init_with_uri_def keep_original_def set_port_ok choose_upstream_def copy_ok split_beta Let_def) (simp add: upstream_clear_def)
qed

text \<open>The request a fresh task holds before a URI is set.\<close>

definition blank_request :: "client_env \<Rightarrow> http_parser" where
  "blank_request e = (http_parser_init False (ce_fresh e))\<lparr>method_of := Some ''GET'', version := Some ''HTTP/1.1''\<rparr>"

lemma create_plain:
  assumes e: "roomy e" and u: "u = snd (parse_string (ce_alloc e) url uri_init)" and s: "state u = URI_STATE_SUCCESS" "port_valid u"
    and h: "\<And>h. host u = Some h \<Longrightarrow> upstream_map (umgr g) h = None"
  obtains t where "create_http_task e t0 url x m g = (t, g)"
    and "t_uri t = with_port e u" "init_state t = 1" "t_route t = route_clear" "\<not> is_sockaddr t" "t_upstream t = upstream_clear"
      "\<not> is_retry t" "t_info t = []" "t_type t = TT_TCP" "\<not> first_addr_only t" "original_uri t = u" "has_original_uri t"
    and "req_parser t = snd (http_parser_set_header (\<lambda>_. True) ''Host'' (header_host (with_port e u))
           ((blank_request e)\<lparr>uri_of := Some (request_uri (with_port e u))\<rparr>))"
proof -
  let ?t = "(new_http_task e t0 x m)\<lparr>is_sockaddr := False, init_state := 0, t_uri := u\<rparr>"
  have n: "req_parser (new_http_task e t0 x m) = blank_request e" "has_original_uri (new_http_task e t0 x m)"
    "\<not> is_retry (new_http_task e t0 x m)" "t_info (new_http_task e t0 x m) = []" "\<not> first_addr_only (new_http_task e t0 x m)"
    using e by (simp_all add: new_http_task_def Let_def upd_req_def blank_request_def http_parser_set_method_def http_parser_set_version_def
      strdup_ok_def roomy_def message_init_def)
  have i: "init_with_uri e ?t g = ((snd (init_success e (?t\<lparr>original_uri := u, has_original_uri := True, t_route := route_clear,
      t_uri := with_port e u, t_upstream := upstream_clear\<rparr>)))\<lparr>init_state := 1\<rparr>, g)"
    using init_plain [OF e, of ?t g] s h n(2) by simp
  let ?r = "fst (init_with_uri e ?t g)\<lparr>keep_alive_timeo := HTTP_KEEPALIVE_DEFAULT\<rparr>"
  have c: "create_http_task e t0 url x m g = (?r, g)"
    using i by (simp add: create_http_task_def Let_def init_move_def uri_assign_move_def uri_move_def u split_beta)
  show thesis
    by (rule that [OF c]) (use e n in \<open>simp_all add: i init_success_def Let_def upd_req_def http_parser_set_uri_def strdup_ok_def roomy_def\<close>)
qed

lemma bad_uri_init:
  "state (t_uri t) \<noteq> URI_STATE_SUCCESS \<Longrightarrow> init_state (fst (init_with_uri e t g)) = init_state t"
  by (auto simp: init_with_uri_def keep_original_def Let_def uri_failed_def set_task_error_def init_failed_def set_empty_request_def upd_req_def)

subsection \<open>Properties\<close>

text \<open>C30: The callback of a client task runs at most once, and only as the task is deleted: in every state a run reaches it
  has run exactly when the task is finished. A task that is neither finished nor dropped can always take a step.\<close>

theorem http_task_callback_once:
  assumes "plain_callback cb" and "(client_step cb)\<^sup>*\<^sup>* (client_init e t0 url x m g) c"
  shows "length (c_calls c) = (if c_phase c = Finished \<and> cb \<noteq> None then 1 else 0) \<and>
    (c_phase c = Finished \<or> c_phase c = Lost \<longleftrightarrow> (\<nexists>c'. client_step cb c c'))"
proof -
  obtain n where "(client_step cb ^^ n) (client_init e t0 url x m g) c" using assms(2) rtranclp_imp_relpowp by metis
  then have "client_inv cb m x n c" using client_run_inv [OF assms(1)] by blast
  moreover have "\<exists>c'. client_step cb c c'" if "c_phase c = Queued \<or> c_phase c = Routing \<or> c_phase c = Waiting"
    using that client_step.intros(1-3) by blast
  moreover have "\<nexists>c'. client_step cb c c'" if "c_phase c = Finished \<or> c_phase c = Lost"
    using that by (auto elim: client_step.cases)
  ultimately show ?thesis by (cases "c_phase c") (simp_all add: client_inv_def)
qed

text \<open>C31: The limits of a client task: a run with \<^verbatim>\<open>r\<close> redirects and \<^verbatim>\<open>f\<close> retries has at most four steps for each attempt,
  at most \<^verbatim>\<open>retry_max\<close> retries for the first request and after each redirect, and at most \<^verbatim>\<open>redirect_max\<close> redirects
  before the first and after each failure. When one of the limits is zero, the other bounds the whole run.\<close>

theorem http_task_limits:
  assumes "plain_callback cb" and "(client_step cb ^^ n) (client_init e t0 url redirect_limit retry_limit g) c"
  shows "n \<le> 4 * (c_redirects c + c_retries c + 1) \<and>
    int (c_retries c) \<le> max 0 retry_limit * (int (c_redirects c) + 1) \<and>
    int (c_redirects c) \<le> max 0 redirect_limit * (int (c_retries c) + 1) \<and>
    (redirect_limit \<le> 0 \<longrightarrow> n \<le> 4 * (nat retry_limit + 1)) \<and> (retry_limit \<le> 0 \<longrightarrow> n \<le> 4 * (nat redirect_limit + 1))"
proof -
  have i: "client_inv cb retry_limit redirect_limit n c" using client_run_inv [OF assms] .
  have n: "n \<le> 4 * (c_redirects c + c_retries c + 1)" using i by (simp add: client_inv_def)
  have b: "int (c_retries c) \<le> max 0 retry_limit * (int (c_redirects c) + 1)" "int (c_redirects c) \<le> max 0 redirect_limit * (int (c_retries c) + 1)"
    using i within_bounds by (auto simp: client_inv_def)
  have "c_redirects c = 0 \<and> c_retries c \<le> nat retry_limit" if "redirect_limit \<le> 0" using b that by (simp add: max_def split: if_splits)
  moreover have "c_retries c = 0 \<and> c_redirects c \<le> nat redirect_limit" if "retry_limit \<le> 0" using b that by (simp add: max_def split: if_splits)
  ultimately show ?thesis using n b by auto
qed

text \<open>A task without a target is dropped in silence: one whose URL does not parse ends with its first step, and one whose
  request could not get a target, even with retries left, with the answer of the scheduler; its callback has not run, no step
  follows and it is not deleted.\<close>

theorem http_task_dropped:
  assumes "plain_callback cb"
  shows "(state (snd (parse_string (ce_alloc e) url uri_init)) \<noteq> URI_STATE_SUCCESS \<and> client_step cb (client_init e t0 url x m g) c \<longrightarrow>
      c_phase c = Lost \<and> c_calls c = []) \<and>
    ((client_step cb)\<^sup>*\<^sup>* (client_init e t0 url x m g) d \<and> c_phase d = Waiting \<longrightarrow>
      c_phase (on_failed e' cb 0 err d) = Lost \<and> c_calls (on_failed e' cb 0 err d) = [])"
proof (intro conjI impI; elim conjE)
  assume u: "state (snd (parse_string (ce_alloc e) url uri_init)) \<noteq> URI_STATE_SUCCESS"
    and s: "client_step cb (client_init e t0 url x m g) c"
  let ?c = "client_init e t0 url x m g"
  have q: "c_phase ?c = Queued" "init_state (c_task ?c) = 0" "c_calls ?c = []"
    using u bad_uri_init by (simp_all add: client_init_def create_http_task_def init_move_def uri_assign_move_def uri_move_def split_beta Let_def)
  obtain e1 where c: "c = on_dispatch e1 cb ?c" using s q(1) by (auto elim: client_step.cases)
  have inv: "client_inv cb m x 0 ?c" by (rule client_init_inv)
  then have "ready m x (c_redirects ?c) (c_retries ?c) (c_task ?c)" "t_target (c_task ?c) = 0" using q(1) by (simp_all add: client_inv_def live_def)
  moreover have "c = on_done e1 cb [] (c_task ?c) ?c" using q(2) by (simp add: c on_dispatch_def dispatch_def)
  ultimately show "c_phase c = Lost" "c_calls c = []" using on_done_cases(4) [OF assms] q(3) by metis+
next
  assume r: "(client_step cb)\<^sup>*\<^sup>* (client_init e t0 url x m g) d" and w: "c_phase d = Waiting"
  obtain n where "(client_step cb ^^ n) (client_init e t0 url x m g) d" using r rtranclp_imp_relpowp by metis
  then have i: "client_inv cb m x n d" using client_run_inv [OF assms] by blast
  let ?t = "comm_failed 0 err (c_task d)"
  have t: "ready m x (c_redirects d) (c_retries d) ?t" "t_target ?t = 0" "c_calls d = []"
    using i w by (auto simp: client_inv_def live_def comm_failed_def ready_def)
  show "c_phase (on_failed e' cb 0 err d) = Lost" "c_calls (on_failed e' cb 0 err d) = []"
    using on_done_cases(4) [OF assms t(1) on_failed_def] t(2,3) by metis+
qed

subsection \<open>The request of a URL\<close>

lemma valid_no_nul: "list_all (valid_char i) t \<Longrightarrow> NUL \<notin> set t"
  using valid_char_NUL by (metis list_all_iff)

lemma uri_text_no_nul: "uri_parts_ok sc ui ho po pa qu fr \<Longrightarrow> NUL \<notin> set (URIParser.uri_text sc ui ho po pa qu fr)"
  by (auto simp: URIParser.uri_text_def uri_parts_ok_def URIParser.part_ok_def dest!: valid_no_nul split: option.splits)

lemma host_not_path: "list_all (valid_char 2) ho \<Longrightarrow> ho \<noteq> [] \<Longrightarrow> hd ho \<noteq> CHR ''/''"
  by (cases ho) (auto simp: valid_char_def Let_def)

lemma atoi_80: "atoi32 ''80'' = 80"
  by code_simp

definition port_ok :: "string option \<Rightarrow> bool" where
  "port_ok po = (case po of None \<Rightarrow> True | Some p \<Rightarrow> 0 < atoi32 p \<and> atoi32 p \<le> 65535)"

text \<open>C32: From a URL to the wire: the task made for an http URL whose host is no upstream holds the request
  \<^verbatim>\<open>GET path?query HTTP/1.1\<close> with the one header \<^verbatim>\<open>Host\<close>, the port in it unless it is 80, and first asks the
  router for the address of that host and port; a userinfo and a fragment are never sent.\<close>

theorem http_task_request:
  assumes p: "uri_parts_ok ''http'' ui ho po pa qu fr" and e: "roomy e" and q: "port_ok po" and u: "upstream_map (umgr g) ho = None"
  shows "\<exists>t. create_http_task e t0 (URIParser.uri_text ''http'' ui ho po pa qu fr) x m g = (t, g) \<and>
    start_parts (req_parser t) = Some (''GET'', (case pa of None \<Rightarrow> ''/'' | Some p \<Rightarrow> p) @ (case qu of None \<Rightarrow> [] | Some q \<Rightarrow> ''?'' @ q), ''HTTP/1.1'') \<and>
    header_fields (req_parser t) = [(''Host'', ho @ (case po of None \<Rightarrow> [] | Some p \<Rightarrow> if atoi32 p = 80 then [] else '':'' @ p))] \<and>
    fst (dispatch e' t) = [PushRouter \<lparr>ra_type = TT_TCP, ra_host = ho, ra_port = (case po of None \<Rightarrow> 80 | Some p \<Rightarrow> nat (atoi32 p)), ra_info = [],
      ra_cache_level = 2, ra_params = None, ra_first_addr_only = False\<rparr>]"
proof -
  let ?s = "URIParser.uri_text ''http'' ui ho po pa qu fr"
  define v where "v = uri_init\<lparr>scheme := Some ''http'', userinfo := ui, host := Some ho, port := po, path := pa, query := qu,
    fragment := fr, state := URI_STATE_SUCCESS\<rparr>"
  have v: "v = snd (parse_string (ce_alloc e) ?s uri_init)"
    using parse_well_formed [OF p, of "ce_alloc e" uri_init] uri_text_no_nul [OF p] e by (simp add: parse_string_def v_def roomy_def)
  have parts: "ho \<noteq> []" "hd ho \<noteq> CHR ''/''" "\<And>x. po = Some x \<Longrightarrow> x \<noteq> []" "\<And>x. pa = Some x \<Longrightarrow> x \<noteq> []" "\<And>x. qu = Some x \<Longrightarrow> x \<noteq> []"
    using p host_not_path by (auto simp: uri_parts_ok_def URIParser.part_ok_def)
  have w: "with_port e v = v\<lparr>port := Some (case po of None \<Rightarrow> ''80'' | Some x \<Rightarrow> x)\<rparr>"
    using q parts(3) by (cases po) (simp_all add: with_port_def v_def nonempty_def port_ok_def get_default_port_def static_scheme_port_def)
  have r: "request_uri (with_port e v) = (case pa of None \<Rightarrow> ''/'' | Some p \<Rightarrow> p) @ (case qu of None \<Rightarrow> [] | Some q \<Rightarrow> ''?'' @ q)"
    using parts(4,5) by (auto simp: w request_uri_def v_def nonempty_def split: option.split)
  have hh: "header_host (with_port e v) = ho @ (case po of None \<Rightarrow> [] | Some p \<Rightarrow> if atoi32 p = 80 then [] else '':'' @ p)"
    unfolding w header_host_def using parts(1-3) by (cases po) (simp_all add: v_def nonempty_def atoi_80)
  have pv: "port_valid v" using q by (auto simp: port_valid_def v_def port_ok_def nonempty_def split: option.splits)
  obtain t where t: "create_http_task e t0 ?s x m g = (t, g)" "t_uri t = with_port e v" "init_state t = 1" "t_route t = route_clear"
    "t_upstream t = upstream_clear" "\<not> is_retry t" "t_info t = []" "t_type t = TT_TCP" "\<not> first_addr_only t"
    "req_parser t = snd (http_parser_set_header (\<lambda>_. True) ''Host'' (header_host (with_port e v)) ((blank_request e)\<lparr>uri_of := Some (request_uri (with_port e v))\<rparr>))"
    by (rule create_plain [OF e v _ pv]) (use u in \<open>auto simp: v_def\<close>)
  have "fst (dispatch e' t) = [PushRouter \<lparr>ra_type = TT_TCP, ra_host = ho, ra_port = (case po of None \<Rightarrow> 80 | Some p \<Rightarrow> nat (atoi32 p)), ra_info = [],
      ra_cache_level = 2, ra_params = None, ra_first_addr_only = False\<rparr>]"
    using t(2-9) [unfolded w] q
    by (cases po) (simp_all add: dispatch_def route_clear_def upstream_clear_def route_def v_def Let_def atoi_80 port_ok_def)
  moreover have "start_parts (req_parser t) = Some (''GET'', request_uri (with_port e v), ''HTTP/1.1'')"
    "header_fields (req_parser t) = [(''Host'', header_host (with_port e v))]"
    unfolding t(10) by (simp_all add: http_parser_set_header_def http_parser_add_header_def blank_request_def http_parser_init_def
      start_parts_def header_fields_def line_name_def line_value_def)
  ultimately show ?thesis using t(1) unfolding r hh by blast
qed

subsection \<open>The headers of a request\<close>

lemma add_header_fields:
  "(\<forall>n. mem n) \<Longrightarrow> lines_ok p \<Longrightarrow> lines_ok (snd (http_parser_add_header mem name val p)) \<and>
    header_fields (snd (http_parser_add_header mem name val p)) = header_fields p @ [(name, val)]"
  by (simp add: http_parser_add_header_def lines_ok_def header_fields_def line_ok_def line_text_def line_name_def line_value_def)

lemma find_header_get: "lines_ok (req_parser t) \<Longrightarrow> find_header name t = field_get name (header_fields (req_parser t))"
  by (simp add: find_header_def find_fields)

text \<open>A method that only adds headers.\<close>

definition adds :: "(string \<times> string) list \<Rightarrow> http_task \<Rightarrow> http_task \<Rightarrow> bool" where
  "adds hs t t' \<longleftrightarrow> lines_ok (req_parser t') \<and> header_fields (req_parser t') = header_fields (req_parser t) @ hs \<and>
     method_of (req_parser t') = method_of (req_parser t) \<and> output_body_size (t_req t') = output_body_size (t_req t) \<and>
     keep_alive_timeo t' = keep_alive_timeo t"

lemma adds_header:
  assumes "ce_mem e = (\<lambda>_. True)" and "lines_ok (req_parser t)"
  shows "adds [(name, val)] t (upd_req (http_parser_add_header (ce_mem e) name val) t)"
  using assms add_header_fields [of "ce_mem e" "req_parser t" name val] by (auto simp: adds_def upd_req_def http_parser_add_header_def)

lemma adds_trans: "adds as t t1 \<Longrightarrow> adds bs t1 t2 \<Longrightarrow> adds (as @ bs) t t2"
  by (simp add: adds_def)

lemma adds_nil: "lines_ok (req_parser t) \<Longrightarrow> adds [] t t"
  by (simp add: adds_def)

definition length_headers :: "http_task \<Rightarrow> (string \<times> string) list" where
  "length_headers t =
     (if find_header ''Content-Length'' t = None then [(''Content-Length'', take 31 (dec_nat (output_body_size (t_req t))))] else [])"

definition connection_headers :: "http_task \<Rightarrow> (string \<times> string) list" where
  "connection_headers t =
     (if find_header ''Connection'' t = None then [(''Connection'', if keep_alive_timeo t \<noteq> 0 then ''Keep-Alive'' else ''close'')] else [])"

lemma adds_length: "ce_mem e = (\<lambda>_. True) \<Longrightarrow> lines_ok (req_parser t) \<Longrightarrow> adds (length_headers t) t (add_content_length e t)"
  using adds_header [of e t] adds_nil [of t] by (auto simp: add_content_length_def length_headers_def simp del: append.simps split: option.split)

lemma adds_connection: "ce_mem e = (\<lambda>_. True) \<Longrightarrow> lines_ok (req_parser t) \<Longrightarrow> adds (connection_headers t) t (snd (add_connection e t))"
  using adds_header [of e t] adds_nil [of t] by (auto simp: add_connection_def connection_headers_def split: option.split)

lemma dec_nat_length: "n < 10 ^ Suc k \<Longrightarrow> length (dec_nat n) \<le> Suc k"
proof (induction k arbitrary: n)
  case 0
  then show ?case by (simp add: dec_nat.simps)
next
  case (Suc k)
  then have "length (dec_nat (n div 10)) \<le> Suc k" by (intro Suc.IH) (simp add: less_mult_imp_div_less)
  then show ?case by (subst dec_nat.simps) simp
qed

lemma clamp_bounds:
  assumes "- (2 ^ 31) \<le> v" "v < 2 ^ 31"
  shows "0 \<le> clamp_timeo v \<and> clamp_timeo v \<le> HTTP_KEEPALIVE_MAX"
proof (cases "v < 0")
  case True
  then have "v mod 2 ^ 32 = v + 2 ^ 32" using assms mod_pos_pos_trivial [of "v + 2 ^ 32" "2 ^ 32"] by simp
  then show ?thesis using True assms by (simp add: clamp_timeo_def)
next
  case False
  then have "v mod 2 ^ 32 = v" using assms by simp
  then show ?thesis using False by (simp add: clamp_timeo_def)
qed

lemma keep_alive_loop_int: "- (2 ^ 31) \<le> v \<Longrightarrow> v < 2 ^ 31 \<Longrightarrow> - (2 ^ 31) \<le> keep_alive_loop kvs v \<and> keep_alive_loop kvs v < 2 ^ 31"
proof (induction kvs)
  case (Cons kv kvs)
  have "- (2 ^ 31) \<le> atoi32 s \<and> atoi32 s < 2 ^ 31" for s
  proof -
    have "0 \<le> n mod 2 ^ 32 \<and> n mod 2 ^ 32 < 2 ^ 32" for n :: int by simp
    from this [of "fst (strtol 10 s)"] show ?thesis unfolding atoi32_def Let_def by (auto split: if_splits)
  qed
  then show ?case using Cons by (simp add: Let_def)
qed simp

text \<open>Whether the request declares a transfer encoding of its own, and whether it needs a length.\<close>

definition sends_chunked :: "http_task \<Rightarrow> bool" where
  "sends_chunked t = (case find_header ''Transfer-Encoding'' t of Some v \<Rightarrow> v \<noteq> [] \<and> \<not> strcaseeq v ''identity'' | None \<Rightarrow> False)"

definition needs_length :: "http_task \<Rightarrow> bool" where
  "needs_length t = (\<not> sends_chunked t \<and> (method_of (req_parser t) = Some ''POST'' \<or> (\<exists>m. method_of (req_parser t) = Some m \<and> strcaseeq m ''PUT'')))"

definition sent_headers :: "http_task \<Rightarrow> (string \<times> string) list" where
  "sent_headers t = (if needs_length t then length_headers t else []) @ connection_headers t"

lemma field_get_other: "adds hs t t' \<Longrightarrow> lines_ok (req_parser t) \<Longrightarrow> (\<forall>(n, v) \<in> set hs. \<not> strcaseeq n name) \<Longrightarrow> find_header name t' = find_header name t"
proof -
  have "(\<forall>(n, v) \<in> set hs. \<not> strcaseeq n name) \<Longrightarrow> field_get name hs = None" by (induction hs) auto
  then show "adds hs t t' \<Longrightarrow> lines_ok (req_parser t) \<Longrightarrow> (\<forall>(n, v) \<in> set hs. \<not> strcaseeq n name) \<Longrightarrow> ?thesis"
    by (simp add: adds_def find_header_get field_get_append split: option.split)
qed

lemma names_differ: "\<not> strcaseeq ''Content-Length'' ''Connection''" "\<not> strcaseeq ''Content-Length'' ''Transfer-Encoding''"
  "\<not> strcaseeq ''Connection'' ''Transfer-Encoding''" "\<not> strcaseeq ''Connection'' ''Content-Length''"
  by code_simp+

lemma message_out_adds:
  assumes e: "ce_mem e = (\<lambda>_. True)" and l: "lines_ok (req_parser t)" and m: "method_of (req_parser t) \<noteq> None"
    and k: "- (2 ^ 31) \<le> keep_alive_timeo t" "keep_alive_timeo t < 2 ^ 31"
  obtains t' where "message_out e t = Some t'" "adds (sent_headers t) t (t'\<lparr>keep_alive_timeo := keep_alive_timeo t\<rparr>)"
    "0 \<le> keep_alive_timeo t'" "keep_alive_timeo t' \<le> HTTP_KEEPALIVE_MAX"
proof -
  define t1 where "t1 = (if needs_length t then add_content_length e t else t)"
  obtain al t2 where t2: "add_connection e t1 = (al, t2)" by fastforce
  have a1: "adds (if needs_length t then length_headers t else []) t t1" using adds_length [OF e l] adds_nil [OF l] by (simp add: t1_def)
  then have l1: "lines_ok (req_parser t1)" by (simp add: adds_def)
  have c: "connection_headers t1 = connection_headers t"
    using field_get_other [OF a1 l, of "''Connection''"] a1 names_differ by (auto simp: connection_headers_def adds_def length_headers_def)
  have a2: "adds (sent_headers t) t t2" using adds_trans [OF a1 adds_connection [OF e l1]] t2 c by (simp add: sent_headers_def)
  define v where "v = (case find_header ''Keep-Alive'' t2 of None \<Rightarrow> keep_alive_timeo t2 | Some x \<Rightarrow> keep_alive_loop (split x (CHR '','')) (keep_alive_timeo t2))"
  have "keep_alive_timeo t2 = keep_alive_timeo t" using a2 by (simp add: adds_def)
  then have v: "- (2 ^ 31) \<le> v" "v < 2 ^ 31" using keep_alive_loop_int k by (auto simp: v_def split: option.split)
  let ?r = "if \<not> al then t2\<lparr>keep_alive_timeo := 0\<rparr> else t2\<lparr>keep_alive_timeo := clamp_timeo v\<rparr>"
  have "message_out e t = Some ?r"
    using m t2 unfolding message_out_def Let_def sends_chunked_def [symmetric] v_def t1_def needs_length_def by (auto split: if_splits)
  moreover have "adds (sent_headers t) t (?r\<lparr>keep_alive_timeo := keep_alive_timeo t\<rparr>)" using a2 by (auto simp: adds_def)
  ultimately show thesis by (rule that) (use clamp_bounds [OF v] in auto)
qed

text \<open>C34: What a request carries: with memory, sending a request never fails, gives the connection a keep-alive time between 0
  and five minutes, and only adds headers: for POST and PUT without a transfer encoding the length of the body
  unless the user gave one, and a Connection header unless there is one. Sending the request again, for a retry or a
  redirect with the same method, adds nothing more.\<close>

theorem message_out_headers:
  assumes "ce_mem e = (\<lambda>_. True)" and "lines_ok (req_parser t)" and "method_of (req_parser t) = Some mth"
    and "- (2 ^ 31) \<le> keep_alive_timeo t" and "keep_alive_timeo t < 2 ^ 31" and "output_body_size (t_req t) < 2 ^ 64"
  shows "\<exists>t'. message_out e t = Some t' \<and> 0 \<le> keep_alive_timeo t' \<and> keep_alive_timeo t' \<le> HTTP_KEEPALIVE_MAX \<and>
    header_fields (req_parser t') = header_fields (req_parser t) @ sent_headers t \<and>
    find_header ''Connection'' t' \<noteq> None \<and>
    (needs_length t \<and> find_header ''Content-Length'' t = None \<longrightarrow>
       find_header ''Content-Length'' t' = Some (dec_nat (output_body_size (t_req t)))) \<and>
    (\<exists>t''. message_out e t' = Some t'' \<and> header_fields (req_parser t'') = header_fields (req_parser t'))"
proof -
  obtain t' where o: "message_out e t = Some t'" "adds (sent_headers t) t (t'\<lparr>keep_alive_timeo := keep_alive_timeo t\<rparr>)"
    "0 \<le> keep_alive_timeo t'" "keep_alive_timeo t' \<le> HTTP_KEEPALIVE_MAX"
    by (rule message_out_adds [OF assms(1,2) _ assms(4,5)]) (use assms(3) in simp)
  have f: "header_fields (req_parser t') = header_fields (req_parser t) @ sent_headers t" "lines_ok (req_parser t')"
    "method_of (req_parser t') = Some mth" using o(2) assms(3) by (auto simp: adds_def)
  have g: "find_header n t' = (case find_header n t of None \<Rightarrow> field_get n (sent_headers t) | Some v \<Rightarrow> Some v)" for n
    using f(1) by (simp add: find_header_get [OF f(2)] find_header_get [OF assms(2)] field_get_append)
  have conn: "find_header ''Connection'' t' \<noteq> None"
    using names_differ by (auto simp: g sent_headers_def connection_headers_def field_get_append length_headers_def split: option.split)
  have len: "find_header ''Content-Length'' t' = Some (dec_nat (output_body_size (t_req t)))"
    if "needs_length t" "find_header ''Content-Length'' t = None"
    using that dec_nat_length [of "output_body_size (t_req t)" 30] assms(6) by (simp add: g sent_headers_def length_headers_def)
  have "find_header ''Transfer-Encoding'' t' = find_header ''Transfer-Encoding'' t"
    using names_differ by (auto simp: g sent_headers_def connection_headers_def field_get_append length_headers_def split: option.split)
  then have "needs_length t' = needs_length t" using f(3) assms(3) by (simp add: needs_length_def sends_chunked_def)
  moreover have "find_header ''Content-Length'' t' \<noteq> None" if "needs_length t"
    using len that g [of "''Content-Length''"] by (cases "find_header ''Content-Length'' t") simp_all
  ultimately have "sent_headers t' = []" using conn by (simp add: sent_headers_def connection_headers_def length_headers_def)
  moreover obtain t'' where "message_out e t' = Some t''" "adds (sent_headers t') t' (t''\<lparr>keep_alive_timeo := keep_alive_timeo t'\<rparr>)"
    by (rule message_out_adds [OF assms(1) f(2)]) (use f(3) o(3,4) in auto)
  ultimately have again: "\<exists>t''. message_out e t' = Some t'' \<and> header_fields (req_parser t'') = header_fields (req_parser t')"
    by (auto simp: adds_def)
  show ?thesis by (rule exI [of _ t'], intro conjI impI; (elim conjE)?) (rule o(1) o(3) o(4) f(1) conn len again; assumption?)+
qed

subsection \<open>Concrete runs\<close>

definition demo_env :: client_env where
  "demo_env = \<lparr>ce_mem = (\<lambda>_. True), ce_alloc = (\<lambda>_. True), ce_port_mem = True, ce_choose_mem = (True, True), ce_fresh = blank_parser,
     ce_errno = 12, ce_up = \<lparr>shuffler = id, rand1 = 0, rand2 = 0, hasher = (\<lambda>_. 0), clock = 0\<rparr>, ce_group_mem = True,
     ce_user_ports = Map.empty\<rparr>"

definition demo_managers :: managers where
  "demo_managers = \<lparr>umgr = manager_init, rmgr = \<lparr>cache = Map.empty\<rparr>\<rparr>"

definition demo_memory :: http_task where
  "demo_memory = \<lparr>t_state = WFT_STATE_UNDEFINED, t_error = 0, t_reason = TOR_NOT_TIMEOUT, t_target = 0, t_req = demo_message,
     t_resp = demo_message, keep_alive_timeo = 0, t_uri = uri_init, original_uri = uri_init, retry_max = 0, is_sockaddr = False,
     first_addr_only = False, router_task = False, t_route = route_clear, t_upstream = upstream_clear, t_type = TT_TCP, t_info = [],
     retry_times = 0, init_state = 0, is_retry = False, has_original_uri = True, redirect = False, redirect_max = 0, redirect_count = 0\<rparr>"

definition demo_uri :: ParsedURI where
  "demo_uri = uri_init\<lparr>scheme := Some ''http'', host := Some ''a'', path := Some ''/'', state := URI_STATE_SUCCESS\<rparr>"

lemma demo_env_roomy: "roomy demo_env"
  by (simp add: roomy_def demo_env_def)

lemma demo_parse: "parse_string (\<lambda>_. True) ''http://a/'' uri_init = (0, demo_uri)"
proof -
  have "uri_parts_ok ''http'' None ''a'' None (Some ''/'') None None" by code_simp
  moreover have "URIParser.uri_text ''http'' None ''a'' None (Some ''/'') None None = ''http://a/''" by (simp add: URIParser.uri_text_def)
  ultimately show ?thesis using parse_well_formed [of "''http''" None "''a''" None "Some ''/''" None None "\<lambda>_. True" uri_init]
    by (simp add: parse_string_def demo_uri_def uri_init_def)
qed

abbreviation demo_client :: client where
  "demo_client \<equiv> client_init demo_env demo_memory ''http://a/'' 1 1 demo_managers"

lemma demo_client_parts:
  "c_phase demo_client = Queued" "init_state (c_task demo_client) = 1" "t_route (c_task demo_client) = route_clear"
  "state (t_uri (c_task demo_client)) = URI_STATE_SUCCESS" "runs (c_task demo_client) = (False, 0, 1, 1, 0, False, 0)" "c_calls demo_client = []"
proof -
  have u: "state demo_uri = URI_STATE_SUCCESS" "port_valid demo_uri" "upstream_map (umgr demo_managers) h = None" for h
    by (simp_all add: demo_uri_def port_valid_def nonempty_def uri_init_def demo_managers_def manager_init_def)
  have p: "demo_uri = snd (parse_string (ce_alloc demo_env) ''http://a/'' uri_init)" using demo_parse by (simp add: demo_env_def)
  obtain t where t: "create_http_task demo_env demo_memory ''http://a/'' 1 1 demo_managers = (t, demo_managers)" "t_uri t = with_port demo_env demo_uri"
    "init_state t = 1" "t_route t = route_clear"
    using create_plain [OF demo_env_roomy p u(1,2) u(3)] by metis
  show "c_phase demo_client = Queued" "init_state (c_task demo_client) = 1" "t_route (c_task demo_client) = route_clear"
    "state (t_uri (c_task demo_client)) = URI_STATE_SUCCESS" "c_calls demo_client = []"
    using t u(1) by (simp_all add: client_init_def)
  show "runs (c_task demo_client) = (False, 0, 1, 1, 0, False, 0)" using create_runs by (simp add: client_init_def split_beta)
qed

lemma demo_routing:
  obtains c where "client_step cb demo_client c" "c_phase c = Routing" "init_state (c_task c) = 2" "t_route (c_task c) = route_clear"
    "\<not> redirect (c_task c)" "c_calls c = []"
proof -
  let ?c = "on_dispatch demo_env cb demo_client"
  have "c_phase ?c = Routing" "init_state (c_task ?c) = 2" "t_route (c_task ?c) = route_clear" "\<not> redirect (c_task ?c)" "c_calls ?c = []"
    using demo_client_parts by (simp_all add: on_dispatch_def dispatch_def route_clear_def route_def on_done_def task_done_def phase_of_def runs_def Let_def)
  then show thesis using that client_step.StepDispatch [OF demo_client_parts(1)] by blast
qed

lemma demo_finished:
  obtains c where "(client_step (Some id) ^^ 2) demo_client c" "c_phase c = Finished"
proof -
  obtain c where c: "client_step (Some id) demo_client c" "c_phase c = Routing" "t_route (c_task c) = route_clear" "\<not> redirect (c_task c)"
    using demo_routing by blast
  let ?d = "on_route demo_env (Some id) (WFT_STATE_DNS_ERROR, -2, route_clear) c"
  have "c_phase ?d = Finished"
    using c(3,4) by (simp add: on_route_def router_callback_def route_clear_def set_task_error_def phase_of_def Let_def)
  moreover have "(client_step (Some id) ^^ 2) demo_client ?d"
    using c(1) client_step.StepRoute [OF c(2)] by (auto simp: numeral_2_eq_2)
  ultimately show thesis using that by blast
qed

lemma demo_waiting:
  obtains c where "(client_step cb)\<^sup>*\<^sup>* demo_client c" "c_phase c = Waiting"
proof -
  obtain c where c: "client_step cb demo_client c" "c_phase c = Routing" "init_state (c_task c) = 2"
    using demo_routing by blast
  let ?d = "on_route demo_env cb (WFT_STATE_SUCCESS, 0, \<lparr>route_cookie = None, route_object = GroupObject\<rparr>) c"
  have d: "c_phase ?d = Queued" "route_object (t_route (c_task ?d)) = GroupObject" "init_state (c_task ?d) = 2"
    using c(3) by (simp_all add: on_route_def router_callback_def phase_of_def)
  have "c_phase (on_dispatch demo_env cb ?d) = Waiting" using d(2,3) by (simp add: on_dispatch_def dispatch_def phase_of_def)
  moreover have "(client_step cb)\<^sup>*\<^sup>* demo_client (on_dispatch demo_env cb ?d)"
    using c(1) client_step.StepRoute [OF c(2)] client_step.StepDispatch [OF d(1)] by (meson r_into_rtranclp rtranclp.rtrancl_into_rtrancl)
  ultimately show thesis using that by blast
qed

lemma plain_id: "plain_callback (Some id)"
  by (simp add: plain_callback_def)

theorem http_task_callback_once_witness:
  "\<exists>c. (client_step (Some id))\<^sup>*\<^sup>* demo_client c \<and> c_phase c = Finished \<and> length (c_calls c) = 1"
proof -
  obtain c where c: "(client_step (Some id) ^^ 2) demo_client c" "c_phase c = Finished" by (rule demo_finished)
  have "(client_step (Some id))\<^sup>*\<^sup>* demo_client c" using c(1) by (rule relpowp_imp_rtranclp)
  with http_task_callback_once [OF plain_id this] c(2) show ?thesis by auto
qed

theorem http_task_limits_witness:
  "\<exists>c. (client_step (Some id) ^^ 2) demo_client c \<and> c_phase c = Finished \<and> 2 \<le> 4 * (c_redirects c + c_retries c + 1) \<and>
    int (c_retries c) \<le> int (c_redirects c) + 1"
proof -
  obtain c where c: "(client_step (Some id) ^^ 2) demo_client c" "c_phase c = Finished" by (rule demo_finished)
  from http_task_limits [OF plain_id c(1)] c show ?thesis by (intro exI [of _ c]) simp
qed

lemma bad_url: "state (snd (parse_string (\<lambda>_. True) ''//'' uri_init)) \<noteq> URI_STATE_SUCCESS"
  by code_simp

theorem http_task_dropped_witness:
  "\<exists>c d. client_step (Some id) (client_init demo_env demo_memory ''//'' 1 1 demo_managers) c \<and> c_phase c = Lost \<and> c_calls c = [] \<and>
     (client_step (Some id))\<^sup>*\<^sup>* demo_client d \<and> c_phase d = Waiting \<and> c_phase (on_failed demo_env (Some id) 0 11 d) = Lost"
proof -
  obtain d where d: "(client_step (Some id))\<^sup>*\<^sup>* demo_client d" "c_phase d = Waiting" by (rule demo_waiting)
  let ?b = "client_init demo_env demo_memory ''//'' 1 1 demo_managers"
  have "client_step (Some id) ?b (on_dispatch demo_env (Some id) ?b)" by (rule client_step.StepDispatch) (simp add: client_init_def split_beta)
  moreover have "state (snd (parse_string (ce_alloc demo_env) ''//'' uri_init)) \<noteq> URI_STATE_SUCCESS" using bad_url by (simp add: demo_env_def)
  ultimately show ?thesis
    using http_task_dropped [OF plain_id, of demo_env "''//''"] http_task_dropped [OF plain_id, of demo_env "''http://a/''" demo_memory 1 1 demo_managers _ d] d
    by blast
qed

theorem http_task_request_witness:
  "\<exists>t. create_http_task demo_env demo_memory ''http://u@a.b:8080/p?q=1#f'' 5 2 demo_managers = (t, demo_managers) \<and>
     start_parts (req_parser t) = Some (''GET'', ''/p?q=1'', ''HTTP/1.1'') \<and> header_fields (req_parser t) = [(''Host'', ''a.b:8080'')]"
proof -
  have a: "atoi32 ''8080'' = 8080" by code_simp
  have p: "uri_parts_ok ''http'' (Some ''u'') ''a.b'' (Some ''8080'') (Some ''/p'') (Some ''q=1'') (Some ''f'')" by code_simp
  have q: "port_ok (Some ''8080'')" "upstream_map (umgr demo_managers) ''a.b'' = None"
    by (simp_all add: port_ok_def a demo_managers_def manager_init_def)
  have "URIParser.uri_text ''http'' (Some ''u'') ''a.b'' (Some ''8080'') (Some ''/p'') (Some ''q=1'') (Some ''f'') = ''http://u@a.b:8080/p?q=1#f''"
    by (simp add: URIParser.uri_text_def)
  with http_task_request [OF p demo_env_roomy q, of demo_memory 5 2 demo_env] show ?thesis by (auto simp: a)
qed

definition demo_post :: http_task where
  "demo_post = demo_memory\<lparr>t_req := demo_message\<lparr>parser := blank_parser\<lparr>method_of := Some ''POST''\<rparr>, output_body_size := 12\<rparr>\<rparr>"

lemma demo_post_parts: "header_fields (req_parser demo_post) = []" "lines_ok (req_parser demo_post)" "method_of (req_parser demo_post) = Some ''POST''"
  "keep_alive_timeo demo_post = 0" "output_body_size (t_req demo_post) = 12"
  by (simp_all add: demo_post_def demo_memory_def blank_parser_def http_parser_init_def header_fields_def lines_ok_def)

theorem message_out_headers_witness:
  "\<exists>t'. message_out demo_env demo_post = Some t' \<and>
     header_fields (req_parser t') = [(''Content-Length'', ''12''), (''Connection'', ''close'')]"
proof -
  have n: "find_header name demo_post = None" for name using find_header_get demo_post_parts(1,2) by simp
  have "dec_nat 12 = ''12''" by code_simp
  then have "sent_headers demo_post = [(''Content-Length'', ''12''), (''Connection'', ''close'')]"
    using demo_post_parts by (simp add: sent_headers_def needs_length_def sends_chunked_def length_headers_def connection_headers_def n)
  moreover have "ce_mem demo_env = (\<lambda>_. True)" by (simp add: demo_env_def)
  ultimately show ?thesis
    using message_out_headers [of demo_env demo_post "''POST''"] demo_post_parts by auto
qed

subsection \<open>Redirects and failures in turn\<close>

definition moved :: HttpMessage where
  "moved = demo_message\<lparr>parser := snd (http_parser_add_header (\<lambda>_. True) ''Location'' ''http://a/'' (blank_parser\<lparr>code_of := Some ''302''\<rparr>))\<rparr>"

text \<open>A task in the middle of a run, with both limits 1 and \<open>k\<close> redirects on its counter.\<close>

definition midway :: "int \<Rightarrow> client \<Rightarrow> bool" where
  "midway k c \<longleftrightarrow> (let t = c_task c in
     method_of (req_parser t) = Some ''GET'' \<and> redirect_count t = k \<and> redirect_max t = 1 \<and> retry_max t = 1 \<and> \<not> redirect t \<and>
     \<not> router_task t \<and> has_original_uri t \<and> \<not> is_sockaddr t \<and> upstream_map (umgr (c_mgrs c)) = Map.empty \<and>
     state (t_uri t) = URI_STATE_SUCCESS \<and> state (original_uri t) = URI_STATE_SUCCESS \<and> port (original_uri t) = None)"

lemma init_success_keeps:
  "method_of (req_parser (snd (init_success e t))) = method_of (req_parser t)" "t_uri (snd (init_success e t)) = t_uri t"
  "original_uri (snd (init_success e t)) = original_uri t" "has_original_uri (snd (init_success e t)) = has_original_uri t"
  "is_sockaddr (snd (init_success e t)) = is_sockaddr t" "t_route (snd (init_success e t)) = t_route t"
  "redirect (snd (init_success e t)) = redirect t" "router_task (snd (init_success e t)) = router_task t"
  "t_target (snd (init_success e t)) = t_target t" "t_state (snd (init_success e t)) = t_state t"
  "redirect_count (snd (init_success e t)) = redirect_count t" "redirect_max (snd (init_success e t)) = redirect_max t"
  "retry_times (snd (init_success e t)) = retry_times t" "retry_max (snd (init_success e t)) = retry_max t"
  "t_upstream (snd (init_success e t)) = t_upstream t"
  by (simp_all add: init_success_def Let_def upd_req_def http_parser_set_header_def http_parser_add_header_def http_parser_set_uri_def split: option.split prod.split)

lemma moved_parts: "code_of (parser moved) = Some ''302''" "fst (cursor_find_string ''Location'' (parser moved) 0) = Some ''http://a/''"
  by (simp_all add: moved_def http_parser_add_header_def blank_parser_def http_parser_init_def cursor_find_string_def http_header_cursor_find_def
    line_matches_def line_value_def)

lemma moved_parse:
  "state (snd (parse_string (\<lambda>_. True) ''http://a/'' u)) = URI_STATE_SUCCESS" "port (snd (parse_string (\<lambda>_. True) ''http://a/'' u)) = None"
proof -
  have "uri_parts_ok ''http'' None ''a'' None (Some ''/'') None None" by code_simp
  moreover have "URIParser.uri_text ''http'' None ''a'' None (Some ''/'') None None = ''http://a/''" by (simp add: URIParser.uri_text_def)
  ultimately have "parse (\<lambda>_. True) ''http://a/'' u = (0, u\<lparr>scheme := Some ''http'', userinfo := None, host := Some ''a'', port := None,
      path := Some ''/'', query := None, fragment := None, state := URI_STATE_SUCCESS\<rparr>)"
    using parse_well_formed [of "''http''" None "''a''" None "Some ''/''" None None "\<lambda>_. True" u] by simp
  then show "state (snd (parse_string (\<lambda>_. True) ''http://a/'' u)) = URI_STATE_SUCCESS" "port (snd (parse_string (\<lambda>_. True) ''http://a/'' u)) = None"
    by (simp_all add: parse_string_def)
qed

lemma moved_redirects:
  assumes "t_resp t = moved" and "method_of (req_parser t) = Some ''GET''" and "redirect_count t < redirect_max t"
  shows "need_redirect demo_env t =
    (True, t\<lparr>redirect_count := redirect_count t + 1, t_uri := snd (parse_string (\<lambda>_. True) ''http://a/'' (t_uri t))\<rparr>)"
proof -
  have "atoi32 ''302'' = 302" by code_simp
  then show ?thesis using assms moved_parts by (simp add: need_redirect_def redirect_url_def Let_def demo_env_def)
qed

text \<open>The task after a switch back to its series.\<close>

lemma requeued:
  assumes "redirect t" and "t_target t \<noteq> 0"
  shows "fst (switch_callback e cb t) = [PushSelf]"
    and "c_task c = snd (switch_callback e cb t) \<Longrightarrow> midway k c \<longleftrightarrow> midway k (c\<lparr>c_task := t\<lparr>redirect := False\<rparr>\<rparr>)"
    and "init_state (snd (switch_callback e cb t)) = 1" "t_route (snd (switch_callback e cb t)) = t_route t"
    and "retry_times (snd (switch_callback e cb t)) = retry_times t"
  using assms by (auto simp: switch_callback_def Let_def split_beta clear_resp_def midway_def init_success_keeps split: option.split)

lemma init_again:
  assumes "state (t_uri t) = URI_STATE_SUCCESS" "port (t_uri t) = None" "has_original_uri t" "upstream_map (umgr g) = Map.empty"
  shows "init_with_uri demo_env t g =
    ((snd (init_success demo_env (t\<lparr>original_uri := t_uri t, has_original_uri := True, t_route := route_clear, t_uri := with_port demo_env (t_uri t),
       t_upstream := upstream_clear\<rparr>)))\<lparr>init_state := 1\<rparr>, g)"
  using assms by (intro init_plain demo_env_roomy) (simp_all add: port_valid_def nonempty_def)

lemma exchange_get:
  assumes "method_of (req_parser t) = Some ''GET''"
  obtains r k where "exchange e resp t = Some (t\<lparr>t_req := r, keep_alive_timeo := k, t_resp := resp\<rparr>)" "method_of (parser r) = Some ''GET''"
proof -
  have n: "\<not> strcaseeq ''GET'' ''PUT''" by code_simp
  obtain al t2 where a: "add_connection e t = (al, t2)" by fastforce
  have t2: "t2 = t\<lparr>t_req := t_req t2\<rparr>" "method_of (req_parser t2) = Some ''GET''"
    using a assms by (auto simp: add_connection_def upd_req_def http_parser_add_header_def split: option.splits if_splits)
  have "\<exists>k. message_out e t = Some (t2\<lparr>keep_alive_timeo := k\<rparr>)" using a assms n by (auto simp: message_out_def Let_def)
  then obtain k where "message_out e t = Some (t2\<lparr>keep_alive_timeo := k\<rparr>)" by blast
  then have "exchange e resp t = Some (t2\<lparr>keep_alive_timeo := k, t_resp := resp\<rparr>)" using t2(2) by (simp add: exchange_def message_in_def)
  also have "t2\<lparr>keep_alive_timeo := k, t_resp := resp\<rparr> = t\<lparr>t_req := t_req t2, keep_alive_timeo := k, t_resp := resp\<rparr>" by (subst t2(1)) simp
  finally show thesis using that t2(2) by blast
qed

lemma notify_plain:
  assumes "t_upstream t = upstream_clear" "t_route t = route_clear" "t_state t = WFT_STATE_SUCCESS"
  shows "notify_result e t g = (t, g)"
  using assms by (simp add: notify_result_def route_notify_available_def cookie_available_def upstream_clear_def route_clear_def)

lemma redirect_step:
  assumes w: "c_phase c = Waiting" and b: "midway 0 c" and i: "init_state (c_task c) \<noteq> 0"
  shows "\<exists>c'. client_step cb c c' \<and> c_phase c' = Queued \<and> midway 1 c' \<and> init_state (c_task c') = 1 \<and> t_route (c_task c') = route_clear \<and>
    retry_times (c_task c') = 0 \<and> c_redirects c' = c_redirects c + 1 \<and> c_retries c' = c_retries c"
proof -
  note B = b [unfolded midway_def Let_def]
  obtain r k where x: "exchange demo_env moved (c_task c) = Some ((c_task c)\<lparr>t_req := r, keep_alive_timeo := k, t_resp := moved\<rparr>)"
    "method_of (parser r) = Some ''GET''" using exchange_get B by metis
  define t where "t = comm_handle WFT_STATE_SUCCESS 0 True ((c_task c)\<lparr>t_req := r, keep_alive_timeo := k, t_resp := moved, t_target := 1\<rparr>)"
  define u where "u = snd (parse_string (\<lambda>_. True) ''http://a/'' (t_uri t))"
  have u: "state u = URI_STATE_SUCCESS" "port u = None" using moved_parse by (simp_all add: u_def)
  have n: "need_redirect demo_env t = (True, t\<lparr>redirect_count := 1, t_uri := u\<rparr>)"
    using moved_redirects [of t] B x(2) by (simp add: t_def comm_handle_def u_def)
  define t0 where "t0 = t\<lparr>redirect_count := 1, redirect := True, is_sockaddr := False, init_state := 0, t_uri := u\<rparr>"
  define t1 where "t1 = (snd (init_success demo_env (t0\<lparr>original_uri := u, has_original_uri := True, t_route := route_clear,
    t_uri := with_port demo_env u, t_upstream := upstream_clear\<rparr>)))\<lparr>init_state := 1, retry_times := 0\<rparr>"
  have h: "has_original_uri t0" using B by (simp add: t0_def t_def comm_handle_def)
  have "init_with_uri demo_env t0 (c_mgrs c) = ((snd (init_success demo_env (t0\<lparr>original_uri := u, has_original_uri := True, t_route := route_clear,
    t_uri := with_port demo_env u, t_upstream := upstream_clear\<rparr>)))\<lparr>init_state := 1\<rparr>, c_mgrs c)"
    using init_again [of t0 "c_mgrs c"] h u B by (simp add: t0_def)
  moreover have "init_copy demo_env True u (t\<lparr>redirect_count := 1, t_uri := u, redirect := True\<rparr>) (c_mgrs c) = init_with_uri demo_env t0 (c_mgrs c)"
    by (simp add: init_copy_def uri_assign_copy_def t0_def)
  ultimately have "set_redirect demo_env (t\<lparr>redirect_count := 1, t_uri := u\<rparr>) (c_mgrs c) = (t1, c_mgrs c)" by (simp add: set_redirect_def t1_def)
  then have f: "finish_once demo_env t (c_mgrs c) = (True, t1, c_mgrs c)" using n by (simp add: finish_once_def) (simp add: t_def comm_handle_def)
  have no: "notify_result demo_env t1 (c_mgrs c) = (t1, c_mgrs c)"
    by (rule notify_plain) (simp_all add: t1_def init_success_keeps, simp add: t0_def t_def comm_handle_def)
  have t1: "redirect t1" "t_target t1 \<noteq> 0" "t_route t1 = route_clear" "retry_times t1 = 0" "t_state t1 = WFT_STATE_SUCCESS"
    by (simp_all add: t1_def init_success_keeps) (simp_all add: t0_def t_def comm_handle_def)
  have it: "init_state t \<noteq> 0" "\<not> router_task t" "t_state t = WFT_STATE_SUCCESS" using i B by (simp_all add: t_def comm_handle_def)
  have d: "task_done demo_env cb t (c_mgrs c) = ([PushSelf], snd (switch_callback demo_env cb t1), c_mgrs c)"
    using it f no t1(2,5) requeued(1) [OF t1(1,2), of demo_env cb] by (simp add: task_done_def split_beta)
  let ?c = "on_reply demo_env cb WFT_STATE_SUCCESS 0 True 1 ((c_task c)\<lparr>t_req := r, keep_alive_timeo := k, t_resp := moved\<rparr>) c"
  have oc: "?c = on_done demo_env cb [] t c" by (simp add: on_reply_def t_def)
  have c: "c_phase ?c = Queued" "c_task ?c = snd (switch_callback demo_env cb t1)" "c_mgrs ?c = c_mgrs c"
    "c_redirects ?c = c_redirects c + 1" "c_retries ?c = c_retries c"
    unfolding oc on_done_def using d it n f t1(5) by (simp_all add: phase_of_def redirects_def retries_def)
  have "midway 1 (?c\<lparr>c_task := t1\<lparr>redirect := False\<rparr>\<rparr>)"
    using B u x(2) c(3) by (simp add: midway_def t1_def init_success_keeps) (simp add: t0_def t_def comm_handle_def)
  then have "midway 1 ?c" using requeued(2) [OF t1(1,2) c(2)] by simp
  moreover have "client_step cb c ?c" by (rule client_step.StepReply [OF w _ _ x(1)]) simp_all
  ultimately show ?thesis using requeued(3-5) [OF t1(1,2), of demo_env cb] t1(3,4) c by (intro exI conjI) (assumption | simp only: c)+
qed

lemma failure_step:
  assumes w: "c_phase c = Waiting" and b: "midway 1 c" and i: "init_state (c_task c) \<noteq> 0" and z: "retry_times (c_task c) = 0"
  shows "\<exists>c'. client_step cb c c' \<and> c_phase c' = Queued \<and> midway 0 c' \<and> init_state (c_task c') = 1 \<and> t_route (c_task c') = route_clear \<and>
    c_redirects c' = c_redirects c \<and> c_retries c' = c_retries c + 1"
proof -
  note B = b [unfolded midway_def Let_def]
  define t where "t = comm_failed 1 104 (c_task c)"
  define t1 where "t1 = t\<lparr>t_resp := (t_resp t)\<lparr>parser := http_parser_close_message (resp_parser t)\<rparr>, redirect_count := 0\<rparr>"
  have f: "finish_once demo_env t (c_mgrs c) = (True, t1, c_mgrs c)" by (simp add: finish_once_def t1_def) (simp add: t_def comm_failed_def)
  define g where "g = (c_mgrs c)\<lparr>rmgr := route_notify_unavailable 0 (route_cookie (t_route t1)) (t_target t1) (rmgr (c_mgrs c)),
    umgr := cookie_unavailable 0 (cookie (t_upstream t1)) (umgr (c_mgrs c))\<rparr>"
  have g: "upstream_map (umgr g) = Map.empty" using B by (auto simp: g_def cookie_unavailable_def split: option.split prod.split)
  define u where "u = original_uri t"
  have u: "state u = URI_STATE_SUCCESS" "port u = None" using B by (simp_all add: u_def t_def comm_failed_def)
  define t0 where "t0 = t1\<lparr>redirect := True, is_sockaddr := False, init_state := 0, t_uri := u\<rparr>"
  define t2 where "t2 = (snd (init_success demo_env (t0\<lparr>original_uri := u, has_original_uri := True, t_route := route_clear,
    t_uri := with_port demo_env u, t_upstream := upstream_clear\<rparr>)))\<lparr>init_state := 1, retry_times := 1\<rparr>"
  have h: "has_original_uri t0" "original_uri t1 = u" using B by (simp_all add: t0_def t1_def t_def comm_failed_def u_def)
  have "init_with_uri demo_env t0 g = ((snd (init_success demo_env (t0\<lparr>original_uri := u, has_original_uri := True, t_route := route_clear,
    t_uri := with_port demo_env u, t_upstream := upstream_clear\<rparr>)))\<lparr>init_state := 1\<rparr>, g)"
    using init_again [of t0 g] h(1) u g by (simp add: t0_def)
  moreover have "init_copy demo_env False u (t1\<lparr>redirect := True\<rparr>) g = init_with_uri demo_env t0 g"
    using copy_ok [OF demo_env_roomy u(1)] by (simp add: init_copy_def t0_def)
  moreover have "retry_times t0 = 0" using z by (simp add: t0_def t1_def t_def comm_failed_def)
  ultimately have s: "set_retry_uri demo_env t1 g = (t2, g)"
    using h(2) by (simp add: set_retry_uri_def t2_def init_success_keeps)
  have st: "t_state t1 = WFT_STATE_SYS_ERROR" "retry_times t1 < retry_max t1" "\<not> is_sockaddr t1" "init_state t \<noteq> 0" "\<not> router_task t"
    "t_state t \<noteq> WFT_STATE_SUCCESS"
    using B z i by (simp_all add: t1_def t_def comm_failed_def)
  have no: "notify_result demo_env t1 (c_mgrs c) = (t2\<lparr>is_retry := True\<rparr>, g)"
    using st s by (simp add: notify_result_def g_def [symmetric]) (simp add: g_def demo_env_def)
  let ?t = "t2\<lparr>is_retry := True\<rparr>"
  have t2: "redirect ?t" "t_target ?t \<noteq> 0" "t_route ?t = route_clear"
    by (simp_all add: t2_def init_success_keeps) (simp_all add: t0_def t1_def t_def comm_failed_def)
  have d: "task_done demo_env cb t (c_mgrs c) = ([PushSelf], snd (switch_callback demo_env cb ?t), g)"
    using st f no t2(2) requeued(1) [OF t2(1,2), of demo_env cb] by (simp add: task_done_def split_beta)
  let ?c = "on_failed demo_env cb 1 104 c"
  have c: "c_phase ?c = Queued" "c_task ?c = snd (switch_callback demo_env cb ?t)" "c_mgrs ?c = g"
    "c_redirects ?c = c_redirects c" "c_retries ?c = c_retries c + 1"
    unfolding on_failed_def t_def [symmetric] on_done_def using d st f by (simp_all add: phase_of_def redirects_def retries_def)
  have "midway 0 (?c\<lparr>c_task := ?t\<lparr>redirect := False\<rparr>\<rparr>)"
    using B u g c(3) by (simp add: midway_def t2_def init_success_keeps) (simp add: t0_def t1_def t_def comm_failed_def)
  then have "midway 0 ?c" using requeued(2) [OF t2(1,2) c(2)] by simp
  moreover have "client_step cb c ?c" by (rule client_step.StepFailed [OF w])
  ultimately show ?thesis using requeued(3,4) [OF t2(1,2), of demo_env cb] t2(3) c by (intro exI conjI) (assumption | simp only: c)+
qed

lemma send_steps:
  assumes q: "c_phase c = Queued" and b: "midway k c" and i: "init_state (c_task c) = 1" and r: "t_route (c_task c) = route_clear"
  shows "\<exists>c'. (client_step cb)\<^sup>*\<^sup>* c c' \<and> c_phase c' = Waiting \<and> midway k c' \<and> init_state (c_task c') \<noteq> 0 \<and>
    retry_times (c_task c') = retry_times (c_task c) \<and> c_redirects c' = c_redirects c \<and> c_retries c' = c_retries c"
proof -
  note B = b [unfolded midway_def Let_def]
  let ?c1 = "on_dispatch demo_env cb c"
  have c1: "c_phase ?c1 = Routing" "midway k ?c1" "init_state (c_task ?c1) = 2" "retry_times (c_task ?c1) = retry_times (c_task c)"
    "c_redirects ?c1 = c_redirects c" "c_retries ?c1 = c_retries c"
    using B i r by (simp_all add: on_dispatch_def dispatch_def route_clear_def route_def on_done_def task_done_def phase_of_def midway_def Let_def)
  let ?c2 = "on_route demo_env cb (WFT_STATE_SUCCESS, 0, \<lparr>route_cookie = None, route_object = GroupObject\<rparr>) ?c1"
  have c2: "c_phase ?c2 = Queued" "midway k ?c2" "init_state (c_task ?c2) = 2" "retry_times (c_task ?c2) = retry_times (c_task c)"
    "route_object (t_route (c_task ?c2)) = GroupObject" "c_redirects ?c2 = c_redirects c" "c_retries ?c2 = c_retries c"
    unfolding on_route_def router_callback_def using c1 by (simp_all add: phase_of_def midway_def Let_def)
  let ?c3 = "on_dispatch demo_env cb ?c2"
  have c3: "c_phase ?c3 = Waiting" "midway k ?c3" "init_state (c_task ?c3) \<noteq> 0" "retry_times (c_task ?c3) = retry_times (c_task c)"
    "c_redirects ?c3 = c_redirects c" "c_retries ?c3 = c_retries c"
    unfolding on_dispatch_def [of _ _ ?c2] dispatch_def using c2 by (simp_all add: phase_of_def midway_def Let_def)
  have "(client_step cb)\<^sup>*\<^sup>* c ?c3"
    using client_step.StepDispatch [OF q] client_step.StepRoute [OF c1(1)] client_step.StepDispatch [OF c2(1)]
    by (meson r_into_rtranclp rtranclp.rtrancl_into_rtrancl)
  then show ?thesis using c3 by (intro exI [of _ ?c3] conjI)
qed

lemma round_trip:
  assumes "c_phase c = Waiting" and "midway 0 c" and "init_state (c_task c) \<noteq> 0"
  shows "\<exists>c'. (client_step cb)\<^sup>*\<^sup>* c c' \<and> c_phase c' = Waiting \<and> midway 0 c' \<and> init_state (c_task c') \<noteq> 0 \<and>
    c_redirects c' = c_redirects c + 1 \<and> c_retries c' = c_retries c + 1"
proof -
  obtain c1 where c1: "client_step cb c c1" "c_phase c1 = Queued" "midway 1 c1" "init_state (c_task c1) = 1" "t_route (c_task c1) = route_clear"
    "retry_times (c_task c1) = 0" "c_redirects c1 = c_redirects c + 1" "c_retries c1 = c_retries c" using redirect_step [OF assms] by metis
  obtain c2 where c2: "(client_step cb)\<^sup>*\<^sup>* c1 c2" "c_phase c2 = Waiting" "midway 1 c2" "init_state (c_task c2) \<noteq> 0" "retry_times (c_task c2) = 0"
    "c_redirects c2 = c_redirects c + 1" "c_retries c2 = c_retries c" using send_steps [OF c1(2-5)] c1(6-8) by metis
  obtain c3 where c3: "client_step cb c2 c3" "c_phase c3 = Queued" "midway 0 c3" "init_state (c_task c3) = 1" "t_route (c_task c3) = route_clear"
    "c_redirects c3 = c_redirects c2" "c_retries c3 = c_retries c2 + 1" using failure_step [OF c2(2-5)] by metis
  obtain c4 where c4: "(client_step cb)\<^sup>*\<^sup>* c3 c4" "c_phase c4 = Waiting" "midway 0 c4" "init_state (c_task c4) \<noteq> 0"
    "c_redirects c4 = c_redirects c3" "c_retries c4 = c_retries c3" using send_steps [OF c3(2-5)] by metis
  have "(client_step cb)\<^sup>*\<^sup>* c c4" using c1(1) c2(1) c3(1) c4(1) by (meson converse_rtranclp_into_rtranclp rtranclp_trans)
  then show ?thesis using c4 c3(6,7) c2(6,7) by (intro exI [of _ c4]) simp
qed

lemma demo_midway: "midway 0 demo_client"
proof -
  have u: "state demo_uri = URI_STATE_SUCCESS" "port_valid demo_uri" "upstream_map (umgr demo_managers) h = None" "port demo_uri = None" for h
    by (simp_all add: demo_uri_def port_valid_def nonempty_def uri_init_def demo_managers_def manager_init_def)
  have p: "demo_uri = snd (parse_string (ce_alloc demo_env) ''http://a/'' uri_init)" using demo_parse by (simp add: demo_env_def)
  obtain t where t: "create_http_task demo_env demo_memory ''http://a/'' 1 1 demo_managers = (t, demo_managers)" "t_uri t = with_port demo_env demo_uri"
    "\<not> is_sockaddr t" "original_uri t = demo_uri" "has_original_uri t"
    "req_parser t = snd (http_parser_set_header (\<lambda>_. True) ''Host'' (header_host (with_port demo_env demo_uri))
           ((blank_request demo_env)\<lparr>uri_of := Some (request_uri (with_port demo_env demo_uri))\<rparr>))"
    using create_plain [OF demo_env_roomy p u(1,2) u(3)] by metis
  have "method_of (req_parser t) = Some ''GET''" unfolding t(6)
    by (simp add: http_parser_set_header_def http_parser_add_header_def blank_request_def http_parser_init_def)
  then show ?thesis using t(1-5) u demo_client_parts(5) by (simp add: midway_def client_init_def runs_def demo_managers_def manager_init_def)
qed

text \<open>C40: The two limits together do not bound a run: with both limits 1, a server that answers every second request with a
  redirect and fails on the others keeps the task busy for any number of rounds, each of which starts the other
  counter again.\<close>

theorem http_task_no_common_limit:
  "\<exists>c. (client_step cb)\<^sup>*\<^sup>* (client_init demo_env demo_memory ''http://a/'' 1 1 demo_managers) c \<and> c_phase c = Waiting \<and>
     c_redirects c = n \<and> c_retries c = n"
proof -
  have "\<exists>c. (client_step cb)\<^sup>*\<^sup>* demo_client c \<and> c_phase c = Waiting \<and> midway 0 c \<and> init_state (c_task c) \<noteq> 0 \<and> c_redirects c = n \<and> c_retries c = n"
  proof (induction n)
    case 0
    have "c_redirects demo_client = 0" "c_retries demo_client = 0" by (simp_all add: client_init_def split_beta)
    then show ?case using send_steps [OF demo_client_parts(1) demo_midway demo_client_parts(2,3), of cb] by metis
  next
    case (Suc n)
    then obtain c where c: "(client_step cb)\<^sup>*\<^sup>* demo_client c" "c_phase c = Waiting" "midway 0 c" "init_state (c_task c) \<noteq> 0"
      "c_redirects c = n" "c_retries c = n" by metis
    obtain d where d: "(client_step cb)\<^sup>*\<^sup>* c d" "c_phase d = Waiting" "midway 0 d" "init_state (c_task d) \<noteq> 0"
      "c_redirects d = c_redirects c + 1" "c_retries d = c_retries c + 1" using round_trip [OF c(2-4), of cb] by metis
    then show ?case using rtranclp_trans [OF c(1) d(1)] c(5,6) by (intro exI [of _ d]) simp
  qed
  then show ?thesis by (elim exE conjE) (intro exI conjI)
qed

end
