(* ===== verification/RouterTask.thy ===== *)
theory RouterTask imports HttpTaskRun DNSCache begin

text \<open>
  The router task of \<^verbatim>\<open>factory/WFTaskFactory.cc\<close>, which a client task sends ahead to find its target: it looks up the DNS
  cache, resolves address literals and socket paths itself, leaves names to a DNS task
  (\<^verbatim>\<open>algorithm/DNSRoutine.cc\<close>), stores the answer in the cache and asks the route manager for the object to send
  requests to. An address list is the list of its addresses, empty for a null pointer. What \<^verbatim>\<open>inet_pton\<close> and
  \<^verbatim>\<open>getaddrinfo\<close> answer are arguments.
\<close>

subsection \<open>State\<close>

record router =
  r_args :: router_args
  r_ttl_default :: nat
  r_ttl_min :: nat
  r_endpoint :: "int \<times> int \<times> nat"
  r_state :: task_state
  r_error :: int
  r_route :: RouteResult
  insert_dns :: bool

text \<open>The other threads that use the cache, the clock, the resolver and the memory of one call; \<open>de_handle\<close> is the address of a
  new cache entry.\<close>

record dns_env =
  de_other :: "string list DNSCache \<Rightarrow> string list DNSCache"
  de_now :: int
  de_pton6 :: "string \<Rightarrow> bool"
  de_pton4 :: "string \<Rightarrow> bool"
  de_getaddrinfo :: "string \<Rightarrow> string \<Rightarrow> int \<times> string list"
  de_handle :: addr
  de_mem :: bool
  de_errno :: int

datatype router_action = PushDNS string nat | RouterCallback | RouterDelete

abbreviation r_key :: "router \<Rightarrow> HostPort" where
  "r_key r \<equiv> (ra_host (r_args r), ra_port (r_args r))"

abbreviation EAI_SYSTEM :: int where "EAI_SYSTEM \<equiv> -11"
abbreviation EINVAL_NO :: int where "EINVAL_NO \<equiv> 22"

subsection \<open>Resolving\<close>

definition sockaddr_un :: "string \<Rightarrow> string" where
  "sockaddr_un p = [CHR 0x01, CHR 0x00] @ p @ replicate (108 - length p) NUL"

text \<open>\<open>None\<close>: a path that does not fit its buffer, or no memory for it, is written out of bounds.\<close>

definition dns_run :: "dns_env \<Rightarrow> string \<Rightarrow> nat \<Rightarrow> (int \<times> string list) option" where
  "dns_run de h p =
     (if h \<noteq> [] \<and> hd h = CHR ''/'' then
        (if de_mem de \<and> length h < 108 then Some (0, [sockaddr_un h]) else None)
      else Some (de_getaddrinfo de h (take 5 (dec_nat p))))"

definition set_router :: "task_state \<Rightarrow> int \<Rightarrow> router \<Rightarrow> router" where
  "set_router st err r = r\<lparr>r_state := st, r_error := err\<rparr>"

definition take_route :: "route_env \<Rightarrow> int \<Rightarrow> string list \<Rightarrow> router \<Rightarrow> RouteManager \<Rightarrow> router \<times> RouteManager" where
  "take_route re eno as r rm =
     (let (ret, rr, rm) = route_get (re_md5 re) (re_init re) (re_now re) (re_mem re) (ra_type (r_args r)) as (ra_info (r_args r)) (r_endpoint r) rm;
          r = r\<lparr>r_route := rr\<rparr> in
      if ret < 0 then (set_router WFT_STATE_SYS_ERROR eno r, rm)
      else if route_object rr = NullObject then (set_router WFT_STATE_SYS_ERROR EAGAIN_NO r, rm)
      else (r\<lparr>r_state := WFT_STATE_SUCCESS\<rparr>, rm))"

definition dns_callback_internal :: "dns_env \<Rightarrow> route_env \<Rightarrow> int \<times> string list \<Rightarrow> nat \<Rightarrow> nat \<Rightarrow> router \<Rightarrow> string list DNSCache \<Rightarrow> RouteManager \<Rightarrow>
    (router \<times> string list DNSCache \<times> RouteManager) option" where
  "dns_callback_internal de re out ttl_default ttl_min r dc rm =
     (if fst out \<noteq> 0 then
        Some (if fst out = EAI_SYSTEM then set_router WFT_STATE_SYS_ERROR (de_errno de) r else set_router WFT_STATE_DNS_ERROR (fst out) r, dc, rm)
      else if snd out \<noteq> [] then do {
        (handle, dc) \<leftarrow> dns_put (de_handle de) (de_now de) (r_key r) (snd out) ttl_default ttl_min dc;
        let (r, rm) = take_route re (de_errno de) (snd out) r rm;
        dc \<leftarrow> dns_release handle dc;
        Some (r, dc, rm) }
      else Some (set_router WFT_STATE_SYS_ERROR EINVAL_NO r, dc, rm))"

subsection \<open>The task\<close>

definition router_lookup :: "dns_env \<Rightarrow> router \<Rightarrow> string list DNSCache \<Rightarrow> (addr \<times> string list DNSCache) option" where
  "router_lookup de r dc =
     (let level = ra_cache_level (r_args r) in
      if level = 1 then get_confident (de_other de) (de_now de) (r_key r) dc
      else if level = 2 then get_ttl (de_other de) (de_now de) (r_key r) dc
      else if level = 3 then dns_get (r_key r) dc
      else Some (NULL_PTR, dc))"

definition router_cached :: "dns_env \<Rightarrow> route_env \<Rightarrow> router \<Rightarrow> string list DNSCache \<Rightarrow> RouteManager \<Rightarrow>
    (router \<times> string list DNSCache \<times> RouteManager) option" where
  "router_cached de re r dc rm = do {
     (handle, dc) \<leftarrow> router_lookup de r dc;
     if handle = NULL_PTR then Some (r, dc, rm)
     else do {
       x \<leftarrow> handles dc handle;
       let as = addrinfo (h_value x);
       let (r, rm) = (if as = [] then (r, rm)
          else (let first = (if ra_first_addr_only (r_args r) \<and> length as > 1 then [hd as] else as);
                    (r, rm) = take_route re (de_errno de) first r rm
                in (r\<lparr>insert_dns := False\<rparr>, rm)));
       dc \<leftarrow> dns_release handle dc;
       Some (r, dc, rm) } }"

definition is_literal :: "dns_env \<Rightarrow> string \<Rightarrow> bool" where
  "is_literal de h =
     (if CHR '':'' \<in> set h then de_pton6 de h
      else if isdigit (last h) \<and> isdigit (hd h) then de_pton4 de h
      else hd h = CHR ''/'')"

definition router_literal :: "dns_env \<Rightarrow> route_env \<Rightarrow> router \<Rightarrow> string list DNSCache \<Rightarrow> RouteManager \<Rightarrow>
    (router \<times> string list DNSCache \<times> RouteManager) option" where
  "router_literal de re r dc rm =
     (let h = ra_host (r_args r) in
      if insert_dns r \<and> h \<noteq> [] \<and> is_literal de h then do {
        out \<leftarrow> dns_run de h (ra_port (r_args r));
        (r, dc, rm) \<leftarrow> dns_callback_internal de re out UINT_MAX UINT_MAX r dc rm;
        Some (r\<lparr>insert_dns := False\<rparr>, dc, rm) }
      else Some (r, dc, rm))"

definition router_dispatch :: "dns_env \<Rightarrow> route_env \<Rightarrow> router \<Rightarrow> string list DNSCache \<Rightarrow> RouteManager \<Rightarrow>
    (router_action list \<times> router \<times> string list DNSCache \<times> RouteManager) option" where
  "router_dispatch de re r dc rm = do {
     let r = r\<lparr>insert_dns := True\<rparr>;
     (r, dc, rm) \<leftarrow> (if ra_cache_level (r_args r) \<noteq> 0 then router_cached de re r dc rm else Some (r, dc, rm));
     (r, dc, rm) \<leftarrow> router_literal de re r dc rm;
     Some (if insert_dns r then [PushDNS (ra_host (r_args r)) (ra_port (r_args r))] else [], r, dc, rm) }"

definition router_done :: "router \<Rightarrow> router_action list" where
  "router_done r = (if \<not> insert_dns r then [RouterCallback, RouterDelete] else [])"

text \<open>The end of the DNS task: its state, its error, and what \<^verbatim>\<open>DNSRoutine::run\<close> gave.\<close>

definition dns_callback :: "dns_env \<Rightarrow> route_env \<Rightarrow> task_state \<times> int \<times> (int \<times> string list) \<Rightarrow> router \<Rightarrow> string list DNSCache \<Rightarrow> RouteManager \<Rightarrow>
    (router_action list \<times> router \<times> string list DNSCache \<times> RouteManager) option" where
  "dns_callback de re got r dc rm = do {
     (r, dc, rm) \<leftarrow> (if fst got = WFT_STATE_SUCCESS
        then dns_callback_internal de re (snd (snd got)) (r_ttl_default r) (r_ttl_min r) r dc rm
        else Some (set_router (fst got) (fst (snd got)) r, dc, rm));
     Some ([RouterCallback, RouterDelete], r, dc, rm) }"

subsection \<open>Lookups and stores\<close>

text \<open>The addresses a router takes from a cache entry.\<close>

definition usable :: "router \<Rightarrow> string list \<Rightarrow> string list" where
  "usable r as = (if ra_first_addr_only (r_args r) \<and> length as > 1 then [hd as] else as)"

definition lookup_type :: "router \<Rightarrow> get_type" where
  "lookup_type r = (if ra_cache_level (r_args r) = 1 then GET_TYPE_CONFIDENT else GET_TYPE_TTL)"

lemma release_keeps:
  assumes "cache_good c held" and "held e > 0"
  obtains c' where "dns_release e c = Some c'" "cache_good c' (held(e := held e - 1))" "lru.at_key c' = lru.at_key c"
proof -
  obtain c' where c': "lru_release e c = Some c'" "cache_good c' (held(e := held e - 1))" "cache_map c' = cache_map c"
    "\<forall>k a. cache_map c k = Some a \<longrightarrow> handle_value c' a = handle_value c a" using lru.rel_ok [OF assms] by blast
  have "lru.at_key c' = lru.at_key c" by (rule lru.at_key_cong) (use c' in auto)
  then show thesis using that c' by (simp add: dns_release_def)
qed

lemma lookup_level: "ra_cache_level (r_args r) = 1 \<or> ra_cache_level (r_args r) = 2 \<Longrightarrow>
    router_lookup de r dc = get_inner (de_other de) (de_now de) (r_key r) (lookup_type r) dc"
  by (auto simp: router_lookup_def get_confident_def get_ttl_def lookup_type_def)

lemma dispatch_hit:
  assumes g: "cache_good dc held" and v: "lru.at_key dc (r_key r) = Some v" and a: "addrinfo v \<noteq> []"
    and l: "ra_cache_level (r_args r) = 1 \<or> ra_cache_level (r_args r) = 2" and d: "de_now de \<le> deadline (lookup_type r) v"
  shows "\<exists>dc'. router_dispatch de re r dc rm = (let (q, rm') = take_route re (de_errno de) (usable r (addrinfo v)) (r\<lparr>insert_dns := True\<rparr>) rm in
      Some ([], q\<lparr>insert_dns := False\<rparr>, dc', rm')) \<and> cache_good dc' held \<and> lru.at_key dc' = lru.at_key dc"
proof -
  let ?r = "r\<lparr>insert_dns := True\<rparr>"
  obtain e c1 where c1: "get_inner (de_other de) (de_now de) (r_key r) (lookup_type r) dc = Some (e, c1)" "e \<noteq> NULL_PTR"
    "cache_good c1 (held(e := held e + 1))" "handle_value c1 e = Some v" "lru.at_key c1 = lru.at_key dc"
    using get_inner_fresh [OF g v d] by metis
  obtain c2 where c2: "dns_release e c1 = Some c2" "cache_good c2 held" "lru.at_key c2 = lru.at_key dc"
    by (rule release_keeps [OF c1(3), of e]) (use c1(5) in simp_all)
  obtain x where x: "handles c1 e = Some x" "h_value x = v" using c1(4) by (auto simp: handle_value_def)
  have k: "router_lookup de ?r dc = Some (e, c1)" using lookup_level [of ?r de dc] l c1(1) by (simp add: lookup_type_def)
  obtain q rm' where q: "take_route re (de_errno de) (usable r (addrinfo v)) ?r rm = (q, rm')" by fastforce
  have "router_cached de re ?r dc rm = Some (q\<lparr>insert_dns := False\<rparr>, c2, rm')"
    using k c1(2) x a q [unfolded usable_def] c2(1) by (auto simp: router_cached_def Let_def split: if_splits)
  then have "router_dispatch de re r dc rm = Some ([], q\<lparr>insert_dns := False\<rparr>, c2, rm')"
    using l by (auto simp: router_dispatch_def router_literal_def Let_def)
  then show ?thesis using q c2(2,3) by auto
qed

subsection \<open>Properties\<close>

text \<open>C33: A name is resolved once per time to live: when an answer of the resolver arrives and the cache has room, the router takes a
  route to its addresses and leaves no pin in the cache, and until the time to live is over (the shorter one for a retry) a
  router task for the same host and port takes its route to these addresses straight from the cache, starts no DNS task and
  leaves the cache as it was.\<close>

theorem router_answer_reused:
  assumes inv: "lru_inv dc held nu iu" and f: "fresh_addr dc (de_handle de)" and room: "max_size dc = 0 \<or> cur_size dc < max_size dc"
    and t: "0 \<le> de_now de" "de_now de < 2 ^ 62" "ttl < 2 ^ 32" "ttl_min < 2 ^ 32" and a: "as \<noteq> []"
  shows "\<exists>dc' r' rm'. dns_callback_internal de re (0, as) ttl ttl_min r dc rm = Some (r', dc', rm') \<and>
    take_route re (de_errno de) as r rm = (r', rm') \<and> cache_good dc' held \<and>
    (\<forall>de2 re2 r2 rm2. r_key r2 = r_key r \<and>
       (ra_cache_level (r_args r2) = 2 \<and> de_now de2 \<le> de_now de + int ttl \<or>
        ra_cache_level (r_args r2) = 1 \<and> de_now de2 \<le> de_now de + int (min ttl ttl_min)) \<longrightarrow>
       (\<exists>dc''. router_dispatch de2 re2 r2 dc' rm2 =
          (let (q, rm'') = take_route re2 (de_errno de2) (usable r2 as) (r2\<lparr>insert_dns := True\<rparr>) rm2 in Some ([], q\<lparr>insert_dns := False\<rparr>, dc'', rm'')) \<and>
          cache_good dc'' held \<and> lru.at_key dc'' = lru.at_key dc'))"
proof -
  let ?e = "de_handle de"
  define m where "m = (if ttl_min > ttl then ttl else ttl_min)"
  define v where "v = \<lparr>addrinfo = as, confident_time = (if m = UINT_MAX then INT64_MAX else de_now de + int m),
     expire_time = (if ttl = UINT_MAX then INT64_MAX else de_now de + int ttl)\<rparr>"
  have put: "dns_put ?e (de_now de) (r_key r) as ttl ttl_min dc = lru_put ?e (r_key r) v dc" unfolding dns_put_def Let_def v_def m_def by (rule refl)
  obtain c1 where c1: "lru_put ?e (r_key r) v dc = Some (?e, c1)" "cache_good c1 (held(?e := 1))" "lru.at_key c1 = (lru.at_key dc)(r_key r := Some v)"
    using put_room_at_key [OF inv f room] by blast
  have "core_inv dc held nu iu" using inv by (simp add: lru_inv_def)
  from fresh_unlisted [OF this f] have "held ?e = 0" by blast
  then have h: "(held(?e := 1))(?e := (held(?e := 1)) ?e - 1) = held" by auto
  obtain c2 where c2: "dns_release ?e c1 = Some c2" "cache_good c2 held" "lru.at_key c2 = lru.at_key c1"
    by (rule release_keeps [OF c1(2), of ?e]) (use h in simp_all)
  obtain r' rm' where q: "take_route re (de_errno de) as r rm = (r', rm')" by fastforce
  have i: "dns_callback_internal de re (0, as) ttl ttl_min r dc rm = Some (r', c2, rm')"
    using a put c1(1) c2(1) q by (simp add: dns_callback_internal_def)
  have dl: "de_now de + int ttl \<le> expire_time v" "de_now de + int (min ttl ttl_min) \<le> confident_time v" using t by (auto simp: v_def m_def)
  have hit: "\<exists>dc''. router_dispatch de2 re2 r2 c2 rm2 =
      (let (q, rm'') = take_route re2 (de_errno de2) (usable r2 as) (r2\<lparr>insert_dns := True\<rparr>) rm2 in Some ([], q\<lparr>insert_dns := False\<rparr>, dc'', rm'')) \<and>
      cache_good dc'' held \<and> lru.at_key dc'' = lru.at_key c2"
    if k: "r_key r2 = r_key r" and l: "ra_cache_level (r_args r2) = 2 \<and> de_now de2 \<le> de_now de + int ttl \<or>
        ra_cache_level (r_args r2) = 1 \<and> de_now de2 \<le> de_now de + int (min ttl ttl_min)" for de2 re2 r2 rm2
  proof -
    have v2: "lru.at_key c2 (r_key r2) = Some v" using k c1(3) c2(3) by simp
    have dd: "de_now de2 \<le> deadline (lookup_type r2) v" using l dl by (auto simp: lookup_type_def)
    show ?thesis using dispatch_hit [OF c2(2) v2 _ _ dd, of re2 rm2] l a by (auto simp: v_def)
  qed
  show ?thesis by (rule exI [of _ c2], rule exI [of _ r'], rule exI [of _ rm'], intro conjI allI impI; (elim conjE)?) (rule i q c2(2) hit; assumption?)+
qed

definition demo_router :: router where
  "demo_router = \<lparr>r_args = \<lparr>ra_type = TT_TCP, ra_host = ''h'', ra_port = 80, ra_info = [], ra_cache_level = 2, ra_params = None,
       ra_first_addr_only = False\<rparr>, r_ttl_default = 30, r_ttl_min = 10, r_endpoint = (0, 0, 1), r_state = WFT_STATE_UNDEFINED, r_error = 0,
     r_route = route_clear, insert_dns = False\<rparr>"

definition demo_dns :: "int \<Rightarrow> dns_env" where
  "demo_dns now = \<lparr>de_other = id, de_now = now, de_pton6 = (\<lambda>_. False), de_pton4 = (\<lambda>_. False), de_getaddrinfo = (\<lambda>_ _. (0, [''x''])),
     de_handle = 3, de_mem = True, de_errno = 0\<rparr>"

definition demo_route_env :: route_env where
  "demo_route_env = \<lparr>re_md5 = some_md5, re_init = calm, re_now = 0, re_mem = True\<rparr>"

theorem router_answer_reused_witness:
  "\<exists>dc' r' rm'. dns_callback_internal (demo_dns 100) demo_route_env (0, [''x'']) 30 10 demo_router (lru_init \<lparr>next_of = id, prev_of = id\<rparr>)
       \<lparr>cache = Map.empty\<rparr> = Some (r', dc', rm') \<and>
     (\<exists>dc'' q rm''. router_dispatch (demo_dns 130) demo_route_env demo_router dc' rm' = Some ([], q, dc'', rm'') \<and> cache_good dc'' (\<lambda>_. 0))"
proof -
  let ?c = "lru_init \<lparr>next_of = id, prev_of = id\<rparr> :: string list DNSCache"
  have f: "fresh_addr ?c (de_handle (demo_dns 100))" "max_size ?c = 0 \<or> cur_size ?c < max_size ?c"
    by (simp_all add: fresh_addr_def lru_init_def demo_dns_def)
  have n: "de_now (demo_dns 100) = 100" "de_now (demo_dns 130) = 130" "ra_cache_level (r_args demo_router) = 2"
    by (simp_all add: demo_dns_def demo_router_def)
  obtain dc' r' rm' where i: "dns_callback_internal (demo_dns 100) demo_route_env (0, [''x'']) 30 10 demo_router ?c \<lparr>cache = Map.empty\<rparr> = Some (r', dc', rm')"
    and d: "\<forall>de2 re2 r2 rm2. r_key r2 = r_key demo_router \<and>
       (ra_cache_level (r_args r2) = 2 \<and> de_now de2 \<le> de_now (demo_dns 100) + int 30 \<or>
        ra_cache_level (r_args r2) = 1 \<and> de_now de2 \<le> de_now (demo_dns 100) + int (min 30 10)) \<longrightarrow>
       (\<exists>dc''. router_dispatch de2 re2 r2 dc' rm2 =
          (let (q, rm'') = take_route re2 (de_errno de2) (usable r2 [''x'']) (r2\<lparr>insert_dns := True\<rparr>) rm2 in Some ([], q\<lparr>insert_dns := False\<rparr>, dc'', rm'')) \<and>
          cache_good dc'' (\<lambda>_. 0) \<and> lru.at_key dc'' = lru.at_key dc')"
    using router_answer_reused [OF lru_init_inv f, of 30 10 "[''x'']" demo_route_env demo_router "\<lparr>cache = Map.empty\<rparr>"] n(1) by auto
  obtain dc'' where "router_dispatch (demo_dns 130) demo_route_env demo_router dc' rm' =
      (let (q, rm'') = take_route demo_route_env (de_errno (demo_dns 130)) (usable demo_router [''x'']) (demo_router\<lparr>insert_dns := True\<rparr>) rm'
       in Some ([], q\<lparr>insert_dns := False\<rparr>, dc'', rm'')) \<and> cache_good dc'' (\<lambda>_. 0)"
    using d [rule_format, of demo_router "demo_dns 130" demo_route_env rm'] n by auto
  then show ?thesis using i by (auto simp: split_beta Let_def)
qed

end
