(* ===== verification/Spec2Isabelle.thy ===== *)
theory Spec2Isabelle
  imports URIParser DNSCache Workflow CommSched HttpUtil UpstreamManager RouteManager Executor PollerRun RouterTask
begin

text \<open>
  A verification of the core of the \<^emph>\<open>workflow-step-by-step\<close> library (\<^verbatim>\<open>src/workflow-step-by-step/src\<close>), a C++ framework for
  asynchronous network tasks. File names below are relative to that directory.

  \<^bold>\<open>The parts and how they interact.\<close> A user builds series and parallels of tasks (\<^verbatim>\<open>factory/Workflow.cc\<close>, \<^verbatim>\<open>kernel/SubTask.cc\<close>). A
  network task parses its URI (\<^verbatim>\<open>util/URIParser.cc\<close>), asks the upstream manager for a server (\<^verbatim>\<open>manager/UpstreamManager.cc\<close>) and
  resolves the host through the DNS cache (\<^verbatim>\<open>manager/DNSCache.cc\<close>), which is an instance of \<^verbatim>\<open>util/LRUCache.h\<close> on intrusive lists. The
  route manager (\<^verbatim>\<open>manager/RouteManager.cc\<close>) turns the addresses into a target or a group of targets of the communication scheduler
  (\<^verbatim>\<open>kernel/CommScheduler.cc\<close>), which picks the least loaded one. Messages are encoded and parsed by \<^verbatim>\<open>protocol/HttpMessage.cc\<close>, \<^verbatim>\<open>protocol/http_parser.c\<close>
  and \<^verbatim>\<open>protocol/HttpUtil.cc\<close>. Sockets and timers are watched by the poller (\<^verbatim>\<open>kernel/poller.c\<close>), whose deadlines are in a
  red-black tree (\<^verbatim>\<open>kernel/rbtree.c\<close>) that also keeps routes and server groups. Computing tasks run on the executor (\<^verbatim>\<open>kernel/Executor.cc\<close>, \<^verbatim>\<open>kernel/thrdpool.c\<close>).

  \<^bold>\<open>Theories, in the order of their imports.\<close>

  \<^item> \<open>Prelude\<close>: C strings, character classes, assertions as \<open>option\<close> values, lemmas on lists.
  \<^item> \<open>StringUtil\<close> (\<^verbatim>\<open>util/StringUtil.cc\<close>): URL coding, also in place in a buffer, splitting and stripping. Round trips and the refinement of the
    in-place decoder to the functional one.
  \<^item> \<open>URIParser\<close> (\<^verbatim>\<open>util/URIParser.cc\<close>): the table-driven parser, \<^verbatim>\<open>ParsedURI\<close> with its copies and moves, query and path splitting.
    Printing and parsing are inverse; outcomes on every branch, allocation failures included.
  \<^item> \<open>LinkedList\<close> (\<^verbatim>\<open>kernel/list.h\<close>): the list macros on a store of links, refined to lists. Traversals take fuel: the number of nodes
    plus one is enough, and the lemmas say so.
  \<^item> \<open>LRUCache\<close>, \<open>DNSCache\<close> (\<^verbatim>\<open>util/LRUCache.h\<close>, \<^verbatim>\<open>manager/DNSCache.cc\<close>): reference counts, the two lists and eviction; every client call
    returns without a failing assertion, held handles stay valid, nothing leaks. The list functions are reached through the locale \<open>intrusive_list\<close>, the
    cache through \<open>pinned_cache\<close>. Reference counts are unbounded integers.
  \<^item> \<open>Workflow\<close> (\<^verbatim>\<open>factory/Workflow.cc\<close>, \<^verbatim>\<open>kernel/SubTask.cc\<close>): the ring buffer of a series refined to a list (fewer than \<open>2 ^ 29\<close> pushes),
    dismissal, and the join counter of parallels, nested or with series as strands, under a rely condition on the rest of the program.
  \<^item> \<open>HeapOrder\<close>, \<open>CommSched\<close> (\<^verbatim>\<open>kernel/CommScheduler.cc\<close>): the array heap of targets ordered by relative load. The order and the sift
    lemmas are in the locale \<open>least_heap\<close>. Loads below \<open>2 ^ 32\<close> and at most \<open>2 ^ 30\<close> targets keep the 64-bit products and sums from wrapping.
    Waiting on a condition variable takes the list of wake-ups as an argument.
  \<^item> \<open>HttpParser\<close>, \<open>HttpMessage\<close>, \<open>HttpUtil\<close> (\<^verbatim>\<open>protocol\<close>): the incremental parser gives the same result however the stream is cut (locale
    \<open>resumable\<close>, used for headers and for chunks); what \<^verbatim>\<open>encode\<close> sends parses back; chunk cursors and header maps agree with the parser.
  \<^item> \<open>Upstream\<close>, \<open>UpstreamGet\<close>, \<open>UpstreamManager\<close> (\<^verbatim>\<open>manager/UpstreamManager.cc\<close>): server groups, weights, the circuit breaker and
    selection. An invariant over all reachable states, what \<^verbatim>\<open>get\<close> may answer, recovery of broken servers, and the manager by names. Failure counts stay
    below \<open>2 ^ 32\<close>; weights are unbounded integers.
  \<^item> \<open>RouteManager\<close> (\<^verbatim>\<open>manager/RouteManager.cc\<close>, \<^verbatim>\<open>util/MD5Util.cc\<close>): routers on top of \<open>CommSched\<close> through the locale \<open>target_group\<close>; a
    router never loses its last target, broken targets return, and a route does not depend on the order of its addresses.
  \<^item> \<open>RBTree\<close> (\<^verbatim>\<open>kernel/rbtree.c\<close>): the pointer algorithms on a store of nodes. Insertion and removal always return and keep a red-black tree (shapes
    and contexts describe what a store holds), traversal follows the order, the height is logarithmic.
  \<^item> \<open>Poller\<close>, \<open>PollerRun\<close> (\<^verbatim>\<open>kernel/poller.c\<close>): registered nodes, deadlines in a sorted list and a red-black tree, the timer, the pipe of removed nodes, reading
    of messages and the result queue. In every reachable state all calls return, no deadline is missed and exactly the nodes that are due time out; the faults of the event loop,
    of \<^verbatim>\<open>poller_mod\<close> and of \<^verbatim>\<open>poller_stop\<close> are theorems too. Times are unbounded integers; a wait for room in the result queue is not a step; \<^verbatim>\<open>timerfd_settime\<close> succeeds, and collecting and passing on
    the nodes that are due is one step although the mutex is released in between.
  \<^item> \<open>HttpTask\<close>, \<open>HttpTaskRun\<close> (\<^verbatim>\<open>factory/WFTaskFactory.inl\<close>, \<^verbatim>\<open>factory/HttpTaskImpl.cc\<close>): the HTTP client task, from its URL to its callback. Every method is a
    function on the task's record, and a run is a sequence of steps between creation and deletion with any answers of the network, the memory and the managers. The callback, which
    cannot set the redirect flag, runs once, the limits bound retries per redirect and redirects per failure, the request is the one of the URL; dropped tasks and the missing common limit are theorems too.
  \<^item> \<open>RouterTask\<close> (\<^verbatim>\<open>factory/WFTaskFactory.cc\<close>, \<^verbatim>\<open>algorithm/DNSRoutine.cc\<close>): the router task on top of \<open>DNSCache\<close> (through the interpretation of \<open>pinned_cache\<close>) and
    \<open>RouteManager\<close>; an answer of the resolver serves later tasks until its time to live is over.
  \<^item> \<open>Executor\<close> (\<^verbatim>\<open>kernel/Executor.cc\<close>, \<^verbatim>\<open>kernel/thrdpool.c\<close>): pool threads, requests and shutdown as an interleaving of steps, with threads that sleep on
    the condition variable and signals that are given after the mutex is released; order, progress without lost wake-ups and exactly-once handling.

  \<^bold>\<open>Conventions.\<close> Structures are records, pointers are numbers with 0 as null, stores are functions or maps. A failing assertion, a null pointer or a
  read outside a buffer is \<open>None\<close>; error codes are values of a datatype or a sum. The outcome of allocations, clocks, \<^verbatim>\<open>rand\<close>, \<^verbatim>\<open>std::shuffle\<close>, \<^verbatim>\<open>std::hash\<close>,
  the MD5 digest, \<^verbatim>\<open>pthread\<close> calls and what other threads do meanwhile are arguments. A function that holds one lock throughout is one step.

  \<^bold>\<open>Not modelled.\<close> The communicator and file input and output (\<^verbatim>\<open>kernel/Communicator.cc\<close>, \<^verbatim>\<open>kernel/IOService_linux.cc\<close>), whose branches are
  decided by system calls; \<^verbatim>\<open>kernel/mpoller.c\<close>, which forwards calls to one of several pollers, and \<^verbatim>\<open>util/EncodeStream.cc\<close>, which nothing uses; the base classes of tasks, which forward to the parts modelled; \<^verbatim>\<open>WFGlobal\<close> but for its ports, and logging; tests, the tutorial and the small programs
  under \<^verbatim>\<open>src/src\<close>.
\<close>

end
